(* ===== verification/Prelude.thy ===== *)
theory Prelude
  imports Main "HOL-Library.Word" "HOL-Library.List_Lexorder"
begin

text \<open>
  Shared vocabulary of the development: machine integers as words, byte strings, fallible
  results as sums with the error on the left, and the generic facts on lists and words that
  the component theories use.  C++ strings are byte strings here, so the lexicographic order
  of \<open>List_Lexorder\<close> on them is the order \<open>std::map\<close> and \<open>std::sort\<close> use.
\<close>

unbundle bit_operations_syntax

type_synonym byte = "8 word"
type_synonym bytes = "8 word list"
type_synonym i16 = "16 word"
type_synonym i32 = "32 word"
type_synonym i64 = "64 word"

named_theorems wire_append "how each write extends the buffer"
named_theorems wire_reads "which bytes a read consumes and what it returns"

definition str :: "string \<Rightarrow> bytes" where
  "str s = map of_char s"

lemma length_str [simp]: "length (str s) = length s"
  by (simp add: str_def)

subsection \<open>Results\<close>

definition rbind :: "('e + 'a) \<Rightarrow> ('a \<Rightarrow> 'e + 'b) \<Rightarrow> 'e + 'b" where
  "rbind m f = (case m of Inl e \<Rightarrow> Inl e | Inr x \<Rightarrow> f x)"

lemma rbind_simps [simp]:
  "rbind (Inl e) f = Inl e"
  "rbind (Inr x) f = f x"
  by (simp_all add: rbind_def)

lemma rbind_eq_Inr_iff: "rbind m f = Inr y \<longleftrightarrow> (\<exists>x. m = Inr x \<and> f x = Inr y)"
  by (cases m) auto

lemma rbind_cong [fundef_cong]:
  "m = m' \<Longrightarrow> (\<And>x. m' = Inr x \<Longrightarrow> f x = g x) \<Longrightarrow> rbind m f = rbind m' g"
  by (cases m') auto

subsection \<open>Lists\<close>

lemma drop_eq_append_length:
  assumes "drop i xs = ys @ zs" "i \<le> length xs"
  shows "i + length ys \<le> length xs" and "drop (i + length ys) xs = zs"
proof -
  have "length (drop i xs) = length ys + length zs"
    using assms(1) by simp
  then show "i + length ys \<le> length xs"
    using assms(2) by simp
  have "drop (i + length ys) xs = drop (length ys) (drop i xs)"
    by (simp add: add.commute)
  then show "drop (i + length ys) xs = zs"
    using assms(1) by simp
qed

lemma drop_eq_Cons_nth:
  assumes "drop i xs = y # zs"
  shows "i < length xs" and "xs ! i = y" and "drop (Suc i) xs = zs"
proof -
  show i: "i < length xs"
    using assms by (cases "i < length xs") auto
  show "xs ! i = y"
    using assms i by (metis hd_drop_conv_nth list.sel(1))
  show "drop (Suc i) xs = zs"
    using assms by (simp add: drop_Suc drop_tl)
qed

lemma fold_keeps: "P s \<Longrightarrow> (\<And>x s. P s \<Longrightarrow> P (f x s)) \<Longrightarrow> P (fold f xs s)"
  by (induction xs arbitrary: s) auto

lemma fold_keeps_mem: "P s \<Longrightarrow> (\<And>x s. x \<in> set xs \<Longrightarrow> P s \<Longrightarrow> P (f x s)) \<Longrightarrow> P (fold f xs s)"
  by (induction xs arbitrary: s) auto

subsection \<open>Words\<close>

lemma unat_ucast_down:
  "LENGTH('b) \<le> LENGTH('a) \<Longrightarrow> unat (ucast (w :: 'a::len word) :: 'b::len word) = unat w mod 2 ^ LENGTH('b)"
  by (simp add: unsigned_ucast_eq unsigned_take_bit_eq take_bit_eq_mod)

lemma word_be_fold:
  fixes v a :: "'a::len word"
  shows "foldl (\<lambda>acc (b :: byte). push_bit 8 acc OR ucast b) a
           (map (\<lambda>k. ucast (drop_bit (8 * k) v)) (rev [0..<n]))
         = push_bit (8 * n) a OR take_bit (8 * n) v"
proof (induction n arbitrary: a)
  case 0
  show ?case by (simp add: bit_eq_iff)
next
  case (Suc n)
  have "push_bit (8 * n) (push_bit 8 a OR ucast (ucast (drop_bit (8 * n) v) :: byte)) OR take_bit (8 * n) v
        = push_bit (8 * Suc n) a OR take_bit (8 * Suc n) v"
    by (rule bit_word_eqI)
       (auto simp: bit_simps algebra_simps not_less not_le intro: Suc_leI)
  then show ?case
    by (simp add: Suc.IH)
qed

subsection \<open>Numbers as text\<close>

text \<open>Decimal digits, as \<open>std::to_string\<close> prints a count.\<close>

function decimal :: "nat \<Rightarrow> bytes" where
  "decimal n = (if n < 10 then [word_of_nat (48 + n)] else decimal (n div 10) @ [word_of_nat (48 + n mod 10)])"
  by pat_completeness auto
termination by (relation "measure id") auto

declare decimal.simps [simp del]

text \<open>\<open>std::to_string\<close> and \<open>%lld\<close> of a signed number.\<close>

definition decimal_int :: "int \<Rightarrow> bytes" where
  "decimal_int k = (if k < 0 then 0x2D # decimal (nat (- k)) else decimal (nat k))"

end
