(* ===== verification/Wire.thy ===== *)
theory Wire
  imports Prelude
begin

text \<open>
  \<open>include/swordfish/kafka/wire.hh\<close>: the Kafka wire primitives.  The writer is its buffer
  and every operation returns the extended buffer; the reader is a buffer with a position and
  every operation returns an error or a value with the advanced reader.  Signed and unsigned
  integers of one width are the same word type, read with \<open>sint\<close> or \<open>unat\<close>.
\<close>

lemma unat_drop_7: "unat (drop_bit 7 v) = unat v div 128"
  unfolding unat_drop_bit_eq by (simp add: drop_bit_eq_div)

section \<open>Errors\<close>

text \<open>One constructor per \<open>throw protocol_error(...)\<close> of the Kafka layer.\<close>

datatype protocol_error =
    Truncated nat nat
  | Varint_Too_Long
  | Varlong_Too_Long
  | Null_String
  | Null_Bytes
  | Array_Too_Long int nat
  | Seek_Past_End
  | Negative_Record_Length
  | Null_Header_Key
  | Negative_Batch_Length
  | Bad_Magic byte
  | Crc_Mismatch
  | Negative_Record_Count
  | Too_Many_Records int nat
  | Unknown_Codec
  | Codec_Failure string
  | Length_Out_Of_Range int

section \<open>Writer\<close>

type_synonym writer = bytes

definition w_u8 :: "byte \<Rightarrow> writer \<Rightarrow> writer" where
  "w_u8 v w = w @ [v]"

definition w_boolean :: "bool \<Rightarrow> writer \<Rightarrow> writer" where
  "w_boolean v w = w_u8 (if v then 1 else 0) w"

definition w_be :: "nat \<Rightarrow> 'a::len word \<Rightarrow> writer \<Rightarrow> writer" where
  "w_be n v w = w @ map (\<lambda>i. ucast (drop_bit (8 * (n - 1 - i)) v)) [0..<n]"

definition w_i16 :: "i16 \<Rightarrow> writer \<Rightarrow> writer" where "w_i16 v w = w_be 2 v w"
definition w_i32 :: "i32 \<Rightarrow> writer \<Rightarrow> writer" where "w_i32 v w = w_be 4 v w"
definition w_i64 :: "i64 \<Rightarrow> writer \<Rightarrow> writer" where "w_i64 v w = w_be 8 v w"

text \<open>Unsigned LEB128; the loop body is the same for both widths.\<close>

function w_uvar :: "'a::len word \<Rightarrow> writer \<Rightarrow> writer" where
  "w_uvar v w =
     (if unat v \<ge> 0x80 then w_uvar (drop_bit 7 v) (w_u8 (ucast v OR 0x80) w)
      else w_u8 (ucast v) w)"
  by pat_completeness auto
termination
  by (relation "measure (\<lambda>(v, w). unat v)") (simp_all add: unat_drop_7)

declare w_uvar.simps [simp del]

definition w_uvarint :: "i32 \<Rightarrow> writer \<Rightarrow> writer" where "w_uvarint v w = w_uvar v w"
definition w_uvarlong :: "i64 \<Rightarrow> writer \<Rightarrow> writer" where "w_uvarlong v w = w_uvar v w"

definition zigzag :: "'a::len word \<Rightarrow> 'a word" where
  "zigzag v = push_bit 1 v XOR signed_drop_bit (LENGTH('a) - 1) v"

definition w_varint :: "i32 \<Rightarrow> writer \<Rightarrow> writer" where "w_varint v w = w_uvarint (zigzag v) w"
definition w_varlong :: "i64 \<Rightarrow> writer \<Rightarrow> writer" where "w_varlong v w = w_uvarlong (zigzag v) w"

definition w_raw :: "bytes \<Rightarrow> writer \<Rightarrow> writer" where
  "w_raw s w = w @ s"

definition w_string :: "bool \<Rightarrow> bytes \<Rightarrow> writer \<Rightarrow> writer" where
  "w_string flexible s w =
     w_raw s (if flexible then w_uvarint (of_nat (length s) + 1) w
              else w_i16 (of_nat (length s)) w)"

definition w_nullable_string :: "bool \<Rightarrow> bytes option \<Rightarrow> writer \<Rightarrow> writer" where
  "w_nullable_string flexible s w =
     (case s of
        None \<Rightarrow> if flexible then w_uvarint 0 w else w_i16 (-1) w
      | Some s \<Rightarrow> w_string flexible s w)"

definition w_bytes :: "bool \<Rightarrow> bytes \<Rightarrow> writer \<Rightarrow> writer" where
  "w_bytes flexible s w =
     w_raw s (if flexible then w_uvarint (of_nat (length s) + 1) w
              else w_i32 (of_nat (length s)) w)"

definition w_nullable_bytes :: "bool \<Rightarrow> bytes option \<Rightarrow> writer \<Rightarrow> writer" where
  "w_nullable_bytes flexible s w =
     (case s of
        None \<Rightarrow> if flexible then w_uvarint 0 w else w_i32 (-1) w
      | Some s \<Rightarrow> w_bytes flexible s w)"

definition w_array_len :: "bool \<Rightarrow> nat \<Rightarrow> writer \<Rightarrow> writer" where
  "w_array_len flexible n w =
     (if flexible then w_uvarint (of_nat n + 1) w else w_i32 (of_nat n) w)"

definition w_null_array :: "bool \<Rightarrow> writer \<Rightarrow> writer" where
  "w_null_array flexible w = (if flexible then w_uvarint 0 w else w_i32 (-1) w)"

definition w_empty_tags :: "writer \<Rightarrow> writer" where
  "w_empty_tags w = w_uvarint 0 w"

text \<open>Overwrites four bytes in place; the caller has reserved them.\<close>

definition w_patch_i32 :: "nat \<Rightarrow> i32 \<Rightarrow> writer \<Rightarrow> writer" where
  "w_patch_i32 at v w =
     w[at := ucast (drop_bit 24 v), at + 1 := ucast (drop_bit 16 v),
       at + 2 := ucast (drop_bit 8 v), at + 3 := ucast v]"

definition w_with_i32_length :: "(writer \<Rightarrow> writer) \<Rightarrow> writer \<Rightarrow> writer" where
  "w_with_i32_length f w =
     (let at = length w; w' = f (w_i32 0 w)
      in w_patch_i32 at (of_nat (length w' - at - 4)) w')"

section \<open>Reader\<close>

record reader =
  rd_buf :: bytes
  rd_pos :: nat

type_synonym 'a read = "reader \<Rightarrow> protocol_error + 'a \<times> reader"

definition reader_on :: "bytes \<Rightarrow> reader" where
  "reader_on b = \<lparr>rd_buf = b, rd_pos = 0\<rparr>"

definition r_return :: "'a \<Rightarrow> 'a read" where
  "r_return x r = Inr (x, r)"

definition r_throw :: "protocol_error \<Rightarrow> 'a read" where
  "r_throw e r = Inl e"

definition r_bind :: "'a read \<Rightarrow> ('a \<Rightarrow> 'b read) \<Rightarrow> 'b read" where
  "r_bind m f r = rbind (m r) (\<lambda>(x, r'). f x r')"

definition remaining :: "reader \<Rightarrow> nat" where
  "remaining r = length (rd_buf r) - rd_pos r"

definition r_rest :: "reader \<Rightarrow> bytes" where
  "r_rest r = drop (rd_pos r) (rd_buf r)"

definition r_empty :: "reader \<Rightarrow> bool" where
  "r_empty r \<longleftrightarrow> rd_pos r \<ge> length (rd_buf r)"

definition r_seek :: "nat \<Rightarrow> unit read" where
  "r_seek at r = (if at > length (rd_buf r) then Inl Seek_Past_End else Inr ((), r\<lparr>rd_pos := at\<rparr>))"

definition need :: "nat \<Rightarrow> reader \<Rightarrow> protocol_error + unit" where
  "need n r =
     (if rd_pos r + n > length (rd_buf r)
      then Inl (Truncated n (length (rd_buf r) - rd_pos r)) else Inr ())"

definition r_u8 :: "byte read" where
  "r_u8 r = rbind (need 1 r) (\<lambda>_. Inr (rd_buf r ! rd_pos r, r\<lparr>rd_pos := rd_pos r + 1\<rparr>))"

definition r_boolean :: "bool read" where
  "r_boolean = r_bind r_u8 (\<lambda>b. r_return (b \<noteq> 0))"

definition r_be :: "nat \<Rightarrow> 'a::len word read" where
  "r_be n r = rbind (need n r) (\<lambda>_.
     Inr (foldl (\<lambda>v b. push_bit 8 v OR ucast b) 0 (take n (drop (rd_pos r) (rd_buf r))),
          r\<lparr>rd_pos := rd_pos r + n\<rparr>))"

definition r_i16 :: "i16 read" where "r_i16 = r_be 2"
definition r_i32 :: "i32 read" where "r_i32 = r_be 4"
definition r_i64 :: "i64 read" where "r_i64 = r_be 8"

text \<open>\<open>for (shift = 0; shift \<le> limit; shift += 7)\<close>: limit 28 for 32 bits, 63 for 64.\<close>

function r_uvar :: "protocol_error \<Rightarrow> nat \<Rightarrow> nat \<Rightarrow> 'a::len word \<Rightarrow> 'a word read" where
  "r_uvar e limit shift v r =
     (if shift \<le> limit then
        rbind (r_u8 r) (\<lambda>(byte, r').
          let v' = v OR push_bit shift (ucast (byte AND 0x7F))
          in if byte AND 0x80 = 0 then Inr (v', r') else r_uvar e limit (shift + 7) v' r')
      else Inl e)"
  by pat_completeness auto
termination
  by (relation "measure (\<lambda>(e, limit, shift, v, r). limit + 7 - shift)") auto

declare r_uvar.simps [simp del]

definition r_uvarint :: "i32 read" where "r_uvarint = r_uvar Varint_Too_Long 28 0 0"
definition r_uvarlong :: "i64 read" where "r_uvarlong = r_uvar Varlong_Too_Long 63 0 0"

definition unzigzag :: "'a::len word \<Rightarrow> 'a word" where
  "unzigzag u = drop_bit 1 u XOR (NOT (u AND 1) + 1)"

definition r_varint :: "i32 read" where
  "r_varint = r_bind r_uvarint (\<lambda>u. r_return (unzigzag u))"
definition r_varlong :: "i64 read" where
  "r_varlong = r_bind r_uvarlong (\<lambda>u. r_return (unzigzag u))"

definition r_raw :: "nat \<Rightarrow> bytes read" where
  "r_raw n r = rbind (need n r) (\<lambda>_.
     Inr (take n (drop (rd_pos r) (rd_buf r)), r\<lparr>rd_pos := rd_pos r + n\<rparr>))"

definition r_nullable_string :: "bool \<Rightarrow> bytes option read" where
  "r_nullable_string flexible =
     (if flexible then
        r_bind r_uvarint (\<lambda>x. if x = 0 then r_return None
          else r_bind (r_raw (nat (uint x - 1))) (\<lambda>s. r_return (Some s)))
      else
        r_bind r_i16 (\<lambda>n. if sint n < 0 then r_return None
          else r_bind (r_raw (nat (sint n))) (\<lambda>s. r_return (Some s))))"

definition r_string :: "bool \<Rightarrow> bytes read" where
  "r_string flexible = r_bind (r_nullable_string flexible)
     (\<lambda>s. case s of None \<Rightarrow> r_throw Null_String | Some s \<Rightarrow> r_return s)"

definition r_nullable_bytes :: "bool \<Rightarrow> bytes option read" where
  "r_nullable_bytes flexible =
     (if flexible then
        r_bind r_uvarint (\<lambda>x. if x = 0 then r_return None
          else r_bind (r_raw (nat (uint x - 1))) (\<lambda>s. r_return (Some s)))
      else
        r_bind r_i32 (\<lambda>n. if sint n < 0 then r_return None
          else r_bind (r_raw (nat (sint n))) (\<lambda>s. r_return (Some s))))"

definition r_bytes :: "bool \<Rightarrow> bytes read" where
  "r_bytes flexible = r_bind (r_nullable_bytes flexible)
     (\<lambda>s. case s of None \<Rightarrow> r_throw Null_Bytes | Some s \<Rightarrow> r_return s)"

definition r_checked_len :: "int \<Rightarrow> int read" where
  "r_checked_len n r =
     (if nat n > remaining r then Inl (Array_Too_Long n (remaining r)) else Inr (n, r))"

definition r_array_len :: "bool \<Rightarrow> int read" where
  "r_array_len flexible =
     (if flexible then
        r_bind r_uvarint (\<lambda>x. if x = 0 then r_return (- 1) else r_checked_len (uint x - 1))
      else
        r_bind r_i32 (\<lambda>n. if sint n < 0 then r_return (sint n) else r_checked_len (sint n)))"

fun r_skip_tags_loop :: "nat \<Rightarrow> unit read" where
  "r_skip_tags_loop 0 r = Inr ((), r)"
| "r_skip_tags_loop (Suc n) r =
     rbind (r_uvarint r) (\<lambda>(_, r1). rbind (r_uvarint r1) (\<lambda>(size, r2).
       rbind (r_raw (unat size) r2) (\<lambda>(_, r3). r_skip_tags_loop n r3)))"

definition r_skip_tags :: "unit read" where
  "r_skip_tags = r_bind r_uvarint (\<lambda>n. r_skip_tags_loop (unat n))"

end
