(* ===== verification/Wire_Laws.thy ===== *)
theory Wire_Laws
  imports Wire
begin

text \<open>
  What the wire primitives promise: every write appends bytes that depend on the value alone,
  and every read consumes exactly the bytes its write produced and returns the value.  The
  locale \<open>wire_codec\<close> is that contract; the codecs built from the primitives are proved
  against it.
\<close>

section \<open>Writes append\<close>

lemma w_u8_append [wire_append]: "w_u8 v w = w @ [v]"
  by (simp add: w_u8_def)

lemma w_be_append: "w_be n v w = w @ w_be n v []"
  by (simp add: w_be_def)

lemma w_uvar_append: "w_uvar v w = w @ w_uvar v []"
proof (induction v arbitrary: w rule: measure_induct_rule [of unat])
  case (less v)
  show ?case
  proof (cases "unat v \<ge> 0x80")
    case True
    then have "unat (drop_bit 7 v) < unat v"
      by (simp add: unat_drop_7)
    from less.IH [OF this, of "w_u8 (ucast v OR 0x80) w"]
      less.IH [OF this, of "w_u8 (ucast v OR 0x80) []"] True
    show ?thesis
      by (simp add: w_uvar.simps [of v] w_u8_def)
  next
    case False
    then show ?thesis
      by (simp add: w_uvar.simps [of v] w_u8_def)
  qed
qed

lemma w_uvar_Nil:
  "w_uvar v [] =
     (if unat v \<ge> 0x80 then (ucast v OR 0x80) # w_uvar (drop_bit 7 v) [] else [ucast v])"
  using w_uvar_append [of "drop_bit 7 v" "[ucast v OR 0x80]"]
  by (simp add: w_uvar.simps [of v] w_u8_def)

lemma w_i16_append [wire_append]: "NO_MATCH [] w \<Longrightarrow> w_i16 v w = w @ w_i16 v []"
  unfolding w_i16_def by (rule w_be_append)
lemma w_i32_append [wire_append]: "NO_MATCH [] w \<Longrightarrow> w_i32 v w = w @ w_i32 v []"
  unfolding w_i32_def by (rule w_be_append)
lemma w_i64_append [wire_append]: "NO_MATCH [] w \<Longrightarrow> w_i64 v w = w @ w_i64 v []"
  unfolding w_i64_def by (rule w_be_append)
lemma w_uvarint_append [wire_append]: "NO_MATCH [] w \<Longrightarrow> w_uvarint v w = w @ w_uvarint v []"
  unfolding w_uvarint_def by (rule w_uvar_append)
lemma w_uvarlong_append [wire_append]: "NO_MATCH [] w \<Longrightarrow> w_uvarlong v w = w @ w_uvarlong v []"
  unfolding w_uvarlong_def by (rule w_uvar_append)
lemma w_varint_append [wire_append]: "NO_MATCH [] w \<Longrightarrow> w_varint v w = w @ w_varint v []"
  unfolding w_varint_def by (rule w_uvarint_append)
lemma w_varlong_append [wire_append]: "NO_MATCH [] w \<Longrightarrow> w_varlong v w = w @ w_varlong v []"
  unfolding w_varlong_def by (rule w_uvarlong_append)
lemma w_raw_append [wire_append]: "w_raw s w = w @ s"
  by (simp add: w_raw_def)

lemma w_string_append [wire_append]: "NO_MATCH [] w \<Longrightarrow> w_string f s w = w @ w_string f s []"
  by (simp add: w_string_def wire_append)
lemma w_bytes_append [wire_append]: "NO_MATCH [] w \<Longrightarrow> w_bytes f s w = w @ w_bytes f s []"
  by (simp add: w_bytes_def wire_append)
lemma w_nullable_string_append [wire_append]:
  "NO_MATCH [] w \<Longrightarrow> w_nullable_string f s w = w @ w_nullable_string f s []"
  by (simp add: w_nullable_string_def wire_append split: option.split)
lemma w_nullable_bytes_append [wire_append]:
  "NO_MATCH [] w \<Longrightarrow> w_nullable_bytes f s w = w @ w_nullable_bytes f s []"
  by (simp add: w_nullable_bytes_def wire_append split: option.split)
lemma w_array_len_append [wire_append]:
  "NO_MATCH [] w \<Longrightarrow> w_array_len f n w = w @ w_array_len f n []"
  by (simp add: w_array_len_def wire_append)
lemma w_empty_tags_append [wire_append]: "NO_MATCH [] w \<Longrightarrow> w_empty_tags w = w @ w_empty_tags []"
  by (simp add: w_empty_tags_def wire_append)

section \<open>Reads\<close>

text \<open>
  \<open>reads_if P p bs x\<close>: whenever the unread bytes are \<open>bs\<close> followed by a tail satisfying
  \<open>P\<close>, the reader operation \<open>p\<close> returns \<open>x\<close> and stands right after \<open>bs\<close>.
\<close>

definition reads_if :: "(bytes \<Rightarrow> bool) \<Rightarrow> 'a read \<Rightarrow> bytes \<Rightarrow> 'a \<Rightarrow> bool" where
  "reads_if P p bs x \<longleftrightarrow> (\<forall>r ts. rd_pos r \<le> length (rd_buf r) \<longrightarrow>
     drop (rd_pos r) (rd_buf r) = bs @ ts \<longrightarrow> P ts \<longrightarrow>
     p r = Inr (x, r\<lparr>rd_pos := rd_pos r + length bs\<rparr>))"

abbreviation reads :: "'a read \<Rightarrow> bytes \<Rightarrow> 'a \<Rightarrow> bool" where
  "reads \<equiv> reads_if (\<lambda>_. True)"

lemma reads_ifD:
  "reads_if P p bs x \<Longrightarrow> rd_pos r \<le> length (rd_buf r) \<Longrightarrow> drop (rd_pos r) (rd_buf r) = bs @ ts \<Longrightarrow> P ts
   \<Longrightarrow> p r = Inr (x, r\<lparr>rd_pos := rd_pos r + length bs\<rparr>)"
  by (simp add: reads_if_def)

lemma reads_weaken: "reads p bs x \<Longrightarrow> reads_if P p bs x"
  by (auto simp: reads_if_def)

lemma reads_return [wire_reads]: "reads_if P (r_return x) [] x"
  by (simp add: reads_if_def r_return_def)

lemma reads_bind_if:
  assumes p: "reads_if P p bs x" and f: "reads_if Q (f x) cs y"
    and PQ: "\<And>ts. Q ts \<Longrightarrow> P (cs @ ts)"
  shows "reads_if Q (r_bind p f) (bs @ cs) y"
  unfolding reads_if_def
proof (intro allI impI)
  fix r :: reader and ts
  assume pos: "rd_pos r \<le> length (rd_buf r)"
    and buf: "drop (rd_pos r) (rd_buf r) = (bs @ cs) @ ts" and Q: "Q ts"
  let ?r = "r\<lparr>rd_pos := rd_pos r + length bs\<rparr>"
  from buf have buf': "drop (rd_pos r) (rd_buf r) = bs @ (cs @ ts)" by simp
  have 1: "p r = Inr (x, ?r)"
    by (rule reads_ifD [OF p pos buf' PQ [OF Q]])
  have "rd_pos ?r \<le> length (rd_buf ?r)" "drop (rd_pos ?r) (rd_buf ?r) = cs @ ts"
    using drop_eq_append_length [OF buf' pos] by simp_all
  from reads_ifD [OF f this Q] 1
  show "r_bind p f r = Inr (y, r\<lparr>rd_pos := rd_pos r + length (bs @ cs)\<rparr>)"
    by (simp add: r_bind_def add.assoc)
qed

lemma reads_bind:
  "reads p bs x \<Longrightarrow> reads_if Q (f x) cs y \<Longrightarrow> ds = bs @ cs \<Longrightarrow> reads_if Q (r_bind p f) ds y"
  by (auto intro: reads_bind_if)

lemma reads_bind_last:
  "reads_if Q p bs x \<Longrightarrow> f x = r_return y \<Longrightarrow> reads_if Q (r_bind p f) bs y"
  using reads_bind_if [of Q p bs x Q f "[]" y] by (simp add: reads_return)

text \<open>The same for a read that stops with an error.\<close>

definition fails_if :: "(bytes \<Rightarrow> bool) \<Rightarrow> 'a read \<Rightarrow> bytes \<Rightarrow> protocol_error \<Rightarrow> bool" where
  "fails_if P p bs e \<longleftrightarrow> (\<forall>r ts. rd_pos r \<le> length (rd_buf r) \<longrightarrow>
     drop (rd_pos r) (rd_buf r) = bs @ ts \<longrightarrow> P ts \<longrightarrow> p r = Inl e)"

lemma fails_throw: "fails_if P (r_throw e) bs e"
  by (simp add: fails_if_def r_throw_def)

lemma fails_bind:
  assumes p: "reads p bs x" and f: "fails_if Q (f x) cs e" and ds: "ds = bs @ cs"
  shows "fails_if Q (r_bind p f) ds e"
  unfolding fails_if_def
proof (intro allI impI)
  fix r :: reader and ts
  assume pos: "rd_pos r \<le> length (rd_buf r)"
    and buf: "drop (rd_pos r) (rd_buf r) = ds @ ts" and Q: "Q ts"
  let ?r = "r\<lparr>rd_pos := rd_pos r + length bs\<rparr>"
  from buf have buf': "drop (rd_pos r) (rd_buf r) = bs @ (cs @ ts)" by (simp add: ds)
  have "p r = Inr (x, ?r)"
    by (rule reads_ifD [OF p pos buf' TrueI])
  moreover have "rd_pos ?r \<le> length (rd_buf ?r)" "drop (rd_pos ?r) (rd_buf ?r) = cs @ ts"
    using drop_eq_append_length [OF buf' pos] by simp_all
  ultimately show "r_bind p f r = Inl e"
    using f Q by (simp add: fails_if_def r_bind_def)
qed

lemma reads_on: "reads p bs x \<Longrightarrow> p (reader_on (bs @ ts)) = Inr (x, \<lparr>rd_buf = bs @ ts, rd_pos = length bs\<rparr>)"
  by (auto simp: reads_if_def reader_on_def)

lemma need_ok: "rd_pos r + n \<le> length (rd_buf r) \<Longrightarrow> need n r = Inr ()"
  by (simp add: need_def)

lemma reads_u8 [wire_reads]: "reads r_u8 [b] b"
  unfolding reads_if_def
proof (intro allI impI)
  fix r :: reader and ts
  assume "drop (rd_pos r) (rd_buf r) = [b] @ ts"
  then have "rd_pos r < length (rd_buf r)" "rd_buf r ! rd_pos r = b"
    using drop_eq_Cons_nth [of "rd_pos r" "rd_buf r" b ts] by auto
  then show "r_u8 r = Inr (b, r\<lparr>rd_pos := rd_pos r + length [b]\<rparr>)"
    by (simp add: r_u8_def need_ok)
qed

lemma reads_boolean [wire_reads]: "reads r_boolean (w_boolean b []) b"
  unfolding r_boolean_def w_boolean_def w_u8_def
  by (auto intro!: reads_bind_last [OF reads_u8, simplified])

lemma reads_raw [wire_reads]: "n = length s \<Longrightarrow> reads (r_raw n) s s"
  unfolding reads_if_def
proof (intro allI impI)
  fix r :: reader and ts
  assume n: "n = length s" and pos: "rd_pos r \<le> length (rd_buf r)"
    and buf: "drop (rd_pos r) (rd_buf r) = s @ ts"
  show "r_raw n r = Inr (s, r\<lparr>rd_pos := rd_pos r + length s\<rparr>)"
    using drop_eq_append_length [OF buf pos] n buf by (simp add: r_raw_def need_ok)
qed

lemma w_be_fold_bytes:
  "w_be n v [] = map (\<lambda>k. ucast (drop_bit (8 * k) v)) (rev [0..<n])"
  by (rule nth_equalityI) (simp_all add: w_be_def rev_nth algebra_simps)

lemma length_w_be [simp]: "length (w_be n v []) = n"
  by (simp add: w_be_def)

lemma reads_be:
  assumes "8 * n = LENGTH('a::len)"
  shows "reads (r_be n) (w_be n (v :: 'a word) []) v"
  unfolding reads_if_def
proof (intro allI impI)
  fix r :: reader and ts
  assume pos: "rd_pos r \<le> length (rd_buf r)"
    and buf: "drop (rd_pos r) (rd_buf r) = w_be n v [] @ ts"
  have "foldl (\<lambda>v b. push_bit 8 v OR ucast b) 0 (w_be n v []) = v"
    using assms by (simp add: w_be_fold_bytes word_be_fold)
  then show "r_be n r = Inr (v, r\<lparr>rd_pos := rd_pos r + length (w_be n v [])\<rparr>)"
    using drop_eq_append_length [OF buf pos] buf by (simp add: r_be_def need_ok)
qed

lemma reads_i16 [wire_reads]: "reads r_i16 (w_i16 v []) v"
  unfolding r_i16_def w_i16_def by (rule reads_be) simp
lemma reads_i32 [wire_reads]: "reads r_i32 (w_i32 v []) v"
  unfolding r_i32_def w_i32_def by (rule reads_be) simp
lemma reads_i64 [wire_reads]: "reads r_i64 (w_i64 v []) v"
  unfolding r_i64_def w_i64_def by (rule reads_be) simp

subsection \<open>Variable-length integers\<close>

lemma mask7: "(0x7F :: byte) = mask 7"
  by (simp add: mask_eq_exp_minus_1)

lemma bit_0x80: "bit (0x80 :: byte) k \<longleftrightarrow> k = 7"
proof -
  have "(0x80 :: byte) = 2 ^ 7"
    by simp
  then show ?thesis
    by (simp only: bit_exp_iff) auto
qed

lemma low_bits_kept: "ucast ((ucast (u :: 'a::len word) OR 0x80 :: byte) AND 0x7F) = take_bit 7 u"
proof -
  have "take_bit 7 (0x80 :: byte) = 0"
    by simp
  then have "(ucast u OR 0x80 :: byte) AND 0x7F = take_bit 7 (ucast u)"
    unfolding mask7 by (simp only: take_bit_eq_mask [symmetric] take_bit_or or.right_neutral)
  moreover have "ucast (take_bit 7 (ucast u :: byte)) = take_bit 7 u"
    by (rule bit_word_eqI) (auto simp: bit_simps)
  ultimately show ?thesis
    by simp
qed

lemma uvar_bits:
  fixes u acc :: "'a::len word"
  shows "(acc OR push_bit s (take_bit 7 u)) OR push_bit (s + 7) (drop_bit 7 u) = acc OR push_bit s u"
proof (rule bit_word_eqI)
  fix n
  assume "n < LENGTH('a)"
  then show "bit ((acc OR push_bit s (take_bit 7 u)) OR push_bit (s + 7) (drop_bit 7 u)) n
        = bit (acc OR push_bit s u) n"
    by (cases "n < s + 7") (auto simp: bit_or_iff bit_push_bit_iff bit_take_bit_iff bit_drop_bit_eq)
qed

lemma high_bit_set: "(ucast (u :: 'a::len word) OR 0x80 :: byte) AND 0x80 = 0x80"
  by (rule bit_word_eqI) (auto simp: bit_and_iff bit_or_iff)

lemma high_bit_clear:
  assumes "unat (u :: 'a::len word) < 128"
  shows "(ucast u :: byte) AND 0x80 = 0" and "ucast ((ucast u :: byte) AND 0x7F) = u"
proof -
  have u: "take_bit 7 u = u"
    using assms by (simp add: word_unat_eq_iff unsigned_take_bit_eq take_bit_nat_eq_self)
  have "take_bit 7 (ucast u :: byte) = ucast (take_bit 7 u)"
    by (rule bit_word_eqI) (auto simp: bit_simps)
  then have small: "take_bit 7 (ucast u :: byte) = ucast u"
    by (simp add: u)
  have "bit ((ucast u :: byte) AND 0x80) k = False" for k
    using arg_cong [OF small, of "\<lambda>w. bit w k"]
    unfolding bit_and_iff bit_take_bit_iff bit_0x80 by auto
  then show "(ucast u :: byte) AND 0x80 = 0"
    by (simp add: bit_eq_iff)
  have "(ucast (ucast u :: byte) :: 'a word) = take_bit 8 u"
    by (rule bit_word_eqI) (auto simp: bit_simps)
  also have "\<dots> = take_bit 8 (take_bit 7 u)"
    by (simp only: u)
  also have "\<dots> = take_bit 7 u"
    by simp
  finally have "(ucast (ucast u :: byte) :: 'a word) = u"
    by (simp only: u)
  then show "ucast ((ucast u :: byte) AND 0x7F) = u"
    unfolding mask7 take_bit_eq_mask [symmetric] small .
qed

lemma r_uvar_step:
  "shift \<le> limit \<Longrightarrow> r_uvar e limit shift acc = r_bind r_u8 (\<lambda>b.
     let v' = acc OR push_bit shift (ucast (b AND 0x7F))
     in if b AND 0x80 = 0 then r_return v' else r_uvar e limit (shift + 7) v')"
  by (intro ext) (simp add: r_uvar.simps [of e limit shift acc] r_bind_def r_return_def
      rbind_def Let_def split: sum.split)

lemma reads_uvar_last:
  assumes "unat (u :: 'a::len word) < 128" and "shift \<le> limit"
  shows "reads (r_uvar e limit shift acc) (w_uvar u []) (acc OR push_bit shift u)"
proof -
  have "w_uvar u [] = [ucast u]"
    using assms(1) by (simp add: w_uvar_Nil)
  then show ?thesis
    unfolding r_uvar_step [OF assms(2)]
    by (auto intro!: reads_bind_last reads_u8
        simp: Let_def high_bit_clear(1) [OF assms(1)] high_bit_clear(2) [OF assms(1)])
qed

lemma reads_uvar:
  "unat (u :: 'a::len word) < 2 ^ (7 * (k + 1)) \<Longrightarrow> limit = shift + 7 * k \<Longrightarrow>
   reads (r_uvar e limit shift acc) (w_uvar u []) (acc OR push_bit shift u)"
proof (induction k arbitrary: shift acc u)
  case 0
  then show ?case
    by (intro reads_uvar_last) auto
next
  case (Suc k)
  show ?case
  proof (cases "unat u < 128")
    case True
    then show ?thesis
      using Suc.prems(2) by (intro reads_uvar_last) auto
  next
    case False
    let ?b = "ucast u OR 0x80 :: byte"
    let ?acc = "acc OR push_bit shift (take_bit 7 u)"
    have bytes: "w_uvar u [] = [?b] @ w_uvar (drop_bit 7 u) []"
      using False by (simp add: w_uvar_Nil)
    have "unat (drop_bit 7 u) < 2 ^ (7 * (k + 1))"
      using Suc.prems(1) by (simp add: unat_drop_7 power_add less_mult_imp_div_less)
    moreover have "limit = (shift + 7) + 7 * k"
      using Suc.prems(2) by simp
    ultimately have rest: "reads (r_uvar e limit (shift + 7) ?acc) (w_uvar (drop_bit 7 u) []) (acc OR push_bit shift u)"
      using Suc.IH [of "drop_bit 7 u" "shift + 7" ?acc] unfolding uvar_bits by blast
    have "shift \<le> limit"
      using Suc.prems(2) by simp
    then show ?thesis
      unfolding r_uvar_step [OF \<open>shift \<le> limit\<close>]
      by (intro reads_bind [OF reads_u8 [of ?b] _ bytes])
         (simp only: Let_def low_bits_kept high_bit_set, simp add: rest)
  qed
qed

lemma reads_uvarint [wire_reads]: "reads r_uvarint (w_uvarint v []) v"
proof -
  have "unat v < 2 ^ (7 * (4 + 1))"
    using unsigned_less [of v, where 'a = nat] by simp
  from reads_uvar [OF this, where limit = 28 and shift = 0 and acc = 0] show ?thesis
    by (simp add: r_uvarint_def w_uvarint_def)
qed

lemma reads_uvarlong [wire_reads]: "reads r_uvarlong (w_uvarlong v []) v"
proof -
  have "unat v < 2 ^ (7 * (9 + 1))"
    using unsigned_less [of v, where 'a = nat] by simp
  from reads_uvar [OF this, where limit = 63 and shift = 0 and acc = 0] show ?thesis
    by (simp add: r_uvarlong_def w_uvarlong_def)
qed

lemma sign_mask:
  "signed_drop_bit (LENGTH('a) - 1) v = (if bit v (LENGTH('a) - 1) then - 1 else 0 :: 'a::len word)"
proof (rule bit_word_eqI)
  fix n
  assume "n < LENGTH('a)"
  then show "bit (signed_drop_bit (LENGTH('a) - 1) v) n
      = bit (if bit v (LENGTH('a) - 1) then - 1 else 0 :: 'a word) n"
    by (cases n) (auto simp: bit_signed_drop_bit_iff)
qed

lemma unzigzag_bits:
  assumes "m = - 1 \<or> m = (0 :: 'a::len word)" and "m = (if bit v (LENGTH('a) - 1) then - 1 else 0)"
  shows "drop_bit 1 (push_bit 1 v XOR m) XOR m = v"
proof (rule bit_word_eqI)
  fix n
  assume n: "n < LENGTH('a)"
  show "bit (drop_bit 1 (push_bit 1 v XOR m) XOR m) n = bit v n"
  proof (cases "n = LENGTH('a) - 1")
    case True
    have "bit (drop_bit 1 (push_bit 1 v XOR m)) n = False"
      using True by (simp only: bit_drop_bit_eq comp_def) (simp add: impossible_bit)
    moreover have "bit m n = bit v n"
      using assms(2) n True by (simp split: if_splits)
    ultimately show ?thesis
      by (simp only: bit_xor_iff) simp
  next
    case False
    then have "1 + n < LENGTH('a)" using n by simp
    then show ?thesis
      using assms(1) n by (auto simp only: bit_xor_iff bit_drop_bit_eq bit_push_bit_iff comp_def
          bit_minus_1_iff bit_0_eq possible_bit_word bot_apply diff_add_inverse)
  qed
qed

lemma unzigzag_zigzag: "unzigzag (zigzag v) = (v :: 'a::len word)"
proof -
  let ?m = "if bit v (LENGTH('a) - 1) then - 1 else 0 :: 'a word"
  have "bit (zigzag v AND 1) n = bit (if bit v (LENGTH('a) - 1) then 1 else 0 :: 'a word) n" for n
    unfolding zigzag_def sign_mask bit_and_iff bit_xor_iff bit_push_bit_iff bit_1_iff
    by (cases n) (auto simp: bit_1_iff)
  then have "zigzag v AND 1 = (if bit v (LENGTH('a) - 1) then 1 else 0)"
    by (intro bit_word_eqI) blast
  then have "NOT (zigzag v AND 1) + 1 = ?m"
    by simp
  moreover have "drop_bit 1 (push_bit 1 v XOR ?m) XOR ?m = v"
    by (rule unzigzag_bits) auto
  ultimately show ?thesis
    by (simp only: unzigzag_def zigzag_def sign_mask)
qed

lemma reads_varint [wire_reads]: "reads r_varint (w_varint v []) v"
  unfolding r_varint_def w_varint_def
  by (rule reads_bind_last [OF reads_uvarint]) (simp add: unzigzag_zigzag)

lemma reads_varlong [wire_reads]: "reads r_varlong (w_varlong v []) v"
  unfolding r_varlong_def w_varlong_def
  by (rule reads_bind_last [OF reads_uvarlong]) (simp add: unzigzag_zigzag)

lemma w_uvar_nonempty: "w_uvar v [] \<noteq> []"
  by (subst w_uvar_Nil) simp

lemma length_w_uvar: "unat (v :: 'a::len word) < 2 ^ (7 * (k + 1)) \<Longrightarrow> length (w_uvar v []) \<le> k + 1"
proof (induction k arbitrary: v)
  case 0
  then show ?case by (simp add: w_uvar_Nil)
next
  case (Suc k)
  have "unat (drop_bit 7 v) < 2 ^ (7 * (k + 1))"
    using Suc.prems by (simp add: unat_drop_7 power_add less_mult_imp_div_less)
  from Suc.IH [OF this] show ?case
    by (subst w_uvar_Nil) simp
qed

subsection \<open>Length-prefixed strings and arrays\<close>

definition fits_string :: "bool \<Rightarrow> bytes \<Rightarrow> bool" where
  "fits_string flexible s \<longleftrightarrow> length s < (if flexible then 2 ^ 32 - 1 else 2 ^ 15)"

definition fits_bytes :: "bool \<Rightarrow> bytes \<Rightarrow> bool" where
  "fits_bytes flexible s \<longleftrightarrow> length s < (if flexible then 2 ^ 32 - 1 else 2 ^ 31)"

definition fits_array :: "bool \<Rightarrow> 'a list \<Rightarrow> bool" where
  "fits_array flexible xs \<longleftrightarrow> length xs < (if flexible then 2 ^ 32 - 1 else 2 ^ 31)"

lemma uint_len32: "n < 2 ^ 32 - 1 \<Longrightarrow> uint (word_of_nat n + 1 :: i32) = int n + 1"
proof -
  assume n: "n < 2 ^ 32 - 1"
  have "(word_of_nat n + 1 :: i32) = word_of_nat (n + 1)"
    by simp
  moreover have "uint (word_of_nat (n + 1) :: i32) = int (n + 1)"
    using n by (simp only: unsigned_of_nat) (simp add: take_bit_nat_eq_self)
  ultimately show ?thesis
    by (simp only:)
qed

lemma sint_len: "n < 2 ^ (LENGTH('a) - 1) \<Longrightarrow> sint (word_of_nat n :: 'a::len word) = int n"
proof -
  assume "n < 2 ^ (LENGTH('a) - 1)"
  then have "int n < 2 ^ (LENGTH('a) - 1)"
    by (metis of_nat_less_iff of_nat_numeral of_nat_power)
  moreover have "- (2 ^ (LENGTH('a) - 1)) \<le> (0 :: int)"
    by simp
  ultimately have "signed_take_bit (LENGTH('a) - 1) (int n) = int n"
    by (intro signed_take_bit_int_eq_self) (use of_nat_0_le_iff order_trans in blast)+
  then show ?thesis
    by (simp add: signed_of_nat)
qed

lemma not_negative_len: "n < 2 ^ (LENGTH('a) - 1) \<Longrightarrow> \<not> sint (word_of_nat n :: 'a::len word) < 0"
  by (simp only: sint_len)

lemma uint_eq_0_32: "uint (x :: i32) = k \<Longrightarrow> 0 < k \<Longrightarrow> x \<noteq> 0"
  by auto

lemma reads_nullable_string_Some:
  assumes "fits_string flexible s"
  shows "reads (r_nullable_string flexible) (w_string flexible s []) (Some s)"
proof (cases flexible)
  case True
  let ?x = "word_of_nat (length s) + 1 :: i32"
  have x: "uint ?x = int (length s) + 1"
    using assms True by (intro uint_len32) (simp add: fits_string_def)
  then have nz: "?x \<noteq> 0"
    by (intro uint_eq_0_32) auto
  have b: "w_string True s [] = w_uvarint ?x [] @ s"
    by (simp add: w_string_def w_raw_def)
  have n: "nat (uint ?x - 1) = length s"
    by (simp only: x)
  have T: "flexible = True"
    using True by simp
  show ?thesis
    unfolding T r_nullable_string_def if_True
    by (rule reads_bind [OF reads_uvarint _ b])
       (simp only: nz if_False n, rule reads_bind_last [OF reads_raw], simp_all)
next
  case False
  then have len: "length s < 2 ^ (LENGTH(16) - 1)"
    using assms by (simp add: fits_string_def)
  have b: "w_string False s [] = w_i16 (word_of_nat (length s)) [] @ s"
    by (simp add: w_string_def w_raw_def)
  have F: "flexible = False"
    using False by simp
  show ?thesis
    unfolding F r_nullable_string_def if_False
    by (rule reads_bind [OF reads_i16 _ b])
       (simp only: not_negative_len [OF len] if_False, simp only: sint_len [OF len] nat_int, rule reads_bind_last [OF reads_raw], simp_all)
qed

lemma reads_nullable_bytes_Some:
  assumes "fits_bytes flexible s"
  shows "reads (r_nullable_bytes flexible) (w_bytes flexible s []) (Some s)"
proof (cases flexible)
  case True
  let ?x = "word_of_nat (length s) + 1 :: i32"
  have x: "uint ?x = int (length s) + 1"
    using assms True by (intro uint_len32) (simp add: fits_bytes_def)
  then have nz: "?x \<noteq> 0"
    by (intro uint_eq_0_32) auto
  have b: "w_bytes True s [] = w_uvarint ?x [] @ s"
    by (simp add: w_bytes_def w_raw_def)
  have n: "nat (uint ?x - 1) = length s"
    by (simp only: x)
  have T: "flexible = True"
    using True by simp
  show ?thesis
    unfolding T r_nullable_bytes_def if_True
    by (rule reads_bind [OF reads_uvarint _ b])
       (simp only: nz if_False n, rule reads_bind_last [OF reads_raw], simp_all)
next
  case False
  then have len: "length s < 2 ^ (LENGTH(32) - 1)"
    using assms by (simp add: fits_bytes_def)
  have b: "w_bytes False s [] = w_i32 (word_of_nat (length s)) [] @ s"
    by (simp add: w_bytes_def w_raw_def)
  have F: "flexible = False"
    using False by simp
  show ?thesis
    unfolding F r_nullable_bytes_def if_False
    by (rule reads_bind [OF reads_i32 _ b])
       (simp only: not_negative_len [OF len] if_False, simp only: sint_len [OF len] nat_int, rule reads_bind_last [OF reads_raw], simp_all)
qed


lemma reads_nullable_string [wire_reads]:
  assumes "pred_option (fits_string flexible) s"
  shows "reads (r_nullable_string flexible) (w_nullable_string flexible s []) s"
proof (cases s)
  case None
  have "reads r_i16 (w_i16 (- 1) []) (- 1)" "reads r_uvarint (w_uvarint 0 []) 0"
    by (rule wire_reads)+
  then show ?thesis
    by (auto simp: None w_nullable_string_def r_nullable_string_def intro: reads_bind_last)
next
  case (Some t)
  then show ?thesis
    using assms reads_nullable_string_Some [of flexible t] by (simp add: w_nullable_string_def)
qed

lemma reads_nullable_bytes [wire_reads]:
  assumes "pred_option (fits_bytes flexible) s"
  shows "reads (r_nullable_bytes flexible) (w_nullable_bytes flexible s []) s"
proof (cases s)
  case None
  have "reads r_i32 (w_i32 (- 1) []) (- 1)" "reads r_uvarint (w_uvarint 0 []) 0"
    by (rule wire_reads)+
  then show ?thesis
    by (auto simp: None w_nullable_bytes_def r_nullable_bytes_def intro: reads_bind_last)
next
  case (Some t)
  then show ?thesis
    using assms reads_nullable_bytes_Some [of flexible t] by (simp add: w_nullable_bytes_def)
qed

lemma reads_string [wire_reads]:
  "fits_string flexible s \<Longrightarrow> reads (r_string flexible) (w_string flexible s []) s"
  unfolding r_string_def by (rule reads_bind_last [OF reads_nullable_string_Some]) simp_all

lemma reads_bytes [wire_reads]:
  "fits_bytes flexible s \<Longrightarrow> reads (r_bytes flexible) (w_bytes flexible s []) s"
  unfolding r_bytes_def by (rule reads_bind_last [OF reads_nullable_bytes_Some]) simp_all

lemma reads_checked_len:
  "reads_if (\<lambda>ts. n \<le> length ts) (r_checked_len (int n)) [] (int n)"
  by (auto simp: reads_if_def r_checked_len_def remaining_def dest: arg_cong [where f = length])

lemma reads_array_len:
  assumes "fits_array flexible xs"
  shows "reads_if (\<lambda>ts. length xs \<le> length ts) (r_array_len flexible)
           (w_array_len flexible (length xs) []) (int (length xs))"
proof (cases flexible)
  case True
  let ?x = "word_of_nat (length xs) + 1 :: i32"
  have x: "uint ?x = int (length xs) + 1"
    using assms True by (intro uint_len32) (simp add: fits_array_def)
  then have nz: "?x \<noteq> 0"
    by (intro uint_eq_0_32) auto
  have n: "uint ?x - 1 = int (length xs)"
    by (simp only: x)
  have T: "flexible = True"
    using True by simp
  show ?thesis
    unfolding T r_array_len_def w_array_len_def if_True
    by (rule reads_bind [OF reads_uvarint _ append_Nil2 [symmetric]]) (simp only: nz if_False n, rule reads_checked_len)
next
  case False
  then have len: "length xs < 2 ^ (LENGTH(32) - 1)"
    using assms by (simp add: fits_array_def)
  have F: "flexible = False"
    using False by simp
  show ?thesis
    unfolding F r_array_len_def w_array_len_def if_False
    by (rule reads_bind [OF reads_i32 _ append_Nil2 [symmetric]])
       (simp only: not_negative_len [OF len] if_False, simp only: sint_len [OF len], rule reads_checked_len)
qed

section \<open>The contract of a codec, and arrays of it\<close>

text \<open>
  The generated decoders size a vector with \<open>array_len\<close> and then read one element after the
  other; the encoders write the length and the elements.
\<close>

fun w_list :: "('a \<Rightarrow> writer \<Rightarrow> writer) \<Rightarrow> 'a list \<Rightarrow> writer \<Rightarrow> writer" where
  "w_list enc [] w = w"
| "w_list enc (x # xs) w = w_list enc xs (enc x w)"

fun r_list :: "'a read \<Rightarrow> nat \<Rightarrow> 'a list read" where
  "r_list dec 0 = r_return []"
| "r_list dec (Suc n) = r_bind dec (\<lambda>x. r_bind (r_list dec n) (\<lambda>xs. r_return (x # xs)))"

definition w_array :: "('a \<Rightarrow> writer \<Rightarrow> writer) \<Rightarrow> bool \<Rightarrow> 'a list \<Rightarrow> writer \<Rightarrow> writer" where
  "w_array enc flexible xs w = w_list enc xs (w_array_len flexible (length xs) w)"

definition r_array :: "'a read \<Rightarrow> bool \<Rightarrow> 'a list read" where
  "r_array dec flexible = r_bind (r_array_len flexible)
     (\<lambda>n. if n > 0 then r_list dec (nat n) else r_return [])"

locale wire_codec =
  fixes enc :: "'a \<Rightarrow> writer \<Rightarrow> writer"
    and dec :: "'a read"
    and fits :: "'a \<Rightarrow> bool"
  assumes enc_append: "enc x w = w @ enc x []"
    and dec_enc: "fits x \<Longrightarrow> reads dec (enc x []) x"
    and enc_nonempty: "fits x \<Longrightarrow> enc x [] \<noteq> []"
begin

lemma w_list_append: "w_list enc xs w = w @ w_list enc xs []"
proof (induction xs arbitrary: w)
  case (Cons x xs)
  from Cons [of "enc x w"] Cons [of "enc x []"] enc_append [of x w] show ?case
    by simp
qed simp

lemma w_list_Cons: "w_list enc (x # xs) [] = enc x [] @ w_list enc xs []"
  using w_list_append [of xs "enc x []"] by simp

lemma w_list_eq_concat: "w_list enc xs [] = concat (map (\<lambda>x. enc x []) xs)"
  by (induction xs) (simp_all add: w_list_Cons del: w_list.simps(2))

lemma reads_list: "list_all fits xs \<Longrightarrow> reads (r_list dec (length xs)) (w_list enc xs []) xs"
proof (induction xs)
  case (Cons x xs)
  then have "reads dec (enc x []) x" "reads (r_list dec (length xs)) (w_list enc xs []) xs"
    by (simp_all add: dec_enc)
  then show ?case
    unfolding w_list_Cons by (auto intro: reads_bind reads_bind_last)
qed (simp add: reads_return)

lemma length_w_list: "list_all fits xs \<Longrightarrow> length xs \<le> length (w_list enc xs [])"
proof (induction xs)
  case (Cons x xs)
  then have "0 < length (enc x [])"
    using enc_nonempty by auto
  moreover have "length xs \<le> length (w_list enc xs [])"
    using Cons by simp
  ultimately show ?case
    unfolding w_list_Cons length_append list.size by linarith
qed simp

lemma w_array_app: "w_array enc flexible xs w = w @ w_array enc flexible xs []"
proof -
  have len: "w_array_len flexible (length xs) w = w @ w_array_len flexible (length xs) []"
    by (cases w) (simp_all add: w_array_len_append)
  show ?thesis
    using w_list_append [of xs "w_array_len flexible (length xs) w"]
      w_list_append [of xs "w_array_len flexible (length xs) []"] len
    by (simp add: w_array_def)
qed

lemma w_array_append: "NO_MATCH [] w \<Longrightarrow> w_array enc flexible xs w = w @ w_array enc flexible xs []"
  by (rule w_array_app)

lemma reads_array:
  assumes "list_all fits xs" and "fits_array flexible xs"
  shows "reads (r_array dec flexible) (w_array enc flexible xs []) xs"
proof -
  have b: "w_array enc flexible xs [] = w_array_len flexible (length xs) [] @ w_list enc xs []"
    unfolding w_array_def by (rule w_list_append)
  have "reads (if int (length xs) > 0 then r_list dec (nat (int (length xs))) else r_return [])
      (w_list enc xs []) xs"
    using reads_list [OF assms(1)] by (cases "xs = []") (simp_all only: nat_int, auto simp: reads_return)
  then show ?thesis
    unfolding r_array_def b
    by (rule reads_bind_if [OF reads_array_len [OF assms(2)]])
       (use length_w_list [OF assms(1)] in simp)
qed

end

interpretation u8_codec: wire_codec w_u8 r_u8 "\<lambda>_. True"
  by unfold_locales (simp_all add: w_u8_def reads_u8)

interpretation i32_codec: wire_codec w_i32 r_i32 "\<lambda>_. True"
proof (unfold_locales)
  fix x w
  show "w_i32 x w = w @ w_i32 x []"
    by (simp add: w_i32_def w_be_def)
  show "reads r_i32 (w_i32 x []) x"
    by (rule reads_i32)
  show "w_i32 x [] \<noteq> []"
    by (simp add: w_i32_def w_be_def)
qed

interpretation string_codec: wire_codec "w_string flexible" "r_string flexible" "fits_string flexible"
  for flexible
proof (unfold_locales)
  fix x w
  show "w_string flexible x w = w @ w_string flexible x []"
    by (cases w) (simp_all add: w_string_append)
  show "fits_string flexible x \<Longrightarrow> reads (r_string flexible) (w_string flexible x []) x"
    by (rule reads_string)
  show "w_string flexible x [] \<noteq> []"
    by (simp add: w_string_def w_raw_def w_uvarint_def w_uvar_nonempty w_i16_def w_be_def)
qed

end
