(* ===== verification/Crc.thy ===== *)
theory Crc
  imports Prelude
begin

text \<open>
  CRC-32C as \<open>src/kafka/records.cc\<close> computes it: the table, the table-driven loop, and the
  loop over the SSE4.2 instruction.  The instruction is not code of the repository: the record
  \<open>cpu\<close> carries it, and \<open>cpu_ok\<close> states what Intel's manual says it computes.
\<close>

definition CRC32C_POLY :: i32 where
  "CRC32C_POLY = 0x82F63B78"

definition crc_bit :: "i32 \<Rightarrow> i32" where
  "crc_bit c = (if c AND 1 \<noteq> 0 then drop_bit 1 c XOR CRC32C_POLY else drop_bit 1 c)"

definition make_table :: "i32 list" where
  "make_table = map (\<lambda>i. (crc_bit ^^ 8) (of_nat i)) [0..<256]"

definition crc32c_sw :: "bytes \<Rightarrow> i32 \<Rightarrow> i32" where
  "crc32c_sw d crc =
     NOT (foldl (\<lambda>crc c. make_table ! unat ((crc XOR ucast c) AND 0xFF) XOR drop_bit 8 crc) (NOT crc) d)"

record cpu =
  have_sse42 :: bool
  mm_crc32_u64 :: "64 word \<Rightarrow> 64 word \<Rightarrow> 64 word"
  mm_crc32_u8 :: "i32 \<Rightarrow> byte \<Rightarrow> i32"

text \<open>\<open>memcpy\<close> of eight bytes into a \<open>uint64_t\<close> on a little-endian machine.\<close>

definition load64_le :: "bytes \<Rightarrow> 64 word" where
  "load64_le bs = foldr (\<lambda>b v. push_bit 8 v OR ucast b) (take 8 bs) 0"

fun crc32c_hw_tail :: "cpu \<Rightarrow> bytes \<Rightarrow> i32 \<Rightarrow> i32" where
  "crc32c_hw_tail m [] c = c"
| "crc32c_hw_tail m (p # ps) c = crc32c_hw_tail m ps (mm_crc32_u8 m c p)"

function crc32c_hw_loop :: "cpu \<Rightarrow> bytes \<Rightarrow> i32 \<Rightarrow> i32" where
  "crc32c_hw_loop m d c =
     (if 8 \<le> length d
      then crc32c_hw_loop m (drop 8 d) (ucast (mm_crc32_u64 m (ucast c) (load64_le d)))
      else crc32c_hw_tail m d c)"
  by pat_completeness auto
termination by (relation "measure (\<lambda>(m, d, c). length d)") auto

declare crc32c_hw_loop.simps [simp del]

definition crc32c_hw :: "cpu \<Rightarrow> bytes \<Rightarrow> i32 \<Rightarrow> i32" where
  "crc32c_hw m d crc = NOT (crc32c_hw_loop m d (NOT crc))"

definition crc32c :: "cpu \<Rightarrow> bytes \<Rightarrow> i32 \<Rightarrow> i32" where
  "crc32c m data seed = (if have_sse42 m then crc32c_hw m data seed else crc32c_sw data seed)"

section \<open>The reference: one polynomial division step per bit\<close>

definition crc_byte :: "i32 \<Rightarrow> byte \<Rightarrow> i32" where
  "crc_byte c b = (crc_bit ^^ 8) (c XOR ucast b)"

text \<open>
  The documented effect of the instruction: the 8-bit form advances the running value by one
  byte, the 64-bit form by the eight bytes of its operand, lowest first.
\<close>

definition bytes_le :: "64 word \<Rightarrow> bytes" where
  "bytes_le v = map (\<lambda>k. ucast (drop_bit (8 * k) v)) [0..<8]"

definition cpu_ok :: "cpu \<Rightarrow> bool" where
  "cpu_ok m \<longleftrightarrow> (have_sse42 m \<longrightarrow>
     (\<forall>c b. mm_crc32_u8 m c b = crc_byte c b) \<and>
     (\<forall>c v. mm_crc32_u64 m c v = ucast (foldl crc_byte (ucast c) (bytes_le v))))"

definition sse42_cpu :: cpu where
  "sse42_cpu = \<lparr>have_sse42 = True,
     mm_crc32_u64 = (\<lambda>c v. ucast (foldl crc_byte (ucast c) (bytes_le v))),
     mm_crc32_u8 = crc_byte\<rparr>"

definition plain_cpu :: cpu where
  "plain_cpu = \<lparr>have_sse42 = False, mm_crc32_u64 = (\<lambda>c v. 0), mm_crc32_u8 = (\<lambda>c b. 0)\<rparr>"

lemma cpu_ok_sse42: "cpu_ok sse42_cpu"
  by (simp add: cpu_ok_def sse42_cpu_def)

lemma cpu_ok_plain: "cpu_ok plain_cpu"
  by (simp add: cpu_ok_def plain_cpu_def)

lemma ucast_push_or_high:
  "k < 7 \<Longrightarrow> ucast (drop_bit (8 * Suc k) (push_bit 8 v OR ucast (b :: byte)) :: 64 word) = (ucast (drop_bit (8 * k) v) :: byte)"
  by (rule bit_word_eqI) (auto simp: bit_simps dest: bit_imp_le_length)

lemma ucast_push_or_low: "ucast (push_bit 8 v OR ucast (b :: byte) :: 64 word) = b"
  by (rule bit_word_eqI) (auto simp: bit_simps)

lemma bytes_of_foldr:
  fixes bs :: bytes
  shows
  "length bs \<le> 8 \<Longrightarrow>
   map (\<lambda>k. ucast (drop_bit (8 * k) (foldr (\<lambda>b v. push_bit 8 v OR ucast b) bs 0 :: 64 word))) [0..<length bs] = bs"
proof (induction bs)
  case (Cons b bs)
  let ?v = "foldr (\<lambda>b v. push_bit 8 v OR ucast b) bs 0 :: 64 word"
  have "map (\<lambda>k. ucast (drop_bit (8 * k) (push_bit 8 ?v OR ucast b)) :: byte) (map Suc [0..<length bs])
      = map (\<lambda>k. ucast (drop_bit (8 * k) ?v) :: byte) [0..<length bs]"
    unfolding map_map comp_def
  proof (rule map_cong [OF refl])
    fix k assume "k \<in> set [0..<length bs]"
    then have "k < 7" using Cons.prems by simp
    then show "ucast (drop_bit (8 * Suc k) (push_bit 8 ?v OR ucast b)) = (ucast (drop_bit (8 * k) ?v) :: byte)"
      by (rule ucast_push_or_high)
  qed
  moreover have "map (\<lambda>k. ucast (drop_bit (8 * k) ?v) :: byte) [0..<length bs] = bs"
    using Cons by simp
  moreover have "[0..<length (b # bs)] = 0 # map Suc [0..<length bs]"
    by (simp add: upt_conv_Cons map_Suc_upt del: upt_Suc)
  ultimately show ?case
    by (simp only: list.map foldr.simps comp_def mult_0_right drop_bit_0 id_apply ucast_push_or_low)
qed simp

lemma bytes_le_load64: "8 \<le> length d \<Longrightarrow> bytes_le (load64_le d) = take 8 d"
  using bytes_of_foldr [of "take 8 d"] by (simp add: bytes_le_def load64_le_def min_absorb2)

lemma bit0_odd: "(c AND 1 \<noteq> 0) = bit (c :: i32) 0"
  by (simp add: and_one_eq bit_0 odd_iff_mod_2_eq_one)

lemma crc_bit_xor: "crc_bit (a XOR b) = crc_bit a XOR crc_bit b"
proof -
  have d: "drop_bit 1 (a XOR b) = drop_bit 1 a XOR drop_bit 1 b"
    by (rule drop_bit_xor)
  show ?thesis
    unfolding crc_bit_def bit0_odd d bit_xor_iff
    by (auto simp: bit_eq_iff bit_xor_iff)
qed

lemma crc_bits_xor: "(crc_bit ^^ n) (a XOR b) = (crc_bit ^^ n) a XOR (crc_bit ^^ n) b"
  by (induction n) (simp_all add: crc_bit_xor)

lemma crc_bits_high: "take_bit n a = 0 \<Longrightarrow> n \<le> 32 \<Longrightarrow> (crc_bit ^^ n) a = drop_bit n a"
proof (induction n)
  case (Suc n)
  have z: "\<not> bit a k" if "k < Suc n" for k
    using arg_cong [OF Suc.prems(1), of "\<lambda>w. bit w k"] that by (simp add: bit_take_bit_iff)
  have "take_bit n a = 0"
    by (rule bit_word_eqI) (simp add: bit_take_bit_iff z)
  with Suc have "(crc_bit ^^ n) a = drop_bit n a"
    by simp
  moreover have "\<not> bit (drop_bit n a) 0"
    using z [of n] by (simp add: bit_drop_bit_eq)
  moreover have "crc_bit x = drop_bit 1 x" if "\<not> bit x 0" for x
    using that unfolding crc_bit_def bit0_odd by simp
  ultimately show ?case
    by simp
qed simp

lemma make_table_nth: "i < 256 \<Longrightarrow> make_table ! i = (crc_bit ^^ 8) (of_nat i)"
  by (simp add: make_table_def)

lemma word_of_unat: "word_of_nat (unat (x :: i32)) = x"
  by simp

lemma low_byte_less: "unat ((x :: i32) AND 0xFF) < 256"
proof -
  have "x AND 0xFF = take_bit 8 x"
    by (simp add: take_bit_eq_mask mask_eq_exp_minus_1)
  then show "unat (x AND 0xFF) < 256"
    using take_bit_nat_less_exp [of 8 "unat x"] by (simp add: unsigned_take_bit_eq)
qed

text \<open>One table lookup does the work of eight division steps.\<close>

lemma table_step: "make_table ! unat ((c XOR ucast b) AND 0xFF) XOR drop_bit 8 c = crc_byte c b"
proof -
  let ?x = "c XOR ucast b :: i32"
  let ?hi = "push_bit 8 (drop_bit 8 ?x)"
  have split: "?x = (?x AND 0xFF) XOR ?hi"
  proof (rule bit_word_eqI)
    fix n assume "n < LENGTH(32)"
    have ff: "(0xFF :: i32) = mask 8"
      by (simp add: mask_eq_exp_minus_1)
    show "bit ?x n = bit ((?x AND 0xFF) XOR ?hi) n"
      unfolding ff bit_xor_iff bit_and_iff bit_mask_iff bit_push_bit_iff bit_drop_bit_eq comp_def
      using \<open>n < LENGTH(32)\<close> by (cases "n < 8") auto
  qed
  have "take_bit 8 ?hi = 0"
    by (rule bit_word_eqI) (simp only: bit_take_bit_iff bit_push_bit_iff bit_0_eq bot_apply, auto)
  then have "(crc_bit ^^ 8) ?hi = drop_bit 8 ?hi"
    by (rule crc_bits_high) simp
  also have "drop_bit 8 ?hi = drop_bit 8 c"
  proof (rule bit_word_eqI)
    fix n assume n: "n < LENGTH(32)"
    show "bit (drop_bit 8 ?hi) n = bit (drop_bit 8 c) n"
      unfolding bit_drop_bit_eq comp_def bit_push_bit_iff bit_xor_iff bit_ucast_iff
      using bit_imp_le_length [of c "8 + n"] bit_imp_le_length [of b "8 + n"]  by auto
  qed
  finally have hi: "(crc_bit ^^ 8) ?hi = drop_bit 8 c" .
  have "crc_byte c b = (crc_bit ^^ 8) (?x AND 0xFF) XOR (crc_bit ^^ 8) ?hi"
    unfolding crc_byte_def by (subst split) (rule crc_bits_xor)
  then show ?thesis
    by (simp only: hi make_table_nth [OF low_byte_less] word_of_unat)
qed

lemma crc32c_sw_eq: "crc32c_sw d s = NOT (foldl crc_byte (NOT s) d)"
  by (simp add: crc32c_sw_def table_step)

lemma crc32c_hw_tail_eq:
  "cpu_ok m \<Longrightarrow> have_sse42 m \<Longrightarrow> crc32c_hw_tail m d c = foldl crc_byte c d"
  by (induction m d c rule: crc32c_hw_tail.induct) (simp_all add: cpu_ok_def)

lemma ucast_ucast_32: "ucast (ucast (c :: i32) :: 64 word) = c"
  by (rule bit_word_eqI) (auto simp: bit_ucast_iff)

lemma crc32c_hw_loop_eq:
  "cpu_ok m \<Longrightarrow> have_sse42 m \<Longrightarrow> crc32c_hw_loop m d c = foldl crc_byte c d"
proof (induction m d c rule: crc32c_hw_loop.induct)
  case (1 m d c)
  show ?case
  proof (cases "8 \<le> length d")
    case True
    have "mm_crc32_u64 m (ucast c) (load64_le d) = ucast (foldl crc_byte c (take 8 d))"
      using "1.prems" True by (simp add: cpu_ok_def bytes_le_load64 ucast_ucast_32)
    moreover have "foldl crc_byte (foldl crc_byte c (take 8 d)) (drop 8 d) = foldl crc_byte c d"
      by (simp flip: foldl_append)
    ultimately show ?thesis
      using 1 True by (simp add: crc32c_hw_loop.simps [of m d c] ucast_ucast_32)
  next
    case False
    then show ?thesis
      using "1.prems" by (simp add: crc32c_hw_loop.simps [of m d c] crc32c_hw_tail_eq)
  qed
qed

lemma crc32c_eq: "cpu_ok m \<Longrightarrow> crc32c m d s = NOT (foldl crc_byte (NOT s) d)"
  by (simp add: crc32c_def crc32c_hw_def crc32c_hw_loop_eq crc32c_sw_eq)

section \<open>A changed byte changes the checksum\<close>

lemma crc_bit_inj: "crc_bit a = crc_bit b \<Longrightarrow> a = b"
proof -
  have zero: "c = 0" if c: "crc_bit c = 0" for c
  proof -
    have b31: "\<not> bit (drop_bit 1 c) 31"
      using bit_imp_le_length [of c 32] by (auto simp: bit_drop_bit_eq)
    have p31: "bit CRC32C_POLY 31"
      by (simp add: CRC32C_POLY_def)
    have b0: "\<not> bit c 0"
    proof
      assume "bit c 0"
      then have "drop_bit 1 c XOR CRC32C_POLY = 0"
        using c unfolding crc_bit_def bit0_odd by simp
      then have "bit (drop_bit 1 c XOR CRC32C_POLY) 31 = False"
        by (simp only:) simp
      then show False
        unfolding bit_xor_iff using b31 p31 by blast
    qed
    then have z: "drop_bit 1 c = 0"
      using c unfolding crc_bit_def bit0_odd by simp
    have "\<not> bit c (Suc n)" for n
      using arg_cong [OF z, of "\<lambda>w. bit w n"] by (simp only: bit_drop_bit_eq comp_def) simp
    with b0 show "c = 0"
      by (intro bit_word_eqI) (metis bit_0_eq bot_apply bot_bool_def not0_implies_Suc)
  qed
  assume "crc_bit a = crc_bit b"
  then have "crc_bit (a XOR b) = 0"
    by (simp add: crc_bit_xor)
  from zero [OF this] show "a = b"
    by (metis xor.right_neutral xor_self_eq xor.assoc)
qed

lemma crc_bits_inj: "(crc_bit ^^ n) a = (crc_bit ^^ n) b \<Longrightarrow> a = b"
  by (induction n) (auto dest: crc_bit_inj)

lemma crc_byte_inj: "crc_byte c b = crc_byte c' b' \<longleftrightarrow> c XOR ucast b = c' XOR ucast b'"
  unfolding crc_byte_def by (auto dest: crc_bits_inj)

lemma xor_cancel: "(a :: 'a::len word) XOR b = a XOR c \<longleftrightarrow> b = c"
  by (metis xor.assoc xor_self_eq xor.left_neutral)

lemma ucast_byte_inj: "(ucast (x :: byte) :: i32) = ucast y \<longleftrightarrow> x = y"
proof
  assume eq: "(ucast x :: i32) = ucast y"
  have "ucast (ucast z :: i32) = z" for z :: byte
    by (rule bit_word_eqI) (auto simp: bit_ucast_iff)
  with eq show "x = y" by metis
qed simp

lemma foldl_crc_byte_inj: "foldl crc_byte c d = foldl crc_byte c' d \<Longrightarrow> c = c'"
proof (induction d arbitrary: c c')
  case (Cons b d)
  then have "crc_byte c b = crc_byte c' b"
    by simp
  then show ?case
    unfolding crc_byte_inj by (metis xor.commute xor_cancel)
qed simp


lemma crc_byte_change:
  assumes "cpu_ok m" and "x \<noteq> y"
  shows "crc32c m (pre @ x # post) s \<noteq> crc32c m (pre @ y # post) s"
proof
  let ?c = "foldl crc_byte (NOT s) pre"
  assume "crc32c m (pre @ x # post) s = crc32c m (pre @ y # post) s"
  then have "foldl crc_byte (crc_byte ?c x) post = foldl crc_byte (crc_byte ?c y) post"
    using arg_cong [of _ _ NOT] by (simp add: crc32c_eq [OF assms(1)] bit.compl_eq_compl_iff)
  then have "crc_byte ?c x = crc_byte ?c y"
    by (rule foldl_crc_byte_inj)
  then have "ucast x = (ucast y :: i32)"
    unfolding crc_byte_inj xor_cancel .
  then have "x = y"
    by (simp add: ucast_byte_inj)
  with assms(2) show False by simp
qed

section \<open>Properties\<close>

text \<open>C3: the hardware and the table-driven implementation compute the same CRC-32C for every
  input and seed, so a batch written on one machine verifies on another.\<close>

theorem crc32c_hw_eq_sw:
  assumes "cpu_ok m"
  shows "crc32c m d s = crc32c_sw d s"
  using crc32c_eq [OF assms] by (simp add: crc32c_sw_eq)

theorem crc32c_hw_eq_sw_witness:
  "cpu_ok sse42_cpu \<and> have_sse42 sse42_cpu \<and>
   crc32c sse42_cpu (str ''123456789'') 0 = crc32c_sw (str ''123456789'') 0"
  using crc32c_hw_eq_sw [OF cpu_ok_sse42] cpu_ok_sse42 by (simp add: sse42_cpu_def)

text \<open>changing any single byte of the covered bytes changes the checksum.\<close>

theorem crc32c_detects_byte_change:
  assumes "cpu_ok m" and "x \<noteq> y"
  shows "crc32c m (pre @ x # post) s \<noteq> crc32c m (pre @ y # post) s"
  using assms by (rule crc_byte_change)

theorem crc32c_detects_byte_change_witness:
  "crc32c plain_cpu ([1] @ 7 # [9]) 0 \<noteq> crc32c plain_cpu ([1] @ 8 # [9]) 0"
  using crc32c_detects_byte_change [OF cpu_ok_plain, of 7 8 "[1]" "[9]" 0] by simp

end
