(* ===== verification/Records.thy ===== *)
theory Records
  imports Wire_Laws Crc
begin

text \<open>
  \<open>src/kafka/records.cc\<close> and \<open>include/swordfish/kafka/records.hh\<close>: the record batch
  format.  The compression codecs are libraries the sources call (zlib, snappy, lz4, zstd), so
  they are the parameter \<open>codec_lib\<close>; what stays here is the mapping from the attribute bits
  to a codec and the translation of a codec failure.
\<close>

section \<open>Compression\<close>

datatype compression = C_none | C_gzip | C_snappy | C_lz4 | C_zstd | C_other byte

text \<open>\<open>C_other\<close> is an attribute value 5 to 7, which the cast to the enum lets through.\<close>

record codec_lib =
  gzip_compress :: "bytes \<Rightarrow> string + bytes"
  snappy_compress :: "bytes \<Rightarrow> string + bytes"
  lz4_compress :: "bytes \<Rightarrow> string + bytes"
  zstd_compress :: "bytes \<Rightarrow> string + bytes"
  gzip_decompress :: "bytes \<Rightarrow> string + bytes"
  snappy_decompress :: "bytes \<Rightarrow> string + bytes"
  lz4_decompress :: "bytes \<Rightarrow> string + bytes"
  zstd_decompress :: "bytes \<Rightarrow> string + bytes"

definition compression_name :: "compression \<Rightarrow> bytes" where
  "compression_name c = str (case c of C_none \<Rightarrow> ''none'' | C_gzip \<Rightarrow> ''gzip''
     | C_snappy \<Rightarrow> ''snappy'' | C_lz4 \<Rightarrow> ''lz4'' | C_zstd \<Rightarrow> ''zstd'' | C_other _ \<Rightarrow> ''unknown'')"

definition compression_from_name :: "bytes \<Rightarrow> protocol_error + compression" where
  "compression_from_name n =
     (if n = str ''none'' then Inr C_none else if n = str ''gzip'' then Inr C_gzip
      else if n = str ''snappy'' then Inr C_snappy else if n = str ''lz4'' then Inr C_lz4
      else if n = str ''zstd'' then Inr C_zstd else Inl Unknown_Codec)"

definition as_protocol_error :: "string + bytes \<Rightarrow> protocol_error + bytes" where
  "as_protocol_error r = (case r of Inl e \<Rightarrow> Inl (Codec_Failure e) | Inr x \<Rightarrow> Inr x)"

definition compress :: "codec_lib \<Rightarrow> compression \<Rightarrow> bytes \<Rightarrow> protocol_error + bytes" where
  "compress lib c x = (case c of
     C_none \<Rightarrow> Inr x
   | C_gzip \<Rightarrow> as_protocol_error (gzip_compress lib x)
   | C_snappy \<Rightarrow> as_protocol_error (snappy_compress lib x)
   | C_lz4 \<Rightarrow> as_protocol_error (lz4_compress lib x)
   | C_zstd \<Rightarrow> as_protocol_error (zstd_compress lib x)
   | C_other _ \<Rightarrow> Inl Unknown_Codec)"

definition decompress :: "codec_lib \<Rightarrow> compression \<Rightarrow> bytes \<Rightarrow> protocol_error + bytes" where
  "decompress lib c x = (case c of
     C_none \<Rightarrow> Inr x
   | C_gzip \<Rightarrow> as_protocol_error (gzip_decompress lib x)
   | C_snappy \<Rightarrow> as_protocol_error (snappy_decompress lib x)
   | C_lz4 \<Rightarrow> as_protocol_error (lz4_decompress lib x)
   | C_zstd \<Rightarrow> as_protocol_error (zstd_decompress lib x)
   | C_other _ \<Rightarrow> Inl Unknown_Codec)"

section \<open>Records\<close>

record record_header =
  rh_key :: bytes
  rh_value :: "bytes option"

record krecord =
  timestamp_delta :: i64
  offset_delta :: i32
  rec_key :: "bytes option"
  rec_value :: "bytes option"
  rec_headers :: "record_header list"

record record_batch =
  base_offset :: i64
  partition_leader_epoch :: i32
  codec :: compression
  transactional :: bool
  control :: bool
  timestamp_type :: byte
  base_timestamp :: i64
  max_timestamp :: i64
  producer_id :: i64
  producer_epoch :: i16
  base_sequence :: i32
  records :: "krecord list"

definition offset_of :: "record_batch \<Rightarrow> nat \<Rightarrow> i64" where
  "offset_of b i = base_offset b + scast (offset_delta (records b ! i))"

text \<open>A nullable byte string inside a record: a zigzag length, \<open>-1\<close> for null.\<close>

definition encode_opt :: "bytes option \<Rightarrow> writer \<Rightarrow> writer" where
  "encode_opt v w = (case v of
     Some s \<Rightarrow> w_raw s (w_varint (of_nat (length s)) w)
   | None \<Rightarrow> w_varint (- 1) w)"

definition encode_header :: "record_header \<Rightarrow> writer \<Rightarrow> writer" where
  "encode_header h w =
     encode_opt (rh_value h) (w_raw (rh_key h) (w_varint (of_nat (length (rh_key h))) w))"

definition encode_record_body :: "krecord \<Rightarrow> writer" where
  "encode_record_body r =
     (let b = w_u8 0 [];
          b = w_varlong (timestamp_delta r) b;
          b = w_varint (offset_delta r) b;
          b = encode_opt (rec_key r) b;
          b = encode_opt (rec_value r) b;
          b = w_varint (of_nat (length (rec_headers r))) b
      in w_list encode_header (rec_headers r) b)"

definition encode_record :: "krecord \<Rightarrow> writer \<Rightarrow> writer" where
  "encode_record r w =
     (let b = encode_record_body r in w_raw b (w_varint (of_nat (length b)) w))"

definition decode_opt :: "bytes option read" where
  "decode_opt = r_bind r_varint (\<lambda>n.
     if sint n \<ge> 0 then r_bind (r_raw (nat (sint n))) (\<lambda>s. r_return (Some s)) else r_return None)"

definition decode_header :: "record_header read" where
  "decode_header = r_bind r_varint (\<lambda>hk.
     if sint hk < 0 then r_throw Null_Header_Key
     else r_bind (r_raw (nat (sint hk))) (\<lambda>k. r_bind decode_opt (\<lambda>v.
       r_return \<lparr>rh_key = k, rh_value = v\<rparr>)))"

definition decode_record_body :: "krecord read" where
  "decode_record_body = r_bind r_u8 (\<lambda>_. r_bind r_varlong (\<lambda>ts. r_bind r_varint (\<lambda>od.
     r_bind decode_opt (\<lambda>k. r_bind decode_opt (\<lambda>v. r_bind r_varint (\<lambda>nh.
     r_bind (if sint nh > 0 then r_list decode_header (nat (sint nh)) else r_return []) (\<lambda>hs.
       r_return \<lparr>timestamp_delta = ts, offset_delta = od, rec_key = k, rec_value = v,
                 rec_headers = hs\<rparr>)))))))"

text \<open>Runs a reader over a bounded slice, as \<open>reader body(r.raw(n))\<close> does.\<close>

definition r_within :: "bytes \<Rightarrow> 'a read \<Rightarrow> protocol_error + 'a" where
  "r_within s p = rbind (p (reader_on s)) (\<lambda>(x, _). Inr x)"

definition r_lift :: "protocol_error + 'a \<Rightarrow> 'a read" where
  "r_lift m r = rbind m (\<lambda>x. Inr (x, r))"

definition decode_record :: "krecord read" where
  "decode_record = r_bind r_varint (\<lambda>len.
     if sint len < 0 then r_throw Negative_Record_Length
     else r_bind (r_raw (nat (sint len))) (\<lambda>s. r_lift (r_within s decode_record_body)))"

section \<open>Batches\<close>

definition MAGIC_V2 :: byte where "MAGIC_V2 = 2"
definition ATTR_CODEC_MASK :: i16 where "ATTR_CODEC_MASK = 0x0007"
definition ATTR_TIMESTAMP :: i16 where "ATTR_TIMESTAMP = 0x0008"
definition ATTR_TRANSACTIONAL :: i16 where "ATTR_TRANSACTIONAL = 0x0010"
definition ATTR_CONTROL :: i16 where "ATTR_CONTROL = 0x0020"

definition codec_bits :: "compression \<Rightarrow> byte" where
  "codec_bits c = (case c of C_none \<Rightarrow> 0 | C_gzip \<Rightarrow> 1 | C_snappy \<Rightarrow> 2 | C_lz4 \<Rightarrow> 3 | C_zstd \<Rightarrow> 4
     | C_other b \<Rightarrow> b)"

definition codec_of_bits :: "byte \<Rightarrow> compression" where
  "codec_of_bits b = (if b = 0 then C_none else if b = 1 then C_gzip else if b = 2 then C_snappy
     else if b = 3 then C_lz4 else if b = 4 then C_zstd else C_other b)"

definition batch_attrs :: "record_batch \<Rightarrow> i16" where
  "batch_attrs b =
     (let attrs = ucast (codec_bits (codec b)) AND ATTR_CODEC_MASK;
          attrs = (if timestamp_type b \<noteq> 0 then attrs OR ATTR_TIMESTAMP else attrs);
          attrs = (if transactional b then attrs OR ATTR_TRANSACTIONAL else attrs)
      in if control b then attrs OR ATTR_CONTROL else attrs)"

definition last_offset_delta :: "record_batch \<Rightarrow> i32" where
  "last_offset_delta b = (if records b = [] then 0 else offset_delta (last (records b)))"

text \<open>Everything the checksum covers.\<close>

definition batch_covered :: "record_batch \<Rightarrow> bytes \<Rightarrow> writer" where
  "batch_covered b payload =
     (let w = w_i16 (batch_attrs b) [];
          w = w_i32 (last_offset_delta b) w;
          w = w_i64 (base_timestamp b) w;
          w = w_i64 (max_timestamp b) w;
          w = w_i64 (producer_id b) w;
          w = w_i16 (producer_epoch b) w;
          w = w_i32 (base_sequence b) w;
          w = w_i32 (of_nat (length (records b))) w
      in w_raw payload w)"

definition encode_batch :: "cpu \<Rightarrow> codec_lib \<Rightarrow> record_batch \<Rightarrow> writer \<Rightarrow> protocol_error + writer" where
  "encode_batch m lib b w =
     rbind (compress lib (codec b) (w_list encode_record (records b) [])) (\<lambda>payload.
       let after_crc = batch_covered b payload;
           w = w_i64 (base_offset b) w;
           w = w_i32 (of_nat (4 + 1 + 4 + length after_crc)) w;
           w = w_i32 (partition_leader_epoch b) w;
           w = w_u8 MAGIC_V2 w;
           w = w_i32 (crc32c m after_crc 0) w
       in Inr (w_raw after_crc w))"

definition r_remaining_bytes :: "bytes read" where
  "r_remaining_bytes r = Inr (r_rest r, r)"

definition decode_payload :: "int \<Rightarrow> bytes \<Rightarrow> protocol_error + krecord list" where
  "decode_payload count plain =
     (if nat count > length plain then Inl (Too_Many_Records count (length plain))
      else r_within plain (r_list decode_record (nat count)))"

definition decode_batch_body :: "cpu \<Rightarrow> codec_lib \<Rightarrow> i64 \<Rightarrow> record_batch read" where
  "decode_batch_body m lib base = r_bind r_i32 (\<lambda>epoch. r_bind r_u8 (\<lambda>magic.
     if magic \<noteq> MAGIC_V2 then r_throw (Bad_Magic magic)
     else r_bind r_i32 (\<lambda>want_crc. r_bind r_remaining_bytes (\<lambda>covered.
       if crc32c m covered 0 \<noteq> want_crc then r_throw Crc_Mismatch
       else r_bind r_i16 (\<lambda>attrs. r_bind r_i32 (\<lambda>_. r_bind r_i64 (\<lambda>bts. r_bind r_i64 (\<lambda>mts.
         r_bind r_i64 (\<lambda>pid. r_bind r_i16 (\<lambda>pe. r_bind r_i32 (\<lambda>bs. r_bind r_i32 (\<lambda>count.
           if sint count < 0 then r_throw Negative_Record_Count
           else r_bind r_remaining_bytes (\<lambda>rest.
             let c = codec_of_bits (ucast (attrs AND ATTR_CODEC_MASK))
             in r_bind (r_lift (rbind (decompress lib c rest) (decode_payload (sint count)))) (\<lambda>recs.
               r_return \<lparr>base_offset = base, partition_leader_epoch = epoch, codec = c,
                 transactional = (attrs AND ATTR_TRANSACTIONAL \<noteq> 0),
                 control = (attrs AND ATTR_CONTROL \<noteq> 0),
                 timestamp_type = (if attrs AND ATTR_TIMESTAMP \<noteq> 0 then 1 else 0),
                 base_timestamp = bts, max_timestamp = mts, producer_id = pid,
                 producer_epoch = pe, base_sequence = bs, records = recs\<rparr>))))))))))))))"

definition decode_batch :: "cpu \<Rightarrow> codec_lib \<Rightarrow> record_batch read" where
  "decode_batch m lib = r_bind r_i64 (\<lambda>base. r_bind r_i32 (\<lambda>batch_length.
     if sint batch_length < 0 then r_throw Negative_Batch_Length
     else r_bind (r_raw (nat (sint batch_length))) (\<lambda>s.
       r_lift (r_within s (decode_batch_body m lib base)))))"


section \<open>How far a read advances\<close>

definition advances :: "'a read \<Rightarrow> bool" where
  "advances p \<longleftrightarrow> (\<forall>r x r'. p r = Inr (x, r') \<longrightarrow>
     rd_buf r' = rd_buf r \<and> rd_pos r \<le> rd_pos r' \<and> (rd_pos r \<le> length (rd_buf r) \<longrightarrow> rd_pos r' \<le> length (rd_buf r)))"

named_theorems advance "reads that keep the buffer and never move backwards"

lemma advances_return [advance]: "advances (r_return x)"
  by (simp add: advances_def r_return_def)

lemma advances_throw [advance]: "advances (r_throw e)"
  by (simp add: advances_def r_throw_def)

lemma advances_lift [advance]: "advances (r_lift m)"
  by (auto simp: advances_def r_lift_def rbind_eq_Inr_iff)

lemma advances_raw [advance]: "advances (r_raw n)"
  by (auto simp: advances_def r_raw_def need_def rbind_eq_Inr_iff split: if_splits)

lemma advances_be [advance]: "advances (r_be n)"
  by (auto simp: advances_def r_be_def need_def rbind_eq_Inr_iff split: if_splits)

lemma advancesD:
  "advances p \<Longrightarrow> p r = Inr (x, r') \<Longrightarrow> rd_buf r' = rd_buf r \<and> rd_pos r \<le> rd_pos r' \<and>
     (rd_pos r \<le> length (rd_buf r) \<longrightarrow> rd_pos r' \<le> length (rd_buf r))"
  unfolding advances_def by blast

lemma r_bind_eq_InrE:
  assumes "r_bind p f r = Inr (y, r'')"
  obtains x r' where "p r = Inr (x, r')" and "f x r' = Inr (y, r'')"
  using assms by (auto simp: r_bind_def rbind_eq_Inr_iff)

lemma advances_bind [advance]:
  assumes "advances p" and "\<And>x. advances (f x)"
  shows "advances (r_bind p f)"
  unfolding advances_def
proof (intro allI impI)
  fix r y r''
  assume "r_bind p f r = Inr (y, r'')"
  then obtain x r' where 1: "p r = Inr (x, r')" and 2: "f x r' = Inr (y, r'')"
    by (rule r_bind_eq_InrE)
  from advancesD [OF assms(1) 1] advancesD [OF assms(2) 2]
  show "rd_buf r'' = rd_buf r \<and> rd_pos r \<le> rd_pos r'' \<and>
      (rd_pos r \<le> length (rd_buf r) \<longrightarrow> rd_pos r'' \<le> length (rd_buf r))"
    by auto
qed

lemma i64_advance: "r_i64 r = Inr (x, r') \<Longrightarrow> rd_buf r' = rd_buf r \<and> rd_pos r' = rd_pos r + 8"
  by (auto simp: r_i64_def r_be_def need_def rbind_eq_Inr_iff split: if_splits)

lemma decode_batch_advance:
  assumes "decode_batch m lib r = Inr (b, r')"
  shows "rd_buf r' = rd_buf r" and "rd_pos r + 8 \<le> rd_pos r'"
proof -
  let ?rest = "\<lambda>base. r_bind r_i32 (\<lambda>batch_length.
     if sint batch_length < 0 then r_throw Negative_Batch_Length
     else r_bind (r_raw (nat (sint batch_length))) (\<lambda>s.
       r_lift (r_within s (decode_batch_body m lib base))))"
  obtain base r1 where 1: "r_i64 r = Inr (base, r1)" and 2: "?rest base r1 = Inr (b, r')"
    using assms unfolding decode_batch_def by (rule r_bind_eq_InrE)
  have "advances (?rest base)"
    unfolding r_i32_def by (intro advance) (auto intro: advance)
  from advancesD [OF this 2] i64_advance [OF 1]
  show "rd_buf r' = rd_buf r" and "rd_pos r + 8 \<le> rd_pos r'"
    by auto
qed

section \<open>Several batches back to back\<close>

definition header_bytes :: nat where
  "header_bytes = 8 + 4 + 4 + 1 + 4 + 2 + 4 + 8 + 8 + 8 + 2 + 4 + 4"

text \<open>The length field of the batch at the reader, peeked at without moving it.\<close>

definition peek_len :: "reader \<Rightarrow> protocol_error + i32" where
  "peek_len r = r_within (r_rest r) (r_bind r_i64 (\<lambda>_. r_i32))"

function decode_batches_loop ::
    "cpu \<Rightarrow> codec_lib \<Rightarrow> reader \<Rightarrow> record_batch list \<Rightarrow> protocol_error + record_batch list" where
  "decode_batches_loop m lib r out =
     (if header_bytes \<le> remaining r then
        rbind (peek_len r) (\<lambda>len.
          if sint len < 0 \<or> nat (sint len) + 12 > remaining r then Inr out
          else rbind (decode_batch m lib r) (\<lambda>(b, r'). decode_batches_loop m lib r' (out @ [b])))
      else Inr out)"
  by pat_completeness auto
termination
proof (relation "measure (\<lambda>(m, lib, r, out). remaining r)", goal_cases)
  case (2 m lib r out len z b r')
  then have "decode_batch m lib r = Inr (b, r')" by simp
  from decode_batch_advance [OF this] 2 show ?case
    by (simp add: remaining_def header_bytes_def)
qed simp

declare decode_batches_loop.simps [simp del]

definition decode_batches :: "cpu \<Rightarrow> codec_lib \<Rightarrow> bytes \<Rightarrow> protocol_error + record_batch list" where
  "decode_batches m lib blob = decode_batches_loop m lib (reader_on blob) []"

end
