(* ===== verification/Records_Laws.thy ===== *)
theory Records_Laws
  imports Records
begin

text \<open>
  The record batch codec of \<open>Records\<close> satisfies the contract \<open>wire_codec\<close> at every level
  (header, record), a whole batch decodes to what was encoded, and a fetch blob decodes to its
  complete batches.
\<close>

section \<open>Headers and records\<close>

definition small :: "bytes \<Rightarrow> bool" where
  "small s \<longleftrightarrow> length s < 2 ^ 31"

lemma sint_len31: "n < 2 ^ 31 \<Longrightarrow> sint (word_of_nat n :: i32) = int n"
  using sint_len [of n, where 'a = 32] by simp

lemma w_varint_app: "w_varint v w = w @ w_varint v []"
  unfolding w_varint_def w_uvarint_def by (rule w_uvar_append)

lemma w_varlong_app: "w_varlong v w = w @ w_varlong v []"
  unfolding w_varlong_def w_uvarlong_def by (rule w_uvar_append)

lemma encode_opt_app: "encode_opt v w = w @ encode_opt v []"
  using w_varint_app [of _ w] by (cases v) (simp_all add: encode_opt_def w_raw_def)

lemma encode_opt_nonempty: "encode_opt v [] \<noteq> []"
  by (simp add: encode_opt_def w_raw_def w_varint_def w_uvarint_def w_uvar_nonempty split: option.split)

lemma reads_opt: "pred_option small v \<Longrightarrow> reads decode_opt (encode_opt v []) v"
proof (cases v)
  case None
  show ?thesis
    unfolding decode_opt_def None encode_opt_def option.case
    by (rule reads_bind_last [OF reads_varint]) simp
next
  case (Some s)
  assume "pred_option small v"
  then have len: "sint (word_of_nat (length s) :: i32) = int (length s)"
    using Some by (intro sint_len31) (simp add: small_def)
  have b: "encode_opt (Some s) [] = w_varint (word_of_nat (length s)) [] @ s"
    by (simp add: encode_opt_def w_raw_def)
  show ?thesis
    unfolding decode_opt_def Some
    by (rule reads_bind [OF reads_varint _ b])
       (simp only: len of_nat_0_le_iff if_True nat_int, rule reads_bind_last [OF reads_raw], simp_all)
qed

definition header_fits :: "record_header \<Rightarrow> bool" where
  "header_fits h \<longleftrightarrow> small (rh_key h) \<and> pred_option small (rh_value h)"

definition record_fits :: "krecord \<Rightarrow> bool" where
  "record_fits r \<longleftrightarrow> pred_option small (rec_key r) \<and> pred_option small (rec_value r) \<and>
     length (rec_headers r) < 2 ^ 31 \<and> list_all header_fits (rec_headers r) \<and>
     small (encode_record_body r)"

lemma encode_header_app:
  "encode_header h w = w @ w_varint (word_of_nat (length (rh_key h))) [] @ rh_key h @ encode_opt (rh_value h) []"
  using w_varint_app [of "word_of_nat (length (rh_key h))" w]
    encode_opt_app [of "rh_value h" "w_varint (word_of_nat (length (rh_key h))) w @ rh_key h"]
  by (simp add: encode_header_def w_raw_def)

lemmas encode_header_Nil = encode_header_app [of _ "[]", unfolded append_Nil]

interpretation header_codec: wire_codec encode_header decode_header header_fits
proof unfold_locales
  fix h w
  show "encode_header h w = w @ encode_header h []"
    by (simp only: encode_header_app append_Nil)
  show "encode_header h [] \<noteq> []"
    by (simp add: encode_header_Nil encode_opt_nonempty)
  assume h: "header_fits h"
  have len: "sint (word_of_nat (length (rh_key h)) :: i32) = int (length (rh_key h))"
    using h by (intro sint_len31) (simp add: header_fits_def small_def)
  have opt: "reads decode_opt (encode_opt (rh_value h) []) (rh_value h)"
    using h by (intro reads_opt) (simp add: header_fits_def)
  have "reads (r_bind (r_raw (length (rh_key h))) (\<lambda>k. r_bind decode_opt (\<lambda>v.
      r_return \<lparr>rh_key = k, rh_value = v\<rparr>))) (rh_key h @ encode_opt (rh_value h) []) h"
    by (rule reads_bind [OF reads_raw [OF refl] reads_bind_last [OF opt] refl]) (cases h, simp)
  then show "reads decode_header (encode_header h []) h"
    unfolding decode_header_def
    by (intro reads_bind [OF reads_varint _ encode_header_Nil])
       (simp only: len of_nat_less_0_iff if_False nat_int)
qed

lemma encode_record_body_eq:
  "encode_record_body r = [0] @ w_varlong (timestamp_delta r) [] @ w_varint (offset_delta r) [] @
     encode_opt (rec_key r) [] @ encode_opt (rec_value r) [] @
     w_varint (word_of_nat (length (rec_headers r))) [] @ w_list encode_header (rec_headers r) []"
proof -
  let ?n = "word_of_nat (length (rec_headers r)) :: i32"
  let ?b1 = "w_varlong (timestamp_delta r) [0]"
  let ?b2 = "w_varint (offset_delta r) ?b1"
  let ?b3 = "encode_opt (rec_key r) ?b2"
  let ?b4 = "encode_opt (rec_value r) ?b3"
  have "encode_record_body r = w_list encode_header (rec_headers r) (w_varint ?n ?b4)"
    by (simp add: encode_record_body_def w_u8_def Let_def)
  also have "\<dots> = w_varint ?n ?b4 @ w_list encode_header (rec_headers r) []"
    by (rule header_codec.w_list_append)
  also have "w_varint ?n ?b4 = ?b4 @ w_varint ?n []" by (rule w_varint_app)
  also have "?b4 = ?b3 @ encode_opt (rec_value r) []" by (rule encode_opt_app)
  also have "?b3 = ?b2 @ encode_opt (rec_key r) []" by (rule encode_opt_app)
  also have "?b2 = ?b1 @ w_varint (offset_delta r) []" by (rule w_varint_app)
  also have "?b1 = [0] @ w_varlong (timestamp_delta r) []" by (rule w_varlong_app)
  finally show ?thesis by (simp only: append_assoc)
qed

lemma reads_record_body:
  assumes fits: "record_fits r"
  shows "reads decode_record_body (encode_record_body r) r"
proof -
  let ?hs = "rec_headers r" and ?n = "word_of_nat (length (rec_headers r)) :: i32"
  have hs: "list_all header_fits ?hs" and n: "sint ?n = int (length ?hs)"
    using fits sint_len31 [of "length ?hs"] by (simp_all add: record_fits_def)
  have k: "reads decode_opt (encode_opt (rec_key r) []) (rec_key r)"
    and v: "reads decode_opt (encode_opt (rec_value r) []) (rec_value r)"
    using fits by (simp_all add: record_fits_def reads_opt)
  have heads: "reads (if 0 < sint ?n then r_list decode_header (nat (sint ?n)) else r_return [])
      (w_list encode_header ?hs []) ?hs"
    unfolding n nat_int using header_codec.reads_list [OF hs]
    by (cases "?hs = []") (auto simp: reads_return)
  show ?thesis
    unfolding decode_record_body_def encode_record_body_eq
    apply (rule reads_bind [OF reads_u8 _ refl])
    apply (rule reads_bind [OF reads_varlong _ refl])
    apply (rule reads_bind [OF reads_varint _ refl])
    apply (rule reads_bind [OF k _ refl])
    apply (rule reads_bind [OF v _ refl])
    apply (rule reads_bind [OF reads_varint _ refl])
    apply (rule reads_bind_last [OF heads])
    apply (cases r, simp)
    done
qed

lemma r_within_reads: "reads p s x \<Longrightarrow> r_within s p = Inr x"
  using reads_on [of p s x "[]"] by (simp add: r_within_def)

lemma encode_record_app:
  "encode_record r w = w @ w_varint (word_of_nat (length (encode_record_body r))) [] @ encode_record_body r"
  using w_varint_app [of _ w] by (simp add: encode_record_def w_raw_def Let_def)

lemmas encode_record_Nil = encode_record_app [of _ "[]", unfolded append_Nil]

interpretation record_codec: wire_codec encode_record decode_record record_fits
proof unfold_locales
  fix r w
  show "encode_record r w = w @ encode_record r []"
    by (simp only: encode_record_app append_Nil)
  show "encode_record r [] \<noteq> []"
    by (simp add: encode_record_Nil encode_record_body_eq)
  assume r: "record_fits r"
  let ?b = "encode_record_body r"
  have len: "sint (word_of_nat (length ?b) :: i32) = int (length ?b)"
    using r by (intro sint_len31) (simp add: record_fits_def small_def)
  have "reads (r_bind (r_raw (length ?b)) (\<lambda>s. r_lift (r_within s decode_record_body))) ?b r"
    by (rule reads_bind_last [OF reads_raw [OF refl]])
       (simp add: r_within_reads [OF reads_record_body [OF r]] r_lift_def r_return_def fun_eq_iff)
  then show "reads decode_record (encode_record r []) r"
    unfolding decode_record_def
    by (intro reads_bind [OF reads_varint _ encode_record_Nil])
       (simp only: len of_nat_less_0_iff if_False nat_int)
qed

section \<open>Batches\<close>

lemma reads_peek:
  assumes "reads_if (\<lambda>ts. ts = t) (f (cs @ t)) cs y"
  shows "reads_if (\<lambda>ts. ts = t) (r_bind r_remaining_bytes f) cs y"
  using assms by (simp add: reads_if_def r_bind_def r_remaining_bytes_def r_rest_def)

lemma r_within_reads_if: "reads_if (\<lambda>ts. ts = t) p s x \<Longrightarrow> r_within (s @ t) p = Inr x"
  by (simp add: reads_if_def r_within_def reader_on_def)

definition real_codec :: "compression \<Rightarrow> bool" where
  "real_codec c \<longleftrightarrow> c \<in> {C_none, C_gzip, C_snappy, C_lz4, C_zstd}"

text \<open>What the attribute word says, field by field.\<close>

lemmas attr_defs = batch_attrs_def Let_def codec_bits_def codec_of_bits_def ATTR_CODEC_MASK_def
  ATTR_TIMESTAMP_def ATTR_TRANSACTIONAL_def ATTR_CONTROL_def

lemma attrs_cases:
  assumes "real_codec (codec b)"
  shows "codec_of_bits (ucast (batch_attrs b AND ATTR_CODEC_MASK)) = codec b \<and>
    (batch_attrs b AND ATTR_TIMESTAMP \<noteq> 0 \<longleftrightarrow> timestamp_type b \<noteq> 0) \<and>
    (batch_attrs b AND ATTR_TRANSACTIONAL \<noteq> 0 \<longleftrightarrow> transactional b) \<and>
    (batch_attrs b AND ATTR_CONTROL \<noteq> 0 \<longleftrightarrow> control b)"
  using assms
  by (cases "codec b"; cases "timestamp_type b = 0"; cases "transactional b"; cases "control b")
     (simp_all add: real_codec_def attr_defs)

lemmas attrs_codec = attrs_cases [THEN conjunct1]
lemmas attrs_flags = attrs_cases [THEN conjunct2, THEN conjunct1]
  attrs_cases [THEN conjunct2, THEN conjunct2, THEN conjunct1]
  attrs_cases [THEN conjunct2, THEN conjunct2, THEN conjunct2]

definition covered_head :: "record_batch \<Rightarrow> bytes" where
  "covered_head b = w_i16 (batch_attrs b) [] @ w_i32 (last_offset_delta b) [] @
     w_i64 (base_timestamp b) [] @ w_i64 (max_timestamp b) [] @ w_i64 (producer_id b) [] @
     w_i16 (producer_epoch b) [] @ w_i32 (base_sequence b) [] @
     w_i32 (word_of_nat (length (records b))) []"

lemma batch_covered_eq: "batch_covered b payload = covered_head b @ payload"
  by (simp add: batch_covered_def covered_head_def Let_def w_raw_def w_i16_def w_i32_def w_i64_def w_be_def)

lemma length_covered_head: "length (covered_head b) = 40"
  by (simp add: covered_head_def w_i16_def w_i32_def w_i64_def)

text \<open>What decoding normalises: any non-zero timestamp type is written as the one attribute bit.\<close>

definition normal_batch :: "record_batch \<Rightarrow> record_batch" where
  "normal_batch b = b\<lparr>timestamp_type := (if timestamp_type b \<noteq> 0 then 1 else 0)\<rparr>"

definition batch_fits :: "codec_lib \<Rightarrow> record_batch \<Rightarrow> bool" where
  "batch_fits lib b \<longleftrightarrow> real_codec (codec b) \<and> length (records b) < 2 ^ 31 \<and>
     list_all record_fits (records b) \<and>
     (case compress lib (codec b) (w_list encode_record (records b) []) of
        Inr p \<Rightarrow> length p < 2 ^ 30 | Inl _ \<Rightarrow> True)"

text \<open>What the libraries promise: decompression undoes compression.\<close>

definition codec_ok :: "codec_lib \<Rightarrow> bool" where
  "codec_ok lib \<longleftrightarrow> (\<forall>c x y. compress lib c x = Inr y \<longrightarrow> decompress lib c y = Inr x)"

lemma decode_payload_encoded:
  assumes "list_all record_fits rs"
  shows "decode_payload (int (length rs)) (w_list encode_record rs []) = Inr rs"
  using record_codec.length_w_list [OF assms] r_within_reads [OF record_codec.reads_list [OF assms]]
  by (simp add: decode_payload_def)

lemma reads_batch_body:
  assumes m: "cpu_ok m" "cpu_ok m'" and lib: "codec_ok lib" and fits: "batch_fits lib b"
    and p: "compress lib (codec b) (w_list encode_record (records b) []) = Inr payload"
  shows "reads_if (\<lambda>ts. ts = payload) (decode_batch_body m lib (base_offset b))
    (w_i32 (partition_leader_epoch b) [] @ [MAGIC_V2] @
     w_i32 (crc32c m' (batch_covered b payload) 0) [] @ covered_head b) (normal_batch b)"
proof -
  let ?n = "word_of_nat (length (records b)) :: i32"
  have n: "sint ?n = int (length (records b))"
    using fits by (intro sint_len31) (simp add: batch_fits_def)
  then have n0: "\<not> sint ?n < 0" by simp
  have crc: "crc32c m (covered_head b @ payload) 0 = crc32c m' (batch_covered b payload) 0"
    using m by (simp add: batch_covered_eq crc32c_eq)
  have payload: "rbind (decompress lib (codec b) payload) (decode_payload (sint ?n)) = Inr (records b)"
    using lib p fits decode_payload_encoded [of "records b"]
    by (simp only: n) (simp add: codec_ok_def batch_fits_def)
  have real: "real_codec (codec b)" using fits by (simp add: batch_fits_def)
  note flags = attrs_codec [OF real] attrs_flags [OF real]
  show ?thesis
    unfolding decode_batch_body_def covered_head_def
    apply (rule reads_bind [OF reads_i32 _ refl])
    apply (rule reads_bind [OF reads_u8 _ refl])
    apply (subst if_not_P, simp)
    apply (rule reads_bind [OF reads_i32 _ refl])
    apply (rule reads_peek, fold covered_head_def)
    apply (subst if_not_P, simp add: crc)
    unfolding covered_head_def
    apply (rule reads_bind [OF reads_i16 _ refl])
    apply (rule reads_bind [OF reads_i32 _ refl])
    apply (rule reads_bind [OF reads_i64 _ refl])
    apply (rule reads_bind [OF reads_i64 _ refl])
    apply (rule reads_bind [OF reads_i64 _ refl])
    apply (rule reads_bind [OF reads_i16 _ refl])
    apply (rule reads_bind [OF reads_i32 _ refl])
    apply (rule reads_bind [OF reads_i32 _ append_Nil2 [symmetric]])
    apply (subst if_not_P, rule n0)
    apply (rule reads_peek)
    unfolding Let_def flags append_Nil payload
    apply (simp add: reads_if_def r_bind_def r_lift_def r_return_def normal_batch_def)
    done
qed

definition batch_body :: "cpu \<Rightarrow> record_batch \<Rightarrow> bytes \<Rightarrow> bytes" where
  "batch_body m b payload = w_i32 (partition_leader_epoch b) [] @ [MAGIC_V2] @
     w_i32 (crc32c m (batch_covered b payload) 0) [] @ batch_covered b payload"

lemma length_batch_body: "length (batch_body m b payload) = 49 + length payload"
  by (simp add: batch_body_def batch_covered_eq length_covered_head w_i32_def)

lemma encode_batch_eq:
  assumes "encode_batch m lib b w = Inr w'"
  obtains payload where "compress lib (codec b) (w_list encode_record (records b) []) = Inr payload"
    and "w' = w @ w_i64 (base_offset b) [] @ w_i32 (word_of_nat (length (batch_body m b payload))) [] @
           batch_body m b payload"
proof -
  from assms obtain payload
    where p: "compress lib (codec b) (w_list encode_record (records b) []) = Inr payload"
      and w': "w' = w_raw (batch_covered b payload) (w_i32 (crc32c m (batch_covered b payload) 0)
        (w_u8 MAGIC_V2 (w_i32 (partition_leader_epoch b)
          (w_i32 (of_nat (4 + 1 + 4 + length (batch_covered b payload))) (w_i64 (base_offset b) w)))))"
    unfolding encode_batch_def Let_def by (auto simp only: rbind_eq_Inr_iff sum.inject)
  have "length (batch_body m b payload) = 4 + 1 + 4 + length (batch_covered b payload)"
    by (simp add: batch_body_def w_i32_def)
  then have "w' = w @ w_i64 (base_offset b) [] @ w_i32 (word_of_nat (length (batch_body m b payload))) [] @
           batch_body m b payload"
    unfolding w' by (simp only: batch_body_def w_raw_def w_u8_def w_i32_def w_i64_def w_be_def
        append_assoc append_Nil)
  with p that show thesis by blast
qed

lemma reads_batch:
  assumes m: "cpu_ok m" "cpu_ok m'" and lib: "codec_ok lib" and fits: "batch_fits lib b"
    and enc: "encode_batch m' lib b [] = Inr bs"
  shows "reads (decode_batch m lib) bs (normal_batch b)"
proof -
  obtain payload where p: "compress lib (codec b) (w_list encode_record (records b) []) = Inr payload"
    and bs: "bs = w_i64 (base_offset b) [] @ w_i32 (word_of_nat (length (batch_body m' b payload))) [] @
           batch_body m' b payload"
    using enc by (rule encode_batch_eq) simp
  let ?s = "batch_body m' b payload"
  have "length payload < 2 ^ 30"
    using fits p by (simp add: batch_fits_def)
  then have len: "sint (word_of_nat (length ?s) :: i32) = int (length ?s)"
    by (intro sint_len31) (simp add: length_batch_body)
  then have n0: "\<not> sint (word_of_nat (length ?s) :: i32) < 0" by simp
  have body: "r_within ?s (decode_batch_body m lib (base_offset b)) = Inr (normal_batch b)"
    using r_within_reads_if [OF reads_batch_body [OF m lib fits p]]
    by (simp add: batch_body_def batch_covered_eq)
  show ?thesis
    unfolding decode_batch_def bs
    apply (rule reads_bind [OF reads_i64 _ refl])
    apply (rule reads_bind [OF reads_i32 _ refl])
    apply (subst if_not_P, rule n0)
    apply (rule reads_bind_last [OF reads_raw])
    apply (simp only: len nat_int)
    apply (simp add: body r_lift_def r_return_def fun_eq_iff)
    done
qed

lemma encoded_length:
  assumes "encode_batch m lib b [] = Inr e" and "batch_fits lib b"
  shows "header_bytes \<le> length e" and "length e < 2 ^ 31"
    and "\<exists>x n body. e = w_i64 x [] @ w_i32 n [] @ body \<and> sint n = int (length e) - 12"
proof -
  obtain payload where p: "compress lib (codec b) (w_list encode_record (records b) []) = Inr payload"
    and e: "e = w_i64 (base_offset b) [] @ w_i32 (word_of_nat (length (batch_body m b payload))) [] @
           batch_body m b payload"
    using assms(1) by (rule encode_batch_eq) simp
  have le: "length e = 61 + length payload"
    by (simp add: e length_batch_body w_i64_def w_i32_def)
  have small: "length payload < 2 ^ 30"
    using assms(2) p by (simp add: batch_fits_def)
  show "header_bytes \<le> length e" "length e < 2 ^ 31"
    using small by (simp_all add: le header_bytes_def)
  have "sint (word_of_nat (length (batch_body m b payload)) :: i32) = int (length e) - 12"
    using small by (subst sint_len31) (simp_all add: length_batch_body le)
  with e show "\<exists>x n body. e = w_i64 x [] @ w_i32 n [] @ body \<and> sint n = int (length e) - 12"
    by blast
qed

section \<open>A fetch response: batches back to back\<close>

lemma peek_len_eq:
  assumes "drop (rd_pos r) (rd_buf r) = w_i64 x [] @ w_i32 n [] @ ts"
  shows "peek_len r = Inr n"
proof -
  have "reads (r_bind r_i64 (\<lambda>_. r_i32)) (w_i64 x [] @ w_i32 n []) n"
    by (rule reads_bind [OF reads_i64 reads_i32 refl])
  from reads_on [OF this, of ts] show ?thesis
    using assms by (simp add: peek_len_def r_within_def r_rest_def)
qed

text \<open>The tail a fetch limit cuts off: a proper prefix of an encoded batch, possibly empty.\<close>

lemma loop_stops:
  assumes enc: "encode_batch m' lib b [] = Inr e" "batch_fits lib b" and n: "n < length e"
    and pos: "rd_pos r \<le> length (rd_buf r)" and buf: "drop (rd_pos r) (rd_buf r) = take n e"
  shows "decode_batches_loop m lib r out = Inr out"
proof (cases "header_bytes \<le> remaining r")
  case True
  have rem: "remaining r = n"
    using arg_cong [OF buf, of length] n by (simp add: remaining_def)
  obtain x k body where e: "e = w_i64 x [] @ w_i32 k [] @ body" and k: "sint k = int (length e) - 12"
    using encoded_length [OF enc] by blast
  have "take n e = w_i64 x [] @ w_i32 k [] @ take (n - 12) body"
    using True rem by (simp add: e header_bytes_def w_i64_def w_i32_def)
  then have "peek_len r = Inr k"
    using buf by (intro peek_len_eq) simp
  moreover have "nat (sint k) + 12 > remaining r"
    using encoded_length(1) [OF enc] n rem by (simp add: k header_bytes_def)
  ultimately show ?thesis
    by (subst decode_batches_loop.simps) simp
qed (subst decode_batches_loop.simps, simp)

lemma loop_batches:
  assumes m: "cpu_ok m" "cpu_ok m'" and lib: "codec_ok lib"
    and tail: "encode_batch m' lib b [] = Inr e" "batch_fits lib b" "n < length e"
  shows "list_all2 (\<lambda>b e. batch_fits lib b \<and> encode_batch m' lib b [] = Inr e) bs es \<Longrightarrow>
    rd_pos r \<le> length (rd_buf r) \<Longrightarrow> drop (rd_pos r) (rd_buf r) = concat es @ take n e \<Longrightarrow>
    decode_batches_loop m lib r out = Inr (out @ map normal_batch bs)"
proof (induction bs es arbitrary: r out rule: list_all2_induct)
  case Nil
  then show ?case using loop_stops [OF tail, of r m out] by simp
next
  case (Cons b1 bs e1 es)
  let ?r = "r\<lparr>rd_pos := rd_pos r + length e1\<rparr>"
  have enc: "encode_batch m' lib b1 [] = Inr e1" "batch_fits lib b1"
    using Cons.hyps by auto
  have buf: "drop (rd_pos r) (rd_buf r) = e1 @ (concat es @ take n e)"
    using Cons.prems by simp
  note next_r = drop_eq_append_length [OF buf Cons.prems(1)]
  have dec: "decode_batch m lib r = Inr (normal_batch b1, ?r)"
    using reads_ifD [OF reads_batch [OF m lib enc(2,1)] Cons.prems(1) buf] by simp
  obtain x k body where e1: "e1 = w_i64 x [] @ w_i32 k [] @ body" and k: "sint k = int (length e1) - 12"
    using encoded_length [OF enc] by blast
  have peek: "peek_len r = Inr k"
    using buf by (intro peek_len_eq) (simp add: e1)
  have "length e1 \<le> remaining r"
    using next_r(1) by (simp add: remaining_def)
  with encoded_length(1) [OF enc] k
  have go: "header_bytes \<le> remaining r" "\<not> (sint k < 0 \<or> nat (sint k) + 12 > remaining r)"
    by (auto simp: header_bytes_def)
  have "decode_batches_loop m lib r out = decode_batches_loop m lib ?r (out @ [normal_batch b1])"
    using go by (subst decode_batches_loop.simps) (simp only: peek dec rbind_simps if_True if_False prod.case)
  also have "\<dots> = Inr ((out @ [normal_batch b1]) @ map normal_batch bs)"
    using next_r by (intro Cons.IH) simp_all
  finally show ?case by simp
qed

section \<open>Corruption\<close>

lemma body_rejects:
  assumes "crc32c m c 0 \<noteq> k"
  shows "r_within (w_i32 ep [] @ [MAGIC_V2] @ w_i32 k [] @ c) (decode_batch_body m lib base) = Inl Crc_Mismatch"
proof -
  have peek: "fails_if (\<lambda>ts. ts = c) (r_bind r_remaining_bytes f) [] Crc_Mismatch"
    if "f c = r_throw Crc_Mismatch" for f :: "bytes \<Rightarrow> record_batch read"
    using that by (simp add: fails_if_def r_bind_def r_remaining_bytes_def r_rest_def r_throw_def)
  have "fails_if (\<lambda>ts. ts = c) (decode_batch_body m lib base) (w_i32 ep [] @ [MAGIC_V2] @ w_i32 k [] @ []) Crc_Mismatch"
    unfolding decode_batch_body_def
    apply (rule fails_bind [OF reads_i32 _ refl])
    apply (rule fails_bind [OF reads_u8 _ refl])
    apply (subst if_not_P, simp)
    apply (rule fails_bind [OF reads_i32 _ refl])
    apply (rule peek)
    apply (subst if_P, rule assms, rule refl)
    done
  then show ?thesis
    by (simp add: fails_if_def r_within_def reader_on_def)
qed

lemma batch_rejects:
  assumes n: "length s < 2 ^ 31" and s: "s = w_i32 ep [] @ [MAGIC_V2] @ w_i32 k [] @ c"
    and crc: "crc32c m c 0 \<noteq> k"
  shows "fails_if P (decode_batch m lib) (w_i64 base [] @ w_i32 (word_of_nat (length s)) [] @ s) Crc_Mismatch"
proof -
  have len: "sint (word_of_nat (length s) :: i32) = int (length s)"
    using n by (rule sint_len31)
  then have n0: "\<not> sint (word_of_nat (length s) :: i32) < 0" by simp
  have lift: "fails_if P (r_lift (r_within s (decode_batch_body m lib base))) [] Crc_Mismatch"
    using body_rejects [OF crc, of ep lib base] by (simp add: s fails_if_def r_lift_def)
  show ?thesis
    unfolding decode_batch_def
    apply (rule fails_bind [OF reads_i64 _ refl])
    apply (rule fails_bind [OF reads_i32 _ refl])
    apply (subst if_not_P, rule n0)
    apply (rule fails_bind [OF reads_raw _ append_Nil2 [symmetric]])
    apply (simp only: len nat_int)
    apply (rule lift)
    done
qed

section \<open>Properties\<close>

text \<open>Concrete libraries and a batch for the witnesses: codecs that reverse their input.\<close>

definition rev_lib :: codec_lib where
  "rev_lib = \<lparr>gzip_compress = (\<lambda>x. Inr (rev x)), snappy_compress = (\<lambda>x. Inr (rev x)),
     lz4_compress = (\<lambda>x. Inr (rev x)), zstd_compress = (\<lambda>x. Inr (rev x)),
     gzip_decompress = (\<lambda>x. Inr (rev x)), snappy_decompress = (\<lambda>x. Inr (rev x)),
     lz4_decompress = (\<lambda>x. Inr (rev x)), zstd_decompress = (\<lambda>x. Inr (rev x))\<rparr>"

lemma codec_ok_rev_lib: "codec_ok rev_lib"
  by (auto simp: codec_ok_def rev_lib_def compress_def decompress_def as_protocol_error_def
      split: compression.splits)

definition demo_record :: "i32 \<Rightarrow> krecord" where
  "demo_record d = \<lparr>timestamp_delta = 5, offset_delta = d, rec_key = None, rec_value = Some [1, 2],
     rec_headers = [\<lparr>rh_key = [7], rh_value = None\<rparr>]\<rparr>"

definition demo_batch :: record_batch where
  "demo_batch = \<lparr>base_offset = 100, partition_leader_epoch = 3, codec = C_zstd, transactional = True,
     control = False, timestamp_type = 1, base_timestamp = 1000, max_timestamp = 2000,
     producer_id = 9, producer_epoch = 1, base_sequence = 0, records = [demo_record 0, demo_record 1]\<rparr>"

lemma demo_body: "encode_record_body (demo_record 0) = [0, 10, 0, 1, 4, 1, 2, 2, 2, 7, 1]"
    "encode_record_body (demo_record 1) = [0, 10, 2, 1, 4, 1, 2, 2, 2, 7, 1]"
  by (simp_all add: demo_record_def encode_record_body_def encode_opt_def encode_header_def Let_def
      w_u8_def w_varlong_def w_uvarlong_def w_varint_def w_uvarint_def w_raw_def zigzag_def w_uvar.simps)

lemma demo_fits: "batch_fits rev_lib demo_batch"
  by (simp add: batch_fits_def demo_batch_def real_codec_def record_fits_def small_def demo_body
      header_fits_def encode_record_def w_varint_def w_uvarint_def w_uvar.simps zigzag_def w_raw_def
      compress_def rev_lib_def as_protocol_error_def)
     (simp add: demo_record_def small_def header_fits_def w_u8_def)

lemma demo_encodes:
  obtains e where "encode_batch sse42_cpu rev_lib demo_batch [] = Inr e"
  by (simp add: encode_batch_def demo_batch_def compress_def rev_lib_def as_protocol_error_def Let_def)

text \<open>C1: a record batch that \<open>encode\<close> wrote on one machine is decoded on another to the batch that
  was written, for every codec, with the reader standing right behind it; the only thing that is
  normalised is a timestamp type other than 0 and 1.\<close>

theorem decode_encode_batch:
  assumes "cpu_ok m" and "cpu_ok m'" and "codec_ok lib" and "batch_fits lib b"
    and "encode_batch m' lib b [] = Inr e"
  shows "decode_batch m lib (reader_on (e @ ts)) =
           Inr (normal_batch b, \<lparr>rd_buf = e @ ts, rd_pos = length e\<rparr>)"
  by (rule reads_on [OF reads_batch [OF assms]])

theorem decode_encode_batch_witness:
  "\<exists>e. encode_batch sse42_cpu rev_lib demo_batch [] = Inr e \<and>
     decode_batch plain_cpu rev_lib (reader_on (e @ [1])) =
       Inr (demo_batch, \<lparr>rd_buf = e @ [1], rd_pos = length e\<rparr>)"
proof -
  obtain e where e: "encode_batch sse42_cpu rev_lib demo_batch [] = Inr e"
    by (rule demo_encodes)
  have "normal_batch demo_batch = demo_batch"
    by (simp add: normal_batch_def demo_batch_def)
  with e decode_encode_batch [OF cpu_ok_plain cpu_ok_sse42 codec_ok_rev_lib demo_fits e, of "[1]"]
  show ?thesis by auto
qed

text \<open> a fetch response cut anywhere inside a batch decodes to exactly the complete batches
  before the cut, in order, and without an error.\<close>

theorem decode_batches_drops_the_cut_batch:
  assumes "cpu_ok m" and "cpu_ok m'" and "codec_ok lib"
    and "list_all2 (\<lambda>b e. batch_fits lib b \<and> encode_batch m' lib b [] = Inr e) bs es"
    and "encode_batch m' lib b [] = Inr e" and "batch_fits lib b" and "n < length e"
  shows "decode_batches m lib (concat es @ take n e) = Inr (map normal_batch bs)"
  using loop_batches [OF assms(1,2,3,5,6,7,4), of "reader_on (concat es @ take n e)" "[]"]
  by (simp add: decode_batches_def reader_on_def)

theorem decode_batches_drops_the_cut_batch_witness:
  "\<exists>e. encode_batch sse42_cpu rev_lib demo_batch [] = Inr e \<and>
     decode_batches plain_cpu rev_lib (concat [e, e] @ take 13 e) = Inr [demo_batch, demo_batch]"
proof -
  obtain e where e: "encode_batch sse42_cpu rev_lib demo_batch [] = Inr e"
    by (rule demo_encodes)
  have n: "normal_batch demo_batch = demo_batch"
    by (simp add: normal_batch_def demo_batch_def)
  have "13 < length e"
    using encoded_length(1) [OF e demo_fits] by (simp add: header_bytes_def)
  from decode_batches_drops_the_cut_batch [OF cpu_ok_plain cpu_ok_sse42 codec_ok_rev_lib _ e demo_fits this,
      of "[demo_batch, demo_batch]" "[e, e]"]
  show ?thesis using e demo_fits by (simp add: n)
qed

text \<open>C2: a batch in which one byte covered by the checksum was changed is refused with the CRC
  error, whatever the change and wherever it is.\<close>

theorem decode_batch_refuses_a_changed_byte:
  assumes "cpu_ok m" and "cpu_ok m'" and "batch_fits lib b"
    and "encode_batch m' lib b [] = Inr e"
    and "21 \<le> i" and "i < length e" and "x \<noteq> e ! i"
  shows "decode_batch m lib (reader_on (e[i := x] @ ts)) = Inl Crc_Mismatch"
proof -
  obtain payload where p: "compress lib (codec b) (w_list encode_record (records b) []) = Inr payload"
    and e: "e = w_i64 (base_offset b) [] @ w_i32 (word_of_nat (length (batch_body m' b payload))) [] @
           batch_body m' b payload"
    using assms(4) by (rule encode_batch_eq) simp
  let ?c = "batch_covered b payload" and ?j = "i - 21"
  let ?k = "crc32c m' ?c 0"
  let ?s = "w_i32 (partition_leader_epoch b) [] @ [MAGIC_V2] @ w_i32 ?k [] @ ?c[?j := x]"
  have len: "length ?s = length (batch_body m' b payload)"
    by (simp add: batch_body_def)
  have small: "length ?s < 2 ^ 31"
    unfolding len using assms(3) p by (simp add: length_batch_body batch_fits_def)
  define head where "head = w_i64 (base_offset b) [] @ w_i32 (word_of_nat (length ?s)) [] @
    w_i32 (partition_leader_epoch b) [] @ [MAGIC_V2] @ w_i32 ?k []"
  have e': "e = head @ ?c"
    unfolding e head_def len by (simp only: batch_body_def append_assoc)
  have head: "length head = 21"
    by (simp add: head_def w_i64_def w_i32_def)
  have j: "?j < length ?c" and x: "x \<noteq> ?c ! ?j"
    using assms(5,6,7) head by (simp_all add: e' nth_append)
  have "e[i := x] = head @ ?c[?j := x]"
    using assms(5) head by (simp add: e' list_update_append)
  then have upd: "e[i := x] = w_i64 (base_offset b) [] @ w_i32 (word_of_nat (length ?s)) [] @ ?s"
    by (simp only: head_def append_assoc)
  have "crc32c m (?c[?j := x]) 0 \<noteq> crc32c m ?c 0"
    using crc_byte_change [OF assms(1) x] j by (metis id_take_nth_drop upd_conv_take_nth_drop)
  also have "crc32c m ?c 0 = ?k"
    using assms(1,2) by (simp add: crc32c_eq)
  finally have "fails_if (\<lambda>_. True) (decode_batch m lib) (e[i := x]) Crc_Mismatch"
    unfolding upd by (rule batch_rejects [OF small refl])
  then show ?thesis
    by (simp add: fails_if_def reader_on_def)
qed

theorem decode_batch_refuses_a_changed_byte_witness:
  "\<exists>e x. encode_batch sse42_cpu rev_lib demo_batch [] = Inr e \<and> 30 < length e \<and> x \<noteq> e ! 30 \<and>
     decode_batch plain_cpu rev_lib (reader_on (e[30 := x])) = Inl Crc_Mismatch"
proof -
  obtain e where e: "encode_batch sse42_cpu rev_lib demo_batch [] = Inr e"
    by (rule demo_encodes)
  have l: "30 < length e"
    using encoded_length(1) [OF e demo_fits] by (simp add: header_bytes_def)
  let ?x = "e ! 30 + 1"
  have x: "?x \<noteq> e ! 30" by simp
  from decode_batch_refuses_a_changed_byte [OF cpu_ok_plain cpu_ok_sse42 demo_fits e _ l x, of "[]"]
  have "decode_batch plain_cpu rev_lib (reader_on (e[30 := ?x])) = Inl Crc_Mismatch"
    by simp
  with e l x show ?thesis by blast
qed

end
