(* ===== verification/Acks.thy ===== *)
theory Acks
  imports Prelude
begin

text \<open>
  \<open>src/runtime/transaction.cc\<close>: \<open>ack_group\<close>, which resolves the acknowledgement of a batch
  that was split into several.  The effect of calling the parent is the list of the arguments it
  was called with, so that calling it twice, or never, is visible.  \<open>_pending\<close> is a \<open>size_t\<close>
  and wraps as one.
\<close>

record 'e ack_group =
  pending :: "64 word"
  sealed :: bool
  fired :: bool
  first_error :: "'e option"
  parent_calls :: "'e option list"

definition make_group :: "'e ack_group" where
  "make_group = \<lparr>pending = 0, sealed = False, fired = False, first_error = None, parent_calls = []\<rparr>"

definition add_child :: "'e ack_group \<Rightarrow> 'e ack_group" where
  "add_child g = g\<lparr>pending := pending g + 1\<rparr>"

definition fire :: "'e ack_group \<Rightarrow> 'e ack_group" where
  "fire g = g\<lparr>fired := True, parent_calls := parent_calls g @ [first_error g]\<rparr>"

definition child_done :: "'e option \<Rightarrow> 'e ack_group \<Rightarrow> 'e ack_group" where
  "child_done e g =
     (let g = (if e \<noteq> None \<and> first_error g = None then g\<lparr>first_error := e\<rparr> else g);
          g = g\<lparr>pending := pending g - 1\<rparr>
      in if pending g = 0 \<and> sealed g \<and> \<not> fired g then fire g else g)"

definition seal :: "'e ack_group \<Rightarrow> 'e ack_group" where
  "seal g =
     (let g = g\<lparr>sealed := True\<rparr>
      in if pending g = 0 \<and> \<not> fired g then fire g else g)"

section \<open>Histories\<close>

datatype 'e ack_event = Add_Child | Child_Done "'e option" | Seal

fun ack_step :: "'e ack_event \<Rightarrow> 'e ack_group \<Rightarrow> 'e ack_group" where
  "ack_step Add_Child g = add_child g"
| "ack_step (Child_Done e) g = child_done e g"
| "ack_step Seal g = seal g"

text \<open>
  The discipline of the callers: the group is sealed once, no child is added after that, and a
  child completes at most once.  Children may complete before the group is sealed, which
  \<open>batched_input\<close> relies on.
\<close>

fun disciplined :: "bool \<Rightarrow> nat \<Rightarrow> 'e ack_event list \<Rightarrow> bool" where
  "disciplined s n [] \<longleftrightarrow> True"
| "disciplined s n (Add_Child # es) \<longleftrightarrow> \<not> s \<and> disciplined s (Suc n) es"
| "disciplined s n (Child_Done e # es) \<longleftrightarrow> 0 < n \<and> disciplined s (n - 1) es"
| "disciplined s n (Seal # es) \<longleftrightarrow> \<not> s \<and> disciplined True n es"

fun added :: "'e ack_event list \<Rightarrow> nat" where
  "added [] = 0"
| "added (Add_Child # es) = Suc (added es)"
| "added (_ # es) = added es"

fun results :: "'e ack_event list \<Rightarrow> 'e option list" where
  "results [] = []"
| "results (Child_Done e # es) = e # results es"
| "results (_ # es) = results es"

definition first_nack :: "'e option list \<Rightarrow> 'e option" where
  "first_nack rs = (case filter (\<lambda>r. r \<noteq> None) rs of [] \<Rightarrow> None | r # _ \<Rightarrow> r)"

lemma first_nack_simps [simp]:
  "first_nack [] = None"
  "first_nack (None # rs) = first_nack rs"
  "first_nack (Some e # rs) = Some e"
  by (simp_all add: first_nack_def)

section \<open>The invariant\<close>

text \<open>\<open>n\<close> children are outstanding, \<open>fe\<close> is the first error so far.\<close>

definition ack_inv :: "bool \<Rightarrow> nat \<Rightarrow> 'e option \<Rightarrow> 'e ack_group \<Rightarrow> bool" where
  "ack_inv s n fe g \<longleftrightarrow> sealed g = s \<and> pending g = of_nat n \<and> fired g = (s \<and> n = 0) \<and>
     first_error g = fe \<and> parent_calls g = (if s \<and> n = 0 then [fe] else [])"

lemma of_nat_zero64: "n < 2 ^ 64 \<Longrightarrow> (of_nat n :: 64 word) = 0 \<longleftrightarrow> n = 0"
  by (simp add: word_of_nat_eq_0_iff nat_dvd_not_less) (metis dvd_imp_le gr0I not_le dvd_0_right)

lemma ack_inv_add: "ack_inv False n fe g \<Longrightarrow> ack_inv False (Suc n) fe (add_child g)"
  by (simp add: ack_inv_def add_child_def)

lemma ack_inv_seal: "ack_inv False n fe g \<Longrightarrow> n < 2 ^ 64 \<Longrightarrow> ack_inv True n fe (seal g)"
  by (simp add: ack_inv_def seal_def fire_def Let_def of_nat_zero64)

lemma ack_inv_done:
  assumes "ack_inv s n fe g" and "0 < n" and "n < 2 ^ 64"
  shows "ack_inv s (n - 1) (if fe = None then e else fe) (child_done e g)"
proof -
  have "(of_nat n :: 64 word) - 1 = of_nat (n - 1)"
    using assms(2) by (simp add: of_nat_diff)
  then show ?thesis
    using assms of_nat_zero64 [of "n - 1"]
    by (auto simp: ack_inv_def child_done_def fire_def Let_def)
qed

lemma ack_run:
  "ack_inv s n fe g \<Longrightarrow> disciplined s n es \<Longrightarrow> n + added es < 2 ^ 64 \<Longrightarrow>
   ack_inv (s \<or> Seal \<in> set es) (n + added es - length (results es))
     (if fe = None then first_nack (results es) else fe) (fold ack_step es g)"
proof (induction es arbitrary: s n fe g)
  case (Cons ev es)
  show ?case
  proof (cases ev)
    case Add_Child
    then have "s = False" using Cons.prems by simp
    with Add_Child Cons.IH [OF ack_inv_add [of n fe g]] Cons.prems show ?thesis
      by (cases fe) simp_all
  next
    case (Child_Done e)
    have "0 < n" "n < 2 ^ 64" using Cons.prems by (simp_all add: Child_Done)
    from Cons.IH [OF ack_inv_done [OF Cons.prems(1) this, of e]] Cons.prems this
    show ?thesis by (cases e) (auto simp: Child_Done)
  next
    case Seal
    then have "s = False" and n: "n < 2 ^ 64" using Cons.prems by simp_all
    with Cons.IH [OF ack_inv_seal [of n fe g]] Cons.prems Seal show ?thesis
      by (cases fe) simp_all
  qed
qed auto

lemma ack_inv_make: "ack_inv False 0 None make_group"
  by (simp add: ack_inv_def make_group_def)

lemma results_le: "disciplined s n es \<Longrightarrow> length (results es) \<le> n + added es"
  by (induction s n es rule: disciplined.induct) auto

text \<open>
  The comment at \<open>add_child\<close> asks for every child to be added before any completes, because the count
  could reach zero early.  The code does not depend on that: the count may be zero as often as it
  likes before the seal, and the parent is not called.
\<close>

lemma silent_before_the_seal: "Seal \<notin> set es \<Longrightarrow> parent_calls (fold ack_step es make_group) = []"
proof -
  have "\<not> sealed g \<Longrightarrow> Seal \<notin> set es \<Longrightarrow> parent_calls (fold ack_step es g) = parent_calls g" for g :: "'a ack_group"
  proof (induction es arbitrary: g)
    case (Cons ev es)
    then have "\<not> sealed (ack_step ev g)" "parent_calls (ack_step ev g) = parent_calls g"
      by (cases ev; simp add: add_child_def child_done_def Let_def)+
    with Cons show ?case by simp
  qed simp
  then show "Seal \<notin> set es \<Longrightarrow> ?thesis" by (simp add: make_group_def)
qed

lemma completion_before_the_last_child:
  "parent_calls (fold ack_step [Add_Child, Child_Done e, Add_Child] make_group) = []"
  "parent_calls (fold ack_step [Add_Child, Child_Done None, Add_Child, Seal, Child_Done (Some x)] make_group) = [Some x]"
  by (simp_all add: make_group_def add_child_def child_done_def seal_def fire_def Let_def)

section \<open>Properties\<close>

text \<open>C4: at every moment of a disciplined history the parent has been called exactly once, with
  the first error, when the group is sealed and every child has completed, and not at all
  before; with no child at all it is acknowledged by the seal.  Children may complete before others
  are added, as long as the seal has not happened: the comment at \<open>add_child\<close> in
  \<open>transaction.hh\<close> forbids that and says the parent would acknowledge early, which the test of
  \<open>_sealed\<close> rules out (\<open>silent_before_the_seal\<close>).\<close>

theorem parent_resolved_exactly_once:
  assumes "disciplined False 0 es" and "added es < 2 ^ 64"
  shows "parent_calls (fold ack_step es make_group) =
    (if Seal \<in> set es \<and> length (results es) = added es then [first_nack (results es)] else [])"
  using ack_run [OF ack_inv_make assms(1)] assms(2) results_le [OF assms(1)]
  by (auto simp: ack_inv_def)

theorem parent_resolved_exactly_once_witness:
  "parent_calls (fold ack_step [Add_Child, Add_Child, Child_Done None, Seal, Child_Done (Some 3)] make_group)
     = [Some (3 :: nat)]"
  using parent_resolved_exactly_once
    [of "[Add_Child, Add_Child, Child_Done None, Seal, Child_Done (Some (3 :: nat))]"] by simp

text \<open>whatever the callers do, the parent is never called twice.\<close>

theorem parent_never_called_twice: "length (parent_calls (fold ack_step es make_group)) \<le> 1"
proof -
  have "fired (fold ack_step es g) = (parent_calls (fold ack_step es g) \<noteq> []) \<and>
      length (parent_calls (fold ack_step es g)) \<le> 1"
    if "fired g = (parent_calls g \<noteq> [])" "length (parent_calls g) \<le> 1" for g :: "'a ack_group"
    using that
  proof (induction es arbitrary: g)
    case (Cons ev es)
    have "fired (ack_step ev g) = (parent_calls (ack_step ev g) \<noteq> []) \<and>
        length (parent_calls (ack_step ev g)) \<le> 1"
      using Cons.prems by (cases ev) (auto simp: add_child_def child_done_def seal_def fire_def Let_def)
    with Cons.IH show ?case by simp
  qed simp
  from this [of make_group] show ?thesis by (simp add: make_group_def)
qed

end
