(* ===== verification/Batch_Policy.thy ===== *)
theory Batch_Policy
  imports Prelude
begin

text \<open>
  \<open>src/runtime/batching.cc\<close>: accumulate messages until a trigger fires.  A message is abstract
  with its size in bytes as \<open>size_of\<close> (\<open>as_bytes().size()\<close>); the check is the compiled query of
  the configuration, which sees the batch and may throw.  Time is the monotonic clock in
  nanoseconds, passed to the operations that read it; the period is in milliseconds.
\<close>

record batch_policy_config =
  bp_count :: int
  bp_byte_size :: int
  bp_period_ns :: int
  bp_check :: bytes

definition is_noop :: "batch_policy_config \<Rightarrow> bool" where
  "is_noop c \<longleftrightarrow> bp_count c \<le> 0 \<and> bp_byte_size c \<le> 0 \<and> bp_period_ns c \<le> 0 \<and> bp_check c = []"

record 'm batch_policy =
  count :: int
  byte_size :: int
  period :: int
  check :: "('m list \<Rightarrow> unit + bool) option"
  parts :: "'m list"
  size_tally :: int
  triggered :: bool
  last_batch :: int

definition make_policy :: "int \<Rightarrow> int \<Rightarrow> int \<Rightarrow> ('m list \<Rightarrow> unit + bool) option \<Rightarrow> int \<Rightarrow> 'm batch_policy" where
  "make_policy c b p chk now = \<lparr>count = c, byte_size = b, period = p, check = chk, parts = [],
     size_tally = 0, triggered = False, last_batch = now\<rparr>"

definition ns_per_ms :: int where "ns_per_ms = 1000000"

definition run_check :: "'m batch_policy \<Rightarrow> bool" where
  "run_check p = (case check p of None \<Rightarrow> False
     | Some f \<Rightarrow> (case f (parts p) of Inl _ \<Rightarrow> False | Inr b \<Rightarrow> b))"

definition add :: "('m \<Rightarrow> nat) \<Rightarrow> int \<Rightarrow> 'm \<Rightarrow> 'm batch_policy \<Rightarrow> bool \<times> 'm batch_policy" where
  "add size_of now m p =
     (let p = (if byte_size p > 0 then p\<lparr>size_tally := size_tally p + int (size_of m)\<rparr> else p);
          p = p\<lparr>parts := parts p @ [m]\<rparr>;
          p = (if \<not> triggered p \<and> count p > 0 \<and> int (length (parts p)) \<ge> count p
               then p\<lparr>triggered := True\<rparr> else p);
          p = (if \<not> triggered p \<and> byte_size p > 0 \<and> size_tally p \<ge> byte_size p
               then p\<lparr>triggered := True\<rparr> else p);
          p = (if \<not> triggered p \<and> check p \<noteq> None then p\<lparr>triggered := run_check p\<rparr> else p)
      in (triggered p \<or> (period p > 0 \<and> now - last_batch p > period p * ns_per_ms), p))"

definition until_next :: "int \<Rightarrow> 'm batch_policy \<Rightarrow> int" where
  "until_next now p =
     (if period p \<le> 0 then 0
      else let elapsed = (now - last_batch p) div ns_per_ms
           in if elapsed \<ge> period p then 0 else period p - elapsed)"

definition policy_empty :: "'m batch_policy \<Rightarrow> bool" where
  "policy_empty p \<longleftrightarrow> parts p = []"

definition take_batch :: "int \<Rightarrow> 'm batch_policy \<Rightarrow> 'm list \<times> 'm batch_policy" where
  "take_batch now p =
     (parts p, p\<lparr>parts := [], size_tally := 0, triggered := False, last_batch := now\<rparr>)"

section \<open>Feeding a policy\<close>

text \<open>What its owners do: add each message with the time it came, and take the batch when \<open>add\<close>
  says so.\<close>

fun feed :: "('m \<Rightarrow> nat) \<Rightarrow> ('m \<times> int) list \<Rightarrow> 'm batch_policy \<Rightarrow> 'm list list \<times> 'm batch_policy" where
  "feed size_of [] p = ([], p)"
| "feed size_of ((m, now) # ms) p =
     (case add size_of now m p of
        (False, p) \<Rightarrow> feed size_of ms p
      | (True, p) \<Rightarrow> (case take_batch now p of (b, p) \<Rightarrow>
          (case feed size_of ms p of (bs, p) \<Rightarrow> (b # bs, p))))"

lemma parts_add [simp]: "parts (snd (add size_of now m p)) = parts p @ [m]"
  by (simp add: add_def Let_def)

lemma parts_take [simp]:
  "fst (take_batch now p) = parts p" "parts (snd (take_batch now p)) = []"
  by (simp_all add: take_batch_def)

lemma config_kept [simp]:
  "count (snd (add size_of now m p)) = count p" "byte_size (snd (add size_of now m p)) = byte_size p"
  "period (snd (add size_of now m p)) = period p" "check (snd (add size_of now m p)) = check p"
  "last_batch (snd (add size_of now m p)) = last_batch p"
  "count (snd (take_batch now p)) = count p" "byte_size (snd (take_batch now p)) = byte_size p"
  "period (snd (take_batch now p)) = period p" "check (snd (take_batch now p)) = check p"
  "last_batch (snd (take_batch now p)) = now"
  by (simp_all add: add_def take_batch_def Let_def)

text \<open>The tally is the size of what is held, and nothing held has reached a limit yet.\<close>

definition policy_inv :: "('m \<Rightarrow> nat) \<Rightarrow> 'm batch_policy \<Rightarrow> bool" where
  "policy_inv size_of p \<longleftrightarrow> \<not> triggered p \<and>
     (byte_size p > 0 \<longrightarrow> size_tally p = (\<Sum>m\<leftarrow>parts p. int (size_of m)) \<and> size_tally p < byte_size p) \<and>
     (count p > 0 \<longrightarrow> int (length (parts p)) < count p)"

lemma policy_inv_take: "policy_inv size_of (snd (take_batch now p))"
  by (simp add: policy_inv_def take_batch_def)

lemma policy_inv_make: "policy_inv size_of (make_policy c b p chk now)"
  by (simp add: policy_inv_def make_policy_def)

text \<open>\<open>add\<close> keeps the invariant when it does not ask for a flush.\<close>

lemma policy_inv_add:
  "policy_inv size_of p \<Longrightarrow> \<not> fst (add size_of now m p) \<Longrightarrow> policy_inv size_of (snd (add size_of now m p))"
  by (auto simp: policy_inv_def add_def Let_def split: if_splits)

definition batch_within :: "('m \<Rightarrow> nat) \<Rightarrow> int \<Rightarrow> int \<Rightarrow> 'm list \<Rightarrow> bool" where
  "batch_within size_of c b x \<longleftrightarrow> x \<noteq> [] \<and> (c > 0 \<longrightarrow> int (length x) \<le> c) \<and>
     (b > 0 \<longrightarrow> (\<Sum>m\<leftarrow>butlast x. int (size_of m)) < b)"

lemma batch_within_add:
  "policy_inv size_of p \<Longrightarrow> batch_within size_of (count p) (byte_size p) (parts p @ [m])"
  by (auto simp: policy_inv_def batch_within_def)

lemma feed_Cons:
  "feed size_of ((m, now) # ms) p =
     (let q = snd (add size_of now m p); t = snd (take_batch now q)
      in if fst (add size_of now m p)
         then ((parts p @ [m]) # fst (feed size_of ms t), snd (feed size_of ms t))
         else feed size_of ms q)"
  using parts_add [of size_of now m p]
  by (cases "add size_of now m p") (auto simp: Let_def take_batch_def split: prod.split)

declare feed.simps(2) [simp del]

lemma feed_batches:
  "policy_inv size_of p \<Longrightarrow>
     concat (fst (feed size_of ms p)) @ parts (snd (feed size_of ms p)) = parts p @ map fst ms \<and>
     list_all (batch_within size_of (count p) (byte_size p)) (fst (feed size_of ms p)) \<and>
     policy_inv size_of (snd (feed size_of ms p)) \<and>
     count (snd (feed size_of ms p)) = count p \<and> byte_size (snd (feed size_of ms p)) = byte_size p"
proof (induction ms arbitrary: p)
  case (Cons x ms)
  obtain m now where x: "x = (m, now)" by (cases x)
  let ?q = "snd (add size_of now m p)"
  let ?t = "snd (take_batch now ?q)"
  show ?case
  proof (cases "fst (add size_of now m p)")
    case False
    have "policy_inv size_of ?q" by (rule policy_inv_add [OF Cons.prems False])
    from Cons.IH [OF this] False show ?thesis
      by (simp add: x feed_Cons)
  next
    case True
    have "policy_inv size_of ?t" by (rule policy_inv_take)
    from Cons.IH [OF this] batch_within_add [OF Cons.prems, of m] True show ?thesis
      by (simp add: x feed_Cons Let_def)
  qed
qed simp

section \<open>Properties\<close>

text \<open> no message is lost, duplicated or reordered by a policy: the batches it released and what it
  still holds are the messages that were added, and every batch respects the count limit and
  passes the byte limit only with its last message.\<close>

theorem policy_preserves_messages:
  assumes "feed size_of ms (make_policy c b per chk start) = (bs, q)"
  shows "concat bs @ parts q = map fst ms \<and>
    (\<forall>x\<in>set bs. x \<noteq> [] \<and> (c > 0 \<longrightarrow> int (length x) \<le> c) \<and>
       (b > 0 \<longrightarrow> (\<Sum>m\<leftarrow>butlast x. int (size_of m)) < b)) \<and>
    (c > 0 \<longrightarrow> int (length (parts q)) < c) \<and> (b > 0 \<longrightarrow> (\<Sum>m\<leftarrow>parts q. int (size_of m)) < b)"
  using feed_batches [OF policy_inv_make, of size_of ms c b per chk start] assms
  by (simp add: batch_within_def policy_inv_def make_policy_def list_all_iff) auto

theorem policy_preserves_messages_witness:
  "concat [[1, 2], [3, 4]] @ [5] = [1, 2, 3, 4, 5 :: nat] \<and>
   fst (feed (\<lambda>m. m) [(1, 0), (2, 0), (3, 0), (4, 0), (5, 0)] (make_policy 2 0 0 None 0)) = [[1, 2], [3, 4 :: nat]]"
proof -
  let ?ms = "[(1, 0), (2, 0), (3, 0), (4, 0), (5, 0)] :: (nat \<times> int) list"
  obtain bs q where f: "feed (\<lambda>m. m) ?ms (make_policy 2 0 0 None 0) = (bs, q)"
    by fastforce
  then have "bs = [[1, 2], [3, 4]] \<and> parts q = [5]"
    by (auto simp: feed_Cons make_policy_def add_def take_batch_def Let_def run_check_def)
  with policy_preserves_messages [OF f] f show ?thesis by simp
qed

text \<open> a trigger cannot be missed: \<open>add\<close> asks for a flush whenever, with the new message, the count
  or the byte limit is reached, the check says so, or the period is over, and a check that throws
  is not a trigger.\<close>

theorem add_reports_every_trigger:
  assumes "policy_inv size_of p"
  shows "fst (add size_of now m p) \<longleftrightarrow>
    (count p > 0 \<and> int (length (parts p @ [m])) \<ge> count p) \<or>
    (byte_size p > 0 \<and> (\<Sum>m\<leftarrow>parts p @ [m]. int (size_of m)) \<ge> byte_size p) \<or>
    (\<exists>f. check p = Some f \<and> f (parts p @ [m]) = Inr True) \<or>
    (period p > 0 \<and> now > last_batch p + period p * 1000000)"
  using assms
  by (auto simp: add_def Let_def policy_inv_def run_check_def ns_per_ms_def
      split: option.splits sum.splits)

theorem add_reports_every_trigger_witness:
  "policy_inv id (make_policy 0 0 5 (Some (\<lambda>_. Inl ())) 0 :: nat batch_policy) \<and>
   \<not> fst (add id 1 7 (make_policy 0 0 5 (Some (\<lambda>_. Inl ())) 0))"
  using add_reports_every_trigger [OF policy_inv_make, of id 1 7 0 0 5 "Some (\<lambda>_. Inl ())" 0] policy_inv_make
  by (simp add: make_policy_def)

text \<open>after waiting for \<open>until_next\<close> the period trigger is due, and not before: the timer of the
  owner neither spins nor oversleeps.\<close>

theorem until_next_is_exact:
  assumes "last_batch p \<le> now" and "period p > 0"
  shows "until_next (now + until_next now p * 1000000) p = 0 \<and> until_next now p \<le> period p \<and>
    (\<forall>d. 0 \<le> d \<and> d < until_next now p \<longrightarrow> until_next (now + d * 1000000) p = until_next now p - d)"
proof -
  let ?e = "(now - last_batch p) div 1000000"
  have shift: "(now + d * 1000000 - last_batch p) div 1000000 = ?e + d" for d
  proof -
    have "now + d * 1000000 - last_batch p = (now - last_batch p) + d * 1000000" by simp
    then show ?thesis by (simp only: div_mult_self3)
  qed
  have e: "0 \<le> ?e" using assms(1) by simp
  then show ?thesis
    using assms(2) by (auto simp: until_next_def Let_def ns_per_ms_def shift)
qed

theorem until_next_is_exact_witness:
  "until_next (3000000 + until_next 3000000 (make_policy 0 0 10 None 0) * 1000000) (make_policy 0 0 10 None 0) = 0
   \<and> until_next 3000000 (make_policy 0 0 10 None 0) = 7"
  using until_next_is_exact [of "make_policy 0 0 10 None 0" 3000000]
  by (simp add: make_policy_def until_next_def ns_per_ms_def)

end
