(* ===== verification/Rendezvous.thy ===== *)
theory Rendezvous
  imports Prelude
begin

text \<open>
  \<open>include/swordfish/runtime/rendezvous.hh\<close>: the bounded hand-off between many producers and
  many consumers.  A shard is cooperative, so between two suspensions an operation is atomic: one
  attempt of a fiber is one step, which either suspends on the condition variable, throws, or
  completes.  \<open>due\<close> says that the wait of an attempt ran into its deadline (or, for the abortable
  \<open>pop\<close>, that the abort source fired).
\<close>

record ('a, 'e) rendezvous =
  buffered :: "'a list"
  capacity :: nat
  closed_with :: "'e option"

definition make_rendezvous :: "nat \<Rightarrow> ('a, 'e) rendezvous" where
  "make_rendezvous n = \<lparr>buffered = [], capacity = (if n = 0 then 1 else n), closed_with = None\<rparr>"

datatype ('a, 'e) outcome = Waits | Timed_Out | Aborted | Throws 'e | Done 'a

definition push :: "'a \<Rightarrow> ('a, 'e) rendezvous \<Rightarrow> (unit, 'e) outcome \<times> ('a, 'e) rendezvous" where
  "push v r =
     (if closed_with r = None \<and> length (buffered r) \<ge> capacity r then (Waits, r)
      else case closed_with r of
        Some e \<Rightarrow> (Throws e, r)
      | None \<Rightarrow> (Done (), r\<lparr>buffered := buffered r @ [v]\<rparr>))"

definition push_until :: "bool \<Rightarrow> 'a \<Rightarrow> ('a, 'e) rendezvous \<Rightarrow> (unit, 'e) outcome \<times> ('a, 'e) rendezvous" where
  "push_until due v r =
     (if closed_with r = None \<and> length (buffered r) \<ge> capacity r
      then (if due then Timed_Out else Waits, r)
      else case closed_with r of
        Some e \<Rightarrow> (Throws e, r)
      | None \<Rightarrow> (Done (), r\<lparr>buffered := buffered r @ [v]\<rparr>))"

definition take_front :: "('a, 'e) rendezvous \<Rightarrow> ('a, 'e) outcome \<times> ('a, 'e) rendezvous" where
  "take_front r = (Done (hd (buffered r)), r\<lparr>buffered := tl (buffered r)\<rparr>)"

definition pop :: "('a, 'e) rendezvous \<Rightarrow> ('a, 'e) outcome \<times> ('a, 'e) rendezvous" where
  "pop r =
     (if closed_with r = None \<and> buffered r = [] then (Waits, r)
      else case closed_with r of Some e \<Rightarrow> (Throws e, r) | None \<Rightarrow> take_front r)"

definition pop_until :: "bool \<Rightarrow> ('a, 'e) rendezvous \<Rightarrow> ('a, 'e) outcome \<times> ('a, 'e) rendezvous" where
  "pop_until due r =
     (if closed_with r = None \<and> buffered r = [] then (if due then Timed_Out else Waits, r)
      else case closed_with r of Some e \<Rightarrow> (Throws e, r) | None \<Rightarrow> take_front r)"

text \<open>The loop re-checks the abort only while there is nothing to take, and once more before taking.\<close>

definition pop_abortable :: "bool \<Rightarrow> ('a, 'e) rendezvous \<Rightarrow> ('a, 'e) outcome \<times> ('a, 'e) rendezvous" where
  "pop_abortable aborted r =
     (if closed_with r = None \<and> buffered r = [] then (if aborted then Aborted else Waits, r)
      else case closed_with r of
        Some e \<Rightarrow> (Throws e, r)
      | None \<Rightarrow> if aborted then (Aborted, r) else take_front r)"

definition close :: "'e \<Rightarrow> ('a, 'e) rendezvous \<Rightarrow> 'a list \<times> ('a, 'e) rendezvous" where
  "close e r =
     (buffered r, r\<lparr>closed_with := (case closed_with r of None \<Rightarrow> Some e | Some e' \<Rightarrow> Some e'),
                    buffered := []\<rparr>)"

section \<open>Histories\<close>

datatype ('a, 'e) attempt =
    Push 'a | Push_Until bool 'a | Pop | Pop_Until bool | Pop_Abortable bool | Close 'e

text \<open>What became of the items: those accepted from producers, delivered to consumers, and handed
  back by \<open>close\<close>.\<close>

record 'a ledger =
  accepted :: "'a list"
  delivered :: "'a list"
  handed_back :: "'a list"

definition accept :: "'a \<Rightarrow> (unit, 'e) outcome \<times> ('a, 'e) rendezvous \<Rightarrow> 'a ledger \<Rightarrow>
    ('a, 'e) rendezvous \<times> 'a ledger" where
  "accept v x l = (case x of
     (Done _, r) \<Rightarrow> (r, l\<lparr>accepted := accepted l @ [v]\<rparr>) | (_, r) \<Rightarrow> (r, l))"

definition deliver :: "('a, 'e) outcome \<times> ('a, 'e) rendezvous \<Rightarrow> 'a ledger \<Rightarrow>
    ('a, 'e) rendezvous \<times> 'a ledger" where
  "deliver x l = (case x of
     (Done v, r) \<Rightarrow> (r, l\<lparr>delivered := delivered l @ [v]\<rparr>) | (_, r) \<Rightarrow> (r, l))"

fun attempt_step :: "('a, 'e) attempt \<Rightarrow> ('a, 'e) rendezvous \<times> 'a ledger \<Rightarrow> ('a, 'e) rendezvous \<times> 'a ledger" where
  "attempt_step (Push v) (r, l) = accept v (push v r) l"
| "attempt_step (Push_Until due v) (r, l) = accept v (push_until due v r) l"
| "attempt_step Pop (r, l) = deliver (pop r) l"
| "attempt_step (Pop_Until due) (r, l) = deliver (pop_until due r) l"
| "attempt_step (Pop_Abortable ab) (r, l) = deliver (pop_abortable ab r) l"
| "attempt_step (Close e) (r, l) =
     (case close e r of (left, r) \<Rightarrow> (r, l\<lparr>handed_back := handed_back l @ left\<rparr>))"

definition start :: "nat \<Rightarrow> ('a, 'e) rendezvous \<times> 'a ledger" where
  "start n = (make_rendezvous n, \<lparr>accepted = [], delivered = [], handed_back = []\<rparr>)"

lemmas attempt_defs = accept_def deliver_def push_def push_until_def pop_def pop_until_def
  pop_abortable_def take_front_def close_def

definition ledger_inv :: "nat \<Rightarrow> ('a, 'e) rendezvous \<times> 'a ledger \<Rightarrow> bool" where
  "ledger_inv cap s \<longleftrightarrow> capacity (fst s) = cap \<and> length (buffered (fst s)) \<le> cap \<and>
     delivered (snd s) @ handed_back (snd s) @ buffered (fst s) = accepted (snd s) \<and>
     (closed_with (fst s) = None \<longrightarrow> handed_back (snd s) = []) \<and>
     (closed_with (fst s) \<noteq> None \<longrightarrow> buffered (fst s) = [])"

lemma ledger_inv_start: "ledger_inv (if n = 0 then 1 else n) (start n)"
  by (simp add: ledger_inv_def start_def make_rendezvous_def)

lemma take_front_keeps:
  assumes "ledger_inv cap (r, l)" and "buffered r \<noteq> []" and "closed_with r = None"
  shows "ledger_inv cap (deliver (take_front r) l)"
  using assms by (cases "buffered r") (auto simp: ledger_inv_def deliver_def take_front_def)

lemma accept_keeps:
  assumes "ledger_inv cap (r, l)" and "length (buffered r) < capacity r" and "closed_with r = None"
  shows "ledger_inv cap (accept v (Done (), r\<lparr>buffered := buffered r @ [v]\<rparr>) l)"
  using assms by (auto simp: ledger_inv_def accept_def)

lemma ledger_inv_attempt: "ledger_inv cap (r, l) \<Longrightarrow> ledger_inv cap (attempt_step a (r, l))"
proof (cases a)
  case (Push v)
  assume inv: "ledger_inv cap (r, l)"
  then show ?thesis
    using accept_keeps [OF inv, of v] by (auto simp: Push push_def accept_def split: option.split)
next
  case (Push_Until due v)
  assume inv: "ledger_inv cap (r, l)"
  then show ?thesis
    using accept_keeps [OF inv, of v] by (auto simp: Push_Until push_until_def accept_def split: option.split)
next
  case Pop
  assume inv: "ledger_inv cap (r, l)"
  then show ?thesis
    using take_front_keeps [OF inv] by (auto simp: Pop pop_def deliver_def split: option.split)
next
  case (Pop_Until due)
  assume inv: "ledger_inv cap (r, l)"
  then show ?thesis
    using take_front_keeps [OF inv] by (auto simp: Pop_Until pop_until_def deliver_def split: option.split)
next
  case (Pop_Abortable ab)
  assume inv: "ledger_inv cap (r, l)"
  then show ?thesis
    using take_front_keeps [OF inv] by (auto simp: Pop_Abortable pop_abortable_def deliver_def split: option.split)
next
  case (Close e)
  assume "ledger_inv cap (r, l)"
  then show ?thesis
    by (auto simp: Close close_def ledger_inv_def split: option.split)
qed

lemma ledger_inv_run: "ledger_inv cap s \<Longrightarrow> ledger_inv cap (fold attempt_step xs s)"
proof (induction xs arbitrary: s)
  case (Cons a xs)
  then show ?case by (cases s) (simp add: ledger_inv_attempt)
qed simp

section \<open>Properties\<close>

text \<open>C5: whatever the interleaving of producers, consumers, timeouts, aborts and closes, what was
  accepted is, in order, what was delivered followed by what \<open>close\<close> handed back and what is still
  buffered; the buffer never exceeds the capacity, and nothing is buffered once closed.\<close>

theorem rendezvous_fifo_no_loss:
  fixes n :: nat and xs :: "('a, 'e) attempt list"
  defines "s \<equiv> fold attempt_step xs (start n)"
  shows "delivered (snd s) @ handed_back (snd s) @ buffered (fst s) = accepted (snd s) \<and>
    length (buffered (fst s)) \<le> max 1 n \<and>
    (if closed_with (fst s) = None then handed_back (snd s) = [] else buffered (fst s) = [])"
  using ledger_inv_run [OF ledger_inv_start, of n xs]
  by (auto simp: ledger_inv_def s_def split: if_splits)

text \<open>an attempt that does not complete changes nothing: a timed-out or aborted \<open>pop\<close> has not
  swallowed an item, a timed-out \<open>push\<close> has not smuggled one in, and once closed every attempt
  throws what \<open>close\<close> was given.\<close>

theorem unfinished_attempt_is_a_no_op:
  "(fst (push_until due v r) \<noteq> Done () \<longrightarrow> snd (push_until due v r) = r) \<and>
   (fst (pop_until due r) \<in> {Waits, Timed_Out} \<longrightarrow> snd (pop_until due r) = r) \<and>
   (fst (pop_abortable due r) \<in> {Waits, Aborted} \<longrightarrow> snd (pop_abortable due r) = r) \<and>
   (closed_with r = Some e \<longrightarrow> push v r = (Throws e, r) \<and> push_until due v r = (Throws e, r) \<and>
      pop r = (Throws e, r) \<and> pop_until due r = (Throws e, r) \<and> pop_abortable due r = (Throws e, r))"
  by (auto simp: attempt_defs split: option.splits)

theorem unfinished_attempt_is_a_no_op_witness:
  "snd (pop_until True \<lparr>buffered = [], capacity = 1, closed_with = None :: nat option\<rparr>)
     = \<lparr>buffered = [] :: nat list, capacity = 1, closed_with = None\<rparr>"
  using unfinished_attempt_is_a_no_op [of True 0 "\<lparr>buffered = [], capacity = 1, closed_with = None\<rparr>" "0 :: nat"]
  by (simp add: pop_until_def)

end
