(* ===== verification/Ordered_Map.thy ===== *)
theory Ordered_Map
  imports Prelude
begin

text \<open>
  \<open>src/message.cc\<close>: \<open>metadata\<close>, a vector of pairs kept sorted by key and searched with
  \<open>std::lower_bound\<close>.  The same operations model the \<open>std::map\<close>s of the other components,
  whose iteration order is the order of the keys.  The locale \<open>finite_store\<close> is the contract the
  clients use; \<open>put_max\<close> is the client of it that keeps the larger of two values.
\<close>

type_synonym ('k, 'v) omap = "('k \<times> 'v) list"

definition lower :: "('k::linorder, 'v) omap \<Rightarrow> 'k \<Rightarrow> nat" where
  "lower e k = length (takeWhile (\<lambda>p. fst p < k) e)"

definition om_find :: "('k::linorder, 'v) omap \<Rightarrow> 'k \<Rightarrow> 'v option" where
  "om_find e k = (let it = lower e k in
     if it < length e \<and> fst (e ! it) = k then Some (snd (e ! it)) else None)"

definition om_set :: "'k::linorder \<Rightarrow> 'v \<Rightarrow> ('k, 'v) omap \<Rightarrow> ('k, 'v) omap" where
  "om_set k v e = (let it = lower e k in
     if it < length e \<and> fst (e ! it) = k then e[it := (k, v)]
     else take it e @ (k, v) # drop it e)"

definition om_remove :: "'k::linorder \<Rightarrow> ('k, 'v) omap \<Rightarrow> ('k, 'v) omap" where
  "om_remove k e = (let it = lower e k in
     if it < length e \<and> fst (e ! it) = k then take it e @ drop (Suc it) e else e)"

text \<open>\<open>std::map::emplace\<close>: a key that is there keeps its value.\<close>

definition om_emplace :: "'k::linorder \<Rightarrow> 'v \<Rightarrow> ('k, 'v) omap \<Rightarrow> ('k, 'v) omap" where
  "om_emplace k v e = (if om_find e k = None then om_set k v e else e)"

definition om_sorted :: "('k::linorder, 'v) omap \<Rightarrow> bool" where
  "om_sorted e \<longleftrightarrow> sorted_wrt (<) (map fst e)"

section \<open>The vector as a recursive search\<close>

lemma lower_Nil [simp]: "lower [] k = 0"
  by (simp add: lower_def)

lemma lower_Cons [simp]: "lower (p # e) k = (if fst p < k then Suc (lower e k) else 0)"
  by (simp add: lower_def)

lemma om_find_Nil [simp]: "om_find [] k = None"
  by (simp add: om_find_def)

lemma om_find_Cons [simp]:
  "om_find ((j, v) # e) k = (if j < k then om_find e k else if j = k then Some v else None)"
  by (simp add: om_find_def Let_def)

lemma om_set_Nil [simp]: "om_set k v [] = [(k, v)]"
  by (simp add: om_set_def)

lemma om_set_Cons [simp]:
  "om_set k v ((j, w) # e) =
     (if j < k then (j, w) # om_set k v e else if j = k then (k, v) # e else (k, v) # (j, w) # e)"
  by (simp add: om_set_def Let_def)

lemma om_remove_Nil [simp]: "om_remove k [] = []"
  by (simp add: om_remove_def)

lemma om_remove_Cons [simp]:
  "om_remove k ((j, w) # e) =
     (if j < k then (j, w) # om_remove k e else if j = k then e else (j, w) # e)"
  by (simp add: om_remove_def Let_def)

lemma om_sorted_Nil [simp]: "om_sorted []"
  by (simp add: om_sorted_def)

lemma om_sorted_Cons [simp]: "om_sorted ((k, v) # e) \<longleftrightarrow> (\<forall>j\<in>fst ` set e. k < j) \<and> om_sorted e"
  by (simp add: om_sorted_def)

lemma om_find_above: "\<forall>j\<in>fst ` set e. k < j \<Longrightarrow> om_find e k = None"
  by (cases e) auto

lemma om_find_below: "\<forall>x\<in>set e. j < fst x \<Longrightarrow> \<not> j < k \<Longrightarrow> om_find e k = None"
proof (intro om_find_above ballI)
  fix i assume "\<forall>x\<in>set e. j < fst x" "\<not> j < k" "i \<in> fst ` set e"
  then show "k < i" by (auto simp: not_less dest: order.strict_trans1)
qed

lemma map_of_below: "\<forall>x\<in>set e. j < fst x \<Longrightarrow> \<not> j < (k :: 'k::linorder) \<Longrightarrow> map_of e k = None"
  by (auto simp: map_of_eq_None_iff)

lemma keys_om_set: "fst ` set (om_set k v e) = insert k (fst ` set e)"
proof (induction e)
  case (Cons p e)
  then show ?case by (cases p) (simp add: insert_commute)
qed simp

lemma keys_om_remove: "om_sorted e \<Longrightarrow> fst ` set (om_remove k e) = fst ` set e - {k}"
proof (induction e)
  case (Cons p e)
  obtain j w where p: "p = (j, w)" by (cases p)
  with Cons have IH: "fst ` set (om_remove k e) = fst ` set e - {k}" and above: "\<forall>i\<in>fst ` set e. j < i"
    by simp_all
  show ?case
  proof (cases "k \<le> j")
    case True
    then have "k \<notin> fst ` set e" using above by fastforce
    then show ?thesis using True by (auto simp: p)
  next
    case False
    then show ?thesis using IH by (simp add: p insert_Diff_if)
  qed
qed simp

lemma om_find_set: "om_sorted e \<Longrightarrow> om_find (om_set k v e) j = (if j = k then Some v else om_find e j)"
  by (induction e) (auto simp: om_find_above)

lemma om_find_remove: "om_sorted e \<Longrightarrow> om_find (om_remove k e) j = (if j = k then None else om_find e j)"
  by (induction e) (auto simp: om_find_below)

lemma om_sorted_set: "om_sorted e \<Longrightarrow> om_sorted (om_set k v e)"
proof (induction e)
  case (Cons p e)
  obtain j w where p: "p = (j, w)" by (cases p)
  with Cons have IH: "om_sorted (om_set k v e)" and above: "\<forall>i\<in>fst ` set e. j < i" and e: "om_sorted e"
    by simp_all
  show ?case
  proof (cases j k rule: linorder_cases)
    case less
    then show ?thesis using IH above by (simp add: p keys_om_set)
  next
    case equal
    then show ?thesis using above e by (simp add: p)
  next
    case greater
    then have "\<forall>i\<in>fst ` set e. k < i" using above by (meson order.strict_trans)
    moreover have "\<not> j < k" "j \<noteq> k" using greater by auto
    ultimately show ?thesis using above e by (simp add: p)
  qed
qed simp

lemma om_sorted_remove: "om_sorted e \<Longrightarrow> om_sorted (om_remove k e)"
proof (induction e)
  case (Cons p e)
  obtain j w where p: "p = (j, w)" by (cases p)
  with Cons have IH: "om_sorted (om_remove k e)" and above: "\<forall>i\<in>fst ` set e. j < i" and e: "om_sorted e"
    by simp_all
  then show ?case
    by (cases j k rule: linorder_cases) (auto simp: p keys_om_remove)
qed simp

lemma om_sorted_emplace: "om_sorted e \<Longrightarrow> om_sorted (om_emplace k v e)"
  by (simp add: om_emplace_def om_sorted_set)

lemma om_find_emplace:
  "om_sorted e \<Longrightarrow> om_find (om_emplace k v e) j =
     (if j = k \<and> om_find e k = None then Some v else om_find e j)"
  by (simp add: om_emplace_def om_find_set)

lemma om_sorted_filter: "om_sorted e \<Longrightarrow> om_sorted (filter P e)"
  by (simp add: om_sorted_def sorted_wrt_map sorted_wrt_filter)

lemma om_find_filter: "om_sorted e \<Longrightarrow> om_find (filter P e) k =
    (case om_find e k of None \<Rightarrow> None | Some v \<Rightarrow> if P (k, v) then Some v else None)"
proof (induction e)
  case (Cons p e)
  obtain j v where p: "p = (j, v)" by (cases p)
  show ?case
  proof (cases "j < k")
    case True
    then show ?thesis using Cons by (simp add: p)
  next
    case False
    then have "om_find e k = None" "om_find (filter P e) k = None"
      using Cons.prems by (auto intro!: om_find_below [of _ j] simp: p)
    then show ?thesis using False by (simp add: p)
  qed
qed simp

lemma om_find_eq_map_of: "om_sorted e \<Longrightarrow> om_find e k = map_of e k"
proof (induction e)
  case (Cons p e)
  then show ?case
    by (cases p) (auto simp: map_of_below)
qed simp

lemma om_find_None_iff: "om_sorted e \<Longrightarrow> om_find e k = None \<longleftrightarrow> k \<notin> fst ` set e"
  by (simp add: om_find_eq_map_of map_of_eq_None_iff)

lemma om_find_SomeD: "om_find e k = Some v \<Longrightarrow> (k, v) \<in> set e"
  by (induction e) (auto split: if_splits)

lemma om_sorted_distinct: "om_sorted e \<Longrightarrow> distinct (map fst e)"
  by (simp add: om_sorted_def strict_sorted_iff)

lemma om_find_mem: "om_sorted e \<Longrightarrow> (k, v) \<in> set e \<Longrightarrow> om_find e k = Some v"
  by (simp add: om_find_eq_map_of om_sorted_distinct)

text \<open>Two sorted vectors with the same lookups are the same vector: equality is extensional.\<close>

lemma om_ext:
  "om_sorted e \<Longrightarrow> om_sorted f \<Longrightarrow> (\<And>k. om_find e k = om_find f k) \<Longrightarrow> e = f"
proof (induction e arbitrary: f)
  case Nil
  show ?case
  proof (cases f)
    case (Cons q f')
    then show ?thesis using Nil.prems(3) [of "fst q"] by (cases q) simp
  qed simp
next
  case (Cons p e)
  obtain j v where p: "p = (j, v)" by (cases p)
  have f: "f \<noteq> []" using Cons.prems(3) [of j] by (auto simp: p)
  then obtain k w f' where f': "f = (k, w) # f'" by (cases f) auto
  have above: "\<forall>i\<in>fst ` set e. j < i" "\<forall>i\<in>fst ` set f'. k < i"
    using Cons.prems(1,2) by (simp_all add: p f')
  have "\<not> j < k"
  proof
    assume "j < k"
    then have "\<not> k < j" "k \<noteq> j" by auto
    then show False using Cons.prems(3) [of j] by (simp add: p f')
  qed
  moreover have "\<not> k < j"
  proof
    assume "k < j"
    then have "\<not> j < k" "j \<noteq> k" by auto
    then show False using Cons.prems(3) [of k] by (simp add: p f')
  qed
  ultimately have jk: "j = k" by simp
  then have vw: "v = w" using Cons.prems(3) [of j] by (simp add: p f')
  have "om_find e i = om_find f' i" for i
  proof (cases "j < i")
    case True
    then show ?thesis using Cons.prems(3) [of i] jk by (simp add: p f')
  next
    case False
    then have "\<forall>x\<in>fst ` set e. i < x" "\<forall>x\<in>fst ` set f'. i < x"
      using above jk by (meson not_less order.strict_trans1)+
    then show ?thesis by (simp add: om_find_above)
  qed
  with Cons show ?case by (auto simp: p f' jk vw)
qed

section \<open>The contract of a store\<close>

locale finite_store =
  fixes lookup :: "'s \<Rightarrow> 'k \<Rightarrow> 'v option"
    and put :: "'k \<Rightarrow> 'v \<Rightarrow> 's \<Rightarrow> 's"
    and del :: "'k \<Rightarrow> 's \<Rightarrow> 's"
    and inv :: "'s \<Rightarrow> bool"
  assumes lookup_put: "inv s \<Longrightarrow> lookup (put k v s) j = (if j = k then Some v else lookup s j)"
    and lookup_del: "inv s \<Longrightarrow> lookup (del k s) j = (if j = k then None else lookup s j)"
    and inv_put: "inv s \<Longrightarrow> inv (put k v s)"
    and inv_del: "inv s \<Longrightarrow> inv (del k s)"
begin

lemma put_put: "inv s \<Longrightarrow> lookup (put k v (put k w s)) j = lookup (put k v s) j"
  by (simp add: lookup_put inv_put)

lemma put_commute:
  "inv s \<Longrightarrow> i \<noteq> k \<Longrightarrow> lookup (put i v (put k w s)) j = lookup (put k w (put i v s)) j"
  by (simp add: lookup_put inv_put)

lemma del_put: "inv s \<Longrightarrow> lookup (del k (put k v s)) j = lookup (del k s) j"
  by (simp add: lookup_put lookup_del inv_put)

lemma inv_puts: "inv s \<Longrightarrow> inv (fold (\<lambda>(k, v). put k v) ps s)"
  by (induction ps arbitrary: s) (auto simp: inv_put)

lemma lookup_puts:
  "inv s \<Longrightarrow> lookup (fold (\<lambda>(k, v). put k v) ps s) j =
     (case map_of (rev ps) j of Some v \<Rightarrow> Some v | None \<Rightarrow> lookup s j)"
  by (induction ps arbitrary: s)
     (auto simp: inv_put lookup_put map_add_def split: option.splits)

lemma inv_dels: "inv s \<Longrightarrow> inv (fold del ks s)"
  by (induction ks arbitrary: s) (auto simp: inv_del)

lemma lookup_dels:
  "inv s \<Longrightarrow> lookup (fold del ks s) j = (if j \<in> set ks then None else lookup s j)"
  by (induction ks arbitrary: s) (auto simp: inv_del lookup_del)

end

interpretation omap: finite_store om_find om_set om_remove om_sorted
  by unfold_locales (simp_all add: om_find_set om_find_remove om_sorted_set om_sorted_remove)

end
