(* ===== verification/Rate_Limit.thy ===== *)
theory Rate_Limit
  imports Ordered_Map
begin

text \<open>
  \<open>src/runtime/rate_limit.cc\<close>: the fixed-window rate limit, its division over the shards, the
  registry of labels and the waiting loop.  Times are nanoseconds of the monotonic clock, which the
  code reads up to twice in one \<open>access\<close>.
\<close>

section \<open>One limit\<close>

record local_rate_limit =
  rl_size :: int
  rl_period :: int
  rl_bucket :: int
  rl_last_refresh :: int

definition new_limit :: "int \<Rightarrow> int \<Rightarrow> int \<Rightarrow> local_rate_limit" where
  "new_limit sz period now = \<lparr>rl_size = sz, rl_period = period, rl_bucket = sz, rl_last_refresh = now\<rparr>"

definition access :: "int \<Rightarrow> int \<Rightarrow> local_rate_limit \<Rightarrow> int \<times> local_rate_limit" where
  "access now now2 l =
     (let l = l\<lparr>rl_bucket := rl_bucket l - 1\<rparr>
      in if rl_bucket l \<ge> 0 then (0, l)
         else let l = l\<lparr>rl_bucket := 0\<rparr>;
                  elapsed = now - rl_last_refresh l
              in if elapsed < rl_period l then (rl_period l - elapsed, l)
                 else (0, l\<lparr>rl_bucket := rl_size l - 1, rl_last_refresh := now2\<rparr>))"

text \<open>A caller asks at the given times; the result counts the permits.\<close>

fun ask :: "(int \<times> int) list \<Rightarrow> local_rate_limit \<Rightarrow> nat \<times> local_rate_limit" where
  "ask [] l = (0, l)"
| "ask ((now, now2) # ts) l =
     (case access now now2 l of (w, l) \<Rightarrow> (case ask ts l of (n, l) \<Rightarrow> (if w \<le> 0 then Suc n else n, l)))"

text \<open>The clock never goes back, and the second reading of an access is not before the first.\<close>

fun clock_from :: "int \<Rightarrow> (int \<times> int) list \<Rightarrow> bool" where
  "clock_from t [] \<longleftrightarrow> True"
| "clock_from t ((now, now2) # ts) \<longleftrightarrow> t \<le> now \<and> now \<le> now2 \<and> clock_from now2 ts"

definition windows :: "int \<Rightarrow> local_rate_limit \<Rightarrow> int" where
  "windows t0 l = (rl_last_refresh l - t0) div rl_period l"

text \<open>\<open>g\<close> permits were granted since \<open>t0\<close>: with those left in the bucket they stay within one
  bucket per window opened.\<close>

definition rate_inv :: "int \<Rightarrow> int \<Rightarrow> int \<Rightarrow> int \<Rightarrow> local_rate_limit \<Rightarrow> bool" where
  "rate_inv sz period t0 g l \<longleftrightarrow> rl_size l = sz \<and> rl_period l = period \<and> t0 \<le> rl_last_refresh l \<and>
     0 \<le> rl_bucket l \<and> rl_bucket l \<le> sz \<and> g + rl_bucket l \<le> sz * (1 + windows t0 l)"

lemma rate_inv_new: "0 < sz \<Longrightarrow> rate_inv sz period t0 0 (new_limit sz period t0)"
  by (simp add: rate_inv_def new_limit_def windows_def)

lemma windows_grow:
  assumes "0 < p" and "p \<le> now - la" and "now \<le> now2"
  shows "(la - t0) div p + 1 \<le> (now2 - t0) div (p :: int)"
proof -
  have "(la - t0) div p + 1 = (la - t0 + p) div p"
    using assms(1) by (simp add: div_add_self2)
  also have "\<dots> \<le> (now2 - t0) div p"
    using assms by (intro zdiv_mono1) auto
  finally show ?thesis .
qed

lemma rate_inv_access:
  assumes inv: "rate_inv sz period t0 g l" and pos: "0 < sz" "0 < period"
    and "now \<le> now2"
  shows "rate_inv sz period t0 (if fst (access now now2 l) \<le> 0 then g + 1 else g) (snd (access now now2 l))"
proof -
  consider (hit) "0 < rl_bucket l" | (wait) "rl_bucket l = 0" "now - rl_last_refresh l < period"
    | (turn) "rl_bucket l = 0" "period \<le> now - rl_last_refresh l"
    using inv by (fastforce simp: rate_inv_def)
  then show ?thesis
  proof cases
    case hit
    then show ?thesis using inv by (auto simp: access_def rate_inv_def windows_def Let_def)
  next
    case wait
    then show ?thesis using inv by (auto simp: access_def rate_inv_def windows_def Let_def)
  next
    case turn
    have "windows t0 l + 1 \<le> (now2 - t0) div period"
      using windows_grow [OF pos(2) turn(2) assms(4), of t0] inv by (simp add: windows_def rate_inv_def)
    then have "sz * (windows t0 l + 1) \<le> sz * ((now2 - t0) div period)"
      using pos(1) by (simp add: mult_left_mono)
    then show ?thesis
      using inv turn pos assms(4) by (auto simp: access_def rate_inv_def windows_def Let_def algebra_simps)
  qed
qed

lemma access_refresh:
  assumes "rl_last_refresh l \<le> t" "t \<le> now" "now \<le> now2"
  shows "rl_last_refresh (snd (access now now2 l)) \<le> now2"
  using assms by (auto simp: access_def Let_def)

definition last_time :: "int \<Rightarrow> (int \<times> int) list \<Rightarrow> int" where
  "last_time t ts = (if ts = [] then t else snd (last ts))"

lemma ask_Cons:
  "ask ((now, now2) # ts) l =
     ((if fst (access now now2 l) \<le> 0 then 1 else 0) + fst (ask ts (snd (access now now2 l))),
      snd (ask ts (snd (access now now2 l))))"
  by (simp split: prod.split)

lemma ask_inv:
  "rate_inv sz period t0 g l \<Longrightarrow> 0 < sz \<Longrightarrow> 0 < period \<Longrightarrow> rl_last_refresh l \<le> t \<Longrightarrow> clock_from t ts \<Longrightarrow>
   rate_inv sz period t0 (g + int (fst (ask ts l))) (snd (ask ts l)) \<and>
   rl_last_refresh (snd (ask ts l)) \<le> last_time t ts"
proof (induction ts arbitrary: g l t)
  case (Cons x ts)
  obtain now now2 where x: "x = (now, now2)" by (cases x)
  let ?l = "snd (access now now2 l)" and ?w = "fst (access now now2 l)"
  have clock: "t \<le> now" "now \<le> now2" "clock_from now2 ts"
    using Cons.prems(5) by (simp_all add: x)
  have "rate_inv sz period t0 (if ?w \<le> 0 then g + 1 else g) ?l"
    using Cons.prems clock by (intro rate_inv_access)
  from Cons.IH [OF this Cons.prems(2,3) access_refresh [OF Cons.prems(4) clock(1,2)] clock(3)]
  show ?case
    by (cases "?w \<le> 0"; cases ts) (simp_all add: x ask_Cons last_time_def algebra_simps del: ask.simps(2))
qed (simp add: last_time_def)

section \<open>Sharding and labels\<close>

datatype rate_error = Count_Not_Positive | Interval_Not_Positive | Count_Below_Shards | Settings_Differ

definition make_local_rate_limit :: "int \<Rightarrow> int \<Rightarrow> int \<Rightarrow> int \<Rightarrow> rate_error + local_rate_limit" where
  "make_local_rate_limit shards now cnt interval =
     (if cnt \<le> 0 then Inl Count_Not_Positive
      else if interval \<le> 0 then Inl Interval_Not_Positive
      else if shards > 1 \<and> cnt < shards then Inl Count_Below_Shards
      else Inr (new_limit (if shards > 1 then cnt div shards else cnt) interval now))"

text \<open>The registry of one shard.  The limits live in a store, shared through their index.\<close>

record entry =
  en_limit :: nat
  en_count :: int
  en_interval :: int

record registry =
  per_shard :: "(bytes, entry) omap"
  limits :: "local_rate_limit list"

definition shared_rate_limit ::
    "int \<Rightarrow> int \<Rightarrow> bytes \<Rightarrow> int \<Rightarrow> int \<Rightarrow> registry \<Rightarrow> rate_error + nat \<times> registry" where
  "shared_rate_limit shards now label cnt interval g =
     (case om_find (per_shard g) label of
        Some e \<Rightarrow>
          if en_count e \<noteq> cnt \<or> en_interval e \<noteq> interval then Inl Settings_Differ
          else Inr (en_limit e, g)
      | None \<Rightarrow> rbind (make_local_rate_limit shards now cnt interval) (\<lambda>rl.
          let i = length (limits g)
          in Inr (i, g\<lparr>limits := limits g @ [rl],
                       per_shard := om_set label \<lparr>en_limit = i, en_count = cnt, en_interval = interval\<rparr>
                         (per_shard g)\<rparr>)))"

section \<open>The waiting loop\<close>

text \<open>
  One round sees whether the abort source has fired, the readings of the clock, and whether the
  sleep was aborted.  \<open>None\<close> is a wait that has not ended after these rounds.
\<close>

record wait_round =
  wr_abort :: bool
  wr_now :: int
  wr_now2 :: int
  wr_sleep_aborted :: bool

fun rate_limit_wait :: "wait_round list \<Rightarrow> local_rate_limit \<Rightarrow> bool option \<times> local_rate_limit" where
  "rate_limit_wait [] l = (None, l)"
| "rate_limit_wait (r # rs) l =
     (if wr_abort r then (Some False, l)
      else case access (wr_now r) (wr_now2 r) l of
        (wait, l) \<Rightarrow>
          if wait \<le> 0 then (Some True, l)
          else if wr_sleep_aborted r then (Some False, l)
          else rate_limit_wait rs l)"

definition rate_limit_wait_opt ::
    "wait_round list \<Rightarrow> local_rate_limit option \<Rightarrow> bool option \<times> local_rate_limit option" where
  "rate_limit_wait_opt rs l = (case l of
     None \<Rightarrow> (Some True, None)
   | Some l \<Rightarrow> (case rate_limit_wait rs l of (r, l) \<Rightarrow> (r, Some l)))"

section \<open>Properties\<close>

text \<open>C6: a limit of \<open>sz\<close> permits per period created at \<open>t0\<close> grants, up to any later moment, at most
  one bucket for every period begun: no sequence of accesses exceeds the configured rate.\<close>

theorem rate_never_exceeded:
  assumes "0 < sz" and "0 < period" and "clock_from t0 ts"
  shows "int (fst (ask ts (new_limit sz period t0))) \<le> sz * (1 + (last_time t0 ts - t0) div period)"
proof -
  let ?l = "snd (ask ts (new_limit sz period t0))"
  have inv: "rate_inv sz period t0 (0 + int (fst (ask ts (new_limit sz period t0)))) ?l"
    and last: "rl_last_refresh ?l \<le> last_time t0 ts"
    using ask_inv [OF rate_inv_new [OF assms(1), of period t0] assms(1,2) _ assms(3)]
    by (simp_all add: new_limit_def)
  have "windows t0 ?l \<le> (last_time t0 ts - t0) div period"
    using inv last assms(2) by (auto simp: windows_def rate_inv_def intro: zdiv_mono1)
  then have "sz * (1 + windows t0 ?l) \<le> sz * (1 + (last_time t0 ts - t0) div period)"
    using assms(1) by (intro mult_left_mono) auto
  with inv show ?thesis by (simp add: rate_inv_def)
qed

theorem rate_never_exceeded_witness:
  "int (fst (ask [(0, 0), (1, 1), (2, 2), (12, 12)] (new_limit 2 10 0))) \<le> 2 * (1 + (12 - 0) div 10) \<and>
   fst (ask [(0, 0), (1, 1), (2, 2), (12, 12)] (new_limit 2 10 0)) = 3"
  using rate_never_exceeded [of 2 10 0 "[(0, 0), (1, 1), (2, 2), (12, 12)]"]
  by (simp add: new_limit_def access_def last_time_def)

text \<open> dividing a limit over the shards never lets the shards together exceed it, and what they
  leave unused is less than one permit per shard.\<close>

theorem shards_share_the_budget:
  assumes "make_local_rate_limit shards now cnt interval = Inr l" and "1 \<le> shards"
  shows "shards * rl_size l \<le> cnt \<and> cnt - shards * rl_size l < shards \<and> 1 \<le> rl_size l"
proof -
  have l: "rl_size l = cnt div shards" and c: "0 < cnt" "shards > 1 \<longrightarrow> shards \<le> cnt"
    using assms by (auto simp: make_local_rate_limit_def new_limit_def split: if_splits)
  have "cnt = shards * (cnt div shards) + cnt mod shards" by simp
  moreover have "0 \<le> cnt mod shards" "cnt mod shards < shards" using assms(2) by simp_all
  moreover have "1 \<le> cnt div shards"
    using c assms(2) by (cases "shards = 1") (auto simp: pos_imp_zdiv_pos_iff int_one_le_iff_zero_less)
  ultimately show ?thesis unfolding l by linarith
qed

theorem shards_share_the_budget_witness:
  "\<exists>l. make_local_rate_limit 4 0 7 10 = Inr l \<and> 4 * rl_size l \<le> 7 \<and> 7 - 4 * rl_size l < 4"
  using shards_share_the_budget [of 4 0 7 10 "new_limit 1 10 0"] by (simp add: make_local_rate_limit_def)

text \<open> a lone waiter gets its permit after at most one sleep: if it sleeps for as long as \<open>access\<close>
  said, its second round is granted.\<close>

theorem wait_ends_after_one_sleep:
  assumes "0 < rl_period l" and "0 \<le> rl_bucket l" and "rl_last_refresh l \<le> wr_now r1"
    and "\<not> wr_abort r1" and "\<not> wr_abort r2" and "\<not> wr_sleep_aborted r1"
    and "wr_now r1 + fst (access (wr_now r1) (wr_now2 r1) l) \<le> wr_now r2"
  shows "fst (rate_limit_wait (r1 # r2 # rs) l) = Some True"
  using assms by (auto simp: access_def Let_def)

theorem wait_ends_after_one_sleep_witness:
  "fst (rate_limit_wait [\<lparr>wr_abort = False, wr_now = 3, wr_now2 = 3, wr_sleep_aborted = False\<rparr>,
      \<lparr>wr_abort = False, wr_now = 10, wr_now2 = 10, wr_sleep_aborted = False\<rparr>]
      \<lparr>rl_size = 1, rl_period = 10, rl_bucket = 0, rl_last_refresh = 0\<rparr>) = Some True"
  using wait_ends_after_one_sleep [of "\<lparr>rl_size = 1, rl_period = 10, rl_bucket = 0, rl_last_refresh = 0\<rparr>"
      "\<lparr>wr_abort = False, wr_now = 3, wr_now2 = 3, wr_sleep_aborted = False\<rparr>"
      "\<lparr>wr_abort = False, wr_now = 10, wr_now2 = 10, wr_sleep_aborted = False\<rparr>" "[]"]
  by (simp add: access_def)

end
