(* ===== verification/Caches.thy ===== *)
theory Caches
  imports Ordered_Map Crc
begin

text \<open>
  \<open>src/runtime/cache.cc\<close>: the caches behind \<open>dedupe\<close>.  The memory cache with its shards, expiry
  and sweeps, the LRU cache, the key check of the file cache, and the factory that shares one
  instance per label.  The shard selector is \<open>xxhash64\<close> of \<open>src/methods_crypto.cc\<close>.  Times are
  those of the clock; the file system is a parameter.
\<close>

section \<open>xxhash64\<close>

definition P1 :: i64 where "P1 = 11400714785074694791"
definition P2 :: i64 where "P2 = 14029467366897019727"
definition P3 :: i64 where "P3 = 1609587929392839161"
definition P4 :: i64 where "P4 = 9650029242287828579"
definition P5 :: i64 where "P5 = 2870177450012600261"

definition rol :: "i64 \<Rightarrow> nat \<Rightarrow> i64" where
  "rol x r = push_bit r x OR drop_bit (64 - r) x"

definition rd8 :: "bytes \<Rightarrow> i64" where
  "rd8 p = load64_le p"

definition rd4 :: "bytes \<Rightarrow> i32" where
  "rd4 p = foldr (\<lambda>b v. push_bit 8 v OR ucast b) (take 4 p) 0"

definition xx_round :: "i64 \<Rightarrow> i64 \<Rightarrow> i64" where
  "xx_round acc v = rol (acc + v * P2) 31 * P1"

definition xx_merge :: "i64 \<Rightarrow> i64 \<Rightarrow> i64" where
  "xx_merge acc v = (acc XOR xx_round 0 v) * P1 + P4"

function xx_stripes :: "i64 \<Rightarrow> i64 \<Rightarrow> i64 \<Rightarrow> i64 \<Rightarrow> bytes \<Rightarrow> (i64 \<times> i64 \<times> i64 \<times> i64) \<times> bytes" where
  "xx_stripes v1 v2 v3 v4 p =
     (if 32 \<le> length p
      then xx_stripes (xx_round v1 (rd8 p)) (xx_round v2 (rd8 (drop 8 p)))
             (xx_round v3 (rd8 (drop 16 p))) (xx_round v4 (rd8 (drop 24 p))) (drop 32 p)
      else ((v1, v2, v3, v4), p))"
  by pat_completeness auto
termination by (relation "measure (\<lambda>(v1, v2, v3, v4, p). length p)") auto

declare xx_stripes.simps [simp del]

function xx_words :: "i64 \<Rightarrow> bytes \<Rightarrow> i64 \<times> bytes" where
  "xx_words h p =
     (if 8 \<le> length p
      then xx_words (rol (h XOR (rol (rd8 p * P2) 31 * P1)) 27 * P1 + P4) (drop 8 p)
      else (h, p))"
  by pat_completeness auto
termination by (relation "measure (\<lambda>(h, p). length p)") auto

declare xx_words.simps [simp del]

definition xx_half :: "i64 \<Rightarrow> bytes \<Rightarrow> i64 \<times> bytes" where
  "xx_half h p =
     (if 4 \<le> length p then (rol (h XOR (ucast (rd4 p) * P1)) 23 * P2 + P3, drop 4 p) else (h, p))"

definition xx_byte :: "i64 \<Rightarrow> byte \<Rightarrow> i64" where
  "xx_byte h b = rol (h XOR (ucast b * P5)) 11 * P1"

definition xx_avalanche :: "i64 \<Rightarrow> i64" where
  "xx_avalanche h =
     (let h = (h XOR drop_bit 33 h) * P2;
          h = (h XOR drop_bit 29 h) * P3
      in h XOR drop_bit 32 h)"

definition xxhash64 :: "bytes \<Rightarrow> i64" where
  "xxhash64 s =
     (let (h, p) =
            (if 32 \<le> length s
             then (case xx_stripes (P1 + P2) P2 0 (0 - P1) s of ((v1, v2, v3, v4), p) \<Rightarrow>
               (xx_merge (xx_merge (xx_merge (xx_merge
                  (rol v1 1 + rol v2 7 + rol v3 12 + rol v4 18) v1) v2) v3) v4, p))
             else (P5, s));
          (h, p) = xx_words (h + of_nat (length s)) p;
          (h, p) = xx_half h p
      in xx_avalanche (foldl xx_byte h p))"

section \<open>The memory cache\<close>

record cache_shard =
  entries :: "(bytes, int) omap"
  last_sweep :: int

record memory_cache =
  ttl :: int
  compaction :: int
  shards :: "cache_shard list"

text \<open>\<open>time_point::max()\<close>, beyond every reading of the clock.\<close>

definition TIME_MAX :: int where "TIME_MAX = 2 ^ 63 - 1"

definition shard_for :: "bytes \<Rightarrow> memory_cache \<Rightarrow> nat" where
  "shard_for k c = (if length (shards c) = 1 then 0 else unat (xxhash64 k) mod length (shards c))"

definition put_init :: "bytes \<Rightarrow> memory_cache \<Rightarrow> memory_cache" where
  "put_init k c = (let i = shard_for k c; sh = shards c ! i
     in c\<lparr>shards := (shards c)[i := sh\<lparr>entries := om_emplace k TIME_MAX (entries sh)\<rparr>]\<rparr>)"

definition new_memory_cache :: "int \<Rightarrow> int \<Rightarrow> bytes list \<Rightarrow> int \<Rightarrow> int \<Rightarrow> memory_cache" where
  "new_memory_cache t cmp init n now =
     fold put_init init
       \<lparr>ttl = t, compaction = cmp,
        shards = replicate (nat (max 1 n)) \<lparr>entries = [], last_sweep = now\<rparr>\<rparr>"

definition sweep :: "int \<Rightarrow> int \<Rightarrow> cache_shard \<Rightarrow> cache_shard" where
  "sweep cmp now sh =
     (if cmp > 0 \<and> now - last_sweep sh \<ge> cmp
      then \<lparr>entries = filter (\<lambda>(k, expires). \<not> expires \<le> now) (entries sh), last_sweep = now\<rparr>
      else sh)"

definition memory_add :: "int \<Rightarrow> bytes \<Rightarrow> memory_cache \<Rightarrow> bool \<times> memory_cache" where
  "memory_add now k c =
     (let i = shard_for k c; sh = shards c ! i
      in if om_find (entries sh) k \<noteq> None then (False, c)
         else let sh = sweep (compaction c) now sh;
                  sh = sh\<lparr>entries := om_emplace k (now + ttl c) (entries sh)\<rparr>
              in (True, c\<lparr>shards := (shards c)[i := sh]\<rparr>))"

text \<open>Every shard is ordered and there is at least one.\<close>

definition memory_inv :: "memory_cache \<Rightarrow> bool" where
  "memory_inv c \<longleftrightarrow> shards c \<noteq> [] \<and> (\<forall>sh\<in>set (shards c). om_sorted (entries sh))"

definition expiry :: "memory_cache \<Rightarrow> bytes \<Rightarrow> int option" where
  "expiry c k = om_find (entries (shards c ! shard_for k c)) k"

lemma shard_for_less: "shards c \<noteq> [] \<Longrightarrow> shard_for k c < length (shards c)"
  by (simp add: shard_for_def)

lemma shard_sorted: "memory_inv c \<Longrightarrow> om_sorted (entries (shards c ! shard_for k c))"
  by (simp add: memory_inv_def shard_for_less)

lemma om_sorted_sweep: "om_sorted (entries sh) \<Longrightarrow> om_sorted (entries (sweep cmp now sh))"
  by (simp add: sweep_def om_sorted_filter)

lemma om_find_sweep:
  "om_sorted (entries sh) \<Longrightarrow> om_find (entries sh) k = Some x \<Longrightarrow> now < x \<Longrightarrow>
   om_find (entries (sweep cmp now sh)) k = Some x"
  by (simp add: sweep_def om_find_filter)

lemma shard_for_update [simp]: "shard_for k (c\<lparr>shards := (shards c)[i := sh]\<rparr>) = shard_for k c"
  by (simp add: shard_for_def)

lemma memory_inv_update:
  "memory_inv c \<Longrightarrow> om_sorted (entries sh) \<Longrightarrow> memory_inv (c\<lparr>shards := (shards c)[i := sh]\<rparr>)"
  by (auto simp: memory_inv_def dest!: set_update_subset_insert [THEN subsetD])

lemma memory_inv_add: "memory_inv c \<Longrightarrow> memory_inv (snd (memory_add now k c))"
  by (simp add: memory_add_def Let_def memory_inv_update om_sorted_emplace om_sorted_sweep shard_sorted)

lemma memory_inv_init: "memory_inv c \<Longrightarrow> memory_inv (put_init k c)"
  by (simp add: put_init_def Let_def memory_inv_update om_sorted_emplace shard_sorted)

lemma memory_inv_inits: "memory_inv c \<Longrightarrow> memory_inv (fold put_init init c)"
  by (induction init arbitrary: c) (auto simp: memory_inv_init)

lemma memory_inv_new: "memory_inv (new_memory_cache t cmp init n now)"
  unfolding new_memory_cache_def
  by (rule memory_inv_inits) (simp add: memory_inv_def)

lemma expiry_update:
  "shards c \<noteq> [] \<Longrightarrow> expiry (c\<lparr>shards := (shards c)[shard_for j c := sh]\<rparr>) k =
     (if shard_for k c = shard_for j c then om_find (entries sh) k else expiry c k)"
  using shard_for_less [of c j] unfolding expiry_def shard_for_update by (simp add: nth_list_update)

lemma memory_nonempty: "memory_inv c \<Longrightarrow> shards c \<noteq> []"
  by (simp add: memory_inv_def)

text \<open>An entry stays as long as every write happens before it expires.\<close>

lemma expiry_kept:
  assumes inv: "memory_inv c" and k: "expiry c k = Some x" and now: "now < x"
  shows "expiry (snd (memory_add now j c)) k = Some x"
proof -
  let ?sh = "sweep (compaction c) now (shards c ! shard_for j c)"
  have "om_find (entries ?sh) k = Some x" if "shard_for k c = shard_for j c"
    using om_find_sweep [OF shard_sorted [OF inv], of k k x now "compaction c"] k now that by (simp add: expiry_def)
  moreover have "om_sorted (entries ?sh)"
    by (rule om_sorted_sweep [OF shard_sorted [OF inv]])
  ultimately show ?thesis
    using k by (auto simp add: memory_add_def Let_def expiry_update [OF memory_nonempty [OF inv]] om_find_emplace)
qed

lemma expiry_put:
  assumes inv: "memory_inv c"
  shows "expiry (put_init j c) k = (if shard_for k c = shard_for j c
     then om_find (om_emplace j TIME_MAX (entries (shards c ! shard_for j c))) k else expiry c k)"
  by (simp add: put_init_def Let_def expiry_update [OF memory_nonempty [OF inv]])

lemma expiry_init: "memory_inv c \<Longrightarrow> expiry c k = Some x \<Longrightarrow> expiry (put_init j c) k = Some x"
  using shard_sorted [of c j] by (auto simp: expiry_put om_find_emplace) (auto simp: expiry_def)

fun memory_run :: "(int \<times> bytes) list \<Rightarrow> memory_cache \<Rightarrow> memory_cache" where
  "memory_run [] c = c"
| "memory_run ((now, k) # ops) c = memory_run ops (snd (memory_add now k c))"

lemma expiry_run:
  "memory_inv c \<Longrightarrow> expiry c k = Some x \<Longrightarrow> \<forall>(now, j)\<in>set ops. now < x \<Longrightarrow>
   expiry (memory_run ops c) k = Some x"
  by (induction ops arbitrary: c) (auto simp: expiry_kept memory_inv_add)

lemma memory_inv_run: "memory_inv c \<Longrightarrow> memory_inv (memory_run ops c)"
  by (induction ops arbitrary: c) (auto simp: memory_inv_add)

lemma ttl_add [simp]: "ttl (snd (memory_add now k c)) = ttl c"
  by (simp add: memory_add_def Let_def)

lemma ttl_run: "ttl (memory_run ops c) = ttl c"
  by (induction ops c rule: memory_run.induct) simp_all

lemma ttl_inits: "ttl (fold put_init init c) = ttl c"
  by (induction init arbitrary: c) (simp_all add: put_init_def Let_def)

lemma ttl_new: "ttl (new_memory_cache t cmp init n now) = t"
  by (simp add: new_memory_cache_def ttl_inits)

lemma add_present: "expiry c k = Some x \<Longrightarrow> memory_add now k c = (False, c)"
  by (simp add: memory_add_def expiry_def Let_def)

lemma add_sets_expiry:
  assumes inv: "memory_inv c" and new: "fst (memory_add now k c)"
  shows "expiry (snd (memory_add now k c)) k = Some (now + ttl c)"
proof -
  let ?sh = "sweep (compaction c) now (shards c ! shard_for k c)"
  have none: "om_find (entries (shards c ! shard_for k c)) k = None"
    using new by (auto simp: memory_add_def Let_def split: if_splits)
  then have "om_find (entries ?sh) k = None"
    by (simp add: sweep_def om_find_filter [OF shard_sorted [OF inv]])
  moreover have "om_sorted (entries ?sh)"
    by (rule om_sorted_sweep [OF shard_sorted [OF inv]])
  ultimately show ?thesis
    using none by (simp add: memory_add_def Let_def expiry_update [OF memory_nonempty [OF inv]] om_find_emplace)
qed

lemma expiry_put_init:
  "memory_inv c \<Longrightarrow> expiry c k \<in> {None, Some TIME_MAX} \<Longrightarrow> expiry (put_init k c) k = Some TIME_MAX"
  using shard_sorted [of c k] by (auto simp: expiry_put om_find_emplace) (auto simp: expiry_def)

lemma expiry_other_init:
  "memory_inv c \<Longrightarrow> expiry c k \<in> {None, Some TIME_MAX} \<Longrightarrow> expiry (put_init j c) k \<in> {None, Some TIME_MAX}"
  using shard_sorted [of c j] by (auto simp: expiry_put om_find_emplace) (auto simp: expiry_def)

lemma expiry_inits:
  "memory_inv c \<Longrightarrow> expiry c k \<in> {None, Some TIME_MAX} \<Longrightarrow> k \<in> set init \<or> expiry c k = Some TIME_MAX \<Longrightarrow>
   expiry (fold put_init init c) k = Some TIME_MAX"
proof (induction init arbitrary: c)
  case (Cons j init)
  have "k \<in> set init \<or> expiry (put_init j c) k = Some TIME_MAX"
    using Cons.prems expiry_put_init [of c k] expiry_init [of c k TIME_MAX j] by auto
  from Cons.IH [OF memory_inv_init [OF Cons.prems(1)] expiry_other_init [OF Cons.prems(1,2)] this]
  show ?case by simp
qed auto

lemma expiry_new:
  assumes "k \<in> set init"
  shows "expiry (new_memory_cache t cmp init n now) k = Some TIME_MAX"
  unfolding new_memory_cache_def
  using assms by (intro expiry_inits) (simp_all add: memory_inv_def expiry_def shard_for_def)

section \<open>The LRU cache\<close>

text \<open>
  \<open>_order\<close>, most recent first, and the keys of \<open>_index\<close>; an index entry points at the one node of
  its key, so splicing it is moving that key to the front.
\<close>

record lru_cache =
  cap :: nat
  order :: "bytes list"
  index :: "bytes list"

function lru_evict :: "lru_cache \<Rightarrow> lru_cache" where
  "lru_evict c =
     (if length (index c) > cap c \<and> order c \<noteq> []
      then lru_evict (c\<lparr>index := removeAll (last (order c)) (index c), order := butlast (order c)\<rparr>)
      else c)"
  by pat_completeness auto
termination by (relation "measure (\<lambda>c. length (order c))") auto

declare lru_evict.simps [simp del]

definition lru_insert :: "bytes \<Rightarrow> lru_cache \<Rightarrow> lru_cache" where
  "lru_insert k c =
     (if k \<in> set (index c) then c\<lparr>order := k # remove1 k (order c)\<rparr>
      else lru_evict (c\<lparr>order := k # order c, index := k # index c\<rparr>))"

definition new_lru_cache :: "nat \<Rightarrow> bytes list \<Rightarrow> lru_cache" where
  "new_lru_cache n init = fold lru_insert init \<lparr>cap = n, order = [], index = []\<rparr>"

definition lru_add :: "bytes \<Rightarrow> lru_cache \<Rightarrow> bool \<times> lru_cache" where
  "lru_add k c = (if k \<in> set (index c) then (False, c) else (True, lru_insert k c))"

definition lru_inv :: "lru_cache \<Rightarrow> bool" where
  "lru_inv c \<longleftrightarrow> distinct (order c) \<and> distinct (index c) \<and> set (index c) = set (order c) \<and>
     length (order c) \<le> cap c"

lemma lru_sizes: "distinct (order c) \<Longrightarrow> distinct (index c) \<Longrightarrow> set (index c) = set (order c) \<Longrightarrow>
    length (index c) = length (order c)"
  by (metis distinct_card)

lemma lru_evict_spec:
  "distinct (order c) \<Longrightarrow> distinct (index c) \<Longrightarrow> set (index c) = set (order c) \<Longrightarrow>
   order (lru_evict c) = take (cap c) (order c) \<and> lru_inv (lru_evict c) \<and> cap (lru_evict c) = cap c"
proof (induction c rule: lru_evict.induct)
  case (1 c)
  have len: "length (index c) = length (order c)" using "1.prems" by (rule lru_sizes)
  show ?case
  proof (cases "length (order c) > cap c")
    case True
    then obtain xs x where o: "order c = xs @ [x]" by (cases "order c" rule: rev_cases) auto
    let ?c = "c\<lparr>index := removeAll (last (order c)) (index c), order := butlast (order c)\<rparr>"
    have "order (lru_evict ?c) = take (cap c) xs \<and> lru_inv (lru_evict ?c) \<and> cap (lru_evict ?c) = cap c"
      using "1.IH" "1.prems" True len by (simp add: o distinct_removeAll)
    moreover have "lru_evict c = lru_evict ?c"
      using True len by (subst lru_evict.simps) auto
    ultimately show ?thesis using True by (simp add: o)
  next
    case False
    then show ?thesis
      using "1.prems" len by (subst (1 2 3) lru_evict.simps) (simp add: lru_inv_def)
  qed
qed

lemma lru_insert_new:
  assumes "lru_inv c" and "k \<notin> set (order c)"
  shows "order (lru_insert k c) = take (cap c) (k # order c)" and "lru_inv (lru_insert k c)"
    and "cap (lru_insert k c) = cap c"
  using assms lru_evict_spec [of "c\<lparr>order := k # order c, index := k # index c\<rparr>"]
  by (simp_all add: lru_insert_def lru_inv_def)

lemma lru_insert_inv: "lru_inv c \<Longrightarrow> lru_inv (lru_insert k c) \<and> cap (lru_insert k c) = cap c"
proof (cases "k \<in> set (order c)")
  case True
  assume "lru_inv c"
  then show ?thesis
    using True by (auto simp: lru_insert_def lru_inv_def length_remove1 set_remove1_eq) (cases "order c"; simp)
qed (simp add: lru_insert_new)

lemma lru_inv_new: "lru_inv (new_lru_cache n init) \<and> cap (new_lru_cache n init) = n"
proof -
  have "lru_inv (fold lru_insert init c) \<and> cap (fold lru_insert init c) = cap c" if "lru_inv c" for c
    using that by (induction init arbitrary: c) (auto simp: lru_insert_inv)
  from this [of "\<lparr>cap = n, order = [], index = []\<rparr>"] show ?thesis
    by (simp add: new_lru_cache_def lru_inv_def)
qed

text \<open>The specification: the last \<open>n\<close> new keys, newest first; a hit changes nothing.\<close>

definition recent_add :: "nat \<Rightarrow> bytes \<Rightarrow> bytes list \<Rightarrow> bool \<times> bytes list" where
  "recent_add n k ks = (if k \<in> set ks then (False, ks) else (True, take n (k # ks)))"

lemma lru_add_refines:
  assumes "lru_inv c"
  shows "(fst (lru_add k c), order (snd (lru_add k c))) = recent_add (cap c) k (order c) \<and>
    lru_inv (snd (lru_add k c)) \<and> cap (snd (lru_add k c)) = cap c"
  using assms lru_insert_new [OF assms, of k]
  by (auto simp: lru_add_def recent_add_def lru_inv_def)

fun lru_run :: "bytes list \<Rightarrow> lru_cache \<Rightarrow> bool list \<times> lru_cache" where
  "lru_run [] c = ([], c)"
| "lru_run (k # ks) c =
     (case lru_add k c of (b, c) \<Rightarrow> (case lru_run ks c of (bs, c) \<Rightarrow> (b # bs, c)))"

fun recent_run :: "nat \<Rightarrow> bytes list \<Rightarrow> bytes list \<Rightarrow> bool list \<times> bytes list" where
  "recent_run n [] r = ([], r)"
| "recent_run n (k # ks) r =
     (case recent_add n k r of (b, r) \<Rightarrow> (case recent_run n ks r of (bs, r) \<Rightarrow> (b # bs, r)))"

lemma lru_run_refines:
  "lru_inv c \<Longrightarrow> (fst (lru_run ks c), order (snd (lru_run ks c))) = recent_run (cap c) ks (order c)"
proof (induction ks arbitrary: c)
  case (Cons k ks)
  let ?c = "snd (lru_add k c)"
  from lru_add_refines [OF Cons.prems, of k]
  have add: "recent_add (cap c) k (order c) = (fst (lru_add k c), order ?c)"
    and inv: "lru_inv ?c" and cap: "cap ?c = cap c" by simp_all
  from Cons.IH [OF inv] add cap show ?case
    by (cases "lru_add k c"; cases "lru_run ks ?c"; cases "recent_run (cap c) ks (order ?c)") simp
qed simp

section \<open>The file cache\<close>

definition slash :: byte where "slash = 0x2F"
definition dot :: byte where "dot = 0x2E"

definition starts_with :: "bytes \<Rightarrow> bytes \<Rightarrow> bool" where
  "starts_with p s \<longleftrightarrow> take (length p) s = p"

fun contains :: "bytes \<Rightarrow> bytes \<Rightarrow> bool" where
  "contains p s \<longleftrightarrow> starts_with p s \<or> (case s of [] \<Rightarrow> False | _ # t \<Rightarrow> contains p t)"

declare contains.simps [simp del]

definition walks_out :: "bytes \<Rightarrow> bytes \<Rightarrow> bool" where
  "walks_out part key \<longleftrightarrow> key = part \<or> starts_with (part @ [slash]) key \<or>
     contains ([slash] @ part @ [slash]) key \<or>
     (length key > length part \<and> drop (length key - length part - 1) key = [slash] @ part)"

datatype file_error = Walks_Out | Contains_Nul | System_Error nat

datatype open_result = Created | File_Exists | Failed nat

definition file_key_error :: "bytes \<Rightarrow> file_error option" where
  "file_key_error key =
     (if walks_out [dot, dot] key \<or> walks_out [dot] key then Some Walks_Out
      else if 0 \<in> set key then Some Contains_Nul else None)"

text \<open>\<open>open_excl\<close> is the exclusive creation of the file system.\<close>

definition file_add :: "(bytes \<Rightarrow> 'fs \<Rightarrow> open_result \<times> 'fs) \<Rightarrow> bytes \<Rightarrow> bytes \<Rightarrow> 'fs \<Rightarrow>
    (file_error + bool) \<times> 'fs" where
  "file_add open_excl dir key fs =
     (case file_key_error key of
        Some e \<Rightarrow> (Inl e, fs)
      | None \<Rightarrow> (case open_excl (dir @ [slash] @ key) fs of
          (Created, fs) \<Rightarrow> (Inr True, fs)
        | (File_Exists, fs) \<Rightarrow> (Inr False, fs)
        | (Failed c, fs) \<Rightarrow> (Inl (System_Error c), fs)))"

text \<open>The components of a path: the pieces between the separators.\<close>

fun components :: "bytes \<Rightarrow> bytes list" where
  "components [] = [[]]"
| "components (c # s) =
     (if c = slash then [] # components s
      else (c # hd (components s)) # tl (components s))"

lemma components_nonempty: "components s \<noteq> []"
  by (cases s) auto

lemma hd_components: "hd (components s) = takeWhile (\<lambda>c. c \<noteq> slash) s"
  by (induction s) auto

lemma components_split: "part \<in> set (components s) \<longleftrightarrow>
    takeWhile (\<lambda>c. c \<noteq> slash) s = part \<or> part \<in> set (tl (components s))"
  using components_nonempty [of s] hd_components [of s] by (cases "components s") auto

lemma first_component:
  assumes "slash \<notin> set part"
  shows "s = part \<or> starts_with (part @ [slash]) s \<longleftrightarrow> takeWhile (\<lambda>c. c \<noteq> slash) s = part"
  using assms
proof (induction part arbitrary: s)
  case Nil
  then show ?case by (cases s) (auto simp: starts_with_def)
next
  case (Cons a part)
  then show ?case by (cases s) (auto simp: starts_with_def)
qed

lemma suffix_drop:
  "length key > length part \<and> drop (length key - length part - 1) key = [slash] @ part \<longleftrightarrow>
     (\<exists>pre. key = pre @ slash # part)"
proof
  assume "length key > length part \<and> drop (length key - length part - 1) key = [slash] @ part"
  then have "key = take (length key - length part - 1) key @ slash # part"
    by (metis append_Cons append_Nil append_take_drop_id)
  then show "\<exists>pre. key = pre @ slash # part" ..
qed auto

lemma later_components:
  assumes "slash \<notin> set part"
  shows "contains ([slash] @ part @ [slash]) s \<or> (\<exists>pre. s = pre @ slash # part) \<longleftrightarrow>
    part \<in> set (tl (components s))"
proof (induction s)
  case Nil
  then show ?case by (simp add: contains.simps [of _ "[]"] starts_with_def)
next
  case (Cons c s)
  have 1: "contains ([slash] @ part @ [slash]) (c # s) \<longleftrightarrow>
      c = slash \<and> starts_with (part @ [slash]) s \<or> contains ([slash] @ part @ [slash]) s"
    by (subst contains.simps) (auto simp: starts_with_def)
  have 2: "(\<exists>pre. c # s = pre @ slash # part) \<longleftrightarrow> c = slash \<and> s = part \<or> (\<exists>pre. s = pre @ slash # part)"
    by (auto simp: Cons_eq_append_conv)
  show ?case
    unfolding 1 2 using Cons.IH first_component [OF assms, of s] components_split [of part s]
    by (cases "c = slash") auto
qed

lemma walks_out_iff: "slash \<notin> set part \<Longrightarrow> walks_out part key \<longleftrightarrow> part \<in> set (components key)"
  unfolding walks_out_def suffix_drop
  using first_component [of part key] later_components [of part key] components_split [of part key]
  by blast

section \<open>The factory\<close>

record cache_spec =
  cs_kind :: bytes
  cs_label :: bytes
  cs_default_ttl :: int
  cs_compaction_interval :: int
  cs_compaction_disabled :: bool
  cs_shards :: int
  cs_cap :: int
  cs_directory :: bytes
  cs_init_keys :: "bytes list"

datatype any_cache = Memory memory_cache | Lru lru_cache | File bytes

datatype cache_error = Lru_Cap | Directory_Required | Cannot_Create bytes | Not_Implemented bytes

text \<open>\<open>mkdir\<close> is \<open>create_directories\<close>: true when the directory is there afterwards.\<close>

definition build_cache :: "(bytes \<Rightarrow> bool) \<Rightarrow> int \<Rightarrow> cache_spec \<Rightarrow> cache_error + any_cache" where
  "build_cache mkdir now s =
     (if cs_kind s = str ''memory'' then
        Inr (Memory (new_memory_cache (cs_default_ttl s)
          (if cs_compaction_disabled s then 0 else cs_compaction_interval s) (cs_init_keys s) (cs_shards s) now))
      else if cs_kind s = str ''lru'' then
        (if cs_cap s \<le> 0 then Inl Lru_Cap else Inr (Lru (new_lru_cache (nat (cs_cap s)) (cs_init_keys s))))
      else if cs_kind s = str ''file'' then
        (if cs_directory s = [] then Inl Directory_Required
         else if \<not> mkdir (cs_directory s) then Inl (Cannot_Create (cs_directory s))
         else Inr (File (cs_directory s)))
      else Inl (Not_Implemented (cs_kind s)))"

text \<open>The instances of one shard; \<open>shared\<close> points into them.\<close>

record cache_registry =
  shared :: "(bytes, nat) omap"
  instances :: "any_cache list"

definition add_instance :: "any_cache \<Rightarrow> cache_registry \<Rightarrow> nat \<times> cache_registry" where
  "add_instance c g = (length (instances g), g\<lparr>instances := instances g @ [c]\<rparr>)"

definition make_cache ::
    "(bytes \<Rightarrow> bool) \<Rightarrow> int \<Rightarrow> cache_spec \<Rightarrow> cache_registry \<Rightarrow> cache_error + nat \<times> cache_registry" where
  "make_cache mkdir now s g =
     (if cs_label s \<noteq> [] then
        (case om_find (shared g) (cs_label s) of
           Some i \<Rightarrow> Inr (i, g)
         | None \<Rightarrow> rbind (build_cache mkdir now (s\<lparr>cs_label := []\<rparr>)) (\<lambda>c.
             case add_instance c g of (i, g) \<Rightarrow>
               Inr (i, g\<lparr>shared := om_emplace (cs_label s) i (shared g)\<rparr>)))
      else rbind (build_cache mkdir now s) (\<lambda>c. Inr (add_instance c g)))"

section \<open>Properties\<close>

text \<open>C7: whatever keys a memory cache has been asked for before, at whatever times, a key it accepts
  is reported as a duplicate as long as the writes after it happened before it expired, however many
  shards there are, whenever they are swept and whatever keys the cache was configured with.\<close>

theorem memory_remembers_until_expiry:
  assumes "fst (memory_add now k (memory_run before (new_memory_cache t cmp init n start)))"
    and "\<forall>(now', j)\<in>set ops. now' < now + t"
  shows "\<not> fst (memory_add later k
    (memory_run ops (snd (memory_add now k (memory_run before (new_memory_cache t cmp init n start))))))"
proof -
  let ?c = "memory_run before (new_memory_cache t cmp init n start)"
  have inv: "memory_inv ?c" by (rule memory_inv_run [OF memory_inv_new])
  have "expiry (snd (memory_add now k ?c)) k = Some (now + t)"
    using add_sets_expiry [OF inv assms(1)] by (simp add: ttl_run ttl_new)
  from expiry_run [OF memory_inv_add [OF inv] this assms(2)] show ?thesis
    by (simp add: add_present)
qed

theorem memory_remembers_until_expiry_witness:
  "\<not> fst (memory_add 99 [7] (memory_run [(8, [8])] (snd (memory_add 7 [7]
     (memory_run [(0, [7]), (6, [9])] (new_memory_cache 4 2 [] 1 0))))))"
  by (rule memory_remembers_until_expiry)
     (simp_all add: new_memory_cache_def memory_add_def shard_for_def sweep_def om_emplace_def Let_def)

text \<open>a key configured as an initial value of the memory cache never expires.\<close>

theorem initial_keys_never_expire:
  assumes "k \<in> set init" and "\<forall>(now, j)\<in>set ops. now < TIME_MAX"
  shows "\<not> fst (memory_add later k (memory_run ops (new_memory_cache t cmp init n start)))"
  using expiry_run [OF memory_inv_new expiry_new [OF assms(1)] assms(2)] by (simp add: add_present)

theorem initial_keys_never_expire_witness:
  "\<not> fst (memory_add 2000 [7] (memory_run [(1000, [8])] (new_memory_cache 0 1 [[7]] 4 0)))"
  by (rule initial_keys_never_expire) (simp_all add: TIME_MAX_def)

text \<open> the LRU cache answers every sequence of keys as the specification does: a key is new unless it
  is among the last \<open>cap\<close> keys that were new, and its two structures agree; duplicates among the
  initial keys do no harm.\<close>

theorem lru_refines_recent_keys:
  "(fst (lru_run ks (new_lru_cache n init)), order (snd (lru_run ks (new_lru_cache n init)))) =
     recent_run n ks (order (new_lru_cache n init)) \<and>
   lru_inv (new_lru_cache n init)"
  using lru_run_refines [of "new_lru_cache n init" ks] lru_inv_new [of n init] by simp

text \<open> the file cache refuses exactly the keys that have \<open>.\<close> or \<open>..\<close> as a path component or contain a NUL
  byte, so a key can neither leave the cache directory nor have its file name cut short.\<close>

theorem file_cache_key_check:
  "file_key_error key = None \<longleftrightarrow>
     [dot] \<notin> set (components key) \<and> [dot, dot] \<notin> set (components key) \<and> 0 \<notin> set key"
proof -
  have "slash \<notin> set [dot]" "slash \<notin> set [dot, dot]" by (simp_all add: slash_def dot_def)
  from walks_out_iff [OF this(1), of key] walks_out_iff [OF this(2), of key] show ?thesis
    by (simp add: file_key_error_def)
qed

end
