(* ===== verification/Assignors.thy ===== *)
theory Assignors
  imports Wire_Laws Ordered_Map
begin

text \<open>
  \<open>src/kafka/consumer_group.cc\<close>, first part: the blobs of the consumer protocol with the generated
  codecs they use (\<open>src/kafka/generated/messages.cc\<close>), and the two assignment strategies.  A
  partition number is an \<open>int\<close> within the range of \<open>int32_t\<close>.
\<close>

type_synonym partition_map = "(bytes, int list) omap"

section \<open>The embedded blobs\<close>

definition consumer_protocol_version :: i16 where "consumer_protocol_version = 0"
definition max_protocol_version :: int where "max_protocol_version = 3"

definition enc_partition :: "int \<Rightarrow> writer \<Rightarrow> writer" where
  "enc_partition p w = w_i32 (word_of_int p) w"

definition dec_partition :: "int read" where
  "dec_partition = r_bind r_i32 (\<lambda>p. r_return (sint p))"

definition enc_topic_partition :: "bytes \<times> int list \<Rightarrow> writer \<Rightarrow> writer" where
  "enc_topic_partition tp w = w_array enc_partition False (snd tp) (w_string False (fst tp) w)"

definition dec_topic_partition :: "(bytes \<times> int list) read" where
  "dec_topic_partition = r_bind (r_string False) (\<lambda>t.
     r_bind (r_array dec_partition False) (\<lambda>ps. r_return (t, ps)))"

text \<open>What version 0 writes; a reader of version 3 knows the later fields and drops them.\<close>

definition encode_subscription :: "bytes list \<Rightarrow> bytes" where
  "encode_subscription ts =
     w_nullable_bytes False None (w_array (w_string False) False ts (w_i16 consumer_protocol_version []))"

definition dec_subscription :: "int \<Rightarrow> bytes list read" where
  "dec_subscription v =
     (if v \<ge> 0 then
        r_bind (r_array (r_string False) False) (\<lambda>ts. r_bind (r_nullable_bytes False) (\<lambda>_.
        r_bind (if v \<ge> 1 then r_array dec_topic_partition False else r_return []) (\<lambda>_.
        r_bind (if v \<ge> 2 then r_i32 else r_return (- 1)) (\<lambda>_.
        r_bind (if v \<ge> 3 then r_nullable_string False else r_return None) (\<lambda>_. r_return ts)))))
      else r_return [])"

definition on_blob :: "bytes \<Rightarrow> 'a read \<Rightarrow> protocol_error + 'a" where
  "on_blob b p = rbind (p (reader_on b)) (\<lambda>(x, _). Inr x)"

definition decode_subscription :: "bytes \<Rightarrow> protocol_error + bytes list" where
  "decode_subscription blob = on_blob blob (r_bind r_i16 (\<lambda>v.
     dec_subscription (min (sint v) max_protocol_version)))"

definition encode_assignment :: "partition_map \<Rightarrow> bytes" where
  "encode_assignment a =
     w_nullable_bytes False None (w_array enc_topic_partition False a (w_i16 consumer_protocol_version []))"

definition dec_assignment :: "int \<Rightarrow> (bytes \<times> int list) list read" where
  "dec_assignment v =
     (if v \<ge> 0 then
        r_bind (r_array dec_topic_partition False) (\<lambda>tps.
        r_bind (r_nullable_bytes False) (\<lambda>_. r_return tps))
      else r_return [])"

definition decode_assignment :: "bytes \<Rightarrow> protocol_error + partition_map" where
  "decode_assignment blob =
     (if blob = [] then Inr []
      else rbind (on_blob blob (r_bind r_i16 (\<lambda>v. dec_assignment (min (sint v) max_protocol_version))))
        (\<lambda>tps. Inr (fold (\<lambda>(t, ps). om_set t ps) tps [])))"

subsection \<open>The codec contract for the blobs\<close>

definition int32 :: "int \<Rightarrow> bool" where
  "int32 p \<longleftrightarrow> - (2 ^ 31) \<le> p \<and> p < 2 ^ 31"

lemma sint_word32: "int32 p \<Longrightarrow> sint (word_of_int p :: i32) = p"
  by (simp add: int32_def signed_of_int signed_take_bit_int_eq_self)

interpretation partition_codec: wire_codec enc_partition dec_partition int32
proof unfold_locales
  fix x w
  show "enc_partition x w = w @ enc_partition x []"
    by (simp add: enc_partition_def w_i32_def w_be_def)
  show "enc_partition x [] \<noteq> []"
    by (simp add: enc_partition_def w_i32_def w_be_def)
  assume "int32 x"
  then show "reads dec_partition (enc_partition x []) x"
    unfolding dec_partition_def enc_partition_def
    by (intro reads_bind_last [OF reads_i32]) (simp add: sint_word32)
qed

definition fits_topic :: "bytes \<times> int list \<Rightarrow> bool" where
  "fits_topic tp \<longleftrightarrow> fits_string False (fst tp) \<and> list_all int32 (snd tp) \<and> length (snd tp) < 2 ^ 31"

lemma enc_topic_partition_app:
  "enc_topic_partition tp w = w @ w_string False (fst tp) [] @ w_array enc_partition False (snd tp) []"
proof -
  have "enc_topic_partition tp w = w_string False (fst tp) w @ w_array enc_partition False (snd tp) []"
    unfolding enc_topic_partition_def by (rule partition_codec.w_array_app)
  also have "w_string False (fst tp) w = w @ w_string False (fst tp) []"
    by (rule string_codec.enc_append)
  finally show ?thesis by (simp only: append_assoc)
qed

lemmas enc_topic_partition_Nil = enc_topic_partition_app [of _ "[]", unfolded append_Nil]

interpretation topic_partition_codec: wire_codec enc_topic_partition dec_topic_partition fits_topic
proof unfold_locales
  fix x w
  show "enc_topic_partition x w = w @ enc_topic_partition x []"
    by (simp only: enc_topic_partition_app append_Nil)
  assume x: "fits_topic x"
  then show "enc_topic_partition x [] \<noteq> []"
    using string_codec.enc_nonempty [of False "fst x"] by (simp add: enc_topic_partition_Nil fits_topic_def)
  have s: "reads (r_string False) (w_string False (fst x) []) (fst x)"
    using x by (intro reads_string) (simp add: fits_topic_def)
  have a: "reads (r_array dec_partition False) (w_array enc_partition False (snd x) []) (snd x)"
    using x by (intro partition_codec.reads_array) (simp_all add: fits_topic_def fits_array_def)
  show "reads dec_topic_partition (enc_topic_partition x []) x"
    unfolding dec_topic_partition_def enc_topic_partition_Nil
    by (rule reads_bind [OF s reads_bind_last [OF a] refl]) simp
qed

lemma on_blob_reads: "reads p b x \<Longrightarrow> on_blob b p = Inr x"
  using reads_on [of p b x "[]"] by (simp add: on_blob_def)

lemma null_bytes: "w_nullable_bytes False None w = w @ w_i32 (- 1) []"
  by (simp add: w_nullable_bytes_def w_i32_def w_be_def)

lemma reads_null_bytes: "reads (r_nullable_bytes False) (w_i32 (- 1) []) None"
  using reads_nullable_bytes [of False None] by (simp add: w_nullable_bytes_def)

section \<open>Assignment strategies\<close>

record joined_member =
  member_id :: bytes
  m_topics :: "bytes list"

definition sorted_ids :: "joined_member list \<Rightarrow> bytes list" where
  "sorted_ids ms = sort (map member_id ms)"

definition subscribers :: "joined_member list \<Rightarrow> bytes \<Rightarrow> bytes list" where
  "subscribers ms t = sort (map member_id (filter (\<lambda>m. t \<in> set (m_topics m)) ms))"

text \<open>\<open>out[topic].push_back(p)\<close> for every partition of the run; no partition, no entry.\<close>

definition push_partitions :: "bytes \<Rightarrow> int list \<Rightarrow> partition_map \<Rightarrow> partition_map" where
  "push_partitions t ps out =
     (if ps = [] then out else om_set t ((case om_find out t of None \<Rightarrow> [] | Some qs \<Rightarrow> qs) @ ps) out)"

fun range_loop :: "bytes \<Rightarrow> int \<Rightarrow> int \<Rightarrow> int \<Rightarrow> int \<Rightarrow> bytes list \<Rightarrow> int list" where
  "range_loop self base extra i nxt [] = []"
| "range_loop self base extra i nxt (s # subs) =
     (let tk = base + (if i < extra then 1 else 0)
      in (if s = self then [nxt..nxt + tk - 1] else []) @ range_loop self base extra (i + 1) (nxt + tk) subs)"

text \<open>Counts are sizes, so division truncates as it does for non-negative numbers.\<close>

fun assign_range_loop ::
    "joined_member list \<Rightarrow> bytes \<Rightarrow> (bytes, int) omap \<Rightarrow> partition_map \<Rightarrow> partition_map" where
  "assign_range_loop ms self [] out = out"
| "assign_range_loop ms self ((t, cnt) # counts) out =
     (let subs = subscribers ms t in
      if subs = [] then assign_range_loop ms self counts out
      else let n = int (length subs)
           in assign_range_loop ms self counts
                (push_partitions t (range_loop self (cnt div n) (cnt mod n) 0 0 subs) out))"

definition assign_range :: "joined_member list \<Rightarrow> bytes \<Rightarrow> (bytes, int) omap \<Rightarrow> partition_map" where
  "assign_range ms self counts = assign_range_loop ms self counts []"

fun rr_loop :: "bytes \<Rightarrow> bytes list \<Rightarrow> nat \<Rightarrow> int list \<Rightarrow> int list" where
  "rr_loop self subs cursor [] = []"
| "rr_loop self subs cursor (p # ps) =
     (let owner = subs ! (cursor mod length subs); qs = rr_loop self subs (Suc cursor) ps
      in if owner = self then p # qs else qs)"

fun assign_roundrobin_loop ::
    "joined_member list \<Rightarrow> bytes \<Rightarrow> nat \<Rightarrow> (bytes, int) omap \<Rightarrow> partition_map \<Rightarrow> partition_map" where
  "assign_roundrobin_loop ms self cursor [] out = out"
| "assign_roundrobin_loop ms self cursor ((t, cnt) # counts) out =
     (let subs = subscribers ms t in
      if subs = [] then assign_roundrobin_loop ms self cursor counts out
      else assign_roundrobin_loop ms self (cursor + nat cnt) counts
             (push_partitions t (rr_loop self subs cursor [0..cnt - 1]) out))"

definition assign_roundrobin :: "joined_member list \<Rightarrow> bytes \<Rightarrow> (bytes, int) omap \<Rightarrow> partition_map" where
  "assign_roundrobin ms self counts =
     (if sorted_ids ms = [] then [] else assign_roundrobin_loop ms self 0 counts [])"

definition parts_of :: "partition_map \<Rightarrow> bytes \<Rightarrow> int list" where
  "parts_of out t = (case om_find out t of None \<Rightarrow> [] | Some ps \<Rightarrow> ps)"

subsection \<open>What one topic gets\<close>

lemma om_sorted_push: "om_sorted out \<Longrightarrow> om_sorted (push_partitions t ps out)"
  by (simp add: push_partitions_def om_sorted_set)

lemma parts_of_push: "om_sorted out \<Longrightarrow> parts_of (push_partitions t ps out) u =
    (if u = t then parts_of out t @ ps else parts_of out u)"
  by (auto simp: parts_of_def push_partitions_def om_find_set)

lemma range_loop_topics:
  "om_sorted out \<Longrightarrow> om_sorted counts \<Longrightarrow>
   parts_of (assign_range_loop ms self counts out) t = parts_of out t @
     (case om_find counts t of None \<Rightarrow> []
      | Some cnt \<Rightarrow> (let subs = subscribers ms t; n = int (length subs)
          in if subs = [] then [] else range_loop self (cnt div n) (cnt mod n) 0 0 subs))"
proof (induction counts arbitrary: out)
  case (Cons c counts)
  obtain u cnt where c: "c = (u, cnt)" by (cases c)
  have "om_find counts t = None" if "\<not> u < t"
    using Cons.prems(2) that by (auto simp: c intro!: om_find_below [of counts u])
  then show ?case
    using Cons by (auto simp: c Let_def om_sorted_push parts_of_push)
qed simp

text \<open>Member \<open>k\<close> gets the run from \<open>run_start k\<close> to \<open>run_start (k + 1)\<close>.\<close>

definition run_start :: "int \<Rightarrow> int \<Rightarrow> int \<Rightarrow> int" where
  "run_start base extra k = k * base + min k extra"

lemma run_step: "run_start base extra k + (base + (if k < extra then 1 else 0)) = run_start base extra (k + 1)"
  by (auto simp: run_start_def algebra_simps)

lemma range_loop_absent: "self \<notin> set subs \<Longrightarrow> range_loop self base extra i nxt subs = []"
  by (induction subs arbitrary: i nxt) (auto simp: Let_def)

lemma range_loop_run:
  "distinct subs \<Longrightarrow> k < length subs \<Longrightarrow>
   range_loop (subs ! k) base extra i (run_start base extra i) subs =
     [run_start base extra (i + int k)..run_start base extra (i + int k + 1) - 1]"
proof (induction subs arbitrary: i k)
  case (Cons s subs)
  have step: "range_loop self base extra i (run_start base extra i) (s # subs) =
      (if s = self then [run_start base extra i..run_start base extra (i + 1) - 1] else []) @
      range_loop self base extra (i + 1) (run_start base extra (i + 1)) subs" for self
    unfolding range_loop.simps Let_def run_step by (rule refl)
  show ?case
  proof (cases k)
    case 0
    then show ?thesis
      using Cons.prems by (simp add: step range_loop_absent del: range_loop.simps)
  next
    case (Suc j)
    then have "s \<noteq> subs ! j" using Cons.prems by (auto simp: nth_mem)
    then show ?thesis
      using Cons.IH [of j "i + 1"] Cons.prems Suc by (simp add: step algebra_simps del: range_loop.simps)
  qed
qed simp

lemma unique_run:
  assumes n: "0 < n" and cnt: "0 \<le> cnt" and p: "0 \<le> p" "p < (cnt :: int)"
  shows "\<exists>!k. k < n \<and> run_start (cnt div int n) (cnt mod int n) (int k) \<le> p \<and>
      p < run_start (cnt div int n) (cnt mod int n) (int k + 1)"
proof -
  let ?s = "\<lambda>k. run_start (cnt div int n) (cnt mod int n) (int k)"
  have base: "0 \<le> cnt div int n" using n cnt by (simp add: pos_imp_zdiv_nonneg_iff)
  have mono: "?s j \<le> ?s k" if "j \<le> k" for j k
    using that base by (simp add: run_start_def add_mono mult_right_mono min.coboundedI1 min_le_iff_disj)
  have first: "run_start (cnt div int n) (cnt mod int n) 0 = 0"
    using n cnt by (simp add: run_start_def)
  have last: "?s n = cnt"
    using n by (simp add: run_start_def min_absorb2)
  have "\<exists>k. p < ?s (Suc k)"
    using last p(2) n by (metis Suc_pred)
  then have "p < ?s (Suc (LEAST k. p < ?s (Suc k)))" by (rule LeastI_ex)
  moreover define k where "k = (LEAST k. p < ?s (Suc k))"
  ultimately have k: "p < ?s (Suc k)" by simp
  have below: "?s k \<le> p"
  proof (cases k)
    case (Suc j)
    then have "\<not> p < ?s (Suc j)"
      using not_less_Least [of j "\<lambda>k. p < ?s (Suc k)"] unfolding k_def by (metis lessI)
    then show ?thesis by (simp only: Suc not_less)
  qed (simp add: first p)
  have kn: "k < n"
    using mono [of n k] last below p(2) by (cases "n \<le> k") auto
  show ?thesis
  proof (rule ex1I [of _ k])
    show "k < n \<and> run_start (cnt div int n) (cnt mod int n) (int k) \<le> p \<and>
        p < run_start (cnt div int n) (cnt mod int n) (int k + 1)"
      using kn below k by (simp add: add.commute)
    fix j assume "j < n \<and> run_start (cnt div int n) (cnt mod int n) (int j) \<le> p \<and>
        p < run_start (cnt div int n) (cnt mod int n) (int j + 1)"
    then have j: "?s j \<le> p" "p < ?s (Suc j)" by (simp_all add: add.commute)
    show "j = k"
      using mono [of "Suc j" k] mono [of "Suc k" j] j k below by (cases j k rule: linorder_cases) auto
  qed
qed

lemma run_length:
  "0 < n \<Longrightarrow> run_start (cnt div n) (cnt mod n) (k + 1) - run_start (cnt div n) (cnt mod n) k =
    cnt div n + (if k < cnt mod n then 1 else 0)"
  using run_step [of "cnt div n" "cnt mod n" k] by simp

lemma rr_loop_eq:
  "rr_loop self subs cursor [a..b] =
     filter (\<lambda>p. subs ! ((cursor + nat (p - a)) mod length subs) = self) [a..b]"
proof (induction "nat (b - a + 1)" arbitrary: a cursor)
  case 0
  then show ?case by simp
next
  case (Suc n)
  then have ab: "[a..b] = a # [a + 1..b]" by (simp add: upto_rec1)
  have "filter (\<lambda>p. subs ! ((Suc cursor + nat (p - (a + 1))) mod length subs) = self) [a + 1..b] =
      filter (\<lambda>p. subs ! ((cursor + nat (p - a)) mod length subs) = self) [a + 1..b]"
    by (rule filter_cong) (auto simp: Suc_nat_eq_nat_zadd1 add_Suc_right [symmetric] simp del: add_Suc_right)
  with Suc.hyps(1) [of "a + 1" "Suc cursor"] Suc.hyps(2) show ?case
    by (simp add: ab Let_def)
qed

text \<open>Where the rotating cursor stands when a topic's turn comes.\<close>

fun rr_cursor :: "joined_member list \<Rightarrow> (bytes, int) omap \<Rightarrow> bytes \<Rightarrow> nat" where
  "rr_cursor ms [] t = 0"
| "rr_cursor ms ((u, cnt) # counts) t =
     (if u = t then 0
      else (if subscribers ms u = [] then 0 else nat cnt) + rr_cursor ms counts t)"

lemma rr_loop_topics:
  "om_sorted out \<Longrightarrow> om_sorted counts \<Longrightarrow>
   parts_of (assign_roundrobin_loop ms self cursor counts out) t = parts_of out t @
     (case om_find counts t of None \<Rightarrow> []
      | Some cnt \<Rightarrow> (let subs = subscribers ms t
          in if subs = [] then [] else rr_loop self subs (cursor + rr_cursor ms counts t) [0..cnt - 1]))"
proof (induction counts arbitrary: out cursor)
  case (Cons c counts)
  obtain u cnt where c: "c = (u, cnt)" by (cases c)
  have "om_find counts t = None" if "\<not> u < t"
    using Cons.prems(2) that by (auto simp: c intro!: om_find_below [of counts u])
  then show ?case
    using Cons by (auto simp: c Let_def om_sorted_push parts_of_push add.assoc split: option.split)
qed simp

lemma subscribers_distinct: "distinct (map member_id ms) \<Longrightarrow> distinct (subscribers ms t)"
  by (simp add: subscribers_def distinct_map_filter)

lemma range_parts:
  assumes "distinct (map member_id ms)" "om_sorted counts" "om_find counts t = Some cnt"
    and "k < length (subscribers ms t)"
  shows "parts_of (assign_range ms (subscribers ms t ! k) counts) t =
    [run_start (cnt div int (length (subscribers ms t))) (cnt mod int (length (subscribers ms t))) (int k)..
     run_start (cnt div int (length (subscribers ms t))) (cnt mod int (length (subscribers ms t))) (int k + 1) - 1]"
proof -
  let ?n = "int (length (subscribers ms t))"
  have ne: "subscribers ms t \<noteq> []" using assms(4) by (metis length_0_conv not_less_zero)
  have "0 < ?n" using ne by simp
  then have "run_start (cnt div ?n) (cnt mod ?n) 0 = 0" by (simp add: run_start_def)
  with range_loop_run [OF subscribers_distinct [OF assms(1)] assms(4), of "cnt div ?n" "cnt mod ?n" 0]
    range_loop_topics [OF om_sorted_Nil assms(2), of ms "subscribers ms t ! k" t] ne assms(3)
  show ?thesis by (simp add: assign_range_def Let_def parts_of_def)
qed

lemma ex1_member:
  assumes "distinct xs" and "\<exists>!k. k < length xs \<and> P (xs ! k)"
  shows "\<exists>!m. m \<in> set xs \<and> P m"
  using assms by (metis in_set_conv_nth)

section \<open>Properties\<close>

text \<open>C9: what a member encodes as its subscription every member decodes, and the assignment the leader
  computes arrives unchanged.\<close>

theorem blobs_round_trip:
  assumes "list_all (fits_string False) ts" and "length ts < 2 ^ 31"
    and "om_sorted a" and "list_all fits_topic a" and "length a < 2 ^ 31"
  shows "decode_subscription (encode_subscription ts) = Inr ts \<and> decode_assignment (encode_assignment a) = Inr a"
proof
  have v0: "min (sint consumer_protocol_version) max_protocol_version = 0"
    by (simp add: consumer_protocol_version_def max_protocol_version_def)
  have sub: "encode_subscription ts = w_i16 consumer_protocol_version [] @
      w_array (w_string False) False ts [] @ w_i32 (- 1) []"
    using string_codec.w_array_app [of False False ts "w_i16 consumer_protocol_version []"]
    by (simp add: encode_subscription_def null_bytes)
  have "reads (dec_subscription 0) (w_array (w_string False) False ts [] @ w_i32 (- 1) []) ts"
    unfolding dec_subscription_def using assms(1,2)
    by (auto simp: fits_array_def r_bind_def r_return_def
        intro!: reads_bind [OF string_codec.reads_array reads_bind_last [OF reads_null_bytes]])
  then show "decode_subscription (encode_subscription ts) = Inr ts"
    unfolding decode_subscription_def sub
    by (intro on_blob_reads reads_bind [OF reads_i16 _ refl]) (simp only: v0)
  have asg: "encode_assignment a = w_i16 consumer_protocol_version [] @
      w_array enc_topic_partition False a [] @ w_i32 (- 1) []"
    using topic_partition_codec.w_array_app [of False a "w_i16 consumer_protocol_version []"]
    by (simp add: encode_assignment_def null_bytes)
  have "reads (dec_assignment 0) (w_array enc_topic_partition False a [] @ w_i32 (- 1) []) a"
    unfolding dec_assignment_def using assms(4,5)
    by (auto simp: fits_array_def
        intro!: reads_bind [OF topic_partition_codec.reads_array reads_bind_last [OF reads_null_bytes]])
  then have "reads (r_bind r_i16 (\<lambda>v. dec_assignment (min (sint v) max_protocol_version))) (encode_assignment a) a"
    unfolding asg by (intro reads_bind [OF reads_i16 _ refl]) (simp only: v0)
  from on_blob_reads [OF this]
  have "decode_assignment (encode_assignment a) = Inr (fold (\<lambda>(t, ps). om_set t ps) a [])"
    by (simp add: decode_assignment_def asg w_i16_def w_be_def)
  also have "fold (\<lambda>(t, ps). om_set t ps) a [] = a"
  proof (rule om_ext)
    show "om_sorted (fold (\<lambda>(t, ps). om_set t ps) a [])"
      by (rule omap.inv_puts) simp
    show "om_sorted a" by (rule assms(3))
    fix t
    have "map_of (rev a) = map_of a"
      using om_sorted_distinct [OF assms(3)] by (simp add: map_of_inject_set rev_map [symmetric])
    then show "om_find (fold (\<lambda>(t, ps). om_set t ps) a []) t = om_find a t"
      using omap.lookup_puts [of "[]" a t] om_find_eq_map_of [OF assms(3), of t]
      by (simp split: option.splits)
  qed
  finally show "decode_assignment (encode_assignment a) = Inr a" .
qed

text \<open>C10: under the range strategy every partition of a topic somebody subscribes to belongs to exactly one
  of its subscribers, each gets a contiguous run of the topic's partitions and nothing else, and
  the runs differ in length by at most one.\<close>

theorem range_covers_disjointly:
  assumes "distinct (map member_id ms)" and "om_sorted counts" and "om_find counts t = Some cnt"
    and "0 \<le> cnt" and "subscribers ms t \<noteq> []"
  shows "(\<forall>p. 0 \<le> p \<and> p < cnt \<longrightarrow>
      (\<exists>!m. m \<in> set (subscribers ms t) \<and> p \<in> set (parts_of (assign_range ms m counts) t))) \<and>
    (\<forall>m\<in>set (subscribers ms t). \<exists>a b. 0 \<le> a \<and> b < cnt \<and> parts_of (assign_range ms m counts) t = [a..b] \<and>
      b - a + 1 \<in> {cnt div int (length (subscribers ms t)), cnt div int (length (subscribers ms t)) + 1})"
proof
  let ?subs = "subscribers ms t" and ?n = "length (subscribers ms t)"
  let ?s = "run_start (cnt div int ?n) (cnt mod int ?n)"
  have n: "0 < ?n" using assms(5) by simp
  have parts: "parts_of (assign_range ms (?subs ! k) counts) t = [?s (int k)..?s (int k + 1) - 1]" if "k < ?n" for k
    using range_parts [OF assms(1,2,3) that] .
  show "\<forall>p. 0 \<le> p \<and> p < cnt \<longrightarrow>
      (\<exists>!m. m \<in> set ?subs \<and> p \<in> set (parts_of (assign_range ms m counts) t))"
  proof (intro allI impI ex1_member [OF subscribers_distinct [OF assms(1)]])
    fix p assume "0 \<le> p \<and> p < cnt"
    with unique_run [OF n assms(4), of p]
    have "\<exists>!k. k < ?n \<and> ?s (int k) \<le> p \<and> p < ?s (int k + 1)" by blast
    moreover have "k < ?n \<and> ?s (int k) \<le> p \<and> p < ?s (int k + 1) \<longleftrightarrow>
        k < ?n \<and> p \<in> set (parts_of (assign_range ms (?subs ! k) counts) t)" for k
      using parts [of k] by auto
    ultimately show "\<exists>!k. k < ?n \<and> p \<in> set (parts_of (assign_range ms (?subs ! k) counts) t)"
      by simp
  qed
  have base: "0 \<le> cnt div int ?n" using n assms(4) by (simp add: pos_imp_zdiv_nonneg_iff)
  show "\<forall>m\<in>set ?subs. \<exists>a b. 0 \<le> a \<and> b < cnt \<and> parts_of (assign_range ms m counts) t = [a..b] \<and>
      b - a + 1 \<in> {cnt div int ?n, cnt div int ?n + 1}"
  proof
    fix m assume "m \<in> set ?subs"
    then obtain k where k: "k < ?n" "?subs ! k = m" by (auto simp: in_set_conv_nth)
    have "?s (int k + 1) \<le> ?s (int ?n)"
      using k(1) base by (simp add: run_start_def add_mono mult_right_mono min.coboundedI1 min_le_iff_disj)
    also have "?s (int ?n) = cnt" using n by (simp add: run_start_def min_absorb2)
    finally have "?s (int k + 1) - 1 < cnt" by simp
    moreover have "0 \<le> ?s (int k)" using base n assms(4) by (simp add: run_start_def)
    moreover have "?s (int k + 1) - 1 - ?s (int k) + 1 \<in> {cnt div int ?n, cnt div int ?n + 1}"
      using run_length [of "int ?n" cnt "int k"] n by auto
    ultimately show "\<exists>a b. 0 \<le> a \<and> b < cnt \<and> parts_of (assign_range ms m counts) t = [a..b] \<and>
        b - a + 1 \<in> {cnt div int ?n, cnt div int ?n + 1}"
      using parts [OF k(1)] k(2) by blast
  qed
qed

definition two_members :: "joined_member list" where
  "two_members = [\<lparr>member_id = [98], m_topics = [[116]]\<rparr>, \<lparr>member_id = [97], m_topics = [[116]]\<rparr>]"

lemma two_members_subs: "subscribers two_members [116] = [[97], [98]]"
  by (simp add: subscribers_def two_members_def)

lemma two_members_ok:
  "distinct (map member_id two_members)" "om_sorted [([116 :: byte], 3 :: int)]"
  "om_find [([116 :: byte], 3 :: int)] [116] = Some 3" "subscribers two_members [116] \<noteq> []"
  by (simp add: two_members_def, simp, simp, simp add: two_members_subs)

theorem range_covers_disjointly_witness:
  "\<exists>!m. m \<in> {[97], [98]} \<and> 1 \<in> set (parts_of (assign_range two_members m [([116], 3)]) [116])"
  using range_covers_disjointly [OF two_members_ok(1,2,3) _ two_members_ok(4), THEN conjunct1, rule_format, of 1]
  by (simp add: two_members_subs)

text \<open> under the round-robin strategy every partition of a topic somebody subscribes to belongs to
  exactly one of its subscribers: the one the cursor, which runs on over the topics, stands at.\<close>

theorem roundrobin_covers_disjointly:
  assumes "distinct (map member_id ms)" and "om_sorted counts" and "om_find counts t = Some cnt"
    and "subscribers ms t \<noteq> []"
  shows "(\<forall>p. 0 \<le> p \<and> p < cnt \<longrightarrow>
      (\<exists>!m. m \<in> set (subscribers ms t) \<and> p \<in> set (parts_of (assign_roundrobin ms m counts) t))) \<and>
    (\<forall>m. parts_of (assign_roundrobin ms m counts) t = filter (\<lambda>p. subscribers ms t !
        ((rr_cursor ms counts t + nat p) mod length (subscribers ms t)) = m) [0..cnt - 1])"
proof -
  let ?subs = "subscribers ms t"
  have "set ?subs \<subseteq> set (sorted_ids ms)"
    by (auto simp: sorted_ids_def subscribers_def)
  then have "sorted_ids ms \<noteq> []"
    using assms(4) by (metis set_empty subset_empty)
  then have parts: "parts_of (assign_roundrobin ms m counts) t = filter (\<lambda>p. ?subs !
        ((rr_cursor ms counts t + nat p) mod length ?subs) = m) [0..cnt - 1]" for m
    using rr_loop_topics [OF om_sorted_Nil assms(2), of ms m 0 t] assms(3,4)
    by (simp add: assign_roundrobin_def parts_of_def Let_def rr_loop_eq)
  have "\<exists>!m. m \<in> set ?subs \<and> p \<in> set (parts_of (assign_roundrobin ms m counts) t)"
    if "0 \<le> p" "p < cnt" for p
    using that assms(4) unfolding parts by auto
  with parts show ?thesis by blast
qed

theorem roundrobin_covers_disjointly_witness:
  "\<exists>!m. m \<in> {[97], [98]} \<and> 1 \<in> set (parts_of (assign_roundrobin two_members m [([116], 3)]) [116])"
  using roundrobin_covers_disjointly [OF two_members_ok, THEN conjunct1, rule_format, of 1]
  by (simp add: two_members_subs)

theorem blobs_round_trip_witness:
  "decode_subscription (encode_subscription [[116], [117]]) = Inr [[116], [117]] \<and>
   decode_assignment (encode_assignment [([116], [0, 2])]) = Inr [([116], [0, 2])]"
  by (rule blobs_round_trip) (simp_all add: fits_string_def fits_topic_def int32_def)

end
