(* ===== verification/Client.thy ===== *)
theory Client
  imports Ordered_Map Wire "HOL-Library.Multiset"
begin

text \<open>
  \<open>src/kafka/client.cc\<close> and \<open>include/swordfish/kafka/client.hh\<close>: error codes, version
  negotiation, and the life of a connection with its pending requests.  The socket and the
  scheduler are not modelled; an event is what one uninterrupted piece of a coroutine does, and a
  request's outcome is what its waiter sees.
\<close>

section \<open>Error codes\<close>

definition err_none :: i16 where "err_none = 0"
definition offset_out_of_range :: i16 where "offset_out_of_range = 1"
definition unknown_topic_or_part :: i16 where "unknown_topic_or_part = 3"
definition leader_not_available :: i16 where "leader_not_available = 5"
definition not_leader_or_follower :: i16 where "not_leader_or_follower = 6"
definition request_timed_out :: i16 where "request_timed_out = 7"
definition coordinator_load_in_progress :: i16 where "coordinator_load_in_progress = 14"
definition coordinator_not_available :: i16 where "coordinator_not_available = 15"
definition not_coordinator :: i16 where "not_coordinator = 16"
definition illegal_generation :: i16 where "illegal_generation = 22"
definition unknown_member_id :: i16 where "unknown_member_id = 25"
definition rebalance_in_progress :: i16 where "rebalance_in_progress = 27"
definition unsupported_version :: i16 where "unsupported_version = 35"
definition fenced_instance_id :: i16 where "fenced_instance_id = 82"

lemmas err_defs = err_none_def offset_out_of_range_def unknown_topic_or_part_def
  leader_not_available_def not_leader_or_follower_def request_timed_out_def
  coordinator_load_in_progress_def coordinator_not_available_def not_coordinator_def
  illegal_generation_def unknown_member_id_def rebalance_in_progress_def
  unsupported_version_def fenced_instance_id_def

definition error_name :: "i16 \<Rightarrow> bytes" where
  "error_name c = str
     (if c = err_none then ''NONE''
      else if c = offset_out_of_range then ''OFFSET_OUT_OF_RANGE''
      else if c = unknown_topic_or_part then ''UNKNOWN_TOPIC_OR_PARTITION''
      else if c = leader_not_available then ''LEADER_NOT_AVAILABLE''
      else if c = not_leader_or_follower then ''NOT_LEADER_OR_FOLLOWER''
      else if c = request_timed_out then ''REQUEST_TIMED_OUT''
      else if c = coordinator_load_in_progress then ''COORDINATOR_LOAD_IN_PROGRESS''
      else if c = coordinator_not_available then ''COORDINATOR_NOT_AVAILABLE''
      else if c = not_coordinator then ''NOT_COORDINATOR''
      else if c = illegal_generation then ''ILLEGAL_GENERATION''
      else if c = unknown_member_id then ''UNKNOWN_MEMBER_ID''
      else if c = rebalance_in_progress then ''REBALANCE_IN_PROGRESS''
      else if c = unsupported_version then ''UNSUPPORTED_VERSION''
      else if c = fenced_instance_id then ''FENCED_INSTANCE_ID''
      else ''ERROR'')"

definition is_retriable :: "i16 \<Rightarrow> bool" where
  "is_retriable c \<longleftrightarrow> c \<in> set [leader_not_available, not_leader_or_follower, request_timed_out,
     coordinator_load_in_progress, coordinator_not_available, not_coordinator, unknown_topic_or_part]"

text \<open>What a call to the Kafka layer throws.\<close>

datatype kafka_error =
    Protocol_Error protocol_error
  | Broker_Error i16
  | No_Common_Version int int int int
  | Unsupported_Api int
  | Not_Connected
  | Connection_Lost
  | Connection_Closed
  | Timed_Out
  | Write_Failed
  | Other_Error string

section \<open>Version negotiation\<close>

text \<open>The ranges the broker advertised, per api key.\<close>

type_synonym versions = "(int, int \<times> int) omap"

definition negotiated :: "versions \<Rightarrow> int \<Rightarrow> int" where
  "negotiated vs key = (case om_find vs key of None \<Rightarrow> - 1 | Some (_, mx) \<Rightarrow> mx)"

definition pick_version :: "versions \<Rightarrow> int \<Rightarrow> int \<Rightarrow> int \<Rightarrow> int \<Rightarrow> kafka_error + int" where
  "pick_version vs key requested our_min our_max =
     (case om_find vs key of
        None \<Rightarrow> if requested \<ge> 0 then Inr (min requested our_max) else Inl (Unsupported_Api key)
      | Some (broker_min, broker_max) \<Rightarrow>
          (let v = (if requested < 0 then broker_max else requested);
               v = min (min v broker_max) our_max
           in if v < our_min \<or> v < broker_min
              then Inl (No_Common_Version broker_min broker_max our_min our_max)
              else Inr v))"

section \<open>A connection\<close>

record connection =
  next_correlation :: i32
  pending :: "i32 list"
  dead :: bool
  closing :: bool
  out_open :: bool
  reader_running :: bool
  outcomes :: "(i32 \<times> (kafka_error + bytes)) list"

definition connected :: "connection \<Rightarrow> bool" where
  "connected c \<longleftrightarrow> out_open c \<and> \<not> dead c"

definition open_connection :: connection where
  "open_connection = \<lparr>next_correlation = 1, pending = [], dead = False, closing = False,
     out_open = True, reader_running = True, outcomes = []\<rparr>"

definition resolve :: "i32 \<Rightarrow> kafka_error + bytes \<Rightarrow> connection \<Rightarrow> connection" where
  "resolve k r c = c\<lparr>pending := removeAll k (pending c), outcomes := outcomes c @ [(k, r)]\<rparr>"

definition fail_pending :: "kafka_error \<Rightarrow> connection \<Rightarrow> connection" where
  "fail_pending e c = c\<lparr>pending := [], outcomes := outcomes c @ map (\<lambda>k. (k, Inl e)) (pending c)\<rparr>"

text \<open>
  \<open>send\<close> up to its first suspension: the id is consumed, the promise registered.  \<open>writes\<close> tells
  whether the write and the flush will succeed; a failed write drops the promise and is the
  request's outcome.
\<close>

definition begin_send :: "bool \<Rightarrow> connection \<Rightarrow> (kafka_error + i32) \<times> connection" where
  "begin_send writes c =
     (if dead c then (Inl Connection_Lost, c)
      else let corr = next_correlation c; c = c\<lparr>next_correlation := corr + 1\<rparr>
           in if \<not> out_open c then (Inl Not_Connected, c)
              else if corr \<in> set (pending c) then (Inl (Other_Error ''duplicate correlation id''), c)
              else if writes then (Inr corr, c\<lparr>pending := pending c @ [corr]\<rparr>)
              else (Inr corr, resolve corr (Inl Write_Failed) (c\<lparr>pending := pending c @ [corr]\<rparr>)))"

definition send_oneway :: "bool \<Rightarrow> connection \<Rightarrow> (kafka_error + unit) \<times> connection" where
  "send_oneway writes c =
     (if dead c then (Inl Connection_Lost, c)
      else let c = c\<lparr>next_correlation := next_correlation c + 1\<rparr>
           in if \<not> out_open c then (Inl Not_Connected, c)
              else if writes then (Inr (), c) else (Inl Write_Failed, c))"

text \<open>One turn of the read loop, with what the two reads returned: the length field and the body.
  The loop ends when the peer closed or the frame makes no sense.\<close>

definition MAX_RESPONSE :: int where "MAX_RESPONSE = 100 * 1024 * 1024"

definition read_frame :: "bytes \<Rightarrow> bytes \<Rightarrow> protocol_error + i32 option" where
  "read_frame len_buf body =
     (if length len_buf < 4 then Inr None
      else rbind (r_i32 (reader_on len_buf)) (\<lambda>(len, _).
        if sint len < 0 \<or> sint len > MAX_RESPONSE then Inl (Length_Out_Of_Range (sint len))
        else if length body < nat (sint len) then Inr None
        else rbind (r_i32 (reader_on body)) (\<lambda>(corr, _). Inr (Some corr))))"

text \<open>The \<open>finally\<close> of the read loop: however it ended, nothing will complete a request any more.\<close>

definition reader_done :: "connection \<Rightarrow> connection" where
  "reader_done c =
     (let c = c\<lparr>dead := True, reader_running := False\<rparr>
      in if closing c then c else fail_pending Connection_Lost c)"

definition reader_broke :: "connection \<Rightarrow> connection" where
  "reader_broke c = reader_done (if closing c then c else fail_pending Connection_Closed c)"

definition read_turn :: "bytes \<Rightarrow> bytes \<Rightarrow> connection \<Rightarrow> connection" where
  "read_turn len_buf body c =
     (if \<not> reader_running c then c
      else if closing c then reader_broke c
      else case read_frame len_buf body of
        Inl _ \<Rightarrow> reader_done c
      | Inr None \<Rightarrow> reader_broke c
      | Inr (Some corr) \<Rightarrow> if corr \<in> set (pending c) then resolve corr (Inr body) c else c)"

text \<open>The tail of \<open>exchange\<close> after a failure: the timeout of a pending request retires the connection.\<close>

definition request_timeout :: "i32 \<Rightarrow> connection \<Rightarrow> connection" where
  "request_timeout corr c =
     (if corr \<in> set (pending c)
      then fail_pending Timed_Out ((resolve corr (Inl Timed_Out) c)\<lparr>dead := True\<rparr>) else c)"

text \<open>\<open>close\<close> before and after it waits for the reader.\<close>

definition close_begin :: "connection \<Rightarrow> connection" where
  "close_begin c = c\<lparr>closing := True\<rparr>"

definition close_end :: "connection \<Rightarrow> connection" where
  "close_end c =
     (if closing c \<and> \<not> reader_running c
      then fail_pending Connection_Closed (c\<lparr>out_open := False\<rparr>) else c)"

section \<open>Histories\<close>

datatype conn_event =
    Send bool | Send_Oneway bool | Read bytes bytes | Read_Failed | Timeout i32 | Close_Begin | Close_End

text \<open>The ids whose send got past its first suspension are collected as issued.\<close>

fun conn_step :: "conn_event \<Rightarrow> connection \<times> i32 list \<Rightarrow> connection \<times> i32 list" where
  "conn_step (Send w) (c, is) =
     (case begin_send w c of (Inr k, c) \<Rightarrow> (c, is @ [k]) | (Inl _, c) \<Rightarrow> (c, is))"
| "conn_step (Send_Oneway w) (c, is) = (snd (send_oneway w c), is)"
| "conn_step (Read l b) (c, is) = (read_turn l b c, is)"
| "conn_step Read_Failed (c, is) = ((if reader_running c then reader_done c else c), is)"
| "conn_step (Timeout k) (c, is) = (request_timeout k c, is)"
| "conn_step Close_Begin (c, is) = (close_begin c, is)"
| "conn_step Close_End (c, is) = (close_end c, is)"

definition conn_inv :: "connection \<times> i32 list \<Rightarrow> bool" where
  "conn_inv s \<longleftrightarrow> (case s of (c, is) \<Rightarrow>
     distinct (pending c) \<and>
     mset is = mset (pending c) + mset (map fst (outcomes c)) \<and>
     (\<not> reader_running c \<longrightarrow> dead c) \<and> (dead c \<and> \<not> closing c \<longrightarrow> pending c = []) \<and>
     (\<not> out_open c \<longrightarrow> dead c \<and> pending c = []))"

lemma mset_removeAll: "distinct xs \<Longrightarrow> k \<in> set xs \<Longrightarrow> mset xs = add_mset k (mset (removeAll k xs))"
  by (metis distinct_remove1_removeAll insert_DiffM mset_remove1 set_mset_mset)

lemma image_fst_pair [simp]: "image_mset fst (image_mset (\<lambda>k. (k, x)) M) = M"
  by (simp add: multiset.map_comp comp_def)

lemma inv_fail_pending:
  "conn_inv (c, is) \<Longrightarrow> conn_inv (fail_pending e c, is) \<and> pending (fail_pending e c) = []"
  by (auto simp: conn_inv_def fail_pending_def comp_def)

lemma inv_resolve:
  "conn_inv (c, is) \<Longrightarrow> k \<in> set (pending c) \<Longrightarrow> conn_inv (resolve k r c, is)"
  using mset_removeAll [of "pending c" k] by (auto simp: conn_inv_def resolve_def distinct_removeAll)

lemma inv_reader_done: "conn_inv (c, is) \<Longrightarrow> conn_inv (reader_done c, is)"
  by (auto simp: conn_inv_def reader_done_def fail_pending_def comp_def Let_def)

lemma inv_reader_broke: "conn_inv (c, is) \<Longrightarrow> conn_inv (reader_broke c, is)"
  by (simp add: reader_broke_def inv_reader_done inv_fail_pending)

lemma inv_read_turn: "conn_inv (c, is) \<Longrightarrow> conn_inv (read_turn l b c, is)"
  by (auto simp: read_turn_def inv_reader_done inv_reader_broke inv_resolve split: sum.split option.split)

lemma inv_timeout: "conn_inv (c, is) \<Longrightarrow> conn_inv (request_timeout k c, is)"
  using inv_resolve [of c "is" k "Inl Timed_Out"]
  by (auto simp: request_timeout_def conn_inv_def fail_pending_def resolve_def comp_def)

lemma inv_close_end: "conn_inv (c, is) \<Longrightarrow> conn_inv (close_end c, is)"
  by (auto simp: close_end_def conn_inv_def fail_pending_def comp_def)

lemma inv_begin_send:
  "conn_inv (c, is) \<Longrightarrow> conn_inv (case begin_send w c of (Inr k, c) \<Rightarrow> (c, is @ [k]) | (Inl _, c) \<Rightarrow> (c, is))"
  by (auto simp: begin_send_def conn_inv_def resolve_def Let_def)

lemma conn_inv_step: "conn_inv s \<Longrightarrow> conn_inv (conn_step ev s)"
proof (cases s; cases ev)
  fix c "is" w assume "conn_inv s" "s = (c, is)" "ev = Send w"
  then show ?thesis using inv_begin_send [of c "is" w] by simp
next
  fix c "is" w assume "conn_inv s" "s = (c, is)" "ev = Send_Oneway w"
  then show ?thesis by (auto simp: send_oneway_def conn_inv_def Let_def)
qed (auto simp: inv_read_turn inv_timeout inv_close_end inv_reader_done close_begin_def, auto simp: conn_inv_def)

lemma conn_inv_run: "conn_inv s \<Longrightarrow> conn_inv (fold conn_step evs s)"
  by (induction evs arbitrary: s) (auto simp: conn_inv_step)

section \<open>Properties\<close>

text \<open>C8: on every connection, whatever is sent, answered, lost, timed out or closed in whatever order,
  each request that was issued is either still pending or has exactly one outcome, and nothing is
  left pending once the connection is dead (unless it is just being closed) or closed.\<close>

theorem every_request_resolved_once:
  fixes evs :: "conn_event list"
  defines "s \<equiv> fold conn_step evs (open_connection, [])"
  shows "mset (snd s) = mset (pending (fst s)) + mset (map fst (outcomes (fst s))) \<and>
    (dead (fst s) \<and> \<not> closing (fst s) \<longrightarrow> pending (fst s) = []) \<and>
    (\<not> out_open (fst s) \<longrightarrow> pending (fst s) = [])"
proof -
  have "conn_inv (open_connection, [])" by (simp add: conn_inv_def open_connection_def)
  from conn_inv_run [OF this, of evs] show ?thesis
    by (auto simp: conn_inv_def s_def split: prod.splits)
qed

theorem every_request_resolved_once_witness:
  "outcomes (fst (fold conn_step [Send True, Send True, Timeout 2] (open_connection, []))) =
     [(2, Inl Timed_Out), (1, Inl Timed_Out)] \<and>
   pending (fst (fold conn_step [Send True, Send True, Timeout 2] (open_connection, []))) = []"
  using every_request_resolved_once [of "[Send True, Send True, Timeout 2]"]
  by (simp add: open_connection_def begin_send_def request_timeout_def resolve_def fail_pending_def)

text \<open> the version that is sent lies in the ranges of both ends and never above an explicit request;
  when it refuses, the ranges have no version in common below the request.\<close>

theorem pick_version_in_both_ranges:
  assumes "om_find vs key = Some (bmin, bmax)"
  shows "(\<forall>v. pick_version vs key req omin omax = Inr v \<longrightarrow>
      omin \<le> v \<and> v \<le> omax \<and> bmin \<le> v \<and> v \<le> bmax \<and> (0 \<le> req \<longrightarrow> v \<le> req) \<and>
      (\<forall>u. omin \<le> u \<and> u \<le> omax \<and> bmin \<le> u \<and> u \<le> bmax \<and> (0 \<le> req \<longrightarrow> u \<le> req) \<longrightarrow> u \<le> v)) \<and>
    (\<forall>e. pick_version vs key req omin omax = Inl e \<longrightarrow>
      \<not> (\<exists>u. omin \<le> u \<and> u \<le> omax \<and> bmin \<le> u \<and> u \<le> bmax \<and> (0 \<le> req \<longrightarrow> u \<le> req)))"
  using assms by (auto simp: pick_version_def Let_def split: if_splits)

theorem pick_version_in_both_ranges_witness:
  "pick_version [(0, 3, 20)] 0 (- 1) 3 13 = Inr 13"
proof -
  have "om_find [(0 :: int, 3 :: int, 20 :: int)] 0 = Some (3, 20)" by simp
  from pick_version_in_both_ranges [OF this, of "- 1" 3 13] show ?thesis
    by (simp add: pick_version_def)
qed

end
