(* ===== verification/Cluster.thy ===== *)
theory Cluster
  imports Client Records
begin

text \<open>
  \<open>src/kafka/cluster.cc\<close>: the cached metadata of a Kafka cluster.  A metadata response is a value;
  the request that fetched it, and the opening of connections, are the parameters of the operations
  that use them.
\<close>

record broker_info =
  node_id :: int
  host :: bytes
  port :: int

record partition_info =
  partition :: int
  leader :: int
  leader_epoch :: int
  replicas :: "int list"

type_synonym uuid = bytes

definition zero_uuid :: uuid where "zero_uuid = replicate 16 0"

record topic_info =
  ti_name :: bytes
  ti_id :: uuid
  partitions :: "partition_info list"

fun find_partition :: "partition_info list \<Rightarrow> int \<Rightarrow> partition_info option" where
  "find_partition [] p = None"
| "find_partition (pi # ps) p = (if partition pi = p then Some pi else find_partition ps p)"

record cluster =
  brokers :: "broker_info list"
  topics :: "(bytes, topic_info) omap"

record metadata_topic =
  mt_error :: i16
  mt_name :: "bytes option"
  mt_id :: uuid
  mt_partitions :: "partition_info list"

record metadata_response =
  mr_brokers :: "broker_info list"
  mr_topics :: "metadata_topic list"

definition topic_of :: "metadata_topic \<Rightarrow> topic_info" where
  "topic_of t = \<lparr>ti_name = (case mt_name t of None \<Rightarrow> [] | Some n \<Rightarrow> n), ti_id = mt_id t,
     partitions = sort_key partition (mt_partitions t)\<rparr>"

definition learn_topic :: "metadata_topic \<Rightarrow> (bytes, topic_info) omap \<Rightarrow> (bytes, topic_info) omap" where
  "learn_topic t ts = (if mt_error t \<noteq> err_none then ts else om_set (ti_name (topic_of t)) (topic_of t) ts)"

definition do_refresh :: "metadata_response \<Rightarrow> cluster \<Rightarrow> cluster" where
  "do_refresh resp cl = cl\<lparr>brokers := mr_brokers resp, topics := fold learn_topic (mr_topics resp) (topics cl)\<rparr>"

definition topic :: "cluster \<Rightarrow> bytes \<Rightarrow> topic_info option" where
  "topic cl name = om_find (topics cl) name"

definition topic_id :: "cluster \<Rightarrow> bytes \<Rightarrow> uuid" where
  "topic_id cl name = (case topic cl name of None \<Rightarrow> zero_uuid | Some ti \<Rightarrow> ti_id ti)"

fun name_of_id :: "(bytes, topic_info) omap \<Rightarrow> uuid \<Rightarrow> bytes" where
  "name_of_id [] i = []"
| "name_of_id ((name, ti) # ts) i = (if ti_id ti = i then name else name_of_id ts i)"

definition topic_name :: "cluster \<Rightarrow> uuid \<Rightarrow> bytes" where
  "topic_name cl i = name_of_id (topics cl) i"

text \<open>\<open>ask\<close> is the metadata exchange for one topic; the result is the node to connect to.\<close>

definition leader_for ::
    "(bytes \<Rightarrow> kafka_error + metadata_response) \<Rightarrow> bytes \<Rightarrow> int \<Rightarrow> cluster \<Rightarrow> (kafka_error + int) \<times> cluster" where
  "leader_for ask name p cl =
     (let refreshed = (\<lambda>cl. case ask name of Inl e \<Rightarrow> (Inl e, cl) | Inr r \<Rightarrow> (Inr (), do_refresh r cl));
          known = (case topic cl name of
            Some ti \<Rightarrow> (Inr ti, cl)
          | None \<Rightarrow> (case refreshed cl of
              (Inl e, cl) \<Rightarrow> (Inl e, cl)
            | (Inr _, cl) \<Rightarrow> (case topic cl name of
                None \<Rightarrow> (Inl (Other_Error ''unknown topic''), cl) | Some ti \<Rightarrow> (Inr ti, cl))))
      in case known of
        (Inl e, cl) \<Rightarrow> (Inl e, cl)
      | (Inr ti, cl) \<Rightarrow> (case find_partition (partitions ti) p of
          None \<Rightarrow> (Inl (Other_Error ''unknown partition''), cl)
        | Some pi \<Rightarrow>
            if leader pi \<ge> 0 then (Inr (leader pi), cl)
            else (case refreshed cl of
              (Inl e, cl) \<Rightarrow> (Inl e, cl)
            | (Inr _, cl) \<Rightarrow>
                (case (case topic cl name of None \<Rightarrow> None | Some ti \<Rightarrow> find_partition (partitions ti) p) of
                   None \<Rightarrow> (Inl (Broker_Error leader_not_available), cl)
                 | Some pi \<Rightarrow> if leader pi < 0 then (Inl (Broker_Error leader_not_available), cl)
                             else (Inr (leader pi), cl)))))"

section \<open>Opening a connection once\<close>

text \<open>
  \<open>broker\<close>: an open connection is returned, a connection attempt in flight is joined, otherwise one
  is started.  The attempt of a node ends with \<open>connect_done\<close>, which clears the slot first.
\<close>

record broker_pool =
  open_conns :: "int list"
  connecting :: "int list"
  started :: "int list"

datatype broker_answer = Open_Connection | Joined | Started

definition broker :: "int \<Rightarrow> broker_pool \<Rightarrow> broker_answer \<times> broker_pool" where
  "broker n p =
     (if n \<in> set (open_conns p) then (Open_Connection, p)
      else if n \<in> set (connecting p) then (Joined, p)
      else (Started, p\<lparr>connecting := n # connecting p, started := started p @ [n]\<rparr>))"

definition connect_done :: "int \<Rightarrow> bool \<Rightarrow> broker_pool \<Rightarrow> broker_pool" where
  "connect_done n ok p =
     (if n \<in> set (connecting p)
      then p\<lparr>connecting := removeAll n (connecting p),
             open_conns := (if ok then List.insert n (open_conns p) else open_conns p)\<rparr>
      else p)"

section \<open>What a refresh promises\<close>

definition named :: "(bytes, topic_info) omap \<Rightarrow> bool" where
  "named ts \<longleftrightarrow> list_all (\<lambda>x. ti_name (snd x) = fst x) ts"

definition cluster_inv :: "cluster \<Rightarrow> bool" where
  "cluster_inv cl \<longleftrightarrow> om_sorted (topics cl) \<and> named (topics cl)"

lemma named_set: "named ts \<Longrightarrow> ti_name ti = n \<Longrightarrow> named (om_set n ti ts)"
proof (induction ts)
  case (Cons p ts)
  then show ?case by (cases p) (simp add: named_def)
qed (simp add: named_def)

lemma learn_all_keeps:
  "om_sorted ts \<Longrightarrow> named ts \<Longrightarrow> om_sorted (fold learn_topic mts ts) \<and> named (fold learn_topic mts ts)"
  by (induction mts arbitrary: ts) (simp_all add: learn_topic_def om_sorted_set named_set)

lemma cluster_inv_refresh: "cluster_inv cl \<Longrightarrow> cluster_inv (do_refresh resp cl)"
  by (simp add: cluster_inv_def do_refresh_def learn_all_keeps)

text \<open>A topic is what the last entry without an error says, or what was known before.\<close>

fun last_entry :: "metadata_topic list \<Rightarrow> bytes \<Rightarrow> topic_info option" where
  "last_entry [] n = None"
| "last_entry (t # mts) n = (case last_entry mts n of Some ti \<Rightarrow> Some ti
     | None \<Rightarrow> if mt_error t = err_none \<and> ti_name (topic_of t) = n then Some (topic_of t) else None)"

lemma find_learned:
  "om_sorted ts \<Longrightarrow> om_find (fold learn_topic mts ts) n =
     (case last_entry mts n of Some ti \<Rightarrow> Some ti | None \<Rightarrow> om_find ts n)"
proof (induction mts arbitrary: ts)
  case (Cons t mts)
  have "om_sorted (learn_topic t ts)"
    using Cons.prems by (simp add: learn_topic_def om_sorted_set)
  from Cons.IH [OF this] Cons.prems show ?case
    by (auto simp: learn_topic_def om_find_set split: option.split)
qed simp

lemma find_partition_iff:
  "distinct (map partition ps) \<Longrightarrow> find_partition ps p = Some pi \<longleftrightarrow> pi \<in> set ps \<and> partition pi = p"
  by (induction ps) (auto simp: image_iff)

section \<open>Properties\<close>

text \<open> after a refresh a topic is what the response says of it, with every partition found by its
  number; a topic the response reports with an error, or not at all, keeps what was known.\<close>

theorem refresh_updates_topics:
  assumes "cluster_inv cl"
  shows "topic (do_refresh resp cl) n =
      (case last_entry (mr_topics resp) n of Some ti \<Rightarrow> Some ti | None \<Rightarrow> topic cl n) \<and>
    (\<forall>t. last_entry (mr_topics resp) n = Some (topic_of t) \<and> distinct (map partition (mt_partitions t)) \<longrightarrow>
      (\<forall>pi\<in>set (mt_partitions t). find_partition (partitions (topic_of t)) (partition pi) = Some pi)) \<and>
    cluster_inv (do_refresh resp cl)"
proof -
  have "find_partition (partitions (topic_of t)) (partition pi) = Some pi"
    if "distinct (map partition (mt_partitions t))" "pi \<in> set (mt_partitions t)" for t pi
  proof -
    have "distinct (map partition (partitions (topic_of t)))"
      using that(1) by (simp add: topic_of_def distinct_map)
    then show ?thesis using that(2) by (simp add: find_partition_iff topic_of_def)
  qed
  then show ?thesis
    using assms cluster_inv_refresh [OF assms]
    by (auto simp: topic_def do_refresh_def find_learned cluster_inv_def split: option.split)
qed

theorem refresh_updates_topics_witness:
  "topic (do_refresh \<lparr>mr_brokers = [], mr_topics = [\<lparr>mt_error = 0, mt_name = Some [97], mt_id = zero_uuid,
       mt_partitions = [\<lparr>partition = 0, leader = 1, leader_epoch = 0, replicas = []\<rparr>]\<rparr>]\<rparr>
     \<lparr>brokers = [], topics = []\<rparr>) [97] =
   Some \<lparr>ti_name = [97], ti_id = zero_uuid, partitions = [\<lparr>partition = 0, leader = 1, leader_epoch = 0, replicas = []\<rparr>]\<rparr>"
proof -
  have "cluster_inv \<lparr>brokers = [], topics = []\<rparr>" by (simp add: cluster_inv_def named_def)
  from refresh_updates_topics [OF this] show ?thesis by (simp add: topic_of_def err_none_def)
qed

end
