(* ===== verification/Retry.thy ===== *)
theory Retry
  imports Client
begin

text \<open>
  The retry loop of \<open>consumer_group::retrying\<close> (\<open>consumer_group.hh\<close>) and \<open>producer::send_to\<close>
  (\<open>producer.cc\<close>): attempt, give up on an error that is not retriable or after the last attempt,
  otherwise sleep, double the pause up to two seconds and prepare the next attempt.  The pauses
  slept are collected; \<open>f\<close> gets the number of the attempt, so that the answers of the brokers may
  differ from one to the next.
\<close>

definition retriable_error :: "kafka_error \<Rightarrow> bool" where
  "retriable_error e = (case e of Broker_Error c \<Rightarrow> is_retriable c | _ \<Rightarrow> False)"

definition next_backoff :: "int \<Rightarrow> int" where
  "next_backoff b = min (b * 2) 2000"

type_synonym ('s, 'a) attempt = "nat \<Rightarrow> 's \<Rightarrow> (kafka_error + 'a) \<times> 's"

function retry_loop :: "('s, 'a) attempt \<Rightarrow> ('s, unit) attempt \<Rightarrow> int \<Rightarrow> nat \<Rightarrow> int \<Rightarrow> int list \<Rightarrow> 's \<Rightarrow>
    (kafka_error + 'a) \<times> 's \<times> int list" where
  "retry_loop f between mx n backoff slept s =
     (case f n s of
        (Inr x, s) \<Rightarrow> (Inr x, s, slept)
      | (Inl e, s) \<Rightarrow>
          if \<not> retriable_error e \<or> int n \<ge> mx then (Inl e, s, slept)
          else (case between n s of
              (Inl e, s) \<Rightarrow> (Inl e, s, slept @ [backoff])
            | (Inr _, s) \<Rightarrow> retry_loop f between mx (Suc n) (next_backoff backoff) (slept @ [backoff]) s))"
  by pat_completeness auto
termination
  by (relation "measure (\<lambda>(f, between, mx, n, backoff, slept, s). nat (mx - int n))") auto

declare retry_loop.simps [simp del]

text \<open>The pauses: the first \<open>k\<close> of the doubling sequence.\<close>

fun pauses :: "int \<Rightarrow> nat \<Rightarrow> int list" where
  "pauses b 0 = []"
| "pauses b (Suc k) = b # pauses (next_backoff b) k"

lemma length_pauses [simp]: "length (pauses b k) = k"
  by (induction k arbitrary: b) auto

text \<open>
  What a run of the loop looks like: after \<open>k\<close> pauses the result is either that of the last attempt,
  or the failure of a preparation; it is an error only if that error is final.
\<close>

lemma retry_loop_spec:
  assumes "retry_loop f between mx n b slept s = (r, s', slept')"
  obtains k where "slept' = slept @ pauses b k" and "int k \<le> max 0 (mx - int n)"
    and "(\<exists>s0. f (n + k) s0 = (r, s') \<and> (k = 0 \<longrightarrow> s0 = s) \<and>
            (0 < k \<longrightarrow> (\<exists>s1. between (n + k - 1) s1 = (Inr (), s0)))) \<and>
          (\<forall>e. r = Inl e \<longrightarrow> \<not> retriable_error e \<or> mx \<le> int (n + k))
       \<or> 0 < k \<and> (\<exists>s1 e. between (n + k - 1) s1 = (Inl e, s') \<and> r = Inl e)"
  using assms
proof (induction f between mx n b slept s arbitrary: thesis rule: retry_loop.induct)
  case (1 f between mx n b slept s)
  obtain r1 s1 where f: "f n s = (r1, s1)" by fastforce
  show ?case
  proof (cases r1)
    case (Inr x)
    then have "r = r1" "s' = s1" "slept' = slept"
      using "1.prems"(2) f by (simp_all add: retry_loop.simps [of f])
    with f Inr show ?thesis by (intro "1.prems"(1) [of 0]) auto
  next
    case (Inl e)
    show ?thesis
    proof (cases "\<not> retriable_error e \<or> int n \<ge> mx")
      case True
      then have "r = r1" "s' = s1" "slept' = slept"
        using "1.prems"(2) f Inl by (simp_all add: retry_loop.simps [of f])
      with f Inl True show ?thesis by (intro "1.prems"(1) [of 0]) auto
    next
      case False
      obtain r2 s2 where b: "between n s1 = (r2, s2)" by fastforce
      show ?thesis
      proof (cases r2)
        case (Inl e2)
        then have "r = Inl e2" "s' = s2" "slept' = slept @ [b]"
          using "1.prems"(2) f \<open>r1 = Inl e\<close> False b by (simp_all add: retry_loop.simps [of f])
        with b Inl False show ?thesis by (intro "1.prems"(1) [of 1]) auto
      next
        case (Inr u)
        have rec: "retry_loop f between mx (Suc n) (next_backoff b) (slept @ [b]) s2 = (r, s', slept')"
          using "1.prems"(2) f \<open>r1 = Inl e\<close> False b Inr by (simp add: retry_loop.simps [of f])
        obtain k where k: "slept' = (slept @ [b]) @ pauses (next_backoff b) k"
            "int k \<le> max 0 (mx - int (Suc n))"
            "(\<exists>s0. f (Suc n + k) s0 = (r, s') \<and> (k = 0 \<longrightarrow> s0 = s2) \<and>
                (0 < k \<longrightarrow> (\<exists>s1. between (Suc n + k - 1) s1 = (Inr (), s0)))) \<and>
              (\<forall>e. r = Inl e \<longrightarrow> \<not> retriable_error e \<or> mx \<le> int (Suc n + k))
             \<or> 0 < k \<and> (\<exists>s1 e. between (Suc n + k - 1) s1 = (Inl e, s') \<and> r = Inl e)"
          by (rule "1.IH" [OF f [symmetric] Inl False b [symmetric] Inr _ rec]) blast
        show ?thesis
        proof (rule "1.prems"(1) [of "Suc k"])
          show "slept' = slept @ pauses b (Suc k)" using k(1) by simp
          show "int (Suc k) \<le> max 0 (mx - int n)" using k(2) False by auto
          show "(\<exists>s0. f (n + Suc k) s0 = (r, s') \<and> (Suc k = 0 \<longrightarrow> s0 = s) \<and>
                (0 < Suc k \<longrightarrow> (\<exists>s1. between (n + Suc k - 1) s1 = (Inr (), s0)))) \<and>
              (\<forall>e. r = Inl e \<longrightarrow> \<not> retriable_error e \<or> mx \<le> int (n + Suc k))
             \<or> 0 < Suc k \<and> (\<exists>s1 e. between (n + Suc k - 1) s1 = (Inl e, s') \<and> r = Inl e)"
            using k(3) b Inr by (cases k) auto
        qed
      qed
    qed
  qed
qed

end
