(* ===== verification/Group.thy ===== *)
theory Group
  imports Assignors Cluster Retry
begin

text \<open>
  \<open>src/kafka/consumer_group.cc\<close>, second part: a member of a consumer group.  The state is that of
  \<open>consumer_group\<close> with the metadata of its cluster; what the brokers answer is the record
  \<open>group_env\<close>.  An operation returns an error or a value, and the state it leaves behind in either
  case, since an exception keeps what was assigned before it.
\<close>

record group_config =
  group_id :: bytes
  cfg_topics :: "bytes list"
  strategy :: bytes

record group_state =
  my_id :: bytes
  generation :: int
  coordinator_id :: int
  is_leader :: bool
  protocol_name :: bytes
  metadata :: cluster

type_synonym 'a group_op = "group_state \<Rightarrow> (kafka_error + 'a) \<times> group_state"

type_synonym offsets = "(bytes, (int, int) omap) omap"

section \<open>What the brokers answer\<close>

record fc_response =
  fc_error :: i16
  fc_node :: int
  fc_coordinators :: "(i16 \<times> int) list"

record join_response =
  jr_error :: i16
  jr_member_id :: bytes
  jr_generation :: int
  jr_leader :: bytes
  jr_protocol :: "bytes option"
  jr_members :: "(bytes \<times> bytes) list"

record sync_request =
  sq_generation :: int
  sq_member_id :: bytes
  sq_assignments :: "(bytes \<times> bytes) list"

record of_partition =
  ofp_index :: int
  ofp_offset :: int
  ofp_error :: i16

record of_topic =
  oft_name :: bytes
  oft_id :: uuid
  oft_partitions :: "of_partition list"

record of_response =
  of_error :: i16
  of_topics :: "of_topic list"
  of_groups :: "(i16 \<times> of_topic list) list"

record commit_topic =
  ct_name :: bytes
  ct_id :: uuid
  ct_partitions :: "(int \<times> int) list"

record commit_request =
  cq_generation :: int
  cq_member_id :: bytes
  cq_topics :: "commit_topic list"

record group_env =
  ge_broker :: "int \<Rightarrow> kafka_error + unit"
  ge_metadata :: "bytes list \<Rightarrow> kafka_error + metadata_response"
  ge_find_version :: int
  ge_find :: "nat \<Rightarrow> kafka_error + fc_response"
  ge_join :: "bytes \<Rightarrow> kafka_error + join_response"
  ge_sync :: "sync_request \<Rightarrow> kafka_error + (i16 \<times> bytes)"
  ge_heartbeat :: "kafka_error + i16"
  ge_fetch_version :: int
  ge_fetch :: "kafka_error + of_response"
  ge_commit :: "commit_request \<Rightarrow> kafka_error + (int \<times> i16) list"
  ge_leave :: "bytes \<Rightarrow> kafka_error + unit"

section \<open>The monad of operations\<close>

definition g_return :: "'a \<Rightarrow> 'a group_op" where "g_return x s = (Inr x, s)"
definition g_throw :: "kafka_error \<Rightarrow> 'a group_op" where "g_throw e s = (Inl e, s)"

definition g_bind :: "'a group_op \<Rightarrow> ('a \<Rightarrow> 'b group_op) \<Rightarrow> 'b group_op" where
  "g_bind m f s = (case m s of (Inl e, s) \<Rightarrow> (Inl e, s) | (Inr x, s) \<Rightarrow> f x s)"

definition g_await :: "kafka_error + 'a \<Rightarrow> 'a group_op" where
  "g_await r s = (r, s)"

definition g_update :: "(group_state \<Rightarrow> group_state) \<Rightarrow> unit group_op" where
  "g_update f s = (Inr (), f s)"

lemmas g_defs = g_return_def g_throw_def g_bind_def g_await_def g_update_def

definition refresh_meta :: "group_env \<Rightarrow> bytes list \<Rightarrow> unit group_op" where
  "refresh_meta env ts = g_bind (g_await (ge_metadata env ts)) (\<lambda>r.
     g_update (\<lambda>s. s\<lparr>metadata := do_refresh r (metadata s)\<rparr>))"

section \<open>Finding the coordinator\<close>

definition coordinator_retries :: nat where "coordinator_retries = 10"

definition fc_answer :: "int \<Rightarrow> fc_response \<Rightarrow> kafka_error + (i16 \<times> int)" where
  "fc_answer v r =
     (if v \<ge> 4 then (case fc_coordinators r of
          [] \<Rightarrow> Inl (Other_Error ''FindCoordinator returned nothing'') | c # _ \<Rightarrow> Inr c)
      else Inr (fc_error r, fc_node r))"

function find_coordinator :: "group_env \<Rightarrow> group_config \<Rightarrow> nat \<Rightarrow> int \<Rightarrow> int list \<Rightarrow> group_state \<Rightarrow>
    (kafka_error + unit) \<times> group_state \<times> int list" where
  "find_coordinator env cfg n backoff slept s =
     (case brokers (metadata s) of
        [] \<Rightarrow> (Inl (Other_Error ''out of range''), s, slept)
      | b # _ \<Rightarrow>
          (case rbind (ge_broker env (node_id b)) (\<lambda>_. rbind (ge_find env n) (fc_answer (ge_find_version env))) of
             Inl e \<Rightarrow> (Inl e, s, slept)
           | Inr (code, node) \<Rightarrow>
               if code = err_none then
                 (case g_bind (g_update (\<lambda>s. s\<lparr>coordinator_id := node\<rparr>)) (\<lambda>_.
                         g_bind (refresh_meta env (cfg_topics cfg)) (\<lambda>_. g_await (ge_broker env node))) s of
                    (r, s) \<Rightarrow> (r, s, slept))
               else if \<not> is_retriable code \<or> n \<ge> coordinator_retries then (Inl (Broker_Error code), s, slept)
               else find_coordinator env cfg (Suc n) (next_backoff backoff) (slept @ [backoff]) s))"
  by pat_completeness auto
termination
  by (relation "measure (\<lambda>(env, cfg, n, backoff, slept, s). coordinator_retries - n)") auto

declare find_coordinator.simps [simp del]

definition coordinator :: "group_env \<Rightarrow> group_config \<Rightarrow> unit group_op" where
  "coordinator env cfg s =
     (let look = (\<lambda>s. g_bind (refresh_meta env (cfg_topics cfg)) (\<lambda>_ s.
            case find_coordinator env cfg 0 200 [] s of (r, s, _) \<Rightarrow> (r, s)) s)
      in if coordinator_id s \<ge> 0
         then (case ge_broker env (coordinator_id s) of
             Inr _ \<Rightarrow> (Inr (), s)
           | Inl _ \<Rightarrow> look (s\<lparr>coordinator_id := - 1\<rparr>))
         else look s)"

section \<open>Joining\<close>

definition MEMBER_ID_REQUIRED :: i16 where "MEMBER_ID_REQUIRED = 79"

definition join_reply :: "group_env \<Rightarrow> join_response group_op" where
  "join_reply env = (\<lambda>s. g_bind (g_await (ge_join env (my_id s))) (\<lambda>r.
     if jr_error r = MEMBER_ID_REQUIRED then
       g_bind (g_update (\<lambda>s. s\<lparr>my_id := jr_member_id r\<rparr>)) (\<lambda>_. g_await (ge_join env (jr_member_id r)))
     else g_return r) s)"

fun decode_members :: "(bytes \<times> bytes) list \<Rightarrow> kafka_error + joined_member list" where
  "decode_members [] = Inr []"
| "decode_members ((i, blob) # ms) =
     (case decode_subscription blob of
        Inl e \<Rightarrow> Inl (Protocol_Error e)
      | Inr ts \<Rightarrow> rbind (decode_members ms) (\<lambda>js. Inr (\<lparr>member_id = i, m_topics = ts\<rparr> # js)))"

definition all_topics :: "joined_member list \<Rightarrow> bytes list" where
  "all_topics ms = fold (\<lambda>t ts. if t \<in> set ts then ts else ts @ [t]) (concat (map m_topics ms)) []"

definition partition_counts :: "cluster \<Rightarrow> bytes list \<Rightarrow> (bytes, int) omap" where
  "partition_counts cl ts = fold (\<lambda>t cs. case topic cl t of
     None \<Rightarrow> cs | Some ti \<Rightarrow> om_set t (int (length (partitions ti))) cs) ts []"

definition assign_all :: "bytes \<Rightarrow> joined_member list \<Rightarrow> (bytes, int) omap \<Rightarrow> (bytes \<times> bytes) list" where
  "assign_all protocol ms counts = map (\<lambda>m. (member_id m, encode_assignment
     (if protocol = str ''roundrobin'' then assign_roundrobin ms (member_id m) counts
      else assign_range ms (member_id m) counts))) ms"

definition leader_assignments :: "group_env \<Rightarrow> join_response \<Rightarrow> (bytes \<times> bytes) list group_op" where
  "leader_assignments env r = g_bind (g_await (decode_members (jr_members r))) (\<lambda>ms.
     g_bind (refresh_meta env (all_topics ms)) (\<lambda>_ s.
       (Inr (assign_all (protocol_name s) ms (partition_counts (metadata s) (all_topics ms))), s)))"

definition join_once :: "group_env \<Rightarrow> group_config \<Rightarrow> partition_map group_op" where
  "join_once env cfg = g_bind (coordinator env cfg) (\<lambda>_. g_bind (join_reply env) (\<lambda>r.
     if jr_error r \<noteq> err_none then g_throw (Broker_Error (jr_error r))
     else g_bind (g_update (\<lambda>s. s\<lparr>my_id := jr_member_id r, generation := jr_generation r,
             is_leader := (jr_leader r = jr_member_id r),
             protocol_name := (case jr_protocol r of None \<Rightarrow> strategy cfg | Some p \<Rightarrow> p)\<rparr>)) (\<lambda>_.
       g_bind (\<lambda>s. (if is_leader s then leader_assignments env r else g_return []) s) (\<lambda>as.
         g_bind (\<lambda>s. g_await (ge_sync env \<lparr>sq_generation = generation s, sq_member_id = my_id s,
             sq_assignments = as\<rparr>) s) (\<lambda>(code, blob).
           if code \<noteq> err_none then g_throw (Broker_Error code)
           else (case decode_assignment blob of
               Inl e \<Rightarrow> g_throw (Protocol_Error e) | Inr pm \<Rightarrow> g_return pm))))))"

section \<open>Heartbeat\<close>

definition forget_coordinator :: "group_state \<Rightarrow> group_state" where
  "forget_coordinator s = s\<lparr>coordinator_id := - 1\<rparr>"

definition heartbeat_answer :: "i16 \<Rightarrow> bool group_op" where
  "heartbeat_answer code =
     (if code = err_none then g_return True
      else if code \<in> set [rebalance_in_progress, illegal_generation, unknown_member_id] then
        g_bind (g_update (\<lambda>s. if code = unknown_member_id then s\<lparr>my_id := []\<rparr> else s)) (\<lambda>_. g_return False)
      else if code \<in> set [not_coordinator, coordinator_not_available] then
        g_bind (g_update forget_coordinator) (\<lambda>_. g_return False)
      else g_throw (Broker_Error code))"

definition heartbeat_once :: "group_env \<Rightarrow> group_config \<Rightarrow> bool group_op" where
  "heartbeat_once env cfg = g_bind (coordinator env cfg) (\<lambda>_.
     g_bind (g_await (ge_heartbeat env)) heartbeat_answer)"

section \<open>Offsets\<close>

definition set_offset :: "bytes \<Rightarrow> int \<Rightarrow> int \<Rightarrow> offsets \<Rightarrow> offsets" where
  "set_offset t p off out = om_set t (om_set p off (case om_find out t of None \<Rightarrow> [] | Some ps \<Rightarrow> ps)) out"

fun take_offsets :: "bytes \<Rightarrow> of_partition list \<Rightarrow> offsets \<Rightarrow> kafka_error + offsets" where
  "take_offsets t [] out = Inr out"
| "take_offsets t (p # ps) out =
     (if ofp_error p \<noteq> err_none then Inl (Broker_Error (ofp_error p))
      else take_offsets t ps (if ofp_offset p \<ge> 0 then set_offset t (ofp_index p) (ofp_offset p) out else out))"

fun take_topics :: "(of_topic \<Rightarrow> bytes) \<Rightarrow> of_topic list \<Rightarrow> offsets \<Rightarrow> kafka_error + offsets" where
  "take_topics name [] out = Inr out"
| "take_topics name (t # ts) out =
     rbind (take_offsets (name t) (oft_partitions t) out) (\<lambda>out. take_topics name ts out)"

definition of_name :: "cluster \<Rightarrow> of_topic \<Rightarrow> bytes" where
  "of_name cl t = (if oft_name t = [] then topic_name cl (oft_id t) else oft_name t)"

definition fetched_offsets :: "int \<Rightarrow> cluster \<Rightarrow> of_response \<Rightarrow> kafka_error + offsets" where
  "fetched_offsets v cl r =
     (if v \<ge> 8 then
        (case of_groups r of
           [] \<Rightarrow> Inl (Other_Error ''OffsetFetch returned no group'')
         | (e, ts) # _ \<Rightarrow> if e \<noteq> err_none then Inl (Broker_Error e) else take_topics (of_name cl) ts [])
      else if of_error r \<noteq> err_none then Inl (Broker_Error (of_error r))
      else take_topics oft_name (of_topics r) [])"

definition fetch_offsets_once :: "group_env \<Rightarrow> group_config \<Rightarrow> offsets group_op" where
  "fetch_offsets_once env cfg = g_bind (coordinator env cfg) (\<lambda>_.
     g_bind (g_await (ge_fetch env)) (\<lambda>r s. (fetched_offsets (ge_fetch_version env) (metadata s) r, s)))"

definition make_commit :: "offsets \<Rightarrow> group_state \<Rightarrow> commit_request" where
  "make_commit offs s = \<lparr>cq_generation = generation s, cq_member_id = my_id s,
     cq_topics = map (\<lambda>(t, ps). \<lparr>ct_name = t, ct_id = topic_id (metadata s) t, ct_partitions = ps\<rparr>) offs\<rparr>"

definition commit_answer :: "(int \<times> i16) list \<Rightarrow> unit group_op" where
  "commit_answer codes = (case filter (\<lambda>(p, c). c \<noteq> err_none) codes of
     [] \<Rightarrow> g_return () | (p, c) # _ \<Rightarrow> g_throw (Broker_Error c))"

definition commit_once :: "group_env \<Rightarrow> group_config \<Rightarrow> offsets \<Rightarrow> unit group_op" where
  "commit_once env cfg offs = g_bind (coordinator env cfg) (\<lambda>_.
     g_bind (\<lambda>s. g_await (ge_commit env (make_commit offs s)) s) commit_answer)"

section \<open>Leaving\<close>

definition leave :: "group_env \<Rightarrow> group_config \<Rightarrow> unit group_op" where
  "leave env cfg s =
     (if my_id s = [] then (Inr (), s)
      else case coordinator env cfg s of
        (Inl _, s) \<Rightarrow> (Inr (), s)
      | (Inr _, s) \<Rightarrow> (Inr (), s\<lparr>my_id := [], generation := - 1\<rparr>))"

section \<open>Retrying\<close>

definition retrying :: "(nat \<Rightarrow> 'a group_op) \<Rightarrow> group_state \<Rightarrow> (kafka_error + 'a) \<times> group_state \<times> int list" where
  "retrying f s = retry_loop f (\<lambda>n. g_update forget_coordinator) (int coordinator_retries) 0 200 [] s"

definition join :: "(nat \<Rightarrow> group_env) \<Rightarrow> group_config \<Rightarrow> group_state \<Rightarrow>
    (kafka_error + partition_map) \<times> group_state \<times> int list" where
  "join env cfg = retrying (\<lambda>n. join_once (env n) cfg)"

definition heartbeat :: "(nat \<Rightarrow> group_env) \<Rightarrow> group_config \<Rightarrow> group_state \<Rightarrow>
    (kafka_error + bool) \<times> group_state \<times> int list" where
  "heartbeat env cfg = retrying (\<lambda>n. heartbeat_once (env n) cfg)"

definition fetch_offsets :: "(nat \<Rightarrow> group_env) \<Rightarrow> group_config \<Rightarrow> group_state \<Rightarrow>
    (kafka_error + offsets) \<times> group_state \<times> int list" where
  "fetch_offsets env cfg = retrying (\<lambda>n. fetch_offsets_once (env n) cfg)"

definition commit :: "(nat \<Rightarrow> group_env) \<Rightarrow> group_config \<Rightarrow> offsets \<Rightarrow> group_state \<Rightarrow>
    (kafka_error + unit) \<times> group_state \<times> int list" where
  "commit env cfg offs s = (if offs = [] then (Inr (), s, []) else retrying (\<lambda>n. commit_once (env n) cfg offs) s)"

section \<open>What retrying costs\<close>

lemma pauses_200: "k \<le> 10 \<Longrightarrow> pauses 200 k = take k [200, 400, 800, 1600, 2000, 2000, 2000, 2000, 2000, 2000]"
proof -
  have all: "pauses 200 10 = [200, 400, 800, 1600, 2000, 2000, 2000, 2000, 2000, 2000]"
    by (simp add: numeral_eq_Suc next_backoff_def)
  have "pauses b k = take k (pauses b (k + j))" for b j
    by (induction k arbitrary: b) auto
  from this [of 200 "10 - k"] show "k \<le> 10 \<Longrightarrow> ?thesis" by (simp add: all)
qed

lemma pauses_200_sum: "k \<le> 10 \<Longrightarrow> sum_list (pauses 200 k) \<le> 15000"
proof -
  assume k: "k \<le> 10"
  then have "k = 0 \<or> k = 1 \<or> k = 2 \<or> k = 3 \<or> k = 4 \<or> k = 5 \<or> k = 6 \<or> k = 7 \<or> k = 8 \<or> k = 9 \<or> k = 10"
    by arith
  then show ?thesis by (elim disjE) (simp_all add: pauses_200)
qed

section \<open>Properties\<close>

text \<open> a group operation is attempted at most eleven times with at most fifteen seconds of pauses; an
  error it ends with is not retriable or came after the last attempt, and every attempt but the
  first starts with the coordinator forgotten.\<close>

theorem retrying_is_bounded:
  assumes "retrying f s = (r, s', slept)"
  shows "length slept \<le> 10 \<and> sum_list slept \<le> 15000 \<and>
    (\<exists>s0. f (length slept) s0 = (r, s') \<and> (slept = [] \<longrightarrow> s0 = s) \<and>
       (slept \<noteq> [] \<longrightarrow> coordinator_id s0 = - 1)) \<and>
    (\<forall>e. r = Inl e \<longrightarrow> \<not> retriable_error e \<or> length slept = 10)"
proof -
  obtain k where k: "slept = pauses 200 k" "int k \<le> 10"
    and last: "(\<exists>s0. f k s0 = (r, s') \<and> (k = 0 \<longrightarrow> s0 = s) \<and>
            (0 < k \<longrightarrow> (\<exists>s1. g_update forget_coordinator s1 = (Inr (), s0)))) \<and>
          (\<forall>e. r = Inl e \<longrightarrow> \<not> retriable_error e \<or> 10 \<le> int k)"
    using assms unfolding retrying_def
    by (rule retry_loop_spec) (auto simp: coordinator_retries_def g_update_def)
  then obtain s0 where s0: "f k s0 = (r, s')" "k = 0 \<longrightarrow> s0 = s" "0 < k \<longrightarrow> coordinator_id s0 = - 1"
    by (auto simp: g_update_def forget_coordinator_def)
  have "length slept = k" using k(1) by simp
  moreover have "slept = [] \<longleftrightarrow> k = 0" using k(1) by (cases k) auto
  ultimately show ?thesis
    using s0 last k pauses_200_sum [of k] by auto
qed

definition fresh_member :: group_state where
  "fresh_member = \<lparr>my_id = [], generation = 0, coordinator_id = 5, is_leader = False, protocol_name = [],
     metadata = \<lparr>brokers = [], topics = []\<rparr>\<rparr>"

definition moving_coordinator :: "nat \<Rightarrow> nat group_op" where
  "moving_coordinator n s = (if n < 2 then (Inl (Broker_Error not_coordinator), s) else (Inr n, s))"

theorem retrying_is_bounded_witness:
  "\<exists>r s slept. retrying moving_coordinator fresh_member = (r, s, slept) \<and> sum_list slept \<le> 15000 \<and>
     length slept \<le> 10"
proof -
  obtain r s slept where e: "retrying moving_coordinator fresh_member = (r, s, slept)"
    by (rule prod_cases3)
  from retrying_is_bounded [OF e] e show ?thesis by blast
qed

text \<open> what a heartbeat does with each answer: all stale-membership codes ask for a new join, only
  \<open>UNKNOWN_MEMBER_ID\<close> drops the member id, a moved coordinator is forgotten, anything else is an
  error that changes nothing.\<close>

theorem heartbeat_answers:
  "heartbeat_answer code s =
     (if code = err_none then (Inr True, s)
      else if code = unknown_member_id then (Inr False, s\<lparr>my_id := []\<rparr>)
      else if code = rebalance_in_progress \<or> code = illegal_generation then (Inr False, s)
      else if code = not_coordinator \<or> code = coordinator_not_available
        then (Inr False, s\<lparr>coordinator_id := - 1\<rparr>)
      else (Inl (Broker_Error code), s))"
  by (auto simp: heartbeat_answer_def g_defs forget_coordinator_def err_defs)

end
