(* ===== verification/Consumer.thy ===== *)
theory Consumer
  imports Group Records_Laws
begin

text \<open>
  \<open>src/kafka/consumer.cc\<close>: the offset tracker of one partition, and a consumer: its assignment, the
  next offset to fetch and a tracker for every partition, the handling of a poll's answers and
  the handover of finished offsets.  Offsets are unbounded here; the broker's stay far below
  \<open>2^63\<close>.

  \<open>poll\<close> is a coroutine: while it waits for shard 0 or for a broker, the pipeline goes on
  acknowledging records of earlier polls.  Its suspension points are the values of \<open>suspension\<close>, and
  \<open>pe_acks\<close> gives the acknowledgements that arrive at each of them; nothing else changes a consumer
  behind a poll.
\<close>

section \<open>The offset tracker\<close>

text \<open>\<open>in_flight\<close> is a \<open>std::set\<close>: an ordered map to nothing.\<close>

record offset_tracker =
  position :: int
  committed :: int
  in_flight :: "(int, unit) omap"

definition new_tracker :: offset_tracker where
  "new_tracker = \<lparr>position = - 1, committed = - 1, in_flight = []\<rparr>"

definition deliver :: "int \<Rightarrow> offset_tracker \<Rightarrow> offset_tracker" where
  "deliver off t = t\<lparr>in_flight := om_set off () (in_flight t), position := max (position t) (off + 1)\<rparr>"

definition ack_offset :: "int \<Rightarrow> offset_tracker \<Rightarrow> offset_tracker" where
  "ack_offset off t = t\<lparr>in_flight := om_remove off (in_flight t)\<rparr>"

definition committable :: "offset_tracker \<Rightarrow> int option" where
  "committable t =
     (let nxt = (case in_flight t of [] \<Rightarrow> position t | (off, _) # _ \<Rightarrow> off)
      in if nxt < 0 then None else if nxt \<le> committed t then None else Some nxt)"

definition mark_committed :: "int \<Rightarrow> offset_tracker \<Rightarrow> offset_tracker" where
  "mark_committed off t = t\<lparr>committed := off, position := max (position t) off\<rparr>"

subsection \<open>The history of a partition\<close>

datatype tracker_event = Deliver int | Ack int | Commit

text \<open>\<open>Commit\<close> is what \<open>commit_acked\<close> does with a tracker.\<close>

fun tracker_step :: "tracker_event \<Rightarrow> offset_tracker \<Rightarrow> offset_tracker" where
  "tracker_step (Deliver off) t = deliver off t"
| "tracker_step (Ack off) t = ack_offset off t"
| "tracker_step Commit t = (case committable t of None \<Rightarrow> t | Some off \<Rightarrow> mark_committed off t)"

text \<open>Offsets delivered and not acknowledged since: an acknowledgement ends the delivery before it.\<close>

fun unfinished :: "tracker_event list \<Rightarrow> int set" where
  "unfinished [] = {}"
| "unfinished (Deliver off # evs) = (if Ack off \<in> set evs then {} else {off}) \<union> unfinished evs"
| "unfinished (_ # evs) = unfinished evs"

lemma unfinished_snoc:
  "unfinished (evs @ [ev]) = (case ev of Deliver off \<Rightarrow> insert off (unfinished evs)
     | Ack off \<Rightarrow> unfinished evs - {off} | Commit \<Rightarrow> unfinished evs)"
  by (induction evs rule: unfinished.induct) (auto split: tracker_event.splits)

definition delivered_offsets :: "tracker_event list \<Rightarrow> int set" where
  "delivered_offsets evs = {off. Deliver off \<in> set evs}"

definition run_tracker :: "tracker_event list \<Rightarrow> int \<Rightarrow> offset_tracker" where
  "run_tracker evs resume = fold tracker_step evs
     (if resume < 0 then new_tracker else mark_committed resume new_tracker)"

text \<open>The oldest unfinished offset, or what comes after everything that was delivered.\<close>

definition resume_point :: "int \<Rightarrow> tracker_event list \<Rightarrow> int \<Rightarrow> bool" where
  "resume_point resume evs n \<longleftrightarrow>
     (if unfinished evs = {} then n = Max (insert resume ((+) 1 ` delivered_offsets evs))
      else n = Min (unfinished evs))"

definition tracker_inv :: "int \<Rightarrow> tracker_event list \<Rightarrow> offset_tracker \<Rightarrow> bool" where
  "tracker_inv resume evs t \<longleftrightarrow> om_sorted (in_flight t) \<and> fst ` set (in_flight t) = unfinished evs \<and>
     position t = Max (insert resume ((+) 1 ` delivered_offsets evs)) \<and> committed t \<le> position t"

lemma finite_delivered: "finite (delivered_offsets evs)"
proof -
  have "delivered_offsets evs \<subseteq> (\<lambda>ev. case ev of Deliver off \<Rightarrow> off | _ \<Rightarrow> 0) ` set evs"
    by (force simp: delivered_offsets_def image_iff)
  then show ?thesis by (rule finite_subset) simp
qed

lemma unfinished_subset: "unfinished evs \<subseteq> delivered_offsets evs"
  by (induction evs rule: unfinished.induct) (auto simp: delivered_offsets_def)

lemma om_sorted_hd:
  assumes "om_sorted e" and "e = (k, v) # r"
  shows "k = Min (fst ` set e)"
proof -
  have "\<forall>j\<in>fst ` set r. k < j" using assms by simp
  then have "Min (insert k (fst ` set r)) = k"
    by (intro Min_eqI) (auto intro: less_imp_le)
  then show ?thesis using assms(2) by simp
qed

lemma committable_bound:
  assumes "tracker_inv resume evs t" and "committable t = Some n"
  shows "resume_point resume evs n" and "n \<le> position t" and "committed t < n"
proof -
  have nxt: "n = (case in_flight t of [] \<Rightarrow> position t | (off, _) # _ \<Rightarrow> off)" and c: "committed t < n"
    using assms(2) by (auto simp: committable_def Let_def split: if_splits)
  show "committed t < n" by (rule c)
  have fl: "fst ` set (in_flight t) = unfinished evs" and srt: "om_sorted (in_flight t)"
    and pos: "position t = Max (insert resume ((+) 1 ` delivered_offsets evs))"
    using assms(1) by (auto simp: tracker_inv_def)
  have "resume_point resume evs n \<and> n \<le> position t"
  proof (cases "in_flight t")
    case Nil
    then have "unfinished evs = {}" using fl by auto
    with Nil nxt pos show ?thesis by (simp add: resume_point_def)
  next
    case (Cons p r)
    obtain off u where p: "p = (off, u)" by (cases p)
    have n: "n = off" using nxt Cons p by simp
    have "off = Min (unfinished evs)" using om_sorted_hd [OF srt] Cons p fl by metis
    moreover have off: "off \<in> unfinished evs" using fl Cons p by force
    moreover have "off + 1 \<le> position t"
    proof -
      have "off \<in> delivered_offsets evs" using off unfinished_subset by blast
      then show ?thesis unfolding pos by (intro Max_ge) (auto simp: finite_delivered)
    qed
    ultimately show ?thesis using n by (auto simp: resume_point_def)
  qed
  then show "resume_point resume evs n" "n \<le> position t" by simp_all
qed

lemma tracker_inv_step:
  assumes inv: "tracker_inv resume evs t"
  shows "tracker_inv resume (evs @ [ev]) (tracker_step ev t)"
proof (cases ev)
  case (Deliver off)
  have d: "delivered_offsets (evs @ [Deliver off]) = insert off (delivered_offsets evs)"
    by (auto simp: delivered_offsets_def)
  have "Max (insert resume (insert (1 + off) ((+) 1 ` delivered_offsets evs))) =
      max (Max (insert resume ((+) 1 ` delivered_offsets evs))) (off + 1)"
    by (simp add: finite_delivered insert_commute Max_insert max.commute add.commute del: Max_insert)
       (simp add: finite_delivered max.commute add.commute insert_commute [of resume])
  with inv Deliver d show ?thesis
    by (auto simp: tracker_inv_def deliver_def unfinished_snoc om_sorted_set keys_om_set)
next
  case (Ack off)
  have "delivered_offsets (evs @ [Ack off]) = delivered_offsets evs" by (auto simp: delivered_offsets_def)
  with inv Ack show ?thesis
    by (auto simp: tracker_inv_def ack_offset_def unfinished_snoc om_sorted_remove keys_om_remove)
next
  case Commit
  have d: "delivered_offsets (evs @ [Commit]) = delivered_offsets evs" by (auto simp: delivered_offsets_def)
  show ?thesis
  proof (cases "committable t")
    case None
    with inv Commit d show ?thesis by (auto simp: tracker_inv_def unfinished_snoc)
  next
    case (Some n)
    from committable_bound [OF inv Some] inv Commit d Some show ?thesis
      by (auto simp: tracker_inv_def mark_committed_def unfinished_snoc)
  qed
qed

lemma tracker_inv_run: "- 1 \<le> resume \<Longrightarrow> tracker_inv resume evs (run_tracker evs resume)"
proof (induction evs rule: rev_induct)
  case Nil
  then show ?case
    by (auto simp: run_tracker_def tracker_inv_def new_tracker_def mark_committed_def delivered_offsets_def)
next
  case (snoc ev evs)
  then show ?case
    using tracker_inv_step [of resume evs "run_tracker evs resume" ev] by (simp add: run_tracker_def)
qed

section \<open>A consumer\<close>

record fetched_record =
  fr_topic :: bytes
  fr_partition :: int
  fr_offset :: int
  fr_timestamp :: i64
  fr_key :: "bytes option"
  fr_value :: bytes
  fr_headers :: "record_header list"

record consumer_config =
  cc_group :: bytes
  cc_topics :: "bytes list"
  cc_start_from_oldest :: bool

type_synonym trackers = "(bytes, (int, offset_tracker) omap) omap"

record consumer =
  cn_cluster :: cluster
  cn_generation :: int
  cn_assignment :: partition_map
  cn_next :: offsets
  cn_tracked :: trackers
  cn_started :: bool
  cn_needs_rejoin :: bool
  cn_needs_refresh :: bool

record shard_assignment =
  sa_generation :: int
  sa_partitions :: partition_map
  sa_committed :: offsets

text \<open>Two-level lookups, as \<open>m[topic][partition]\<close>.\<close>

definition find2 :: "(bytes, (int, 'v) omap) omap \<Rightarrow> bytes \<Rightarrow> int \<Rightarrow> 'v option" where
  "find2 m t p = (case om_find m t of None \<Rightarrow> None | Some ps \<Rightarrow> om_find ps p)"

definition set2 :: "bytes \<Rightarrow> int \<Rightarrow> 'v \<Rightarrow> (bytes, (int, 'v) omap) omap \<Rightarrow> (bytes, (int, 'v) omap) omap" where
  "set2 t p v m = om_set t (om_set p v (case om_find m t of None \<Rightarrow> [] | Some ps \<Rightarrow> ps)) m"

definition pairs_of :: "partition_map \<Rightarrow> (bytes \<times> int) list" where
  "pairs_of a = concat (map (\<lambda>(t, ps). map (\<lambda>p. (t, p)) ps) a)"

definition next_of :: "consumer \<Rightarrow> bytes \<Rightarrow> int \<Rightarrow> int" where
  "next_of c t p = (case find2 (cn_next c) t p of None \<Rightarrow> 0 | Some n \<Rightarrow> n)"

definition tracker_of :: "consumer \<Rightarrow> bytes \<Rightarrow> int \<Rightarrow> offset_tracker" where
  "tracker_of c t p = (case find2 (cn_tracked c) t p of None \<Rightarrow> new_tracker | Some tr \<Rightarrow> tr)"

definition set_next :: "bytes \<Rightarrow> int \<Rightarrow> int \<Rightarrow> consumer \<Rightarrow> consumer" where
  "set_next t p n c = c\<lparr>cn_next := set2 t p n (cn_next c)\<rparr>"

definition set_tracker :: "bytes \<Rightarrow> int \<Rightarrow> offset_tracker \<Rightarrow> consumer \<Rightarrow> consumer" where
  "set_tracker t p tr c = c\<lparr>cn_tracked := set2 t p tr (cn_tracked c)\<rparr>"

definition ensure_trackers :: "consumer \<Rightarrow> consumer" where
  "ensure_trackers c = fold (\<lambda>(t, p) c. set_tracker t p (tracker_of c t p) c) (pairs_of (cn_assignment c)) c"

subsection \<open>Acknowledgements\<close>

definition ack :: "bytes \<Rightarrow> int \<Rightarrow> int \<Rightarrow> consumer \<Rightarrow> consumer" where
  "ack t p off c = (case find2 (cn_tracked c) t p of
     None \<Rightarrow> c | Some tr \<Rightarrow> set_tracker t p (ack_offset off tr) c)"

definition ack_all :: "(bytes \<times> int \<times> int) list \<Rightarrow> consumer \<Rightarrow> consumer" where
  "ack_all acks c = fold (\<lambda>(t, p, off). ack t p off) acks c"

subsection \<open>What a poll meets\<close>

text \<open>
  The answers of the brokers, of shard 0 and of the abort source.  \<open>ListOffsets\<close> answers for a
  topic, a node, the timestamp asked for and the partitions.
\<close>

type_synonym list_offsets = "bytes \<Rightarrow> int \<Rightarrow> int \<Rightarrow> int list \<Rightarrow> kafka_error + (bytes \<times> int \<times> i16 \<times> int) list"

record partition_answer =
  pa_index :: int
  pa_error :: i16
  pa_records :: "bytes option"

record topic_answer =
  ta_name :: bytes
  ta_id :: uuid
  ta_partitions :: "partition_answer list"

record fetch_response =
  fe_error :: i16
  fe_topics :: "topic_answer list"

text \<open>
  Where a poll waits: for shard 0 to take an offer or to answer an attach, for the connection and the
  answer of a leader asked for start offsets or for records, for the metadata, or for nothing at all.
\<close>

datatype suspension = Offering | Attaching | Listing bytes int | Connecting int | Fetching int | Refreshing | Idling

type_synonym acked = "(bytes \<times> int \<times> int) list"

record poll_env =
  pe_generation :: int
  pe_aborted_first :: bool
  pe_acks :: "suspension \<Rightarrow> acked"
  pe_attach :: "kafka_error + shard_assignment"
  pe_list :: list_offsets
  pe_metadata :: "kafka_error + metadata_response"
  pe_aborted :: "int \<Rightarrow> bool"
  pe_connected :: "int \<Rightarrow> bool"
  pe_fetch :: "int \<Rightarrow> (bytes \<times> int \<times> int) list \<Rightarrow> kafka_error + fetch_response"
  pe_cpu :: cpu
  pe_codecs :: codec_lib

subsection \<open>Where to start\<close>

text \<open>
  The leader of a partition in the cached metadata.
\<close>

definition leader_of :: "cluster \<Rightarrow> bytes \<Rightarrow> int \<Rightarrow> int option" where
  "leader_of cl t p = (case topic cl t of None \<Rightarrow> None
     | Some ti \<Rightarrow> (case find_partition (partitions ti) p of None \<Rightarrow> None
       | Some pi \<Rightarrow> if leader pi < 0 then None else Some (leader pi)))"

definition push_node :: "int \<Rightarrow> 'v \<Rightarrow> (int, 'v list) omap \<Rightarrow> (int, 'v list) omap" where
  "push_node n v m = om_set n ((case om_find m n of None \<Rightarrow> [] | Some vs \<Rightarrow> vs) @ [v]) m"

definition by_leader :: "(bytes \<Rightarrow> int \<Rightarrow> int option) \<Rightarrow> (bytes \<times> int) list \<Rightarrow> (int, (bytes \<times> int) list) omap" where
  "by_leader lead tps = fold (\<lambda>(t, p) m. case lead t p of None \<Rightarrow> m | Some n \<Rightarrow> push_node n (t, p) m) tps []"

fun take_listed :: "(bytes \<times> int \<times> i16 \<times> int) list \<Rightarrow> consumer \<Rightarrow> (kafka_error + unit) \<times> consumer" where
  "take_listed [] c = (Inr (), c)"
| "take_listed ((t, p, code, off) # rs) c =
     (if code \<noteq> err_none then (Inl (Broker_Error code), c) else take_listed rs (set_next t p off c))"

fun ask_leaders :: "poll_env \<Rightarrow> bytes \<Rightarrow> int \<Rightarrow> (int \<times> (bytes \<times> int) list) list \<Rightarrow> consumer \<Rightarrow>
    (kafka_error + unit) \<times> consumer" where
  "ask_leaders env t want [] c = (Inr (), c)"
| "ask_leaders env t want ((n, tps) # ls) c =
     (let c = ack_all (pe_acks env (Listing t n)) c
      in case pe_list env t n want (map snd tps) of
        Inl e \<Rightarrow> (Inl e, c)
      | Inr rs \<Rightarrow> (case take_listed rs c of (Inl e, c) \<Rightarrow> (Inl e, c) | (Inr _, c) \<Rightarrow> ask_leaders env t want ls c))"

text \<open>\<open>_next[topic]\<close> leaves an empty entry behind.\<close>

definition touch_next :: "bytes \<Rightarrow> consumer \<Rightarrow> consumer" where
  "touch_next t c = c\<lparr>cn_next := om_emplace t [] (cn_next c)\<rparr>"

fun resolve_topics :: "poll_env \<Rightarrow> int \<Rightarrow> partition_map \<Rightarrow> consumer \<Rightarrow> (kafka_error + unit) \<times> consumer" where
  "resolve_topics env want [] c = (Inr (), c)"
| "resolve_topics env want ((t, ps) # as) c =
     (let need = filter (\<lambda>p. case find2 (cn_next c) t p of None \<Rightarrow> True | Some n \<Rightarrow> n < 0) ps;
          c = (if ps = [] then c else touch_next t c)
      in case ask_leaders env t want (by_leader (leader_of (cn_cluster c)) (map (\<lambda>p. (t, p)) need)) c of
        (Inl e, c) \<Rightarrow> (Inl e, c)
      | (Inr _, c) \<Rightarrow> resolve_topics env want as c)"

definition resolve_start_offsets :: "poll_env \<Rightarrow> consumer_config \<Rightarrow> consumer \<Rightarrow> (kafka_error + unit) \<times> consumer" where
  "resolve_start_offsets env cfg c =
     resolve_topics env (if cc_start_from_oldest cfg then - 2 else - 1) (cn_assignment c) c"

definition resume_partition :: "offsets \<Rightarrow> bytes \<times> int \<Rightarrow> consumer \<Rightarrow> consumer" where
  "resume_partition comm = (\<lambda>(t, p) c. case find2 comm t p of
     Some off \<Rightarrow> set_tracker t p (mark_committed off (tracker_of c t p)) (set_next t p off c)
   | None \<Rightarrow> set_next t p (- 1) c)"

definition rejoin :: "poll_env \<Rightarrow> consumer_config \<Rightarrow> consumer \<Rightarrow> (kafka_error + unit) \<times> consumer" where
  "rejoin env cfg c =
     (let c = ack_all (pe_acks env Attaching) c
      in case pe_attach env of
        Inl e \<Rightarrow> (Inl e, c)
      | Inr a \<Rightarrow>
          (let c = c\<lparr>cn_assignment := sa_partitions a, cn_generation := sa_generation a, cn_next := [], cn_tracked := []\<rparr>;
               c = fold (resume_partition (sa_committed a)) (pairs_of (sa_partitions a)) c
           in case resolve_start_offsets env cfg c of
             (Inl e, c) \<Rightarrow> (Inl e, c)
           | (Inr _, c) \<Rightarrow> (Inr (), (ensure_trackers c)\<lparr>cn_needs_rejoin := False\<rparr>)))"

subsection \<open>Handing over\<close>

definition finished_offsets :: "consumer \<Rightarrow> offsets" where
  "finished_offsets c = fold (\<lambda>(t, ps) out. fold (\<lambda>(p, tr) out.
     case committable tr of None \<Rightarrow> out | Some off \<Rightarrow> set2 t p off out) ps out) (cn_tracked c) []"

text \<open>
  The offsets offered to shard 0, with the trackers marked after the offer has been taken.  Without
  an offset to offer nothing is sent and nothing waited for.
\<close>

definition mark_all :: "offsets \<Rightarrow> consumer \<Rightarrow> consumer" where
  "mark_all fin c = fold (\<lambda>(t, ps) c. fold (\<lambda>(p, off) c.
     set_tracker t p (mark_committed off (tracker_of c t p)) c) ps c) fin c"

definition commit_acked :: "poll_env \<Rightarrow> consumer_config \<Rightarrow> consumer \<Rightarrow> offsets \<times> consumer" where
  "commit_acked env cfg c =
     (if cc_group cfg = [] then ([], c)
      else let fin = finished_offsets c
           in if fin = [] then ([], c)
              else (fin, mark_all fin (ack_all (pe_acks env Offering) c)))"

section \<open>A poll\<close>

text \<open>The locals of \<open>poll\<close>: \<open>pending\<close> is the first error, held back.\<close>

record poll_state =
  ps_consumer :: consumer
  ps_out :: "fetched_record list"
  ps_pending :: "kafka_error option"
  ps_stale :: bool
  ps_hard :: bool

definition hold :: "kafka_error \<Rightarrow> poll_state \<Rightarrow> poll_state" where
  "hold e st = (if ps_pending st = None then st\<lparr>ps_pending := Some e\<rparr> else st)"

definition mark_stale :: "poll_state \<Rightarrow> poll_state" where
  "mark_stale st = st\<lparr>ps_stale := True\<rparr>"

text \<open>\<open>_next[topic][p]\<close> read through \<open>operator[]\<close>: a missing entry becomes 0.\<close>

definition read_next :: "bytes \<Rightarrow> int \<Rightarrow> consumer \<Rightarrow> consumer" where
  "read_next t p c = set_next t p (next_of c t p) c"

definition skip_marker :: "bytes \<Rightarrow> int \<Rightarrow> int \<Rightarrow> consumer \<Rightarrow> consumer" where
  "skip_marker t p off c = (if off \<ge> next_of c t p then set_next t p (off + 1) c else read_next t p c)"

definition take_record :: "bytes \<Rightarrow> int \<Rightarrow> record_batch \<Rightarrow> nat \<Rightarrow> poll_state \<Rightarrow> poll_state" where
  "take_record t p b i st =
     (let off = sint (offset_of b i); r = records b ! i; c = ps_consumer st
      in if off < next_of c t p then st\<lparr>ps_consumer := read_next t p c\<rparr>
         else st\<lparr>ps_out := ps_out st @ [\<lparr>fr_topic = t, fr_partition = p, fr_offset = off,
                  fr_timestamp = base_timestamp b + timestamp_delta r, fr_key = rec_key r,
                  fr_value = (case rec_value r of None \<Rightarrow> [] | Some v \<Rightarrow> v), fr_headers = rec_headers r\<rparr>],
                ps_consumer := set_tracker t p (deliver off (tracker_of c t p)) (set_next t p (off + 1) c)\<rparr>)"

definition take_batch :: "bytes \<Rightarrow> int \<Rightarrow> record_batch \<Rightarrow> poll_state \<Rightarrow> poll_state" where
  "take_batch t p b st =
     (if control b
      then st\<lparr>ps_consumer := fold (\<lambda>i. skip_marker t p (sint (offset_of b i))) [0..<length (records b)] (ps_consumer st)\<rparr>
      else fold (take_record t p b) [0..<length (records b)] st)"

text \<open>
  The loops over partitions, topics and leaders.  The first component is an exception that leaves
  \<open>poll\<close>: \<open>decode_batches\<close> is not guarded.
\<close>

fun take_partitions :: "poll_env \<Rightarrow> bytes \<Rightarrow> partition_answer list \<Rightarrow> poll_state \<Rightarrow> kafka_error option \<times> poll_state" where
  "take_partitions env t [] st = (None, st)"
| "take_partitions env t (a # as) st =
     (if pa_error a = offset_out_of_range then
        take_partitions env t as (mark_stale (st\<lparr>ps_consumer := set_next t (pa_index a) (- 1) (ps_consumer st)\<rparr>))
      else if pa_error a \<noteq> err_none then
        (if is_retriable (pa_error a) then take_partitions env t as (mark_stale st)
         else (None, (hold (Broker_Error (pa_error a)) st)\<lparr>ps_hard := True\<rparr>))
      else (case pa_records a of
          None \<Rightarrow> take_partitions env t as st
        | Some blob \<Rightarrow>
            if blob = [] then take_partitions env t as st
            else (case decode_batches (pe_cpu env) (pe_codecs env) blob of
                Inl e \<Rightarrow> (Some (Protocol_Error e), st)
              | Inr bs \<Rightarrow> take_partitions env t as (fold (take_batch t (pa_index a)) bs st))))"

fun take_topic_answers :: "poll_env \<Rightarrow> topic_answer list \<Rightarrow> poll_state \<Rightarrow> kafka_error option \<times> poll_state" where
  "take_topic_answers env [] st = (None, st)"
| "take_topic_answers env (a # as) st =
     (let name = (if ta_name a = [] then topic_name (cn_cluster (ps_consumer st)) (ta_id a) else ta_name a)
      in if name = [] then take_topic_answers env as (mark_stale st)
         else (case take_partitions env name (ta_partitions a) st of
             (Some e, st) \<Rightarrow> (Some e, st)
           | (None, st) \<Rightarrow> take_topic_answers env as st))"

definition wait_at :: "poll_env \<Rightarrow> suspension \<Rightarrow> poll_state \<Rightarrow> poll_state" where
  "wait_at env s st = st\<lparr>ps_consumer := ack_all (pe_acks env s) (ps_consumer st)\<rparr>"

text \<open>The request for a leader: a topic, a partition and the offset wanted, for each of its partitions.\<close>

definition read_positions :: "(bytes \<times> int) list \<Rightarrow> poll_state \<Rightarrow> poll_state" where
  "read_positions tps st = st\<lparr>ps_consumer := fold (\<lambda>(t, p). read_next t p) tps (ps_consumer st)\<rparr>"

fun take_leaders :: "poll_env \<Rightarrow> (int \<times> (bytes \<times> int) list) list \<Rightarrow> poll_state \<Rightarrow> kafka_error option \<times> poll_state" where
  "take_leaders env [] st = (None, st)"
| "take_leaders env ((n, tps) # ls) st =
     (if pe_aborted env n \<or> ps_hard st then (None, st)
      else let st = wait_at env (Connecting n) st
      in if \<not> pe_connected env n then take_leaders env ls (mark_stale st)
      else let req = map (\<lambda>(t, p). (t, p, next_of (ps_consumer st) t p)) tps;
               st = wait_at env (Fetching n) (read_positions tps st)
      in (case pe_fetch env n req of
          Inl e \<Rightarrow> take_leaders env ls (mark_stale (hold e st))
        | Inr r \<Rightarrow>
            if fe_error r \<noteq> err_none then
              (if is_retriable (fe_error r) then take_leaders env ls (mark_stale st)
               else (None, hold (Broker_Error (fe_error r)) st))
            else (case take_topic_answers env (fe_topics r) st of
                (Some e, st) \<Rightarrow> (Some e, st)
              | (None, st) \<Rightarrow> take_leaders env ls st)))"

definition refresh_positions :: "poll_env \<Rightarrow> consumer_config \<Rightarrow> consumer \<Rightarrow> (kafka_error + unit) \<times> consumer" where
  "refresh_positions env cfg c =
     (let c = ack_all (pe_acks env Refreshing) c
      in case pe_metadata env of
        Inl e \<Rightarrow> (Inl e, c)
      | Inr r \<Rightarrow> resolve_start_offsets env cfg (c\<lparr>cn_cluster := do_refresh r (cn_cluster c)\<rparr>))"

definition end_of_poll :: "poll_env \<Rightarrow> consumer_config \<Rightarrow> poll_state \<Rightarrow> poll_state" where
  "end_of_poll env cfg st =
     (if ps_stale st \<or> cn_needs_refresh (ps_consumer st) then
        (case refresh_positions env cfg (ps_consumer st) of
           (Inr _, c) \<Rightarrow> st\<lparr>ps_consumer := c\<lparr>cn_needs_refresh := False\<rparr>\<rparr>
         | (Inl e, c) \<Rightarrow>
             (let st = st\<lparr>ps_consumer := c\<lparr>cn_needs_refresh := True\<rparr>\<rparr>
              in if ps_out st = [] then hold e st else st))
      else st)"

definition check_generation :: "int \<Rightarrow> consumer_config \<Rightarrow> consumer \<Rightarrow> consumer" where
  "check_generation g cfg c =
     (if cc_group cfg = [] then c else if g \<noteq> cn_generation c then c\<lparr>cn_needs_rejoin := True\<rparr> else c)"

definition fetch_round :: "poll_env \<Rightarrow> consumer_config \<Rightarrow> consumer \<Rightarrow> (kafka_error + fetched_record list) \<times> consumer" where
  "fetch_round env cfg c =
     (let ls = by_leader (leader_of (cn_cluster c)) (pairs_of (cn_assignment c))
      in if ls = [] then (Inr [], ack_all (pe_acks env Idling) c)
         else (case take_leaders env ls
               \<lparr>ps_consumer = c, ps_out = [], ps_pending = None, ps_stale = False, ps_hard = False\<rparr> of
             (Some e, st) \<Rightarrow> (Inl e, ps_consumer st)
           | (None, st) \<Rightarrow>
               (let st = end_of_poll env cfg st
                in case ps_pending st of
                  Some e \<Rightarrow> if ps_out st = [] then (Inl e, ps_consumer st) else (Inr (ps_out st), ps_consumer st)
                | None \<Rightarrow> (Inr (ps_out st), ps_consumer st))))"

text \<open>The offsets handed over come with the result.\<close>

definition poll :: "poll_env \<Rightarrow> consumer_config \<Rightarrow> consumer \<Rightarrow>
    (kafka_error + fetched_record list) \<times> offsets \<times> consumer" where
  "poll env cfg c =
     (if \<not> cn_started c \<or> pe_aborted_first env then (Inr [], [], c)
      else let c = check_generation (pe_generation env) cfg c
           in if cn_needs_rejoin c
              then (case commit_acked env cfg c of (offs, c) \<Rightarrow> (case rejoin env cfg c of
                  (Inl e, c) \<Rightarrow> (Inl e, offs, c) | (Inr _, c) \<Rightarrow> (Inr [], offs, c)))
              else (case commit_acked env cfg c of (offs, c) \<Rightarrow>
                  (case fetch_round env cfg c of (r, c) \<Rightarrow> (r, offs, c))))"

section \<open>Delivered means tracked\<close>

definition flying :: "consumer \<Rightarrow> bytes \<Rightarrow> int \<Rightarrow> int set" where
  "flying c t p = fst ` set (in_flight (tracker_of c t p))"

definition sorted2 :: "(bytes, (int, 'v) omap) omap \<Rightarrow> bool" where
  "sorted2 m \<longleftrightarrow> om_sorted m \<and> (\<forall>t ps. om_find m t = Some ps \<longrightarrow> om_sorted ps)"

lemma sorted2_set2: "sorted2 m \<Longrightarrow> sorted2 (set2 t p v m)"
  by (auto simp: sorted2_def set2_def om_sorted_set om_find_set split: option.split)

lemma find2_set2:
  "sorted2 m \<Longrightarrow> find2 (set2 t p v m) u q = (if u = t \<and> q = p then Some v else find2 m u q)"
  by (auto simp: sorted2_def find2_def set2_def om_find_set split: option.split)

abbreviation tracked_ok :: "consumer \<Rightarrow> bool" where
  "tracked_ok c \<equiv> sorted2 (cn_tracked c)"

lemma tracker_of_set_tracker:
  "tracked_ok c \<Longrightarrow> tracker_of (set_tracker t p tr c) u q = (if u = t \<and> q = p then tr else tracker_of c u q)"
  by (simp add: tracker_of_def set_tracker_def find2_set2)

lemma tracked_set_tracker: "tracked_ok c \<Longrightarrow> tracked_ok (set_tracker t p tr c)"
  by (simp add: set_tracker_def sorted2_set2)

lemma set_next_tracked [simp]: "cn_tracked (set_next t p n c) = cn_tracked c"
  by (simp add: set_next_def)

lemma flying_cong: "cn_tracked c = cn_tracked d \<Longrightarrow> flying c = flying d"
  by (simp add: flying_def tracker_of_def fun_eq_iff)

lemma flying_set_next [simp]: "flying (set_next t p n c) = flying c"
  by (rule flying_cong) simp

lemma tracker_of_set_next [simp]: "tracker_of (set_next t p n c) = tracker_of c"
  by (simp add: tracker_of_def fun_eq_iff)

lemma flying_deliver:
  "tracked_ok c \<Longrightarrow> flying (set_tracker t p (deliver off (tracker_of c t p)) c) u q =
     (if u = t \<and> q = p then insert off (flying c t p) else flying c u q)"
  by (simp add: flying_def tracker_of_set_tracker deliver_def keys_om_set)

definition records_at :: "fetched_record list \<Rightarrow> bytes \<Rightarrow> int \<Rightarrow> int set" where
  "records_at out t p = fr_offset ` {r \<in> set out. fr_topic r = t \<and> fr_partition r = p}"

text \<open>
  The offsets acknowledged while the poll waits.  \<open>c0\<close> is the consumer before the poll and \<open>out\<close> what
  it hands out: nothing else is tracked, and everything else still is unless it was acknowledged.
\<close>

definition acked_at :: "poll_env \<Rightarrow> bytes \<Rightarrow> int \<Rightarrow> int set" where
  "acked_at env t p = {off. \<exists>s. (t, p, off) \<in> set (pe_acks env s)}"

definition accounted :: "poll_env \<Rightarrow> consumer \<Rightarrow> fetched_record list \<Rightarrow> consumer \<Rightarrow> bool" where
  "accounted env c0 out c \<longleftrightarrow> tracked_ok c \<and> (\<forall>t p.
     flying c t p \<subseteq> flying c0 t p \<union> records_at out t p \<and>
     flying c0 t p \<union> records_at out t p \<subseteq> flying c t p \<union> acked_at env t p)"

abbreviation poll_inv :: "poll_env \<Rightarrow> consumer \<Rightarrow> poll_state \<Rightarrow> bool" where
  "poll_inv env c0 st \<equiv> accounted env c0 (ps_out st) (ps_consumer st)"

lemma accounted_cong: "accounted env c0 out c \<Longrightarrow> cn_tracked d = cn_tracked c \<Longrightarrow> accounted env c0 out d"
  using flying_cong [of d c] by (simp add: accounted_def)

lemma remove_bounds: "fst ` set e - {k} \<subseteq> fst ` set (om_remove k e) \<and> fst ` set (om_remove k e) \<subseteq> fst ` set e"
proof (induction e)
  case (Cons a e)
  then show ?case by (cases a; cases "fst a < k"; cases "fst a = k") auto
qed simp

lemma accounted_refl: "tracked_ok c \<Longrightarrow> accounted env c [] c"
  by (simp add: accounted_def records_at_def)

lemma flying_ack_eq:
  "tracked_ok c \<Longrightarrow> flying (ack t p off c) u q =
     (if u = t \<and> q = p then fst ` set (om_remove off (in_flight (tracker_of c t p))) else flying c u q)"
  by (auto simp: ack_def flying_def tracker_of_set_tracker ack_offset_def tracker_of_def [of c t p] new_tracker_def
      split: option.split)

lemma flying_ack:
  assumes "tracked_ok c"
  shows "flying (ack t p off c) u q \<subseteq> flying c u q"
    and "flying c u q \<subseteq> flying (ack t p off c) u q \<union> (if u = t \<and> q = p then {off} else {})"
  using remove_bounds [where k = off and e = "in_flight (tracker_of c t p)"]
  unfolding flying_ack_eq [OF assms] by (auto simp: flying_def)

lemma tracked_ack: "tracked_ok c \<Longrightarrow> tracked_ok (ack t p off c)"
  by (simp add: ack_def tracked_set_tracker split: option.split)

lemma accounted_ack:
  assumes "accounted env c0 out c" and "off \<in> acked_at env t p"
  shows "accounted env c0 out (ack t p off c)"
proof -
  have ok: "tracked_ok c" using assms(1) by (simp add: accounted_def)
  have "flying (ack t p off c) u q \<subseteq> flying c0 u q \<union> records_at out u q \<and>
      flying c0 u q \<union> records_at out u q \<subseteq> flying (ack t p off c) u q \<union> acked_at env u q" for u q
  proof -
    have "(if u = t \<and> q = p then {off} else {}) \<subseteq> acked_at env u q" using assms(2) by auto
    moreover have "flying c u q \<subseteq> flying c0 u q \<union> records_at out u q"
      "flying c0 u q \<union> records_at out u q \<subseteq> flying c u q \<union> acked_at env u q"
      using assms(1) by (auto simp: accounted_def)
    ultimately show ?thesis
      using flying_ack [OF ok, where t = t and p = p and off = off and u = u and q = q] by blast
  qed
  then show ?thesis using tracked_ack [OF ok] by (simp add: accounted_def)
qed

lemma accounted_acks: "accounted env c0 out c \<Longrightarrow> accounted env c0 out (ack_all (pe_acks env s) c)"
  unfolding ack_all_def
  by (rule fold_keeps_mem) (auto intro!: accounted_ack simp: acked_at_def)

lemma records_at_snoc:
  "records_at (out @ [r]) u q = (if u = fr_topic r \<and> q = fr_partition r
     then insert (fr_offset r) (records_at out u q) else records_at out u q)"
  by (auto simp: records_at_def)

lemma read_next_tracked [simp]: "cn_tracked (read_next t p c) = cn_tracked c"
  by (simp add: read_next_def)

lemma poll_inv_keep:
  "poll_inv env c0 st \<Longrightarrow> cn_tracked (ps_consumer st') = cn_tracked (ps_consumer st) \<Longrightarrow> ps_out st' = ps_out st \<Longrightarrow>
   poll_inv env c0 st'"
  using accounted_cong [of env c0 "ps_out st" "ps_consumer st" "ps_consumer st'"] by simp

lemma hold_simps [simp]: "ps_out (hold e st) = ps_out st" "ps_consumer (hold e st) = ps_consumer st"
  by (simp_all add: hold_def)

lemma mark_stale_simps [simp]: "ps_out (mark_stale st) = ps_out st" "ps_consumer (mark_stale st) = ps_consumer st"
  by (simp_all add: mark_stale_def)

lemma poll_inv_wait: "poll_inv env c0 st \<Longrightarrow> poll_inv env c0 (wait_at env s st)"
  by (simp add: wait_at_def accounted_acks)

lemma poll_inv_record: "poll_inv env c0 st \<Longrightarrow> poll_inv env c0 (take_record t p b i st)"
proof (cases "sint (offset_of b i) < next_of (ps_consumer st) t p")
  case False
  let ?off = "sint (offset_of b i)"
  let ?c = "set_next t p (?off + 1) (ps_consumer st)"
  assume inv: "poll_inv env c0 st"
  then have ok: "tracked_ok ?c" by (simp add: accounted_def)
  from inv False flying_deliver [OF ok, of t p ?off] tracked_set_tracker [OF ok]
  show ?thesis
    by (simp add: accounted_def take_record_def Let_def records_at_snoc) blast
qed (auto simp: take_record_def Let_def elim: accounted_cong)

lemma tracked_skip: "cn_tracked (fold (\<lambda>i. skip_marker t p (f i)) is c) = cn_tracked c"
  by (induction "is" arbitrary: c) (simp_all add: skip_marker_def)

lemma poll_inv_batch: "poll_inv env c0 st \<Longrightarrow> poll_inv env c0 (take_batch t p b st)"
  by (cases "control b")
     (auto simp: take_batch_def tracked_skip elim: accounted_cong intro!: fold_keeps [where P = "poll_inv env c0"] poll_inv_record)

lemma poll_inv_batches: "poll_inv env c0 st \<Longrightarrow> poll_inv env c0 (fold (take_batch t p) bs st)"
  by (rule fold_keeps) (simp_all add: poll_inv_batch)

lemma poll_inv_partitions: "poll_inv env c0 st \<Longrightarrow> poll_inv env c0 (snd (take_partitions env t as st))"
proof (induction env t "as" st rule: take_partitions.induct)
  case (2 env t a as st)
  have "poll_inv env c0 (mark_stale (st\<lparr>ps_consumer := set_next t (pa_index a) (- 1) (ps_consumer st)\<rparr>))"
    by (rule poll_inv_keep [OF "2.prems"]) simp_all
  with 2 show ?case by (simp add: poll_inv_batches split: option.split sum.split)
qed simp

lemma poll_inv_topics: "poll_inv env c0 st \<Longrightarrow> poll_inv env c0 (snd (take_topic_answers env as st))"
proof (induction env "as" st rule: take_topic_answers.induct)
  case (2 env a as st)
  let ?name = "if ta_name a = [] then topic_name (cn_cluster (ps_consumer st)) (ta_id a) else ta_name a"
  show ?case
  proof (cases "?name = []")
    case True
    with "2.IH"(1) [OF refl] "2.prems" show ?thesis by (simp add: Let_def)
  next
    case False
    obtain e st' where t: "take_partitions env ?name (ta_partitions a) st = (e, st')" by fastforce
    then have "poll_inv env c0 st'" using poll_inv_partitions [OF "2.prems"] by (metis snd_conv)
    with "2.IH"(2) [OF refl False] t False show ?thesis
      by (cases e) (auto simp: Let_def split del: if_split)
  qed
qed simp

lemma positions_tracked: "cn_tracked (ps_consumer (read_positions tps st)) = cn_tracked (ps_consumer st)"
proof -
  have "cn_tracked (fold (\<lambda>(t, p). read_next t p) tps c) = cn_tracked c" for c
    by (induction tps arbitrary: c) auto
  then show ?thesis by (simp add: read_positions_def)
qed

lemma positions_out [simp]: "ps_out (read_positions tps st) = ps_out st"
  by (simp add: read_positions_def)

lemma poll_inv_leaders: "poll_inv env c0 st \<Longrightarrow> poll_inv env c0 (snd (take_leaders env ls st))"
proof (induction ls arbitrary: st)
  case (Cons l ls)
  obtain n tps where l: "l = (n, tps)" by (cases l)
  let ?c = "wait_at env (Connecting n) st"
  let ?req = "map (\<lambda>(t, p). (t, p, next_of (ps_consumer ?c) t p)) tps"
  let ?f = "wait_at env (Fetching n) (read_positions tps ?c)"
  have c: "poll_inv env c0 ?c" by (rule poll_inv_wait [OF Cons.prems])
  then have f: "poll_inv env c0 ?f"
    by (intro poll_inv_wait poll_inv_keep [OF c]) (simp_all add: positions_tracked)
  show ?case
  proof (cases "pe_aborted env n \<or> ps_hard st \<or> \<not> pe_connected env n")
    case True
    then show ?thesis using Cons.IH [of "mark_stale ?c"] Cons.prems c by (auto simp: l Let_def)
  next
    case False
    show ?thesis
    proof (cases "pe_fetch env n ?req")
      case (Inl e)
      then show ?thesis using False Cons.IH [of "mark_stale (hold e ?f)"] f by (simp add: l Let_def)
    next
      case (Inr r)
      obtain e st' where t: "take_topic_answers env (fe_topics r) ?f = (e, st')" by fastforce
      then have st': "poll_inv env c0 st'" using poll_inv_topics [OF f, of "fe_topics r"] by simp
      show ?thesis
        using False Inr t f Cons.IH [OF st'] st' Cons.IH [of "mark_stale ?f"] by (cases e) (auto simp: l Let_def)
    qed
  qed
qed simp

text \<open>Looking for positions changes no tracker; the acknowledgements that arrive meanwhile do.\<close>

lemma listed_tracked: "cn_tracked (snd (take_listed rs c)) = cn_tracked c"
  by (induction rs c rule: take_listed.induct) simp_all

definition stable :: "poll_env \<Rightarrow> (consumer \<Rightarrow> bool) \<Rightarrow> bool" where
  "stable env P \<longleftrightarrow> (\<forall>c d. P c \<and> cn_tracked d = cn_tracked c \<longrightarrow> P d) \<and> (\<forall>c s. P c \<longrightarrow> P (ack_all (pe_acks env s) c))"

lemma stableD:
  "stable env P \<Longrightarrow> P c \<Longrightarrow> cn_tracked d = cn_tracked c \<Longrightarrow> P d"
  "stable env P \<Longrightarrow> P c \<Longrightarrow> P (ack_all (pe_acks env s) c)"
  unfolding stable_def by blast+

lemma stable_accounted: "stable env (accounted env c0 out)"
  unfolding stable_def using accounted_cong accounted_acks by blast

lemma ask_leaders_keeps: "stable env P \<Longrightarrow> P c \<Longrightarrow> P (snd (ask_leaders env t want ls c))"
proof (induction ls arbitrary: c)
  case (Cons l ls)
  obtain n tps where l: "l = (n, tps)" by (cases l)
  let ?c = "ack_all (pe_acks env (Listing t n)) c"
  have c: "P ?c" by (rule stableD(2) [OF Cons.prems])
  show ?case
  proof (cases "pe_list env t n want (map snd tps)")
    case (Inr rs)
    obtain r c' where t: "take_listed rs ?c = (r, c')" by fastforce
    then have "P c'" using stableD(1) [OF Cons.prems(1) c, of c'] listed_tracked [of rs ?c] by simp
    with Cons Inr t show ?thesis by (cases r) (simp_all add: l Let_def)
  qed (simp add: l Let_def c)
qed simp

lemma resolve_keeps:
  assumes st: "stable env P" and P: "P c"
  shows "P (snd (resolve_start_offsets env cfg c))"
proof -
  have "P (snd (resolve_topics env want as c))" if "P c" for want "as" c
    using that
  proof (induction "as" arbitrary: c)
    case (Cons a as)
    obtain t ps where a: "a = (t, ps)" by (cases a)
    let ?need = "filter (\<lambda>p. case find2 (cn_next c) t p of None \<Rightarrow> True | Some n \<Rightarrow> n < 0) ps"
    let ?c = "if ps = [] then c else touch_next t c"
    let ?ls = "by_leader (leader_of (cn_cluster ?c)) (map (\<lambda>p. (t, p)) ?need)"
    have "P ?c" by (rule stableD(1) [OF st Cons.prems]) (simp add: touch_next_def)
    then have P: "P (snd (ask_leaders env t want ?ls ?c))" by (rule ask_leaders_keeps [OF st])
    obtain r d where "ask_leaders env t want ?ls ?c = (r, d)" by fastforce
    with P Cons.IH [of d] show ?case by (cases r) (simp_all add: a Let_def split del: if_split)
  qed simp
  then show ?thesis using P by (simp add: resolve_start_offsets_def)
qed

lemma poll_inv_end: "poll_inv env c0 st \<Longrightarrow> poll_inv env c0 (end_of_poll env cfg st)"
proof -
  assume inv: "poll_inv env c0 st"
  obtain r c where res: "refresh_positions env cfg (ps_consumer st) = (r, c)" by fastforce
  have acks: "accounted env c0 (ps_out st) (ack_all (pe_acks env Refreshing) (ps_consumer st))"
    by (rule accounted_acks [OF inv])
  have "accounted env c0 (ps_out st) (snd (refresh_positions env cfg (ps_consumer st)))"
  proof (cases "pe_metadata env")
    case (Inr r)
    let ?c = "ack_all (pe_acks env Refreshing) (ps_consumer st)"
    have "accounted env c0 (ps_out st) (?c\<lparr>cn_cluster := do_refresh r (cn_cluster ?c)\<rparr>)"
      by (rule accounted_cong [OF acks]) simp
    from resolve_keeps [OF stable_accounted this] Inr show ?thesis by (simp add: refresh_positions_def Let_def)
  qed (simp add: refresh_positions_def Let_def acks)
  then have c: "accounted env c0 (ps_out st) c" by (simp add: res)
  have *: "poll_inv env c0 (st\<lparr>ps_consumer := c\<lparr>cn_needs_refresh := b\<rparr>\<rparr>)" for b
    using accounted_cong [OF c] by simp
  show ?thesis
    using inv * by (cases r) (auto simp: end_of_poll_def res Let_def)
qed

lemma mark_all_flying:
  assumes "tracked_ok c"
  shows "tracked_ok (mark_all fin c) \<and> flying (mark_all fin c) = flying c"
proof -
  let ?P = "\<lambda>d. tracked_ok d \<and> flying d = flying c"
  have mark: "?P (set_tracker t p (mark_committed off (tracker_of d t p)) d)" if "?P d" for t p off d
    using that by (auto simp: tracked_set_tracker flying_def fun_eq_iff tracker_of_set_tracker mark_committed_def)
  have "?P (mark_all fin d)" if "?P d" for d
    unfolding mark_all_def using that
    by (rule fold_keeps) (auto split: prod.split intro!: fold_keeps [where P = ?P] mark)
  then show ?thesis using assms by simp
qed

lemma commit_acked_accounted:
  assumes "accounted env c0 [] c"
  shows "accounted env c0 [] (snd (commit_acked env cfg c))"
proof -
  have a: "accounted env c0 [] (ack_all (pe_acks env Offering) c)" by (rule accounted_acks [OF assms])
  then have "tracked_ok (ack_all (pe_acks env Offering) c)" by (simp add: accounted_def)
  from mark_all_flying [OF this] a show ?thesis
    using assms by (simp add: commit_acked_def Let_def accounted_def)
qed

text \<open>
  The history of a partition above has \<open>Commit\<close> as one event.  That loses nothing: marking the offset
  that was offered commutes with the acknowledgements that arrive while the offer is under way.
\<close>

lemma mark_commutes_with_ack: "mark_committed off (ack_offset o' t) = ack_offset o' (mark_committed off t)"
  by (simp add: mark_committed_def ack_offset_def)

text \<open>A rejoin starts over: nothing is in flight, whatever is still acknowledged.\<close>

definition grounded :: "consumer \<Rightarrow> bool" where
  "grounded c \<longleftrightarrow> tracked_ok c \<and> (\<forall>t p. flying c t p = {})"

lemma grounded_cong: "grounded c \<Longrightarrow> cn_tracked d = cn_tracked c \<Longrightarrow> grounded d"
  using flying_cong [of d c] by (simp add: grounded_def)

lemma grounded_ack: "grounded c \<Longrightarrow> grounded (ack t p off c)"
  using tracked_ack [of c t p off] flying_ack(1) [of c t p off] by (auto simp: grounded_def)

lemma grounded_acks: "grounded c \<Longrightarrow> grounded (ack_all acks c)"
  unfolding ack_all_def by (rule fold_keeps) (auto split: prod.split intro: grounded_ack)

lemma stable_grounded: "stable env grounded"
  unfolding stable_def using grounded_cong grounded_acks by blast

lemma grounded_set: "grounded c \<Longrightarrow> in_flight tr = [] \<Longrightarrow> grounded (set_tracker t p tr c)"
  by (auto simp: grounded_def tracked_set_tracker flying_def tracker_of_set_tracker)

lemma grounded_tracker: "grounded c \<Longrightarrow> in_flight (tracker_of c t p) = []"
  by (simp add: grounded_def flying_def)

lemma grounded_resume: "grounded c \<Longrightarrow> grounded (resume_partition comm tp c)"
proof -
  assume c: "grounded c"
  obtain t p where tp: "tp = (t, p)" by (cases tp)
  have next_ok: "grounded (set_next t p off c)" for off by (rule grounded_cong [OF c]) simp
  show ?thesis
    using grounded_set [OF next_ok] grounded_tracker [OF c, of t p]
    by (auto simp: resume_partition_def tp next_ok mark_committed_def split: option.split)
qed

lemma grounded_ensure: "grounded c \<Longrightarrow> grounded (ensure_trackers c)"
  unfolding ensure_trackers_def
  by (rule fold_keeps) (auto split: prod.split intro: grounded_set grounded_tracker)

lemma rejoin_starts_over:
  assumes "accounted env c0 [] c" and "rejoin env cfg c = (r, c')"
  shows "tracked_ok c' \<and> (\<forall>t p. flying c' t p \<subseteq> flying c0 t p) \<and> (r = Inr () \<longrightarrow> grounded c')"
proof (cases "pe_attach env")
  case (Inl e)
  then show ?thesis
    using assms accounted_acks [OF assms(1), of Attaching] by (auto simp: rejoin_def Let_def accounted_def records_at_def)
next
  case (Inr a)
  let ?c = "(ack_all (pe_acks env Attaching) c)\<lparr>cn_assignment := sa_partitions a, cn_generation := sa_generation a,
      cn_next := [], cn_tracked := []\<rparr>"
  let ?d = "fold (resume_partition (sa_committed a)) (pairs_of (sa_partitions a)) ?c"
  have "grounded ?c" by (simp add: grounded_def sorted2_def flying_def tracker_of_def find2_def new_tracker_def)
  then have d: "grounded ?d" by (rule fold_keeps [where P = grounded]) (rule grounded_resume)
  obtain x e where res: "resolve_start_offsets env cfg ?d = (x, e)" by fastforce
  have "grounded (snd (resolve_start_offsets env cfg ?d))"
    by (rule resolve_keeps [where P = grounded, OF stable_grounded d])
  then have e: "grounded e" by (simp add: res)
  have "grounded ((ensure_trackers e)\<lparr>cn_needs_rejoin := False\<rparr>)"
    by (rule grounded_cong [OF grounded_ensure [OF e]]) simp
  then have "grounded c'"
    using assms(2) Inr res e by (cases x) (auto simp: rejoin_def Let_def)
  then show ?thesis by (simp add: grounded_def)
qed

text \<open>Every blob the brokers send decodes.\<close>

definition decodable :: "poll_env \<Rightarrow> bool" where
  "decodable env \<longleftrightarrow> (\<forall>n q r t a blob. pe_fetch env n q = Inr r \<and> t \<in> set (fe_topics r) \<and>
     a \<in> set (ta_partitions t) \<and> pa_records a = Some blob \<and> blob \<noteq> [] \<longrightarrow>
     (\<exists>bs. decode_batches (pe_cpu env) (pe_codecs env) blob = Inr bs))"

lemma partitions_no_escape:
  "(\<forall>a\<in>set as. \<forall>blob. pa_records a = Some blob \<and> blob \<noteq> [] \<longrightarrow>
      (\<exists>bs. decode_batches (pe_cpu env) (pe_codecs env) blob = Inr bs)) \<Longrightarrow>
   fst (take_partitions env t as st) = None"
proof (induction env t "as" st rule: take_partitions.induct)
  case (2 env t a as st)
  then show ?case
    by (cases "pa_records a") (auto split: sum.split)
qed simp

lemma topics_no_escape:
  "(\<forall>t\<in>set as. \<forall>a\<in>set (ta_partitions t). \<forall>blob. pa_records a = Some blob \<and> blob \<noteq> [] \<longrightarrow>
      (\<exists>bs. decode_batches (pe_cpu env) (pe_codecs env) blob = Inr bs)) \<Longrightarrow>
   fst (take_topic_answers env as st) = None"
proof (induction "as" arbitrary: st)
  case (Cons a as)
  let ?name = "if ta_name a = [] then topic_name (cn_cluster (ps_consumer st)) (ta_id a) else ta_name a"
  have "fst (take_partitions env ?name (ta_partitions a) st) = None"
    using Cons.prems by (intro partitions_no_escape) simp
  with Cons show ?case
    by (cases "take_partitions env ?name (ta_partitions a) st") (simp add: Let_def split del: if_split, simp)
qed simp

lemma leaders_no_escape: "decodable env \<Longrightarrow> fst (take_leaders env ls st) = None"
proof (induction ls arbitrary: st)
  case (Cons l ls)
  obtain n tps where l: "l = (n, tps)" by (cases l)
  let ?c = "wait_at env (Connecting n) st"
  let ?req = "map (\<lambda>(t, p). (t, p, next_of (ps_consumer ?c) t p)) tps"
  let ?f = "wait_at env (Fetching n) (read_positions tps ?c)"
  show ?case
  proof (cases "pe_fetch env n ?req")
    case (Inr r)
    have "fst (take_topic_answers env (fe_topics r) ?f) = None"
      using Cons.prems Inr unfolding decodable_def by (intro topics_no_escape) blast
    with Cons Inr show ?thesis
      by (cases "take_topic_answers env (fe_topics r) ?f") (simp add: l Let_def)
  qed (use Cons l in \<open>simp_all add: Let_def\<close>)
qed simp

section \<open>Properties\<close>

text \<open>C11: a consumer resumes a partition at \<open>resume\<close> and then delivers, acknowledges and commits in
any order.  What it offers for commit is the oldest offset that is not finished (or, with nothing in
flight, the offset after the newest one delivered), so it never covers an offset that was delivered
and not acknowledged since, and it never goes back to or below the offset committed last.  When it
offers nothing although everything is finished, that offset has already been committed (or nothing
has ever been delivered).\<close>

theorem commit_is_safe:
  assumes "- 1 \<le> resume"
  shows "case committable (run_tracker evs resume) of
      Some n \<Rightarrow> resume_point resume evs n \<and> (\<forall>off\<in>unfinished evs. n \<le> off) \<and>
        committed (run_tracker evs resume) < n
    | None \<Rightarrow> \<forall>n. resume_point resume evs n \<longrightarrow> n < 0 \<or> n \<le> committed (run_tracker evs resume)"
proof (cases "committable (run_tracker evs resume)")
  case (Some n)
  note inv = tracker_inv_run [OF assms, of evs]
  have fin: "finite (unfinished evs)" by (rule finite_subset [OF unfinished_subset finite_delivered])
  from committable_bound [OF inv Some] have rp: "resume_point resume evs n" and
    c: "committed (run_tracker evs resume) < n" by auto
  from rp fin have "\<forall>off\<in>unfinished evs. n \<le> off"
    by (auto simp: resume_point_def split: if_splits)
  with Some rp c show ?thesis by simp
next
  case None
  note inv = tracker_inv_run [OF assms, of evs]
  let ?t = "run_tracker evs resume"
  have "n = (case in_flight ?t of [] \<Rightarrow> position ?t | (off, _) # _ \<Rightarrow> off)" if rp: "resume_point resume evs n" for n
  proof (cases "in_flight ?t")
    case Nil
    with inv rp show ?thesis by (auto simp: tracker_inv_def resume_point_def)
  next
    case (Cons a r)
    obtain off u where a: "a = (off, u)" by (cases a)
    with Cons inv have "off = Min (unfinished evs)"
      using om_sorted_hd [of "in_flight ?t" off u r] by (auto simp: tracker_inv_def)
    moreover have "unfinished evs \<noteq> {}" using inv Cons by (force simp: tracker_inv_def)
    ultimately show ?thesis using rp Cons a by (simp add: resume_point_def)
  qed
  with None show ?thesis by (auto simp: committable_def Let_def split: if_splits)
qed

theorem commit_is_safe_witness:
  "case committable (run_tracker [Deliver 5, Deliver 6, Ack 6] 5) of
      Some n \<Rightarrow> resume_point 5 [Deliver 5, Deliver 6, Ack 6] n \<and>
        (\<forall>off\<in>unfinished [Deliver 5, Deliver 6, Ack 6]. n \<le> off) \<and>
        committed (run_tracker [Deliver 5, Deliver 6, Ack 6] 5) < n
    | None \<Rightarrow> \<forall>n. resume_point 5 [Deliver 5, Deliver 6, Ack 6] n \<longrightarrow>
        n < 0 \<or> n \<le> committed (run_tracker [Deliver 5, Deliver 6, Ack 6] 5)"
  by (rule commit_is_safe) simp

definition returned :: "kafka_error + fetched_record list \<Rightarrow> fetched_record list" where
  "returned res = (case res of Inl _ \<Rightarrow> [] | Inr out \<Rightarrow> out)"

lemma fetch_round_inv:
  assumes "accounted env c0 [] c" and "fetch_round env cfg c = (res, c')"
    and dec: "(\<exists>out. res = Inr out) \<or> decodable env"
  shows "accounted env c0 (returned res) c'"
proof -
  let ?ls = "by_leader (leader_of (cn_cluster c)) (pairs_of (cn_assignment c))"
  let ?s = "\<lparr>ps_consumer = c, ps_out = [], ps_pending = None, ps_stale = False, ps_hard = False\<rparr>"
  show ?thesis
  proof (cases "?ls = []")
    case True
    with assms show ?thesis by (auto simp: fetch_round_def returned_def accounted_acks)
  next
    case False
    obtain e st where t: "take_leaders env ?ls ?s = (e, st)" by fastforce
    have e: "e = None"
    proof (cases e)
      case (Some x)
      then have "res = Inl x" using assms(2) False t by (simp add: fetch_round_def)
      then show ?thesis using dec leaders_no_escape [of env ?ls ?s] t by simp
    qed
    have "poll_inv env c0 ?s" using assms(1) by simp
    from poll_inv_end [OF poll_inv_leaders [OF this, of ?ls], of cfg] t
    have inv: "poll_inv env c0 (end_of_poll env cfg st)" by simp
    with assms(2) t e False show ?thesis
      by (auto simp: fetch_round_def Let_def returned_def split: option.splits if_splits)
  qed
qed

text \<open>A poll that finds a new generation gives its partitions up instead of fetching.\<close>

definition rejoins :: "poll_env \<Rightarrow> consumer_config \<Rightarrow> consumer \<Rightarrow> bool" where
  "rejoins env cfg c \<longleftrightarrow> cn_started c \<and> \<not> pe_aborted_first env \<and>
     cn_needs_rejoin (check_generation (pe_generation env) cfg c)"

text \<open>C12: a poll returns exactly the records it starts tracking, although it is suspended at every offer,
connection, request and refresh and the pipeline acknowledges records meanwhile, and whatever the
brokers answer: errors, a moved leader, an offset out of range, partial answers.  An offset is in
flight afterwards only if it was before or its record is returned, so no record is tracked without
being handed out, which would hold commits back for ever; and every offset that was in flight, and
every one returned, is in flight afterwards unless it was acknowledged during the poll, so no
commit passes it.  A poll that has to rejoin returns nothing, tracks nothing new, and leaves nothing
in flight once the new assignment is in place; one that is aborted or not started does nothing.  The claim holds for every poll that returns, and for
one that throws if every batch the brokers sent decodes: a batch that does not makes the poll throw
records away that it tracks (\<open>poll_drops_delivered_record\<close>).\<close>

theorem poll_loses_nothing:
  assumes "tracked_ok c" and "poll env cfg c = (res, offs, c')" and "(\<exists>out. res = Inr out) \<or> decodable env"
  shows "tracked_ok c' \<and>
    (\<forall>t p. flying c' t p \<subseteq> flying c t p \<union> records_at (returned res) t p) \<and>
    (if rejoins env cfg c then returned res = [] \<and> ((\<exists>out. res = Inr out) \<longrightarrow> (\<forall>t p. flying c' t p = {}))
     else \<forall>t p. flying c t p \<union> records_at (returned res) t p \<subseteq> flying c' t p \<union> acked_at env t p) \<and>
    (\<not> cn_started c \<or> pe_aborted_first env \<longrightarrow> res = Inr [] \<and> offs = [] \<and> c' = c)"
proof (cases "\<not> cn_started c \<or> pe_aborted_first env")
  case True
  with assms show ?thesis by (auto simp: poll_def rejoins_def returned_def records_at_def)
next
  case go: False
  let ?c = "check_generation (pe_generation env) cfg c"
  have "accounted env c [] ?c"
    by (rule accounted_cong [OF accounted_refl [OF assms(1)]]) (simp add: check_generation_def)
  then have acc: "accounted env c [] (snd (commit_acked env cfg ?c))" by (rule commit_acked_accounted)
  obtain offs1 c1 where ca: "commit_acked env cfg ?c = (offs1, c1)" by fastforce
  show ?thesis
  proof (cases "rejoins env cfg c")
    case True
    obtain r c2 where rj: "rejoin env cfg c1 = (r, c2)" by fastforce
    then have "c' = c2" "returned res = []" "(\<exists>out. res = Inr out) \<longrightarrow> r = Inr ()"
      using assms(2) True go ca by (auto simp: poll_def rejoins_def returned_def Let_def split: sum.splits)
    with rejoin_starts_over [of env c c1 cfg r c2] acc ca rj True go show ?thesis by (auto simp: grounded_def)
  next
    case joined: False
    obtain r c2 where fr: "fetch_round env cfg c1 = (r, c2)" by fastforce
    then have "res = r" "c' = c2" using assms(2) joined go ca by (auto simp: poll_def rejoins_def Let_def)
    with fetch_round_inv [of env c c1 cfg r c2] acc ca fr assms(3) joined go show ?thesis
      by (simp add: accounted_def)
  qed
qed

subsection \<open>A concrete poll\<close>

definition demo_topic :: bytes where "demo_topic = [116]"
definition demo_cluster :: cluster where
  "demo_cluster = \<lparr>brokers = [], topics = [(demo_topic, \<lparr>ti_name = demo_topic, ti_id = zero_uuid,
     partitions = [\<lparr>partition = 0, leader = 1, leader_epoch = 0, replicas = []\<rparr>,
                   \<lparr>partition = 1, leader = 1, leader_epoch = 0, replicas = []\<rparr>]\<rparr>)]\<rparr>"
definition demo_consumer :: consumer where
  "demo_consumer = \<lparr>cn_cluster = demo_cluster, cn_generation = 1, cn_assignment = [(demo_topic, [0, 1])],
     cn_next = [(demo_topic, [(0, 101)])],
     cn_tracked = [(demo_topic, [(0, \<lparr>position = 101, committed = 99, in_flight = [(99, ()), (100, ())]\<rparr>)])],
     cn_started = True, cn_needs_rejoin = False, cn_needs_refresh = False\<rparr>"
definition demo_config :: consumer_config where
  "demo_config = \<lparr>cc_group = [103], cc_topics = [demo_topic], cc_start_from_oldest = True\<rparr>"

definition demo_env :: "bytes \<Rightarrow> bytes \<Rightarrow> poll_env" where
  "demo_env blob0 blob1 = \<lparr>pe_generation = 1, pe_aborted_first = False,
     pe_acks = (\<lambda>s. if s = Fetching 1 then [(demo_topic, 0, 99), (demo_topic, 1, 5)] else []),
     pe_attach = Inl (Broker_Error 1), pe_list = (\<lambda>_ _ _ _. Inr []),
     pe_metadata = Inl (Broker_Error 1), pe_aborted = (\<lambda>_. False),
     pe_connected = (\<lambda>_. True), pe_fetch = (\<lambda>_ _. Inr \<lparr>fe_error = err_none, fe_topics = [\<lparr>ta_name = demo_topic, ta_id = zero_uuid,
        ta_partitions = [\<lparr>pa_index = 0, pa_error = err_none, pa_records = Some blob0\<rparr>,
                         \<lparr>pa_index = 1, pa_error = err_none, pa_records = Some blob1\<rparr>]\<rparr>]\<rparr>),
     pe_cpu = plain_cpu, pe_codecs = rev_lib\<rparr>"

definition old_batch :: bytes where
  "old_batch = replicate 11 0 @ [49] @ replicate 49 0"

lemma old_batch_bad: "decode_batches plain_cpu rev_lib old_batch = Inl (Bad_Magic 0)"
  by code_simp

lemma old_batch_some: "old_batch \<noteq> []"
  by (simp add: old_batch_def)

lemmas demo_defs = demo_env_def demo_consumer_def demo_config_def demo_cluster_def demo_topic_def
  err_none_def offset_out_of_range_def old_batch_bad old_batch_some demo_batch_def demo_record_def

lemmas poll_defs = take_batch_def take_record_def offset_of_def next_of_def find2_def set2_def set_next_def
  set_tracker_def tracker_of_def deliver_def new_tracker_def read_next_def

text \<open>A leader that answers.\<close>

lemma take_leader:
  assumes "\<not> pe_aborted env n" "\<not> ps_hard st" "pe_connected env n"
    and "pe_fetch env n (map (\<lambda>(t, p). (t, p, next_of (ps_consumer (wait_at env (Connecting n) st)) t p)) tps) = Inr r"
    and "fe_error r = err_none"
  shows "take_leaders env ((n, tps) # ls) st =
    (case take_topic_answers env (fe_topics r)
        (wait_at env (Fetching n) (read_positions tps (wait_at env (Connecting n) st))) of
       (Some e, st) \<Rightarrow> (Some e, st) | (None, st) \<Rightarrow> take_leaders env ls st)"
  using assms by (simp add: Let_def)

definition demo_start :: poll_state where
  "demo_start = \<lparr>ps_consumer = demo_consumer, ps_out = [], ps_pending = None, ps_stale = False, ps_hard = False\<rparr>"

definition demo_asked :: poll_state where
  "demo_asked = \<lparr>ps_consumer = demo_consumer\<lparr>cn_next := [(demo_topic, [(0, 101), (1, 0)])],
        cn_tracked := [(demo_topic, [(0, \<lparr>position = 101, committed = 99, in_flight = [(100, ())]\<rparr>)])]\<rparr>,
      ps_out = [], ps_pending = None, ps_stale = False, ps_hard = False\<rparr>"

lemma demo_waits:
  "wait_at (demo_env blob0 blob1) (Connecting 1) demo_start = demo_start"
  "wait_at (demo_env blob0 blob1) (Fetching 1) (read_positions [(demo_topic, 0), (demo_topic, 1)] demo_start) = demo_asked"
  by (simp_all add: wait_at_def demo_env_def demo_start_def demo_asked_def ack_all_def read_positions_def read_next_def
      ack_def ack_offset_def demo_consumer_def next_of_def find2_def set_next_def set2_def set_tracker_def demo_topic_def)

lemma demo_round:
  "take_leaders (demo_env blob0 blob1) [(1, [(demo_topic, 0), (demo_topic, 1)])] demo_start =
   take_topic_answers (demo_env blob0 blob1) [\<lparr>ta_name = demo_topic, ta_id = zero_uuid,
        ta_partitions = [\<lparr>pa_index = 0, pa_error = err_none, pa_records = Some blob0\<rparr>,
                         \<lparr>pa_index = 1, pa_error = err_none, pa_records = Some blob1\<rparr>]\<rparr>] demo_asked"
proof -
  let ?r = "\<lparr>fe_error = err_none, fe_topics = [\<lparr>ta_name = demo_topic, ta_id = zero_uuid,
        ta_partitions = [\<lparr>pa_index = 0, pa_error = err_none, pa_records = Some blob0\<rparr>,
                         \<lparr>pa_index = 1, pa_error = err_none, pa_records = Some blob1\<rparr>]\<rparr>]\<rparr>"
  have "take_leaders (demo_env blob0 blob1) [(1, [(demo_topic, 0), (demo_topic, 1)])] demo_start =
    (case take_topic_answers (demo_env blob0 blob1) (fe_topics ?r) (wait_at (demo_env blob0 blob1) (Fetching 1)
         (read_positions [(demo_topic, 0), (demo_topic, 1)] (wait_at (demo_env blob0 blob1) (Connecting 1) demo_start))) of
       (Some e, st) \<Rightarrow> (Some e, st) | (None, st) \<Rightarrow> take_leaders (demo_env blob0 blob1) [] st)"
    by (rule take_leader) (simp_all add: demo_env_def demo_start_def)
  then show ?thesis
    unfolding demo_waits by (simp split: prod.split option.split del: take_topic_answers.simps)
qed

text \<open>
  A partition whose blob does not decode (here a batch of magic 0): the exception leaves \<open>poll\<close>, the
  record of the partition before it is gone with the local \<open>out\<close>, but the position has moved past
  it and the tracker waits for an acknowledgement that cannot come.
\<close>

lemma demo_poll:
  "poll (demo_env blob0 blob1) demo_config demo_consumer =
   (case take_leaders (demo_env blob0 blob1) [(1, [(demo_topic, 0), (demo_topic, 1)])] demo_start of
      (Some e, st) \<Rightarrow> (Inl e, [], ps_consumer st)
    | (None, st) \<Rightarrow> (let st = end_of_poll (demo_env blob0 blob1) demo_config st in
       (case ps_pending st of Some e \<Rightarrow> if ps_out st = [] then Inl e else Inr (ps_out st) | None \<Rightarrow> Inr (ps_out st),
        [], ps_consumer st)))"
proof -
  have ls: "by_leader (leader_of (cn_cluster demo_consumer)) (pairs_of (cn_assignment demo_consumer)) =
      [(1, [(demo_topic, 0), (demo_topic, 1)])]"
    by (simp add: demo_consumer_def pairs_of_def by_leader_def leader_of_def demo_cluster_def demo_topic_def topic_def push_node_def)
  have offer: "commit_acked env demo_config demo_consumer = ([], demo_consumer)" for env
    by (simp add: commit_acked_def demo_config_def finished_offsets_def demo_consumer_def committable_def)
  have gen: "check_generation (pe_generation (demo_env blob0 blob1)) demo_config demo_consumer = demo_consumer"
    by (simp add: check_generation_def demo_env_def demo_consumer_def)
  have "cn_started demo_consumer" "\<not> pe_aborted_first (demo_env blob0 blob1)" "\<not> cn_needs_rejoin demo_consumer"
    by (simp_all add: demo_consumer_def demo_env_def)
  then have "poll (demo_env blob0 blob1) demo_config demo_consumer =
      (case fetch_round (demo_env blob0 blob1) demo_config demo_consumer of (r, c) \<Rightarrow> (r, [], c))"
    unfolding poll_def gen Let_def offer by simp
  then show ?thesis
    unfolding fetch_round_def ls demo_start_def Let_def by (simp split: prod.split option.split del: take_leaders.simps)
qed

lemma poll_drops_delivered_record:
  assumes "decode_batches plain_cpu rev_lib e = Inr [demo_batch]" "e \<noteq> []"
  shows "poll (demo_env e old_batch) demo_config demo_consumer = (Inl (Protocol_Error (Bad_Magic 0)), [],
     demo_consumer\<lparr>cn_next := [(demo_topic, [(0, 102), (1, 0)])],
       cn_tracked := [(demo_topic, [(0, \<lparr>position = 102, committed = 99, in_flight = [(100, ()), (101, ())]\<rparr>)])]\<rparr>)"
  unfolding demo_poll demo_round using assms
  by (simp add: poll_defs demo_defs Let_def numeral_2_eq_2 demo_asked_def end_of_poll_def)

lemma poll_demo:
  assumes "decode_batches plain_cpu rev_lib e = Inr [demo_batch]" "e \<noteq> []"
  shows "\<exists>r. poll (demo_env e e) demo_config demo_consumer = (Inr r, [],
     demo_consumer\<lparr>cn_next := [(demo_topic, [(0, 102), (1, 102)])],
       cn_tracked := [(demo_topic, [(0, \<lparr>position = 102, committed = 99, in_flight = [(100, ()), (101, ())]\<rparr>),
       (1, \<lparr>position = 102, committed = - 1, in_flight = [(100, ()), (101, ())]\<rparr>)])]\<rparr>)
     \<and> map fr_offset r = [101, 100, 101] \<and> map fr_partition r = [0, 1, 1]"
  unfolding demo_poll demo_round using assms
  by (simp add: poll_defs demo_defs Let_def numeral_2_eq_2 demo_asked_def end_of_poll_def)

lemma demo_blob:
  obtains e where "e \<noteq> []" and "decode_batches plain_cpu rev_lib e = Inr [demo_batch]"
proof -
  obtain e where e: "encode_batch sse42_cpu rev_lib demo_batch [] = Inr e"
    by (rule demo_encodes)
  have "normal_batch demo_batch = demo_batch" by (simp add: normal_batch_def demo_batch_def)
  moreover have "e \<noteq> []" using encoded_length(1) [OF e demo_fits] by (auto simp: header_bytes_def)
  ultimately show ?thesis
    using loop_batches [OF cpu_ok_plain cpu_ok_sse42 codec_ok_rev_lib e demo_fits, of 0 "[demo_batch]" "[e]" "reader_on e" "[]"]
      e demo_fits that [of e] by (simp add: decode_batches_def reader_on_def)
qed

theorem poll_loses_nothing_witness:
  "\<exists>e r c'. poll (demo_env e e) demo_config demo_consumer = (Inr r, [], c') \<and> map fr_offset r = [101, 100, 101] \<and>
     flying demo_consumer demo_topic 0 \<union> records_at r demo_topic 0 \<subseteq> flying c' demo_topic 0 \<union> acked_at (demo_env e e) demo_topic 0"
proof -
  obtain e where e: "e \<noteq> []" "decode_batches plain_cpu rev_lib e = Inr [demo_batch]" by (rule demo_blob)
  obtain r c' where p: "poll (demo_env e e) demo_config demo_consumer = (Inr r, [], c')"
    and r: "map fr_offset r = [101, 100, 101]"
    using poll_demo [OF e(2) e(1)] by auto
  have ok: "tracked_ok demo_consumer" by (simp add: demo_consumer_def sorted2_def)
  have "\<not> rejoins (demo_env e e) demo_config demo_consumer"
    by (simp add: rejoins_def demo_env_def demo_consumer_def demo_config_def check_generation_def)
  with poll_loses_nothing [OF ok p]
  have "flying demo_consumer demo_topic 0 \<union> records_at r demo_topic 0 \<subseteq> flying c' demo_topic 0 \<union> acked_at (demo_env e e) demo_topic 0"
    by (simp add: returned_def)
  with p r show ?thesis by (intro exI conjI)
qed

end
