(* ===== verification/Membership.thy ===== *)
theory Membership
  imports Consumer
begin

text \<open>
  \<open>src/kafka/group_membership.cc\<close>: one member of a consumer group for the whole process.  Shard 0 owns
  the group and pushes every shard its slice of the partitions; the shards offer the offsets they
  have finished.  An operation waits for the coordinator at the points of \<open>owner_wait\<close>, and
  \<open>oe_offers\<close> gives the offers that land on shard 0 meanwhile.  The other operations on a group are
  not interleaved with one that waits: a shard that asks while a join is running gets the result of
  that join.
\<close>

section \<open>The slice of a shard\<close>

text \<open>\<open>static_cast<unsigned>(p) % shards == shard\<close>.\<close>

definition shard_owns :: "nat \<Rightarrow> nat \<Rightarrow> int \<Rightarrow> bool" where
  "shard_owns shard shards p \<longleftrightarrow> unat (word_of_int p :: i32) mod shards = shard"

text \<open>\<open>mine[topic]\<close> is empty for a new topic.\<close>

definition parts :: "partition_map \<Rightarrow> bytes \<Rightarrow> int list" where
  "parts m t = (case om_find m t of None \<Rightarrow> [] | Some ps \<Rightarrow> ps)"

definition shard_share :: "partition_map \<Rightarrow> nat \<Rightarrow> nat \<Rightarrow> partition_map" where
  "shard_share all shard shards =
     (if shards = 0 then []
      else fold (\<lambda>(t, p) mine. if shard_owns shard shards p
             then om_set t (parts mine t @ [p]) mine else mine)
           (pairs_of all) [])"

section \<open>Starting and stopping a consumer\<close>

text \<open>
  \<open>consumer::start\<close> and \<open>consumer::stop\<close> of \<open>src/kafka/consumer.cc\<close>.  Without a group a shard takes its share
  of every partition of its topics by the rule the group path uses.  What \<open>stop\<close> offers is handed over
  before \<open>commit_now\<close> and \<open>detach\<close> below.
\<close>

definition topic_partitions :: "cluster \<Rightarrow> bytes list \<Rightarrow> partition_map" where
  "topic_partitions cl ts = fold (\<lambda>t all. case topic cl t of
     None \<Rightarrow> all
   | Some ti \<Rightarrow> fold (\<lambda>pi all. om_set t (parts all t @ [partition pi]) all) (partitions ti) all) ts []"

definition take_share :: "poll_env \<Rightarrow> nat \<Rightarrow> nat \<Rightarrow> consumer_config \<Rightarrow> consumer \<Rightarrow> (kafka_error + unit) \<times> consumer" where
  "take_share env shard shards cfg c =
     (let c = c\<lparr>cn_assignment := shard_share (topic_partitions (cn_cluster c) (cc_topics cfg)) shard shards\<rparr>
      in case resolve_start_offsets env cfg c of
        (Inl e, c) \<Rightarrow> (Inl e, c) | (Inr _, c) \<Rightarrow> (Inr (), ensure_trackers c))"

definition start_consumer :: "poll_env \<Rightarrow> nat \<Rightarrow> nat \<Rightarrow> consumer_config \<Rightarrow> consumer \<Rightarrow> (kafka_error + unit) \<times> consumer" where
  "start_consumer env shard shards cfg c =
     (case pe_metadata env of
        Inl e \<Rightarrow> (Inl e, c)
      | Inr r \<Rightarrow>
          (let c = c\<lparr>cn_cluster := do_refresh r \<lparr>brokers = [], topics = []\<rparr>\<rparr>
           in case (if cc_group cfg = [] then take_share env shard shards cfg c else rejoin env cfg c) of
             (Inl e, c) \<Rightarrow> (Inl e, c) | (Inr _, c) \<Rightarrow> (Inr (), c\<lparr>cn_started := True\<rparr>)))"

definition stop_consumer :: "poll_env \<Rightarrow> consumer_config \<Rightarrow> consumer \<Rightarrow> offsets \<times> consumer" where
  "stop_consumer env cfg c =
     (if \<not> cn_started c then ([], c) else commit_acked env cfg (c\<lparr>cn_started := False\<rparr>))"

lemma started_set_tracker [simp]: "cn_started (set_tracker t p tr c) = cn_started c"
  by (simp add: set_tracker_def)

lemma started_ack_all: "\<not> cn_started c \<Longrightarrow> \<not> cn_started (ack_all acks c)"
  unfolding ack_all_def by (rule fold_keeps) (auto simp: ack_def split: prod.split option.split)

lemma started_mark_all: "\<not> cn_started c \<Longrightarrow> \<not> cn_started (mark_all fin c)"
proof -
  have inner: "\<not> cn_started c \<Longrightarrow>
      \<not> cn_started (fold (\<lambda>(p, off) c. set_tracker t p (mark_committed off (tracker_of c t p)) c) ps c)" for t ps c
    by (rule fold_keeps [where P = "\<lambda>c. \<not> cn_started c"]) (simp_all split: prod.split)
  show "\<not> cn_started c \<Longrightarrow> ?thesis"
    unfolding mark_all_def
    by (rule fold_keeps [where P = "\<lambda>c. \<not> cn_started c"]) (simp_all add: inner split: prod.split)
qed

text \<open>A stopped consumer hands out nothing any more, and stopping it drops no record from its trackers.\<close>

lemma stopped_consumer_is_quiet:
  "poll env cfg (snd (stop_consumer env' cfg' c)) = (Inr [], [], snd (stop_consumer env' cfg' c))"
proof -
  have "\<not> cn_started (snd (stop_consumer env' cfg' c))"
    by (simp add: stop_consumer_def commit_acked_def Let_def started_ack_all started_mark_all)
  then show ?thesis by (simp add: poll_def)
qed

lemma stop_keeps_what_is_in_flight:
  assumes "tracked_ok c"
  shows "flying c t p \<subseteq> flying (snd (stop_consumer env cfg c)) t p \<union> acked_at env t p"
proof -
  let ?c = "c\<lparr>cn_started := False\<rparr>"
  have "accounted env c [] ?c" by (rule accounted_cong [OF accounted_refl [OF assms]]) simp
  from commit_acked_accounted [OF this, of cfg] accounted_refl [OF assms, of env] show ?thesis
    by (auto simp: stop_consumer_def accounted_def)
qed

section \<open>The owner and the shards\<close>

record owner =
  ow_cfg :: group_config
  ow_group :: group_state
  full :: partition_map
  ow_committed :: offsets
  ow_generation :: int
  attached :: "nat set"
  refs :: nat
  staged :: offsets
  timers :: bool

text \<open>
  \<open>caches\<close> are the thread-local maps of the shards; \<open>accepted\<close> records the commits the coordinators
  took: group, generation and offsets.
\<close>

record process =
  shard_count :: nat
  owners :: "(bytes, owner) omap"
  caches :: "nat \<Rightarrow> (bytes, shard_assignment) omap"
  accepted :: "(bytes \<times> int \<times> offsets) list"

text \<open>What the brokers answer to the requests of one operation.\<close>

datatype owner_wait = Committing | Joining | Reading_Committed | Beating

record owner_env =
  oe_offers :: "owner_wait \<Rightarrow> offsets list"
  oe_refresh :: "kafka_error + metadata_response"
  oe_commit :: "nat \<Rightarrow> group_env"
  oe_join :: "nat \<Rightarrow> group_env"
  oe_fetch :: "nat \<Rightarrow> group_env"
  oe_heartbeat :: "nat \<Rightarrow> group_env"

definition fresh_owner :: "group_config \<Rightarrow> owner" where
  "fresh_owner cfg = \<lparr>ow_cfg = cfg, ow_group = \<lparr>my_id = [], generation = - 1, coordinator_id = - 1,
       is_leader = False, protocol_name = [], metadata = \<lparr>brokers = [], topics = []\<rparr>\<rparr>,
     full = [], ow_committed = [], ow_generation = - 1, attached = {}, refs = 0, staged = [], timers = False\<rparr>"

definition no_assignment :: shard_assignment where
  "no_assignment = \<lparr>sa_generation = - 1, sa_partitions = [], sa_committed = []\<rparr>"

definition current :: "process \<Rightarrow> nat \<Rightarrow> bytes \<Rightarrow> shard_assignment" where
  "current w shard g = (case om_find (caches w shard) g of None \<Rightarrow> no_assignment | Some a \<Rightarrow> a)"

definition put_owner :: "bytes \<Rightarrow> owner \<Rightarrow> process \<Rightarrow> process" where
  "put_owner g ow w = w\<lparr>owners := om_set g ow (owners w)\<rparr>"

subsection \<open>Staged offsets\<close>

definition stage_one :: "bytes \<Rightarrow> int \<Rightarrow> int \<Rightarrow> offsets \<Rightarrow> offsets" where
  "stage_one t p off st = set2 t p (max (case find2 st t p of None \<Rightarrow> 0 | Some x \<Rightarrow> x) off) st"

definition stage :: "offsets \<Rightarrow> offsets \<Rightarrow> offsets" where
  "stage offs st = fold (\<lambda>(t, ps) st. fold (\<lambda>(p, off) st. stage_one t p off st) ps st) offs st"

definition take_offers :: "owner_env \<Rightarrow> owner_wait \<Rightarrow> owner \<Rightarrow> owner" where
  "take_offers env at ow = ow\<lparr>staged := fold stage (oe_offers env at) (staged ow)\<rparr>"

text \<open>
  The staged table is swapped out for an empty one, which takes the offers that arrive while the
  coordinator is asked; after a refusal what was swapped out is merged back, the larger offset winning.
\<close>

definition commit_staged :: "owner_env \<Rightarrow> bytes \<Rightarrow> owner \<Rightarrow> process \<Rightarrow> owner \<times> process" where
  "commit_staged env g ow w =
     (if staged ow = [] \<or> ow_generation ow < 0 then (ow, w)
      else let to_commit = staged ow; ow = ow\<lparr>staged := []\<rparr>
      in (case commit (oe_commit env) (ow_cfg ow) to_commit (ow_group ow) of
        (Inr _, gs, _) \<Rightarrow> (take_offers env Committing (ow\<lparr>ow_group := gs\<rparr>),
          w\<lparr>accepted := accepted w @ [(g, generation gs, to_commit)]\<rparr>)
      | (Inl _, gs, _) \<Rightarrow>
          (let ow = take_offers env Committing (ow\<lparr>ow_group := gs\<rparr>)
           in (ow\<lparr>staged := stage to_commit (staged ow)\<rparr>, w))))"

definition keep_owned :: "partition_map \<Rightarrow> offsets \<Rightarrow> offsets" where
  "keep_owned all st = fold (\<lambda>(t, ps) kept. fold (\<lambda>(p, off) kept.
     case om_find all t of None \<Rightarrow> kept
     | Some own \<Rightarrow> if p \<in> set own then set2 t p off kept else kept) ps kept) st []"

subsection \<open>Publishing\<close>

definition slice_committed :: "offsets \<Rightarrow> partition_map \<Rightarrow> offsets" where
  "slice_committed comm mine = fold (\<lambda>(t, p) c. case find2 comm t p of None \<Rightarrow> c | Some off \<Rightarrow> set2 t p off c)
     (pairs_of mine) []"

definition slice :: "owner \<Rightarrow> nat \<Rightarrow> nat \<Rightarrow> shard_assignment" where
  "slice ow shards shard = (let mine = shard_share (full ow) shard shards
     in \<lparr>sa_generation = ow_generation ow, sa_partitions = mine, sa_committed = slice_committed (ow_committed ow) mine\<rparr>)"

definition publish :: "bytes \<Rightarrow> owner \<Rightarrow> process \<Rightarrow> process" where
  "publish g ow w = w\<lparr>caches := (\<lambda>i. if i < shard_count w then om_set g (slice ow (shard_count w) i) (caches w i)
     else caches w i)\<rparr>"

subsection \<open>Joining\<close>

definition do_join :: "owner_env \<Rightarrow> bytes \<Rightarrow> owner \<Rightarrow> process \<Rightarrow> (kafka_error + unit) \<times> process" where
  "do_join env g ow w =
     (let (ow, w) = (if ow_generation ow \<ge> 0 then commit_staged env g ow w else (ow, w))
      in case join (oe_join env) (ow_cfg ow) (ow_group ow) of
        (Inl e, gs, _) \<Rightarrow> (Inl e, put_owner g (take_offers env Joining (ow\<lparr>ow_group := gs\<rparr>)) w)
      | (Inr pm, gs, _) \<Rightarrow>
          (let ow = take_offers env Joining (ow\<lparr>ow_group := gs\<rparr>);
               ow = ow\<lparr>full := pm, ow_generation := generation gs, staged := keep_owned pm (staged ow)\<rparr>
           in case fetch_offsets (oe_fetch env) (ow_cfg ow) gs of
             (Inl e, gs, _) \<Rightarrow> (Inl e, put_owner g (take_offers env Reading_Committed (ow\<lparr>ow_group := gs\<rparr>)) w)
           | (Inr offs, gs, _) \<Rightarrow>
               (let ow = (take_offers env Reading_Committed (ow\<lparr>ow_group := gs\<rparr>))\<lparr>ow_committed := offs\<rparr>
                in (Inr (), publish g ow (put_owner g ow w)))))"

definition ensure_joined :: "owner_env \<Rightarrow> bytes \<Rightarrow> owner \<Rightarrow> process \<Rightarrow> (kafka_error + unit) \<times> process" where
  "ensure_joined env g ow w = (if ow_generation ow \<ge> 0 then (Inr (), put_owner g ow w) else do_join env g ow w)"

section \<open>The operations\<close>

definition arm_timers :: "bytes \<Rightarrow> process \<Rightarrow> process" where
  "arm_timers g w = (case om_find (owners w) g of None \<Rightarrow> w | Some ow \<Rightarrow> put_owner g (ow\<lparr>timers := True\<rparr>) w)"

definition attach_shard :: "owner_env \<Rightarrow> bytes \<Rightarrow> nat \<Rightarrow> owner \<Rightarrow> process \<Rightarrow> (kafka_error + unit) \<times> process" where
  "attach_shard env g shard ow w =
     (let fresh = (shard \<notin> attached ow);
          ow = ow\<lparr>attached := insert shard (attached ow), refs := (if fresh then refs ow + 1 else refs ow)\<rparr>
      in case ensure_joined env g ow w of
        (Inl e, w) \<Rightarrow> (Inl e, w)
      | (Inr _, w) \<Rightarrow> (Inr (), if fresh \<and> refs ow = 1 then arm_timers g w else w))"

definition attach_on_zero :: "owner_env \<Rightarrow> group_config \<Rightarrow> nat \<Rightarrow> process \<Rightarrow> (kafka_error + unit) \<times> process" where
  "attach_on_zero env cfg shard w = (let g = group_id cfg in case om_find (owners w) g of
     Some ow \<Rightarrow> attach_shard env g shard ow w
   | None \<Rightarrow>
       (let ow = fresh_owner cfg; w = put_owner g ow w
        in case oe_refresh env of
          Inl e \<Rightarrow> (Inl e, w)
        | Inr r \<Rightarrow> attach_shard env g shard
            (ow\<lparr>ow_group := (ow_group ow)\<lparr>metadata := do_refresh r (metadata (ow_group ow))\<rparr>\<rparr>) w))"

definition attach :: "owner_env \<Rightarrow> group_config \<Rightarrow> nat \<Rightarrow> process \<Rightarrow> (kafka_error + shard_assignment) \<times> process" where
  "attach env cfg shard w = (case attach_on_zero env cfg shard w of
     (Inl e, w) \<Rightarrow> (Inl e, w) | (Inr _, w) \<Rightarrow> (Inr (current w shard (group_id cfg)), w))"

definition offer :: "bytes \<Rightarrow> offsets \<Rightarrow> process \<Rightarrow> process" where
  "offer g offs w = (if offs = [] then w else case om_find (owners w) g of
     None \<Rightarrow> w | Some ow \<Rightarrow> put_owner g (ow\<lparr>staged := stage offs (staged ow)\<rparr>) w)"

definition commit_now :: "owner_env \<Rightarrow> bytes \<Rightarrow> process \<Rightarrow> process" where
  "commit_now env g w = (case om_find (owners w) g of
     None \<Rightarrow> w | Some ow \<Rightarrow> (case commit_staged env g ow w of (ow, w) \<Rightarrow> put_owner g ow w))"

definition detach :: "owner_env \<Rightarrow> bytes \<Rightarrow> nat \<Rightarrow> process \<Rightarrow> process" where
  "detach env g shard w = (case om_find (owners w) g of
     None \<Rightarrow> w
   | Some ow \<Rightarrow>
       if shard \<notin> attached ow then w
       else (let ow = ow\<lparr>attached := attached ow - {shard}, refs := refs ow - 1\<rparr>
             in if refs ow > 0 then put_owner g ow w
                else (case commit_staged env g (ow\<lparr>timers := False\<rparr>) w of
                  (ow, w) \<Rightarrow> w\<lparr>owners := om_remove g (owners w)\<rparr>)))"

definition heartbeat_tick :: "owner_env \<Rightarrow> bytes \<Rightarrow> process \<Rightarrow> process" where
  "heartbeat_tick env g w = (case om_find (owners w) g of
     None \<Rightarrow> w
   | Some ow \<Rightarrow>
       if \<not> timers ow then w
       else (case heartbeat (oe_heartbeat env) (ow_cfg ow) (ow_group ow) of
         (Inl _, gs, _) \<Rightarrow> put_owner g (take_offers env Beating (ow\<lparr>ow_group := gs\<rparr>)) w
       | (Inr alive, gs, _) \<Rightarrow>
           (let ow = take_offers env Beating (ow\<lparr>ow_group := gs\<rparr>)
            in if alive then put_owner g ow w
               else snd (ensure_joined env g (ow\<lparr>ow_generation := - 1\<rparr>) w))))"

definition commit_tick :: "owner_env \<Rightarrow> bytes \<Rightarrow> process \<Rightarrow> process" where
  "commit_tick env g w = (case om_find (owners w) g of
     None \<Rightarrow> w | Some ow \<Rightarrow> if timers ow then commit_now env g w else w)"

datatype member_event = Attach group_config nat | Offer bytes offsets | Commit_Now bytes | Detach bytes nat
  | Heartbeat_Tick bytes | Commit_Tick bytes

fun member_step :: "member_event \<times> owner_env \<Rightarrow> process \<Rightarrow> process" where
  "member_step (Attach cfg i, env) w = snd (attach env cfg i w)"
| "member_step (Offer g offs, env) w = offer g offs w"
| "member_step (Commit_Now g, env) w = commit_now env g w"
| "member_step (Detach g i, env) w = detach env g i w"
| "member_step (Heartbeat_Tick g, env) w = heartbeat_tick env g w"
| "member_step (Commit_Tick g, env) w = commit_tick env g w"

definition new_process :: "nat \<Rightarrow> process" where
  "new_process n = \<lparr>shard_count = n, owners = [], caches = (\<lambda>_. []), accepted = []\<rparr>"


section \<open>Slices\<close>

lemma parts_set: "om_sorted m \<Longrightarrow> parts (om_set t ps m) u = (if u = t then ps else parts m u)"
  by (simp add: parts_def om_find_set)

lemma share_fold:
  assumes "om_sorted m"
  shows "om_sorted (fold (\<lambda>(t, p) m. if P p then om_set t (parts m t @ [p]) m else m) xs m) \<and>
    parts (fold (\<lambda>(t, p) m. if P p then om_set t (parts m t @ [p]) m else m) xs m) u =
      parts m u @ map snd (filter (\<lambda>(t, p). t = u \<and> P p) xs)"
  using assms
proof (induction xs arbitrary: m)
  case (Cons a xs)
  obtain t p where a: "a = (t, p)" by (cases a)
  let ?m = "if P p then om_set t (parts m t @ [p]) m else m"
  have "om_sorted ?m" using Cons.prems by (simp add: om_sorted_set)
  moreover have "parts ?m u = parts m u @ (if t = u \<and> P p then [p] else [])"
    using Cons.prems by (simp add: parts_set)
  ultimately show ?case using Cons.IH [of ?m] by (simp add: a split del: if_split) simp
qed simp

lemma pairs_of_Cons: "pairs_of ((t, ps) # m) = map (\<lambda>p. (t, p)) ps @ pairs_of m"
  by (simp add: pairs_of_def)

lemma pick_pairs: "om_sorted m \<Longrightarrow>
    map snd (filter (\<lambda>(t, p). t = u \<and> P p) (pairs_of m)) = filter P (parts m u)"
proof (induction m)
  case (Cons a m)
  obtain t ps where a: "a = (t, ps)" by (cases a)
  have one: "map snd (filter (\<lambda>(s, p). s = u \<and> P p) (map (\<lambda>p. (t, p)) ps)) = (if t = u then filter P ps else [])"
    by (induction ps) auto
  have above: "t = u \<Longrightarrow> parts m u = []"
    using Cons.prems by (simp add: a parts_def om_find_above)
  have below: "\<not> t < u \<Longrightarrow> t \<noteq> u \<Longrightarrow> parts m u = []"
    using Cons.prems by (auto simp: a parts_def om_find_below)
  have "parts (a # m) u = (if t = u then ps else parts m u)"
    using below by (auto simp: a parts_def)
  with Cons one above show ?case by (simp add: a pairs_of_Cons)
qed (simp add: pairs_of_def parts_def)

lemma shard_share_parts:
  assumes "om_sorted all" and "0 < shards"
  shows "parts (shard_share all shard shards) t = filter (shard_owns shard shards) (parts all t)"
  using share_fold [of "[]" "shard_owns shard shards" "pairs_of all" t] pick_pairs [OF assms(1)] assms(2)
  by (simp add: shard_share_def, simp add: parts_def)

lemma one_shard_owns: "0 < shards \<Longrightarrow> \<exists>!i. i < shards \<and> shard_owns i shards p"
  by (auto simp: shard_owns_def)

lemma set_pairs_of: "om_sorted m \<Longrightarrow> (t, p) \<in> set (pairs_of m) \<longleftrightarrow> p \<in> set (parts m t)"
proof
  assume s: "om_sorted m" and "(t, p) \<in> set (pairs_of m)"
  then obtain ps where "(t, ps) \<in> set m" "p \<in> set ps" by (auto simp: pairs_of_def)
  with s show "p \<in> set (parts m t)" by (simp add: parts_def om_find_mem)
next
  assume "p \<in> set (parts m t)"
  then obtain ps where "(t, ps) \<in> set m" "p \<in> set ps"
    by (cases "om_find m t") (auto simp: parts_def dest: om_find_SomeD)
  then show "(t, p) \<in> set (pairs_of m)" by (auto simp: pairs_of_def)
qed

lemma slice_committed_fold:
  "sorted2 c \<Longrightarrow>
   find2 (fold (\<lambda>(t, p) c. case find2 comm t p of None \<Rightarrow> c | Some off \<Rightarrow> set2 t p off c) xs c) u q =
     (if (u, q) \<in> set xs \<and> find2 comm u q \<noteq> None then find2 comm u q else find2 c u q)"
proof (induction xs arbitrary: c)
  case (Cons a xs)
  obtain t p where a: "a = (t, p)" by (cases a)
  show ?case
  proof (cases "find2 comm t p")
    case None
    with Cons show ?thesis by (auto simp: a)
  next
    case (Some off)
    with Cons.IH [OF sorted2_set2 [OF Cons.prems]] Cons.prems show ?thesis
      by (auto simp: a find2_set2)
  qed
qed simp

lemma sorted2_Nil [simp]: "sorted2 []"
  by (simp add: sorted2_def)

lemma find2_Nil [simp]: "find2 [] t p = None"
  by (simp add: find2_def)

lemma slice_committed_find:
  "om_sorted mine \<Longrightarrow> find2 (slice_committed comm mine) t p = (if p \<in> set (parts mine t) then find2 comm t p else None)"
  by (simp add: slice_committed_def slice_committed_fold set_pairs_of)

lemma om_sorted_share: "om_sorted (shard_share all i n)"
  using share_fold [of "[]" "shard_owns i n" "pairs_of all"] by (simp add: shard_share_def)

section \<open>Staged offsets\<close>

definition flat :: "offsets \<Rightarrow> (bytes \<times> int \<times> int) list" where
  "flat offs = concat (map (\<lambda>(t, ps). map (\<lambda>(p, off). (t, p, off)) ps) offs)"

lemma fold_flat: "fold (\<lambda>(t, ps) s. fold (\<lambda>(p, off) s. f t p off s) ps s) offs s = fold (\<lambda>(t, p, off). f t p off) (flat offs) s"
proof -
  have "fold (\<lambda>(p, off) s. f t p off s) ps s = fold (\<lambda>(t, p, off). f t p off) (map (\<lambda>(p, off). (t, p, off)) ps) s" for t ps s
    by (induction ps arbitrary: s) auto
  then show ?thesis
    by (induction offs arbitrary: s) (auto simp: flat_def)
qed

lemma mem_flat: "sorted2 offs \<Longrightarrow> (t, p, off) \<in> set (flat offs) \<longleftrightarrow> find2 offs t p = Some off"
proof
  assume s: "sorted2 offs" and "(t, p, off) \<in> set (flat offs)"
  then obtain ps where ps: "(t, ps) \<in> set offs" "(p, off) \<in> set ps" by (auto simp: flat_def)
  then have f: "om_find offs t = Some ps" using s by (simp add: sorted2_def om_find_mem)
  then have "om_sorted ps" using s by (simp add: sorted2_def)
  then show "find2 offs t p = Some off" using f ps by (simp add: find2_def om_find_mem)
next
  assume "find2 offs t p = Some off"
  then show "(t, p, off) \<in> set (flat offs)"
    by (force simp: find2_def flat_def split: option.splits dest: om_find_SomeD)
qed

lemma stage_eq: "stage offs st = fold (\<lambda>(t, p, off). stage_one t p off) (flat offs) st"
  by (simp add: stage_def fold_flat)

definition staged_ok :: "offsets \<Rightarrow> bool" where
  "staged_ok st \<longleftrightarrow> sorted2 st \<and> (\<forall>t p off. find2 st t p = Some off \<longrightarrow> 0 \<le> off)"

lemma staged_ok_one: "staged_ok st \<Longrightarrow> staged_ok (stage_one t p off st)"
  by (cases "find2 st t p") (auto simp: staged_ok_def stage_one_def sorted2_set2 find2_set2 le_max_iff_disj)

lemma staged_ok_set2: "staged_ok st \<Longrightarrow> 0 \<le> off \<Longrightarrow> staged_ok (set2 t p off st)"
  by (simp add: staged_ok_def sorted2_set2 find2_set2)

lemma staged_ok_flat: "staged_ok st \<Longrightarrow> (t, p, off) \<in> set (flat st) \<Longrightarrow> 0 \<le> off"
  by (auto simp: staged_ok_def mem_flat)

lemma staged_ok_stage: "staged_ok st \<Longrightarrow> staged_ok (stage offs st)"
  unfolding stage_eq by (erule fold_keeps) (auto simp: staged_ok_one)

lemma staged_ok_Nil: "staged_ok []"
  by (simp add: staged_ok_def)

lemma keep_owned_eq: "keep_owned all st = fold (\<lambda>(t, p, off) kept. case om_find all t of None \<Rightarrow> kept
     | Some own \<Rightarrow> if p \<in> set own then set2 t p off kept else kept) (flat st) []"
  by (simp add: keep_owned_def fold_flat)

lemma staged_ok_keep: "staged_ok st \<Longrightarrow> staged_ok (keep_owned all st)"
  unfolding keep_owned_eq
  by (rule fold_keeps_mem [where P = staged_ok])
     (auto simp: staged_ok_Nil staged_ok_flat staged_ok_set2 split: option.split)

lemma keep_owned_only:
  "staged_ok st \<Longrightarrow> find2 (keep_owned all st) t p = Some off \<Longrightarrow> p \<in> set (parts all t)"
proof -
  assume "staged_ok st"
  let ?P = "\<lambda>k. sorted2 k \<and> (\<forall>off. find2 k t p = Some off \<longrightarrow> p \<in> set (parts all t))"
  have "?P (keep_owned all st)"
    unfolding keep_owned_eq
    by (rule fold_keeps) (auto simp: sorted2_set2 find2_set2 parts_def split: option.splits if_splits)
  then show "find2 (keep_owned all st) t p = Some off \<Longrightarrow> p \<in> set (parts all t)" by blast
qed

lemma stage_grows:
  assumes "sorted2 st" and "find2 st t p = Some x"
  shows "\<exists>y\<ge>x. find2 (stage offs st) t p = Some y"
proof -
  let ?P = "\<lambda>s. sorted2 s \<and> (\<exists>y\<ge>x. find2 s t p = Some y)"
  have "?P (stage offs st)"
    unfolding stage_eq using assms
    by (intro fold_keeps [where P = ?P]) (auto simp: stage_one_def sorted2_set2 find2_set2 split: option.splits)
  then show ?thesis by blast
qed

lemma stage_takes:
  assumes "sorted2 st" and "(t, p, off) \<in> set xs"
  shows "\<exists>y\<ge>off. find2 (fold (\<lambda>(t, p, off). stage_one t p off) xs st) t p = Some y"
  using assms
proof (induction xs arbitrary: st)
  case (Cons a xs)
  obtain u q x where a: "a = (u, q, x)" by (cases a)
  have s: "sorted2 (stage_one u q x st)" using Cons.prems by (simp add: stage_one_def sorted2_set2)
  show ?case
  proof (cases "(t, p, off) = a")
    case True
    let ?P = "\<lambda>s. sorted2 s \<and> (\<exists>y\<ge>off. find2 s t p = Some y)"
    have "?P (stage_one u q x st)"
      using True Cons.prems(1) by (auto simp: a stage_one_def sorted2_set2 find2_set2)
    then have "?P (fold (\<lambda>(t, p, off). stage_one t p off) xs (stage_one u q x st))"
      by (rule fold_keeps) (auto simp: stage_one_def sorted2_set2 find2_set2 split: option.splits)
    then show ?thesis by (simp add: a)
  next
    case False
    with Cons.prems have "(t, p, off) \<in> set xs" by simp
    from Cons.IH [OF s this] show ?thesis by (simp only: a fold_Cons comp_apply prod.case)
  qed
qed simp


text \<open>Staging takes the larger of the two offsets of a partition, and what only one side has.\<close>

fun max_offset :: "int option \<Rightarrow> int option \<Rightarrow> int option" where
  "max_offset None y = y"
| "max_offset x None = x"
| "max_offset (Some x) (Some y) = Some (max x y)"

lemma stage_from:
  assumes offs: "staged_ok offs" and st: "staged_ok st" and y: "find2 (stage offs st) t p = Some y"
  shows "find2 offs t p = Some y \<or> find2 st t p = Some y"
proof -
  let ?P = "\<lambda>s. sorted2 s \<and> (\<forall>t p y. find2 s t p = Some y \<longrightarrow> find2 offs t p = Some y \<or> find2 st t p = Some y)"
  have one: "?P (stage_one t p off s)" if x: "(t, p, off) \<in> set (flat offs)" and s: "?P s" for t p off s
  proof -
    have off: "find2 offs t p = Some off" "0 \<le> off"
      using x offs by (auto simp: staged_ok_def mem_flat)
    show ?thesis
    proof (cases "find2 s t p")
      case (Some a)
      with s have "find2 offs t p = Some a \<or> find2 st t p = Some a" by blast
      with off(1) have "a = off \<or> find2 st t p = Some a" by auto
      with Some s off show ?thesis by (auto simp: stage_one_def sorted2_set2 find2_set2 max_def)
    qed (use s off in \<open>auto simp: stage_one_def sorted2_set2 find2_set2\<close>)
  qed
  have "?P (stage offs st)"
    unfolding stage_eq
  proof (rule fold_keeps_mem [where P = ?P])
    show "?P st" using st by (simp add: staged_ok_def)
    fix x s
    assume x: "x \<in> set (flat offs)" and s: "?P s"
    obtain t p off where xe: "x = (t, p, off)" by (rule prod_cases3)
    have x': "(t, p, off) \<in> set (flat offs)" using x unfolding xe .
    show "?P ((\<lambda>(t, p, off). stage_one t p off) x s)"
      unfolding xe prod.case by (rule one [OF x' s])
  qed
  then show ?thesis using y by blast
qed

lemma stage_find:
  assumes offs: "staged_ok offs" and st: "staged_ok st"
  shows "find2 (stage offs st) t p = max_offset (find2 offs t p) (find2 st t p)"
proof -
  have above: "\<exists>y\<ge>off. find2 (stage offs st) t p = Some y" if "find2 offs t p = Some off" for off
    using stage_takes [of st t p off "flat offs"] that offs st by (simp add: stage_eq staged_ok_def mem_flat)
  have grows: "\<exists>y\<ge>x. find2 (stage offs st) t p = Some y" if "find2 st t p = Some x" for x
    using stage_grows [OF _ that] st by (simp add: staged_ok_def)
  have only: "find2 offs t p = Some y \<or> find2 st t p = Some y" if "find2 (stage offs st) t p = Some y" for y
    by (rule stage_from [OF offs st that])
  show ?thesis
  proof (cases "find2 (stage offs st) t p")
    case None
    then show ?thesis using above grows by (cases "find2 offs t p"; cases "find2 st t p") auto
  next
    case (Some y)
    then show ?thesis using above grows only [OF Some] by (cases "find2 offs t p"; cases "find2 st t p") fastforce+
  qed
qed

lemma stage_mentions:
  assumes "sorted2 st" and "find2 (fold stage offers st) t p \<noteq> None"
  shows "find2 st t p \<noteq> None \<or> (\<exists>offs\<in>set offers. \<exists>off. (t, p, off) \<in> set (flat offs))"
proof -
  let ?P = "\<lambda>s. sorted2 s \<and> (find2 s t p \<noteq> None \<longrightarrow>
    find2 st t p \<noteq> None \<or> (\<exists>offs\<in>set offers. \<exists>off. (t, p, off) \<in> set (flat offs)))"
  have "?P (stage offs s)" if "offs \<in> set offers" "?P s" for offs s
    unfolding stage_eq
    by (rule fold_keeps_mem [where P = ?P])
       (use that in \<open>auto simp: stage_one_def sorted2_set2 find2_set2 split: if_splits\<close>)
  then have "?P (fold stage offers st)"
    by (intro fold_keeps_mem [where P = ?P]) (use assms(1) in auto)
  then show ?thesis using assms(2) by blast
qed

section \<open>The owner stays consistent\<close>

definition owner_ok :: "owner \<Rightarrow> bool" where
  "owner_ok ow \<longleftrightarrow> finite (attached ow) \<and> refs ow = card (attached ow) \<and> staged_ok (staged ow)"

definition process_ok :: "process \<Rightarrow> bool" where
  "process_ok w \<longleftrightarrow> om_sorted (owners w) \<and> (\<forall>i. om_sorted (caches w i)) \<and>
     (\<forall>g ow. om_find (owners w) g = Some ow \<longrightarrow> owner_ok ow)"

lemma process_okD: "process_ok w \<Longrightarrow> om_find (owners w) g = Some ow \<Longrightarrow> owner_ok ow"
  by (simp add: process_ok_def)

lemma put_owner_ok: "process_ok w \<Longrightarrow> owner_ok ow \<Longrightarrow> process_ok (put_owner g ow w)"
  by (auto simp: process_ok_def put_owner_def om_sorted_set om_find_set split: if_splits)

lemma put_owner_simps [simp]:
  "shard_count (put_owner g ow w) = shard_count w" "caches (put_owner g ow w) = caches w"
  "accepted (put_owner g ow w) = accepted w"
  by (simp_all add: put_owner_def)

lemma put_owner_find: "om_sorted (owners w) \<Longrightarrow>
    om_find (owners (put_owner g ow w)) h = (if h = g then Some ow else om_find (owners w) h)"
  by (simp add: put_owner_def om_find_set)

lemma process_ok_accepted [simp]: "process_ok (w\<lparr>accepted := a\<rparr>) = process_ok w"
  by (simp add: process_ok_def)

lemma publish_ok: "process_ok w \<Longrightarrow> process_ok (publish g ow w)"
  by (auto simp: process_ok_def publish_def om_sorted_set)

lemma staged_ok_offers: "staged_ok st \<Longrightarrow> staged_ok (fold stage offers st)"
  by (erule fold_keeps) (rule staged_ok_stage)

lemma take_offers_simps [simp]:
  "attached (take_offers env at ow) = attached ow" "refs (take_offers env at ow) = refs ow"
  "ow_cfg (take_offers env at ow) = ow_cfg ow" "ow_group (take_offers env at ow) = ow_group ow"
  "ow_generation (take_offers env at ow) = ow_generation ow" "full (take_offers env at ow) = full ow"
  "timers (take_offers env at ow) = timers ow"
  by (simp_all add: take_offers_def)

lemma owner_ok_offers: "owner_ok ow \<Longrightarrow> owner_ok (take_offers env at ow)"
  by (simp add: owner_ok_def take_offers_def staged_ok_offers)

lemma commit_staged_keeps:
  assumes "commit_staged env g ow w = (ow', w')"
  shows "owner_ok ow \<Longrightarrow> owner_ok ow'" and "process_ok w \<Longrightarrow> process_ok w'"
    and "attached ow' = attached ow" and "refs ow' = refs ow" and "ow_cfg ow' = ow_cfg ow"
    and "owners w' = owners w" and "shard_count w' = shard_count w" and "caches w' = caches w"
  using assms
  by (auto simp: commit_staged_def Let_def owner_ok_def take_offers_def staged_ok_Nil staged_ok_offers staged_ok_stage
      split: if_splits sum.splits prod.splits)

lemma do_join_ok: "owner_ok ow \<Longrightarrow> process_ok w \<Longrightarrow> process_ok (snd (do_join env g ow w))"
proof -
  assume ow: "owner_ok ow" and w: "process_ok w"
  let ?c = "if ow_generation ow \<ge> 0 then commit_staged env g ow w else (ow, w)"
  obtain ow1 w1 where c: "?c = (ow1, w1)" by fastforce
  then have ok: "owner_ok ow1" "process_ok w1"
    using ow w commit_staged_keeps(1,2) [of env g ow w ow1 w1] by (auto split: if_splits)
  obtain r gs z where j: "join (oe_join env) (ow_cfg ow1) (ow_group ow1) = (r, gs, z)" by (rule prod_cases3)
  obtain r2 gs2 z2 where f: "fetch_offsets (oe_fetch env) (ow_cfg ow1) gs = (r2, gs2, z2)" by (rule prod_cases3)
  show ?thesis
    unfolding do_join_def c using ok j f
    by (cases r; cases r2)
       (auto simp: Let_def owner_ok_def take_offers_def staged_ok_keep staged_ok_offers intro!: put_owner_ok publish_ok)
qed

lemma ensure_joined_ok: "owner_ok ow \<Longrightarrow> process_ok w \<Longrightarrow> process_ok (snd (ensure_joined env g ow w))"
  by (simp add: ensure_joined_def put_owner_ok do_join_ok)

lemma arm_timers_ok: "process_ok w \<Longrightarrow> process_ok (arm_timers g w)"
  by (auto simp: arm_timers_def owner_ok_def dest: process_okD intro!: put_owner_ok split: option.split)

lemma attach_shard_ok: "owner_ok ow \<Longrightarrow> process_ok w \<Longrightarrow> process_ok (snd (attach_shard env g i ow w))"
proof -
  assume ow: "owner_ok ow" and w: "process_ok w"
  let ?ow = "ow\<lparr>attached := insert i (attached ow), refs := (if i \<notin> attached ow then refs ow + 1 else refs ow)\<rparr>"
  obtain r w1 where j: "ensure_joined env g ?ow w = (r, w1)" by fastforce
  have "owner_ok ?ow" using ow by (auto simp: owner_ok_def insert_absorb)
  then have "process_ok w1" using ensure_joined_ok [of ?ow w env g] w j by simp
  then show ?thesis
    by (cases r) (simp_all add: attach_shard_def Let_def j arm_timers_ok)
qed

lemma attach_ok: "process_ok w \<Longrightarrow> process_ok (snd (attach env cfg i w))"
proof -
  assume w: "process_ok w"
  have fresh: "owner_ok (fresh_owner cfg)" "owner_ok ((fresh_owner cfg)\<lparr>ow_group := gs\<rparr>)" for gs
    by (simp_all add: owner_ok_def fresh_owner_def staged_ok_Nil)
  have "process_ok (snd (attach_on_zero env cfg i w))"
    using w fresh process_okD [OF w]
    by (auto simp: attach_on_zero_def Let_def put_owner_ok attach_shard_ok split: option.split sum.split)
  then show ?thesis by (auto simp: attach_def split: prod.split sum.split)
qed

lemma offer_ok: "process_ok w \<Longrightarrow> process_ok (offer g offs w)"
  by (auto simp: offer_def owner_ok_def staged_ok_stage dest: process_okD intro!: put_owner_ok split: option.split)

lemma commit_now_ok: "process_ok w \<Longrightarrow> process_ok (commit_now env g w)"
  by (auto simp: commit_now_def dest: process_okD commit_staged_keeps intro!: put_owner_ok split: option.split prod.split)

lemma detach_ok: "process_ok w \<Longrightarrow> process_ok (detach env g i w)"
proof (cases "om_find (owners w) g")
  case (Some ow)
  assume w: "process_ok w"
  let ?ow = "ow\<lparr>attached := attached ow - {i}, refs := refs ow - 1\<rparr>"
  have ow: "owner_ok ow" using w Some by (rule process_okD)
  have "process_ok (case commit_staged env g x w of (ow, w) \<Rightarrow> w\<lparr>owners := om_remove g (owners w)\<rparr>)" for x
  proof -
    obtain ow1 w1 where c: "commit_staged env g x w = (ow1, w1)" by fastforce
    have "process_ok w1" using commit_staged_keeps(2) [OF c w] .
    then have "process_ok (w1\<lparr>owners := om_remove g (owners w1)\<rparr>)"
      by (auto simp: process_ok_def om_sorted_remove om_find_remove split: if_splits)
    then show ?thesis by (simp add: c)
  qed
  moreover have "process_ok (put_owner g ?ow w)" if "i \<in> attached ow"
    using ow that by (intro put_owner_ok [OF w]) (simp add: owner_ok_def)
  ultimately show ?thesis using w Some by (simp add: detach_def Let_def)
qed (simp add: detach_def)

lemma heartbeat_tick_ok: "process_ok w \<Longrightarrow> process_ok (heartbeat_tick env g w)"
proof (cases "om_find (owners w) g")
  case (Some ow)
  assume w: "process_ok w"
  then have "owner_ok ow" using Some by (rule process_okD)
  then have "owner_ok (ow\<lparr>ow_group := gs\<rparr>)" for gs by (simp add: owner_ok_def)
  then have ow: "owner_ok (take_offers env Beating (ow\<lparr>ow_group := gs\<rparr>))" for gs by (rule owner_ok_offers)
  then have "owner_ok ((take_offers env Beating (ow\<lparr>ow_group := gs\<rparr>))\<lparr>ow_generation := - 1\<rparr>)" for gs
    using ow [of gs] by (simp add: owner_ok_def)
  with w Some ow show ?thesis
    by (auto simp: heartbeat_tick_def Let_def put_owner_ok ensure_joined_ok split: prod.split sum.split)
qed (simp add: heartbeat_tick_def)

lemma commit_tick_ok: "process_ok w \<Longrightarrow> process_ok (commit_tick env g w)"
  by (auto simp: commit_tick_def commit_now_ok split: option.split)

lemma member_step_ok: "process_ok w \<Longrightarrow> process_ok (member_step ev w)"
  by (cases "(ev, w)" rule: member_step.cases)
     (simp_all add: attach_ok offer_ok commit_now_ok detach_ok heartbeat_tick_ok commit_tick_ok)

lemma members_ok: "process_ok (fold member_step evs (new_process n))"
  by (rule fold_keeps) (simp_all add: member_step_ok, simp add: process_ok_def new_process_def)


section \<open>Properties\<close>

text \<open> the partitions of a group are divided over the shards of the process without a gap or an
overlap: every partition number belongs to exactly one shard, and a shard's slice of a topic is
the sublist of the member's partitions it owns, in their order.\<close>

theorem shards_share_disjointly:
  assumes "om_sorted all" and "0 < shards"
  shows "parts (shard_share all i shards) t = filter (shard_owns i shards) (parts all t) \<and>
    (\<exists>!j. j < shards \<and> shard_owns j shards p)"
  using shard_share_parts [OF assms] one_shard_owns [OF assms(2)] by blast

theorem shards_share_disjointly_witness:
  "parts (shard_share [([116], [0, 1, 2, 5])] 1 2) [116] = filter (shard_owns 1 2) [0, 1, 2, 5] \<and>
   (\<exists>!j. j < 2 \<and> shard_owns j 2 5)"
  using shards_share_disjointly [of "[([116], [0, 1, 2, 5])]" 2 1 "[116]" 5] by (simp add: parts_def)

text \<open> whatever the shards do and the brokers answer, the reference count of a group is the number
of shards attached to it, however often a shard attached again, and the group is given up exactly
when its last attached shard detaches: a stray detach leaves it alone.\<close>

theorem attached_shards_hold_the_group:
  "case om_find (owners (fold member_step evs (new_process n))) g of
     None \<Rightarrow> om_find (owners (detach env g i (fold member_step evs (new_process n)))) g = None
   | Some ow \<Rightarrow> refs ow = card (attached ow) \<and>
       (om_find (owners (detach env g i (fold member_step evs (new_process n)))) g = None \<longleftrightarrow> attached ow = {i})"
proof (cases "om_find (owners (fold member_step evs (new_process n))) g")
  case None
  then show ?thesis by (simp add: detach_def)
next
  case (Some ow)
  let ?w = "fold member_step evs (new_process n)"
  have w: "process_ok ?w" by (rule members_ok)
  then have ow: "owner_ok ow" using Some by (rule process_okD)
  have srt: "om_sorted (owners ?w)" using w by (simp add: process_ok_def)
  have gone: "om_find (owners (case commit_staged env g x ?w of (ow, w) \<Rightarrow> w\<lparr>owners := om_remove g (owners w)\<rparr>)) g = None" for x
  proof -
    obtain ow1 w1 where c: "commit_staged env g x ?w = (ow1, w1)" by fastforce
    show ?thesis using srt by (simp add: c commit_staged_keeps(6) [OF c] om_find_remove)
  qed
  have "om_find (owners (detach env g i ?w)) g = None \<longleftrightarrow> attached ow = {i}"
  proof (cases "i \<in> attached ow")
    case True
    then have "card (attached ow) - 1 = card (attached ow - {i})"
      using ow by (simp add: owner_ok_def)
    moreover have "attached ow - {i} = {} \<longleftrightarrow> attached ow = {i}" using True by auto
    ultimately have last: "card (attached ow) - 1 > 0 \<longleftrightarrow> attached ow \<noteq> {i}"
      using ow by (simp add: owner_ok_def card_gt_0_iff)
    show ?thesis
    proof (cases "attached ow = {i}")
      case True
      then show ?thesis using Some ow gone by (simp add: detach_def Let_def owner_ok_def)
    next
      case False
      then show ?thesis
        using Some ow last True srt by (simp add: detach_def Let_def owner_ok_def put_owner_find)
    qed
  qed (use Some in \<open>auto simp: detach_def\<close>)
  with Some ow show ?thesis by (simp add: owner_ok_def)
qed

text \<open> a join that succeeds leaves every shard of the process with the slice of the new assignment
under the new generation, with the committed offsets of exactly its own partitions, and an offset
stays staged for a partition the member no longer owns only if it was offered after the assignment
had been taken, while the committed offsets were read.\<close>

theorem join_publishes_the_slices:
  assumes "process_ok w" and "owner_ok ow" and "do_join env g ow w = (Inr (), w')"
  shows "\<exists>ow'. om_find (owners w') g = Some ow' \<and>
    (\<forall>i < shard_count w. current w' i g = slice ow' (shard_count w) i \<and>
       (\<forall>t p. find2 (sa_committed (current w' i g)) t p =
          (if p \<in> set (parts (sa_partitions (current w' i g)) t) then find2 (ow_committed ow') t p else None))) \<and>
    (\<forall>t p. find2 (staged ow') t p \<noteq> None \<longrightarrow> p \<in> set (parts (full ow') t) \<or>
       (\<exists>offs\<in>set (oe_offers env Reading_Committed). \<exists>off. (t, p, off) \<in> set (flat offs)))"
proof -
  let ?c = "if ow_generation ow \<ge> 0 then commit_staged env g ow w else (ow, w)"
  obtain ow1 w1 where c: "?c = (ow1, w1)" by fastforce
  then have ok: "owner_ok ow1" "process_ok w1" and n: "shard_count w1 = shard_count w"
    using assms(1,2) commit_staged_keeps(1,2,7) [of env g ow w ow1 w1] by (auto split: if_splits)
  obtain r gs z where j: "join (oe_join env) (ow_cfg ow1) (ow_group ow1) = (r, gs, z)" by (rule prod_cases3)
  obtain r2 gs2 z2 where f: "fetch_offsets (oe_fetch env) (ow_cfg ow1) gs = (r2, gs2, z2)" by (rule prod_cases3)
  from assms(3) c j f obtain pm offs where pm: "r = Inr pm" "r2 = Inr offs"
    by (cases r; cases r2) (simp_all add: do_join_def Let_def)
  let ?ow = "take_offers env Joining (ow1\<lparr>ow_group := gs\<rparr>)"
  let ?kept = "keep_owned pm (staged ?ow)"
  define ow2 where "ow2 = (take_offers env Reading_Committed (?ow\<lparr>full := pm, ow_generation := generation gs,
      staged := ?kept, ow_group := gs2\<rparr>))\<lparr>ow_committed := offs\<rparr>"
  have kept: "staged_ok (staged ?ow)"
    using ok(1) by (simp add: owner_ok_def take_offers_def staged_ok_offers)
  have w': "w' = publish g ow2 (put_owner g ow2 w1)"
    using assms(3) c j f pm by (simp add: do_join_def Let_def ow2_def)
  have srt: "om_sorted (owners w1)" "om_sorted (caches w1 i)" for i
    using ok(2) by (auto simp: process_ok_def)
  have cur: "current w' i g = slice ow2 (shard_count w) i" if "i < shard_count w" for i
    using that n srt by (simp add: current_def w' publish_def om_find_set)
  have "find2 (sa_committed (slice ow2 k i)) t p =
      (if p \<in> set (parts (sa_partitions (slice ow2 k i)) t) then find2 (ow_committed ow2) t p else None)" for k i t p
    by (simp add: slice_def Let_def slice_committed_find om_sorted_share)
  moreover have "p \<in> set (parts (full ow2) t) \<or>
      (\<exists>offs\<in>set (oe_offers env Reading_Committed). \<exists>off. (t, p, off) \<in> set (flat offs))"
    if st: "find2 (staged ow2) t p \<noteq> None" for t p
  proof -
    have "sorted2 ?kept" using staged_ok_keep [OF kept, of pm] by (simp add: staged_ok_def)
    moreover have "find2 (fold stage (oe_offers env Reading_Committed) ?kept) t p \<noteq> None"
      using st by (simp add: ow2_def take_offers_def)
    ultimately have "find2 ?kept t p \<noteq> None \<or>
        (\<exists>offs\<in>set (oe_offers env Reading_Committed). \<exists>off. (t, p, off) \<in> set (flat offs))"
      by (rule stage_mentions)
    then show ?thesis using keep_owned_only [OF kept, of pm t p] by (auto simp: ow2_def)
  qed
  moreover have "om_find (owners w') g = Some ow2"
    using srt by (simp add: w' publish_def put_owner_find)
  ultimately show ?thesis using cur by (intro exI [of _ ow2]) simp
qed

text \<open>C13: a commit of the staged offsets loses none, whatever the shards offer while the coordinator is
asked.  When the coordinator takes the commit, it has taken all that was staged, and what stays
staged is exactly what was offered meanwhile; when it refuses, every partition keeps the larger of
the offset that was to be committed and the one offered meanwhile, so nothing is lost and nothing
moves back.  With nothing staged, or without a generation, nothing happens.\<close>

theorem commit_staged_loses_nothing:
  assumes "owner_ok ow" and "commit_staged env g ow w = (ow', w')"
  shows "if staged ow = [] \<or> ow_generation ow < 0 then ow' = ow \<and> w' = w
    else case fst (commit (oe_commit env) (ow_cfg ow) (staged ow) (ow_group ow)) of
      Inr _ \<Rightarrow> (\<exists>n. accepted w' = accepted w @ [(g, n, staged ow)]) \<and>
        staged ow' = fold stage (oe_offers env Committing) []
    | Inl _ \<Rightarrow> accepted w' = accepted w \<and>
        (\<forall>t p. find2 (staged ow') t p =
          max_offset (find2 (staged ow) t p) (find2 (fold stage (oe_offers env Committing) []) t p))"
proof -
  have "staged_ok (staged ow)" using assms(1) by (simp add: owner_ok_def)
  then have "find2 (stage (staged ow) (fold stage offers [])) t p =
      max_offset (find2 (staged ow) t p) (find2 (fold stage offers []) t p)" for offers t p
    by (rule stage_find) (rule staged_ok_offers [OF staged_ok_Nil])
  with assms(2) show ?thesis
    by (auto simp: commit_staged_def Let_def take_offers_def split: if_splits sum.splits prod.splits)
qed


subsection \<open>A concrete member\<close>

definition demo_pm :: partition_map where "demo_pm = [([116], [0, 2, 3])]"

definition demo_brokers :: group_env where
  "demo_brokers = \<lparr>ge_broker = (\<lambda>_. Inr ()), ge_metadata = (\<lambda>_. Inr \<lparr>mr_brokers = [], mr_topics = []\<rparr>),
     ge_find_version = 0, ge_find = (\<lambda>_. Inr \<lparr>fc_error = 0, fc_node = 5, fc_coordinators = []\<rparr>),
     ge_join = (\<lambda>_. Inr \<lparr>jr_error = 0, jr_member_id = [109], jr_generation = 7, jr_leader = [], jr_protocol = None,
       jr_members = []\<rparr>),
     ge_sync = (\<lambda>_. Inr (0, encode_assignment demo_pm)), ge_heartbeat = Inr 27, ge_fetch_version = 1,
     ge_fetch = Inr \<lparr>of_error = 0, of_topics = [\<lparr>oft_name = [116], oft_id = zero_uuid,
         oft_partitions = [\<lparr>ofp_index = 2, ofp_offset = 40, ofp_error = 0\<rparr>, \<lparr>ofp_index = 3, ofp_offset = - 1, ofp_error = 0\<rparr>]\<rparr>],
       of_groups = []\<rparr>,
     ge_commit = (\<lambda>_. Inr [(0, 0)]), ge_leave = (\<lambda>_. Inr ())\<rparr>"

definition demo_answers :: owner_env where
  "demo_answers = \<lparr>oe_offers = (\<lambda>at. if at = Committing then [[([116], [(0, 7), (2, 3)])]] else []), oe_refresh = Inr \<lparr>mr_brokers = [], mr_topics = []\<rparr>, oe_commit = (\<lambda>_. demo_brokers),
     oe_join = (\<lambda>_. demo_brokers), oe_fetch = (\<lambda>_. demo_brokers), oe_heartbeat = (\<lambda>_. demo_brokers)\<rparr>"

definition demo_owner :: "int \<Rightarrow> owner" where
  "demo_owner gen = (fresh_owner \<lparr>group_id = [103], cfg_topics = [[116]], strategy = []\<rparr>)
     \<lparr>ow_generation := gen, staged := [([116], [(0, 9), (1, 4)])],
      ow_group := \<lparr>my_id = [109], generation = gen, coordinator_id = 5, is_leader = False, protocol_name = [],
        metadata = \<lparr>brokers = [], topics = []\<rparr>\<rparr>\<rparr>"

lemma demo_blob_decodes: "decode_assignment (encode_assignment demo_pm) = Inr demo_pm"
  by code_simp

lemma demo_owner_ok: "owner_ok (demo_owner gen)"
  by (auto simp: owner_ok_def demo_owner_def fresh_owner_def staged_ok_def sorted2_def find2_def
      split: option.splits if_splits)

lemmas demo_join_defs = demo_answers_def demo_brokers_def demo_owner_def fresh_owner_def retrying_def retry_loop.simps
  join_def join_once_def g_defs coordinator_def join_reply_def MEMBER_ID_REQUIRED_def err_none_def demo_blob_decodes
  fetch_offsets_def fetch_offsets_once_def fetched_offsets_def set_offset_def

lemma demo_join: "\<exists>w'. do_join demo_answers [103] (demo_owner (- 1)) (new_process 2) = (Inr (), w') \<and>
    current w' 0 [103] = \<lparr>sa_generation = 7, sa_partitions = [([116], [0, 2])], sa_committed = [([116], [(2, 40)])]\<rparr> \<and>
    current w' 1 [103] = \<lparr>sa_generation = 7, sa_partitions = [([116], [3])], sa_committed = []\<rparr>"
  by (simp add: do_join_def demo_join_defs Let_def)
     (simp add: demo_pm_def new_process_def publish_def put_owner_def current_def slice_def Let_def
      shard_share_def pairs_of_def shard_owns_def parts_def slice_committed_def set2_def find2_def)

theorem join_publishes_the_slices_witness:
  "\<exists>w' ow'. do_join demo_answers [103] (demo_owner (- 1)) (new_process 2) = (Inr (), w') \<and>
     om_find (owners w') [103] = Some ow' \<and> current w' 1 [103] = slice ow' 2 1 \<and>
     sa_partitions (current w' 1 [103]) = [([116], [3])]"
proof -
  obtain w' where w': "do_join demo_answers [103] (demo_owner (- 1)) (new_process 2) = (Inr (), w')"
    "sa_partitions (current w' 1 [103]) = [([116], [3])]"
    using demo_join by auto
  have "process_ok (new_process 2)" by (simp add: process_ok_def new_process_def)
  from join_publishes_the_slices [OF this demo_owner_ok w'(1)] w' show ?thesis
    by (auto simp: new_process_def)
qed

definition demo_refusing :: owner_env where
  "demo_refusing = demo_answers\<lparr>oe_commit := (\<lambda>_. demo_brokers\<lparr>ge_commit := (\<lambda>_. Inr [(0, 29)])\<rparr>)\<rparr>"

lemma demo_refused: "fst (commit (oe_commit demo_refusing) (ow_cfg (demo_owner 3)) (staged (demo_owner 3)) (ow_group (demo_owner 3))) = Inl (Broker_Error 29)"
  by code_simp

theorem commit_staged_loses_nothing_witness:
  "\<exists>ow' w'. commit_staged demo_refusing [103] (demo_owner 3) (new_process 2) = (ow', w') \<and> accepted w' = [] \<and>
     map (\<lambda>p. find2 (staged ow') [116] p) [0, 1, 2, 3] = [Some 9, Some 4, Some 3, None]"
proof -
  obtain ow' w' where c: "commit_staged demo_refusing [103] (demo_owner 3) (new_process 2) = (ow', w')"
    by fastforce
  have "staged (demo_owner 3) \<noteq> []" "\<not> ow_generation (demo_owner 3) < 0" by (simp_all add: demo_owner_def fresh_owner_def)
  with commit_staged_loses_nothing [OF demo_owner_ok c] demo_refused
  have "accepted w' = accepted (new_process 2)" and st: "find2 (staged ow') t p = max_offset
      (find2 (staged (demo_owner 3)) t p) (find2 (fold stage (oe_offers demo_refusing Committing) []) t p)" for t p
    by auto
  moreover have "map (\<lambda>p. find2 (staged ow') [116] p) [0, 1, 2, 3] = [Some 9, Some 4, Some 3, None]"
    unfolding list.map st
    by (simp add: demo_refusing_def demo_answers_def demo_owner_def fresh_owner_def stage_def stage_one_def set2_def find2_def)
  ultimately show ?thesis using c by (simp add: new_process_def)
qed

section \<open>What the rejoin does not do\<close>

text \<open>
  \<open>do_join\<close> revokes first when a generation is held, but both of its callers clear or lack the
  generation before they call it, so neither a heartbeat nor an attach ever commits what is staged.
\<close>

lemma accepted_publish [simp]: "accepted (publish g ow w) = accepted w"
  by (simp add: publish_def)

lemma ensure_joined_accepted: "accepted (snd (ensure_joined env g ow w)) = accepted w"
  by (auto simp: ensure_joined_def do_join_def Let_def split: sum.split prod.split)

lemma accepted_arm: "accepted (arm_timers g w) = accepted w"
  by (simp add: arm_timers_def split: option.split)

lemma rejoin_commits_nothing:
  "accepted (heartbeat_tick env g w) = accepted w" "accepted (snd (attach env cfg i w)) = accepted w"
proof -
  show "accepted (heartbeat_tick env g w) = accepted w"
    by (auto simp: heartbeat_tick_def Let_def ensure_joined_accepted split: option.split prod.split sum.split)
  have shard: "accepted (snd (attach_shard env h i ow v)) = accepted v" for h ow v
  proof -
    let ?ow = "ow\<lparr>attached := insert i (attached ow), refs := (if i \<notin> attached ow then refs ow + 1 else refs ow)\<rparr>"
    obtain r w1 where j: "ensure_joined env h ?ow v = (r, w1)" by fastforce
    then have "accepted w1 = accepted v" using ensure_joined_accepted [of env h ?ow v] by simp
    then show ?thesis
      by (cases r) (simp_all add: attach_shard_def Let_def j accepted_arm)
  qed
  have zero: "accepted (snd (attach_on_zero env cfg i w)) = accepted w"
    by (simp add: attach_on_zero_def Let_def shard split: option.split sum.split)
  obtain r w1 where "attach_on_zero env cfg i w = (r, w1)" by fastforce
  with zero show "accepted (snd (attach env cfg i w)) = accepted w"
    by (cases r) (simp_all add: attach_def)
qed

text \<open>
  A join whose \<open>OffsetFetch\<close> fails keeps the new generation without having published it, and with a
  generation held no later attach joins or publishes again.
\<close>

lemma failed_fetch_is_not_published:
  assumes "ow_generation ow < 0" and "join (oe_join env) (ow_cfg ow) (ow_group ow) = (Inr pm, gs, z)"
    and "fetch_offsets (oe_fetch env) (ow_cfg ow) gs = (Inl e, gs2, z2)"
  shows "\<exists>ow'. do_join env g ow w = (Inl e, put_owner g ow' w) \<and> ow_generation ow' = generation gs \<and> full ow' = pm"
  unfolding do_join_def Let_def using assms by (auto intro!: exI)

lemma attach_does_not_publish_again:
  "om_find (owners w) (group_id cfg) = Some ow \<Longrightarrow> 0 \<le> ow_generation ow \<Longrightarrow>
   caches (snd (attach env cfg i w)) = caches w"
  by (auto simp: attach_def attach_on_zero_def attach_shard_def ensure_joined_def Let_def arm_timers_def
      split: option.split)

text \<open>
  A shard notices a rebalance after the fact and only then offers what it has finished, so an offset
  of a partition that was given away is staged after the join and committed under the new generation.
\<close>

lemma late_offer_is_committed:
  assumes "process_ok w" and "om_find (owners w) g = Some ow" and "timers ow" and "0 \<le> ow_generation ow"
    and "p \<notin> set (parts (full ow) t)"
    and "\<And>offs gs. \<exists>gs' z. commit (oe_commit env) (ow_cfg ow) offs gs = (Inr (), gs', z)"
  shows "\<exists>n offs. accepted (commit_tick env g (offer g [(t, [(p, off)])] w)) = accepted w @ [(g, n, offs)] \<and>
    find2 offs t p \<noteq> None"
proof -
  have srt: "om_sorted (owners w)" and st: "staged_ok (staged ow)"
    using assms(1) process_okD [OF assms(1,2)] by (simp_all add: process_ok_def owner_ok_def)
  let ?st = "stage [(t, [(p, off)])] (staged ow)"
  have find: "find2 ?st t p \<noteq> None"
    using st by (simp add: stage_def stage_one_def staged_ok_def find2_set2)
  then have ne: "?st \<noteq> []" by (auto simp: find2_def)
  obtain gs' z where c: "commit (oe_commit env) (ow_cfg ow) ?st (ow_group ow) = (Inr (), gs', z)"
    using assms(6) by blast
  show ?thesis
    using assms(2,3,4) srt ne c find
    by (simp add: offer_def commit_tick_def commit_now_def commit_staged_def Let_def put_owner_find)
qed

end
