(* ===== verification/Stream.thy ===== *)
theory Stream
  imports Acks "HOL-Library.Multiset"
begin

text \<open>
  \<open>src/runtime/stream.cc\<close>: the three layers of a stream (input, pipeline, output) between two bounded
  queues, and its forced shutdown.  Every handler is a function on the state of the stream; a step
  relation interleaves them at the suspension points of the fibers.  What the input delivers, what a
  processor answers and whether a write succeeds are chosen by the environment.  \<open>seastar::queue\<close> is
  a list that is pushed at the back and popped at the front; after \<open>abort\<close> it refuses both.
\<close>

section \<open>Messages, acknowledgements and counters\<close>

type_synonym failure = bytes

record error_source =
  es_name :: bytes
  es_label :: bytes
  es_path :: bytes

record 'c message =
  content :: 'c
  msg_error :: failure
  msg_source :: "error_source option"

type_synonym 'c batch = "'c message list"

definition has_error :: "'c message \<Rightarrow> bool" where
  "has_error m \<longleftrightarrow> msg_error m \<noteq> []"

definition set_error :: "failure \<Rightarrow> error_source \<Rightarrow> 'c message \<Rightarrow> 'c message" where
  "set_error e src m = m\<lparr>msg_error := e, msg_source := Some src\<rparr>"

text \<open>Whose acknowledgement a transaction carries: the source's, or that of a child of its group.\<close>

datatype ack_ref = Source nat | Child nat

type_synonym 'c txn = "'c batch \<times> ack_ref"

text \<open>
  The acknowledgements of the batches read so far, numbered in order: the calls the source got, the
  groups, and as history what was split, filtered and written.
\<close>

record 'c book =
  next_id :: nat
  calls :: "(nat \<times> failure option) list"
  groups :: "nat \<Rightarrow> failure ack_group option"
  split_into :: "nat \<Rightarrow> 'c batch list"
  filtered_ids :: "nat set"
  written :: "(nat \<times> 'c batch) list"

record counters =
  c_batch_received :: nat
  c_received :: nat
  c_batch_sent :: nat
  c_sent :: nat
  c_errors :: nat

record stats =
  batches_in :: nat
  batches_out :: nat
  messages_in :: nat
  messages_out :: nat
  acks :: nat
  nacks :: nat
  filtered :: nat
  proc_errors :: nat
  comps :: "counters list"

definition no_counts :: counters where
  "no_counts = \<lparr>c_batch_received = 0, c_received = 0, c_batch_sent = 0, c_sent = 0, c_errors = 0\<rparr>"

text \<open>\<open>if (i < _comp.size())\<close> guards every update.\<close>

definition count :: "nat \<Rightarrow> (counters \<Rightarrow> counters) \<Rightarrow> stats \<Rightarrow> stats" where
  "count i f s = (if i < length (comps s) then s\<lparr>comps := (comps s)[i := f (comps s ! i)]\<rparr> else s)"

definition count_received :: "nat \<Rightarrow> nat \<Rightarrow> stats \<Rightarrow> stats" where
  "count_received i n = count i (\<lambda>c. c\<lparr>c_batch_received := c_batch_received c + 1, c_received := c_received c + n\<rparr>)"

definition count_sent :: "nat \<Rightarrow> nat \<Rightarrow> stats \<Rightarrow> stats" where
  "count_sent i n = count i (\<lambda>c. c\<lparr>c_batch_sent := c_batch_sent c + 1, c_sent := c_sent c + n\<rparr>)"

definition count_error :: "nat \<Rightarrow> stats \<Rightarrow> stats" where
  "count_error i = count i (\<lambda>c. c\<lparr>c_errors := c_errors c + 1\<rparr>)"

section \<open>The processors of a pipeline\<close>

text \<open>A processor is its name and what it answers to a batch.\<close>

type_synonym 'c processor = "bytes \<times> ('c batch \<Rightarrow> failure + 'c batch list)"

definition one_proc_error :: "nat \<Rightarrow> stats \<Rightarrow> stats" where
  "one_proc_error i st = count_error (Suc i) (st\<lparr>proc_errors := proc_errors st + 1\<rparr>)"

fun run_stage :: "bool \<Rightarrow> 'c processor \<Rightarrow> nat \<Rightarrow> 'c batch list \<Rightarrow> 'c batch list \<Rightarrow> stats \<Rightarrow>
    failure option \<times> 'c batch list \<times> stats" where
  "run_stage strict p i [] nxt st = (None, nxt, st)"
| "run_stage strict p i (b # bs) nxt st =
     (if b = [] then run_stage strict p i bs nxt st
      else let st = count_received (Suc i) (length b) st
           in case snd p b of
             Inr out \<Rightarrow>
               (let outs = filter (\<lambda>ob. ob \<noteq> []) out
                in run_stage strict p i bs (nxt @ outs) (fold (\<lambda>ob. count_sent (Suc i) (length ob)) outs st))
           | Inl e \<Rightarrow>
               if strict then (Some e, nxt, one_proc_error i st)
               else run_stage strict p i bs
                 (nxt @ [map (set_error e \<lparr>es_name = fst p, es_label = [],
                     es_path = str ''pipeline.processors.'' @ decimal i\<rparr>) b]) (one_proc_error i st))"

definition first_marked :: "'c batch list \<Rightarrow> 'c message option" where
  "first_marked bs = (case filter has_error (concat bs) of [] \<Rightarrow> None | m # _ \<Rightarrow> Some m)"

definition strict_failure :: "'c message \<Rightarrow> failure" where
  "strict_failure m = str ''error_handling.strict: '' @ msg_error m"

fun run_processors :: "bool \<Rightarrow> 'c processor list \<Rightarrow> nat \<Rightarrow> 'c batch list \<Rightarrow> stats \<Rightarrow>
    failure option \<times> 'c batch list \<times> stats" where
  "run_processors strict [] i bs st = (None, bs, st)"
| "run_processors strict (p # ps) i bs st =
     (case run_stage strict p i bs [] st of
        (Some e, _, st) \<Rightarrow> (Some e, bs, st)
      | (None, nxt, st) \<Rightarrow>
          if nxt = [] then (None, [], st)
          else (case (if strict then first_marked nxt else None) of
              Some m \<Rightarrow> (Some (strict_failure m), nxt, st\<lparr>proc_errors := proc_errors st + 1\<rparr>)
            | None \<Rightarrow> run_processors strict ps (Suc i) nxt st))"

definition strict_rejection :: "'c batch \<Rightarrow> failure option" where
  "strict_rejection b = (case filter has_error b of
     [] \<Rightarrow> None
   | m # _ \<Rightarrow> Some (str ''error_handling.strict: rejected due to failed processing: '' @ msg_error m))"

section \<open>The state of a stream\<close>

datatype 'c input_pc = Reading | Pushing "'c txn" | In_Closing | In_Done

datatype 'c pipe_pc = Pipe_Pop | Working "'c txn" | Handing "'c txn list" | Nacking "'c txn list"
  | Pipe_Closing | Pipe_Done

datatype 'c out_pc = Out_Pop | Waiting "'c txn" | Out_Closing | Out_Done

record 'c stream =
  to_pipeline :: "'c txn option list"
  to_output :: "'c txn option list"
  in_pc :: "'c input_pc"
  pipe_pc :: "'c pipe_pc"
  out_pc :: "'c out_pc"
  writes :: "'c txn list"
  drain :: bool
  aborted :: bool
  late :: bool
  to_nack :: "'c txn list"
  book :: "'c book"
  counted :: stats

record stream_config =
  queue_depth :: nat
  strict_errors :: bool
  max_in_flight :: nat

definition empty_book :: "'c book" where
  "empty_book = \<lparr>next_id = 0, calls = [], groups = (\<lambda>_. None), split_into = (\<lambda>_. []), filtered_ids = {}, written = []\<rparr>"

definition started :: "nat \<Rightarrow> 'c stream" where
  "started n = \<lparr>to_pipeline = [], to_output = [], in_pc = Reading, pipe_pc = Pipe_Pop, out_pc = Out_Pop, writes = [],
     drain = False, aborted = False, late = False, to_nack = [], book = empty_book,
     counted = \<lparr>batches_in = 0, batches_out = 0, messages_in = 0, messages_out = 0, acks = 0, nacks = 0, filtered = 0,
       proc_errors = 0, comps = replicate (n + 2) no_counts\<rparr>\<rparr>"

definition out_index :: "'c stream \<Rightarrow> nat" where
  "out_index s = length (comps (counted s)) - 1"

subsection \<open>Calling an acknowledgement\<close>

definition call_source :: "nat \<Rightarrow> failure option \<Rightarrow> 'c book \<Rightarrow> 'c book" where
  "call_source k e b = b\<lparr>calls := calls b @ [(k, e)]\<rparr>"

text \<open>The parent of group \<open>k\<close> is the acknowledgement of batch \<open>k\<close>.\<close>

definition store_group :: "nat \<Rightarrow> failure ack_group \<Rightarrow> 'c book \<Rightarrow> 'c book" where
  "store_group k g b =
     (let old = (case groups b k of None \<Rightarrow> [] | Some g \<Rightarrow> parent_calls g)
      in fold (call_source k) (drop (length old) (parent_calls g)) (b\<lparr>groups := (groups b)(k := Some g)\<rparr>))"

definition run_ack :: "ack_ref \<Rightarrow> failure option \<Rightarrow> 'c book \<Rightarrow> 'c book" where
  "run_ack a e b = (case a of
     Source k \<Rightarrow> call_source k e b
   | Child k \<Rightarrow> (case groups b k of None \<Rightarrow> b | Some g \<Rightarrow> store_group k (child_done e g) b))"

definition split_ack :: "nat \<Rightarrow> 'c batch list \<Rightarrow> 'c book \<Rightarrow> 'c book" where
  "split_ack k bs b =
     store_group k (seal (fold (\<lambda>_. add_child) bs make_group)) (b\<lparr>split_into := (split_into b)(k := bs)\<rparr>)"

definition note_written :: "'c txn \<Rightarrow> 'c book \<Rightarrow> 'c book" where
  "note_written t b = (case snd t of Child k \<Rightarrow> b\<lparr>written := written b @ [(k, fst t)]\<rparr> | Source _ \<Rightarrow> b)"

abbreviation closed_failure :: failure where
  "closed_failure \<equiv> str ''stream layer closed''"

definition nack :: "'c txn \<Rightarrow> 'c stream \<Rightarrow> 'c stream" where
  "nack t s = s\<lparr>book := run_ack (snd t) (Some closed_failure) (book s), counted := (counted s)\<lparr>nacks := nacks (counted s) + 1\<rparr>\<rparr>"

section \<open>The input layer\<close>

text \<open>The loop asks whether to go on before it reads, that is right after a push.\<close>

definition input_read :: "'c batch \<Rightarrow> 'c stream \<Rightarrow> 'c stream" where
  "input_read b s = s\<lparr>in_pc := Pushing (b, Source (next_id (book s))),
     book := (book s)\<lparr>next_id := next_id (book s) + 1\<rparr>,
     counted := count_received 0 (length b) ((counted s)\<lparr>batches_in := batches_in (counted s) + 1, messages_in := messages_in (counted s) + length b\<rparr>)\<rparr>"

definition input_push :: "'c txn \<Rightarrow> 'c stream \<Rightarrow> 'c stream" where
  "input_push t s = s\<lparr>to_pipeline := to_pipeline s @ [Some t], in_pc := (if drain s then In_Closing else Reading)\<rparr>"

definition input_refused :: "'c txn \<Rightarrow> 'c stream \<Rightarrow> 'c stream" where
  "input_refused t s = (nack t s)\<lparr>in_pc := In_Closing\<rparr>"

definition input_close :: "'c stream \<Rightarrow> 'c stream" where
  "input_close s = s\<lparr>in_pc := In_Done, to_pipeline := (if aborted s then to_pipeline s else to_pipeline s @ [None])\<rparr>"

section \<open>The pipeline layer\<close>

definition pipe_pop :: "'c stream \<Rightarrow> 'c stream" where
  "pipe_pop s = (if aborted s then s\<lparr>pipe_pc := Pipe_Closing\<rparr>
     else case to_pipeline s of
       [] \<Rightarrow> s
     | None # q \<Rightarrow> s\<lparr>to_pipeline := q, pipe_pc := Pipe_Closing\<rparr>
     | Some t # q \<Rightarrow> s\<lparr>to_pipeline := q, pipe_pc := Working t\<rparr>)"

definition pipe_turn :: "stream_config \<Rightarrow> 'c processor list \<Rightarrow> 'c batch \<Rightarrow> nat \<Rightarrow> 'c stream \<Rightarrow> 'c stream" where
  "pipe_turn cfg ps b k s =
     (case run_processors (strict_errors cfg) ps 0 [b] (counted s) of
        (Some e, _, st') \<Rightarrow> s\<lparr>pipe_pc := Pipe_Pop, book := call_source k (Some e) (book s),
          counted := st'\<lparr>nacks := nacks st' + 1\<rparr>\<rparr>
      | (None, bs, st') \<Rightarrow>
          if bs = [] then s\<lparr>pipe_pc := Pipe_Pop,
            book := (call_source k None (book s))\<lparr>filtered_ids := insert k (filtered_ids (book s))\<rparr>,
            counted := st'\<lparr>filtered := filtered st' + 1, acks := acks st' + 1\<rparr>\<rparr>
          else s\<lparr>pipe_pc := Handing (map (\<lambda>b. (b, Child k)) bs), book := split_ack k bs (book s), counted := st'\<rparr>)"

definition pipe_push :: "'c txn \<Rightarrow> 'c txn list \<Rightarrow> 'c stream \<Rightarrow> 'c stream" where
  "pipe_push t ts s = s\<lparr>to_output := to_output s @ [Some t], pipe_pc := (if ts = [] then Pipe_Pop else Handing ts)\<rparr>"

definition pipe_nack :: "'c txn \<Rightarrow> 'c txn list \<Rightarrow> 'c stream \<Rightarrow> 'c stream" where
  "pipe_nack t ts s = (nack t s)\<lparr>pipe_pc := (if ts = [] then Pipe_Closing else Nacking ts)\<rparr>"

definition pipe_close :: "'c stream \<Rightarrow> 'c stream" where
  "pipe_close s = s\<lparr>pipe_pc := Pipe_Done, to_output := (if aborted s then to_output s else to_output s @ [None])\<rparr>"

section \<open>The output layer\<close>

definition out_pop :: "'c stream \<Rightarrow> 'c stream" where
  "out_pop s = (if aborted s then s\<lparr>out_pc := Out_Closing\<rparr>
     else case to_output s of
       [] \<Rightarrow> s
     | None # q \<Rightarrow> s\<lparr>to_output := q, out_pc := Out_Closing\<rparr>
     | Some t # q \<Rightarrow> s\<lparr>to_output := q, out_pc := Waiting t\<rparr>)"

definition out_launch :: "'c txn \<Rightarrow> 'c stream \<Rightarrow> 'c stream" where
  "out_launch t s = s\<lparr>writes := writes s @ [t], out_pc := Out_Pop\<rparr>"

text \<open>A write ends: \<open>r\<close> is what \<open>write_batch\<close> does when it is called.\<close>

definition write_outcome :: "bool \<Rightarrow> failure option \<Rightarrow> 'c batch \<Rightarrow> failure option" where
  "write_outcome strict r b = (case (if strict then strict_rejection b else None) of Some e \<Rightarrow> Some e | None \<Rightarrow> r)"

definition write_stats :: "bool \<Rightarrow> failure option \<Rightarrow> 'c batch \<Rightarrow> nat \<Rightarrow> stats \<Rightarrow> stats" where
  "write_stats strict r b i st =
     (let rejected = (strict \<and> strict_rejection b \<noteq> None);
          err = write_outcome strict r b;
          st = (if rejected then count_error i (st\<lparr>proc_errors := proc_errors st + 1\<rparr>)
                else if err = None then count_sent i (length b) st else count_error i st);
          st = count_received i (length b) st
      in if err \<noteq> None then st\<lparr>nacks := nacks st + 1\<rparr>
         else st\<lparr>acks := acks st + 1, batches_out := batches_out st + 1, messages_out := messages_out st + length b\<rparr>)"

definition do_write :: "stream_config \<Rightarrow> nat \<Rightarrow> failure option \<Rightarrow> 'c stream \<Rightarrow> 'c stream" where
  "do_write cfg i r s =
     (let t = writes s ! i; err = write_outcome (strict_errors cfg) r (fst t);
          bk = (if err = None then note_written t (book s) else book s)
      in s\<lparr>writes := take i (writes s) @ drop (Suc i) (writes s),
           counted := write_stats (strict_errors cfg) r (fst t) (out_index s) (counted s),
           book := run_ack (snd t) err bk\<rparr>)"

section \<open>Shutdown\<close>

definition request_drain :: "'c stream \<Rightarrow> 'c stream" where
  "request_drain s = s\<lparr>drain := True\<rparr>"

definition queued :: "'c txn option list \<Rightarrow> 'c txn list" where
  "queued q = map the (filter (\<lambda>x. x \<noteq> None) q)"

definition collect :: "'c stream \<Rightarrow> 'c stream" where
  "collect s = s\<lparr>to_nack := to_nack s @ queued (to_pipeline s) @ queued (to_output s), to_pipeline := [], to_output := []\<rparr>"

text \<open>\<open>stop_now\<close> up to its yield, from the yield to the second abort, and one of its nacks.\<close>

definition stop_first :: "'c stream \<Rightarrow> 'c stream" where
  "stop_first s = (collect s)\<lparr>drain := True, aborted := True, late := True\<rparr>"

definition stop_second :: "'c stream \<Rightarrow> 'c stream" where
  "stop_second s = (collect s)\<lparr>late := False\<rparr>"

definition stop_nack :: "'c stream \<Rightarrow> 'c stream" where
  "stop_nack s = (case to_nack s of [] \<Rightarrow> s | t # ts \<Rightarrow> (nack t s)\<lparr>to_nack := ts\<rparr>)"

section \<open>The interleaving of the fibers\<close>

text \<open>
  A push needs room in the queue.  Between the two halves of \<open>stop_now\<close> a fiber that had already
  passed \<open>not_full\<close> may still push into an aborted queue.
\<close>

abbreviation can_push :: "stream_config \<Rightarrow> 'c stream \<Rightarrow> 'c txn option list \<Rightarrow> bool" where
  "can_push cfg s q \<equiv> length q < queue_depth cfg \<and> (aborted s \<longrightarrow> late s)"

inductive stream_step :: "stream_config \<Rightarrow> 'c stream \<Rightarrow> 'c stream \<Rightarrow> bool" for cfg where
  read_batch: "in_pc s = Reading \<Longrightarrow> stream_step cfg s (input_read b s)"
| read_ends: "in_pc s = Reading \<Longrightarrow> stream_step cfg s (s\<lparr>in_pc := In_Closing\<rparr>)"
| push_in: "in_pc s = Pushing t \<Longrightarrow> can_push cfg s (to_pipeline s) \<Longrightarrow> stream_step cfg s (input_push t s)"
| refuse_in: "in_pc s = Pushing t \<Longrightarrow> aborted s \<Longrightarrow> stream_step cfg s (input_refused t s)"
| close_in: "in_pc s = In_Closing \<Longrightarrow> aborted s \<or> length (to_pipeline s) < queue_depth cfg \<Longrightarrow>
    stream_step cfg s (input_close s)"
| pop_in: "pipe_pc s = Pipe_Pop \<Longrightarrow> stream_step cfg s (pipe_pop s)"
| turn: "pipe_pc s = Working (b, Source k) \<Longrightarrow>
    length (fst (snd (run_processors (strict_errors cfg) ps 0 [b] (counted s)))) < 2 ^ 64 \<Longrightarrow>
    stream_step cfg s (pipe_turn cfg ps b k s)"
| push_out: "pipe_pc s = Handing (t # ts) \<Longrightarrow> can_push cfg s (to_output s) \<Longrightarrow> stream_step cfg s (pipe_push t ts s)"
| refuse_out: "pipe_pc s = Handing ts \<Longrightarrow> aborted s \<Longrightarrow> stream_step cfg s (s\<lparr>pipe_pc := Nacking ts\<rparr>)"
| nack_out: "pipe_pc s = Nacking (t # ts) \<Longrightarrow> stream_step cfg s (pipe_nack t ts s)"
| close_out: "pipe_pc s = Pipe_Closing \<Longrightarrow> aborted s \<or> length (to_output s) < queue_depth cfg \<Longrightarrow>
    stream_step cfg s (pipe_close s)"
| pop_out: "out_pc s = Out_Pop \<Longrightarrow> stream_step cfg s (out_pop s)"
| launch: "out_pc s = Waiting t \<Longrightarrow> length (writes s) < max_in_flight cfg \<Longrightarrow> stream_step cfg s (out_launch t s)"
| write_ends: "i < length (writes s) \<Longrightarrow> stream_step cfg s (do_write cfg i r s)"
| out_ends: "out_pc s = Out_Closing \<Longrightarrow> writes s = [] \<Longrightarrow> stream_step cfg s (s\<lparr>out_pc := Out_Done\<rparr>)"
| draining: "stream_step cfg s (request_drain s)"
| stopping: "\<not> aborted s \<Longrightarrow> stream_step cfg s (stop_first s)"
| stopping_again: "late s \<Longrightarrow> stream_step cfg s (stop_second s)"
| stop_nacks: "\<not> late s \<Longrightarrow> to_nack s \<noteq> [] \<Longrightarrow> stream_step cfg s (stop_nack s)"

inductive stream_reachable :: "stream_config \<Rightarrow> nat \<Rightarrow> 'c stream \<Rightarrow> bool" for cfg n where
  at_start: "stream_reachable cfg n (started n)"
| after_step: "stream_reachable cfg n s \<Longrightarrow> stream_step cfg s s' \<Longrightarrow> stream_reachable cfg n s'"

section \<open>The ledger: what is live and what has been called\<close>

text \<open>
  The specification of the stream: a bag of live transactions and the book of acknowledgements.  A
  transaction enters when it is read, leaves when its acknowledgement is called, and may be replaced
  by the children of its group; moving between queues and fibers is invisible.
\<close>

type_synonym 'c ledger = "'c txn multiset \<times> 'c book"

inductive ledger_step :: "'c ledger \<Rightarrow> 'c ledger \<Rightarrow> bool" where
  l_same: "ledger_step (M, b) (M, b)"
| l_read: "ledger_step (M, b) (add_mset (pl, Source (next_id b)) M, b\<lparr>next_id := next_id b + 1\<rparr>)"
| l_nack: "ledger_step (add_mset t M, b) (M, run_ack (snd t) (Some e) b)"
| l_filter: "ledger_step (add_mset (pl, Source k) M, b)
    (M, (call_source k None b)\<lparr>filtered_ids := insert k (filtered_ids b)\<rparr>)"
| l_written: "ledger_step (add_mset (pl, Child k) M, b) (M, run_ack (Child k) None (note_written (pl, Child k) b))"
| l_split: "bs \<noteq> [] \<Longrightarrow> length bs < 2 ^ 64 \<Longrightarrow>
    ledger_step (add_mset (pl, Source k) M, b) (mset (map (\<lambda>b. (b, Child k)) bs) + M, split_ack k bs b)"

definition calls_of :: "'c book \<Rightarrow> nat \<Rightarrow> failure option list" where
  "calls_of b k = map snd (filter (\<lambda>c. fst c = k) (calls b))"

definition written_of :: "'c book \<Rightarrow> nat \<Rightarrow> 'c batch list" where
  "written_of b k = map snd (filter (\<lambda>w. fst w = k) (written b))"

definition held :: "'c txn multiset \<Rightarrow> ack_ref \<Rightarrow> 'c batch multiset" where
  "held M a = image_mset fst (filter_mset (\<lambda>t. snd t = a) M)"

lemma held_simps [simp]:
  "held {#} a = {#}" "held (add_mset t M) a = (if snd t = a then add_mset (fst t) (held M a) else held M a)"
  "held (M + N) a = held M a + held N a"
  by (simp_all add: held_def)

lemma held_children [simp]:
  "held (image_mset (\<lambda>b. (b, Child k)) B) a = (if a = Child k then B else {#})"
  by (induction B) auto

text \<open>What holds of batch \<open>k\<close>.\<close>

definition entry_inv :: "'c txn multiset \<Rightarrow> 'c book \<Rightarrow> nat \<Rightarrow> bool" where
  "entry_inv M b k \<longleftrightarrow>
     (if next_id b \<le> k
      then held M (Source k) = {#} \<and> held M (Child k) = {#} \<and> calls_of b k = [] \<and> groups b k = None \<and> written_of b k = []
      else case groups b k of
        None \<Rightarrow> held M (Child k) = {#} \<and> written_of b k = [] \<and> size (held M (Source k)) + length (calls_of b k) = 1 \<and>
          (None \<in> set (calls_of b k) \<longrightarrow> k \<in> filtered_ids b)
      | Some g \<Rightarrow> held M (Source k) = {#} \<and> split_into b k \<noteq> [] \<and> size (held M (Child k)) < 2 ^ 64 \<and>
          (\<exists>fe. ack_inv True (size (held M (Child k))) fe g \<and> calls_of b k = parent_calls g \<and>
             (fe = None \<longrightarrow> mset (split_into b k) = held M (Child k) + mset (written_of b k))))"

definition ledger_inv :: "'c ledger \<Rightarrow> bool" where
  "ledger_inv L \<longleftrightarrow> (\<forall>k. entry_inv (fst L) (snd L) k)"

subsection \<open>Each operation touches one entry\<close>

lemma calls_of_call [simp]: "calls_of (call_source k e b) j = calls_of b j @ (if j = k then [e] else [])"
  by (simp add: calls_of_def call_source_def)

lemma call_source_simps [simp]:
  "next_id (call_source k e b) = next_id b" "groups (call_source k e b) = groups b"
  "split_into (call_source k e b) = split_into b" "filtered_ids (call_source k e b) = filtered_ids b"
  "written (call_source k e b) = written b"
  by (simp_all add: call_source_def)

lemma fold_call_simps [simp]:
  "next_id (fold (call_source k) es b) = next_id b" "groups (fold (call_source k) es b) = groups b"
  "split_into (fold (call_source k) es b) = split_into b" "filtered_ids (fold (call_source k) es b) = filtered_ids b"
  "written (fold (call_source k) es b) = written b"
  "calls_of (fold (call_source k) es b) j = calls_of b j @ (if j = k then es else [])"
  by (induction es arbitrary: b) auto

lemma calls_of_cong: "calls b = calls c \<Longrightarrow> calls_of b k = calls_of c k"
  by (simp add: calls_of_def)

lemma written_of_cong: "written b = written c \<Longrightarrow> written_of b k = written_of c k"
  by (simp add: written_of_def)

lemma store_group_simps [simp]:
  "next_id (store_group k g b) = next_id b" "groups (store_group k g b) = (groups b)(k := Some g)"
  "split_into (store_group k g b) = split_into b" "filtered_ids (store_group k g b) = filtered_ids b"
  "written (store_group k g b) = written b"
  by (simp_all add: store_group_def Let_def)

lemma calls_of_store: "calls_of (store_group k g b) j = calls_of b j @
    (if j = k then drop (case groups b k of None \<Rightarrow> 0 | Some h \<Rightarrow> length (parent_calls h)) (parent_calls g) else [])"
proof -
  have "calls_of (b\<lparr>groups := G\<rparr>) j = calls_of b j" for G by (rule calls_of_cong) simp
  then show ?thesis by (simp add: store_group_def Let_def split: option.split)
qed

lemma entry_cong:
  assumes "entry_inv M b k" and "held N (Source k) = held M (Source k)" and "held N (Child k) = held M (Child k)"
    and "calls_of c k = calls_of b k" and "groups c k = groups b k" and "written_of c k = written_of b k"
    and "split_into c k = split_into b k" and "k \<in> filtered_ids b \<Longrightarrow> k \<in> filtered_ids c"
    and "next_id c \<le> k \<longleftrightarrow> next_id b \<le> k"
  shows "entry_inv N c k"
  using assms by (auto simp: entry_inv_def split: option.splits if_splits)

lemma ack_inv_children: "length bs < 2 ^ 64 \<Longrightarrow> bs \<noteq> [] \<Longrightarrow> ack_inv True (length bs) None (seal (fold (\<lambda>_. add_child) bs make_group))"
proof -
  have "ack_inv False (n + length bs) None (fold (\<lambda>_. add_child) bs g)" if "ack_inv False n None g" for n and g :: "'b ack_group"
    using that
  proof (induction bs arbitrary: n g)
    case (Cons x bs)
    from Cons.IH [OF ack_inv_add [OF Cons.prems]] show ?case by simp
  qed simp
  from this [OF ack_inv_make] show "length bs < 2 ^ 64 \<Longrightarrow> ?thesis" by (intro ack_inv_seal) simp_all
qed

lemma entry_run_child:
  assumes inv: "entry_inv (add_mset (pl, Child k) M) b k"
    and w: "c = (if e = None then note_written (pl, Child k) b else b)"
  shows "entry_inv M (run_ack (Child k) e c) k"
proof -
  have lt: "\<not> next_id b \<le> k" using inv by (auto simp: entry_inv_def split: if_splits)
  then obtain g where g: "groups b k = Some g" using inv by (auto simp: entry_inv_def split: option.splits)
  then obtain fe where src: "held M (Source k) = {#}" and n: "Suc (size (held M (Child k))) < 2 ^ 64"
    and ai: "ack_inv True (Suc (size (held M (Child k)))) fe g" and cl: "calls_of b k = parent_calls g"
    and sp: "split_into b k \<noteq> []" and fe: "fe = None \<longrightarrow> mset (split_into b k) = add_mset pl (held M (Child k)) + mset (written_of b k)"
    using inv lt by (auto simp: entry_inv_def)
  have c: "next_id c = next_id b" "groups c = groups b" "split_into c = split_into b" "calls_of c k = calls_of b k"
    "written_of c k = written_of b k @ (if e = None then [pl] else [])"
    unfolding w by (auto simp: note_written_def written_of_def calls_of_def)
  have ai': "ack_inv True (size (held M (Child k))) (if fe = None then e else fe) (child_done e g)"
    using ack_inv_done [OF ai _ n, of e] by simp
  have "parent_calls g = []" using ai by (simp add: ack_inv_def)
  then have cl': "calls_of (run_ack (Child k) e c) k = parent_calls (child_done e g)"
    using cl by (simp add: run_ack_def c g calls_of_store)
  have wr: "written_of (run_ack (Child k) e c) k = written_of c k"
    by (rule written_of_cong) (simp add: run_ack_def c g)
  have gr: "groups (run_ack (Child k) e c) k = Some (child_done e g)" "next_id (run_ack (Child k) e c) = next_id b"
    "split_into (run_ack (Child k) e c) k = split_into b k"
    by (simp_all add: run_ack_def c g)
  show ?thesis
    using src n sp ai' cl' wr gr lt fe c(5)
    by (auto simp: entry_inv_def intro!: exI [of _ "if fe = None then e else fe"] split: if_splits)
qed

lemma entry_other:
  "j \<noteq> k \<Longrightarrow> entry_inv M b j \<Longrightarrow> entry_inv M (run_ack (Child k) e (note_written (pl, Child k) b)) j"
  "j \<noteq> k \<Longrightarrow> entry_inv M b j \<Longrightarrow> entry_inv M (run_ack (Child k) e b) j"
  by (erule entry_cong;
      auto simp: run_ack_def note_written_def calls_of_store written_of_def split: option.split;
      simp add: calls_of_def)+

lemma ledger_step_inv: "ledger_step L L' \<Longrightarrow> ledger_inv L \<Longrightarrow> ledger_inv L'"
proof (induction rule: ledger_step.induct)
  case (l_read M b pl)
  have "entry_inv (add_mset (pl, Source (next_id b)) M) (b\<lparr>next_id := next_id b + 1\<rparr>) k" if "entry_inv M b k" for k
    using that by (cases "k = next_id b") (auto simp: entry_inv_def calls_of_def written_of_def split: if_splits option.splits)
  then show ?case using l_read by (simp add: ledger_inv_def)
next
  case (l_nack t M b e)
  obtain pl a where t: "t = (pl, a)" by (cases t)
  show ?case
  proof (cases a)
    case (Source k)
    have "entry_inv M (call_source k (Some e) b) j" if "entry_inv (add_mset (pl, Source k) M) b j" for j
      using that
      by (cases "j = k") (auto simp: entry_inv_def written_of_def split: if_splits option.splits)
    then show ?thesis using l_nack by (simp add: ledger_inv_def t Source run_ack_def)
  next
    case (Child k)
    have "entry_inv M (run_ack (Child k) (Some e) b) j" if "entry_inv (add_mset (pl, Child k) M) b j" for j
    proof (cases "j = k")
      case True
      then show ?thesis using that entry_run_child [of pl k M b b "Some e"] by simp
    next
      case False
      then have "entry_inv M b j" using that by (auto elim!: entry_cong)
      then show ?thesis using False by (simp add: entry_other)
    qed
    then show ?thesis using l_nack by (simp add: ledger_inv_def t Child)
  qed
next
  case (l_filter pl k M b)
  have "entry_inv M ((call_source k None b)\<lparr>filtered_ids := insert k (filtered_ids b)\<rparr>) j"
    if "entry_inv (add_mset (pl, Source k) M) b j" for j
    using that
    by (cases "j = k") (auto simp: entry_inv_def written_of_def calls_of_def call_source_def split: if_splits option.splits)
  then show ?case using l_filter by (simp add: ledger_inv_def)
next
  case (l_written pl k M b)
  have "entry_inv M (run_ack (Child k) None (note_written (pl, Child k) b)) j"
    if "entry_inv (add_mset (pl, Child k) M) b j" for j
  proof (cases "j = k")
    case True
    then show ?thesis using that entry_run_child [of pl k M b _ None] by simp
  next
    case False
    then have "entry_inv M b j" using that by (auto elim!: entry_cong)
    then show ?thesis using False by (simp add: entry_other)
  qed
  then show ?case using l_written by (simp add: ledger_inv_def)
next
  case (l_split bs pl k M b)
  let ?g = "seal (fold (\<lambda>_. add_child) bs make_group) :: failure ack_group"
  have ai: "ack_inv True (length bs) None ?g" using l_split(1,2) by (intro ack_inv_children)
  have other: "calls_of (split_ack k bs b) j = calls_of b j" "written_of (split_ack k bs b) j = written_of b j"
      "groups (split_ack k bs b) j = groups b j" "split_into (split_ack k bs b) j = split_into b j" if "j \<noteq> k" for j
    using that by (simp_all add: split_ack_def calls_of_store written_of_def) (simp add: calls_of_def)
  have "entry_inv (mset (map (\<lambda>b. (b, Child k)) bs) + M) (split_ack k bs b) j"
    if inv: "entry_inv (add_mset (pl, Source k) M) b j" for j
  proof (cases "j = k")
    case False
    with inv other show ?thesis by (elim entry_cong) (auto simp: split_ack_def)
  next
    case True
    then have lt: "\<not> next_id b \<le> k" using inv by (auto simp: entry_inv_def split: if_splits)
    have g: "groups b k = None" using inv lt True by (auto simp: entry_inv_def split: option.splits)
    have e: "held M (Child k) = {#}" "held M (Source k) = {#}" "calls_of b k = []" "written_of b k = []"
      using inv lt True g by (auto simp: entry_inv_def)
    have "calls_of (split_ack k bs b) k = parent_calls ?g"
      using e(3) g by (simp add: split_ack_def calls_of_store) (simp add: calls_of_def)
    moreover have "written_of (split_ack k bs b) k = []"
      using e(4) by (simp add: split_ack_def written_of_def)
    ultimately show ?thesis
      using True lt e ai l_split(1,2) by (auto simp: entry_inv_def split_ack_def intro!: exI [of _ None])
  qed
  then show ?case using l_split(3) by (simp add: ledger_inv_def)
qed

lemma ledger_inv_empty: "ledger_inv ({#}, empty_book)"
  by (simp add: ledger_inv_def entry_inv_def empty_book_def calls_of_def written_of_def)


section \<open>The stream keeps the ledger\<close>

fun in_holds :: "'c input_pc \<Rightarrow> 'c txn list" where
  "in_holds (Pushing t) = [t]"
| "in_holds _ = []"

fun out_holds :: "'c out_pc \<Rightarrow> 'c txn list" where
  "out_holds (Waiting t) = [t]"
| "out_holds _ = []"

definition sources :: "'c stream \<Rightarrow> 'c txn list" where
  "sources s = in_holds (in_pc s) @ queued (to_pipeline s) @ (case pipe_pc s of Working t \<Rightarrow> [t] | _ \<Rightarrow> [])"

definition children :: "'c stream \<Rightarrow> 'c txn list" where
  "children s = (case pipe_pc s of Handing ts \<Rightarrow> ts | Nacking ts \<Rightarrow> ts | _ \<Rightarrow> []) @ queued (to_output s) @
     out_holds (out_pc s) @ writes s"

definition live :: "'c stream \<Rightarrow> 'c txn multiset" where
  "live s = mset (sources s) + mset (children s) + mset (to_nack s)"

definition ledger :: "'c stream \<Rightarrow> 'c ledger" where
  "ledger s = (live s, book s)"

fun is_source :: "ack_ref \<Rightarrow> bool" where
  "is_source (Source _) = True"
| "is_source (Child _) = False"

text \<open>The first half of a stream holds acknowledgements of the source, the second those of groups.\<close>

definition refs_ok :: "'c stream \<Rightarrow> bool" where
  "refs_ok s \<longleftrightarrow> (\<forall>t\<in>set (sources s). is_source (snd t)) \<and> (\<forall>t\<in>set (children s). \<not> is_source (snd t))"

lemma queued_simps [simp]:
  "queued [] = []" "queued (None # q) = queued q" "queued (Some t # q) = t # queued q"
  "queued (q @ r) = queued q @ queued r"
  by (simp_all add: queued_def)

lemma nack_simps [simp]:
  "in_pc (nack t s) = in_pc s" "pipe_pc (nack t s) = pipe_pc s" "out_pc (nack t s) = out_pc s"
  "to_pipeline (nack t s) = to_pipeline s" "to_output (nack t s) = to_output s" "writes (nack t s) = writes s"
  "to_nack (nack t s) = to_nack s" "drain (nack t s) = drain s" "aborted (nack t s) = aborted s" "late (nack t s) = late s"
  "book (nack t s) = run_ack (snd t) (Some closed_failure) (book s)"
  by (simp_all add: nack_def)

lemmas ledger_defs = ledger_def live_def sources_def children_def

lemma ledger_nack: "live s = add_mset t M \<Longrightarrow> ledger_step (live s, book s) (M, run_ack (snd t) (Some e) (book s))"
  by (simp add: l_nack)

lemma do_write_ledger:
  assumes "refs_ok s" and i: "i < length (writes s)"
  shows "ledger_step (ledger s) (ledger (do_write cfg i r s))" and "refs_ok (do_write cfg i r s)"
proof -
  let ?t = "writes s ! i" and ?rest = "take i (writes s) @ drop (Suc i) (writes s)"
  have w: "writes s = take i (writes s) @ ?t # drop (Suc i) (writes s)" using i by (simp add: id_take_nth_drop)
  then have m: "mset (writes s) = add_mset ?t (mset ?rest)" by (metis mset_append mset.simps(2) union_mset_add_mset_right)
  have sub: "set ?rest \<subseteq> set (writes s)" by (auto dest: in_set_takeD in_set_dropD)
  have "\<not> is_source (snd ?t)" using assms by (auto simp: refs_ok_def children_def)
  then obtain b k where t: "?t = (b, Child k)" by (cases ?t; cases "snd ?t") auto
  let ?M = "mset (sources s) + (mset (case pipe_pc s of Handing ts \<Rightarrow> ts | Nacking ts \<Rightarrow> ts | _ \<Rightarrow> []) +
      (mset (queued (to_output s)) + (mset (out_holds (out_pc s)) + mset ?rest))) + mset (to_nack s)"
  have lv: "live s = add_mset (b, Child k) ?M"
    using m by (simp add: live_def children_def t)
  have lv': "live (do_write cfg i r s) = ?M"
    by (simp add: live_def children_def sources_def do_write_def Let_def)
  let ?e = "write_outcome (strict_errors cfg) r b"
  have bk: "book (do_write cfg i r s) = run_ack (Child k) ?e (if ?e = None then note_written (b, Child k) (book s) else book s)"
    by (simp add: do_write_def Let_def t)
  show "ledger_step (ledger s) (ledger (do_write cfg i r s))"
  proof (cases ?e)
    case None
    then show ?thesis unfolding ledger_def lv lv' bk by (simp add: l_written)
  next
    case (Some e)
    then show ?thesis using l_nack [of "(b, Child k)" ?M "book s" e] unfolding ledger_def lv lv' bk by simp
  qed
  show "refs_ok (do_write cfg i r s)"
    using assms(1) sub by (auto simp: refs_ok_def sources_def children_def do_write_def Let_def)
qed

lemma pipe_turn_ledger:
  assumes "refs_ok s" and pc: "pipe_pc s = Working (b, Source k)"
    and small: "length (fst (snd (run_processors (strict_errors cfg) ps 0 [b] (counted s)))) < 2 ^ 64"
  shows "ledger_step (ledger s) (ledger (pipe_turn cfg ps b k s))" and "refs_ok (pipe_turn cfg ps b k s)"
proof -
  obtain f bs c where run: "run_processors (strict_errors cfg) ps 0 [b] (counted s) = (f, bs, c)" by (rule prod_cases3)
  let ?M = "mset (in_holds (in_pc s)) + mset (queued (to_pipeline s)) +
    (mset (queued (to_output s)) + (mset (out_holds (out_pc s)) + mset (writes s))) + mset (to_nack s)"
  have lv: "live s = add_mset (b, Source k) ?M"
    by (simp add: live_def sources_def children_def pc)
  show "ledger_step (ledger s) (ledger (pipe_turn cfg ps b k s))"
  proof (cases f)
    case (Some e)
    then show ?thesis
      using l_nack [of "(b, Source k)" ?M "book s" e] lv
      by (simp add: ledger_def pipe_turn_def run run_ack_def) (simp add: live_def sources_def children_def)
  next
    case None
    show ?thesis
    proof (cases "bs = []")
      case True
      then show ?thesis using None lv l_filter [of b k ?M "book s"]
        by (simp add: ledger_def pipe_turn_def run) (simp add: live_def sources_def children_def)
    next
      case False
      then show ?thesis using None lv l_split [of bs b k ?M "book s"] small
        by (simp add: ledger_def pipe_turn_def run) (simp add: live_def sources_def children_def ac_simps)
    qed
  qed
  show "refs_ok (pipe_turn cfg ps b k s)"
    using assms(1,2) by (cases f) (auto simp: refs_ok_def sources_def children_def pipe_turn_def run)
qed

lemma collect_ledger: "ledger (collect s) = ledger s" "refs_ok s \<Longrightarrow> refs_ok (collect s)"
  by (auto simp: ledger_def live_def sources_def children_def collect_def refs_ok_def)

lemma stream_step_ledger:
  "stream_step cfg s s' \<Longrightarrow> refs_ok s \<Longrightarrow> ledger_step (ledger s) (ledger s') \<and> refs_ok s'"
proof (induction rule: stream_step.induct)
  case (read_batch s b)
  let ?M = "mset (queued (to_pipeline s)) + mset (case pipe_pc s of Working t \<Rightarrow> [t] | _ \<Rightarrow> []) + mset (children s) + mset (to_nack s)"
  have "live s = ?M" "live (input_read b s) = add_mset (b, Source (next_id (book s))) ?M"
    using read_batch by (simp_all add: live_def sources_def children_def input_read_def)
  then show ?case using read_batch l_read [of ?M "book s" b]
    by (auto simp: ledger_def input_read_def refs_ok_def sources_def children_def)
next
  case (pop_in s)
  then show ?case
    by (auto simp: pipe_pop_def ledger_defs refs_ok_def l_same split: list.split option.split)
next
  case (pop_out s)
  then show ?case
    by (auto simp: out_pop_def ledger_defs refs_ok_def l_same split: list.split option.split pipe_pc.split)
next
  case (turn s b k ps)
  then show ?case using pipe_turn_ledger by blast
next
  case (write_ends i s r)
  then show ?case using do_write_ledger by blast
next
  case (refuse_in s t)
  have "live s = add_mset t (live (input_refused t s))"
    using refuse_in by (simp add: ledger_defs input_refused_def)
  with refuse_in l_nack [of t "live (input_refused t s)" "book s" closed_failure] show ?case
    by (auto simp: ledger_def input_refused_def refs_ok_def sources_def children_def)
next
  case (nack_out s t ts)
  have "live s = add_mset t (live (pipe_nack t ts s))"
    using nack_out by (cases ts) (simp_all add: ledger_defs pipe_nack_def)
  with nack_out l_nack [of t "live (pipe_nack t ts s)" "book s" closed_failure] show ?case
    by (auto simp: ledger_def pipe_nack_def refs_ok_def sources_def children_def)
next
  case (stop_nacks s)
  then obtain t ts where q: "to_nack s = t # ts" by (cases "to_nack s") auto
  have "live s = add_mset t (live (stop_nack s))"
    using q by (simp add: ledger_defs stop_nack_def)
  with stop_nacks q l_nack [of t "live (stop_nack s)" "book s" closed_failure] show ?case
    by (auto simp: ledger_def stop_nack_def refs_ok_def sources_def children_def)
next
  case (stopping s)
  have "ledger (stop_first s) = ledger (collect s)" "refs_ok (stop_first s) = refs_ok (collect s)"
    by (simp_all add: stop_first_def ledger_defs refs_ok_def)
  with stopping collect_ledger [of s] show ?case by (cases "ledger s") (simp add: l_same)
next
  case (stopping_again s)
  have "ledger (stop_second s) = ledger (collect s)" "refs_ok (stop_second s) = refs_ok (collect s)"
    by (simp_all add: stop_second_def ledger_defs refs_ok_def)
  with stopping_again collect_ledger [of s] show ?case by (cases "ledger s") (simp add: l_same)
next
  case (push_out s t ts)
  then have "live (pipe_push t ts s) = live s" "book (pipe_push t ts s) = book s"
    by (cases ts; simp add: ledger_defs pipe_push_def)+
  with push_out show ?case
    by (cases ts) (auto simp: ledger_def l_same pipe_push_def refs_ok_def sources_def children_def)
qed (auto simp: ledger_defs refs_ok_def l_same input_push_def input_close_def pipe_close_def out_launch_def
      request_drain_def ac_simps)

lemma reachable_ledger: "stream_reachable cfg n s \<Longrightarrow> refs_ok s \<and> ledger_inv (ledger s)"
proof (induction rule: stream_reachable.induct)
  case at_start
  have "ledger (started n) = ({#}, empty_book)" "refs_ok (started n)"
    by (simp_all add: ledger_defs started_def refs_ok_def)
  then show ?case using ledger_inv_empty by (simp add: started_def ledger_defs)
next
  case (after_step s s')
  then show ?case using stream_step_ledger ledger_step_inv by blast
qed


section \<open>Closing\<close>

text \<open>The sentinel is the last thing in a queue, and the layer behind it ends when it takes it.\<close>

definition closing_ok :: "'a option list \<Rightarrow> bool \<Rightarrow> bool \<Rightarrow> bool" where
  "closing_ok q sender_done receiver_done \<longleftrightarrow>
     (if \<not> sender_done then \<not> receiver_done \<and> None \<notin> set q
      else if \<not> receiver_done then (\<exists>ts. q = map Some ts @ [None]) else q = [])"

fun pipe_ended :: "'c pipe_pc \<Rightarrow> bool" where
  "pipe_ended Pipe_Closing = True"
| "pipe_ended Pipe_Done = True"
| "pipe_ended _ = False"

fun out_ended :: "'c out_pc \<Rightarrow> bool" where
  "out_ended Out_Closing = True"
| "out_ended Out_Done = True"
| "out_ended _ = False"

definition flow_inv :: "stream_config \<Rightarrow> 'c stream \<Rightarrow> bool" where
  "flow_inv cfg s \<longleftrightarrow>
     (\<not> aborted s \<longrightarrow> closing_ok (to_pipeline s) (in_pc s = In_Done) (pipe_ended (pipe_pc s)) \<and>
        closing_ok (to_output s) (pipe_pc s = Pipe_Done) (out_ended (out_pc s)) \<and>
        \<not> late s \<and> to_nack s = [] \<and> (\<forall>ts. pipe_pc s \<noteq> Nacking ts)) \<and>
     (aborted s \<and> \<not> late s \<longrightarrow> to_pipeline s = [] \<and> to_output s = []) \<and>
     (out_pc s = Out_Done \<longrightarrow> writes s = []) \<and>
     length (to_pipeline s) \<le> queue_depth cfg \<and> length (to_output s) \<le> queue_depth cfg \<and>
     length (writes s) \<le> max_in_flight cfg"

lemma closing_ok_push: "closing_ok q False d \<Longrightarrow> closing_ok (q @ [Some t]) False d"
  by (auto simp: closing_ok_def)

lemma no_sentinel: "None \<notin> set q \<Longrightarrow> \<exists>ts. q = map Some ts"
  unfolding ex_map_conv by (metis not_None_eq)

lemma closing_ok_close: "closing_ok q False d \<Longrightarrow> closing_ok (q @ [None]) True d"
  using no_sentinel [of q] by (auto simp: closing_ok_def)

lemma closing_ok_pop: "closing_ok (Some t # q) d False \<Longrightarrow> closing_ok q d False"
  by (cases d) (auto simp: closing_ok_def Cons_eq_append_conv Cons_eq_map_conv)

lemma closing_ok_end: "closing_ok (None # q) d False \<Longrightarrow> closing_ok q d True"
  by (cases d) (auto simp: closing_ok_def Cons_eq_append_conv Cons_eq_map_conv)

lemma flow_inv_step: "stream_step cfg s s' \<Longrightarrow> flow_inv cfg s \<Longrightarrow> flow_inv cfg s'"
proof (induction rule: stream_step.induct)
  case (pop_in s)
  then show ?case
    by (auto simp: pipe_pop_def flow_inv_def dest: closing_ok_pop closing_ok_end split: list.split option.split)
next
  case (pop_out s)
  then show ?case
    by (auto simp: out_pop_def flow_inv_def dest: closing_ok_pop closing_ok_end split: list.split option.split)
next
  case (turn s b k ps)
  then show ?case
    by (auto simp: pipe_turn_def flow_inv_def split: prod.split option.split)
next
  case (write_ends i s r)
  then show ?case by (auto simp: flow_inv_def do_write_def Let_def)
next
  case (stop_nacks s)
  then show ?case by (auto simp: flow_inv_def stop_nack_def split: list.split)
next
  case (push_in s t)
  then show ?case by (auto simp: flow_inv_def input_push_def dest: closing_ok_push)
next
  case (push_out s t ts)
  then show ?case by (auto simp: flow_inv_def pipe_push_def dest: closing_ok_push)
next
  case (close_in s)
  then show ?case by (auto simp: flow_inv_def input_close_def dest: closing_ok_close)
next
  case (close_out s)
  then show ?case by (auto simp: flow_inv_def pipe_close_def dest: closing_ok_close)
qed (auto simp: flow_inv_def input_read_def input_refused_def pipe_nack_def out_launch_def request_drain_def
      stop_first_def stop_second_def collect_def)

lemma reachable_flow: "stream_reachable cfg n s \<Longrightarrow> flow_inv cfg s"
  by (induction rule: stream_reachable.induct)
     (simp add: flow_inv_def started_def closing_ok_def, rule flow_inv_step)

text \<open>The layers have ended and a forced shutdown, if there was one, has called what it collected.\<close>

definition quiet :: "'c stream \<Rightarrow> bool" where
  "quiet s \<longleftrightarrow> in_pc s = In_Done \<and> pipe_pc s = Pipe_Done \<and> out_pc s = Out_Done \<and> \<not> late s \<and> to_nack s = []"

lemma quiet_empty: "flow_inv cfg s \<Longrightarrow> quiet s \<Longrightarrow> live s = {#}"
  by (cases "aborted s")
     (auto simp: flow_inv_def quiet_def live_def sources_def children_def closing_ok_def)

section \<open>Properties\<close>

lemma held_empty_iff: "held M a = {#} \<longleftrightarrow> (\<forall>t\<in>#M. snd t \<noteq> a)"
  by (induction M) auto

text \<open>C14: at-least-once.  Whatever the processors answer, whichever writes fail and however a shutdown
interleaves with the three layers, the source of every batch that was read is called at most once;
it has not been called exactly while some transaction of that batch is still in a queue, a fiber or
a write; and when it was acknowledged, the processors had filtered the whole batch or every batch
they made of it had been written without an error.\<close>

theorem acknowledged_means_delivered:
  assumes "stream_reachable cfg n s" and "k < next_id (book s)"
  shows "length (calls_of (book s) k) \<le> 1 \<and>
    (calls_of (book s) k = [] \<longleftrightarrow> (\<exists>t\<in>#live s. snd t = Source k \<or> snd t = Child k)) \<and>
    (calls_of (book s) k = [None] \<longrightarrow> k \<in> filtered_ids (book s) \<or>
       split_into (book s) k \<noteq> [] \<and> mset (split_into (book s) k) = mset (written_of (book s) k))"
proof -
  have live: "(\<exists>t\<in>#live s. snd t = Source k \<or> snd t = Child k) \<longleftrightarrow>
      held (live s) (Source k) \<noteq> {#} \<or> held (live s) (Child k) \<noteq> {#}"
    by (auto simp: held_empty_iff)
  have "entry_inv (live s) (book s) k"
    using reachable_ledger [OF assms(1)] by (simp add: ledger_inv_def ledger_def)
  moreover have "m = {#} \<or> c = []" if "size m + length c = 1" for m :: "'a batch multiset" and c :: "failure option list"
    using that by (cases m; cases c) auto
  ultimately show ?thesis
    using assms(2) unfolding live
    by (cases "groups (book s) k")
       (auto simp: entry_inv_def ack_inv_def size_eq_0_iff_empty length_Suc_conv)
qed

text \<open>C15: when the layers of a stream have ended, by the end of the input, by a drain or by a forced
shutdown, no batch is left without an answer: the source of every batch that was read has been
called exactly once.\<close>

theorem ended_stream_resolved_everything:
  assumes "stream_reachable cfg n s" and "quiet s" and "k < next_id (book s)"
  shows "length (calls_of (book s) k) = 1"
proof -
  have "entry_inv (live s) (book s) k"
    using reachable_ledger [OF assms(1)] by (simp add: ledger_inv_def ledger_def)
  moreover have "live s = {#}"
    using reachable_flow [OF assms(1)] assms(2) by (rule quiet_empty)
  ultimately show ?thesis
    using assms(3) by (auto simp: entry_inv_def ack_inv_def split: option.splits)
qed

text \<open>C16: memory stays bounded: neither queue ever holds more than its depth, and never more than
\<open>max_in_flight\<close> writes are outstanding, in every interleaving.\<close>

theorem stream_stays_bounded:
  assumes "stream_reachable cfg n s"
  shows "length (to_pipeline s) \<le> queue_depth cfg \<and> length (to_output s) \<le> queue_depth cfg \<and>
    length (writes s) \<le> max_in_flight cfg"
  using reachable_flow [OF assms] by (simp add: flow_inv_def)


subsection \<open>A concrete run\<close>

definition demo_cfg :: stream_config where
  "demo_cfg = \<lparr>queue_depth = 1, strict_errors = False, max_in_flight = 1\<rparr>"

definition demo_msgs :: "nat batch" where
  "demo_msgs = [\<lparr>content = 7, msg_error = [], msg_source = None\<rparr>]"

definition demo_read :: "nat stream" where "demo_read = input_read demo_msgs (started 0)"
definition demo_taken :: "nat stream" where "demo_taken = pipe_pop (input_push (demo_msgs, Source 0) demo_read)"
definition demo_handed :: "nat stream" where
  "demo_handed = pipe_push (demo_msgs, Child 0) [] (pipe_turn demo_cfg [] demo_msgs 0 demo_taken)"
definition demo_closed :: "nat stream" where "demo_closed = pipe_pop (input_close (demo_handed\<lparr>in_pc := In_Closing\<rparr>))"
definition demo_launched :: "nat stream" where
  "demo_launched = out_launch (demo_msgs, Child 0) (out_pop demo_closed)"
definition demo_ended :: "nat stream" where
  "demo_ended = (out_pop (pipe_close (do_write demo_cfg 0 None demo_launched)))\<lparr>out_pc := Out_Done\<rparr>"

lemmas demo_stream_defs = demo_cfg_def demo_read_def demo_taken_def demo_handed_def demo_closed_def demo_launched_def
  demo_ended_def started_def input_read_def input_push_def pipe_pop_def pipe_turn_def pipe_push_def input_close_def
  out_pop_def out_launch_def do_write_def pipe_close_def empty_book_def Let_def

lemma demo_reachable:
  "stream_reachable demo_cfg 0 demo_read" "stream_reachable demo_cfg 0 demo_ended"
proof -
  note go = stream_reachable.after_step
  show r1: "stream_reachable demo_cfg 0 demo_read"
    unfolding demo_read_def
    by (rule go [OF at_start stream_step.read_batch]) (simp add: started_def)
  have "stream_reachable demo_cfg 0 (input_push (demo_msgs, Source 0) demo_read)"
    by (rule go [OF r1 stream_step.push_in]) (simp_all add: demo_stream_defs)
  then have r2: "stream_reachable demo_cfg 0 demo_taken"
    unfolding demo_taken_def by (rule go [OF _ stream_step.pop_in]) (simp add: demo_stream_defs)
  then have "stream_reachable demo_cfg 0 (pipe_turn demo_cfg [] demo_msgs 0 demo_taken)"
    by (rule go [OF _ stream_step.turn]) (simp_all add: demo_stream_defs)
  then have r3: "stream_reachable demo_cfg 0 demo_handed"
    unfolding demo_handed_def by (rule go [OF _ stream_step.push_out]) (simp_all add: demo_stream_defs)
  then have "stream_reachable demo_cfg 0 (demo_handed\<lparr>in_pc := In_Closing\<rparr>)"
    by (rule go [OF _ stream_step.read_ends]) (simp add: demo_stream_defs)
  then have "stream_reachable demo_cfg 0 (input_close (demo_handed\<lparr>in_pc := In_Closing\<rparr>))"
    by (rule go [OF _ stream_step.close_in]) (simp_all add: demo_stream_defs)
  then have r4: "stream_reachable demo_cfg 0 demo_closed"
    unfolding demo_closed_def by (rule go [OF _ stream_step.pop_in]) (simp add: demo_stream_defs)
  then have "stream_reachable demo_cfg 0 (out_pop demo_closed)"
    by (rule go [OF _ stream_step.pop_out]) (simp add: demo_stream_defs)
  then have r5: "stream_reachable demo_cfg 0 demo_launched"
    unfolding demo_launched_def by (rule go [OF _ stream_step.launch]) (simp_all add: demo_stream_defs)
  then have "stream_reachable demo_cfg 0 (do_write demo_cfg 0 None demo_launched)"
    by (rule go [OF _ stream_step.write_ends]) (simp add: demo_stream_defs)
  then have "stream_reachable demo_cfg 0 (pipe_close (do_write demo_cfg 0 None demo_launched))"
    by (rule go [OF _ stream_step.close_out]) (simp_all add: demo_stream_defs)
  then have "stream_reachable demo_cfg 0 (out_pop (pipe_close (do_write demo_cfg 0 None demo_launched)))"
    by (rule go [OF _ stream_step.pop_out]) (simp add: demo_stream_defs)
  then show "stream_reachable demo_cfg 0 demo_ended"
    unfolding demo_ended_def by (rule go [OF _ stream_step.out_ends]) (simp_all add: demo_stream_defs)
qed

lemma demo_ended_book: "next_id (book demo_ended) = 1" "calls_of (book demo_ended) 0 = [None]"
    "filtered_ids (book demo_ended) = {}" "quiet demo_ended"
  by (simp_all add: demo_stream_defs quiet_def split_ack_def store_group_def run_ack_def call_source_def calls_of_def
      note_written_def write_outcome_def make_group_def add_child_def seal_def child_done_def fire_def Let_def)

theorem acknowledged_means_delivered_witness:
  "calls_of (book demo_ended) 0 = [None] \<and> mset (split_into (book demo_ended) 0) = mset (written_of (book demo_ended) 0)"
  using acknowledged_means_delivered [OF demo_reachable(2), of 0] demo_ended_book by simp

theorem ended_stream_resolved_everything_witness: "length (calls_of (book demo_ended) 0) = 1"
  by (rule ended_stream_resolved_everything [OF demo_reachable(2)]) (simp_all add: demo_ended_book)

theorem stream_stays_bounded_witness:
  "length (to_pipeline demo_read) \<le> 1 \<and> length (to_output demo_read) \<le> 1 \<and> length (writes demo_read) \<le> 1"
  using stream_stays_bounded [OF demo_reachable(1)] by (simp add: demo_cfg_def)

end
