(* ===== verification/Scan_Base.thy ===== *)
theory Scan_Base
  imports Ordered_Map
begin

text \<open>
  The scanner interface of \<open>scanner.hh\<close>: a scanner is fed the chunks of a byte stream and
  returns the messages each chunk completes; \<open>finish\<close> flushes what is left.  This theory
  holds the messages and errors the scanners of \<open>scanners.cc\<close> exchange with their callers,
  what a caller that feeds a whole stream observes (\<open>run\<close>), and the law every scanner
  should keep: what is delivered does not depend on where the reads cut the stream.
\<close>

section \<open>Messages and errors\<close>

text \<open>
  The content of a message a scanner builds: raw bytes, or for the csv scanner a structured
  row, which is an object from header to field or an array of fields.
\<close>

datatype content = Raw bytes | Fields "(bytes, bytes) omap" | Cells "bytes list"

text \<open>
  One constructor per \<open>throw\<close> of \<open>scanners.cc\<close>.  \<open>Bad_json\<close> carries the scanner's name and
  the parser's text, \<open>Ragged\<close> the line number of a row with the wrong number of fields, and
  \<open>Csv_error\<close> is the thrown, prefixed form of it.  \<open>Spins\<close> is not thrown: it stands for a loop
  that would never end, on an empty delimiter or a zero chunk size, neither of which the
  factory lets through.
\<close>

datatype scan_err =
    Line_too_long
  | Segment_too_long
  | Spins
  | Bad_json string bytes
  | Ended_inside_value
  | Not_an_array byte
  | Ended_mid_element
  | Array_unclosed
  | Unterminated_quote
  | Bare_quote
  | Ragged nat
  | Csv_error scan_err
  | Invalid_tar_header
  | Tar_ended_mid_entry
  | Bad_pattern bytes
  | Chunk_size_not_positive
  | Delimiter_not_single
  | Bad_name_pattern bytes
  | No_candidate bytes
  | Unrecognised_algorithm string
  | Codec_failed bytes
  | Not_implemented string
  | Not_a_scanner string

record smsg =
  content :: content
  meta :: "(bytes, bytes) omap"
  msg_err :: "scan_err option"

definition message :: "bytes \<Rightarrow> smsg" where
  "message raw = \<lparr>content = Raw raw, meta = [], msg_err = None\<rparr>"

definition body :: "smsg \<Rightarrow> bytes" where
  "body m = (case content m of Raw b \<Rightarrow> b | Fields _ \<Rightarrow> [] | Cells _ \<Rightarrow> [])"

lemma body_message [simp]: "body (message b) = b"
  by (simp add: body_def message_def)

lemma message_eq_iff [simp]: "message a = message b \<longleftrightarrow> a = b"
  by (simp add: message_def)

text \<open>
  The third-party code the scanners call: the simdjson reader followed by the canonical
  writer (an error text or the re-serialised document), RE2 (whether a pattern compiles,
  the next match at or after a position as start and length, a partial match of a name),
  and the codecs, by algorithm.
\<close>

record env =
  canonical_json :: "bytes \<Rightarrow> bytes + bytes"
  re_error :: "bytes \<Rightarrow> bytes option"
  re_search :: "bytes \<Rightarrow> bytes \<Rightarrow> nat \<Rightarrow> (nat \<times> nat) option"
  re_partial :: "bytes \<Rightarrow> bytes \<Rightarrow> bool"
  codec_decompress :: "string \<Rightarrow> bytes \<Rightarrow> bytes + bytes"

section \<open>Feeding a stream\<close>

type_synonym 's feed = "'s \<Rightarrow> bytes \<Rightarrow> 's \<times> (scan_err + smsg list)"
type_synonym 's finish = "'s \<Rightarrow> 's \<times> (scan_err + smsg list)"

text \<open>
  What the caller sees of a stream: the messages delivered before the first exception, and
  that exception.  A call that throws delivers nothing, and nothing is called after it.
\<close>

definition deliver :: "scan_err + smsg list \<Rightarrow> smsg list \<times> scan_err option \<Rightarrow> smsg list \<times> scan_err option" where
  "deliver r k = (case r of Inl e \<Rightarrow> ([], Some e) | Inr ms \<Rightarrow> (ms @ fst k, snd k))"

lemma deliver_simps [simp]:
  "deliver (Inl e) k = ([], Some e)"
  "deliver (Inr ms) k = (ms @ fst k, snd k)"
  by (simp_all add: deliver_def)

lemma deliver_deliver: "deliver (Inr a) (deliver (Inr b) k) = deliver (Inr (a @ b)) k"
  by simp

primrec run :: "'s feed \<Rightarrow> 's finish \<Rightarrow> bytes list \<Rightarrow> 's \<Rightarrow> smsg list \<times> scan_err option" where
  "run fd fin [] s = deliver (snd (fin s)) ([], None)"
| "run fd fin (c # cs) s = deliver (snd (fd s c)) (run fd fin cs (fst (fd s c)))"

lemma run_simulation:
  assumes "\<And>s c. fd (f s) c = map_prod f id (gd s c)" and "\<And>s. fin (f s) = map_prod f id (gin s)"
  shows "run fd fin cs (f s) = run gd gin cs s"
  by (induction cs arbitrary: s) (simp_all add: assms)

section \<open>The law of cuts\<close>

text \<open>
  A scanner keeps the law on the states that satisfy \<open>ok\<close> when two consecutive chunks can
  be fed as one, unless that ends in an exception outside \<open>fine\<close>, and an empty chunk is no
  chunk.  Then the stream alone decides what is delivered.
\<close>

locale cut_law =
  fixes fd :: "'s feed" and fin :: "'s finish" and ok :: "'s \<Rightarrow> bool" and fine :: "scan_err option \<Rightarrow> bool"
  assumes join: "ok s \<Longrightarrow> fine (snd (run fd fin ((a @ b) # cs) s)) \<Longrightarrow>
      run fd fin (a # b # cs) s = run fd fin ((a @ b) # cs) s"
    and empty_chunk: "ok s \<Longrightarrow> run fd fin [[]] s = run fd fin [] s"
begin

lemma run_join: "ok s \<Longrightarrow> fine (snd (run fd fin [a @ concat cs] s)) \<Longrightarrow>
    run fd fin (a # cs) s = run fd fin [a @ concat cs] s"
proof (induction cs arbitrary: a)
  case Nil
  then show ?case by simp
next
  case (Cons b cs)
  then have "run fd fin ((a @ b) # cs) s = run fd fin [(a @ b) @ concat cs] s"
    by simp
  then show ?case
    using join [OF Cons.prems(1), of a b cs] Cons.prems(2) by simp
qed

lemma run_concat:
  assumes "ok s" "fine (snd (run fd fin [concat cs] s))"
  shows "run fd fin cs s = run fd fin [concat cs] s"
proof (cases cs)
  case Nil
  then show ?thesis
    by (simp only: concat.simps empty_chunk [OF assms(1)])
next
  case (Cons c ds)
  then show ?thesis
    using run_join [OF assms(1), of c ds] assms(2) by simp
qed

lemma run_cut: "ok s \<Longrightarrow> fine (snd (run fd fin [concat cs] s)) \<Longrightarrow> concat cs = concat ds \<Longrightarrow>
    run fd fin cs s = run fd fin ds s"
  by (metis run_concat)

end

text \<open>
  The common case: feeding never throws and is a homomorphism from the chunks to the
  steps on the state.
\<close>

locale appending =
  fixes fd :: "'s feed" and fin :: "'s finish" and ok :: "'s \<Rightarrow> bool"
    and stp :: "'s \<Rightarrow> bytes \<Rightarrow> 's \<times> smsg list"
  assumes total: "ok s \<Longrightarrow> fd s c = (fst (stp s c), Inr (snd (stp s c)))"
    and keeps: "ok s \<Longrightarrow> ok (fst (stp s c))"
    and step_append: "ok s \<Longrightarrow> stp s (a @ b) =
      (fst (stp (fst (stp s a)) b), snd (stp s a) @ snd (stp (fst (stp s a)) b))"
    and step_empty: "ok s \<Longrightarrow> stp s [] = (s, [])"
begin

lemma run_total: "ok s \<Longrightarrow> run fd fin (c # cs) s = deliver (Inr (snd (stp s c))) (run fd fin cs (fst (stp s c)))"
  by (simp add: total)

end

sublocale appending \<subseteq> cut_law fd fin ok "\<lambda>_. True"
proof
  fix s a b cs
  assume s: "ok s"
  show "run fd fin (a # b # cs) s = run fd fin ((a @ b) # cs) s"
    using s by (simp only: run_total keeps deliver_deliver step_append fst_conv snd_conv)
next
  fix s
  assume s: "ok s"
  show "run fd fin [[]] s = run fd fin [] s"
    using s by (simp add: total step_empty)
qed

end
