(* ===== verification/Scan_Text.thy ===== *)
theory Scan_Text
  imports Scan_Base "HOL-Library.Sublist"
begin

text \<open>
  The scanners of \<open>scanners.cc\<close> that frame raw bytes: \<open>lines_scanner\<close>, \<open>chunker_scanner\<close>,
  \<open>to_the_end_scanner\<close> and \<open>re_match_scanner\<close>.  The loops over the buffer are recursions on
  what is left of it after the cursor.  The lemmas give each loop's reference meaning and
  the law of cuts where it holds.
\<close>

section \<open>lines\<close>

fun find_sub :: "bytes \<Rightarrow> bytes \<Rightarrow> nat option" where
  "find_sub d s = (if prefix d s then Some 0
     else case s of [] \<Rightarrow> None | _ # s' \<Rightarrow> map_option Suc (find_sub d s'))"

declare find_sub.simps [simp del]

lemma find_sub_Some: "find_sub d s = Some n \<Longrightarrow> \<exists>z. s = take n s @ d @ z \<and> n + length d \<le> length s"
proof (induction d s arbitrary: n rule: find_sub.induct)
  case (1 d s)
  show ?case
  proof (cases "prefix d s")
    case True
    then show ?thesis
      using 1(2) by (subst (asm) find_sub.simps) (auto simp: prefix_def)
  next
    case False
    then obtain c s' m where s: "s = c # s'" and m: "find_sub d s' = Some m" "n = Suc m"
      using 1(2) by (subst (asm) find_sub.simps) (auto split: list.splits)
    then show ?thesis
      using 1(1) [OF False s m(1)] by auto
  qed
qed

record lines_scanner =
  lines_buf :: bytes
  lines_max :: nat
  lines_delim :: bytes
  lines_omit_empty :: bool

definition new_lines :: "nat \<Rightarrow> bytes \<Rightarrow> bool \<Rightarrow> lines_scanner" where
  "new_lines max_buffer delim omit_empty =
     \<lparr>lines_buf = [], lines_max = max_buffer, lines_delim = delim, lines_omit_empty = omit_empty\<rparr>"

definition emit :: "bool \<Rightarrow> bytes \<Rightarrow> smsg list" where
  "emit omit_empty line = (if omit_empty \<and> line = [] then [] else [message line])"

definition trim_cr :: "bytes \<Rightarrow> bytes \<Rightarrow> bytes" where
  "trim_cr delim tok = (if delim = [10] \<and> tok \<noteq> [] \<and> List.last tok = 13 then butlast tok else tok)"

function lines_loop :: "nat \<Rightarrow> bytes \<Rightarrow> bool \<Rightarrow> bytes \<Rightarrow> scan_err + bytes \<times> smsg list" where
  "lines_loop mx d omit s = (case find_sub d s of
     None \<Rightarrow> Inr (s, [])
   | Some nl \<Rightarrow>
       let tok = trim_cr d (take nl s) in
       if mx \<le> length tok then Inl Line_too_long
       else if d = [] then Inl Spins
       else rbind (lines_loop mx d omit (drop (nl + length d) s))
              (\<lambda>(rest, ms). Inr (rest, emit omit tok @ ms)))"
  by pat_completeness auto

termination
proof (relation "measure (\<lambda>(mx, d, omit, s). length s)", goal_cases)
  case (2 mx d omit s nl tok)
  then show ?case
    using find_sub_Some [of d s nl] by (cases d) auto
qed simp

declare lines_loop.simps [simp del]

definition lines_feed :: "lines_scanner \<Rightarrow> bytes \<Rightarrow> lines_scanner \<times> (scan_err + smsg list)" where
  "lines_feed l chunk = (let buf = lines_buf l @ chunk in
     case lines_loop (lines_max l) (lines_delim l) (lines_omit_empty l) buf of
       Inl e \<Rightarrow> (l\<lparr>lines_buf := buf\<rparr>, Inl e)
     | Inr (rest, out) \<Rightarrow> (l\<lparr>lines_buf := rest\<rparr>,
         if lines_max l \<le> length rest then Inl Line_too_long else Inr out))"

definition lines_finish :: "lines_scanner \<Rightarrow> lines_scanner \<times> (scan_err + smsg list)" where
  "lines_finish l = (l\<lparr>lines_buf := []\<rparr>,
     Inr (if lines_buf l = [] then [] else emit (lines_omit_empty l) (lines_buf l)))"

section \<open>chunker\<close>

record chunker_scanner =
  chunk_buf :: bytes
  chunk_size :: nat

function chunk_loop :: "nat \<Rightarrow> bytes \<Rightarrow> scan_err + bytes \<times> smsg list" where
  "chunk_loop n s = (if length s < n then Inr (s, [])
     else if n = 0 then Inl Spins
     else rbind (chunk_loop n (drop n s)) (\<lambda>(rest, ms). Inr (rest, message (take n s) # ms)))"
  by pat_completeness auto
termination by (relation "measure (\<lambda>(n, s). length s)") auto

declare chunk_loop.simps [simp del]

definition chunker_feed :: "chunker_scanner \<Rightarrow> bytes \<Rightarrow> chunker_scanner \<times> (scan_err + smsg list)" where
  "chunker_feed c chunk = (let buf = chunk_buf c @ chunk in
     case chunk_loop (chunk_size c) buf of
       Inl e \<Rightarrow> (c\<lparr>chunk_buf := buf\<rparr>, Inl e)
     | Inr (rest, out) \<Rightarrow> (c\<lparr>chunk_buf := rest\<rparr>, Inr out))"

definition chunker_finish :: "chunker_scanner \<Rightarrow> chunker_scanner \<times> (scan_err + smsg list)" where
  "chunker_finish c = (c\<lparr>chunk_buf := []\<rparr>,
     Inr (if chunk_buf c = [] then [] else [message (chunk_buf c)]))"

section \<open>to_the_end\<close>

type_synonym to_the_end_scanner = bytes

definition to_the_end_feed :: "to_the_end_scanner \<Rightarrow> bytes \<Rightarrow> to_the_end_scanner \<times> (scan_err + smsg list)" where
  "to_the_end_feed buf chunk = (buf @ chunk, Inr [])"

definition to_the_end_finish :: "to_the_end_scanner \<Rightarrow> to_the_end_scanner \<times> (scan_err + smsg list)" where
  "to_the_end_finish buf = ([], Inr [message buf])"

section \<open>re_match\<close>

record re_match_scanner =
  re_pattern :: bytes
  re_buf :: bytes
  re_max :: nat

fun find_matches :: "(bytes \<Rightarrow> nat \<Rightarrow> (nat \<times> nat) option) \<Rightarrow> bytes \<Rightarrow> nat \<Rightarrow> nat \<Rightarrow> (nat \<times> nat) list" where
  "find_matches rx hay 0 pos = []"
| "find_matches rx hay (Suc want) pos = (if length hay < pos then []
     else case rx hay pos of
       None \<Rightarrow> []
     | Some (start, len) \<Rightarrow>
         (start, start + len) # find_matches rx hay want (if 0 < len then start + len else start + 1))"

definition re_advance :: "(bytes \<Rightarrow> nat \<Rightarrow> (nat \<times> nat) option) \<Rightarrow> bool \<Rightarrow> bytes \<Rightarrow> nat option" where
  "re_advance rx at_end buf = (case find_matches rx buf 2 0 of
     [] \<Rightarrow> if \<not> at_end then None else Some (length buf)
   | [m] \<Rightarrow> if \<not> at_end then None else Some (if fst m = 0 then length buf else fst m)
   | m # m' # _ \<Rightarrow> Some (if fst m = 0 then fst m' else fst m))"

function re_loop :: "(bytes \<Rightarrow> nat \<Rightarrow> (nat \<times> nat) option) \<Rightarrow> nat \<Rightarrow> bool \<Rightarrow> bytes \<Rightarrow> bytes \<times> (scan_err + smsg list)" where
  "re_loop rx mx at_end buf = (if buf = [] then (buf, Inr [])
     else case re_advance rx at_end buf of
       None \<Rightarrow> (buf, Inr [])
     | Some advance \<Rightarrow>
         if advance = 0 then (buf, Inr [])
         else if mx \<le> advance then (buf, Inl Segment_too_long)
         else case re_loop rx mx at_end (drop advance buf) of (rest, r) \<Rightarrow>
           (rest, rbind r (\<lambda>ms. Inr (message (take advance buf) # ms))))"
  by pat_completeness auto
termination by (relation "measure (\<lambda>(rx, mx, at_end, buf). length buf)") auto

declare re_loop.simps [simp del]

definition re_drain :: "env \<Rightarrow> bool \<Rightarrow> re_match_scanner \<Rightarrow> re_match_scanner \<times> (scan_err + smsg list)" where
  "re_drain env at_end s =
     (case re_loop (re_search env (re_pattern s)) (re_max s) at_end (re_buf s) of
       (rest, Inl e) \<Rightarrow> (s\<lparr>re_buf := rest\<rparr>, Inl e)
     | (rest, Inr out) \<Rightarrow> (s\<lparr>re_buf := rest\<rparr>,
         if re_max s \<le> length rest then Inl Segment_too_long else Inr out))"

definition re_match_feed :: "env \<Rightarrow> re_match_scanner \<Rightarrow> bytes \<Rightarrow> re_match_scanner \<times> (scan_err + smsg list)" where
  "re_match_feed env s chunk = re_drain env False (s\<lparr>re_buf := re_buf s @ chunk\<rparr>)"

definition re_match_finish :: "env \<Rightarrow> re_match_scanner \<Rightarrow> re_match_scanner \<times> (scan_err + smsg list)" where
  "re_match_finish env s = re_drain env True s"

definition new_re_match :: "env \<Rightarrow> bytes \<Rightarrow> nat \<Rightarrow> scan_err + re_match_scanner" where
  "new_re_match env pattern max_buffer = (case re_error env pattern of
     Some e \<Rightarrow> Inl (Bad_pattern e)
   | None \<Rightarrow> Inr \<lparr>re_pattern = pattern, re_buf = [], re_max = max_buffer\<rparr>)"

section \<open>The chunker frames by size\<close>

definition chunker_ok :: "chunker_scanner \<Rightarrow> bool" where
  "chunker_ok c \<longleftrightarrow> 0 < chunk_size c"

lemma chunk_loop_total: "0 < n \<Longrightarrow> \<exists>rest ms. chunk_loop n s = Inr (rest, ms) \<and> length rest < n
    \<and> s = concat (map body ms) @ rest \<and> (\<forall>m\<in>set ms. length (body m) = n \<and> m = message (body m))"
proof (induction n s rule: chunk_loop.induct)
  case (1 n s)
  show ?case
  proof (cases "length s < n")
    case True
    then show ?thesis
      by (subst chunk_loop.simps) simp
  next
    case False
    then obtain rest ms where IH: "chunk_loop n (drop n s) = Inr (rest, ms)" "length rest < n"
        "drop n s = concat (map body ms) @ rest" "\<forall>m\<in>set ms. length (body m) = n \<and> m = message (body m)"
      using 1 by blast
    have "s = take n s @ concat (map body ms) @ rest"
      using IH(3) by (metis append_take_drop_id)
    then show ?thesis
      using False 1(2) IH(1,2,4) by (subst chunk_loop.simps) simp
  qed
qed

lemma chunk_loop_append:
  "0 < n \<Longrightarrow> chunk_loop n s = Inr (r, ms) \<Longrightarrow>
     chunk_loop n (s @ t) = rbind (chunk_loop n (r @ t)) (\<lambda>(r', ms'). Inr (r', ms @ ms'))"
proof (induction n s arbitrary: r ms rule: chunk_loop.induct)
  case (1 n s)
  show ?case
  proof (cases "length s < n")
    case True
    then have "r = s" "ms = []"
      using 1(3) by (simp_all add: chunk_loop.simps [of n s])
    then show ?thesis
      by (cases "chunk_loop n (s @ t)") auto
  next
    case False
    obtain ms' where ms': "chunk_loop n (drop n s) = Inr (r, ms')" "ms = message (take n s) # ms'"
      using 1(2,3) False by (subst (asm) chunk_loop.simps) (auto simp: rbind_eq_Inr_iff)
    then have "chunk_loop n (drop n s @ t) = rbind (chunk_loop n (r @ t)) (\<lambda>(r', ms). Inr (r', ms' @ ms))"
      using 1 False by simp
    then show ?thesis
      using False 1(2) ms'(2)
      by (subst chunk_loop.simps) (simp, cases "chunk_loop n (r @ t)", auto)
  qed
qed

definition chunker_step :: "chunker_scanner \<Rightarrow> bytes \<Rightarrow> chunker_scanner \<times> smsg list" where
  "chunker_step c chunk = (case chunk_loop (chunk_size c) (chunk_buf c @ chunk) of
     Inl _ \<Rightarrow> (c, []) | Inr (rest, out) \<Rightarrow> (c\<lparr>chunk_buf := rest\<rparr>, out))"

definition chunker_inv :: "chunker_scanner \<Rightarrow> bool" where
  "chunker_inv c \<longleftrightarrow> length (chunk_buf c) < chunk_size c"

interpretation chunker: appending chunker_feed chunker_finish chunker_inv chunker_step
proof
  fix s c
  assume s: "chunker_inv s"
  then obtain rest ms where L: "chunk_loop (chunk_size s) (chunk_buf s @ c) = Inr (rest, ms)"
      and R: "length rest < chunk_size s"
    using chunk_loop_total [of "chunk_size s" "chunk_buf s @ c"] unfolding chunker_inv_def by fastforce
  from L show "chunker_feed s c = (fst (chunker_step s c), Inr (snd (chunker_step s c)))"
    by (simp add: chunker_feed_def chunker_step_def Let_def)
  from L R show "chunker_inv (fst (chunker_step s c))"
    by (simp add: chunker_inv_def chunker_step_def)
next
  fix s a b
  assume s: "chunker_inv s"
  then have n: "0 < chunk_size s"
    by (simp add: chunker_inv_def)
  obtain r ms where L: "chunk_loop (chunk_size s) (chunk_buf s @ a) = Inr (r, ms)"
    using chunk_loop_total [OF n, of "chunk_buf s @ a"] by blast
  obtain r' ms' where L': "chunk_loop (chunk_size s) (r @ b) = Inr (r', ms')"
    using chunk_loop_total [OF n, of "r @ b"] by blast
  show "chunker_step s (a @ b) = (fst (chunker_step (fst (chunker_step s a)) b),
      snd (chunker_step s a) @ snd (chunker_step (fst (chunker_step s a)) b))"
    using chunk_loop_append [OF n L, of b] by (simp add: chunker_step_def L L')
next
  fix s
  assume "chunker_inv s"
  then show "chunker_step s [] = (s, [])"
    by (simp add: chunker_step_def chunker_inv_def chunk_loop.simps [of "chunk_size s"])
qed

interpretation to_the_end: appending to_the_end_feed to_the_end_finish "\<lambda>_. True" "\<lambda>buf c. (buf @ c, [])"
  by unfold_locales (auto simp: to_the_end_feed_def)

lemma run_chunker_one:
  assumes "0 < n" "length buf < n"
  shows "\<exists>ms. run chunker_feed chunker_finish [c] \<lparr>chunk_buf = buf, chunk_size = n\<rparr> = (ms, None)
    \<and> concat (map body ms) = buf @ c
    \<and> (\<forall>m\<in>set (butlast ms). length (body m) = n)
    \<and> (ms \<noteq> [] \<longrightarrow> 0 < length (body (List.last ms)) \<and> length (body (List.last ms)) \<le> n)"
proof -
  obtain rest ms where L: "chunk_loop n (buf @ c) = Inr (rest, ms)" "length rest < n"
      "buf @ c = concat (map body ms) @ rest" "\<forall>m\<in>set ms. length (body m) = n \<and> m = message (body m)"
    using chunk_loop_total [OF assms(1)] by blast
  have R: "run chunker_feed chunker_finish [c] \<lparr>chunk_buf = buf, chunk_size = n\<rparr> =
      (ms @ (if rest = [] then [] else [message rest]), None)"
    using L(1) by (simp add: chunker_feed_def chunker_finish_def Let_def)
  show ?thesis
  proof (cases "rest = []")
    case True
    have "\<forall>m\<in>set (butlast ms). length (body m) = n"
      using L(4) by (meson in_set_butlastD)
    moreover have "ms \<noteq> [] \<longrightarrow> length (body (List.last ms)) = n"
      using L(4) by (meson last_in_set)
    ultimately show ?thesis
      using R True L(3) assms(1) by auto
  next
    case False
    then show ?thesis
      using R L by (auto simp: butlast_append)
  qed
qed

section \<open>Lines\<close>

text \<open>
  The reference: cut the whole stream at the delimiter.  The last piece is what follows the
  last delimiter.
\<close>

function pieces :: "bytes \<Rightarrow> bytes \<Rightarrow> bytes list" where
  "pieces d s = (if d = [] then [s] else case find_sub d s of
     None \<Rightarrow> [s]
   | Some nl \<Rightarrow> take nl s # pieces d (drop (nl + length d) s))"
  by pat_completeness auto
termination
proof (relation "measure (\<lambda>(d, s). length s)", goal_cases)
  case (2 d s nl)
  then show ?case
    using find_sub_Some [of d s nl] by (cases d) auto
qed simp

declare pieces.simps [simp del]

definition line_messages :: "bytes \<Rightarrow> bool \<Rightarrow> bytes list \<Rightarrow> smsg list" where
  "line_messages d omit ps =
     concat (map (\<lambda>p. emit omit (trim_cr d p)) (butlast ps)) @
     (if List.last ps = [] then [] else [message (List.last ps)])"

lemma find_sub_None_Nil: "d \<noteq> [] \<Longrightarrow> find_sub d [] = None"
  by (subst find_sub.simps) simp

lemma find_sub_append: "find_sub d s = Some n \<Longrightarrow> find_sub d (s @ t) = Some n"
proof (induction d s arbitrary: n rule: find_sub.induct)
  case (1 d s)
  show ?case
  proof (cases "prefix d s")
    case True
    then show ?thesis
      using 1(2) by (subst (asm) find_sub.simps, subst find_sub.simps) (auto intro: prefix_prefix)
  next
    case False
    then obtain c s' m where s: "s = c # s'" and m: "find_sub d s' = Some m" "n = Suc m"
      using 1(2) by (subst (asm) find_sub.simps) (auto split: list.splits)
    have "\<not> prefix d (s @ t)"
    proof
      assume "prefix d (s @ t)"
      moreover have "m + length d < length s"
        using find_sub_Some [OF m(1)] s by simp
      ultimately show False
        using False by (auto simp: prefix_def append_eq_append_conv2)
    qed
    then show ?thesis
      using 1(1) [OF False s m(1)] s m(2) by (subst find_sub.simps) simp
  qed
qed

lemma pieces_None: "find_sub d s = None \<Longrightarrow> pieces d s = [s]"
  by (subst pieces.simps) simp

lemma pieces_Some: "d \<noteq> [] \<Longrightarrow> find_sub d s = Some nl \<Longrightarrow>
    pieces d s = take nl s # pieces d (drop (nl + length d) s)"
  by (subst pieces.simps) simp

lemma pieces_nonempty [simp]: "pieces d s \<noteq> []"
  by (subst pieces.simps) (simp split: option.splits)

lemma pieces_append: "pieces d (a @ b) = butlast (pieces d a) @ pieces d (List.last (pieces d a) @ b)"
proof (induction d a rule: pieces.induct)
  case (1 d a)
  show ?case
  proof (cases "d = [] \<or> find_sub d a = None")
    case True
    then have "pieces d a = [a]"
      by (subst pieces.simps) auto
    then show ?thesis
      by simp
  next
    case False
    then obtain nl where d: "d \<noteq> []" and nl: "find_sub d a = Some nl"
      by auto
    have "nl + length d \<le> length a"
      using find_sub_Some [OF nl] by blast
    then show ?thesis
      using 1 [OF d nl] pieces_Some [OF d nl] pieces_Some [OF d find_sub_append [OF nl, of b]] by simp
  qed
qed

lemma last_piece: "d \<noteq> [] \<Longrightarrow> find_sub d (List.last (pieces d s)) = None"
proof (induction d s rule: pieces.induct)
  case (1 d s)
  then show ?case
    by (subst pieces.simps) (auto split: option.splits)
qed

lemma length_trim_cr: "length (trim_cr d p) \<le> length p"
  by (simp add: trim_cr_def)

lemma lines_loop_pieces:
  assumes "d \<noteq> []" "\<forall>p\<in>set (butlast (pieces d s)). length p < mx"
  shows "lines_loop mx d omit s = Inr (List.last (pieces d s),
    concat (map (\<lambda>p. emit omit (trim_cr d p)) (butlast (pieces d s))))"
  using assms
proof (induction mx d omit s rule: lines_loop.induct)
  case (1 mx d omit s)
  show ?case
  proof (cases "find_sub d s")
    case None
    then show ?thesis
      by (subst lines_loop.simps, subst pieces.simps, subst pieces.simps) simp
  next
    case (Some nl)
    let ?tok = "trim_cr d (take nl s)"
    have p: "pieces d s = take nl s # pieces d (drop (nl + length d) s)"
      using Some 1(2) by (subst pieces.simps) simp
    then have "length (take nl s) < mx"
      using 1(3) by simp
    then have "\<not> mx \<le> length ?tok"
      using length_trim_cr [of d "take nl s"] by linarith
    moreover have "\<forall>p\<in>set (butlast (pieces d (drop (nl + length d) s))). length p < mx"
      using 1(3) p by simp
    ultimately show ?thesis
      using 1(1) [OF Some refl _ 1(2) 1(2)] Some 1(2) p
      by (subst lines_loop.simps) (simp add: Let_def)
  qed
qed

lemma find_sub_restrict: "find_sub d (r @ t) = Some n \<Longrightarrow> n + length d \<le> length r \<Longrightarrow> find_sub d r = Some n"
proof (induction d r arbitrary: n rule: find_sub.induct)
  case (1 d r)
  show ?case
  proof (cases "prefix d r")
    case True
    then show ?thesis
      using 1(2) by (subst (asm) find_sub.simps, subst find_sub.simps) (auto intro: prefix_prefix split: if_splits)
  next
    case False
    have "\<not> prefix d (r @ t)"
      using False 1(3) by (auto simp: prefix_def append_eq_append_conv2)
    then obtain c u m where u: "r @ t = c # u" and m: "find_sub d u = Some m" "n = Suc m"
      using 1(2) by (subst (asm) find_sub.simps) (auto split: list.splits)
    then obtain r' where r: "r = c # r'" "u = r' @ t"
      using 1(3) by (cases r) auto
    then have "find_sub d r' = Some m"
      using 1(1) [OF False r(1), of m] m 1(3) by simp
    then show ?thesis
      using False r m by (subst find_sub.simps) simp
  qed
qed

lemma residue_fits:
  assumes "d \<noteq> []" "find_sub d r = None" "\<forall>p\<in>set (pieces d (r @ t)). length p + length d \<le> mx"
  shows "length r < mx"
proof (cases "find_sub d (r @ t)")
  case None
  then show ?thesis
    using assms(1,3) by (cases d) (auto simp: pieces_None)
next
  case (Some nl)
  have "nl + length d \<le> mx"
    using assms(3) find_sub_Some [OF Some] by (auto simp: pieces_Some [OF assms(1) Some])
  moreover have "length r < nl + length d"
    using find_sub_restrict [OF Some] assms(2) by fastforce
  ultimately show ?thesis
    by simp
qed

definition lines_state :: "nat \<Rightarrow> bytes \<Rightarrow> bool \<Rightarrow> bytes \<Rightarrow> lines_scanner" where
  "lines_state mx d omit buf =
     \<lparr>lines_buf = buf, lines_max = mx, lines_delim = d, lines_omit_empty = omit\<rparr>"

lemma run_lines_pieces:
  assumes "d \<noteq> []" "find_sub d buf = None"
    and "\<forall>p\<in>set (pieces d (buf @ concat cs)). length p + length d \<le> mx"
  shows "run lines_feed lines_finish cs (lines_state mx d omit buf) =
    (concat (map (\<lambda>p. emit omit (trim_cr d p)) (butlast (pieces d (buf @ concat cs)))) @
      (let l = List.last (pieces d (buf @ concat cs)) in if l = [] then [] else [message l]), None)"
  using assms
proof (induction cs arbitrary: buf)
  case Nil
  then show ?case
    by (auto simp: lines_finish_def lines_state_def pieces_None emit_def)
next
  case (Cons c cs)
  let ?r = "List.last (pieces d (buf @ c))" and ?b = "butlast (pieces d (buf @ c))"
  have P: "pieces d (buf @ concat (c # cs)) = ?b @ pieces d (?r @ concat cs)"
    using pieces_append [of d "buf @ c" "concat cs"] by simp
  have "length p < mx" if "p \<in> set ?b" for p
  proof -
    have "length p + length d \<le> mx"
      using Cons.prems(3) that unfolding P by simp
    then show ?thesis
      using Cons.prems(1) by (cases d) auto
  qed
  then have "\<forall>p\<in>set ?b. length p < mx"
    by blast
  then have L: "lines_loop mx d omit (buf @ c) = Inr (?r, concat (map (\<lambda>p. emit omit (trim_cr d p)) ?b))"
    by (rule lines_loop_pieces [OF Cons.prems(1)])
  have r: "find_sub d ?r = None" "\<forall>p\<in>set (pieces d (?r @ concat cs)). length p + length d \<le> mx"
    using last_piece [OF Cons.prems(1)] Cons.prems(3) P by auto
  have "length ?r < mx"
    by (rule residue_fits [OF Cons.prems(1) r])
  then have F: "lines_feed (lines_state mx d omit buf) c =
      (lines_state mx d omit ?r, Inr (concat (map (\<lambda>p. emit omit (trim_cr d p)) ?b)))"
    by (simp add: lines_feed_def lines_state_def L Let_def)
  show ?case
    by (simp add: F Cons.IH [OF Cons.prems(1) r] P [simplified] butlast_append)
qed

lemma emit_length: "m \<in> set (emit omit p) \<Longrightarrow> m = message p"
  by (simp add: emit_def split: if_splits)

lemma lines_loop_short: "lines_loop mx d omit s = Inr (r, ms) \<Longrightarrow> m \<in> set ms \<Longrightarrow> length (body m) < mx"
proof (induction mx d omit s arbitrary: r ms rule: lines_loop.induct)
  case (1 mx d omit s)
  then show ?case
    by (subst (asm) (2) lines_loop.simps)
      (auto simp: Let_def rbind_eq_Inr_iff dest!: emit_length split: option.splits if_splits)
qed

lemma lines_finish_short:
  assumes "run lines_feed lines_finish cs l = (ms, e)" "length (lines_buf l) < lines_max l" "m \<in> set ms"
  shows "length (body m) < lines_max l"
  using assms
proof (induction cs arbitrary: l ms)
  case Nil
  then show ?case
    by (auto simp: lines_finish_def dest!: emit_length split: if_splits)
next
  case (Cons c cs)
  show ?case
  proof (cases "lines_loop (lines_max l) (lines_delim l) (lines_omit_empty l) (lines_buf l @ c)")
    case (Inl e')
    then show ?thesis
      using Cons.prems by (simp add: lines_feed_def Let_def)
  next
    case (Inr p)
    obtain rest out where p: "p = (rest, out)"
      by (cases p)
    show ?thesis
    proof (cases "lines_max l \<le> length rest")
      case True
      then show ?thesis
        using Cons.prems Inr p by (simp add: lines_feed_def Let_def)
    next
      case False
      let ?l = "l\<lparr>lines_buf := rest\<rparr>"
      obtain ms' e' where R: "run lines_feed lines_finish cs ?l = (ms', e')"
        by fastforce
      have F: "lines_feed l c = (?l, Inr out)"
        using Inr p False by (simp add: lines_feed_def Let_def)
      have ms: "ms = out @ ms'" "e' = e"
        using Cons.prems(1) by (simp_all add: F R)
      then show ?thesis
        using Cons.IH [OF R [unfolded ms(2)]] Cons.prems(3) False lines_loop_short Inr p by auto
    qed
  qed
qed

section \<open>Segments of a pattern\<close>

text \<open>What RE2 promises of a match it returns: at or after the position, inside the text.\<close>

definition search_ok :: "(bytes \<Rightarrow> nat \<Rightarrow> (nat \<times> nat) option) \<Rightarrow> bool" where
  "search_ok rx \<longleftrightarrow> (\<forall>hay pos start len. rx hay pos = Some (start, len) \<longrightarrow>
     pos \<le> start \<and> start + len \<le> length hay)"

lemma re_loop_concat: "re_loop rx mx at_end buf = (rest, Inr ms) \<Longrightarrow>
    buf = concat (map body ms) @ rest \<and> (\<forall>m\<in>set ms. 0 < length (body m) \<and> length (body m) < mx)"
proof (induction rx mx at_end buf arbitrary: rest ms rule: re_loop.induct)
  case (1 rx mx at_end buf)
  show ?case
  proof (cases "re_advance rx at_end buf")
    case None
    then show ?thesis
      using 1(2) by (subst (asm) re_loop.simps) (auto split: if_splits)
  next
    case (Some a)
    show ?thesis
    proof (cases "buf = [] \<or> a = 0 \<or> mx \<le> a")
      case True
      then show ?thesis
        using 1(2) Some by (subst (asm) re_loop.simps) (auto split: if_splits)
    next
      case False
      then obtain ms' where "re_loop rx mx at_end (drop a buf) = (rest, Inr ms')"
          and ms: "ms = message (take a buf) # ms'"
        using 1(2) Some by (subst (asm) re_loop.simps) (auto simp: rbind_eq_Inr_iff split: prod.splits)
      then have "drop a buf = concat (map body ms') @ rest \<and>
          (\<forall>m\<in>set ms'. 0 < length (body m) \<and> length (body m) < mx)"
        using 1(1) Some False by blast
      then have "buf = concat (map body ms) @ rest"
        using ms append_take_drop_id [of a buf] by simp
      moreover have "0 < length (take a buf)" "length (take a buf) < mx"
        using False by auto
      ultimately show ?thesis
        using ms \<open>drop a buf = _ \<and> _\<close> by simp
    qed
  qed
qed

lemma re_advance_end:
  assumes "search_ok rx" "buf \<noteq> []"
  shows "\<exists>a. re_advance rx True buf = Some a \<and> 0 < a"
proof -
  have P: "pos \<le> st" if "rx buf pos = Some (st, ln)" for pos st ln
    using assms(1) that unfolding search_ok_def by blast
  have "0 < fst m'" if "find_matches rx buf 2 0 = m # m' # ms" for m m' ms
    using that P by (auto simp: numeral_2_eq_2 split: option.splits if_splits prod.splits)
      (metis Suc_le_D zero_less_Suc add_gr_0 not_less_eq_eq le_zero_eq gr0I Suc_eq_plus1)+
  then show ?thesis
    using assms(2) by (auto simp: re_advance_def split: list.splits)
qed

lemma re_loop_end:
  "search_ok rx \<Longrightarrow> re_loop rx mx True buf = (rest, Inr ms) \<Longrightarrow> rest = []"
proof (induction rx mx True buf arbitrary: rest ms rule: re_loop.induct)
  case (1 rx mx buf)
  show ?case
  proof (cases "buf = []")
    case True
    then show ?thesis
      using 1(3) by (simp add: re_loop.simps)
  next
    case False
    then obtain a where a: "re_advance rx True buf = Some a" "0 < a"
      using re_advance_end [OF 1(2)] by blast
    then have "\<not> mx \<le> a"
      using 1(3) False by (subst (asm) re_loop.simps) auto
    then obtain ms' where "re_loop rx mx True (drop a buf) = (rest, Inr ms')"
      using 1(3) a False by (subst (asm) re_loop.simps) (auto simp: rbind_eq_Inr_iff split: prod.splits)
    then show ?thesis
      using 1(1) [OF False a(1) _ _ 1(2)] a(2) \<open>\<not> mx \<le> a\<close> by blast
  qed
qed

lemma run_re_match:
  assumes "search_ok (re_search env (re_pattern s))"
  shows "run (re_match_feed env) (re_match_finish env) cs s = (ms, None) \<Longrightarrow>
    concat (map body ms) = re_buf s @ concat cs"
  using assms
proof (induction cs arbitrary: s ms)
  case Nil
  obtain rest r where L: "re_loop (re_search env (re_pattern s)) (re_max s) True (re_buf s) = (rest, r)"
    by fastforce
  show ?case
  proof (cases r)
    case (Inl e)
    then show ?thesis
      using Nil.prems L by (simp add: re_match_finish_def re_drain_def)
  next
    case (Inr out)
    then show ?thesis
      using Nil.prems L re_loop_concat [OF L [unfolded Inr]] re_loop_end [OF Nil.prems(2) L [unfolded Inr]]
      by (auto simp: re_match_finish_def re_drain_def split: if_splits)
  qed
next
  case (Cons c cs)
  obtain rest r where L: "re_loop (re_search env (re_pattern s)) (re_max s) False (re_buf s @ c) = (rest, r)"
    by fastforce
  show ?case
  proof (cases r)
    case (Inl e)
    then show ?thesis
      using Cons.prems L by (simp add: re_match_feed_def re_drain_def)
  next
    case (Inr out)
    let ?s = "s\<lparr>re_buf := rest\<rparr>"
    obtain ms' e' where R: "run (re_match_feed env) (re_match_finish env) cs ?s = (ms', e')"
      by fastforce
    have "\<not> re_max s \<le> length rest"
      using Cons.prems(1) L Inr by (auto simp: re_match_feed_def [of env s] re_drain_def)
    then have F: "re_match_feed env s c = (?s, Inr out)"
      using L Inr by (simp add: re_match_feed_def re_drain_def)
    have "ms = out @ ms'" "e' = None"
      using Cons.prems(1) by (simp_all add: F R)
    then show ?thesis
      using Cons.IH [of ?s ms'] Cons.prems(2) R re_loop_concat [OF L [unfolded Inr]] by auto
  qed
qed

section \<open>Properties\<close>

text \<open>C17: However a stream is cut into chunks, the lines scanner delivers exactly the pieces
  between the delimiters, in order, with the carriage return trimmed for the default
  delimiter and the last unterminated piece included, as long as every piece with its
  delimiter fits into the buffer limit; it does not throw then.\<close>

theorem lines_are_framed:
  assumes "d \<noteq> []" "\<forall>p\<in>set (pieces d (concat cs)). length p + length d \<le> mx"
  shows "run lines_feed lines_finish cs (new_lines mx d omit) =
    (concat (map (\<lambda>p. emit omit (trim_cr d p)) (butlast (pieces d (concat cs)))) @
      (let l = List.last (pieces d (concat cs)) in if l = [] then [] else [message l]), None)"
  using run_lines_pieces [of d "[]" cs mx omit] assms
  by (simp add: find_sub_None_Nil lines_state_def new_lines_def del: run.simps)

theorem lines_are_framed_witness:
  "run lines_feed lines_finish [[97, 13], [10, 10, 98]] (new_lines 4 [10] False) =
    ([message [97], message [], message [98]], None)"
proof -
  have "pieces [10] (concat [[97, 13], [10, 10, 98]]) = [[97, 13], [], [98]]"
    by code_simp
  then show ?thesis
    using lines_are_framed [of "[10]" "[[97, 13], [10, 10, 98]]" 4 False]
    by (simp add: emit_def trim_cr_def del: run.simps)
qed

text \<open>
  At the limit itself the outcome depends on the cut: a line of three bytes fits into a
  limit of four, but not when its carriage return has arrived and its newline has not.
\<close>

lemma line_limit_depends_on_the_cut:
  "run lines_feed lines_finish [[97, 98, 99, 13, 10]] (new_lines 4 [10] False) = ([message [97, 98, 99]], None)"
  "run lines_feed lines_finish [[97, 98, 99, 13], [10]] (new_lines 4 [10] False) = ([], Some Line_too_long)"
  by code_simp+

text \<open> The segments a re_match scanner delivers, when it does not fail, are the stream
  itself: nothing before, between or after the matches is lost or duplicated, whatever the
  matches are and however the stream is cut.\<close>

theorem re_match_keeps_every_byte:
  assumes "search_ok (re_search env (re_pattern s))" "re_buf s = []"
    and "run (re_match_feed env) (re_match_finish env) cs s = (ms, None)"
  shows "concat (map body ms) = concat cs"
  using run_re_match [OF assms(1,3)] assms(2) by simp

text \<open>A regular expression engine for one literal byte.\<close>

definition byte_search :: "byte \<Rightarrow> bytes \<Rightarrow> nat \<Rightarrow> (nat \<times> nat) option" where
  "byte_search b hay pos = (let n = length (takeWhile (\<lambda>c. c \<noteq> b) (drop pos hay)) in
     if pos + n < length hay then Some (pos + n, 1) else None)"

definition sample_env :: env where
  "sample_env = \<lparr>canonical_json = Inr, re_error = (\<lambda>_. None), re_search = (\<lambda>p. byte_search (hd p)),
     re_partial = (\<lambda>p name. hd p \<in> set name), codec_decompress = (\<lambda>_ b. Inr b)\<rparr>"

lemma byte_search_ok: "search_ok (byte_search b)"
  by (auto simp: search_ok_def byte_search_def Let_def split: if_splits)

theorem re_match_keeps_every_byte_witness:
  "concat (map body [message [1, 88], message [97, 2], message [97, 3, 3]]) =
   concat [[1, 88, 97], [2, 97, 3], [3]]"
proof (rule re_match_keeps_every_byte)
  let ?s = "\<lparr>re_pattern = [97], re_buf = [], re_max = 100\<rparr>"
  show "search_ok (re_search sample_env (re_pattern ?s))"
    by (simp add: sample_env_def byte_search_ok)
  show "re_buf ?s = []"
    by simp
  show "run (re_match_feed sample_env) (re_match_finish sample_env) [[1, 88, 97], [2, 97, 3], [3]] ?s =
      ([message [1, 88], message [97, 2], message [97, 3, 3]], None)"
    by code_simp
qed

end
