(* ===== verification/Scan_Json.thy ===== *)
theory Scan_Json
  imports Scan_Base
begin

text \<open>
  The JSON scanners of \<open>scanners.cc\<close>: \<open>end_of_json_value\<close> finds where the next value ends by
  counting depth, \<open>json_documents\<close> frames a stream of values and \<open>json_array\<close> the elements of
  top-level arrays.  A document that does not parse is remembered and thrown by the next
  call, after the documents before it were handed over.
\<close>

definition ws :: "byte \<Rightarrow> bool" where
  "ws c \<longleftrightarrow> c = 32 \<or> c = 9 \<or> c = 10 \<or> c = 13"

text \<open>
  The scan from the first byte of a value: the brackets open, whether it is inside a string,
  whether the last byte was a backslash there, and whether this is the first byte.  The
  result is the number of bytes up to the end of the value.
\<close>

datatype scan_step = Go nat bool bool | Ends_before | Ends_here | Malformed

definition json_step :: "nat \<Rightarrow> bool \<Rightarrow> bool \<Rightarrow> bool \<Rightarrow> byte \<Rightarrow> scan_step" where
  "json_step depth in_str esc first c =
    (if in_str then
       (if esc then Go depth True False
        else if c = 92 then Go depth True True
        else if c = 34 then Go depth False False
        else Go depth True False)
     else if c = 34 then Go depth True esc
     else if depth = 0 \<and> \<not> first \<and> (c = 44 \<or> c = 93 \<or> c = 125 \<or> ws c) then Ends_before
     else if c = 123 \<or> c = 91 then Go (Suc depth) False esc
     else if c = 125 \<or> c = 93 then
       (if depth = 0 then Malformed else if depth - 1 = 0 then Ends_here else Go (depth - 1) False esc)
     else Go depth False esc)"

fun json_scan :: "nat \<Rightarrow> bool \<Rightarrow> bool \<Rightarrow> bool \<Rightarrow> bytes \<Rightarrow> nat option" where
  "json_scan depth in_str esc first [] = None"
| "json_scan depth in_str esc first (c # s) = (case json_step depth in_str esc first c of
     Go d i e \<Rightarrow> map_option Suc (json_scan d i e False s)
   | Ends_before \<Rightarrow> Some 0
   | Ends_here \<Rightarrow> Some 1
   | Malformed \<Rightarrow> None)"

definition end_of_json_value :: "bytes \<Rightarrow> nat option" where
  "end_of_json_value s = (let v = dropWhile ws s in
     if v = [] then None
     else map_option (\<lambda>n. length s - length v + n) (json_scan 0 False False True v))"

definition canonical_json_message :: "env \<Rightarrow> string \<Rightarrow> bytes \<Rightarrow> scan_err + smsg" where
  "canonical_json_message env who span = (case canonical_json env span of
     Inl e \<Rightarrow> Inl (Bad_json who e) | Inr v \<Rightarrow> Inr (message v))"

text \<open>
  Where the loop of either scanner goes next: stop, stop with an error to report, or the
  end of the next value.  At the end of the stream a bare scalar ends with it.
\<close>

definition next_value :: "scan_err \<Rightarrow> bool \<Rightarrow> bytes \<Rightarrow> scan_err option + nat" where
  "next_value truncated at_end s = (case end_of_json_value s of
     Some j \<Rightarrow> Inr j
   | None \<Rightarrow>
       if \<not> at_end then Inl None
       else let k = dropWhile ws s in
         if k = [] then Inl None
         else if hd k = 123 \<or> hd k = 91 \<or> hd k = 34 then Inl (Some truncated)
         else Inr (length s))"

section \<open>json_documents\<close>

record json_documents_scanner =
  docs_buf :: bytes
  docs_pending :: "scan_err option"

lemma json_step_first: "json_step d i e True c \<noteq> Ends_before"
  by (simp add: json_step_def)

lemma json_scan_pos: "json_scan d i e first s = Some n \<Longrightarrow> n \<le> length s \<and> (first \<longrightarrow> 0 < n)"
  by (induction d i e first s arbitrary: n rule: json_scan.induct)
    (auto simp: json_step_first split: scan_step.splits)

lemma end_of_json_value_pos: "end_of_json_value s = Some j \<Longrightarrow> length (takeWhile ws s) < j \<and> j \<le> length s"
proof -
  assume e: "end_of_json_value s = Some j"
  have len: "length s = length (takeWhile ws s) + length (dropWhile ws s)"
    by (metis length_append takeWhile_dropWhile_id)
  then show ?thesis
    using e json_scan_pos unfolding end_of_json_value_def Let_def by (fastforce split: if_splits)
qed

lemma next_value_pos: "next_value t at_end s = Inr j \<Longrightarrow> length (takeWhile ws s) < j \<and> j \<le> length s"
proof -
  assume n: "next_value t at_end s = Inr j"
  have "length (takeWhile ws s) < length s" if "dropWhile ws s \<noteq> []"
    using that by (metis length_append less_add_same_cancel1 length_greater_0_conv takeWhile_dropWhile_id)
  then show ?thesis
    using n end_of_json_value_pos
    by (auto simp: next_value_def Let_def split: option.splits if_splits)
qed

function docs_loop :: "env \<Rightarrow> bool \<Rightarrow> bytes \<Rightarrow> smsg list \<times> bytes \<times> scan_err option" where
  "docs_loop env at_end s = (case next_value Ended_inside_value at_end s of
     Inl p \<Rightarrow> ([], s, p)
   | Inr j \<Rightarrow>
       let span = dropWhile ws (take j s) in
       if span = [] then ([], s, None)
       else case canonical_json_message env ''json_documents'' span of
         Inl e \<Rightarrow> ([], s, Some e)
       | Inr m \<Rightarrow> (case docs_loop env at_end (drop j s) of (ms, rest, p) \<Rightarrow> (m # ms, rest, p)))"
  by pat_completeness auto
termination
  by (relation "measure (\<lambda>(env, at_end, s). length s)") (auto dest!: next_value_pos)

declare docs_loop.simps [simp del]

definition docs_drain :: "env \<Rightarrow> bool \<Rightarrow> json_documents_scanner \<Rightarrow>
    json_documents_scanner \<times> (scan_err + smsg list)" where
  "docs_drain env at_end s = (case docs_pending s of
     Some e \<Rightarrow> (s\<lparr>docs_pending := None\<rparr>, Inl e)
   | None \<Rightarrow> (case docs_loop env at_end (docs_buf s) of (out, rest, p) \<Rightarrow>
       if at_end \<and> p \<noteq> None \<and> out = []
       then (s\<lparr>docs_buf := rest, docs_pending := None\<rparr>, Inl (the p))
       else (s\<lparr>docs_buf := rest, docs_pending := p\<rparr>, Inr out)))"

definition docs_feed :: "env \<Rightarrow> json_documents_scanner \<Rightarrow> bytes \<Rightarrow>
    json_documents_scanner \<times> (scan_err + smsg list)" where
  "docs_feed env s chunk = docs_drain env False (s\<lparr>docs_buf := docs_buf s @ chunk\<rparr>)"

definition docs_finish :: "env \<Rightarrow> json_documents_scanner \<Rightarrow>
    json_documents_scanner \<times> (scan_err + smsg list)" where
  "docs_finish env s = docs_drain env True s"

definition new_docs :: json_documents_scanner where
  "new_docs = \<lparr>docs_buf = [], docs_pending = None\<rparr>"

section \<open>json_array\<close>

record json_array_scanner =
  array_buf :: bytes
  array_pending :: "scan_err option"
  array_opened :: bool

lemma shorter_tl: "dropWhile ws s \<noteq> [] \<Longrightarrow> length (List.tl (dropWhile ws s)) < length s"
  using length_dropWhile_le [of ws s] by (cases "dropWhile ws s") auto

function array_loop :: "env \<Rightarrow> bool \<Rightarrow> bool \<Rightarrow> bytes \<Rightarrow> smsg list \<times> bool \<times> bytes \<times> scan_err option" where
  "array_loop env at_end opened s = (let r = dropWhile ws s in
     if r = [] then ([], opened, r, None)
     else if \<not> opened then
       (if hd r \<noteq> 91 then ([], False, r, Some (Not_an_array (hd r)))
        else array_loop env at_end True (List.tl r))
     else if hd r = 44 then array_loop env at_end True (List.tl r)
     else if hd r = 93 then array_loop env at_end False (List.tl r)
     else case next_value Ended_mid_element at_end r of
       Inl p \<Rightarrow> ([], True, r, p)
     | Inr j \<Rightarrow> (case canonical_json_message env ''json_array'' (dropWhile ws (take j r)) of
           Inl e \<Rightarrow> ([], True, r, Some e)
         | Inr m \<Rightarrow> (case array_loop env at_end True (drop j r) of
             (ms, op, rest, p) \<Rightarrow> (m # ms, op, rest, p))))"
  by pat_completeness auto
termination
proof (relation "measure (\<lambda>(env, at_end, opened, s). length s)", goal_cases)
  case (2 env at_end opened s r)
  then show ?case
    using shorter_tl [of s] by simp
next
  case (3 env at_end opened s r)
  then show ?case
    using shorter_tl [of s] by simp
next
  case (4 env at_end opened s r)
  then show ?case
    using shorter_tl [of s] by simp
next
  case (5 env at_end opened s r j m)
  then show ?case
    using next_value_pos [of Ended_mid_element at_end r j] length_dropWhile_le [of ws s] by auto
qed simp

declare array_loop.simps [simp del]

definition array_drain :: "env \<Rightarrow> bool \<Rightarrow> json_array_scanner \<Rightarrow>
    json_array_scanner \<times> (scan_err + smsg list)" where
  "array_drain env at_end s = (case array_pending s of
     Some e \<Rightarrow> (s\<lparr>array_pending := None\<rparr>, Inl e)
   | None \<Rightarrow> (case array_loop env at_end (array_opened s) (array_buf s) of (out, op, rest, p) \<Rightarrow>
       if at_end \<and> p \<noteq> None \<and> out = []
       then (s\<lparr>array_buf := rest, array_pending := None, array_opened := op\<rparr>, Inl (the p))
       else (s\<lparr>array_buf := rest, array_pending := p, array_opened := op\<rparr>, Inr out)))"

definition array_feed :: "env \<Rightarrow> json_array_scanner \<Rightarrow> bytes \<Rightarrow>
    json_array_scanner \<times> (scan_err + smsg list)" where
  "array_feed env s chunk = array_drain env False (s\<lparr>array_buf := array_buf s @ chunk\<rparr>)"

definition array_finish :: "env \<Rightarrow> json_array_scanner \<Rightarrow>
    json_array_scanner \<times> (scan_err + smsg list)" where
  "array_finish env s = (case array_drain env True s of
     (s', Inl e) \<Rightarrow> (s', Inl e)
   | (s', Inr out) \<Rightarrow> (s', if array_opened s' \<and> out = [] then Inl Array_unclosed else Inr out))"

definition new_array :: json_array_scanner where
  "new_array = \<lparr>array_buf = [], array_pending = None, array_opened = False\<rparr>"

section \<open>More input does not move the end of a value\<close>

lemma json_scan_append: "json_scan d i e first s = Some n \<Longrightarrow> json_scan d i e first (s @ t) = Some n"
  by (induction d i e first s arbitrary: n rule: json_scan.induct) (auto split: scan_step.splits)

lemma dropWhile_append_some: "dropWhile P s \<noteq> [] \<Longrightarrow> dropWhile P (s @ t) = dropWhile P s @ t"
  by (induction s) auto

lemma dropWhile_append_none: "dropWhile P s = [] \<Longrightarrow> dropWhile P (s @ t) = dropWhile P t"
  by (induction s) (auto split: if_splits)

lemma end_of_json_value_append:
  assumes "end_of_json_value s = Some j"
  shows "end_of_json_value (s @ t) = Some j"
proof -
  let ?v = "dropWhile ws s"
  obtain n where v: "?v \<noteq> []" and n: "json_scan 0 False False True ?v = Some n" "j = length s - length ?v + n"
    using assms unfolding end_of_json_value_def Let_def
    by (auto split: if_splits simp del: dropWhile_eq_Nil_conv)
  have "length (s @ t) - length (?v @ t) = length s - length ?v"
    by simp
  then show ?thesis
    using v n json_scan_append [OF n(1), of t]
    by (simp add: end_of_json_value_def Let_def dropWhile_append_some [OF v] del: dropWhile_eq_Nil_conv)
qed

lemma next_value_append: "next_value t False s = Inr j \<Longrightarrow> next_value t False (s @ u) = Inr j"
  by (auto simp: next_value_def end_of_json_value_append split: option.splits)

lemma next_value_more: "next_value t False s = Inl p \<Longrightarrow> p = None"
  by (auto simp: next_value_def split: option.splits)

lemma span_nonempty:
  assumes "next_value t at_end s = Inr j"
  shows "dropWhile ws (take j s) \<noteq> []"
proof -
  let ?k = "length (takeWhile ws s)"
  have k: "?k < j" "j \<le> length s"
    using next_value_pos [OF assms] by auto
  then have "\<not> ws (s ! ?k)"
    by (intro nth_length_takeWhile) simp
  moreover have "s ! ?k \<in> set (take j s)"
    using k by (metis in_set_conv_nth length_take min.absorb2 nth_take)
  ultimately show ?thesis
    by (simp only: dropWhile_eq_Nil_conv) blast
qed

lemma docs_loop_step:
  assumes "next_value Ended_inside_value at_end s = Inr j"
  shows "docs_loop env at_end s = (case canonical_json_message env ''json_documents'' (dropWhile ws (take j s)) of
         Inl e \<Rightarrow> ([], s, Some e)
       | Inr m \<Rightarrow> (case docs_loop env at_end (drop j s) of (ms, rest, p) \<Rightarrow> (m # ms, rest, p)))"
  by (subst docs_loop.simps) (simp add: assms span_nonempty [OF assms] Let_def del: dropWhile_eq_Nil_conv)

lemma docs_loop_stop: "next_value Ended_inside_value at_end s = Inl p \<Longrightarrow> docs_loop env at_end s = ([], s, p)"
  by (subst docs_loop.simps) simp

lemma docs_loop_append:
  "docs_loop env False s = (ms, r, p) \<Longrightarrow> docs_loop env False (s @ t) =
     (case p of
       None \<Rightarrow> (case docs_loop env False (r @ t) of (ms', r', p') \<Rightarrow> (ms @ ms', r', p'))
     | Some e \<Rightarrow> (ms, r @ t, Some e))"
proof (induction env False s arbitrary: ms r p rule: docs_loop.induct)
  case (1 env s)
  show ?case
  proof (cases "next_value Ended_inside_value False s")
    case (Inl q)
    then show ?thesis
      using 1(2) next_value_more [OF Inl] by (auto simp: docs_loop_stop split: prod.splits)
  next
    case (Inr j)
    have j: "j \<le> length s"
      using next_value_pos [OF Inr] by simp
    note step = docs_loop_step [OF Inr] docs_loop_step [OF next_value_append [OF Inr, of t]]
    show ?thesis
    proof (cases "canonical_json_message env ''json_documents'' (dropWhile ws (take j s))")
      case (Inl e)
      then have "r = s" "ms = []" "p = Some e"
        using 1(2) by (simp_all add: step(1))
      then show ?thesis
        using Inl j by (simp add: step(2))
    next
      case (Inr m)
      obtain ms' r' p' where D: "docs_loop env False (drop j s) = (ms', r', p')"
        using prod_cases3 by blast
      then have "ms = m # ms'" "r = r'" "p = p'"
        using 1(2) Inr by (auto simp: step)
      then show ?thesis
        using 1(1) [OF \<open>next_value _ False s = Inr j\<close> refl span_nonempty [OF \<open>next_value _ False s = Inr j\<close>] Inr D]
          j Inr by (auto simp: step split: option.splits prod.splits)
    qed
  qed
qed

lemma docs_loop_residue: "docs_loop env False s = (ms, r, None) \<Longrightarrow> docs_loop env False r = ([], r, None)"
proof (induction env False s arbitrary: ms r rule: docs_loop.induct)
  case (1 env s)
  show ?case
  proof (cases "next_value Ended_inside_value False s")
    case (Inl q)
    then show ?thesis
      using 1(2) next_value_more [OF Inl] by (auto simp: docs_loop_stop)
  next
    case (Inr j)
    note J = Inr
    show ?thesis
    proof (cases "canonical_json_message env ''json_documents'' (dropWhile ws (take j s))")
      case (Inl e)
      then show ?thesis
        using 1(2) by (auto simp: docs_loop_step [OF J])
    next
      case (Inr m)
      then obtain ms' where "docs_loop env False (drop j s) = (ms', r, None)"
        using 1(2) by (auto simp: docs_loop_step [OF J] split: prod.splits)
      then show ?thesis
        using 1(1) [OF J refl span_nonempty [OF J] Inr] by blast
    qed
  qed
qed

definition docs_ok :: "env \<Rightarrow> json_documents_scanner \<Rightarrow> bool" where
  "docs_ok env s \<longleftrightarrow> (docs_pending s = None \<longrightarrow> docs_loop env False (docs_buf s) = ([], docs_buf s, None))"

lemma run_docs_pending: "docs_pending s = Some e \<Longrightarrow> run (docs_feed env) (docs_finish env) cs s = ([], Some e)"
  by (cases cs) (simp_all add: docs_feed_def docs_finish_def docs_drain_def)

lemma docs_feed_more:
  "docs_pending s = None \<Longrightarrow> docs_loop env False (docs_buf s @ c) = (ms, r, p) \<Longrightarrow>
     docs_feed env s c = (s\<lparr>docs_buf := r, docs_pending := p\<rparr>, Inr ms)"
  by (simp add: docs_feed_def docs_drain_def)

lemma docs_join: "run (docs_feed env) (docs_finish env) (a # b # cs) s =
    run (docs_feed env) (docs_finish env) ((a @ b) # cs) s"
proof (cases "docs_pending s")
  case None
  obtain ms r p where A: "docs_loop env False (docs_buf s @ a) = (ms, r, p)"
    using prod_cases3 by blast
  obtain ms' r' p' where B: "docs_loop env False (r @ b) = (ms', r', p')"
    using prod_cases3 by blast
  have AB: "docs_loop env False (docs_buf s @ a @ b) =
      (case p of None \<Rightarrow> (ms @ ms', r', p') | Some e \<Rightarrow> (ms, r @ b, Some e))"
    using docs_loop_append [OF A, of b] by (simp add: B split: option.split)
  show ?thesis
  proof (cases p)
    case None
    then show ?thesis
      using docs_feed_more [OF \<open>docs_pending s = None\<close> A] AB B
        docs_feed_more [OF \<open>docs_pending s = None\<close>, of env "a @ b"]
        docs_feed_more [of "s\<lparr>docs_buf := r, docs_pending := None\<rparr>" env b] by simp
  next
    case (Some e)
    then show ?thesis
      using docs_feed_more [OF \<open>docs_pending s = None\<close> A] AB
        docs_feed_more [OF \<open>docs_pending s = None\<close>, of env "a @ b"]
      by (simp add: run_docs_pending del: run.simps(2) add: run.simps(2) [of _ _ a] run.simps(2) [of _ _ "a @ b"])
  qed
qed (simp only: run_docs_pending)

interpretation docs: cut_law "docs_feed env" "docs_finish env" "docs_ok env" "\<lambda>_. True"
proof
  fix s a b cs
  show "run (docs_feed env) (docs_finish env) (a # b # cs) s =
      run (docs_feed env) (docs_finish env) ((a @ b) # cs) s"
    by (rule docs_join)
next
  fix s
  assume ok: "docs_ok env s"
  show "run (docs_feed env) (docs_finish env) [[]] s = run (docs_feed env) (docs_finish env) [] s"
  proof (cases "docs_pending s")
    case None
    then show ?thesis
      using ok docs_feed_more [OF None, of env "[]" "[]" "docs_buf s" None]
      by (simp add: docs_ok_def None [symmetric])
  qed (simp only: run_docs_pending)
qed

subsection \<open>Arrays\<close>

lemma array_loop_empty: "dropWhile ws s = [] \<Longrightarrow> array_loop env ae op s = ([], op, [], None)"
  by (subst array_loop.simps) (simp add: Let_def)

lemma array_loop_open: "dropWhile ws s = c # r \<Longrightarrow> array_loop env ae False s =
    (if c = 91 then array_loop env ae True r else ([], False, c # r, Some (Not_an_array c)))"
  by (subst array_loop.simps) (simp add: Let_def)

lemma array_loop_comma: "dropWhile ws s = 44 # r \<Longrightarrow> array_loop env ae True s = array_loop env ae True r"
  by (subst array_loop.simps) (simp add: Let_def)

lemma array_loop_close: "dropWhile ws s = 93 # r \<Longrightarrow> array_loop env ae True s = array_loop env ae False r"
  by (subst array_loop.simps) (simp add: Let_def)

lemma array_loop_element:
  "dropWhile ws s = c # r \<Longrightarrow> c \<noteq> 44 \<Longrightarrow> c \<noteq> 93 \<Longrightarrow> array_loop env ae True s =
    (case next_value Ended_mid_element ae (c # r) of
       Inl p \<Rightarrow> ([], True, c # r, p)
     | Inr j \<Rightarrow> (case canonical_json_message env ''json_array'' (dropWhile ws (take j (c # r))) of
           Inl e \<Rightarrow> ([], True, c # r, Some e)
         | Inr m \<Rightarrow> (case array_loop env ae True (drop j (c # r)) of
             (ms, op, rest, p) \<Rightarrow> (m # ms, op, rest, p))))"
  by (subst array_loop.simps) (simp add: Let_def)

lemmas array_loop_cases = array_loop_open array_loop_comma array_loop_close

definition resume :: "env \<Rightarrow> bytes \<Rightarrow> smsg list \<times> bool \<times> bytes \<times> scan_err option \<Rightarrow>
    smsg list \<times> bool \<times> bytes \<times> scan_err option" where
  "resume env t x = (case x of (ms, op, r, p) \<Rightarrow> (case p of
       None \<Rightarrow> (case array_loop env False op (r @ t) of (ms', op', r', p') \<Rightarrow> (ms @ ms', op', r', p'))
     | Some e \<Rightarrow> (ms, op, r @ t, Some e)))"

lemma dropWhile_Cons_append: "dropWhile P s = c # r \<Longrightarrow> dropWhile P (s @ t) = c # r @ t"
  by (simp add: dropWhile_append_some)

lemma dropWhile_head: "dropWhile P s = c # r \<Longrightarrow> dropWhile P (c # r) = c # r"
  by (metis dropWhile_idem)

lemma array_loop_append: "array_loop env False op (s @ t) = resume env t (array_loop env False op s)"
proof (induction env False op s rule: array_loop.induct)
  case (1 env op s)
  show ?case
  proof (cases "dropWhile ws s")
    case Nil
    then show ?thesis
      using dropWhile_append_none [OF Nil, of t]
      by (simp add: array_loop_empty [OF Nil] resume_def split: prod.split)
        (simp add: array_loop.simps [of env False op "s @ t"] array_loop.simps [of env False op t])
  next
    case (Cons c r)
    note C = Cons dropWhile_Cons_append [OF Cons, of t]
    show ?thesis
    proof (cases "\<not> op \<or> c = 44 \<or> c = 93")
      case True
      then consider "\<not> op" "c = 91" | "\<not> op" "c \<noteq> 91" | "op" "c = 44" | "op" "c = 93"
        by blast
      then show ?thesis
      proof cases
        case 1
        then show ?thesis
          using "1.hyps"(1) [OF refl] C by (simp add: array_loop_open [OF C(1)] array_loop_open [OF C(2)])
      next
        case 2
        then show ?thesis
          by (simp add: array_loop_open [OF C(1)] array_loop_open [OF C(2)] resume_def)
      next
        case 3
        then show ?thesis
          using "1.hyps"(2) [OF refl] C by (simp add: array_loop_comma)
      next
        case 4
        then show ?thesis
          using "1.hyps"(3) [OF refl] C by (simp add: array_loop_close)
      qed
    next
      case False
      then have op: "op" "c \<noteq> 44" "c \<noteq> 93"
        by auto
      note E = array_loop_element [OF C(1) op(2,3), of env False]
        array_loop_element [OF C(2) op(2,3), of env False]
      show ?thesis
      proof (cases "next_value Ended_mid_element False (c # r)")
        case (Inl q)
        then have "array_loop env False True s = ([], True, c # r, None)"
          using next_value_more [OF Inl] by (simp add: E(1))
        moreover have "array_loop env False True (s @ t) = array_loop env False True (c # r @ t)"
          using E(2) array_loop_element [of "c # r @ t" c "r @ t" env False] dropWhile_head [OF C(2)] op
          by simp
        ultimately show ?thesis
          using op(1) by (simp add: resume_def split: prod.split)
      next
        case (Inr j)
        have J: "next_value Ended_mid_element False (c # r) = Inr j"
            "next_value Ended_mid_element False (c # r @ t) = Inr j"
          using Inr next_value_append [OF Inr, of t] by simp_all
        have j: "j \<le> length (c # r)"
          using next_value_pos [OF Inr] by simp
        have jt: "take j (c # r @ t) = take j (c # r)" "drop j (c # r @ t) = drop j (c # r) @ t"
          using j take_append [of j "c # r" t] drop_append [of j "c # r" t] by simp_all
        show ?thesis
        proof (cases "canonical_json_message env ''json_array'' (dropWhile ws (take j (c # r)))")
          case (Inl e)
          then show ?thesis
            using op(1) J jt by (simp add: E resume_def)
        next
          case (Inr m)
          have "array_loop env False True (drop j (c # r) @ t) =
              resume env t (array_loop env False True (drop j (c # r)))"
            using "1.hyps"(4) [OF refl] C op J Inr by simp
          then show ?thesis
            using op(1) J jt Inr
            by (simp add: E resume_def split: prod.split option.split)
        qed
      qed
    qed
  qed
qed

lemma array_loop_residue: "array_loop env False op s = (ms, op', r, None) \<Longrightarrow>
    array_loop env False op' r = ([], op', r, None)"
proof (induction env False op s arbitrary: ms rule: array_loop.induct)
  case (1 env op s)
  show ?case
  proof (cases "dropWhile ws s")
    case Nil
    then show ?thesis
      using 1(5) by (auto simp: array_loop_empty)
  next
    case (Cons c rest)
    note C = Cons
    consider "\<not> op" "c = 91" | "\<not> op" "c \<noteq> 91" | "op" "c = 44" | "op" "c = 93" | "op" "c \<noteq> 44" "c \<noteq> 93"
      by blast
    then show ?thesis
    proof cases
      case 1
      then show ?thesis
        using "1.hyps"(1) [OF refl] C "1.prems" by (simp add: array_loop_open [OF C])
    next
      case 2
      then show ?thesis
        using "1.prems" by (simp add: array_loop_open [OF C])
    next
      case 3
      then show ?thesis
        using "1.hyps"(2) [OF refl] C "1.prems" by (simp add: array_loop_comma)
    next
      case 4
      then show ?thesis
        using "1.hyps"(3) [OF refl] C "1.prems" by (simp add: array_loop_close)
    next
      case 5
      note E = array_loop_element [OF C 5(2,3), of env False]
      show ?thesis
      proof (cases "next_value Ended_mid_element False (c # rest)")
        case (Inl q)
        then have "op'" "r = c # rest"
          using "1.prems" 5(1) by (auto simp: E)
        then show ?thesis
          using array_loop_element [OF dropWhile_head [OF C] 5(2,3), of env False] Inl next_value_more [OF Inl]
          by simp
      next
        case (Inr j)
        note J = Inr
        show ?thesis
        proof (cases "canonical_json_message env ''json_array'' (dropWhile ws (take j (c # rest)))")
          case (Inl e)
          then show ?thesis
            using "1.prems" 5(1) J by (simp add: E)
        next
          case (Inr m)
          then obtain ms' where "array_loop env False True (drop j (c # rest)) = (ms', op', r, None)"
            using "1.prems" 5(1) J by (auto simp: E split: prod.splits)
          then show ?thesis
            using "1.hyps"(4) [OF refl] C 5 J Inr by simp
        qed
      qed
    qed
  qed
qed

definition array_ok :: "env \<Rightarrow> json_array_scanner \<Rightarrow> bool" where
  "array_ok env s \<longleftrightarrow> (array_pending s = None \<longrightarrow>
     array_loop env False (array_opened s) (array_buf s) = ([], array_opened s, array_buf s, None))"

lemma run_array_pending: "array_pending s = Some e \<Longrightarrow> run (array_feed env) (array_finish env) cs s = ([], Some e)"
  by (cases cs) (simp_all add: array_feed_def array_finish_def array_drain_def)

lemma array_feed_more:
  "array_pending s = None \<Longrightarrow> array_loop env False (array_opened s) (array_buf s @ c) = (ms, op, r, p) \<Longrightarrow>
     array_feed env s c = (s\<lparr>array_buf := r, array_pending := p, array_opened := op\<rparr>, Inr ms)"
  by (simp add: array_feed_def array_drain_def)

lemma array_join: "run (array_feed env) (array_finish env) (a # b # cs) s =
    run (array_feed env) (array_finish env) ((a @ b) # cs) s"
proof (cases "array_pending s")
  case None
  obtain ms op r p where A: "array_loop env False (array_opened s) (array_buf s @ a) = (ms, op, r, p)"
    using prod_cases4 by blast
  obtain ms' op' r' p' where B: "array_loop env False op (r @ b) = (ms', op', r', p')"
    using prod_cases4 by blast
  have AB: "array_loop env False (array_opened s) (array_buf s @ a @ b) =
      (case p of None \<Rightarrow> (ms @ ms', op', r', p') | Some e \<Rightarrow> (ms, op, r @ b, Some e))"
    using array_loop_append [of env "array_opened s" "array_buf s @ a" b]
    by (simp add: A B resume_def split: option.split)
  show ?thesis
  proof (cases p)
    case None
    then show ?thesis
      using array_feed_more [OF \<open>array_pending s = None\<close> A] AB B
        array_feed_more [OF \<open>array_pending s = None\<close>, of env "a @ b"]
        array_feed_more [of "s\<lparr>array_buf := r, array_pending := None, array_opened := op\<rparr>" env b] by simp
  next
    case (Some e)
    then show ?thesis
      using array_feed_more [OF \<open>array_pending s = None\<close> A] AB
        array_feed_more [OF \<open>array_pending s = None\<close>, of env "a @ b"]
      by (simp add: run_array_pending del: run.simps(2) add: run.simps(2) [of _ _ a] run.simps(2) [of _ _ "a @ b"])
  qed
qed (simp only: run_array_pending)

interpretation array: cut_law "array_feed env" "array_finish env" "array_ok env" "\<lambda>_. True"
proof
  fix s a b cs
  show "run (array_feed env) (array_finish env) (a # b # cs) s =
      run (array_feed env) (array_finish env) ((a @ b) # cs) s"
    by (rule array_join)
next
  fix s
  assume ok: "array_ok env s"
  show "run (array_feed env) (array_finish env) [[]] s = run (array_feed env) (array_finish env) [] s"
  proof (cases "array_pending s")
    case None
    then show ?thesis
      using ok array_feed_more [OF None, of env "[]" "[]" "array_opened s" "array_buf s" None]
      by (simp add: array_ok_def None [symmetric])
  qed (simp only: run_array_pending)
qed

section \<open>A stream of documents\<close>

text \<open>
  A text that is one document for the framing: the scan ends exactly at its end when a
  newline follows.
\<close>

definition document :: "bytes \<Rightarrow> bool" where
  "document d \<longleftrightarrow> d \<noteq> [] \<and> \<not> ws (hd d) \<and> json_scan 0 False False True (d @ [10]) = Some (length d)"

primrec documents_result :: "env \<Rightarrow> bytes list \<Rightarrow> smsg list \<times> scan_err option" where
  "documents_result env [] = ([], None)"
| "documents_result env (d # ds) = (case canonical_json_message env ''json_documents'' d of
     Inl e \<Rightarrow> ([], Some e)
   | Inr m \<Rightarrow> (m # fst (documents_result env ds), snd (documents_result env ds)))"

definition document_stream :: "bytes list \<Rightarrow> bytes" where
  "document_stream ds = concat (map (\<lambda>d. d @ [10]) ds)"

lemma blank_end_of_json: "dropWhile ws w = [] \<Longrightarrow> end_of_json_value w = None"
  by (simp add: end_of_json_value_def)

lemma end_of_document:
  assumes "document d" "dropWhile ws w = []"
  shows "end_of_json_value (w @ d @ [10] @ t) = Some (length w + length d)"
proof -
  have "dropWhile ws (w @ d @ [10] @ t) = d @ [10] @ t"
    using assms by (simp add: dropWhile_append_none) (cases d, auto simp: document_def)
  moreover have "json_scan 0 False False True (d @ [10] @ t) = Some (length d)"
    using assms(1) json_scan_append [of 0 False False True "d @ [10]" "length d" t]
    by (simp add: document_def)
  ultimately show ?thesis
    using assms(1) by (simp add: end_of_json_value_def document_def)
qed

lemma docs_loop_documents:
  "\<forall>d\<in>set ds. document d \<Longrightarrow> dropWhile ws w = [] \<Longrightarrow>
   \<exists>r. docs_loop env False (w @ document_stream ds) =
     (fst (documents_result env ds), r, snd (documents_result env ds))
     \<and> (snd (documents_result env ds) = None \<longrightarrow> dropWhile ws r = [])"
proof (induction ds arbitrary: w)
  case Nil
  then show ?case
    by (auto simp: document_stream_def docs_loop_stop next_value_def blank_end_of_json)
next
  case (Cons d ds)
  have d: "document d" and ds: "\<forall>d\<in>set ds. document d"
    using Cons.prems by auto
  let ?s = "w @ document_stream (d # ds)"
  have s: "?s = (w @ d) @ ([10] @ document_stream ds)"
    by (simp add: document_stream_def)
  have n: "next_value Ended_inside_value False ?s = Inr (length w + length d)"
    using end_of_document [OF d Cons.prems(2), of "document_stream ds"]
    by (simp add: next_value_def document_stream_def)
  have t: "take (length w + length d) ?s = w @ d" "drop (length w + length d) ?s = [10] @ document_stream ds"
    unfolding s by simp_all
  have span: "dropWhile ws (w @ d) = d"
    using d Cons.prems(2) by (cases d) (auto simp: dropWhile_append_none document_def)
  have "dropWhile ws [10] = []"
    by (simp add: ws_def)
  then obtain r where r: "docs_loop env False ([10] @ document_stream ds) =
      (fst (documents_result env ds), r, snd (documents_result env ds))"
      "snd (documents_result env ds) = None \<longrightarrow> dropWhile ws r = []"
    using Cons.IH [OF ds] by blast
  show ?case
    unfolding docs_loop_step [OF n, of env, unfolded t span]
    using r by (auto split: sum.split)
qed

lemma run_documents_one:
  assumes "\<forall>d\<in>set ds. document d"
  shows "run (docs_feed env) (docs_finish env) [document_stream ds] new_docs = documents_result env ds"
proof -
  obtain r where r: "docs_loop env False (document_stream ds) =
      (fst (documents_result env ds), r, snd (documents_result env ds))"
      "snd (documents_result env ds) = None \<longrightarrow> dropWhile ws r = []"
    using docs_loop_documents [OF assms, of "[]" env] by auto
  have F: "docs_feed env new_docs (document_stream ds) =
      (\<lparr>docs_buf = r, docs_pending = snd (documents_result env ds)\<rparr>, Inr (fst (documents_result env ds)))"
    using docs_feed_more [of new_docs env "document_stream ds"] r(1) by (simp add: new_docs_def)
  show ?thesis
  proof (cases "snd (documents_result env ds)")
    case None
    then show ?thesis
      using F r(2) by (simp add: docs_finish_def docs_drain_def docs_loop_stop next_value_def
        blank_end_of_json del: dropWhile_eq_Nil_conv) (metis prod.collapse)
  next
    case (Some e)
    then show ?thesis
      using F by (simp add: docs_finish_def docs_drain_def) (metis prod.collapse)
  qed
qed

text \<open>
  Two boundary behaviours of the end of a stream.  A document that is a string is reported
  as truncated when no separator follows it, although it is complete; and a top-level array
  whose last element is a bare scalar and which never closes is not reported at all, because
  the element is handed over and nothing is called after \<open>finish\<close>.
\<close>

lemma final_string_is_refused:
  "run (docs_feed env) (docs_finish env) [[34, 97, 34]] new_docs = ([], Some Ended_inside_value)"
  by (simp add: docs_feed_def docs_finish_def docs_drain_def new_docs_def docs_loop_stop next_value_def
      end_of_json_value_def ws_def json_step_def)

lemma unclosed_array_is_not_reported:
  assumes "canonical_json env [49] = Inr [49]" "canonical_json env [50] = Inr [50]"
  shows "run (array_feed env) (array_finish env) [[91, 49, 44, 50]] new_array = ([message [49], message [50]], None)"
  by (simp add: array_feed_def array_finish_def array_drain_def new_array_def array_loop.simps next_value_def
      end_of_json_value_def ws_def json_step_def Let_def canonical_json_message_def assms)

section \<open>Texts of values\<close>

text \<open>
  An independent description of the documents: values built from atoms (numbers, true,
  false, null), strings, arrays and objects, and the text a writer gives them.
\<close>

datatype json_value =
    Atom bytes
  | Text bytes
  | Arr "json_value list"
  | Obj "(bytes \<times> json_value) list"

definition atom_byte :: "byte \<Rightarrow> bool" where
  "atom_byte c \<longleftrightarrow> c \<noteq> 34 \<and> c \<noteq> 44 \<and> c \<noteq> 91 \<and> c \<noteq> 93 \<and> c \<noteq> 123 \<and> c \<noteq> 125 \<and> \<not> ws c"

definition escaped :: "bytes \<Rightarrow> bytes" where
  "escaped s = concat (map (\<lambda>c. if c = 34 \<or> c = 92 then [92, c] else [c]) s)"

definition quoted_text :: "bytes \<Rightarrow> bytes" where
  "quoted_text s = [34] @ escaped s @ [34]"

definition commas :: "bytes list \<Rightarrow> bytes" where
  "commas ts = (case ts of [] \<Rightarrow> [] | t # ts \<Rightarrow> t @ concat (map (\<lambda>t. 44 # t) ts))"

fun render :: "json_value \<Rightarrow> bytes" where
  "render (Atom a) = a"
| "render (Text s) = quoted_text s"
| "render (Arr vs) = [91] @ commas (map render vs) @ [93]"
| "render (Obj kvs) = [123] @ commas (map (\<lambda>(k, v). quoted_text k @ [58] @ render v) kvs) @ [125]"

fun atoms_ok :: "json_value \<Rightarrow> bool" where
  "atoms_ok (Atom a) \<longleftrightarrow> a \<noteq> [] \<and> list_all atom_byte a"
| "atoms_ok (Text s) \<longleftrightarrow> True"
| "atoms_ok (Arr vs) \<longleftrightarrow> list_all atoms_ok vs"
| "atoms_ok (Obj kvs) \<longleftrightarrow> list_all (\<lambda>(k, v). atoms_ok v) kvs"

text \<open>A text the scan passes over inside a bracket, whatever follows it.\<close>

definition passes :: "bytes \<Rightarrow> bool" where
  "passes x \<longleftrightarrow> (\<forall>d f t. json_scan (Suc d) False False f (x @ t) =
     (if x = [] then json_scan (Suc d) False False f t
      else map_option ((+) (length x)) (json_scan (Suc d) False False False t)))"

lemma map_option_add_0 [simp]: "map_option ((+) (0 :: nat)) r = r"
  by (cases r) simp_all

lemma scan_escaped: "json_scan d True False f (escaped s @ [34] @ t) =
    map_option ((+) (length (escaped s) + 1)) (json_scan d False False False t)"
proof (induction s arbitrary: f)
  case Nil
  then show ?case
    by (simp add: escaped_def json_step_def)
next
  case (Cons c s)
  then have "json_scan d True False False (escaped s @ 34 # t) =
      map_option ((+) (length (escaped s) + 1)) (json_scan d False False False t)"
    using Cons [of False] by (simp only: append_Cons append_Nil)
  then show ?case
    by (cases "json_scan d False False False t") (auto simp: escaped_def json_step_def)
qed

lemma scan_quoted: "json_scan d False False f (quoted_text s @ t) =
    map_option ((+) (length (quoted_text s))) (json_scan d False False False t)"
  using scan_escaped [of d False s t]
  by (cases "json_scan d False False False t") (simp_all add: quoted_text_def json_step_def)

lemma passes_append:
  assumes "passes x" "passes y"
  shows "passes (x @ y)"
  unfolding passes_def
proof (intro allI)
  fix d f t
  have "json_scan (Suc d) False False f (x @ y @ t) = (if x = [] then json_scan (Suc d) False False f (y @ t)
      else map_option ((+) (length x)) (json_scan (Suc d) False False False (y @ t)))"
    using assms(1) unfolding passes_def by blast
  moreover have "json_scan (Suc d) False False f' (y @ t) = (if y = [] then json_scan (Suc d) False False f' t
      else map_option ((+) (length y)) (json_scan (Suc d) False False False t))" for f'
    using assms(2) unfolding passes_def by blast
  ultimately show "json_scan (Suc d) False False f ((x @ y) @ t) =
      (if x @ y = [] then json_scan (Suc d) False False f t
       else map_option ((+) (length (x @ y))) (json_scan (Suc d) False False False t))"
    by (cases "json_scan (Suc d) False False False t") auto
qed

lemma passes_Nil: "passes []"
  by (simp add: passes_def)

lemma passes_byte: "atom_byte c \<or> c = 44 \<or> c = 58 \<Longrightarrow> passes [c]"
  unfolding passes_def
  by (auto simp: json_step_def atom_byte_def ws_def option.map_comp comp_def intro!: option.map_cong)

lemma passes_atom: "list_all atom_byte a \<Longrightarrow> passes a"
proof (induction a)
  case (Cons c a)
  then show ?case
    using passes_append [of "[c]" a] passes_byte [of c] by simp
qed (simp add: passes_Nil)

lemma passes_quoted: "passes (quoted_text s)"
  using scan_quoted by (simp add: passes_def quoted_text_def)

lemma passes_concat: "\<forall>x\<in>set xs. passes x \<Longrightarrow> passes (concat xs)"
  by (induction xs) (simp_all add: passes_Nil passes_append)

lemma passes_commas: "\<forall>x\<in>set xs. passes x \<Longrightarrow> passes (commas xs)"
  using passes_append [of "[44]"] passes_byte [of 44]
  by (auto simp: commas_def passes_Nil split: list.split intro!: passes_append passes_concat)

text \<open>Between brackets the scan comes back to the depth it started from.\<close>

lemma scan_brackets:
  assumes "passes x" "o1 = 91 \<or> o1 = 123" "c1 = 93 \<or> c1 = 125"
  shows "json_scan d False False f ([o1] @ x @ [c1] @ t) =
    (if d = 0 then Some (length x + 2)
     else map_option ((+) (length x + 2)) (json_scan d False False False t))"
proof -
  have "json_scan (Suc d) False False False (x @ [c1] @ t) =
      map_option ((+) (length x)) (json_scan (Suc d) False False False ([c1] @ t))"
    using assms(1) unfolding passes_def by (cases "x = []") (auto simp: option.map_ident)
  moreover have "json_scan (Suc d) False False False ([c1] @ t) =
      (if d = 0 then Some 1 else map_option Suc (json_scan d False False False t))"
    using assms(3) by (auto simp: json_step_def ws_def)
  moreover have "json_step d False False f o1 = Go (Suc d) False False"
    using assms(2) by (auto simp: json_step_def ws_def)
  ultimately show ?thesis
    by (cases "json_scan d False False False t") auto
qed

lemma passes_brackets:
  assumes "passes x" "o1 = 91 \<or> o1 = 123" "c1 = 93 \<or> c1 = 125"
  shows "passes ([o1] @ x @ [c1])"
  using scan_brackets [OF assms] by (simp add: passes_def)

lemma passes_render: "atoms_ok v \<Longrightarrow> passes (render v)"
proof (induction v rule: render.induct)
  case (3 vs)
  then have "passes (commas (map render vs))"
    by (intro passes_commas) (auto simp: list_all_iff)
  then show ?case
    by (simp only: render.simps) (rule passes_brackets, simp_all)
next
  case (4 kvs)
  have "passes (quoted_text k @ [58] @ render v)" if "(k, v) \<in> set kvs" for k v
    using 4 that by (intro passes_append passes_quoted passes_byte) (auto simp: list_all_iff)
  then have "passes (commas (map (\<lambda>(k, v). quoted_text k @ [58] @ render v) kvs))"
    by (intro passes_commas) auto
  then show ?case
    by (simp only: render.simps) (rule passes_brackets, simp_all)
qed (simp_all add: passes_atom passes_quoted)

lemma scan_atom: "list_all atom_byte a \<Longrightarrow> (a = [] \<Longrightarrow> \<not> f) \<Longrightarrow> json_scan 0 False False f (a @ [10]) = Some (length a)"
  by (induction a arbitrary: f) (auto simp: json_step_def atom_byte_def ws_def)

lemma document_render:
  assumes "atoms_ok v"
  shows "document (render v)"
proof (cases v)
  case (Atom a)
  then show ?thesis
    using assms scan_atom [of a True] by (cases a) (auto simp: document_def atom_byte_def)
next
  case (Text s)
  then show ?thesis
    using scan_quoted [of 0 True s "[10]"]
    by (simp add: document_def quoted_text_def ws_def json_step_def)
next
  case (Arr vs)
  have "passes (commas (map render vs))"
    using assms Arr by (intro passes_commas) (auto simp: list_all_iff passes_render)
  then show ?thesis
    using scan_brackets [of "commas (map render vs)" 91 93 0 True "[10]"] Arr
    by (simp add: document_def ws_def)
next
  case (Obj kvs)
  have "passes (quoted_text k @ [58] @ render v)" if "(k, v) \<in> set kvs" for k v
    using assms Obj that by (intro passes_append passes_quoted passes_byte passes_render) (auto simp: list_all_iff)
  then have "passes (commas (map (\<lambda>(k, v). quoted_text k @ [58] @ render v) kvs))"
    by (intro passes_commas) auto
  then show ?thesis
    using scan_brackets [of "commas (map (\<lambda>(k, v). quoted_text k @ [58] @ render v) kvs)" 123 125 0 True "[10]"] Obj
    by (simp add: document_def ws_def)
qed

section \<open>Properties\<close>

text \<open> The texts of any JSON values, one per line and however the stream is cut into chunks,
  are delivered value by value in their canonical form up to the first one the parser
  refuses, and that one's error is reported after the values before it.\<close>

theorem documents_are_framed:
  assumes "\<forall>v\<in>set vs. atoms_ok v" "concat cs = document_stream (map render vs)"
  shows "run (docs_feed env) (docs_finish env) cs new_docs = documents_result env (map render vs)"
proof -
  have "docs_ok env new_docs"
    by (simp add: docs_ok_def new_docs_def docs_loop_stop next_value_def end_of_json_value_def)
  moreover have "\<forall>d\<in>set (map render vs). document d"
    using assms(1) by (simp add: document_render)
  ultimately show ?thesis
    using docs.run_concat [of env new_docs cs] run_documents_one [of "map render vs" env] assms(2) by simp
qed

definition brackets_env :: env where
  "brackets_env = \<lparr>canonical_json = (\<lambda>b. if hd b = 91 \<or> hd b = 49 then Inr b else Inl [63]),
     re_error = (\<lambda>_. None), re_search = (\<lambda>_ _ _. None), re_partial = (\<lambda>_ _. False),
     codec_decompress = (\<lambda>_ b. Inr b)\<rparr>"

theorem documents_are_framed_witness:
  "run (docs_feed brackets_env) (docs_finish brackets_env)
     [[49, 10, 91], [34, 93, 92, 34, 34, 93], [10, 120, 10, 49, 10]] new_docs =
    ([message [49], message [91, 34, 93, 92, 34, 34, 93]], Some (Bad_json ''json_documents'' [63]))"
proof -
  let ?vs = "[Atom [49], Arr [Text [93, 34]], Atom [120], Atom [49]]"
  have "map render ?vs = [[49], [91, 34, 93, 92, 34, 34, 93], [120], [49]]"
    by code_simp
  moreover have "\<forall>v\<in>set ?vs. atoms_ok v"
    by code_simp
  moreover have "documents_result brackets_env [[49], [91, 34, 93, 92, 34, 34, 93], [120], [49]] =
      ([message [49], message [91, 34, 93, 92, 34, 34, 93]], Some (Bad_json ''json_documents'' [63]))"
    by code_simp
  ultimately show ?thesis
    using documents_are_framed [of ?vs "[[49, 10, 91], [34, 93, 92, 34, 34, 93], [10, 120, 10, 49, 10]]" brackets_env]
    by (simp add: document_stream_def del: run.simps render.simps)
qed

end
