(* ===== verification/Scan_Csv.thy ===== *)
theory Scan_Csv
  imports Scan_Base
begin

text \<open>
  The csv scanner of \<open>scanners.cc\<close> over the record reader of \<open>methods_parse.cc\<close>.  A record
  that reaches the end of the buffer is held back until more arrives; a row with the wrong
  number of fields is reported by the next call, after the rows before it.
\<close>

section \<open>The record reader\<close>

text \<open>
  What \<open>read_csv_record\<close> says: \<open>false\<close> (the record may still be arriving, the cursor is back
  at its start), an exception, or the row and the input after it.
\<close>

datatype csv_read = No_record | Csv_fails scan_err | Csv_row "bytes list" bytes

datatype csv_cont = Csv_more bool bool bytes "bytes list" bytes | Csv_done csv_read

text \<open>
  One turn of the loop at the byte \<open>c\<close>, with \<open>s\<close> after it: whether the field is quoted,
  whether it has started, the field and the fields before it.
\<close>

definition csv_step :: "byte \<Rightarrow> bool \<Rightarrow> bool \<Rightarrow> bool \<Rightarrow> bytes \<Rightarrow> bytes list \<Rightarrow> byte \<Rightarrow> bytes \<Rightarrow> csv_cont" where
  "csv_step delim lazy quoted started field out c s =
    (if quoted then
       (if c = 34 then
          (if s \<noteq> [] \<and> hd s = 34 then Csv_more True started (field @ [34]) out (List.tl s)
           else Csv_more False started field out s)
        else Csv_more True started (field @ [c]) out s)
     else if c = 34 \<and> \<not> started then Csv_more True True field out s
     else if c = 34 \<and> started then
       (if \<not> lazy then Csv_done (Csv_fails Bare_quote)
        else Csv_more quoted started (field @ [c]) out s)
     else if c = delim then Csv_more quoted False [] (out @ [field]) s
     else if c = 13 \<and> s \<noteq> [] \<and> hd s = 10 then Csv_done (Csv_row (out @ [field]) (List.tl s))
     else if c = 13 \<and> s = [] then Csv_done (Csv_row (out @ [field]) s)
     else if c = 10 then Csv_done (Csv_row (out @ [field]) s)
     else Csv_more quoted True (field @ [c]) out s)"

lemma csv_step_shorter:
  "csv_step delim lazy q st f out c s = Csv_more q' st' f' out' s' \<Longrightarrow> length s' \<le> length s"
  "csv_step delim lazy q st f out c s = Csv_done (Csv_row row rest) \<Longrightarrow> length rest \<le> length s"
  by (auto simp: csv_step_def split: if_splits)

function csv_record :: "byte \<Rightarrow> bool \<Rightarrow> bool \<Rightarrow> bool \<Rightarrow> bool \<Rightarrow> bytes \<Rightarrow> bytes list \<Rightarrow> bytes \<Rightarrow> csv_read" where
  "csv_record delim lazy at_end quoted started field out [] =
    (if \<not> at_end then No_record
     else if quoted \<and> \<not> lazy then Csv_fails Unterminated_quote
     else Csv_row (out @ [field]) [])"
| "csv_record delim lazy at_end quoted started field out (c # s) =
    (case csv_step delim lazy quoted started field out c s of
       Csv_more q st f o' s' \<Rightarrow> csv_record delim lazy at_end q st f o' s'
     | Csv_done r \<Rightarrow> r)"
  by pat_completeness auto
termination
  by (relation "measure (\<lambda>(delim, lazy, at_end, q, st, f, out, s). length s)")
    (auto dest: csv_step_shorter(1))

definition read_csv_record :: "byte \<Rightarrow> bool \<Rightarrow> bool \<Rightarrow> bytes \<Rightarrow> csv_read" where
  "read_csv_record delim lazy at_end s =
    (if s = [] then No_record else csv_record delim lazy at_end False False [] [] s)"

section \<open>Rows\<close>

record csv_scanner =
  csv_buf :: bytes
  csv_pending :: "scan_err option"
  csv_delim :: byte
  csv_header :: bool
  csv_lazy :: bool
  csv_continue :: bool
  csv_have_header :: bool
  csv_fields :: nat
  csv_head :: "bytes list"
  csv_row_index :: nat

definition new_csv :: "byte \<Rightarrow> bool \<Rightarrow> bool \<Rightarrow> bool \<Rightarrow> csv_scanner" where
  "new_csv delim header lazy continue_on_error =
     \<lparr>csv_buf = [], csv_pending = None, csv_delim = delim, csv_header = header, csv_lazy = lazy,
      csv_continue = continue_on_error, csv_have_header = False, csv_fields = 0, csv_head = [],
      csv_row_index = 0\<rparr>"

definition row_fields :: "bytes list \<Rightarrow> bytes list \<Rightarrow> (bytes, bytes) omap" where
  "row_fields head row = fold (\<lambda>(k, v) e. om_set k v e) (zip head row) []"

definition row_to_message :: "csv_scanner \<Rightarrow> bytes list \<Rightarrow> csv_scanner \<times> (scan_err + smsg option)" where
  "row_to_message s row =
    (if length row = 1 \<and> row ! 0 = [] then (s, Inr None)
     else if csv_header s \<and> \<not> csv_have_header s then
       (s\<lparr>csv_head := row, csv_have_header := True, csv_fields := length row\<rparr>, Inr None)
     else
       let s = (if csv_fields s = 0 then s\<lparr>csv_fields := length row\<rparr> else s);
           ragged = (if length row \<noteq> csv_fields s
                     then Some (Ragged (csv_row_index s + (if csv_header s then 2 else 1))) else None)
       in if ragged \<noteq> None \<and> \<not> csv_continue s then (s, Inl (Csv_error (the ragged)))
          else (s\<lparr>csv_row_index := csv_row_index s + 1\<rparr>,
            Inr (Some \<lparr>content = (if csv_header s then Fields (row_fields (csv_head s) row) else Cells row),
                       meta = om_set (str ''csv_row'') (decimal (csv_row_index s)) [],
                       msg_err = ragged\<rparr>)))"

definition csv_bad :: "scan_err \<Rightarrow> smsg" where
  "csv_bad e = (message [])\<lparr>msg_err := Some e\<rparr>"

section \<open>The loop over the buffer\<close>

text \<open>
  The result is the scanner, what is left of the buffer, and either the exception that
  leaves the loop (the rows read before it are lost with it) or the messages.
\<close>

lemma csv_record_shorter:
  "csv_record delim lazy at_end q st f out s = Csv_row row rest \<Longrightarrow> s \<noteq> [] \<Longrightarrow> length rest < length s"
proof (induction delim lazy at_end q st f out s rule: csv_record.induct)
  case (2 delim lazy at_end q st f out c s)
  show ?case
  proof (cases "csv_step delim lazy q st f out c s")
    case (Csv_more q' st' f' out' s')
    have "length rest \<le> length s'"
      using 2 Csv_more by (cases s') (auto split: if_splits)
    then show ?thesis
      using csv_step_shorter(1) [OF Csv_more] by simp
  next
    case (Csv_done r)
    then show ?thesis
      using 2 csv_step_shorter(2) by fastforce
  qed
qed simp

function csv_loop :: "bool \<Rightarrow> csv_scanner \<Rightarrow> bytes \<Rightarrow> csv_scanner \<times> bytes \<times> (scan_err + smsg list)" where
  "csv_loop at_end s buf = (if buf = [] then (s, buf, Inr [])
     else case read_csv_record (csv_delim s) (csv_lazy s) at_end buf of
       No_record \<Rightarrow> (s, buf, Inr [])
     | Csv_fails e \<Rightarrow>
         if \<not> csv_continue s then (s, buf, Inl e)
         else if \<not> at_end then (s, buf, Inr [])
         else (s, [], Inr [csv_bad e])
     | Csv_row row rest \<Rightarrow>
         if rest = [] \<and> \<not> at_end then (s, buf, Inr [])
         else (case row_to_message s row of
           (s', Inl e) \<Rightarrow> (s'\<lparr>csv_pending := Some e\<rparr>, rest, Inr [])
         | (s', Inr m) \<Rightarrow> (case csv_loop at_end s' rest of (s'', rest', r) \<Rightarrow>
             (s'', rest', rbind r (\<lambda>ms. Inr ((case m of None \<Rightarrow> [] | Some x \<Rightarrow> [x]) @ ms))))))"
  by pat_completeness auto
termination
  by (relation "measure (\<lambda>(at_end, s, buf). length buf)")
    (auto simp: read_csv_record_def intro: csv_record_shorter)

declare csv_loop.simps [simp del]

definition csv_drain :: "bool \<Rightarrow> csv_scanner \<Rightarrow> csv_scanner \<times> (scan_err + smsg list)" where
  "csv_drain at_end s = (case csv_pending s of
     Some e \<Rightarrow> (s\<lparr>csv_pending := None\<rparr>, Inl e)
   | None \<Rightarrow> (case csv_loop at_end (s\<lparr>csv_buf := []\<rparr>) (csv_buf s) of
       (s', rest, Inl e) \<Rightarrow> (s'\<lparr>csv_buf := csv_buf s\<rparr>, Inl e)
     | (s', rest, Inr out) \<Rightarrow> (s'\<lparr>csv_buf := rest\<rparr>, Inr out)))"

definition csv_feed :: "csv_scanner \<Rightarrow> bytes \<Rightarrow> csv_scanner \<times> (scan_err + smsg list)" where
  "csv_feed s chunk = csv_drain False (s\<lparr>csv_buf := csv_buf s @ chunk\<rparr>)"

definition csv_finish :: "csv_scanner \<Rightarrow> csv_scanner \<times> (scan_err + smsg list)" where
  "csv_finish s = (case csv_drain True s of
     (s', Inl e) \<Rightarrow> (s', Inl e)
   | (s', Inr out) \<Rightarrow> (case csv_pending s' of
       Some e \<Rightarrow> (s'\<lparr>csv_pending := None\<rparr>, Inl e) | None \<Rightarrow> (s', Inr out)))"

section \<open>More input does not change the records read\<close>

lemma csv_step_append:
  "s \<noteq> [] \<Longrightarrow> csv_step delim lazy q st f out c (s @ t) =
    (case csv_step delim lazy q st f out c s of
       Csv_more q' st' f' out' s' \<Rightarrow> Csv_more q' st' f' out' (s' @ t)
     | Csv_done (Csv_row row rest) \<Rightarrow> Csv_done (Csv_row row (rest @ t))
     | Csv_done r \<Rightarrow> Csv_done r)"
  by (simp add: csv_step_def)

lemma csv_step_no_record: "csv_step delim lazy q st f out c s \<noteq> Csv_done No_record"
  by (simp add: csv_step_def)

lemma csv_step_fails: "csv_step delim lazy q st f out c s = Csv_done (Csv_fails e) \<Longrightarrow>
    e = Bare_quote \<and> csv_step delim lazy q st f out c (s @ t) = Csv_done (Csv_fails e)"
  by (simp add: csv_step_def split: if_splits)

lemma csv_record_append:
  "csv_record delim lazy False q st f out s = Csv_row row rest \<Longrightarrow> rest \<noteq> [] \<Longrightarrow>
     csv_record delim lazy False q st f out (s @ t) = Csv_row row (rest @ t)"
proof (induction delim lazy False q st f out s rule: csv_record.induct)
  case (2 delim lazy q st f out c s)
  show ?case
  proof (cases "csv_step delim lazy q st f out c s")
    case (Csv_more q' st' f' out' s')
    then have "s' \<noteq> []"
      using 2(2) by auto
    then have "s \<noteq> []"
      using csv_step_shorter(1) [OF Csv_more] by auto
    then show ?thesis
      using 2 Csv_more by (simp add: csv_step_append)
  next
    case (Csv_done r)
    then have r: "r = Csv_row row rest"
      using 2(2) by simp
    then have "s \<noteq> []"
      using csv_step_shorter(2) Csv_done 2(3) by fastforce
    then show ?thesis
      using Csv_done r by (simp add: csv_step_append)
  qed
qed simp

lemma csv_record_fails:
  "csv_record delim lazy False q st f out s = Csv_fails e \<Longrightarrow>
     e = Bare_quote \<and> csv_record delim lazy False q st f out (s @ t) = Csv_fails e"
proof (induction delim lazy False q st f out s rule: csv_record.induct)
  case (2 delim lazy q st f out c s)
  show ?case
  proof (cases "csv_step delim lazy q st f out c s")
    case (Csv_more q' st' f' out' s')
    then have "s' \<noteq> []"
      using 2(2) by auto
    then have "s \<noteq> []"
      using csv_step_shorter(1) [OF Csv_more] by auto
    then show ?thesis
      using 2 Csv_more by (simp add: csv_step_append)
  next
    case (Csv_done r)
    then show ?thesis
      using 2(2) csv_step_fails [of delim lazy q st f out c s e t] by simp
  qed
qed simp

lemma read_csv_append:
  "read_csv_record delim lazy False s = Csv_row row rest \<Longrightarrow> rest \<noteq> [] \<Longrightarrow>
     read_csv_record delim lazy False (s @ t) = Csv_row row (rest @ t)"
  by (auto simp: read_csv_record_def csv_record_append split: if_splits)

lemma read_csv_fails:
  "read_csv_record delim lazy False s = Csv_fails e \<Longrightarrow>
     e = Bare_quote \<and> read_csv_record delim lazy False (s @ t) = Csv_fails e"
  by (auto simp: read_csv_record_def split: if_splits dest: csv_record_fails)

lemma row_to_message_pending [simp]: "csv_pending (fst (row_to_message s row)) = csv_pending s"
  by (simp add: row_to_message_def Let_def)

lemma row_to_message_config [simp]:
  "csv_continue (fst (row_to_message s row)) = csv_continue s"
  "csv_buf (fst (row_to_message s row)) = csv_buf s"
  by (simp_all add: row_to_message_def Let_def)

definition more_rows :: "bytes \<Rightarrow> csv_scanner \<times> bytes \<times> (scan_err + smsg list) \<Rightarrow>
    csv_scanner \<times> bytes \<times> (scan_err + smsg list) \<Rightarrow> bool" where
  "more_rows t x y = (case x of
     (s, r, Inl e) \<Rightarrow> e = Bare_quote \<and> snd (snd y) = Inl e
   | (s, r, Inr ms) \<Rightarrow>
       if csv_pending s \<noteq> None then y = (s, r @ t, Inr ms)
       else y = (case csv_loop False s (r @ t) of (s', r', z) \<Rightarrow> (s', r', rbind z (\<lambda>ms'. Inr (ms @ ms')))))"

lemma rbind_Inr_id [simp]: "rbind z (\<lambda>x. Inr x) = z"
  by (cases z) simp_all

lemma more_rows_prepend:
  assumes "more_rows t x y"
    and "x' = (case x of (s, r, z) \<Rightarrow> (s, r, rbind z (\<lambda>ms. Inr (ps @ ms))))"
    and "y' = (case y of (s, r, z) \<Rightarrow> (s, r, rbind z (\<lambda>ms. Inr (ps @ ms))))"
  shows "more_rows t x' y'"
proof -
  obtain s r z where x: "x = (s, r, z)"
    by (cases x)
  obtain s2 r2 z2 where c: "csv_loop False s (r @ t) = (s2, r2, z2)"
    using prod_cases3 by blast
  show ?thesis
    using assms by (cases y; cases z; cases z2) (auto simp: x c more_rows_def)
qed

lemma csv_loop_append: "csv_pending s = None \<Longrightarrow> more_rows t (csv_loop False s buf) (csv_loop False s (buf @ t))"
proof (induction False s buf rule: csv_loop.induct)
  case (1 s buf)
  let ?rd = "read_csv_record (csv_delim s) (csv_lazy s) False"
  have stuck: ?case if "csv_loop False s buf = (s, buf, Inr [])"
    using that 1(2) by (simp add: more_rows_def split: prod.split)
  show ?case
  proof (cases "buf = [] \<or> ?rd buf = No_record")
    case True
    then have "csv_loop False s buf = (s, buf, Inr [])"
      by (subst csv_loop.simps) auto
    then show ?thesis
      by (rule stuck)
  next
    case False
    then consider e where "?rd buf = Csv_fails e" | row rest where "?rd buf = Csv_row row rest"
      by (cases "?rd buf") auto
    then show ?thesis
    proof cases
      case 1
      show ?thesis
      proof (cases "csv_continue s")
        case True
        then show ?thesis
          using 1 by (intro stuck) (subst csv_loop.simps, simp)
      next
        case c: False
        then show ?thesis
          using 1 read_csv_fails [OF 1, of t] False
          by (subst csv_loop.simps, subst csv_loop.simps) (simp add: more_rows_def)
      qed
    next
      case 2
      show ?thesis
      proof (cases "rest = []")
        case True
        then show ?thesis
          using 2 by (intro stuck) (subst csv_loop.simps, simp)
      next
        case rest: False
        note 2 = 2 read_csv_append [OF 2 rest, of t]
        show ?thesis
        proof (cases "row_to_message s row")
          case (Pair s' x)
          have s': "csv_pending s' = None"
            using row_to_message_pending [of s row] "1.prems" Pair by simp
          show ?thesis
          proof (cases x)
            case (Inl e)
            then show ?thesis
              using 2 rest Pair False
              by (subst csv_loop.simps, subst csv_loop.simps) (simp add: more_rows_def)
          next
            case (Inr m)
            have "more_rows t (csv_loop False s' rest) (csv_loop False s' (rest @ t))"
              using "1.hyps" [OF _ 2(1) _ Pair [symmetric] Inr] False rest s' by blast
            moreover have step: "csv_loop False s u = (case csv_loop False s' v of (s'', r', r) \<Rightarrow>
                (s'', r', rbind r (\<lambda>ms. Inr ((case m of None \<Rightarrow> [] | Some x \<Rightarrow> [x]) @ ms))))"
              if "?rd u = Csv_row row v" "v \<noteq> []" for u v
            proof -
              have "u \<noteq> []"
                using that(1) by (auto simp: read_csv_record_def)
              then show ?thesis
                using that Pair Inr by (subst csv_loop.simps) simp
            qed
            ultimately show ?thesis
              using rest by (rule_tac more_rows_prepend [OF _ step [OF 2(1)] step [OF 2(2)]]) auto
          qed
        qed
      qed
    qed
  qed
qed

section \<open>The law of cuts\<close>

lemma csv_loop_buf: "csv_buf (fst (csv_loop ae s buf)) = csv_buf s"
proof (induction ae s buf rule: csv_loop.induct)
  case (1 ae s buf)
  show ?case
  proof (cases "read_csv_record (csv_delim s) (csv_lazy s) ae buf")
    case No_record
    then show ?thesis
      by (subst csv_loop.simps) simp
  next
    case (Csv_fails e)
    then show ?thesis
      by (subst csv_loop.simps) simp
  next
    case (Csv_row row rest)
    show ?thesis
    proof (cases "buf = [] \<or> rest = [] \<and> \<not> ae")
      case True
      then show ?thesis
        using Csv_row by (subst csv_loop.simps) auto
    next
      case False
      obtain s' x where P: "row_to_message s row = (s', x)"
        by fastforce
      then have "csv_buf s' = csv_buf s"
        using row_to_message_config(2) [of s row] by simp
      then show ?thesis
        using 1 [OF _ Csv_row _ P [symmetric]] False P Csv_row
        by (subst csv_loop.simps) (auto split: sum.split prod.split)
    qed
  qed
qed

lemma csv_loop_continue: "csv_continue s \<Longrightarrow> csv_loop ae s buf = (s', r, x) \<Longrightarrow> \<exists>ms. x = Inr ms"
proof (induction ae s buf arbitrary: s' r x rule: csv_loop.induct)
  case (1 ae s buf)
  show ?case
  proof (cases "buf = []")
    case True
    then show ?thesis
      using 1(3) by (auto simp: csv_loop.simps [of ae s])
  next
    case False
    show ?thesis
    proof (cases "read_csv_record (csv_delim s) (csv_lazy s) ae buf")
      case (Csv_row row rest)
      obtain s1 y where P: "row_to_message s row = (s1, y)"
        by fastforce
      have c: "csv_continue s1"
        using row_to_message_config(1) [of s row] 1(2) P by simp
      show ?thesis
      proof (cases y)
        case (Inl e)
        then show ?thesis
          using 1(3) False Csv_row P by (auto simp: csv_loop.simps [of ae s] split: if_splits)
      next
        case (Inr m)
        obtain s2 r2 x2 where L: "csv_loop ae s1 rest = (s2, r2, x2)"
          using prod_cases3 by blast
        show ?thesis
          using 1(1) [OF False Csv_row _ P [symmetric] Inr c L] 1(3) False Csv_row P Inr L
          by (auto simp: csv_loop.simps [of ae s] split: if_splits)
      qed
    qed (use 1 False in \<open>auto simp: csv_loop.simps [of ae s] split: if_splits\<close>)
  qed
qed

definition csv_ok :: "csv_scanner \<Rightarrow> bool" where
  "csv_ok s \<longleftrightarrow> (csv_pending s = None \<longrightarrow>
     csv_loop False (s\<lparr>csv_buf := []\<rparr>) (csv_buf s) = (s\<lparr>csv_buf := []\<rparr>, csv_buf s, Inr []))"

lemma run_csv_pending: "csv_pending s = Some e \<Longrightarrow> run csv_feed csv_finish cs s = ([], Some e)"
  by (cases cs) (simp_all add: csv_feed_def csv_finish_def csv_drain_def)

lemma csv_feed_more:
  "csv_pending s = None \<Longrightarrow> csv_loop False (s\<lparr>csv_buf := []\<rparr>) (csv_buf s @ c) = (s', r, x) \<Longrightarrow>
     csv_feed s c = (case x of Inl e \<Rightarrow> (s'\<lparr>csv_buf := csv_buf s @ c\<rparr>, Inl e) | Inr ms \<Rightarrow> (s'\<lparr>csv_buf := r\<rparr>, Inr ms))"
  by (simp add: csv_feed_def csv_drain_def split: sum.split)

lemma csv_join:
  assumes "snd (run csv_feed csv_finish ((a @ b) # cs) s) \<noteq> Some Bare_quote"
  shows "run csv_feed csv_finish (a # b # cs) s = run csv_feed csv_finish ((a @ b) # cs) s"
proof (cases "csv_pending s")
  case None
  let ?s = "s\<lparr>csv_buf := []\<rparr>"
  obtain s1 r1 x1 where A: "csv_loop False ?s (csv_buf s @ a) = (s1, r1, x1)"
    using prod_cases3 by blast
  obtain s2 r2 x2 where AB: "csv_loop False ?s (csv_buf s @ a @ b) = (s2, r2, x2)"
    using prod_cases3 by blast
  obtain s3 r3 x3 where B: "csv_loop False s1 (r1 @ b) = (s3, r3, x3)"
    using prod_cases3 by blast
  have buf: "csv_buf s1 = []"
    using csv_loop_buf [of False ?s "csv_buf s @ a"] A by simp
  then have s1: "s1\<lparr>csv_buf := []\<rparr> = s1"
    by (cases s1) simp
  have M: "more_rows b (s1, r1, x1) (s2, r2, x2)"
    using csv_loop_append [of ?s b "csv_buf s @ a"] None A AB by simp
  note fA = csv_feed_more [OF None A] and fAB = csv_feed_more [OF None AB]
  show ?thesis
  proof (cases x1)
    case (Inl e)
    then show ?thesis
      using M fA fAB by (simp add: more_rows_def)
  next
    case (Inr ms)
    show ?thesis
    proof (cases "csv_pending s1")
      case (Some e)
      then have "(s2, r2, x2) = (s1, r1 @ b, Inr ms)"
        using M Inr by (simp add: more_rows_def)
      then show ?thesis
        using Inr fA fAB Some
        by (simp add: run_csv_pending del: run.simps(2) add: run.simps(2) [of _ _ a] run.simps(2) [of _ _ "a @ b"])
    next
      case p: None
      have fB: "csv_feed (s1\<lparr>csv_buf := r1\<rparr>) b =
          (case x3 of Inl e \<Rightarrow> (s3\<lparr>csv_buf := r1 @ b\<rparr>, Inl e) | Inr ms \<Rightarrow> (s3\<lparr>csv_buf := r3\<rparr>, Inr ms))"
        using csv_feed_more [of "s1\<lparr>csv_buf := r1\<rparr>" b] p B s1 by (simp split: sum.split)
      have eq: "(s2, r2, x2) = (s3, r3, rbind x3 (\<lambda>ms'. Inr (ms @ ms')))"
        using M Inr p B by (simp add: more_rows_def)
      show ?thesis
      proof (cases x3)
        case (Inl e)
        have "e = Bare_quote"
          using csv_loop_append [of s1 "[]" "r1 @ b"] p B Inl by (simp add: more_rows_def)
        then show ?thesis
          using assms fAB eq Inl by simp
      next
        case (Inr ms')
        then show ?thesis
          using fA fB fAB eq \<open>x1 = Inr ms\<close> by simp
      qed
    qed
  qed
qed (simp only: run_csv_pending)

interpretation csv: cut_law csv_feed csv_finish csv_ok "\<lambda>e. e \<noteq> Some Bare_quote"
proof
  fix s a b cs
  assume "snd (run csv_feed csv_finish ((a @ b) # cs) s) \<noteq> Some Bare_quote"
  then show "run csv_feed csv_finish (a # b # cs) s = run csv_feed csv_finish ((a @ b) # cs) s"
    by (rule csv_join)
next
  fix s
  assume ok: "csv_ok s"
  show "run csv_feed csv_finish [[]] s = run csv_feed csv_finish [] s"
  proof (cases "csv_pending s")
    case None
    then show ?thesis
      using ok csv_feed_more [OF None, of "[]" "s\<lparr>csv_buf := []\<rparr>" "csv_buf s" "Inr []"]
      by (simp add: csv_ok_def)
  qed (simp only: run_csv_pending)
qed

section \<open>Reading back a table\<close>

text \<open>
  The reference writer: every field quoted with its quotes doubled, the fields joined by
  the delimiter, a newline after each row.
\<close>

definition quote_field :: "bytes \<Rightarrow> bytes" where
  "quote_field f = [34] @ concat (map (\<lambda>c. if c = 34 then [34, 34] else [c]) f) @ [34]"

fun csv_line :: "byte \<Rightarrow> bytes list \<Rightarrow> bytes" where
  "csv_line delim [] = [10]"
| "csv_line delim [f] = quote_field f @ [10]"
| "csv_line delim (f # g # fs) = quote_field f @ [delim] @ csv_line delim (g # fs)"

definition csv_document :: "byte \<Rightarrow> bytes list list \<Rightarrow> bytes" where
  "csv_document delim rows = concat (map (csv_line delim) rows)"

lemma csv_record_quoted:
  "t \<noteq> [] \<Longrightarrow> hd t \<noteq> 34 \<Longrightarrow>
   csv_record delim lazy ae True st f out (concat (map (\<lambda>c. if c = 34 then [34, 34] else [c]) x) @ [34] @ t) =
   csv_record delim lazy ae False st (f @ x) out t"
proof (induction x arbitrary: f)
  case Nil
  then show ?case
    by (simp add: csv_step_def)
next
  case (Cons c x)
  then show ?case
    by (simp add: csv_step_def)
qed

lemma csv_record_field:
  assumes "delim \<noteq> 34" "t \<noteq> []" "hd t \<noteq> 34"
  shows "csv_record delim lazy ae False False [] out (quote_field f @ t) = csv_record delim lazy ae False True f out t"
  using csv_record_quoted [OF assms(2,3), of delim lazy ae True "[]" out f]
  by (simp add: quote_field_def csv_step_def)

lemma csv_record_line:
  "fs \<noteq> [] \<Longrightarrow> delim \<noteq> 34 \<Longrightarrow> delim \<noteq> 10 \<Longrightarrow>
   csv_record delim lazy ae False False [] out (csv_line delim fs @ t) = Csv_row (out @ fs) t"
proof (induction delim fs arbitrary: out rule: csv_line.induct)
  case (2 delim f)
  then show ?case
    using csv_record_field [of delim "[10] @ t" lazy ae out f] by (simp add: csv_step_def)
next
  case (3 delim f g fs)
  then show ?case
    using csv_record_field [of delim "[delim] @ csv_line delim (g # fs) @ t" lazy ae out f]
    by (simp add: csv_step_def)
qed simp

lemma csv_line_nonempty [simp]: "csv_line delim fs \<noteq> []"
  by (cases "(delim, fs)" rule: csv_line.cases) (simp_all add: quote_field_def)

lemma read_csv_line: "fs \<noteq> [] \<Longrightarrow> delim \<noteq> 34 \<Longrightarrow> delim \<noteq> 10 \<Longrightarrow>
    read_csv_record delim lazy ae (csv_line delim fs @ t) = Csv_row fs t"
  using csv_record_line [of fs delim lazy ae "[]" t] by (simp add: read_csv_record_def)

definition csv_message :: "bytes list \<Rightarrow> nat \<Rightarrow> bytes list \<Rightarrow> smsg" where
  "csv_message head i row = \<lparr>content = Fields (row_fields head row),
     meta = [(str ''csv_row'', decimal i)], msg_err = None\<rparr>"

definition csv_at :: "byte \<Rightarrow> bool \<Rightarrow> bool \<Rightarrow> bytes list \<Rightarrow> nat \<Rightarrow> csv_scanner" where
  "csv_at delim lazy cont head i = (new_csv delim True lazy cont)
     \<lparr>csv_have_header := True, csv_fields := length head, csv_head := head, csv_row_index := i\<rparr>"

definition table_row :: "nat \<Rightarrow> bytes list \<Rightarrow> bool" where
  "table_row n row \<longleftrightarrow> length row = n \<and> row \<noteq> [] \<and> row \<noteq> [[]]"

lemma row_to_message_at: "table_row (length head) row \<Longrightarrow>
    row_to_message (csv_at delim lazy cont head i) row =
      (csv_at delim lazy cont head (Suc i), Inr (Some (csv_message head i row)))"
  by (cases row) (auto simp: row_to_message_def table_row_def csv_at_def new_csv_def csv_message_def Let_def)

lemma csv_loop_row:
  assumes "table_row (length head) row" "delim \<noteq> 34" "delim \<noteq> 10" "t = [] \<Longrightarrow> ae"
  shows "csv_loop ae (csv_at delim lazy cont head i) (csv_line delim row @ t) =
    (case csv_loop ae (csv_at delim lazy cont head (Suc i)) t of (s, r, x) \<Rightarrow>
       (s, r, rbind x (\<lambda>ms. Inr (csv_message head i row # ms))))"
proof -
  have d: "csv_delim (csv_at delim lazy cont head i) = delim" "csv_lazy (csv_at delim lazy cont head i) = lazy"
    by (simp_all add: csv_at_def new_csv_def)
  have "row \<noteq> []"
    using assms(1) by (simp add: table_row_def)
  then show ?thesis
    using read_csv_line [of row delim lazy ae t] assms row_to_message_at [OF assms(1)]
    by (subst csv_loop.simps) (auto simp: d)
qed

lemma csv_loop_held: "row \<noteq> [] \<Longrightarrow> delim \<noteq> 34 \<Longrightarrow> delim \<noteq> 10 \<Longrightarrow>
    csv_delim s = delim \<Longrightarrow> csv_loop False s (csv_line delim row) = (s, csv_line delim row, Inr [])"
  using read_csv_line [of row delim "csv_lazy s" False "[]"] by (subst csv_loop.simps) simp

lemma csv_loop_rows:
  "\<forall>row\<in>set (rows @ [z]). table_row (length head) row \<Longrightarrow> delim \<noteq> 34 \<Longrightarrow> delim \<noteq> 10 \<Longrightarrow>
   csv_loop False (csv_at delim lazy cont head i) (csv_document delim (rows @ [z])) =
     (csv_at delim lazy cont head (i + length rows), csv_line delim z,
      Inr (map (\<lambda>(j, row). csv_message head j row) (zip [i..<i + length rows] rows)))"
proof (induction rows arbitrary: i)
  case Nil
  then show ?case
    using csv_loop_held [of z delim "csv_at delim lazy cont head i"]
    by (simp add: csv_document_def table_row_def) (simp add: csv_at_def new_csv_def)
next
  case (Cons row rows)
  have "csv_document delim ((row # rows) @ [z]) = csv_line delim row @ csv_document delim (rows @ [z])"
    by (simp add: csv_document_def)
  moreover have "csv_document delim (rows @ [z]) \<noteq> []"
    by (simp add: csv_document_def)
  moreover have "[i..<i + length (row # rows)] = i # [Suc i..<Suc i + length rows]"
    using upt_conv_Cons [of i "i + length (row # rows)"] by (simp del: upt_Suc)
  ultimately show ?case
    using Cons csv_loop_row [of head row delim "csv_document delim (rows @ [z])" False lazy cont i]
    by (simp del: upt_Suc)
qed

lemma run_csv_table:
  assumes "\<forall>row\<in>set rows. table_row (length head) row" "head \<noteq> []" "head \<noteq> [[]]" "delim \<noteq> 34" "delim \<noteq> 10"
  shows "run csv_feed csv_finish [csv_document delim (head # rows)] (new_csv delim True lazy cont) =
    (map (\<lambda>(i, row). csv_message head i row) (zip [0..<length rows] rows), None)"
proof -
  let ?s0 = "new_csv delim True lazy cont"
  have buf0: "?s0\<lparr>csv_buf := []\<rparr> = ?s0" "csv_buf ?s0 = []" "csv_pending ?s0 = None" "csv_delim ?s0 = delim"
    by (simp_all add: new_csv_def)
  have H: "row_to_message ?s0 head = (csv_at delim lazy cont head 0, Inr None)"
    using assms(2,3) by (cases head) (auto simp: row_to_message_def new_csv_def csv_at_def Let_def)
  have at: "csv_pending (csv_at delim lazy cont head i) = None"
      "csv_at delim lazy cont head i\<lparr>csv_buf := b, csv_buf := []\<rparr> = csv_at delim lazy cont head i"
      "csv_buf (csv_at delim lazy cont head i) = []"
      "csv_at delim lazy cont head i\<lparr>csv_buf := []\<rparr> = csv_at delim lazy cont head i" for i b
    by (simp_all add: csv_at_def new_csv_def)
  have nil: "csv_loop ae (csv_at delim lazy cont head i) [] = (csv_at delim lazy cont head i, [], Inr [])" for ae i
    by (simp add: csv_loop.simps)
  show ?thesis
  proof (cases rows rule: rev_cases)
    case Nil
    have "csv_loop False ?s0 (csv_line delim head) = (?s0, csv_line delim head, Inr [])"
      using csv_loop_held [of head delim ?s0] assms buf0 by simp
    then have F: "csv_feed ?s0 (csv_line delim head) = (?s0\<lparr>csv_buf := csv_line delim head\<rparr>, Inr [])"
      using csv_feed_more [of ?s0 "csv_line delim head"] buf0 by simp
    have "csv_loop True ?s0 (csv_line delim head) = (csv_at delim lazy cont head 0, [], Inr [])"
      using read_csv_line [OF assms(2,4,5), of "csv_lazy ?s0" True "[]"] H buf0 nil [of True 0]
      by (subst csv_loop.simps) simp
    then have "csv_finish (?s0\<lparr>csv_buf := csv_line delim head\<rparr>) = (csv_at delim lazy cont head 0, Inr [])"
      by (simp add: csv_finish_def csv_drain_def buf0 at)
    then show ?thesis
      by (simp add: Nil csv_document_def F)
  next
    case (snoc rs z)
    let ?doc = "csv_document delim (rs @ [z])" and ?ms = "map (\<lambda>(i, row). csv_message head i row) (zip [0..<length rs] rs)"
    have "?doc \<noteq> []"
      by (simp add: csv_document_def)
    moreover have D: "csv_document delim (head # rows) = csv_line delim head @ ?doc"
      by (simp add: csv_document_def snoc)
    ultimately have "csv_loop False ?s0 (csv_document delim (head # rows)) =
        (csv_at delim lazy cont head (length rs), csv_line delim z, Inr ?ms)"
      using read_csv_line [OF assms(2,4,5), of "csv_lazy ?s0" False ?doc] H buf0
        csv_loop_rows [of rs z head delim lazy cont 0] assms snoc
      by (subst csv_loop.simps) simp
    then have F: "csv_feed ?s0 (csv_document delim (head # rows)) =
        ((csv_at delim lazy cont head (length rs))\<lparr>csv_buf := csv_line delim z\<rparr>, Inr ?ms)"
      using csv_feed_more [of ?s0 "csv_document delim (head # rows)"] buf0 by simp
    have "csv_loop True (csv_at delim lazy cont head (length rs)) (csv_line delim z) =
        (csv_at delim lazy cont head (Suc (length rs)), [], Inr [csv_message head (length rs) z])"
      using csv_loop_row [of head z delim "[]" True lazy cont "length rs"] assms snoc nil by simp
    then have "csv_finish ((csv_at delim lazy cont head (length rs))\<lparr>csv_buf := csv_line delim z\<rparr>) =
        (csv_at delim lazy cont head (Suc (length rs)), Inr [csv_message head (length rs) z])"
      by (simp add: csv_finish_def csv_drain_def at)
    then show ?thesis
      by (simp add: F [unfolded snoc] snoc)
  qed
qed

lemma csv_ok_new: "csv_ok (new_csv delim header lazy cont)"
  by (simp add: csv_ok_def new_csv_def csv_loop.simps)

text \<open>
  Two behaviours around a record that does not parse.  Without \<open>continue_on_error\<close> the
  exception leaves the loop at once, so the rows read from the same chunk are lost, and how
  many depends on the cut.  With it, the scanner holds everything from the bad record to
  the end of the stream back and then delivers one message in its place, so the good rows
  after it are lost.
\<close>

lemma bad_record_discards_the_rows_before_it:
  "run csv_feed csv_finish [[97, 10, 49, 10, 50, 34, 10, 51, 10]] (new_csv 44 True False False) =
     ([], Some Bare_quote)"
  "run csv_feed csv_finish [[97, 10, 49, 10, 50], [34, 10, 51, 10]] (new_csv 44 True False False) =
     ([csv_message [[97]] 0 [[49]]], Some Bare_quote)"
  by code_simp+

lemma bad_record_swallows_the_rows_after_it:
  "run csv_feed csv_finish [[97, 10, 49, 10, 50, 34, 10, 51, 10]] (new_csv 44 True False True) =
     ([csv_message [[97]] 0 [[49]], csv_bad Bare_quote], None)"
  by code_simp

lemma empty_quoted_field_is_dropped:
  "run csv_feed csv_finish [csv_document 44 [[[97]], [[]], [[49]]]] (new_csv 44 True False False) =
     ([csv_message [[97]] 0 [[49]]], None)"
  by code_simp

section \<open>Properties\<close>

text \<open>C18: A table written with every field quoted is read back exactly, whatever bytes the
  fields hold (quotes, delimiters, line ends) and however the document is cut into chunks:
  one message per row after the header, each an object from the header's names to the
  row's fields, numbered from zero.\<close>

theorem csv_table_round_trip:
  assumes "\<forall>row\<in>set rows. table_row (length header) row" "header \<noteq> []" "header \<noteq> [[]]"
    and "delim \<noteq> 34" "delim \<noteq> 10" and "concat cs = csv_document delim (header # rows)"
  shows "run csv_feed csv_finish cs (new_csv delim True lazy cont) =
    (map (\<lambda>(i, row). csv_message header i row) (zip [0..<length rows] rows), None)"
  using run_csv_table [OF assms(1-5), of lazy cont]
    csv.run_concat [OF csv_ok_new, of cs delim True lazy cont] assms(6) by simp

theorem csv_table_round_trip_witness:
  "run csv_feed csv_finish [[34, 97, 34, 59, 34, 98, 34, 10, 34, 120, 34], [34, 10, 34, 59, 34, 34, 10]]
     (new_csv 59 True False False) =
   ([csv_message [[97], [98]] 0 [[120, 34, 10], []]], None)"
proof -
  have "csv_document 59 [[[97], [98]], [[120, 34, 10], []]] =
      concat [[34, 97, 34, 59, 34, 98, 34, 10, 34, 120, 34], [34, 10, 34, 59, 34, 34, 10]]"
    by code_simp
  then show ?thesis
    using csv_table_round_trip [of "[[[120, 34, 10], []]]" "[[97], [98]]" 59
      "[[34, 97, 34, 59, 34, 98, 34, 10, 34, 120, 34], [34, 10, 34, 59, 34, 34, 10]]" False False]
    by (simp add: table_row_def del: run.simps)
qed

end
