(* ===== verification/Scan_Tar.thy ===== *)
theory Scan_Tar
  imports Scan_Base
begin

text \<open>
  The tar scanner of \<open>scanners.cc\<close>: numeric fields in octal or base 256, the header
  checksum, long names split over two header fields or carried by a GNU entry, and the walk
  over the members.  The lemmas read whole archives back and show where a cut matters.
\<close>

section \<open>Numeric fields\<close>

text \<open>\<open>size_t\<close> and \<open>uint64_t\<close> values are naturals: the lemmas below bound them.\<close>

fun base256 :: "nat \<Rightarrow> bytes \<Rightarrow> nat option" where
  "base256 v [] = Some v"
| "base256 v (c # cs) = (if v div 2 ^ 56 \<noteq> 0 then None else base256 (v * 256 + unat c) cs)"

definition pad_byte :: "byte \<Rightarrow> bool" where
  "pad_byte c \<longleftrightarrow> c = 32 \<or> c = 0"

definition octal_digit :: "byte \<Rightarrow> bool" where
  "octal_digit c \<longleftrightarrow> 48 \<le> c \<and> c \<le> 55"

definition octal_value :: "bytes \<Rightarrow> nat" where
  "octal_value ds = foldl (\<lambda>v d. v * 8 + (unat d - 48)) 0 ds"

definition binary_field :: "bytes \<Rightarrow> nat option" where
  "binary_field p = (if hd p AND 0x40 \<noteq> 0 then None
     else case base256 0 ((hd p AND 0x7f) # List.tl p) of
       None \<Rightarrow> None
     | Some v \<Rightarrow> if v div 2 ^ 63 \<noteq> 0 then None else Some v)"

definition octal_field :: "bytes \<Rightarrow> nat option" where
  "octal_field p = (let q = dropWhile pad_byte p; ds = takeWhile octal_digit q in
     if \<not> list_all pad_byte (dropWhile octal_digit q) then None
     else if ds = [] then Some 0 else Some (octal_value ds))"

definition octal :: "bytes \<Rightarrow> nat option" where
  "octal p = (if p \<noteq> [] \<and> hd p AND 0x80 \<noteq> 0 then binary_field p else octal_field p)"

section \<open>Headers\<close>

definition field :: "nat \<Rightarrow> nat \<Rightarrow> bytes \<Rightarrow> bytes" where
  "field off n h = take n (drop off h)"

definition checksum :: "bytes \<Rightarrow> nat" where
  "checksum h = sum_list (map (\<lambda>(i, c). if 148 \<le> i \<and> i < 156 then 32 else unat c) (zip [0..<512] h))"

definition header_ok :: "bytes \<Rightarrow> bool" where
  "header_ok h = (case octal (field 148 8 h) of None \<Rightarrow> False | Some want \<Rightarrow> checksum h = want)"

definition c_string :: "bytes \<Rightarrow> bytes" where
  "c_string f = takeWhile (\<lambda>c. c \<noteq> 0) f"

definition full_name :: "bytes \<Rightarrow> bytes" where
  "full_name h = (let name = c_string (field 0 100 h); prefix = c_string (field 345 155 h) in
     if prefix = [] then name else prefix @ [47] @ name)"

definition zero_block :: bytes where
  "zero_block = replicate 512 0"

definition padded :: "nat \<Rightarrow> nat" where
  "padded sz = (sz + 511) div 512 * 512"

definition strip_nuls :: "bytes \<Rightarrow> bytes" where
  "strip_nuls b = rev (dropWhile (\<lambda>c. c = 0) (rev b))"

section \<open>The walk\<close>

record tar_scanner =
  tar_buf :: bytes
  tar_name :: bytes

definition tar_message :: "bytes \<Rightarrow> bytes \<Rightarrow> smsg" where
  "tar_message member data = (message data)\<lparr>meta := om_set (str ''tar_name'') member []\<rparr>"

text \<open>
  What one entry does: a long-name entry leaves a name for the next header, the other
  metadata entries are consumed, and everything else is a message.
\<close>

definition tar_entry :: "bytes \<Rightarrow> bytes \<Rightarrow> bytes \<Rightarrow> bytes \<times> smsg list" where
  "tar_entry pending h data =
    (if h ! 156 = 76 then (strip_nuls data, [])
     else ([], if h ! 156 \<noteq> 120 \<and> h ! 156 \<noteq> 103 \<and> h ! 156 \<noteq> 75
               then [tar_message (if pending = [] then full_name h else pending) data] else []))"

text \<open>
  What the head of the buffer says, given its first block: the end marker, a header that
  is no header, or the size of the member.
\<close>

datatype tar_head = Tar_end | Tar_bad | Tar_member nat

definition tar_head :: "bytes \<Rightarrow> tar_head" where
  "tar_head h =
    (if h = zero_block then Tar_end
     else if \<not> header_ok h then Tar_bad
     else case octal (field 124 12 h) of None \<Rightarrow> Tar_bad | Some sz \<Rightarrow> Tar_member sz)"

function tar_loop :: "bytes \<Rightarrow> bytes \<Rightarrow> tar_scanner \<times> (scan_err + smsg list)" where
  "tar_loop pending buf =
    (if length buf < 512 then (\<lparr>tar_buf = buf, tar_name = pending\<rparr>, Inr [])
     else case tar_head (take 512 buf) of
       Tar_end \<Rightarrow> (\<lparr>tar_buf = [], tar_name = pending\<rparr>, Inr [])
     | Tar_bad \<Rightarrow> (\<lparr>tar_buf = buf, tar_name = pending\<rparr>, Inl Invalid_tar_header)
     | Tar_member sz \<Rightarrow>
         if length buf < 512 + sz then (\<lparr>tar_buf = buf, tar_name = pending\<rparr>, Inr [])
         else case tar_entry pending (take 512 buf) (take sz (drop 512 buf)) of
           (pending', ms) \<Rightarrow> (case tar_loop pending' (drop (512 + padded sz) buf) of
             (s, r) \<Rightarrow> (s, rbind r (\<lambda>ms'. Inr (ms @ ms')))))"
  by pat_completeness auto
termination by (relation "measure (\<lambda>(pending, buf). length buf)") auto

declare tar_loop.simps [simp del]

definition tar_feed :: "tar_scanner \<Rightarrow> bytes \<Rightarrow> tar_scanner \<times> (scan_err + smsg list)" where
  "tar_feed s chunk = tar_loop (tar_name s) (tar_buf s @ chunk)"

definition tar_finish :: "tar_scanner \<Rightarrow> tar_scanner \<times> (scan_err + smsg list)" where
  "tar_finish s = (case tar_loop (tar_name s) (tar_buf s) of
     (s', Inl e) \<Rightarrow> (s', Inl e)
   | (s', Inr out) \<Rightarrow> (s', if \<not> list_all (\<lambda>c. c = 0) (tar_buf s') then Inl Tar_ended_mid_entry else Inr out))"

definition new_tar :: tar_scanner where
  "new_tar = \<lparr>tar_buf = [], tar_name = []\<rparr>"

section \<open>Numbers stay in range\<close>

lemma base256_bound: "base256 v p = Some n \<Longrightarrow> v < 2 ^ 64 \<Longrightarrow> n < 2 ^ 64"
proof (induction v p rule: base256.induct)
  case (2 v c cs)
  have "unat c < 256"
    using unsigned_less [of c, where ?'a = nat] by simp
  moreover have "v < 2 ^ 56"
    using 2(2) by (simp add: div_eq_0_iff split: if_splits)
  ultimately have "v * 256 + unat c < 2 ^ 64"
    by simp
  then show ?case
    using 2 by (simp split: if_splits)
qed simp

lemma octal_value_bound:
  assumes "list_all octal_digit ds"
  shows "octal_value ds < 8 ^ length ds"
proof -
  have d: "unat d - 48 \<le> 7" if "octal_digit d" for d
    using that unfolding octal_digit_def word_le_nat_alt by simp linarith
  have "list_all octal_digit ds \<Longrightarrow> foldl (\<lambda>v d. v * 8 + (unat d - 48)) v ds < (v + 1) * 8 ^ length ds" for v
  proof (induction ds arbitrary: v)
    case (Cons x ds)
    have "foldl (\<lambda>v d. v * 8 + (unat d - 48)) (v * 8 + (unat x - 48)) ds
        < (v * 8 + (unat x - 48) + 1) * 8 ^ length ds"
      using Cons by simp
    also have "\<dots> \<le> ((v + 1) * 8) * 8 ^ length ds"
      using d [of x] Cons.prems by (intro mult_right_mono) auto
    finally show ?case
      by (simp add: algebra_simps)
  qed simp
  from this [OF assms, of 0] show ?thesis
    by (simp add: octal_value_def)
qed

lemma octal_field_bound:
  assumes "octal_field p = Some n" "length p \<le> 12"
  shows "n < 2 ^ 36"
proof -
  let ?ds = "takeWhile octal_digit (dropWhile pad_byte p)"
  have "length ?ds \<le> 12"
    using assms(2) length_takeWhile_le [of octal_digit "dropWhile pad_byte p"] length_dropWhile_le [of pad_byte p]
    by linarith
  moreover have "list_all octal_digit ?ds"
    by (metis list_all_iff set_takeWhileD)
  ultimately have "octal_value ?ds < 8 ^ 12"
    using octal_value_bound [of ?ds] power_increasing [of "length ?ds" 12 "8::nat"] by simp
  then show ?thesis
    using assms(1) by (auto simp: octal_field_def Let_def split: if_splits)
qed

lemma octal_bound: "octal p = Some n \<Longrightarrow> length p \<le> 12 \<Longrightarrow> n < 2 ^ 63"
  using octal_field_bound [of p n]
  by (auto simp: octal_def binary_field_def div_eq_0_iff split: if_splits option.splits)

section \<open>Reading an archive\<close>

definition entry_ok :: "bytes \<times> bytes \<Rightarrow> bool" where
  "entry_ok e \<longleftrightarrow> length (fst e) = 512 \<and> fst e \<noteq> zero_block \<and> header_ok (fst e) \<and>
     octal (field 124 12 (fst e)) = Some (length (snd e))"

definition entry_bytes :: "bytes \<times> bytes \<Rightarrow> bytes" where
  "entry_bytes e = fst e @ snd e @ replicate (padded (length (snd e)) - length (snd e)) 0"

definition archive :: "(bytes \<times> bytes) list \<Rightarrow> bytes" where
  "archive es = concat (map entry_bytes es)"

primrec archive_messages :: "bytes \<Rightarrow> (bytes \<times> bytes) list \<Rightarrow> smsg list" where
  "archive_messages pending [] = []"
| "archive_messages pending (e # es) =
     snd (tar_entry pending (fst e) (snd e)) @ archive_messages (fst (tar_entry pending (fst e) (snd e))) es"

primrec name_after :: "bytes \<Rightarrow> (bytes \<times> bytes) list \<Rightarrow> bytes" where
  "name_after pending [] = pending"
| "name_after pending (e # es) = name_after (fst (tar_entry pending (fst e) (snd e))) es"

definition zeros :: "nat \<Rightarrow> bytes" where
  "zeros k = replicate (512 * k) 0"

lemma padded_ge: "n \<le> padded n"
  by (simp add: padded_def)

lemma padded_dvd [simp]: "512 dvd padded n"
  by (simp add: padded_def)

lemma length_entry_bytes: "entry_ok e \<Longrightarrow> length (entry_bytes e) = 512 + padded (length (snd e))"
  using padded_ge [of "length (snd e)"] by (simp add: entry_bytes_def entry_ok_def)

lemma padded_least: "512 dvd m \<Longrightarrow> n \<le> m \<Longrightarrow> padded n \<le> m"
  by (auto simp: padded_def elim!: dvdE)

lemma archive_messages_append:
  "archive_messages p (es @ fs) = archive_messages p es @ archive_messages (name_after p es) fs"
  by (induction es arbitrary: p) simp_all

lemma name_after_append: "name_after p (es @ fs) = name_after (name_after p es) fs"
  by (induction es arbitrary: p) simp_all

lemma tar_loop_short: "length b < 512 \<Longrightarrow> tar_loop p b = (\<lparr>tar_buf = b, tar_name = p\<rparr>, Inr [])"
  by (subst tar_loop.simps) (simp add: Let_def)

lemma tar_loop_zeros: "tar_loop p (zeros k) = (\<lparr>tar_buf = [], tar_name = p\<rparr>, Inr [])"
proof (cases k)
  case 0
  then show ?thesis
    by (simp add: zeros_def tar_loop_short)
next
  case (Suc j)
  then have "take 512 (zeros k) = zero_block" "\<not> length (zeros k) < 512"
    by (simp_all add: zeros_def zero_block_def)
  then show ?thesis
    by (subst tar_loop.simps) (simp add: tar_head_def)
qed

lemma tar_loop_entry:
  assumes "entry_ok (h, d)"
  shows "tar_loop p (h @ t) =
    (if length t < length d then (\<lparr>tar_buf = h @ t, tar_name = p\<rparr>, Inr [])
     else let e = tar_entry p h (take (length d) t); k = tar_loop (fst e) (drop (padded (length d)) t)
          in (fst k, rbind (snd k) (\<lambda>ms. Inr (snd e @ ms))))"
proof -
  have "take 512 (h @ t) = h" "drop 512 (h @ t) = t" "length h = 512"
    "drop (512 + padded (length d)) (h @ t) = drop (padded (length d)) t"
    using assms by (simp_all add: entry_ok_def)
  then show ?thesis
    using assms by (subst tar_loop.simps) (simp add: Let_def entry_ok_def tar_head_def split: prod.split)
qed

text \<open>
  The invariant of the walk: what is in the buffer and what is still to come are the
  entries not yet delivered and the end marker, cut at a block boundary.
\<close>

lemma tar_loop_archive:
  assumes "\<forall>e\<in>set es. entry_ok e" "b @ rest = archive es @ zeros k" "512 dvd length b"
  shows "\<exists>es1 es2 b' k'. es = es1 @ es2 \<and>
    tar_loop p b = (\<lparr>tar_buf = b', tar_name = name_after p es1\<rparr>, Inr (archive_messages p es1)) \<and>
    b' @ rest = archive es2 @ zeros k' \<and> 512 dvd length b' \<and> (rest = [] \<longrightarrow> es2 = [] \<and> b' = [])"
  using assms
proof (induction es arbitrary: p b)
  case Nil
  obtain j where j: "length b = 512 * j"
    using Nil.prems(3) by (elim dvdE)
  have "length b \<le> 512 * k" "b = take (length b) (zeros k)" "rest = drop (length b) (zeros k)"
    using Nil.prems(2) by (auto simp: archive_def zeros_def dest: arg_cong [of _ _ length] arg_cong [of _ _ "take (length b)"] arg_cong [of _ _ "drop (length b)"])
  then have "b = zeros j" "rest = zeros (k - j)"
    using j by (simp_all add: zeros_def right_diff_distrib')
  then show ?case
    by (intro exI [of _ "[]"] exI [of _ "k - j"]) (simp add: tar_loop_zeros archive_def)
next
  case (Cons e es)
  obtain h d where e: "e = (h, d)"
    by (cases e)
  have ok: "entry_ok (h, d)" "\<forall>e\<in>set es. entry_ok e"
    using Cons.prems(1) e by auto
  have h: "length h = 512"
    using ok(1) by (simp add: entry_ok_def)
  let ?n = "padded (length d)"
  have A: "archive (e # es) @ zeros k = h @ (d @ replicate (?n - length d) 0) @ archive es @ zeros k"
    by (simp add: archive_def entry_bytes_def e)
  have stop: ?case if "tar_loop p b = (\<lparr>tar_buf = b, tar_name = p\<rparr>, Inr [])" "rest \<noteq> []"
    using that Cons.prems by (intro exI [of _ "[]"] exI [of _ "e # es"] exI [of _ b] exI [of _ k]) simp
  have total: "length b + length rest \<ge> 512 + ?n"
    using arg_cong [OF Cons.prems(2) [unfolded A], of length] h padded_ge [of "length d"] by simp
  show ?case
  proof (cases "length b < 512")
    case True
    then show ?thesis
      using total by (intro stop tar_loop_short) auto
  next
    case False
    then have "take 512 b = h"
      using arg_cong [OF Cons.prems(2) [unfolded A], of "take 512"] h by simp
    then obtain t where t: "b = h @ t"
      by (metis append_take_drop_id)
    have rest: "t @ rest = (d @ replicate (?n - length d) 0) @ archive es @ zeros k"
      using Cons.prems(2) unfolding A t by simp
    show ?thesis
    proof (cases "length t < length d")
      case True
      then show ?thesis
        using total t h padded_ge [of "length d"]
        by (intro stop) (auto simp: tar_loop_entry [OF ok(1)])
    next
      case False
      have "512 dvd length t"
        using Cons.prems(3) t h by simp
      then have n: "?n \<le> length t"
        using False by (intro padded_least) auto
      have "take (length d) t = d"
        using arg_cong [OF rest, of "take (length d)"] False by simp
      moreover have "drop ?n t @ rest = archive es @ zeros k"
        using arg_cong [OF rest, of "drop ?n"] n padded_ge [of "length d"] by simp
      moreover have "512 dvd length (drop ?n t)"
        using \<open>512 dvd length t\<close> by (simp add: dvd_diff_nat)
      ultimately obtain es1 es2 b' k' where IH: "es = es1 @ es2"
          "tar_loop (fst (tar_entry p h d)) (drop ?n t) =
            (\<lparr>tar_buf = b', tar_name = name_after (fst (tar_entry p h d)) es1\<rparr>,
             Inr (archive_messages (fst (tar_entry p h d)) es1))"
          "b' @ rest = archive es2 @ zeros k'" "512 dvd length b'" "rest = [] \<longrightarrow> es2 = [] \<and> b' = []"
        using Cons.IH [OF ok(2), of "drop ?n t"] by blast
      show ?thesis
        using IH False \<open>take (length d) t = d\<close>
        by (intro exI [of _ "e # es1"] exI [of _ es2] exI [of _ b'] exI [of _ k'])
          (simp add: t e tar_loop_entry [OF ok(1)] Let_def)
    qed
  qed
qed

lemma run_tar_archive:
  "\<forall>e\<in>set es. entry_ok e \<Longrightarrow> b @ concat cs = archive es @ zeros k \<Longrightarrow> 512 dvd length b \<Longrightarrow>
   \<forall>c\<in>set cs. 512 dvd length c \<Longrightarrow>
   run tar_feed tar_finish cs \<lparr>tar_buf = b, tar_name = p\<rparr> = (archive_messages p es, None)"
proof (induction cs arbitrary: es b k p)
  case Nil
  then obtain es1 es2 b' where "es = es1 @ es2"
      "tar_loop p b = (\<lparr>tar_buf = b', tar_name = name_after p es1\<rparr>, Inr (archive_messages p es1))"
      "es2 = []" "b' = []"
    using tar_loop_archive [of es b "[]" k p] by auto
  then show ?case
    by (simp add: tar_finish_def)
next
  case (Cons c cs)
  obtain es1 es2 b' k' where L: "es = es1 @ es2"
      "tar_loop p (b @ c) = (\<lparr>tar_buf = b', tar_name = name_after p es1\<rparr>, Inr (archive_messages p es1))"
      "b' @ concat cs = archive es2 @ zeros k'" "512 dvd length b'"
    using tar_loop_archive [of es "b @ c" "concat cs" k p] Cons.prems by auto
  have "run tar_feed tar_finish cs \<lparr>tar_buf = b', tar_name = name_after p es1\<rparr> =
      (archive_messages (name_after p es1) es2, None)"
    using Cons.IH [OF _ L(3,4)] Cons.prems(1,4) L(1) by simp
  moreover have "tar_feed \<lparr>tar_buf = b, tar_name = p\<rparr> c =
      (\<lparr>tar_buf = b', tar_name = name_after p es1\<rparr>, Inr (archive_messages p es1))"
    by (simp add: tar_feed_def L(2))
  ultimately show ?case
    by (simp add: L(1) archive_messages_append)
qed

text \<open>
  A link-name entry between a long name and its member discards the long name.
\<close>

lemma link_entry_discards_the_long_name:
  assumes "hl ! 156 = 76" "hk ! 156 = 75" "h ! 156 = 48"
  shows "archive_messages [] [(hl, name), (hk, link), (h, d)] = [tar_message (full_name h) d]"
  using assms by (simp add: tar_entry_def)

definition sample_header :: bytes where
  "sample_header = [97] @ replicate 123 0 @ replicate 10 48 @ [51, 0] @ replicate 12 0 @
     [48, 48, 49, 54, 52, 52, 0, 32] @ [48] @ replicate 355 0"


definition sample_entry :: "bytes \<times> bytes" where
  "sample_entry = (sample_header, [1, 2, 3])"

lemma sample_entry_ok: "entry_ok sample_entry"
  by code_simp

lemma sample_messages: "archive_messages [] [sample_entry, sample_entry] =
    [tar_message [97] [1, 2, 3], tar_message [97] [1, 2, 3]]"
  by code_simp

text \<open>
  A cut between the data of a member and its padding: the member is delivered and the
  buffer emptied, and the padding, when it arrives, is taken for the next header.
\<close>

lemma padding_is_no_header: "tar_head (replicate 509 0 @ [97, 0, 0]) = Tar_bad"
  by code_simp

lemma cut_before_the_padding:
  "run tar_feed tar_finish
     [sample_header @ [1, 2, 3], replicate 509 0 @ entry_bytes sample_entry @ zeros 2] new_tar =
   ([tar_message [97] [1, 2, 3]], Some Invalid_tar_header)"
proof -
  have m: "tar_entry [] sample_header [1, 2, 3] = ([], [tar_message [97] [1, 2, 3]])"
    by code_simp
  have ok: "entry_ok (sample_header, [1, 2, 3])"
    using sample_entry_ok by (simp add: sample_entry_def)
  have 1: "tar_feed new_tar (sample_header @ [1, 2, 3]) =
      (\<lparr>tar_buf = [], tar_name = []\<rparr>, Inr [tar_message [97] [1, 2, 3]])"
    using m by (simp add: tar_feed_def new_tar_def tar_loop_entry [OF ok] padded_def tar_loop_short)
  let ?c = "replicate 509 0 @ entry_bytes sample_entry @ zeros 2"
  have "take 3 sample_header = [97, 0, 0]" "length sample_header = 512"
    by (simp_all add: sample_header_def numeral_2_eq_2)
  then have "take 512 ?c = replicate 509 0 @ [97, 0, 0]"
    by (simp add: entry_bytes_def sample_entry_def)
  moreover have "\<not> length ?c < 512"
    using length_entry_bytes [OF sample_entry_ok] by simp
  ultimately have "tar_feed \<lparr>tar_buf = [], tar_name = []\<rparr> ?c =
      (\<lparr>tar_buf = ?c, tar_name = []\<rparr>, Inl Invalid_tar_header)"
    by (simp add: tar_feed_def tar_loop.simps [of "[]" ?c] padding_is_no_header del: take_append)
  then show ?thesis
    using 1 by simp
qed

text \<open>
  What follows the end marker is ignored in the same chunk and read as another archive in a
  later one.
\<close>

lemma data_after_the_end_marker:
  "run tar_feed tar_finish [zero_block @ t] new_tar = ([], None)"
  "entry_ok e \<Longrightarrow> run tar_feed tar_finish [zero_block, entry_bytes e] new_tar = (archive_messages [] [e], None)"
proof -
  have end_marker: "tar_feed new_tar (zero_block @ t) = (new_tar, Inr [])" for t
    by (subst tar_feed_def, subst tar_loop.simps)
      (simp add: new_tar_def tar_head_def zero_block_def)
  then show "run tar_feed tar_finish [zero_block @ t] new_tar = ([], None)"
    by (simp add: tar_finish_def new_tar_def tar_loop_short)
  assume "entry_ok e"
  then have "run tar_feed tar_finish [entry_bytes e] new_tar = (archive_messages [] [e], None)"
    using run_tar_archive [of "[e]" "[]" "[entry_bytes e]" 0 "[]"] length_entry_bytes
    by (simp add: archive_def zeros_def new_tar_def del: run.simps)
  then show "run tar_feed tar_finish [zero_block, entry_bytes e] new_tar = (archive_messages [] [e], None)"
    using end_marker [of "[]"] by simp
qed

section \<open>Properties\<close>

text \<open> An archive of well-formed entries followed by zero blocks is read back entry by
  entry, in order and with the names the long-name entries give, when every chunk is a
  whole number of blocks; nothing is reported as corrupt.\<close>

theorem tar_reads_the_archive:
  assumes "\<forall>e\<in>set es. entry_ok e" "concat cs = archive es @ zeros k" "\<forall>c\<in>set cs. 512 dvd length c"
  shows "run tar_feed tar_finish cs new_tar = (archive_messages [] es, None)"
  using run_tar_archive [OF assms(1), of "[]" cs k "[]"] assms(2,3) by (simp add: new_tar_def)

theorem tar_reads_the_archive_witness:
  "run tar_feed tar_finish [entry_bytes sample_entry, entry_bytes sample_entry, zeros 2] new_tar =
    ([tar_message [97] [1, 2, 3], tar_message [97] [1, 2, 3]], None)"
proof -
  have "512 dvd length (entry_bytes sample_entry)"
    using length_entry_bytes [OF sample_entry_ok] by simp
  then show ?thesis
    using tar_reads_the_archive [of "[sample_entry, sample_entry]"
      "[entry_bytes sample_entry, entry_bytes sample_entry, zeros 2]" 2] sample_entry_ok sample_messages
    by (simp add: archive_def zeros_def del: run.simps)
qed

end
