(* ===== verification/Scanners.thy ===== *)
theory Scanners
  imports Scan_Text Scan_Json Scan_Csv Scan_Tar
begin

text \<open>
  The scanner object of \<open>scanners.cc\<close> as one datatype over the kinds, the two wrapping
  scanners (\<open>skip_bom\<close>, \<open>decompress\<close>), the factory \<open>make_scanner\<close>, and the read loops of the
  inputs that drive a scanner (\<open>scanned_input\<close> of \<open>io.cc\<close>, \<open>framed_connection\<close> of
  \<open>socket.cc\<close>).  The law of cuts is proved for every composition of kinds that keep it.
\<close>

section \<open>Scanners\<close>

datatype scanner =
    Lines lines_scanner
  | Chunker chunker_scanner
  | To_the_end to_the_end_scanner
  | Re_match re_match_scanner
  | Json_documents json_documents_scanner
  | Json_array json_array_scanner
  | Csv csv_scanner
  | Tar tar_scanner
  | Skip_bom scanner bytes bool
  | Decompress string scanner bytes

definition marks :: "bytes list" where
  "marks = [[0, 0, 0xFE, 0xFF], [0xFF, 0xFE, 0, 0], [0xEF, 0xBB, 0xBF], [0xFE, 0xFF], [0xFF, 0xFE]]"

definition longest_mark :: nat where
  "longest_mark = length (hd marks)"

definition is_partial_mark :: "bytes \<Rightarrow> bool" where
  "is_partial_mark s \<longleftrightarrow> (\<exists>m\<in>set marks. length s < length m \<and> take (length s) m = s)"

fun strip_first :: "bytes list \<Rightarrow> bytes \<Rightarrow> bytes" where
  "strip_first [] s = s"
| "strip_first (m # ms) s =
     (if length m \<le> length s \<and> take (length m) s = m then drop (length m) s else strip_first ms s)"

definition strip_one_mark :: "bytes \<Rightarrow> bytes" where
  "strip_one_mark s = strip_first marks s"

definition decompress_all :: "env \<Rightarrow> string \<Rightarrow> bytes \<Rightarrow> scan_err + bytes" where
  "decompress_all env alg b =
    (let via = (\<lambda>c. case codec_decompress env c b of Inl e \<Rightarrow> Inl (Codec_failed e) | Inr p \<Rightarrow> Inr p) in
     if alg = ''gzip'' \<or> alg = ''pgzip'' then via ''gzip''
     else if alg = ''zlib'' then via ''zlib''
     else if alg = ''flate'' then via ''flate''
     else if alg = ''snappy'' then via ''snappy''
     else if alg = ''lz4'' then via ''lz4''
     else if alg = ''zstd'' then via ''zstd''
     else if alg = ''bzip2'' then via ''bzip2''
     else Inl (Unrecognised_algorithm alg))"

primrec feed :: "env \<Rightarrow> scanner \<Rightarrow> bytes \<Rightarrow> scanner \<times> (scan_err + smsg list)" where
  "feed env (Lines s) c = map_prod Lines id (lines_feed s c)"
| "feed env (Chunker s) c = map_prod Chunker id (chunker_feed s c)"
| "feed env (To_the_end s) c = map_prod To_the_end id (to_the_end_feed s c)"
| "feed env (Re_match s) c = map_prod Re_match id (re_match_feed env s c)"
| "feed env (Json_documents s) c = map_prod Json_documents id (docs_feed env s c)"
| "feed env (Json_array s) c = map_prod Json_array id (array_feed env s c)"
| "feed env (Csv s) c = map_prod Csv id (csv_feed s c)"
| "feed env (Tar s) c = map_prod Tar id (tar_feed s c)"
| "feed env (Skip_bom i hold dn) c =
    (if dn then map_prod (\<lambda>i'. Skip_bom i' hold True) id (feed env i c)
     else if length (hold @ c) < longest_mark \<and> is_partial_mark (hold @ c)
       then (Skip_bom i (hold @ c) False, Inr [])
     else map_prod (\<lambda>i'. Skip_bom i' [] True) id (feed env i (strip_one_mark (hold @ c))))"
| "feed env (Decompress alg i buf) c = (Decompress alg i (buf @ c), Inr [])"

primrec nesting :: "scanner \<Rightarrow> nat" where
  "nesting (Lines _) = 0" | "nesting (Chunker _) = 0" | "nesting (To_the_end _) = 0"
| "nesting (Re_match _) = 0" | "nesting (Json_documents _) = 0" | "nesting (Json_array _) = 0"
| "nesting (Csv _) = 0" | "nesting (Tar _) = 0"
| "nesting (Skip_bom i _ _) = Suc (nesting i)"
| "nesting (Decompress _ i _) = Suc (nesting i)"

lemma nesting_feed [simp]: "nesting (fst (feed env s c)) = nesting s"
  by (induction s arbitrary: c) (auto simp: fst_map_prod)

text \<open>The end of a wrapping scanner: what the child says to its last chunk, then its own end.\<close>

definition after_feed :: "(scanner \<Rightarrow> scanner) \<Rightarrow> scanner \<times> (scan_err + smsg list) \<Rightarrow>
    (scanner \<Rightarrow> scanner \<times> (scan_err + smsg list)) \<Rightarrow> scanner \<times> (scan_err + smsg list)" where
  "after_feed wrap r fin = (case r of
     (i, Inl e) \<Rightarrow> (wrap i, Inl e)
   | (i, Inr out) \<Rightarrow> (case fin i of (i', t) \<Rightarrow> (wrap i', rbind t (\<lambda>tail. Inr (out @ tail)))))"

lemma after_feed_cong [fundef_cong]:
  "wrap = wrap' \<Longrightarrow> r = r' \<Longrightarrow> fin (fst r') = fin' (fst r') \<Longrightarrow> after_feed wrap r fin = after_feed wrap' r' fin'"
  by (cases r'; cases "snd r'") (simp_all add: after_feed_def)

function finish :: "env \<Rightarrow> scanner \<Rightarrow> scanner \<times> (scan_err + smsg list)" where
  "finish env (Lines s) = map_prod Lines id (lines_finish s)"
| "finish env (Chunker s) = map_prod Chunker id (chunker_finish s)"
| "finish env (To_the_end s) = map_prod To_the_end id (to_the_end_finish s)"
| "finish env (Re_match s) = map_prod Re_match id (re_match_finish env s)"
| "finish env (Json_documents s) = map_prod Json_documents id (docs_finish env s)"
| "finish env (Json_array s) = map_prod Json_array id (array_finish env s)"
| "finish env (Csv s) = map_prod Csv id (csv_finish s)"
| "finish env (Tar s) = map_prod Tar id (tar_finish s)"
| "finish env (Skip_bom i hold dn) =
    (if \<not> dn \<and> strip_one_mark hold \<noteq> []
     then after_feed (\<lambda>i'. Skip_bom i' [] True) (feed env i (strip_one_mark hold)) (\<lambda>i'. finish env i')
     else map_prod (\<lambda>i'. Skip_bom i' [] True) id (finish env i))"
| "finish env (Decompress alg i buf) =
    (case (if buf = [] then Inr [] else decompress_all env alg buf) of
       Inl e \<Rightarrow> (Decompress alg i buf, Inl e)
     | Inr plain \<Rightarrow> after_feed (\<lambda>i'. Decompress alg i' []) (feed env i plain) (\<lambda>i'. finish env i'))"
  by pat_completeness auto
termination by (relation "measure (\<lambda>(env, s). nesting s)") auto

abbreviation scan :: "env \<Rightarrow> bytes list \<Rightarrow> scanner \<Rightarrow> smsg list \<times> scan_err option" where
  "scan env \<equiv> run (feed env) (finish env)"

section \<open>The factory\<close>

datatype scanner_spec = Scanner_spec
  (kind: string) (custom_delimiter: bytes) (max_buffer_size: int) (omit_empty: bool)
  (parse_header_row: bool) (lazy_quotes: bool) (continue_on_error: bool)
  (chunk_bytes: int) (pattern: bytes) (algorithm: string) (raw_json: bool)
  (children: "scanner_spec list") (child_matches: "bytes list")

text \<open>The kinds of a build without the vendored avro library.\<close>

definition scanner_kinds :: "string list" where
  "scanner_kinds = [''chunker'', ''csv'', ''decompress'', ''json_array'', ''json_documents'',
     ''lines'', ''re_match'', ''skip_bom'', ''switch'', ''tar'', ''to_the_end'']"

definition reference_scanner_kinds :: "string list" where
  "reference_scanner_kinds = [''avro'', ''chunker'', ''csv'', ''decompress'', ''json_array'',
     ''json_documents'', ''lines'', ''re_match'', ''skip_bom'', ''switch'', ''tar'', ''to_the_end'']"

definition make_lines_scanner :: "nat \<Rightarrow> scanner" where
  "make_lines_scanner max_buffer = Lines (new_lines max_buffer [10] False)"

definition make_to_the_end_scanner :: scanner where
  "make_to_the_end_scanner = To_the_end []"

definition make_avro_scanner :: "bool \<Rightarrow> scan_err + scanner" where
  "make_avro_scanner raw = Inl (Not_implemented ''avro'')"

definition make_csv_scanner :: "bytes \<Rightarrow> bool \<Rightarrow> bool \<Rightarrow> bool \<Rightarrow> scan_err + scanner" where
  "make_csv_scanner custom header lazy cont =
    (if custom \<noteq> [] \<and> length custom \<noteq> 1 then Inl Delimiter_not_single
     else Inr (Csv (new_csv (if custom = [] then 44 else hd custom) header lazy cont)))"

definition unknown_kind :: "string \<Rightarrow> scan_err" where
  "unknown_kind k = (if k \<in> set reference_scanner_kinds then Not_implemented k else Not_a_scanner k)"

fun make_scanner :: "env \<Rightarrow> bytes \<Rightarrow> scanner_spec \<Rightarrow> scan_err + scanner"
  and make_child :: "env \<Rightarrow> bytes \<Rightarrow> scanner_spec list \<Rightarrow> scan_err + scanner"
  and make_switch :: "env \<Rightarrow> bytes \<Rightarrow> scanner_spec list \<Rightarrow> bytes list \<Rightarrow> scan_err + scanner" where
  "make_scanner env name (Scanner_spec k delim mx om header lazy cont sz pat alg raw ch ma) =
    (let max_buf = (if 0 < mx then nat mx else 65536) in
     if k = ''lines'' \<or> k = [] then Inr (Lines (new_lines max_buf (if delim = [] then [10] else delim) om))
     else if k = ''to_the_end'' then Inr make_to_the_end_scanner
     else if k = ''json_documents'' then Inr (Json_documents new_docs)
     else if k = ''json_array'' then Inr (Json_array new_array)
     else if k = ''tar'' then Inr (Tar new_tar)
     else if k = ''avro'' then make_avro_scanner raw
     else if k = ''chunker'' then
       (if sz \<le> 0 then Inl Chunk_size_not_positive
        else Inr (Chunker \<lparr>chunk_buf = [], chunk_size = nat sz\<rparr>))
     else if k = ''csv'' then make_csv_scanner delim header lazy cont
     else if k = ''re_match'' then rbind (new_re_match env pat max_buf) (\<lambda>s. Inr (Re_match s))
     else if k = ''skip_bom'' then rbind (make_child env name ch) (\<lambda>i. Inr (Skip_bom i [] False))
     else if k = ''decompress'' then rbind (make_child env name ch) (\<lambda>i. Inr (Decompress alg i []))
     else if k = ''switch'' then make_switch env name ch ma
     else Inl (unknown_kind k))"
| "make_child env name [] = Inr make_to_the_end_scanner"
| "make_child env name (c # cs) = make_scanner env name c"
| "make_switch env name [] ma = Inl (No_candidate name)"
| "make_switch env name (c # cs) ma =
    (let pat = (case ma of [] \<Rightarrow> [] | p # _ \<Rightarrow> p) in
     if pat = [] then make_scanner env name c
     else case re_error env pat of
       Some e \<Rightarrow> Inl (Bad_name_pattern e)
     | None \<Rightarrow> if re_partial env pat name then make_scanner env name c
               else make_switch env name cs (List.tl ma))"

section \<open>Inputs that read through a scanner\<close>

text \<open>
  The chunks a source will return, up to its end; an empty chunk is the end.  A read
  answers with an exception, with no batch, or with a batch of at most the batch size.
\<close>

record scanned_input =
  si_scanner :: scanner
  si_batch_size :: nat
  si_ready :: "smsg list"
  si_eof :: bool

definition take_ready :: "scanned_input \<Rightarrow> scanned_input \<times> smsg list option" where
  "take_ready s = (if si_ready s = [] then (s, None)
     else (s\<lparr>si_ready := drop (min (si_batch_size s) (length (si_ready s))) (si_ready s)\<rparr>,
       Some (take (min (si_batch_size s) (length (si_ready s))) (si_ready s))))"

fun read_batch :: "env \<Rightarrow> scanned_input \<Rightarrow> bytes list \<Rightarrow>
    scanned_input \<times> bytes list \<times> (scan_err + smsg list option)" where
  "read_batch env s cs =
    (if si_ready s \<noteq> [] then (case take_ready s of (s', b) \<Rightarrow> (s', cs, Inr b))
     else if si_eof s then (s, cs, Inr None)
     else if cs = [] \<or> hd cs = [] then
       (case finish env (si_scanner s) of
          (sc, Inl e) \<Rightarrow> (s\<lparr>si_scanner := sc, si_eof := True\<rparr>, List.tl cs, Inl e)
        | (sc, Inr out) \<Rightarrow>
            (case take_ready (s\<lparr>si_scanner := sc, si_eof := True, si_ready := out\<rparr>) of
               (s', b) \<Rightarrow> (s', List.tl cs, Inr b)))
     else
       (case feed env (si_scanner s) (hd cs) of
          (sc, Inl e) \<Rightarrow> (s\<lparr>si_scanner := sc\<rparr>, List.tl cs, Inl e)
        | (sc, Inr out) \<Rightarrow> read_batch env (s\<lparr>si_scanner := sc, si_ready := out\<rparr>) (List.tl cs)))"

section \<open>The law of cuts for compositions\<close>

lemma scan_Lines: "scan env cs (Lines s) = run lines_feed lines_finish cs s"
  by (rule run_simulation) simp_all

lemma scan_Chunker: "scan env cs (Chunker s) = run chunker_feed chunker_finish cs s"
  by (rule run_simulation) simp_all

lemma scan_To_the_end: "scan env cs (To_the_end s) = run to_the_end_feed to_the_end_finish cs s"
  by (rule run_simulation) simp_all

lemma scan_Re_match: "scan env cs (Re_match s) = run (re_match_feed env) (re_match_finish env) cs s"
  by (rule run_simulation) simp_all

lemma scan_Json_documents: "scan env cs (Json_documents s) = run (docs_feed env) (docs_finish env) cs s"
  by (rule run_simulation) simp_all

lemma scan_Json_array: "scan env cs (Json_array s) = run (array_feed env) (array_finish env) cs s"
  by (rule run_simulation) simp_all

lemma scan_Csv: "scan env cs (Csv s) = run csv_feed csv_finish cs s"
  by (rule run_simulation) simp_all

lemma scan_Tar: "scan env cs (Tar s) = run tar_feed tar_finish cs s"
  by (rule run_simulation) simp_all

lemmas scan_leaf = scan_Lines scan_Chunker scan_To_the_end scan_Re_match scan_Json_documents
  scan_Json_array scan_Csv scan_Tar

lemma scan_Skip_bom_done: "scan env cs (Skip_bom i hold True) = scan env cs i"
proof (induction cs arbitrary: i)
  case Nil
  then show ?case by (simp add: snd_map_prod)
next
  case (Cons c cs)
  then show ?case by (simp add: fst_map_prod snd_map_prod)
qed

lemma scan_Decompress: "scan env cs (Decompress alg i buf) = scan env [] (Decompress alg i (buf @ concat cs))"
proof (induction cs arbitrary: buf)
  case (Cons c cs)
  have "scan env (c # cs) (Decompress alg i buf) = scan env cs (Decompress alg i (buf @ c))"
    by (simp del: finish.simps)
  then show ?case
    using Cons.IH [of "buf @ c"] by simp
qed simp

definition undecided :: "bytes \<Rightarrow> bool" where
  "undecided h \<longleftrightarrow> length h < longest_mark \<and> is_partial_mark h"

lemma scan_Skip_bom_hold: "undecided (hold @ c) \<Longrightarrow>
    scan env (c # cs) (Skip_bom i hold False) = scan env cs (Skip_bom i (hold @ c) False)"
  by (simp add: undecided_def del: finish.simps)

lemma scan_Skip_bom_decide:
  assumes "\<not> undecided (hold @ c)"
  shows "scan env (c # cs) (Skip_bom i hold False) = scan env (strip_one_mark (hold @ c) # cs) i"
proof -
  have "feed env (Skip_bom i hold False) c =
      map_prod (\<lambda>i'. Skip_bom i' [] True) id (feed env i (strip_one_mark (hold @ c)))"
    using assms unfolding undecided_def by (simp only: feed.simps if_False)
  then show ?thesis
    by (simp add: scan_Skip_bom_done fst_map_prod snd_map_prod del: feed.simps finish.simps)
qed

lemma marks_length: "m \<in> set marks \<Longrightarrow> length m \<le> 4"
  by (auto simp: marks_def)

lemma undecided_prefix:
  assumes "undecided (a @ b)"
  shows "undecided a"
proof -
  obtain m where m: "m \<in> set marks" "length (a @ b) < length m" "take (length (a @ b)) m = a @ b"
    using assms by (auto simp: undecided_def is_partial_mark_def)
  have "take (length a) m = a"
    using arg_cong [OF m(3), of "take (length a)"] by simp
  then show ?thesis
    using assms m by (auto simp: undecided_def is_partial_mark_def intro!: bexI [of _ m])
qed

lemma strip_decided:
  assumes "\<not> undecided a"
  shows "strip_one_mark (a @ b) = strip_one_mark a @ b"
proof -
  have fits: "length m \<le> length a" if "m \<in> set marks" "take (length m) (a @ b) = m" for m
  proof (rule ccontr)
    assume "\<not> length m \<le> length a"
    then have lt: "length a < length m"
      by simp
    have "m = a @ take (length m - length a) b"
      using lt that(2) by simp
    then obtain z where z: "m = a @ z" ..
    have "take (length a) m = a"
      unfolding z by simp
    then have "is_partial_mark a"
      using lt that(1) unfolding is_partial_mark_def by blast
    moreover have "length a < longest_mark"
      using lt marks_length [OF that(1)] by (simp add: longest_mark_def marks_def)
    ultimately show False
      using assms by (simp add: undecided_def)
  qed
  have "set ms \<subseteq> set marks \<Longrightarrow> strip_first ms (a @ b) = strip_first ms a @ b" for ms
  proof (induction ms)
    case (Cons m ms)
    have m: "m \<in> set marks" and IH: "strip_first ms (a @ b) = strip_first ms a @ b"
      using Cons by auto
    show ?case
    proof (cases "length m \<le> length (a @ b) \<and> take (length m) (a @ b) = m")
      case True
      then have le: "length m \<le> length a"
        using fits [OF m] by blast
      then have "take (length m) a = take (length m) (a @ b)"
        by simp
      then have "length m \<le> length a \<and> take (length m) a = m"
        using True le by metis
      then show ?thesis
        using True le by (simp only: strip_first.simps if_True simp_thms drop_append diff_is_0_eq [THEN iffD2] drop_0)
    next
      case False
      have "\<not> (length m \<le> length a \<and> take (length m) a = m)"
      proof
        assume *: "length m \<le> length a \<and> take (length m) a = m"
        then have "take (length m) a = take (length m) (a @ b)"
          by simp
        then show False
          using * False by (metis le_trans length_append le_add1)
      qed
      then show ?thesis
        using False IH by (simp only: strip_first.simps if_False)
    qed
  qed simp
  then show ?thesis
    by (simp add: strip_one_mark_def)
qed

primrec cut_free :: "env \<Rightarrow> scanner \<Rightarrow> bool" where
  "cut_free env (Lines s) = False"
| "cut_free env (Chunker s) = chunker_inv s"
| "cut_free env (To_the_end s) = True"
| "cut_free env (Re_match s) = False"
| "cut_free env (Json_documents s) = docs_ok env s"
| "cut_free env (Json_array s) = array_ok env s"
| "cut_free env (Csv s) = csv_ok s"
| "cut_free env (Tar s) = False"
| "cut_free env (Skip_bom i hold dn) = (cut_free env i \<and> (\<not> dn \<longrightarrow> undecided hold))"
| "cut_free env (Decompress alg i buf) = True"

lemma scan_join:
  "cut_free env s \<Longrightarrow> snd (scan env ((a @ b) # cs) s) \<noteq> Some Bare_quote \<Longrightarrow>
     scan env (a # b # cs) s = scan env ((a @ b) # cs) s"
proof (induction s arbitrary: a b cs)
  case (Skip_bom i hold dn)
  show ?case
  proof (cases dn)
    case True
    then show ?thesis
      using Skip_bom by (simp add: scan_Skip_bom_done del: run.simps)
  next
    case False
    show ?thesis
    proof (cases "undecided (hold @ a)")
      case True
      have eq: "undecided ((hold @ a) @ b) = undecided (hold @ a @ b)"
        by simp
      show ?thesis
      proof (cases "undecided (hold @ a @ b)")
        case True
        then show ?thesis
          using False \<open>undecided (hold @ a)\<close> eq
          by (simp only: scan_Skip_bom_hold append_assoc)
      next
        case no: False
        have "scan env (b # cs) (Skip_bom i (hold @ a) False) = scan env (strip_one_mark (hold @ a @ b) # cs) i"
          using scan_Skip_bom_decide [of "hold @ a" b env cs i] no by (simp del: run.simps)
        then show ?thesis
          using False by (simp add: scan_Skip_bom_hold [OF True] scan_Skip_bom_decide [OF no] del: run.simps)
      qed
    next
      case no: False
      then have "\<not> undecided (hold @ a @ b)"
        using undecided_prefix [of "hold @ a" b] by auto
      moreover have "strip_one_mark (hold @ a @ b) = strip_one_mark (hold @ a) @ b"
        using strip_decided [OF no, of b] by simp
      ultimately have eq: "scan env ((a @ b) # cs) (Skip_bom i hold False) =
          scan env ((strip_one_mark (hold @ a) @ b) # cs) i"
        using scan_Skip_bom_decide [of hold "a @ b" env cs i] by (simp del: run.simps)
      have "scan env (strip_one_mark (hold @ a) # b # cs) i = scan env ((strip_one_mark (hold @ a) @ b) # cs) i"
        using Skip_bom.prems False eq by (intro Skip_bom.IH) (simp_all del: run.simps)
      then show ?thesis
        using False eq scan_Skip_bom_decide [OF no, of env "b # cs" i] by (simp del: run.simps)
    qed
  qed
next
  case (Decompress alg i buf)
  then show ?case
    by (simp only: scan_Decompress [of env "a # b # cs"] scan_Decompress [of env "(a @ b) # cs"]
        concat.simps append_assoc)
qed (simp_all only: scan_leaf cut_free.simps chunker.join to_the_end.join docs.join array.join csv.join simp_thms)

lemma scan_empty: "cut_free env s \<Longrightarrow> scan env [[]] s = scan env [] s"
proof (induction s)
  case (Skip_bom i hold dn)
  then show ?case
    by (cases dn) (simp_all only: scan_Skip_bom_done scan_Skip_bom_hold cut_free.simps append_Nil2 simp_thms)
next
  case (Decompress alg i buf)
  then show ?case
    by (simp only: scan_Decompress [of env "[[]]"]) simp
qed (simp_all only: scan_leaf cut_free.simps chunker.empty_chunk to_the_end.empty_chunk docs.empty_chunk
    array.empty_chunk csv.empty_chunk simp_thms)

interpretation scanner: cut_law "feed env" "finish env" "cut_free env" "\<lambda>e. e \<noteq> Some Bare_quote"
  by unfold_locales (simp_all only: scan_join scan_empty not_False_eq_True)

text \<open>The compositions of kinds that keep the law.\<close>

primrec cut_kind :: "scanner \<Rightarrow> bool" where
  "cut_kind (Lines s) = False"
| "cut_kind (Chunker s) = True"
| "cut_kind (To_the_end s) = True"
| "cut_kind (Re_match s) = False"
| "cut_kind (Json_documents s) = True"
| "cut_kind (Json_array s) = True"
| "cut_kind (Csv s) = True"
| "cut_kind (Tar s) = False"
| "cut_kind (Skip_bom i hold dn) = cut_kind i"
| "cut_kind (Decompress alg i buf) = True"

lemma undecided_Nil: "undecided []"
  by (simp add: undecided_def is_partial_mark_def longest_mark_def marks_def)

lemma docs_ok_new: "docs_ok env new_docs"
  by (simp add: docs_ok_def new_docs_def docs_loop_stop next_value_def end_of_json_value_def)

lemma array_ok_new: "array_ok env new_array"
  by (simp add: array_ok_def new_array_def array_loop_empty)

definition made_ok :: "env \<Rightarrow> scan_err + scanner \<Rightarrow> bool" where
  "made_ok env r \<longleftrightarrow> (\<forall>sc. r = Inr sc \<longrightarrow> cut_kind sc \<longrightarrow> cut_free env sc)"

lemma made_ok_Inl [intro!]: "made_ok env (Inl e)"
  by (simp add: made_ok_def)

lemma made_ok_if: "(c \<Longrightarrow> made_ok env a) \<Longrightarrow> (\<not> c \<Longrightarrow> made_ok env b) \<Longrightarrow> made_ok env (if c then a else b)"
  by simp

lemma made_ok_leaf:
  "made_ok env (Inr (Lines l))" "made_ok env (Inr make_to_the_end_scanner)"
  "made_ok env (Inr (Json_documents new_docs))" "made_ok env (Inr (Json_array new_array))"
  "made_ok env (Inr (Tar t))" "made_ok env (make_avro_scanner raw)"
  "0 < n \<Longrightarrow> made_ok env (Inr (Chunker \<lparr>chunk_buf = [], chunk_size = n\<rparr>))"
  "made_ok env (make_csv_scanner custom header lazy cont)"
  "made_ok env (rbind (new_re_match env pat mb) (\<lambda>s. Inr (Re_match s)))"
  by (auto simp: made_ok_def make_to_the_end_scanner_def docs_ok_new array_ok_new make_avro_scanner_def
      chunker_inv_def make_csv_scanner_def csv_ok_new new_re_match_def split: option.splits)

lemma made_ok_wrap:
  "made_ok env r \<Longrightarrow> made_ok env (rbind r (\<lambda>i. Inr (Skip_bom i [] False)))"
  "made_ok env (rbind r (\<lambda>i. Inr (Decompress alg i [])))"
  by (auto simp: made_ok_def rbind_eq_Inr_iff undecided_Nil)

lemma make_made_ok:
  "made_ok env (make_scanner env name sp)"
  "made_ok env (make_child env name ch)"
  "made_ok env (make_switch env name ch ma)"
proof (induction env name sp and env name ch and env name ch ma
    rule: make_scanner_make_child_make_switch.induct)
  case (1 env name k delim mx om header lazy cont sz pat alg raw ch ma)
  consider "k = ''skip_bom''" | "k = ''decompress''" | "k = ''switch''"
    | "k \<noteq> ''skip_bom'' \<and> k \<noteq> ''decompress'' \<and> k \<noteq> ''switch''"
    by blast
  then show ?case
  proof cases
    case 1
    then show ?thesis
      using "1.IH"(1) by (simp add: made_ok_wrap)
  next
    case 2
    then show ?thesis
      by (simp add: made_ok_wrap)
  next
    case 3
    then show ?thesis
      using "1.IH"(3) by simp
  next
    case 4
    then show ?thesis
      unfolding make_scanner.simps Let_def
      by (intro made_ok_if made_ok_leaf made_ok_Inl) simp_all
  qed
next
  case (5 env name c cs ma)
  then show ?case
    by (simp add: Let_def made_ok_Inl split: option.split)
qed (simp_all add: made_ok_leaf made_ok_Inl)

lemma made_cut_free: "make_scanner env name sp = Inr sc \<Longrightarrow> cut_kind sc \<Longrightarrow> cut_free env sc"
  using make_made_ok(1) [of env name sp] by (simp add: made_ok_def)

section \<open>What an input delivers\<close>

declare read_batch.simps [simp del]

inductive reads :: "env \<Rightarrow> scanned_input \<Rightarrow> bytes list \<Rightarrow> smsg list list \<Rightarrow> scan_err option \<Rightarrow> bool"
  for env where
  reads_end: "read_batch env s cs = (s', cs', Inr None) \<Longrightarrow> reads env s cs [] None"
| reads_error: "read_batch env s cs = (s', cs', Inl e) \<Longrightarrow> reads env s cs [] (Some e)"
| reads_batch: "read_batch env s cs = (s', cs', Inr (Some b)) \<Longrightarrow> reads env s' cs' bs e \<Longrightarrow>
    reads env s cs (b # bs) e"

inductive_cases readsE: "reads env s cs bs e"

lemma reads_unique: "reads env s cs bs e \<Longrightarrow> reads env s cs bs' e' \<Longrightarrow> bs' = bs \<and> e' = e"
proof (induction arbitrary: bs' e' rule: reads.induct)
  case (reads_end s cs s' cs')
  from reads_end(2) show ?case
    by (rule readsE) (simp_all add: reads_end(1))
next
  case (reads_error s cs s' cs' e)
  from reads_error(2) show ?case
    by (rule readsE) (simp_all add: reads_error(1))
next
  case (reads_batch s cs s' cs' b bs e)
  from reads_batch.prems show ?case
  proof (rule readsE)
    fix s2 cs2 b2 bs2
    assume "bs' = b2 # bs2" "read_batch env s cs = (s2, cs2, Inr (Some b2))" "reads env s2 cs2 bs2 e'"
    then show ?thesis
      using reads_batch.hyps(1) reads_batch.IH [of bs2 e'] by simp
  qed (simp_all add: reads_batch.hyps(1))
qed

lemma reads_same: "read_batch env s cs = read_batch env s2 cs2 \<Longrightarrow> reads env s2 cs2 bs e \<Longrightarrow> reads env s cs bs e"
  by (erule readsE) (auto intro: reads.intros)

definition delivers :: "env \<Rightarrow> scanned_input \<Rightarrow> bytes list \<Rightarrow> smsg list \<times> scan_err option \<Rightarrow> bool" where
  "delivers env s cs r \<longleftrightarrow> (\<exists>bs. reads env s cs bs (snd r) \<and> concat bs = fst r \<and>
     (\<forall>b\<in>set bs. 0 < length b \<and> length b \<le> si_batch_size s))"

lemma delivers_ready:
  assumes "0 < si_batch_size s" "delivers env (s\<lparr>si_ready := []\<rparr>) cs r"
  shows "delivers env (s\<lparr>si_ready := ready\<rparr>) cs (ready @ fst r, snd r)"
proof (induction "length ready" arbitrary: ready rule: less_induct)
  case less
  show ?case
  proof (cases "ready = []")
    case True
    then show ?thesis
      using assms(2) by simp
  next
    case False
    let ?k = "min (si_batch_size s) (length ready)"
    have k: "0 < ?k"
      using assms(1) False by simp
    then have "delivers env (s\<lparr>si_ready := drop ?k ready\<rparr>) cs (drop ?k ready @ fst r, snd r)"
      using less [of "drop ?k ready"] False by simp
    then obtain bs where bs: "reads env (s\<lparr>si_ready := drop ?k ready\<rparr>) cs bs (snd r)"
        "concat bs = drop ?k ready @ fst r" "\<forall>b\<in>set bs. 0 < length b \<and> length b \<le> si_batch_size s"
      by (auto simp: delivers_def)
    have "read_batch env (s\<lparr>si_ready := ready\<rparr>) cs =
        (s\<lparr>si_ready := drop ?k ready\<rparr>, cs, Inr (Some (take ?k ready)))"
      using False by (subst read_batch.simps) (simp add: take_ready_def)
    then have "reads env (s\<lparr>si_ready := ready\<rparr>) cs (take ?k ready # bs) (snd r)"
      using bs(1) by (rule reads_batch)
    moreover have "concat (take ?k ready # bs) = ready @ fst r"
      using bs(2) append_take_drop_id [of ?k ready] by simp
    ultimately show ?thesis
      using bs(3) k unfolding delivers_def by (intro exI [of _ "take ?k ready # bs"]) auto
  qed
qed

lemma delivers_eof: "si_eof s \<Longrightarrow> delivers env (s\<lparr>si_ready := []\<rparr>) cs ([], None)"
  unfolding delivers_def
  by (intro exI [of _ "[]"]) (auto intro!: reads_end simp: read_batch.simps)

lemma delivers_scan:
  "0 < n \<Longrightarrow> \<forall>c\<in>set cs. c \<noteq> [] \<Longrightarrow>
   delivers env \<lparr>si_scanner = sc, si_batch_size = n, si_ready = [], si_eof = False\<rparr> cs (scan env cs sc)"
proof (induction cs arbitrary: sc)
  case Nil
  obtain sc' r where F: "finish env sc = (sc', r)"
    by fastforce
  let ?s = "\<lparr>si_scanner = sc, si_batch_size = n, si_ready = [], si_eof = False\<rparr>"
  let ?t = "\<lparr>si_scanner = sc', si_batch_size = n, si_ready = [], si_eof = True\<rparr>"
  show ?case
  proof (cases r)
    case (Inl e)
    then have "read_batch env ?s [] = (?t, [], Inl e)"
      using F by (subst read_batch.simps) simp
    then show ?thesis
      using F Inl unfolding delivers_def by (intro exI [of _ "[]"]) (auto intro: reads_error)
  next
    case (Inr out)
    have "read_batch env ?s [] = read_batch env (?t\<lparr>si_ready := out\<rparr>) []"
      using F Inr by (subst (1 2) read_batch.simps) (simp add: take_ready_def)
    moreover have "delivers env (?t\<lparr>si_ready := out\<rparr>) [] (out, None)"
      using Nil.prems(1) delivers_eof [of ?t env "[]"] delivers_ready [of ?t env "[]" "([], None)" out] by simp
    ultimately show ?thesis
      using F Inr by (auto simp: delivers_def intro: reads_same)
  qed
next
  case (Cons c cs)
  obtain sc' r where F: "feed env sc c = (sc', r)"
    by fastforce
  let ?s = "\<lparr>si_scanner = sc, si_batch_size = n, si_ready = [], si_eof = False\<rparr>"
  let ?t = "\<lparr>si_scanner = sc', si_batch_size = n, si_ready = [], si_eof = False\<rparr>"
  have c: "c \<noteq> []"
    using Cons.prems(2) by simp
  show ?case
  proof (cases r)
    case (Inl e)
    then have "read_batch env ?s (c # cs) = (?t, cs, Inl e)"
      using F c by (subst read_batch.simps) simp
    then show ?thesis
      using F Inl unfolding delivers_def by (intro exI [of _ "[]"]) (auto intro: reads_error)
  next
    case (Inr out)
    have same: "read_batch env ?s (c # cs) = read_batch env (?t\<lparr>si_ready := out\<rparr>) cs"
      using F Inr c by (subst read_batch.simps) simp
    have "delivers env (?t\<lparr>si_ready := []\<rparr>) cs (scan env cs sc')"
      using Cons by simp
    then have "delivers env (?t\<lparr>si_ready := out\<rparr>) cs (out @ fst (scan env cs sc'), snd (scan env cs sc'))"
      using Cons.prems(1) by (intro delivers_ready) auto
    then show ?thesis
      using F Inr reads_same [OF same] by (auto simp: delivers_def)
  qed
qed

section \<open>Byte-order marks\<close>

text \<open>
  \<open>skip_bom\<close> hands its child the stream without the longest mark it begins with, and strips
  no second one.
\<close>

lemma scan_skip_bom:
  assumes "cut_free env i" "\<not> undecided (concat cs)" "snd (scan env [strip_one_mark (concat cs)] i) \<noteq> Some Bare_quote"
  shows "scan env cs (Skip_bom i [] False) = scan env [strip_one_mark (concat cs)] i"
proof -
  have one: "scan env [concat cs] (Skip_bom i [] False) = scan env [strip_one_mark (concat cs)] i"
    using scan_Skip_bom_decide [of "[]" "concat cs" env "[]" i] assms(2) by (simp del: run.simps)
  have "cut_free env (Skip_bom i [] False)"
    using assms(1) undecided_Nil by simp
  then show ?thesis
    using scanner.run_concat [of env "Skip_bom i [] False" cs] one assms(3) by simp
qed

section \<open>Properties\<close>

text \<open>C19: What a scanner built by the factory from the chunker, to_the_end, JSON, csv, skip_bom and
  decompress scanners in any composition delivers, messages and error, does not depend on where the
  reads cut the stream, unless the stream fed whole is refused for a bare quote (how many rows come
  before that error does depend on it, \<open>bad_record_discards_the_rows_before_it\<close>).  The lines,
  re_match and tar scanners are left out (except inside decompress, which feeds them once): the line
  limit, a pattern that could match further, and the padding of an archive member do depend on the
  cut (\<open>line_limit_depends_on_the_cut\<close>, \<open>cut_before_the_padding\<close>).\<close>

theorem delivery_ignores_the_cut:
  assumes "make_scanner env name sp = Inr sc" "cut_kind sc"
    and "snd (scan env [concat cs] sc) \<noteq> Some Bare_quote"
  shows "scan env cs sc = scan env [concat cs] sc"
  by (rule scanner.run_concat [OF made_cut_free [OF assms(1,2)] assms(3)])

definition sample_spec :: "string \<Rightarrow> scanner_spec list \<Rightarrow> bytes list \<Rightarrow> scanner_spec" where
  "sample_spec k ch ma = Scanner_spec k [] 65536 False True False False 2 [97] ''gzip'' False ch ma"

definition bom_csv :: scanner where
  "bom_csv = Skip_bom (Csv (new_csv 44 True False False)) [] False"

theorem delivery_ignores_the_cut_witness:
  "make_scanner sample_env [97] (sample_spec ''switch''
      [sample_spec ''lines'' [] [], sample_spec ''skip_bom'' [sample_spec ''csv'' [] []] []] [[98], []]) = Inr bom_csv \<and>
   scan sample_env [[0xEF], [0xBB, 0xBF, 97, 10], [49, 10, 50]] bom_csv =
     scan sample_env [[0xEF, 0xBB, 0xBF, 97, 10, 49, 10, 50]] bom_csv \<and>
   scan sample_env [[0xEF, 0xBB, 0xBF, 97, 10, 49, 10, 50]] bom_csv =
     ([csv_message [[97]] 0 [[49]], csv_message [[97]] 1 [[50]]], None)"
proof -
  have made: "make_scanner sample_env [97] (sample_spec ''switch''
      [sample_spec ''lines'' [] [], sample_spec ''skip_bom'' [sample_spec ''csv'' [] []] []] [[98], []]) = Inr bom_csv"
    by (simp add: sample_spec_def sample_env_def bom_csv_def make_csv_scanner_def)
  have all: "scan sample_env [[0xEF, 0xBB, 0xBF, 97, 10, 49, 10, 50]] bom_csv =
     ([csv_message [[97]] 0 [[49]], csv_message [[97]] 1 [[50]]], None)"
    by code_simp
  show ?thesis
    using made all delivery_ignores_the_cut [OF made, of "[[0xEF], [0xBB, 0xBF, 97, 10], [49, 10, 50]]"]
    by (simp add: bom_csv_def del: run.simps)
qed

text \<open>C20: Reading an input through its scanner until it ends hands out, in batches of at most
  the batch size and never empty, exactly the messages the scanner delivers for the chunks,
  in order, and ends with the scanner's error or cleanly; the reads always come to an
  end.\<close>

theorem input_delivers_the_scan:
  assumes "0 < n" "\<forall>c\<in>set cs. c \<noteq> []"
  shows "\<exists>bs. reads env \<lparr>si_scanner = sc, si_batch_size = n, si_ready = [], si_eof = False\<rparr> cs bs (snd (scan env cs sc)) \<and>
    concat bs = fst (scan env cs sc) \<and> (\<forall>b\<in>set bs. 0 < length b \<and> length b \<le> n)"
  using delivers_scan [OF assms, of env sc] by (simp add: delivers_def)

theorem input_delivers_the_scan_witness:
  "\<exists>bs. reads sample_env \<lparr>si_scanner = Chunker \<lparr>chunk_buf = [], chunk_size = 2\<rparr>, si_batch_size = 2,
       si_ready = [], si_eof = False\<rparr> [[1, 2, 3], [4, 5, 6, 7]] bs None \<and>
     concat bs = [message [1, 2], message [3, 4], message [5, 6], message [7]] \<and>
     (\<forall>b\<in>set bs. 0 < length b \<and> length b \<le> 2)"
proof -
  have "scan sample_env [[1, 2, 3], [4, 5, 6, 7]] (Chunker \<lparr>chunk_buf = [], chunk_size = 2\<rparr>) =
      ([message [1, 2], message [3, 4], message [5, 6], message [7]], None)"
    by code_simp
  then show ?thesis
    using input_delivers_the_scan [of 2 "[[1, 2, 3], [4, 5, 6, 7]]" sample_env
      "Chunker \<lparr>chunk_buf = [], chunk_size = 2\<rparr>"] by (simp del: run.simps)
qed

end
