(* ===== verification/Replay.thy ===== *)
theory Replay
  imports Prelude "HOL-Library.Multiset"
begin

text \<open>
  \<open>auto_retry_input\<close> of \<open>src/components/io.cc\<close>: every batch read is held until it is
  acknowledged, and a nacked one is offered again.  The state is the one shared between the
  input and the acknowledgements it hands out; the coroutine of \<open>read_batch\<close>, the read it keeps
  in flight, the acknowledgements and the shutdown interleave at the suspension points.  A
  broadcast on the condition variable resumes the coroutine only if it is waiting, so that a
  lost wakeup would be visible.  Payloads are a type parameter: what is handed out is a copy.
\<close>

section \<open>State\<close>

record 'b pending =
  payload :: 'b
  attempts :: nat
  backoff :: nat

definition retry_initial :: nat where "retry_initial = 1000"
definition retry_cap :: nat where "retry_cap = 1000000"

text \<open>
  What a call of \<open>read_batch\<close> returns: a batch with the acknowledgement that resolves the given
  pending entry, the end of the input, or the source's error.
\<close>

datatype 'b answer = Handed 'b nat | Ended | Failed

text \<open>
  Where the coroutine is: not running (with its last answer), about to run its loop, asleep
  before a retry, or waiting for activity.
\<close>

datatype 'b fiber = Idle "'b answer option" | Running | Asleep nat | Waiting

text \<open>
  The pending entries are shared pointers: \<open>heap\<close> maps their addresses, which count the batches
  adopted, to them.  \<open>source_acks\<close> is the history of the calls of the source's own
  acknowledgements, \<open>out\<close> the entries handed out and not resolved, \<open>dropped\<close> those whose retry
  was cut short by the abort, and \<open>history\<close> is what was adopted, in order.
\<close>

record 'b retry_state =
  heap :: "nat \<Rightarrow> 'b pending option"
  next_addr :: nat
  queue :: "nat list"
  adopted :: nat
  reading :: bool
  source_done :: bool
  ready :: "'b option"
  read_err :: bool
  aborted :: bool
  closed :: bool
  fiber :: "'b fiber"
  out :: "nat list"
  dropped :: "nat list"
  source_acks :: "nat list"
  refused :: "'b list"
  history :: "'b list"

definition new_retry :: "'b retry_state" where
  "new_retry = \<lparr>heap = (\<lambda>_. None), next_addr = 0, queue = [], adopted = 0, reading = False,
     source_done = False, ready = None, read_err = False, aborted = False, closed = False,
     fiber = Idle None, out = [], dropped = [], source_acks = [], refused = [], history = []\<rparr>"

definition broadcast :: "'b retry_state \<Rightarrow> 'b retry_state" where
  "broadcast s = (if fiber s = Waiting then s\<lparr>fiber := Running\<rparr> else s)"

definition broken :: "'b retry_state \<Rightarrow> 'b retry_state" where
  "broken s = (if fiber s = Waiting then s\<lparr>fiber := Idle (Some Ended)\<rparr> else s)"

section \<open>The loop of read_batch\<close>

definition hand_out :: "nat \<Rightarrow> 'b retry_state \<Rightarrow> 'b retry_state" where
  "hand_out i s = (case heap s i of
     None \<Rightarrow> s
   | Some p \<Rightarrow> s\<lparr>fiber := Idle (Some (Handed (payload p) i)), out := out s @ [i]\<rparr>)"

text \<open>A retry: the first two attempts are free, the others sleep and then lengthen the pause.\<close>

definition count_attempt :: "'b pending \<Rightarrow> 'b pending" where
  "count_attempt p = p\<lparr>attempts := attempts p + 1\<rparr>"

definition lengthen :: "'b pending \<Rightarrow> 'b pending" where
  "lengthen p = p\<lparr>backoff := min retry_cap (backoff p * 11 div 10)\<rparr>"

definition retry_front :: "'b retry_state \<Rightarrow> 'b retry_state" where
  "retry_front s = (case queue s of
     [] \<Rightarrow> s
   | i # q \<Rightarrow>
       let s = s\<lparr>queue := q, heap := (heap s)(i := map_option count_attempt (heap s i))\<rparr> in
       if (case heap s i of None \<Rightarrow> False | Some p \<Rightarrow> 2 < attempts p)
       then s\<lparr>fiber := Asleep i\<rparr> else hand_out i s)"

definition adopt_ready :: "'b \<Rightarrow> 'b retry_state \<Rightarrow> 'b retry_state" where
  "adopt_ready b s = (let i = next_addr s in
     hand_out i (s\<lparr>ready := None, heap := (heap s)(i \<mapsto> \<lparr>payload = b, attempts = 0, backoff = retry_initial\<rparr>),
       next_addr := i + 1, adopted := adopted s + 1,
       history := history s @ [b]\<rparr>))"

text \<open>
  What the completed read brings: a batch, the end of the source, or an error.
\<close>

datatype 'b read_result = Got 'b | Exhausted | Broke

definition read_done :: "'b read_result \<Rightarrow> 'b retry_state \<Rightarrow> 'b retry_state" where
  "read_done r s = broadcast (let s = s\<lparr>reading := False\<rparr> in case r of
     Got b \<Rightarrow> s\<lparr>ready := Some b\<rparr>
   | Exhausted \<Rightarrow> s\<lparr>source_done := True\<rparr>
   | Broke \<Rightarrow> s\<lparr>read_err := True\<rparr>)"

text \<open>
  \<open>start_read\<close> runs the source until it suspends.  A source that does not suspend completes the read
  inside the call: \<open>sync\<close> is then what it brings.
\<close>

definition start_read :: "'b read_result option \<Rightarrow> 'b retry_state \<Rightarrow> 'b retry_state" where
  "start_read sync s =
     (if reading s \<or> source_done s \<or> closed s then s
      else let s = s\<lparr>reading := True\<rparr>
           in case sync of None \<Rightarrow> s | Some r \<Rightarrow> read_done r s)"

definition nothing_to_do :: "'b retry_state \<Rightarrow> bool" where
  "nothing_to_do s \<longleftrightarrow> queue s = [] \<and> ready s = None \<and> \<not> read_err s \<and> \<not> (source_done s \<and> adopted s = 0)"

text \<open>
  One pass of the loop, up to its next suspension.  A broadcast made inside \<open>start_read\<close> finds nobody
  waiting; the re-check after it sees what the read brought and goes round the loop again.
\<close>

definition pass :: "'b read_result option \<Rightarrow> 'b retry_state \<Rightarrow> 'b retry_state" where
  "pass sync s =
    (if aborted s then s\<lparr>fiber := Idle (Some Ended)\<rparr>
     else if queue s \<noteq> [] then retry_front s
     else case ready s of
       Some b \<Rightarrow> adopt_ready b s
     | None \<Rightarrow>
         if read_err s then s\<lparr>read_err := False, fiber := Idle (Some Failed)\<rparr>
         else if source_done s \<and> adopted s = 0 then s\<lparr>fiber := Idle (Some Ended)\<rparr>
         else let s = start_read sync s in
           if \<not> nothing_to_do s then s else s\<lparr>fiber := Waiting\<rparr>)"

section \<open>Events\<close>

text \<open>The acknowledgement handed out with the entry \<open>i\<close>, called with a failure or not.\<close>

definition resolve :: "nat \<Rightarrow> bool \<Rightarrow> 'b retry_state \<Rightarrow> 'b retry_state" where
  "resolve i failed s = (let s = s\<lparr>out := remove1 i (out s)\<rparr> in
     if failed then broadcast (s\<lparr>queue := queue s @ [i]\<rparr>)
     else (broadcast (s\<lparr>adopted := adopted s - 1\<rparr>))\<lparr>source_acks := source_acks s @ [i]\<rparr>)"

definition wake_retry :: "nat \<Rightarrow> 'b retry_state \<Rightarrow> 'b retry_state" where
  "wake_retry i s = hand_out i (s\<lparr>heap := (heap s)(i := map_option lengthen (heap s i))\<rparr>)"

definition abort_retry :: "nat \<Rightarrow> 'b retry_state \<Rightarrow> 'b retry_state" where
  "abort_retry i s = s\<lparr>fiber := Idle (Some Ended), dropped := dropped s @ [i]\<rparr>"

definition request_abort :: "'b retry_state \<Rightarrow> 'b retry_state" where
  "request_abort s = broken (s\<lparr>aborted := True\<rparr>)"

text \<open>
  \<open>close\<close>: the gate waits for the read in flight, and a read that has landed is nacked.
\<close>

definition close_input :: "'b retry_state \<Rightarrow> 'b retry_state" where
  "close_input s = (let s = broken (s\<lparr>closed := True\<rparr>) in
     case ready s of None \<Rightarrow> s | Some b \<Rightarrow> s\<lparr>ready := None, refused := refused s @ [b]\<rparr>)"

inductive retry_step :: "'b retry_state \<Rightarrow> 'b retry_state \<Rightarrow> bool" where
  call: "fiber s = Idle a \<Longrightarrow> \<not> closed s \<Longrightarrow> retry_step s (s\<lparr>fiber := Running\<rparr>)"
| turn: "fiber s = Running \<Longrightarrow> retry_step s (pass sync s)"
| complete: "reading s \<Longrightarrow> retry_step s (read_done r s)"
| acknowledge: "i \<in> set (out s) \<Longrightarrow> retry_step s (resolve i failed s)"
| awake: "fiber s = Asleep i \<Longrightarrow> retry_step s (wake_retry i s)"
| interrupt: "fiber s = Asleep i \<Longrightarrow> aborted s \<Longrightarrow> retry_step s (abort_retry i s)"
| abort: "retry_step s (request_abort s)"
| close: "fiber s = Idle a \<Longrightarrow> \<not> reading s \<Longrightarrow> \<not> closed s \<Longrightarrow> retry_step s (close_input s)"

inductive retry_reachable :: "'b retry_state \<Rightarrow> bool" where
  start: "retry_reachable new_retry"
| step: "retry_reachable s \<Longrightarrow> retry_step s s' \<Longrightarrow> retry_reachable s'"

section \<open>The invariant\<close>

definition asleep :: "'b retry_state \<Rightarrow> nat list" where
  "asleep s = (case fiber s of Asleep i \<Rightarrow> [i] | _ \<Rightarrow> [])"

text \<open>
  Every batch adopted is in exactly one place; the count is of those not acknowledged; the
  entries hold what was read, with a pause between the bounds; the coroutine waits only when
  there is nothing to do and a read is in flight or something is out.
\<close>

definition places :: "'b retry_state \<Rightarrow> nat multiset" where
  "places s = mset (queue s) + mset (out s) + mset (asleep s) + mset (dropped s) + mset (source_acks s)"

definition entry_ok :: "'b pending \<Rightarrow> bool" where
  "entry_ok p \<longleftrightarrow> retry_initial \<le> backoff p \<and> backoff p \<le> retry_cap"

definition heap_ok :: "(nat \<Rightarrow> 'b pending option) \<Rightarrow> 'b list \<Rightarrow> bool" where
  "heap_ok h bs \<longleftrightarrow> (\<forall>i. case h i of
     None \<Rightarrow> length bs \<le> i
   | Some p \<Rightarrow> i < length bs \<and> entry_ok p \<and> payload p = bs ! i)"

lemma heap_okD: "heap_ok h bs \<Longrightarrow> i < length bs \<Longrightarrow> \<exists>p. h i = Some p \<and> entry_ok p \<and> payload p = bs ! i"
  by (drule heap_ok_def [THEN iffD1, THEN spec, of _ _ i]) (simp split: option.splits)

lemma heap_ok_change:
  assumes "heap_ok h bs" and "\<And>p. entry_ok p \<Longrightarrow> entry_ok (f p) \<and> payload (f p) = payload p"
  shows "heap_ok (h(i := map_option f (h i))) bs"
proof -
  have "case (h(i := map_option f (h i))) j of
      None \<Rightarrow> length bs \<le> j | Some p \<Rightarrow> j < length bs \<and> entry_ok p \<and> payload p = bs ! j" for j
    using assms(1) [unfolded heap_ok_def, THEN spec, of j] assms(2)
    by (cases "h j") auto
  then show ?thesis by (simp add: heap_ok_def)
qed

lemma heap_ok_snoc:
  assumes "heap_ok h bs" and "entry_ok p" and "payload p = b"
  shows "heap_ok (h(length bs \<mapsto> p)) (bs @ [b])"
  using assms by (auto simp: heap_ok_def nth_append split: option.splits)

lemma heap_ok_at:
  assumes "heap_ok h bs" and "h i = Some p"
  shows "i < length bs \<and> entry_ok p \<and> payload p = bs ! i"
  using assms(1) [unfolded heap_ok_def, THEN spec, of i] assms(2) by simp

lemma count_attempt_ok: "entry_ok p \<Longrightarrow> entry_ok (count_attempt p) \<and> payload (count_attempt p) = payload p"
  by (simp add: entry_ok_def count_attempt_def)

lemma lengthen_ok: "entry_ok p \<Longrightarrow> entry_ok (lengthen p) \<and> payload (lengthen p) = payload p"
  by (auto simp: entry_ok_def lengthen_def retry_initial_def retry_cap_def)

definition ended :: "'b retry_state \<Rightarrow> bool" where
  "ended s \<longleftrightarrow> fiber s = Idle (Some Ended)"

definition retry_inv :: "'b retry_state \<Rightarrow> bool" where
  "retry_inv s \<longleftrightarrow>
     places s = mset [0..<next_addr s] \<and>
     adopted s = length (queue s) + length (out s) + length (asleep s) + length (dropped s) \<and>
     heap_ok (heap s) (history s) \<and> length (history s) = next_addr s \<and>
     (\<forall>b i. fiber s = Idle (Some (Handed b i)) \<longrightarrow> i < next_addr s \<and> b = history s ! i) \<and>
     (dropped s \<noteq> [] \<longrightarrow> aborted s) \<and>
     (reading s \<longrightarrow> ready s = None \<and> \<not> read_err s \<and> \<not> source_done s) \<and>
     (source_done s \<longrightarrow> ready s = None \<and> \<not> read_err s) \<and>
     (closed s \<longrightarrow> (\<exists>a. fiber s = Idle a)) \<and>
     (fiber s = Waiting \<longrightarrow> nothing_to_do s \<and> \<not> aborted s \<and> (reading s \<or> source_done s)) \<and>
     (ended s \<and> \<not> aborted s \<longrightarrow> source_done s \<and> adopted s = 0)"

lemmas replay_defs = retry_inv_def places_def asleep_def ended_def broadcast_def broken_def
  nothing_to_do_def hand_out_def

lemma retry_inv_start: "retry_inv new_retry"
  by (simp add: replay_defs new_retry_def heap_ok_def)

text \<open>Every address held somewhere is that of an entry.\<close>

lemma retry_inv_entry:
  assumes I: "retry_inv s" and A: "i \<in># places s"
  shows "i < next_addr s \<and> (\<exists>p. heap s i = Some p \<and> entry_ok p \<and> payload p = history s ! i)"
proof -
  have "i < next_addr s" using I A by (simp add: retry_inv_def)
  then show ?thesis using I heap_okD [of "heap s" "history s" i] by (simp add: retry_inv_def)
qed

lemma retry_inv_retry_front:
  assumes I: "retry_inv s" and R: "fiber s = Running" and C: "\<not> closed s" and Q: "queue s = i # q"
  shows "retry_inv (retry_front s)"
proof -
  have "i \<in># places s" by (simp add: places_def Q)
  then obtain p where l: "i < next_addr s" and p: "heap s i = Some p" "payload p = history s ! i"
    using retry_inv_entry [OF I] by blast
  have e: "payload (count_attempt p) = history s ! i" using p by (simp add: count_attempt_def)
  have "heap_ok (heap s) (history s)" using I by (simp add: retry_inv_def)
  note h = heap_ok_change [OF this count_attempt_ok, of i, unfolded p option.map]
  show ?thesis
    using I R Q l p(1) e h C
    by (simp add: retry_front_def replay_defs Let_def ac_simps)
qed

lemma retry_inv_adopt:
  assumes I: "retry_inv s" and R: "fiber s = Running" and C: "\<not> closed s"
    and Q: "queue s = []" and B: "ready s = Some b"
  shows "retry_inv (adopt_ready b s)"
proof -
  have n: "length (history s) = next_addr s" using I by (simp add: retry_inv_def)
  have "entry_ok \<lparr>payload = b, attempts = 0, backoff = retry_initial\<rparr>"
    by (simp add: entry_ok_def retry_initial_def retry_cap_def)
  moreover have "heap_ok (heap s) (history s)" using I by (simp add: retry_inv_def)
  ultimately have h: "heap_ok ((heap s)(next_addr s \<mapsto> \<lparr>payload = b, attempts = 0, backoff = retry_initial\<rparr>))
    (history s @ [b])"
    using heap_ok_snoc [of "heap s" "history s" _ b] n by simp
  have "\<not> reading s \<and> \<not> source_done s" using I B by (simp add: retry_inv_def)
  then show ?thesis
    using I R Q B h C n nth_append_length [of "history s" b "[]"]
    by (simp add: adopt_ready_def replay_defs Let_def ac_simps)
qed

lemma retry_inv_pass:
  assumes I: "retry_inv s" and R: "fiber s = Running" and C: "\<not> closed s"
  shows "retry_inv (pass sync s)"
proof (cases "aborted s \<or> queue s \<noteq> [] \<or> ready s \<noteq> None")
  case True
  then consider "aborted s" | i q where "\<not> aborted s" "queue s = i # q"
    | b where "\<not> aborted s" "queue s = []" "ready s = Some b"
    by (cases "queue s"; cases "ready s") auto
  then show ?thesis
  proof cases
    case 1
    then show ?thesis using I R by (simp add: pass_def replay_defs)
  next
    case 2
    then show ?thesis using retry_inv_retry_front [OF I R C] by (simp add: pass_def)
  next
    case 3
    then show ?thesis using retry_inv_adopt [OF I R C] by (simp add: pass_def)
  qed
next
  case False
  then show ?thesis
    using I R C
    by (cases sync; cases "the sync") (auto simp add: pass_def start_read_def read_done_def replay_defs Let_def)
qed

lemma retry_inv_read_done:
  assumes I: "retry_inv s" and R: "reading s"
  shows "retry_inv (read_done r s)"
  using I R by (cases "fiber s"; cases r) (auto simp add: read_done_def replay_defs Let_def)

lemma remove1_length:
  assumes "i \<in> set xs" shows "length xs = Suc (length (remove1 i xs))"
  using length_pos_if_in_set [OF assms] assms by (simp add: length_remove1)

lemma retry_inv_resolve:
  assumes I: "retry_inv s" and O: "i \<in> set (out s)"
  shows "retry_inv (resolve i failed s)"
proof -
  have m: "mset (out s) = add_mset i (mset (remove1 i (out s)))" using O by simp
  have l: "length (out s) = Suc (length (remove1 i (out s)))" using O by (rule remove1_length)
  have n: "\<not> (ended s \<and> \<not> aborted s)"
    using I l by (auto simp: retry_inv_def)
  have W: "fiber s = Waiting \<Longrightarrow> \<not> aborted s \<and> \<not> closed s"
    using I by (auto simp: retry_inv_def)
  show ?thesis
    using I n W l m
    by (cases "fiber s = Waiting"; cases failed)
       (auto simp add: resolve_def replay_defs Let_def ac_simps simp del: mset_remove1 split: fiber.splits)
qed

lemma retry_inv_wake:
  assumes I: "retry_inv s" and A: "fiber s = Asleep i"
  shows "retry_inv (wake_retry i s)"
proof -
  have "i \<in># places s" by (simp add: places_def asleep_def A)
  then obtain p where l: "i < next_addr s" and p: "heap s i = Some p" "payload p = history s ! i"
    using retry_inv_entry [OF I] by blast
  have e: "payload (lengthen p) = history s ! i" using p by (simp add: lengthen_def)
  have "heap_ok (heap s) (history s)" using I by (simp add: retry_inv_def)
  note h = heap_ok_change [OF this lengthen_ok, of i, unfolded p option.map]
  show ?thesis
    using I A l p(1) e h by (simp add: wake_retry_def replay_defs ac_simps)
qed

lemma retry_inv_abort_retry:
  assumes I: "retry_inv s" and A: "fiber s = Asleep i" and B: "aborted s"
  shows "retry_inv (abort_retry i s)"
  using I A B by (simp add: abort_retry_def replay_defs ac_simps)

lemma retry_inv_abort:
  assumes I: "retry_inv s" shows "retry_inv (request_abort s)"
  using I by (cases "fiber s") (auto simp add: request_abort_def replay_defs)

lemma retry_inv_close:
  assumes I: "retry_inv s" and A: "fiber s = Idle a"
  shows "retry_inv (close_input s)"
  using I A by (cases "ready s") (auto simp add: close_input_def replay_defs Let_def)

lemma retry_inv_step:
  assumes "retry_step s s'" and I: "retry_inv s" shows "retry_inv s'"
  using assms
proof cases
  case (call a)
  then show ?thesis using I by (simp add: replay_defs)
next
  case turn
  have "\<not> closed s" using I turn by (auto simp: retry_inv_def)
  then show ?thesis using retry_inv_pass [OF I] turn by simp
qed (use I in \<open>simp_all add: retry_inv_read_done retry_inv_resolve retry_inv_wake
       retry_inv_abort_retry retry_inv_abort retry_inv_close\<close>)

lemma retry_inv_reachable: "retry_reachable s \<Longrightarrow> retry_inv s"
  by (induction rule: retry_reachable.induct) (simp_all add: retry_inv_start retry_inv_step)

section \<open>What the replay promises\<close>

lemma ended_owes_nothing:
  assumes I: "retry_inv s" and E: "ended s" and A: "\<not> aborted s"
  shows "mset (source_acks s) = mset [0..<next_addr s] \<and> ready s = None \<and> \<not> reading s"
  using assms by (auto simp add: retry_inv_def places_def)

lemma retry_inv_distinct:
  assumes I: "retry_inv s" shows "distinct (source_acks s) \<and> set (source_acks s) \<subseteq> {..<next_addr s}"
proof -
  have "mset (source_acks s) \<subseteq># mset [0..<next_addr s]"
    using I unfolding retry_inv_def places_def by (metis mset_subset_eq_add_right)
  then obtain ys where "mset (source_acks s @ ys) = mset [0..<next_addr s]"
    by (metis ex_mset mset_append mset_subset_eq_exists_conv)
  then have "distinct (source_acks s @ ys) \<and> set (source_acks s @ ys) = set [0..<next_addr s]"
    by (metis distinct_upt mset_eq_imp_distinct_iff mset_eq_setD)
  then show ?thesis by auto
qed

text \<open>C21:
  Replay loses nothing and acknowledges nothing twice.  Under every interleaving of the loop,
  the read in flight, acknowledgements and the abort, each batch adopted is in exactly one
  place (waiting for a retry, handed out, asleep before its retry, given up because of the
  abort, or acknowledged to the source); the source is acknowledged at most once per batch;
  every offer of a batch is the batch that was read, in whatever attempt; and the end of the
  input is reported, short of an abort, only when every batch read has been acknowledged to
  the source.
\<close>

theorem replay_accounts_for_every_batch:
  assumes "retry_reachable s"
  shows "places s = mset [0..<length (history s)] \<and>
    distinct (source_acks s) \<and>
    (\<forall>b i. fiber s = Idle (Some (Handed b i)) \<longrightarrow> i < length (history s) \<and> b = history s ! i) \<and>
    (dropped s \<noteq> [] \<longrightarrow> aborted s) \<and>
    (fiber s = Idle (Some Ended) \<and> \<not> aborted s \<longrightarrow>
       mset (source_acks s) = mset [0..<length (history s)] \<and> ready s = None \<and> \<not> reading s)"
proof -
  have I: "retry_inv s" by (rule retry_inv_reachable [OF assms])
  show ?thesis
    using I ended_owes_nothing [OF I] retry_inv_distinct [OF I]
    by (simp add: retry_inv_def ended_def del: mset_upt)
qed

text \<open>
  No wakeup is lost: the coroutine waits only when there is nothing it could do (no retry, no
  completed read, no error, not the end), no abort has been requested, and something will wake
  it: a read is in flight, or a batch is out whose acknowledgement is still to come.  When it
  sleeps before a retry, the pause of that entry is between one millisecond and one second.
\<close>

theorem replay_waits_for_something:
  assumes "retry_reachable s"
  shows "(fiber s = Waiting \<longrightarrow> nothing_to_do s \<and> \<not> aborted s \<and> (reading s \<or> out s \<noteq> [])) \<and>
    (\<forall>i. fiber s = Asleep i \<longrightarrow> (\<exists>p. heap s i = Some p \<and> 1000 \<le> backoff p \<and> backoff p \<le> 1000000))"
proof -
  have I: "retry_inv s" by (rule retry_inv_reachable [OF assms])
  have "\<exists>p. heap s i = Some p \<and> entry_ok p" if "fiber s = Asleep i" for i
    using retry_inv_entry [OF I, of i] that by (auto simp: places_def asleep_def)
  moreover have "fiber s = Waiting \<longrightarrow> nothing_to_do s \<and> \<not> aborted s \<and> (reading s \<or> out s \<noteq> [])"
    using I by (auto simp: retry_inv_def nothing_to_do_def asleep_def)
  ultimately show ?thesis by (simp add: entry_ok_def retry_initial_def retry_cap_def)
qed

text \<open>A retry goes before a read that has come back.\<close>

lemma retry_before_new_read:
  assumes "\<not> aborted s" and "queue s = i # q" and "ready s = Some b"
  shows "ready (pass sync s) = Some b \<and> queue (pass sync s) = q \<and> next_addr (pass sync s) = next_addr s"
  using assms by (simp add: pass_def retry_front_def hand_out_def Let_def split: option.split)

text \<open>
  The number \<open>close\<close> warns of.  A batch waiting for a retry is still adopted, so that it is
  counted twice.
\<close>

definition owed :: "'b retry_state \<Rightarrow> nat" where
  "owed s = length (queue s) + adopted s"

lemma owed_counts_queued_twice:
  assumes "retry_inv s"
  shows "owed s = 2 * length (queue s) + length (out s) + length (asleep s) + length (dropped s)"
  using assms by (simp add: retry_inv_def owed_def)

text \<open>
  One batch is read, nacked, offered again and acknowledged; the input then ends.
\<close>

definition read_one :: "nat retry_state" where
  "read_one = pass None (read_done (Got 7) (pass None (new_retry\<lparr>fiber := Running\<rparr>)))"

definition replayed :: "nat retry_state" where
  "replayed = pass None ((resolve 0 True read_one)\<lparr>fiber := Running\<rparr>)"

definition drained :: "nat retry_state" where
  "drained = pass None (read_done Exhausted (pass None ((resolve 0 False replayed)\<lparr>fiber := Running\<rparr>)))"

lemmas replay_eval = new_retry_def pass_def start_read_def read_done_def broadcast_def
  nothing_to_do_def adopt_ready_def hand_out_def resolve_def retry_front_def count_attempt_def
  read_one_def replayed_def drained_def Let_def

text \<open>A source that answers at once: the coroutine does not wait, and the next pass hands the batch out.\<close>

lemma synchronous_read_is_not_missed:
  "fiber (pass (Some (Got b)) (new_retry\<lparr>fiber := Running\<rparr>)) = Running"
  "fiber (pass None (pass (Some (Got b)) (new_retry\<lparr>fiber := Running\<rparr>))) = Idle (Some (Handed b 0))"
  by (simp_all add: replay_eval)

lemma read_one_reachable: "retry_reachable read_one"
proof -
  have "retry_reachable (new_retry\<lparr>fiber := Running\<rparr> :: nat retry_state)"
    by (rule step [OF start call [where a = None]]) (simp_all add: new_retry_def)
  then have "retry_reachable (pass None (new_retry\<lparr>fiber := Running\<rparr> :: nat retry_state))"
    by (rule step) (rule turn, simp)
  then have "retry_reachable (read_done (Got 7) (pass None (new_retry\<lparr>fiber := Running\<rparr>)) :: nat retry_state)"
    by (rule step) (rule complete, simp add: replay_eval)
  then show ?thesis unfolding read_one_def by (rule step) (rule turn, simp add: replay_eval)
qed

lemma replayed_reachable: "retry_reachable replayed"
proof -
  have "retry_reachable (resolve 0 True read_one)"
    by (rule step [OF read_one_reachable acknowledge]) (simp add: replay_eval)
  then have "retry_reachable ((resolve 0 True read_one)\<lparr>fiber := Running\<rparr>)"
    by (rule step) (rule call, simp_all add: replay_eval)
  then show ?thesis unfolding replayed_def by (rule step) (rule turn, simp)
qed

lemma drained_reachable: "retry_reachable drained"
proof -
  have "retry_reachable (resolve 0 False replayed)"
    by (rule step [OF replayed_reachable acknowledge]) (simp add: replay_eval)
  then have "retry_reachable ((resolve 0 False replayed)\<lparr>fiber := Running\<rparr>)"
    by (rule step) (rule call, simp_all add: replay_eval)
  then have "retry_reachable (pass None ((resolve 0 False replayed)\<lparr>fiber := Running\<rparr>))"
    by (rule step) (rule turn, simp)
  then have "retry_reachable (read_done Exhausted (pass None ((resolve 0 False replayed)\<lparr>fiber := Running\<rparr>)))"
    by (rule step) (rule complete, simp add: replay_eval)
  then show ?thesis unfolding drained_def by (rule step) (rule turn, simp add: replay_eval)
qed

lemma replay_accounts_for_every_batch_witness:
  "fiber replayed = Idle (Some (Handed 7 0)) \<and> source_acks replayed = [] \<and>
   fiber drained = Idle (Some Ended) \<and> mset (source_acks drained) = {#0#}"
  using replay_accounts_for_every_batch [OF drained_reachable]
    replay_accounts_for_every_batch [OF replayed_reachable]
  by (simp add: replay_eval)

lemma replay_waits_for_something_witness:
  "reading (pass None (new_retry\<lparr>fiber := Running\<rparr> :: nat retry_state))"
proof -
  have "retry_reachable (new_retry\<lparr>fiber := Running\<rparr> :: nat retry_state)"
    by (rule step [OF start call [where a = None]]) (simp_all add: new_retry_def)
  then have "retry_reachable (pass None (new_retry\<lparr>fiber := Running\<rparr> :: nat retry_state))"
    by (rule step) (rule turn, simp)
  from replay_waits_for_something [OF this] show ?thesis by (simp add: replay_eval)
qed

end
