(* ===== verification/Outputs.thy ===== *)
theory Outputs
  imports Stream Ordered_Map
begin

text \<open>
  \<open>src/components/outputs.cc\<close>: the outputs that hold other outputs.  A tree of them stands over
  sinks, the outputs that do the writing; what a sink answers is chosen by the environment, and a
  batching output (theory \<open>Batched_Output\<close>) is a sink here.  One call of \<open>write_batch\<close> is a
  derivation of \<open>out_write\<close>: the trace of the writes the sinks got and what they answered, children that
  run concurrently interleaved, and the outcome the future carries.
\<close>

section \<open>Messages\<close>

text \<open>The body of a message is opaque; metadata is the ordered map of \<open>message.cc\<close>.\<close>

record ('b, 'v) doc =
  body :: 'b
  meta :: "(bytes, 'v) omap"

type_synonym ('b, 'v) msg = "('b, 'v) doc message"
type_synonym ('b, 'v) msgs = "('b, 'v) msg list"

definition mark :: "failure \<Rightarrow> ('b, 'v) msg \<Rightarrow> ('b, 'v) msg" where
  "mark e m = m\<lparr>msg_error := e\<rparr>"

definition set_meta :: "bytes \<Rightarrow> 'v \<Rightarrow> ('b, 'v) msg \<Rightarrow> ('b, 'v) msg" where
  "set_meta k v m = m\<lparr>content := (content m)\<lparr>meta := om_set k v (meta (content m))\<rparr>\<rparr>"

section \<open>The tree\<close>

text \<open>
  A compiled mapping is what it returns for the message at an index of a batch, or the failure it
  throws; \<open>as_text\<close> is the value of a string, for the metadata.
\<close>

type_synonym ('b, 'v, 'r) mapping_fn = "('b, 'v) msgs \<Rightarrow> nat \<Rightarrow> failure + 'r"
type_synonym ('b, 'v) out_processor = "('b, 'v) msgs \<Rightarrow> failure + ('b, 'v) msgs list"

record ('b, 'v) routing =
  test :: "('b, 'v, bool) mapping_fn option"
  continues :: bool

datatype ('b, 'v) out_tree =
    Sink nat
  | Reject "('b, 'v, bytes) mapping_fn"
  | Retry "('b, 'v) out_tree"
  | Processed bool "('b, 'v) out_processor list" "('b, 'v) out_tree"
  | Fan_out bool "('b, 'v) out_tree list"
  | Round_robin "('b, 'v) out_tree list"
  | Greedy "('b, 'v) out_tree list"
  | Fallback "('b, 'v) out_tree list"
  | Switch bool "(('b, 'v) routing \<times> ('b, 'v) out_tree) list"

text \<open>The factories, with what they refuse.\<close>

definition make_processed_output :: "('b, 'v) out_tree \<Rightarrow> ('b, 'v) out_processor list \<Rightarrow> bool \<Rightarrow> ('b, 'v) out_tree" where
  "make_processed_output inner procs strict = (if procs = [] then inner else Processed strict procs inner)"

definition make_broker_output :: "('b, 'v) out_tree list \<Rightarrow> bytes \<Rightarrow> failure + ('b, 'v) out_tree" where
  "make_broker_output cs pattern =
     (if cs = [] then Inl (str ''output.broker has no outputs to write to'')
      else if pattern = str ''round_robin'' then Inr (Round_robin cs)
      else if pattern = str ''greedy'' then Inr (Greedy cs)
      else Inr (Fan_out (pattern = str ''fan_out_sequential'' \<or>
                         pattern = str ''fan_out_sequential_fail_fast'') cs))"

definition make_fallback_output :: "('b, 'v) out_tree list \<Rightarrow> failure + ('b, 'v) out_tree" where
  "make_fallback_output cs =
     (if cs = [] then Inl (str ''output.fallback has no outputs to write to'') else Inr (Fallback cs))"

definition make_switch_output ::
    "(('b, 'v) routing \<times> ('b, 'v) out_tree) list \<Rightarrow> bool \<Rightarrow> failure + ('b, 'v) out_tree" where
  "make_switch_output cs strict =
     (if cs = [] then Inl (str ''output.switch has no cases to route to'') else Inr (Switch strict cs))"

section \<open>Rejecting\<close>

definition reject_reason :: "('b, 'v, bytes) mapping_fn \<Rightarrow> ('b, 'v) msgs \<Rightarrow> failure" where
  "reject_reason f b =
     (if b = [] then str ''rejected: an empty batch carries no message to render the rejection reason from''
      else case f b 0 of Inr text \<Rightarrow> text
        | Inl e \<Rightarrow> str ''reject message interpolation error: '' @ e)"

section \<open>Retrying\<close>

definition retry_first :: nat where "retry_first = 500"
definition retry_max :: nat where "retry_max = 3000"

definition next_delay :: "nat \<Rightarrow> nat" where
  "next_delay d = min retry_max (d * 3 div 2)"

text \<open>The pause before the attempt that follows \<open>n + 1\<close> failures, in milliseconds.\<close>

fun retry_delay :: "nat \<Rightarrow> nat" where
  "retry_delay 0 = retry_first"
| "retry_delay (Suc n) = next_delay (retry_delay n)"

section \<open>Processors of an output\<close>

fun out_stage :: "bool \<Rightarrow> ('b, 'v) out_processor \<Rightarrow> ('b, 'v) msgs list \<Rightarrow> failure + ('b, 'v) msgs list" where
  "out_stage strict p [] = Inr []"
| "out_stage strict p (cur # bs) =
     (if cur = [] then out_stage strict p bs
      else case p cur of
        Inr out \<Rightarrow> rbind (out_stage strict p bs) (\<lambda>nxt. Inr (filter (\<lambda>ob. ob \<noteq> []) out @ nxt))
      | Inl e \<Rightarrow>
          if strict then Inl e
          else rbind (out_stage strict p bs) (\<lambda>nxt. Inr (map (mark e) cur # nxt)))"

fun first_rejection :: "('b, 'v) msgs list \<Rightarrow> failure option" where
  "first_rejection [] = None"
| "first_rejection (b # bs) = (case strict_rejection b of Some e \<Rightarrow> Some e | None \<Rightarrow> first_rejection bs)"

fun out_processors :: "bool \<Rightarrow> ('b, 'v) out_processor list \<Rightarrow> ('b, 'v) msgs list \<Rightarrow>
    failure + ('b, 'v) msgs list" where
  "out_processors strict [] bs = Inr bs"
| "out_processors strict (p # ps) bs =
     rbind (out_stage strict p bs) (\<lambda>nxt.
       if nxt = [] then Inr []
       else case (if strict then first_rejection nxt else None) of
         Some e \<Rightarrow> Inl e
       | None \<Rightarrow> out_processors strict ps nxt)"

section \<open>Choosing a child\<close>

text \<open>\<open>_next++ % _children.size()\<close>, with the counter a \<open>size_t\<close>.\<close>

definition claim_next :: "64 word \<Rightarrow> nat \<Rightarrow> nat \<times> 64 word" where
  "claim_next next_index n = (unat next_index mod n, next_index + 1)"

section \<open>Routing\<close>

definition passes :: "('b, 'v) routing \<Rightarrow> ('b, 'v) msgs \<Rightarrow> nat \<Rightarrow> bool" where
  "passes c b i = (case test c of
     None \<Rightarrow> True
   | Some f \<Rightarrow> (case f b i of Inr t \<Rightarrow> t | Inl _ \<Rightarrow> False))"

text \<open>The cases one message goes to, in order: up to the first match that does not continue.\<close>

fun cases_of :: "('b, 'v) routing list \<Rightarrow> nat \<Rightarrow> ('b, 'v) msgs \<Rightarrow> nat \<Rightarrow> nat list" where
  "cases_of [] j b i = []"
| "cases_of (c # cs) j b i =
     (if \<not> passes c b i then cases_of cs (Suc j) b i
      else j # (if continues c then cases_of cs (Suc j) b i else []))"

definition push_to :: "'m \<Rightarrow> 'm list list \<Rightarrow> nat \<Rightarrow> 'm list list" where
  "push_to m buckets j = buckets[j := buckets ! j @ [m]]"

fun route :: "bool \<Rightarrow> ('b, 'v) routing list \<Rightarrow> ('b, 'v) msgs \<Rightarrow> nat list \<Rightarrow>
    ('b, 'v) msgs list \<Rightarrow> failure + ('b, 'v) msgs list" where
  "route strict cs b [] buckets = Inr buckets"
| "route strict cs b (i # rest) buckets =
     (let js = cases_of cs 0 b i in
      if js = [] \<and> strict then Inl (str ''no switch output conditions were met by message'')
      else route strict cs b rest (fold (\<lambda>j bs. push_to (b ! i) bs j) js buckets))"

definition route_batch :: "bool \<Rightarrow> ('b, 'v) routing list \<Rightarrow> ('b, 'v) msgs \<Rightarrow> failure + ('b, 'v) msgs list" where
  "route_batch strict cs b = route strict cs b [0..<length b] (replicate (length cs) [])"

section \<open>Writing\<close>

text \<open>Every future is waited for, and the first failure in the order of the children is thrown.\<close>

fun first_error :: "failure option list \<Rightarrow> failure option" where
  "first_error [] = None"
| "first_error (Some e # rs) = Some e"
| "first_error (None # rs) = first_error rs"

type_synonym ('b, 'v) event = "nat \<times> ('b, 'v) msgs \<times> failure option"

fun interleavings :: "'a list list \<Rightarrow> 'a list set" where
  "interleavings [] = {[]}"
| "interleavings (t # ts) = (\<Union>u\<in>interleavings ts. shuffles t u)"

definition fallback_error :: "(bytes \<Rightarrow> 'v) \<Rightarrow> failure \<Rightarrow> ('b, 'v) msgs \<Rightarrow> ('b, 'v) msgs" where
  "fallback_error as_text e = map (set_meta (str ''fallback_error'') (as_text e))"

text \<open>
  \<open>out_writes\<close> is a list of concurrent calls, each with its trace and outcome.  A retry goes on after a
  failure or gives up with it, which it does when the abort is requested.  The counter of a round
  robin is moved by the other writes in flight as well, so that its value is any; a greedy output
  takes whichever child is free.
\<close>

inductive out_write :: "(bytes \<Rightarrow> 'v) \<Rightarrow> ('b, 'v) out_tree \<Rightarrow> ('b, 'v) msgs \<Rightarrow> ('b, 'v) event list \<Rightarrow> failure option \<Rightarrow> bool"
  and out_writes :: "(bytes \<Rightarrow> 'v) \<Rightarrow> (('b, 'v) out_tree \<times> ('b, 'v) msgs) list \<Rightarrow> ('b, 'v) event list list \<Rightarrow> failure option list \<Rightarrow> bool"
  for as_text :: "bytes \<Rightarrow> 'v"
where
  sink: "out_write as_text (Sink l) b [(l, b, r)] r"
| reject: "out_write as_text (Reject f) b [] (Some (reject_reason f b))"
| retry_ok: "out_write as_text c b t None \<Longrightarrow> out_write as_text (Retry c) b t None"
| retry_abort: "out_write as_text c b t (Some e) \<Longrightarrow> out_write as_text (Retry c) b t (Some e)"
| retry_again: "out_write as_text c b t (Some e) \<Longrightarrow> out_write as_text (Retry c) b t' r \<Longrightarrow>
    out_write as_text (Retry c) b (t @ t') r"
| processing_failed: "out_processors strict ps [b] = Inl e \<Longrightarrow> out_write as_text (Processed strict ps c) b [] (Some e)"
| processed: "out_processors strict ps [b] = Inr bs \<Longrightarrow>
    out_writes as_text (map (Pair c) (filter (\<lambda>x. x \<noteq> []) bs)) ts rs \<Longrightarrow> t \<in> interleavings ts \<Longrightarrow>
    out_write as_text (Processed strict ps c) b t (first_error rs)"
| all_written: "out_write as_text (Fan_out True []) b [] None"
| one_failed: "out_write as_text c b t (Some e) \<Longrightarrow> out_write as_text (Fan_out True (c # cs)) b t (Some e)"
| one_written: "out_write as_text c b t None \<Longrightarrow> out_write as_text (Fan_out True cs) b t' r \<Longrightarrow>
    out_write as_text (Fan_out True (c # cs)) b (t @ t') r"
| fan_out: "out_writes as_text (map (\<lambda>c. (c, b)) cs) ts rs \<Longrightarrow> t \<in> interleavings ts \<Longrightarrow>
    out_write as_text (Fan_out False cs) b t (first_error rs)"
| round_robin: "cs \<noteq> [] \<Longrightarrow> out_write as_text (cs ! fst (claim_next n (length cs))) b t r \<Longrightarrow>
    out_write as_text (Round_robin cs) b t r"
| greedy: "i < length cs \<Longrightarrow> out_write as_text (cs ! i) b t r \<Longrightarrow> out_write as_text (Greedy cs) b t r"
| no_tier: "out_write as_text (Fallback []) b [] (Some (str ''fallback output has no outputs to write to''))"
| tier_ok: "out_write as_text c b t None \<Longrightarrow> out_write as_text (Fallback (c # cs)) b t None"
| last_tier: "out_write as_text c b t (Some e) \<Longrightarrow> out_write as_text (Fallback [c]) b t (Some e)"
| next_tier: "out_write as_text c b t (Some e) \<Longrightarrow> cs \<noteq> [] \<Longrightarrow>
    out_write as_text (Fallback cs) (fallback_error as_text e b) t' r \<Longrightarrow>
    out_write as_text (Fallback (c # cs)) b (t @ t') r"
| unrouted: "route_batch strict (map fst cs) b = Inl e \<Longrightarrow> out_write as_text (Switch strict cs) b [] (Some e)"
| routed: "route_batch strict (map fst cs) b = Inr buckets \<Longrightarrow>
    out_writes as_text (filter (\<lambda>j. snd j \<noteq> []) (zip (map snd cs) buckets)) ts rs \<Longrightarrow> t \<in> interleavings ts \<Longrightarrow>
    out_write as_text (Switch strict cs) b t (first_error rs)"
| no_writes: "out_writes as_text [] [] []"
| more_writes: "out_write as_text c b t r \<Longrightarrow> out_writes as_text jobs ts rs \<Longrightarrow>
    out_writes as_text ((c, b) # jobs) (t # ts) (r # rs)"

section \<open>Writes in flight\<close>

text \<open>
  How many unresolved writes a tree asks the stream for, from what the sinks ask for.
\<close>

fun max_in_flight :: "(nat \<Rightarrow> nat) \<Rightarrow> ('b, 'v) out_tree \<Rightarrow> nat" where
  "max_in_flight needs (Sink l) = needs l"
| "max_in_flight needs (Reject f) = 1"
| "max_in_flight needs (Retry c) = max_in_flight needs c"
| "max_in_flight needs (Processed strict ps c) = max_in_flight needs c"
| "max_in_flight needs (Fan_out s cs) = fold (\<lambda>c n. max n (max_in_flight needs c)) cs 1"
| "max_in_flight needs (Round_robin cs) = length cs"
| "max_in_flight needs (Greedy cs) = length cs"
| "max_in_flight needs (Fallback cs) = fold (\<lambda>c n. max n (max_in_flight needs c)) cs 1"
| "max_in_flight needs (Switch s cs) = fold (\<lambda>c n. max n (max_in_flight needs (snd c))) cs 1"

section \<open>What the routing computes\<close>

definition goes_to :: "('b, 'v) routing list \<Rightarrow> ('b, 'v) msgs \<Rightarrow> nat \<Rightarrow> nat \<Rightarrow> bool" where
  "goes_to cs b i j \<longleftrightarrow> j < length cs \<and> passes (cs ! j) b i \<and>
     (\<forall>k. k < j \<and> passes (cs ! k) b i \<longrightarrow> continues (cs ! k))"

definition bucket :: "('b, 'v) routing list \<Rightarrow> ('b, 'v) msgs \<Rightarrow> nat \<Rightarrow> ('b, 'v) msgs" where
  "bucket cs b j = map ((!) b) (filter (\<lambda>i. goes_to cs b i j) [0..<length b])"

lemma goes_to_Nil [simp]: "\<not> goes_to [] b i j"
  by (simp add: goes_to_def)

lemma goes_to_0 [simp]: "goes_to (c # cs) b i 0 \<longleftrightarrow> passes c b i"
  by (simp add: goes_to_def)

lemma goes_to_Suc [simp]:
  "goes_to (c # cs) b i (Suc j) \<longleftrightarrow> (passes c b i \<longrightarrow> continues c) \<and> goes_to cs b i j"
  by (auto simp: goes_to_def nth_Cons split: nat.splits)

lemma cases_of_eq: "cases_of cs j b i = map ((+) j) (filter (goes_to cs b i) [0..<length cs])"
proof (induction cs arbitrary: j)
  case (Cons c cs)
  have "[0..<length (c # cs)] = 0 # map Suc [0..<length cs]"
    by (simp add: upt_conv_Cons map_Suc_upt del: upt_Suc)
  then show ?case
    by (simp add: Cons filter_map comp_def)
qed simp

lemma push_all:
  assumes "distinct js" and "\<forall>j\<in>set js. j < length buckets"
  shows "length (fold (\<lambda>j bs. push_to m bs j) js buckets) = length buckets \<and>
    (\<forall>k. k < length buckets \<longrightarrow> fold (\<lambda>j bs. push_to m bs j) js buckets ! k =
       (if k \<in> set js then buckets ! k @ [m] else buckets ! k))"
  using assms
  by (induction js arbitrary: buckets) (auto simp: push_to_def nth_list_update)

lemma route_eq:
  assumes "length buckets = length cs"
  shows "route strict cs b is' buckets =
    (if strict \<and> (\<exists>i\<in>set is'. \<forall>j. \<not> goes_to cs b i j)
     then Inl (str ''no switch output conditions were met by message'')
     else Inr (map (\<lambda>j. buckets ! j @ map ((!) b) (filter (\<lambda>i. goes_to cs b i j) is')) [0..<length cs]))"
  using assms
proof (induction is' arbitrary: buckets)
  case Nil
  then show ?case using map_nth [of buckets] by simp
next
  case (Cons i rest)
  let ?js = "filter (goes_to cs b i) [0..<length cs]"
  let ?new = "fold (\<lambda>j bs. push_to (b ! i) bs j) ?js buckets"
  have P: "length ?new = length buckets \<and>
    (\<forall>k. k < length buckets \<longrightarrow> ?new ! k = (if k \<in> set ?js then buckets ! k @ [b ! i] else buckets ! k))"
    by (rule push_all) (use Cons.prems in auto)
  have js: "cases_of cs 0 b i = ?js" by (simp add: cases_of_eq map_idI)
  have none: "?js = [] \<longleftrightarrow> (\<forall>j. \<not> goes_to cs b i j)"
    by (auto simp: filter_empty_conv goes_to_def)
  have b: "?new ! j @ map ((!) b) (filter (\<lambda>i. goes_to cs b i j) rest) =
      buckets ! j @ map ((!) b) (filter (\<lambda>i. goes_to cs b i j) (i # rest))" if "j < length cs" for j
    using P Cons.prems that by (cases "goes_to cs b i j") simp_all
  show ?case
  proof (cases "strict \<and> (\<forall>j. \<not> goes_to cs b i j)")
    case True
    then show ?thesis by (simp add: js none)
  next
    case False
    then have "route strict cs b (i # rest) buckets = route strict cs b rest ?new"
      by (simp only: route.simps js none Let_def) (simp only: if_False conj_commute)
    moreover have "length ?new = length cs" using P Cons.prems by simp
    moreover have "(strict \<and> (\<exists>i\<in>set (i # rest). \<forall>j. \<not> goes_to cs b i j)) =
        (strict \<and> (\<exists>i\<in>set rest. \<forall>j. \<not> goes_to cs b i j))"
      using False by (simp add: list.set(2)) blast
    moreover have "map (\<lambda>j. ?new ! j @ map ((!) b) (filter (\<lambda>i. goes_to cs b i j) rest)) [0..<length cs] =
        map (\<lambda>j. buckets ! j @ map ((!) b) (filter (\<lambda>i. goes_to cs b i j) (i # rest))) [0..<length cs]"
      by (rule map_cong) (simp_all only: b set_upt atLeastLessThan_iff)
    ultimately show ?thesis using Cons.IH [of ?new] by (simp only:)
  qed
qed

lemma route_batch_eq:
  "route_batch strict cs b =
    (if strict \<and> (\<exists>i<length b. \<forall>j. \<not> goes_to cs b i j)
     then Inl (str ''no switch output conditions were met by message'')
     else Inr (map (bucket cs b) [0..<length cs]))"
  unfolding route_batch_def by (subst route_eq) (auto simp: bucket_def)

section \<open>What a successful write has delivered\<close>

lemma size_child: "c \<in> set cs \<Longrightarrow> size c \<le> size_list size cs"
  by (rule size_list_estimation') auto

lemma size_case: "j < length cs \<Longrightarrow> size (snd (cs ! j)) \<le> size_list (size_prod (\<lambda>x. 0) size) cs"
  by (rule size_list_estimation' [where x = "cs ! j"]) (auto simp: size_prod_simp)

function delivered :: "(bytes \<Rightarrow> 'v) \<Rightarrow> ('b, 'v) out_tree \<Rightarrow> ('b, 'v) msgs \<Rightarrow> ('b, 'v) event list \<Rightarrow> bool" where
  "delivered as_text (Sink l) b t \<longleftrightarrow> (l, b, None) \<in> set t"
| "delivered as_text (Reject f) b t \<longleftrightarrow> False"
| "delivered as_text (Retry c) b t \<longleftrightarrow> delivered as_text c b t"
| "delivered as_text (Processed strict ps c) b t \<longleftrightarrow>
     (\<exists>bs. out_processors strict ps [b] = Inr bs \<and> (\<forall>x\<in>set bs. x \<noteq> [] \<longrightarrow> delivered as_text c x t))"
| "delivered as_text (Fan_out s cs) b t \<longleftrightarrow> (\<forall>c\<in>set cs. delivered as_text c b t)"
| "delivered as_text (Round_robin cs) b t \<longleftrightarrow> (\<exists>c\<in>set cs. delivered as_text c b t)"
| "delivered as_text (Greedy cs) b t \<longleftrightarrow> (\<exists>c\<in>set cs. delivered as_text c b t)"
| "delivered as_text (Fallback []) b t \<longleftrightarrow> False"
| "delivered as_text (Fallback (c # cs)) b t \<longleftrightarrow> delivered as_text c b t \<or>
     (\<exists>e. \<exists>d\<in>set cs. delivered as_text d (fallback_error as_text e b) t)"
| "delivered as_text (Switch s cs) b t \<longleftrightarrow>
     (\<forall>j<length cs. bucket (map fst cs) b j \<noteq> [] \<longrightarrow>
        delivered as_text (snd (cs ! j)) (bucket (map fst cs) b j) t)"
  by pat_completeness auto
termination
  by (relation "measure (\<lambda>(_, c, _, _). size c)") (auto dest: size_child size_case)

lemma delivered_mono: "delivered as_text c b t \<Longrightarrow> set t \<subseteq> set t' \<Longrightarrow> delivered as_text c b t'"
proof (induction as_text c b t rule: delivered.induct)
  case (4 as_text strict ps c b t)
  then show ?case by auto
next
  case (9 as_text c cs b t)
  then show ?case unfolding delivered.simps by blast
next
  case (10 as_text s cs b t)
  then show ?case by auto
qed auto

lemma set_interleavings: "t \<in> interleavings ts \<Longrightarrow> set t = (\<Union>u\<in>set ts. set u)"
  by (induction ts arbitrary: t) (auto simp: set_shuffles)

lemma first_error_None: "first_error rs = None \<longleftrightarrow> (\<forall>r\<in>set rs. r = None)"
  by (induction rs rule: first_error.induct) auto

lemma first_error_Some: "first_error rs = Some e \<Longrightarrow> Some e \<in> set rs"
  by (induction rs rule: first_error.induct) auto

text \<open>A later failure replaces the annotation of an earlier one.\<close>

lemma om_set_again [simp]: "om_set k v (om_set k w e) = om_set k v e"
  by (induction e) auto

lemma fallback_error_again [simp]:
  "fallback_error as_text e (fallback_error as_text e' b) = fallback_error as_text e b"
  by (simp add: fallback_error_def set_meta_def)

lemma out_write_delivers:
  fixes c :: "('b, 'v) out_tree" and jobs :: "(('b, 'v) out_tree \<times> ('b, 'v) msgs) list"
  shows "out_write as_text c b t r \<Longrightarrow> r = None \<Longrightarrow> delivered as_text c b t"
  "out_writes as_text jobs ts rs \<Longrightarrow> \<forall>r\<in>set rs. r = None \<Longrightarrow>
     \<forall>(c, b)\<in>set jobs. \<exists>t\<in>set ts. delivered as_text c b t"
proof (induction rule: out_write_out_writes.inducts)
  case (processed strict ps b bs c ts rs t)
  have "\<forall>(c, b)\<in>set (map (Pair c) (filter (\<lambda>x. x \<noteq> []) bs)). \<exists>t\<in>set ts. delivered as_text c b t"
    using processed by (simp add: first_error_None)
  then have "delivered as_text c x t" if "x \<in> set bs" "x \<noteq> []" for x
    using that delivered_mono [of as_text c x _ t] set_interleavings [OF processed.hyps(2)] by fastforce
  then show ?case using processed.hyps(1) by simp
next
  case (fan_out b cs ts rs t)
  have "\<forall>(c, b)\<in>set (map (\<lambda>c. (c, b)) cs). \<exists>t\<in>set ts. delivered as_text c b t"
    using fan_out by (simp add: first_error_None)
  then have "delivered as_text c b t" if "c \<in> set cs" for c
    using that delivered_mono [of as_text c b _ t] set_interleavings [OF fan_out.hyps(1)] by fastforce
  then show ?case by simp
next
  case (routed strict cs b buckets ts rs t)
  have bk: "buckets = map (bucket (map fst cs) b) [0..<length cs]"
    using routed.hyps(1) by (simp add: route_batch_eq split: if_splits)
  have "delivered as_text (snd (cs ! j)) (bucket (map fst cs) b j) t"
    if "j < length cs" "bucket (map fst cs) b j \<noteq> []" for j
  proof -
    have "(snd (cs ! j), bucket (map fst cs) b j) \<in> set (zip (map snd cs) buckets)"
      using that(1) by (auto simp: set_zip bk intro!: exI [of _ j])
    then have "(snd (cs ! j), bucket (map fst cs) b j) \<in>
        set (filter (\<lambda>j. snd j \<noteq> []) (zip (map snd cs) buckets))"
      using that(2) by simp
    moreover have "\<forall>(c, b)\<in>set (filter (\<lambda>j. snd j \<noteq> []) (zip (map snd cs) buckets)).
        \<exists>t\<in>set ts. delivered as_text c b t"
      using routed by (simp add: first_error_None)
    ultimately obtain u where "u \<in> set ts" "delivered as_text (snd (cs ! j)) (bucket (map fst cs) b j) u"
      by blast
    then show ?thesis
      using delivered_mono [of as_text _ _ u t] set_interleavings [OF routed.hyps(2)] by blast
  qed
  then show ?case by simp
next
  case (one_written c b t cs t' r)
  then have "delivered as_text c b (t @ t')" and "delivered as_text (Fan_out True cs) b (t @ t')"
    using delivered_mono [of as_text c b t "t @ t'"]
      delivered_mono [of as_text "Fan_out True cs" b t' "t @ t'"] by auto
  then show ?case by simp
next
  case (round_robin cs n b t r)
  then show ?case by (auto simp: claim_next_def intro!: bexI [of _ "cs ! (unat n mod length cs)"])
next
  case (next_tier c b t e cs t' r)
  have "delivered as_text (Fallback cs) (fallback_error as_text e b) (t @ t')"
    using next_tier delivered_mono [of as_text "Fallback cs" _ t' "t @ t'"] by auto
  then show ?case by (cases cs) auto
next
  case (retry_again c b t e t' r)
  then show ?case using delivered_mono [of as_text c b t' "t @ t'"] by auto
qed (auto simp: first_error_None)

section \<open>What is written at all, and where a failure comes from\<close>

text \<open>The calls of \<open>write_batch\<close> below a call, with the batches they are given.\<close>

inductive offered :: "(bytes \<Rightarrow> 'v) \<Rightarrow> ('b, 'v) out_tree \<Rightarrow> ('b, 'v) msgs \<Rightarrow> ('b, 'v) out_tree \<Rightarrow> ('b, 'v) msgs \<Rightarrow> bool"
  for as_text :: "bytes \<Rightarrow> 'v"
where
  itself: "offered as_text c b c b"
| below_retry: "offered as_text c b d x \<Longrightarrow> offered as_text (Retry c) b d x"
| below_processors: "out_processors strict ps [b] = Inr bs \<Longrightarrow> y \<in> set bs \<Longrightarrow> y \<noteq> [] \<Longrightarrow>
    offered as_text c y d x \<Longrightarrow> offered as_text (Processed strict ps c) b d x"
| below_fan_out: "c \<in> set cs \<Longrightarrow> offered as_text c b d x \<Longrightarrow> offered as_text (Fan_out s cs) b d x"
| below_round_robin: "c \<in> set cs \<Longrightarrow> offered as_text c b d x \<Longrightarrow> offered as_text (Round_robin cs) b d x"
| below_greedy: "c \<in> set cs \<Longrightarrow> offered as_text c b d x \<Longrightarrow> offered as_text (Greedy cs) b d x"
| first_tier: "offered as_text c b d x \<Longrightarrow> offered as_text (Fallback (c # cs)) b d x"
| later_tier: "c' \<in> set cs \<Longrightarrow> offered as_text c' (fallback_error as_text e b) d x \<Longrightarrow>
    offered as_text (Fallback (c # cs)) b d x"
| below_switch: "j < length cs \<Longrightarrow> bucket (map fst cs) b j \<noteq> [] \<Longrightarrow>
    offered as_text (snd (cs ! j)) (bucket (map fst cs) b j) d x \<Longrightarrow> offered as_text (Switch s cs) b d x"

text \<open>The failures a composite raises itself.\<close>

fun raises :: "('b, 'v) out_tree \<Rightarrow> ('b, 'v) msgs \<Rightarrow> failure \<Rightarrow> bool" where
  "raises (Reject f) b e \<longleftrightarrow> e = reject_reason f b"
| "raises (Processed strict ps c) b e \<longleftrightarrow> strict \<and> out_processors strict ps [b] = Inl e"
| "raises (Switch strict cs) b e \<longleftrightarrow> strict \<and> (\<exists>i<length b. \<forall>j. \<not> goes_to (map fst cs) b i j) \<and>
     e = str ''no switch output conditions were met by message''"
| "raises (Fallback []) b e \<longleftrightarrow> e = str ''fallback output has no outputs to write to''"
| "raises c b e \<longleftrightarrow> False"

lemma out_stage_lenient: "\<exists>bs'. out_stage False p bs = Inr bs'"
  by (induction bs) (auto split: sum.splits)

lemma out_processors_lenient: "\<exists>bs'. out_processors False ps bs = Inr bs'"
proof (induction ps arbitrary: bs)
  case (Cons p ps)
  obtain nxt where "out_stage False p bs = Inr nxt" using out_stage_lenient by blast
  then show ?case using Cons [of nxt] by simp
qed simp

definition accounted :: "(bytes \<Rightarrow> 'v) \<Rightarrow> ('b, 'v) out_tree \<Rightarrow> ('b, 'v) msgs \<Rightarrow> ('b, 'v) event list \<Rightarrow> failure option \<Rightarrow> bool" where
  "accounted as_text c b t r \<longleftrightarrow>
     (\<forall>(l, x, q)\<in>set t. offered as_text c b (Sink l) x) \<and>
     (\<forall>e. r = Some e \<longrightarrow> (\<exists>l x. (l, x, Some e) \<in> set t) \<or> (\<exists>d x. offered as_text c b d x \<and> raises d x e))"

lemma accounted_lift:
  assumes "accounted as_text c y t r" and "\<And>d x. offered as_text c y d x \<Longrightarrow> offered as_text c' b d x"
  shows "accounted as_text c' b t r"
  using assms(1) unfolding accounted_def by (blast intro: assms(2))

lemma accounted_append:
  assumes "accounted as_text c b t (Some e)" and "accounted as_text c b t' r"
  shows "accounted as_text c b (t @ t') r"
  using assms unfolding accounted_def set_append by blast

lemma accounted_append_ok:
  assumes "accounted as_text c b t None" and "accounted as_text c b t' r"
  shows "accounted as_text c b (t @ t') r"
  using assms unfolding accounted_def set_append by blast

lemma accounted_join:
  assumes "length ts = length rs" and "\<And>k. k < length rs \<Longrightarrow> accounted as_text c b (ts ! k) (rs ! k)"
    and "t \<in> interleavings ts"
  shows "accounted as_text c b t (first_error rs)"
proof -
  have T: "set t = (\<Union>u\<in>set ts. set u)" by (rule set_interleavings [OF assms(3)])
  have "offered as_text c b (Sink l) x" if "(l, x, q) \<in> set t" for l x q
  proof -
    have "(l, x, q) \<in> (\<Union>u\<in>set ts. set u)" using that by (simp only: T)
    then obtain u where "u \<in> set ts" and u: "(l, x, q) \<in> set u" by (rule UN_E)
    then obtain k where "k < length ts" "ts ! k = u" unfolding in_set_conv_nth by blast
    then have "k < length ts" "(l, x, q) \<in> set (ts ! k)" using u by simp_all
    then have "accounted as_text c b (ts ! k) (rs ! k)" using assms(1,2) by simp
    then show ?thesis using \<open>(l, x, q) \<in> set (ts ! k)\<close> unfolding accounted_def by blast
  qed
  moreover have "(\<exists>l x. (l, x, Some e) \<in> set t) \<or> (\<exists>d x. offered as_text c b d x \<and> raises d x e)"
    if E: "first_error rs = Some e" for e
  proof -
    obtain k where k: "k < length rs" "rs ! k = Some e"
      using first_error_Some [OF E] by (auto simp: in_set_conv_nth)
    then have "set (ts ! k) \<subseteq> set t" using assms(1) unfolding T by (intro UN_upper) simp
    moreover have "(\<exists>l x. (l, x, Some e) \<in> set (ts ! k)) \<or> (\<exists>d x. offered as_text c b d x \<and> raises d x e)"
      using assms(2) [OF k(1)] k(2) unfolding accounted_def by simp
    ultimately show ?thesis by blast
  qed
  ultimately show ?thesis unfolding accounted_def by auto
qed

lemma accounted_later_tier:
  assumes "accounted as_text (Fallback cs) (fallback_error as_text e b) t r" and "cs \<noteq> []"
  shows "accounted as_text (Fallback (c # cs)) b t r"
proof -
  have L: "offered as_text (Fallback (c # cs)) b d x"
    if "offered as_text (Fallback cs) (fallback_error as_text e b) d x" and "d \<noteq> Fallback cs" for d x
    using that(1) by cases (use that(2) in \<open>auto intro: later_tier\<close>)
  have "\<not> raises (Fallback cs) x f" for x f
    using assms(2) by (cases cs) auto
  then show ?thesis using assms(1) L unfolding accounted_def by fastforce
qed

lemma out_write_accounted:
  fixes c :: "('b, 'v) out_tree" and jobs :: "(('b, 'v) out_tree \<times> ('b, 'v) msgs) list"
  shows "out_write as_text c b t r \<Longrightarrow> accounted as_text c b t r"
  "out_writes as_text jobs ts rs \<Longrightarrow> length ts = length jobs \<and> length rs = length jobs \<and>
     (\<forall>k<length jobs. accounted as_text (fst (jobs ! k)) (snd (jobs ! k)) (ts ! k) (rs ! k))"
proof (induction rule: out_write_out_writes.inducts)
  case (sink l b r)
  then show ?case by (auto simp: accounted_def intro: itself)
next
  case (reject f b)
  then show ?case by (auto simp: accounted_def intro!: itself exI)
next
  case (retry_ok c b t)
  then show ?case by (auto intro: accounted_lift below_retry)
next
  case (retry_abort c b t e)
  then show ?case by (auto intro: accounted_lift below_retry)
next
  case (retry_again c b t e t' r)
  have "accounted as_text (Retry c) b t (Some e)"
    using \<open>accounted as_text c b t (Some e)\<close> by (auto intro: accounted_lift below_retry)
  then show ?case using \<open>accounted as_text (Retry c) b t' r\<close> by (rule accounted_append)
next
  case (processing_failed strict ps b e c)
  then have "strict" using out_processors_lenient [of ps "[b]"] by (cases strict) auto
  then show ?case using processing_failed
    by (auto simp: accounted_def intro!: exI [of _ "Processed strict ps c"] exI [of _ b] itself)
next
  case (processed strict ps b bs c ts rs t)
  show ?case
  proof (rule accounted_join [OF _ _ processed.hyps(2)])
    show "length ts = length rs" using processed.IH by simp
    fix k assume k: "k < length rs"
    let ?xs = "filter (\<lambda>x. x \<noteq> []) bs"
    have "?xs ! k \<in> set ?xs" using k processed.IH by (intro nth_mem) simp
    then have "?xs ! k \<in> set bs" "?xs ! k \<noteq> []" by auto
    moreover have "accounted as_text c (?xs ! k) (ts ! k) (rs ! k)"
      using k processed.IH by auto
    ultimately show "accounted as_text (Processed strict ps c) b (ts ! k) (rs ! k)"
      by (auto intro: accounted_lift below_processors [OF processed.hyps(1)])
  qed
next
  case (one_failed c b t e cs)
  show ?case
    by (rule accounted_lift [OF \<open>accounted as_text c b t (Some e)\<close>]) (rule below_fan_out, simp_all)
next
  case (one_written c b t cs t' r)
  have "accounted as_text (Fan_out True (c # cs)) b t None"
    by (rule accounted_lift [OF \<open>accounted as_text c b t None\<close>]) (rule below_fan_out, simp_all)
  moreover have "accounted as_text (Fan_out True (c # cs)) b t' r"
  proof -
    have L: "offered as_text (Fan_out True (c # cs)) b d x"
      if "offered as_text (Fan_out True cs) b d x" "d \<noteq> Fan_out True cs" for d x
      using that(1) by cases (use that(2) in \<open>auto intro: below_fan_out\<close>)
    have "\<not> raises (Fan_out True cs) x f" for x :: "('b, 'v) msgs" and f by simp
    then show ?thesis using \<open>accounted as_text (Fan_out True cs) b t' r\<close> L unfolding accounted_def by fastforce
  qed
  ultimately show ?case by (rule accounted_append_ok)
next
  case (fan_out b cs ts rs t)
  show ?case
  proof (rule accounted_join [OF _ _ fan_out.hyps(1)])
    show "length ts = length rs" using fan_out.IH by simp
    fix k assume "k < length rs"
    then have "accounted as_text (cs ! k) b (ts ! k) (rs ! k)" and "cs ! k \<in> set cs"
      using fan_out.IH by auto
    then show "accounted as_text (Fan_out False cs) b (ts ! k) (rs ! k)"
      by (blast intro: accounted_lift below_fan_out)
  qed
next
  case (round_robin cs n b t r)
  have "cs ! fst (claim_next n (length cs)) \<in> set cs"
    using \<open>cs \<noteq> []\<close> by (simp add: claim_next_def)
  then show ?case
    using \<open>accounted as_text (cs ! fst (claim_next n (length cs))) b t r\<close>
    by (blast intro: accounted_lift below_round_robin)
next
  case (greedy i cs b t r)
  then have "cs ! i \<in> set cs" by simp
  then show ?case using \<open>accounted as_text (cs ! i) b t r\<close>
    by (blast intro: accounted_lift below_greedy)
next
  case (no_tier b)
  then show ?case by (auto simp: accounted_def intro!: exI [of _ "Fallback []"] itself)
next
  case (tier_ok c b t cs)
  then show ?case by (auto intro: accounted_lift first_tier)
next
  case (last_tier c b t e)
  then show ?case by (auto intro: accounted_lift first_tier)
next
  case (next_tier c b t e cs t' r)
  have "accounted as_text (Fallback (c # cs)) b t (Some e)"
    using \<open>accounted as_text c b t (Some e)\<close> by (auto intro: accounted_lift first_tier)
  then show ?case
    by (rule accounted_append) (rule accounted_later_tier
      [OF \<open>accounted as_text (Fallback cs) (fallback_error as_text e b) t' r\<close> \<open>cs \<noteq> []\<close>])
next
  case (unrouted strict cs b e)
  then show ?case
    by (auto simp: accounted_def route_batch_eq split: if_splits intro!: exI [of _ "Switch strict cs"] exI [of _ b] itself)
next
  case (routed strict cs b buckets ts rs t)
  have bk: "buckets = map (bucket (map fst cs) b) [0..<length cs]"
    using routed.hyps(1) by (simp add: route_batch_eq split: if_splits)
  let ?js = "filter (\<lambda>j. snd j \<noteq> []) (zip (map snd cs) buckets)"
  show ?case
  proof (rule accounted_join [OF _ _ routed.hyps(2)])
    show "length ts = length rs" using routed.IH by simp
    fix k assume k: "k < length rs"
    have "?js ! k \<in> set ?js" using k routed.IH by (intro nth_mem) simp
    then obtain j where "j < length cs" "?js ! k = (snd (cs ! j), bucket (map fst cs) b j)"
      "bucket (map fst cs) b j \<noteq> []"
      by (auto simp: set_zip bk)
    moreover have "accounted as_text (fst (?js ! k)) (snd (?js ! k)) (ts ! k) (rs ! k)"
      using k routed.IH by auto
    ultimately show "accounted as_text (Switch strict cs) b (ts ! k) (rs ! k)"
      by (auto intro: accounted_lift below_switch)
  qed
next
  case (more_writes c b t r jobs ts rs)
  then show ?case by (auto simp: nth_Cons split: nat.splits)
qed (auto simp: accounted_def)

section \<open>The properties of the tree\<close>

text \<open>C24:
  An output that resolves without a failure has delivered.  Whatever the sinks answer and however
  concurrent children interleave, when the write of a tree succeeds its trace holds the successful
  writes its configuration asks for: every child of a fan-out, one child of a round robin or greedy
  output, a tier of a fallback (behind the first, with the reason of the failure in the metadata),
  every non-empty batch the processors left, and for a switch every case with exactly the messages,
  in order, whose checks lead to it; a rejecting output never succeeds.
\<close>

theorem successful_write_delivers:
  assumes "out_write as_text c b t None"
  shows "delivered as_text c b t"
  using out_write_delivers(1) [OF assms] by simp

text \<open>
  Nothing else is written, and failures are not invented.  Every write a sink gets, successful or
  not, is of a batch that the tree offers it (a tier behind the first only an annotated copy, a
  case of a switch only its own messages); and a write that fails does so with the failure of one
  of these writes, or with one that a composite of the tree raises itself on a batch it is offered:
  a rejection, a strict processing error, an unmatched message under strict mode, or a fallback
  without tiers.
\<close>

theorem write_is_accounted_for:
  assumes "out_write as_text c b t r"
  shows "(\<forall>(l, x, q)\<in>set t. offered as_text c b (Sink l) x) \<and>
    (\<forall>e. r = Some e \<longrightarrow> (\<exists>l x. (l, x, Some e) \<in> set t) \<or> (\<exists>d x. offered as_text c b d x \<and> raises d x e))"
  using out_write_accounted(1) [OF assms] by (simp add: accounted_def)

text \<open>
  A fallback whose first tier fails, over a switch that sends the messages of even index to one sink
  and all of them to another.
\<close>

definition even_then_all :: "(nat, bytes) out_tree" where
  "even_then_all = Fallback [Sink 0,
     Switch False
      [(\<lparr>test = Some (\<lambda>b i. Inr (even i)), continues = True\<rparr>, Sink 1),
       (\<lparr>test = None, continues = False\<rparr>, Sink 2)]]"

definition plain :: "nat \<Rightarrow> (nat, bytes) msg" where
  "plain n = \<lparr>content = \<lparr>body = n, meta = []\<rparr>, msg_error = [], msg_source = None\<rparr>"

definition noted :: "nat \<Rightarrow> (nat, bytes) msg" where
  "noted n = set_meta (str ''fallback_error'') (str ''down'') (plain n)"

definition demo_trace :: "(nat, bytes) event list" where
  "demo_trace = [(0, [plain 7, plain 8], Some (str ''down'')), (1, [noted 7], None), (2, [noted 7, noted 8], None)]"

lemma demo_write: "out_write id even_then_all [plain 7, plain 8] demo_trace None"
proof -
  let ?b = "fallback_error id (str ''down'') [plain 7, plain 8]"
  let ?cs = "[(\<lparr>test = Some (\<lambda>b i. Inr (even i)), continues = True\<rparr>, Sink 1),
       (\<lparr>test = None, continues = False\<rparr>, Sink 2)] :: ((nat, bytes) routing \<times> (nat, bytes) out_tree) list"
  have b: "?b = [noted 7, noted 8]" by (simp add: fallback_error_def noted_def)
  have r: "route_batch False (map fst ?cs) ?b = Inr [[noted 7], [noted 7, noted 8]]"
    by (simp add: route_batch_def b passes_def push_to_def upt_conv_Cons)
  have w: "out_writes id [(Sink 1, [noted 7]), (Sink 2, [noted 7, noted 8])]
      [[(1, [noted 7], None)], [(2, [noted 7, noted 8], None)]] [None, None]"
    by (intro more_writes sink no_writes)
  have t: "[(1, [noted 7], None), (2, [noted 7, noted 8], None)] \<in>
      interleavings [[(1, [noted 7], None)], [(2, [noted 7, noted 8], None)]]"
    by simp
  have "out_write id (Switch False ?cs) ?b
      [(1, [noted 7], None), (2, [noted 7, noted 8], None)] (first_error [None, None])"
    by (rule routed [OF r _ t]) (use w in simp)
  then have "out_write id (Fallback [Switch False ?cs]) ?b
      [(1, [noted 7], None), (2, [noted 7, noted 8], None)] None"
    by (intro tier_ok) simp
  from next_tier [OF sink [of id 0 "[plain 7, plain 8]" "Some (str ''down'')"] _ this]
  show ?thesis by (simp add: even_then_all_def demo_trace_def)
qed

lemma successful_write_delivers_witness:
  "delivered id even_then_all [plain 7, plain 8] demo_trace"
  by (rule successful_write_delivers [OF demo_write])

lemma write_is_accounted_for_witness:
  "offered id even_then_all [plain 7, plain 8] (Sink 1) [noted 7]"
  using write_is_accounted_for [OF demo_write] by (simp add: demo_trace_def)

section \<open>Smaller facts\<close>

text \<open>The pauses of a retry start at half a second, never shrink, and reach three seconds.\<close>

lemma retry_delay_bounds: "retry_first \<le> retry_delay n \<and> retry_delay n \<le> retry_max"
  by (induction n) (auto simp: retry_first_def retry_max_def next_delay_def)

lemma retry_delay_capped: "retry_delay (n + 5) = retry_max"
proof (induction n)
  case 0
  have "retry_delay (Suc (Suc (Suc (Suc (Suc 0))))) = retry_max"
    by (simp add: retry_first_def retry_max_def next_delay_def)
  moreover have "(0::nat) + 5 = Suc (Suc (Suc (Suc (Suc 0))))" by simp
  ultimately show ?case by (simp only:)
next
  case (Suc n)
  then show ?case by (simp only: add_Suc retry_delay.simps) (simp add: next_delay_def retry_max_def)
qed

text \<open>Any \<open>n\<close> consecutive claims of a round robin, short of the wrap of its counter, are of distinct children.\<close>

lemma claims_are_distinct:
  assumes "i < n" and "j < n" and "i \<noteq> j" and "unat k + n < 2 ^ 64"
  shows "fst (claim_next (k + of_nat i) n) \<noteq> fst (claim_next (k + of_nat j) n)"
proof -
  have u: "unat (k + of_nat m) = unat k + m" if "m < n" for m
    using that assms(4) by (simp add: unat_word_ariths unat_of_nat)
  have "(unat k + i) mod n \<noteq> (unat k + j) mod n"
  proof
    assume eq: "(unat k + i) mod n = (unat k + j) mod n"
    have "int n dvd int (unat k + i) - int (unat k + j)"
      using eq by (metis mod_eq_dvd_iff zmod_int)
    then have "int n dvd int i - int j" by simp
    moreover have "\<bar>int i - int j\<bar> < int n" and "int i - int j \<noteq> 0" using assms by auto
    ultimately show False using dvd_imp_le_int [of "int i - int j" "int n"] by auto
  qed
  then show ?thesis using u assms by (simp add: claim_next_def)
qed

text \<open>
  The need of a sink travels up through the composites that take the maximum; a round robin and a
  greedy output answer with the number of their children, whatever these need.
\<close>

fun forwards_needs :: "('b, 'v) out_tree \<Rightarrow> bool" where
  "forwards_needs (Sink l) \<longleftrightarrow> True"
| "forwards_needs (Reject f) \<longleftrightarrow> True"
| "forwards_needs (Retry c) \<longleftrightarrow> forwards_needs c"
| "forwards_needs (Processed strict ps c) \<longleftrightarrow> forwards_needs c"
| "forwards_needs (Fan_out s cs) \<longleftrightarrow> (\<forall>c\<in>set cs. forwards_needs c)"
| "forwards_needs (Round_robin cs) \<longleftrightarrow> False"
| "forwards_needs (Greedy cs) \<longleftrightarrow> False"
| "forwards_needs (Fallback cs) \<longleftrightarrow> (\<forall>c\<in>set cs. forwards_needs c)"
| "forwards_needs (Switch s cs) \<longleftrightarrow> (\<forall>c\<in>set cs. forwards_needs (snd c))"

lemma fold_max_le:
  fixes f :: "'a \<Rightarrow> nat"
  shows "n \<le> fold (\<lambda>c n. max n (f c)) cs n"
proof (induction cs arbitrary: n)
  case (Cons d cs)
  show ?case using Cons [of "max n (f d)"] by simp
qed simp

lemma fold_max_ge:
  fixes f :: "'a \<Rightarrow> nat"
  shows "c \<in> set cs \<Longrightarrow> f c \<le> fold (\<lambda>c n. max n (f c)) cs n"
proof (induction cs arbitrary: n)
  case (Cons d cs)
  have "f d \<le> max n (f d)" by simp
  also have "\<dots> \<le> fold (\<lambda>c n. max n (f c)) cs (max n (f d))" by (rule fold_max_le)
  finally show ?case using Cons by auto
qed simp

fun sinks_of :: "('b, 'v) out_tree \<Rightarrow> nat set" where
  "sinks_of (Sink l) = {l}"
| "sinks_of (Reject f) = {}"
| "sinks_of (Retry c) = sinks_of c"
| "sinks_of (Processed strict ps c) = sinks_of c"
| "sinks_of (Fan_out s cs) = (\<Union>c\<in>set cs. sinks_of c)"
| "sinks_of (Round_robin cs) = (\<Union>c\<in>set cs. sinks_of c)"
| "sinks_of (Greedy cs) = (\<Union>c\<in>set cs. sinks_of c)"
| "sinks_of (Fallback cs) = (\<Union>c\<in>set cs. sinks_of c)"
| "sinks_of (Switch s cs) = (\<Union>c\<in>set cs. sinks_of (snd c))"

lemma needs_travel_up:
  "forwards_needs c \<Longrightarrow> l \<in> sinks_of c \<Longrightarrow> needs l \<le> max_in_flight needs c"
proof (induction c)
  case (Fan_out s cs)
  then show ?case by (fastforce intro: order_trans [OF _ fold_max_ge])
next
  case (Fallback cs)
  then show ?case by (fastforce intro: order_trans [OF _ fold_max_ge])
next
  case (Switch s cs)
  then obtain c where "c \<in> set cs" "l \<in> sinks_of (snd c)" by auto
  then have "needs l \<le> max_in_flight needs (snd c)"
    using Switch by (cases c) (auto simp: snds.simps)
  then show ?case
    using fold_max_ge [OF \<open>c \<in> set cs\<close>, of "\<lambda>c. max_in_flight needs (snd c)" 1] by simp
qed auto

lemma round_robin_starves_its_children:
  "max_in_flight (\<lambda>_. 5) (Round_robin [Sink 0, Sink 1]) = 2"
  by simp

end
