(* ===== verification/Batched_Output.thy ===== *)
theory Batched_Output
  imports Outputs Batch_Policy
begin

text \<open>
  \<open>batched_output\<close> of \<open>src/components/outputs.cc\<close>: an output's \<open>batching:\<close> policy.  A call of
  \<open>write_batch\<close> adds its messages to the policy and parks a promise; a flush takes the batch and the
  promises together and resolves them with the outcome of its writes.  Calls, flushes (several at
  once), the timer, \<open>drain\<close> and \<open>close\<close> are steps of one state.  Promises are numbered in the order
  of the calls; \<open>given\<close> and \<open>finished\<close> are histories.
\<close>

section \<open>Flushing one batch\<close>

text \<open>A stage goes on after a processor has thrown; what it threw last is kept.\<close>

fun flush_stage :: "('b, 'v) out_processor \<Rightarrow> ('b, 'v) msgs list \<Rightarrow> failure option \<times> ('b, 'v) msgs list" where
  "flush_stage p [] = (None, [])"
| "flush_stage p (cur # bs) =
     (if cur = [] then flush_stage p bs
      else case flush_stage p bs of (err, nxt) \<Rightarrow>
        (case p cur of
           Inr out \<Rightarrow> (err, filter (\<lambda>ob. ob \<noteq> []) out @ nxt)
         | Inl e \<Rightarrow> (case err of None \<Rightarrow> Some e | Some e' \<Rightarrow> Some e', nxt)))"

fun flush_processors :: "('b, 'v) out_processor list \<Rightarrow> ('b, 'v) msgs list \<Rightarrow> failure + ('b, 'v) msgs list" where
  "flush_processors [] bs = Inr bs"
| "flush_processors (p # ps) bs = (case flush_stage p bs of
     (Some e, _) \<Rightarrow> Inl e
   | (None, nxt) \<Rightarrow> if nxt = [] then Inr [] else flush_processors ps nxt)"

text \<open>What is to be written of a batch: nothing when it is empty or the processors left nothing.\<close>

definition to_write :: "bool \<Rightarrow> ('b, 'v) out_processor list \<Rightarrow> ('b, 'v) msgs \<Rightarrow> failure + ('b, 'v) msgs list" where
  "to_write strict ps b =
     (if b = [] then Inr []
      else rbind (flush_processors ps [b]) (\<lambda>bs.
        case (if strict then first_rejection bs else None) of
          Some e \<Rightarrow> Inl e
        | None \<Rightarrow> Inr (filter (\<lambda>x. x \<noteq> []) bs)))"

text \<open>The writes are made one after another, up to the first that fails.\<close>

fun write_all :: "(('b, 'v) msgs \<Rightarrow> failure option) \<Rightarrow> ('b, 'v) msgs list \<Rightarrow> ('b, 'v) msgs list \<times> failure option" where
  "write_all answer [] = ([], None)"
| "write_all answer (b # bs) = (case answer b of
     Some e \<Rightarrow> ([], Some e)
   | None \<Rightarrow> (case write_all answer bs of (w, err) \<Rightarrow> (b # w, err)))"

section \<open>State\<close>

record ('b, 'v) batched_config =
  procs :: "('b, 'v) out_processor list"
  strict :: bool
  count_hint :: int
  inner_in_flight :: nat
  bytes_of :: "('b, 'v) msg \<Rightarrow> nat"

record ('b, 'v) flushing =
  promises :: "nat list"
  carried :: "('b, 'v) msgs"
  gated :: bool

text \<open>
  \<open>drain\<close> and \<open>close\<close> wait for the flushes that hold the gate and then flush what is left.
\<close>

datatype phase = Open | Draining | Drained | Closing | Closed

record ('b, 'v) batched =
  policy :: "('b, 'v) msg batch_policy"
  waiting :: "nat list"
  flushes :: "('b, 'v) flushing list"
  timer :: "int option"
  phase :: phase
  next_promise :: nat
  given :: "nat \<Rightarrow> ('b, 'v) msgs"
  finished :: "(('b, 'v) flushing \<times> ('b, 'v) msgs list \<times> failure option) list"

definition new_batched :: "('b, 'v) msg batch_policy \<Rightarrow> ('b, 'v) batched" where
  "new_batched p = \<lparr>policy = p, waiting = [], flushes = [], timer = None, phase = Open,
     next_promise = 0, given = (\<lambda>_. []), finished = []\<rparr>"

definition gate_closed :: "('b, 'v) batched \<Rightarrow> bool" where
  "gate_closed s \<longleftrightarrow> phase s \<noteq> Open"

definition batched_in_flight :: "('b, 'v) batched_config \<Rightarrow> nat" where
  "batched_in_flight c = max (if count_hint c > 0 then nat (count_hint c) else 256) (inner_in_flight c)"

section \<open>Operations\<close>

definition arm_timer :: "int \<Rightarrow> ('b, 'v) batched \<Rightarrow> ('b, 'v) batched" where
  "arm_timer now s =
     (let until = until_next now (policy s)
      in if until \<le> 0 \<or> timer s \<noteq> None then s else s\<lparr>timer := Some (now + until * ns_per_ms)\<rparr>)"

definition begin_flush :: "int \<Rightarrow> bool \<Rightarrow> ('b, 'v) batched \<Rightarrow> ('b, 'v) batched" where
  "begin_flush now g s = (case take_batch now (policy s) of (b, p) \<Rightarrow>
     s\<lparr>timer := None, waiting := [], policy := p,
       flushes := flushes s @ [\<lparr>promises = waiting s, carried = b, gated = g\<rparr>]\<rparr>)"

definition end_flush :: "('b, 'v) batched_config \<Rightarrow> nat \<Rightarrow> (('b, 'v) msgs \<Rightarrow> failure option) \<Rightarrow> int \<Rightarrow>
    ('b, 'v) batched \<Rightarrow> ('b, 'v) batched" where
  "end_flush c k answer now s =
     (let f = flushes s ! k;
          (written, err) = (case to_write (strict c) (procs c) (carried f) of
             Inl e \<Rightarrow> ([], Some e)
           | Inr bs \<Rightarrow> write_all answer bs);
          s = s\<lparr>flushes := take k (flushes s) @ drop (Suc k) (flushes s),
                finished := finished s @ [(f, written, err)]\<rparr>
      in if policy_empty (policy s) then s else arm_timer now s)"

text \<open>The clock is read for each message and again by \<open>arm_timer\<close>.\<close>

fun add_all :: "('m \<Rightarrow> nat) \<Rightarrow> ('m \<times> int) list \<Rightarrow> 'm batch_policy \<Rightarrow> bool \<times> 'm batch_policy" where
  "add_all size_of [] p = (False, p)"
| "add_all size_of ((m, now) # ms) p = (case add size_of now m p of (t, p) \<Rightarrow>
     (case add_all size_of ms p of (t', p) \<Rightarrow> (t \<or> t', p)))"

definition batched_write :: "('b, 'v) batched_config \<Rightarrow> (('b, 'v) msg \<times> int) list \<Rightarrow> int \<Rightarrow>
    ('b, 'v) batched \<Rightarrow> ('b, 'v) batched" where
  "batched_write c ms now s =
     (if ms = [] then s
      else let i = next_promise s;
               (t, p) = add_all (bytes_of c) ms (policy s);
               s = s\<lparr>next_promise := i + 1, given := (given s)(i := map fst ms), waiting := waiting s @ [i], policy := p\<rparr>;
               trigger = (t \<or> batched_in_flight c \<le> length (waiting s));
               s = arm_timer now s
           in if trigger then begin_flush now (\<not> gate_closed s) s else s)"

definition timer_fires :: "int \<Rightarrow> ('b, 'v) batched \<Rightarrow> ('b, 'v) batched" where
  "timer_fires now s = (let s = s\<lparr>timer := None\<rparr> in
     if gate_closed s then s else begin_flush now True s)"

definition flush_rest :: "int \<Rightarrow> ('b, 'v) batched \<Rightarrow> ('b, 'v) batched" where
  "flush_rest now s =
     (if policy_empty (policy s) \<and> waiting s = [] then s else begin_flush now False s)"

definition start_drain :: "('b, 'v) batched \<Rightarrow> ('b, 'v) batched" where
  "start_drain s = s\<lparr>timer := None, phase := Draining\<rparr>"

definition start_close :: "('b, 'v) batched \<Rightarrow> ('b, 'v) batched" where
  "start_close s = s\<lparr>timer := None, phase := Closing\<rparr>"

definition quiesced :: "('b, 'v) batched \<Rightarrow> bool" where
  "quiesced s \<longleftrightarrow> (\<forall>f\<in>set (flushes s). \<not> gated f)"

inductive batched_step :: "('b, 'v) batched_config \<Rightarrow> ('b, 'v) batched \<Rightarrow> ('b, 'v) batched \<Rightarrow> bool"
  for c :: "('b, 'v) batched_config"
where
  call: "batched_step c s (batched_write c ms now s)"
| flushed: "k < length (flushes s) \<Longrightarrow> batched_step c s (end_flush c k answer now s)"
| tick: "timer s = Some at_time \<Longrightarrow> at_time \<le> now \<Longrightarrow> batched_step c s (timer_fires now s)"
| drain: "phase s = Open \<Longrightarrow> batched_step c s (start_drain s)"
| drained: "phase s = Draining \<Longrightarrow> quiesced s \<Longrightarrow> batched_step c s ((flush_rest now s)\<lparr>phase := Drained\<rparr>)"
| close: "phase s = Open \<or> phase s = Drained \<Longrightarrow> batched_step c s (start_close s)"
| closed: "phase s = Closing \<Longrightarrow> quiesced s \<Longrightarrow> batched_step c s ((flush_rest now s)\<lparr>phase := Closed\<rparr>)"

inductive batched_reachable :: "('b, 'v) batched_config \<Rightarrow> ('b, 'v) batched \<Rightarrow> bool"
  for c :: "('b, 'v) batched_config"
where
  start: "parts p = [] \<Longrightarrow> batched_reachable c (new_batched p)"
| step: "batched_reachable c s \<Longrightarrow> batched_step c s s' \<Longrightarrow> batched_reachable c s'"

section \<open>The invariant\<close>

definition promised :: "('b, 'v) batched \<Rightarrow> nat list" where
  "promised s = waiting s @ concat (map promises (flushes s)) @ concat (map (promises \<circ> fst) (finished s))"

definition messages_of :: "('b, 'v) batched \<Rightarrow> nat list \<Rightarrow> ('b, 'v) msgs" where
  "messages_of s ps = concat (map (given s) ps)"

text \<open>A flush that succeeded has written everything its batch came to.\<close>

definition outcome_ok :: "('b, 'v) batched_config \<Rightarrow> ('b, 'v) flushing \<times> ('b, 'v) msgs list \<times> failure option \<Rightarrow> bool" where
  "outcome_ok c = (\<lambda>(f, w, err). err = None \<longrightarrow> to_write (strict c) (procs c) (carried f) = Inr w)"

definition batched_core :: "('b, 'v) batched_config \<Rightarrow> ('b, 'v) batched \<Rightarrow> bool" where
  "batched_core c s \<longleftrightarrow>
     mset (promised s) = mset [0..<next_promise s] \<and>
     messages_of s (waiting s) = parts (policy s) \<and>
     (\<forall>f\<in>set (flushes s). messages_of s (promises f) = carried f) \<and>
     (\<forall>x\<in>set (finished s). messages_of s (promises (fst x)) = carried (fst x) \<and> outcome_ok c x)"

definition batched_inv :: "('b, 'v) batched_config \<Rightarrow> ('b, 'v) batched \<Rightarrow> bool" where
  "batched_inv c s \<longleftrightarrow> batched_core c s \<and> (waiting s \<noteq> [] \<longrightarrow> length (waiting s) < batched_in_flight c)"

lemma parts_add_all: "parts (snd (add_all size_of ms p)) = parts p @ map fst ms"
proof (induction ms arbitrary: p)
  case (Cons x ms)
  obtain m now where x: "x = (m, now)" by (cases x)
  obtain t q where q: "add size_of now m p = (t, q)" by (cases "add size_of now m p")
  obtain t' r where r: "add_all size_of ms q = (t', r)" by (cases "add_all size_of ms q")
  have "parts q = parts p @ [m]" using parts_add [of size_of now m p] q by simp
  then show ?case using Cons [of q] r by (simp add: x q)
qed simp

lemma mset_concat_at:
  assumes "k < length xs"
  shows "mset (concat (map f xs)) = mset (concat (map f (take k xs @ drop (Suc k) xs))) + mset (f (xs ! k))"
proof -
  have "mset (concat (map f xs)) = mset (concat (map f (take k xs @ xs ! k # drop (Suc k) xs)))"
    using id_take_nth_drop [OF assms] by simp
  then show ?thesis by simp
qed

lemma write_all_None: "write_all answer bs = (w, None) \<Longrightarrow> w = bs"
  by (induction bs arbitrary: w) (auto split: option.splits prod.splits)

lemma arm_timer_same [simp]:
  "policy (arm_timer now s) = policy s" "waiting (arm_timer now s) = waiting s"
  "flushes (arm_timer now s) = flushes s" "phase (arm_timer now s) = phase s"
  "next_promise (arm_timer now s) = next_promise s" "given (arm_timer now s) = given s"
  "finished (arm_timer now s) = finished s"
  by (simp_all add: arm_timer_def Let_def)

lemmas core_defs = batched_core_def promised_def messages_of_def

lemma core_arm_timer: "batched_core c (arm_timer now s) = batched_core c s"
  by (simp add: core_defs)

lemma core_begin_flush: "batched_core c s \<Longrightarrow> batched_core c (begin_flush now g s)"
  by (auto simp add: core_defs begin_flush_def take_batch_def ac_simps)

lemma waiting_begin_flush [simp]: "waiting (begin_flush now g s) = []"
  by (simp add: begin_flush_def take_batch_def)

lemma core_end_flush:
  assumes I: "batched_core c s" and k: "k < length (flushes s)"
  shows "batched_core c (end_flush c k answer now s)"
proof -
  let ?f = "flushes s ! k"
  obtain w err where we: "(case to_write (strict c) (procs c) (carried ?f) of
      Inl e \<Rightarrow> ([], Some e) | Inr bs \<Rightarrow> write_all answer bs) = (w, err)"
    by (cases "case to_write (strict c) (procs c) (carried ?f) of
      Inl e \<Rightarrow> ([], Some e) | Inr bs \<Rightarrow> write_all answer bs")
  have ok: "outcome_ok c (?f, w, err)"
    using we write_all_None [of answer] by (auto simp: outcome_ok_def split: sum.splits)
  have sub: "set (take k (flushes s)) \<subseteq> set (flushes s)" "set (drop (Suc k) (flushes s)) \<subseteq> set (flushes s)"
    by (rule set_take_subset, rule set_drop_subset)
  have f: "?f \<in> set (flushes s)" using k by simp
  let ?s = "s\<lparr>flushes := take k (flushes s) @ drop (Suc k) (flushes s), finished := finished s @ [(?f, w, err)]\<rparr>"
  have "mset (promised ?s) = mset (promised s)"
    using mset_concat_at [OF k, of promises] by (simp add: promised_def)
  then have "batched_core c ?s"
    using I ok sub f by (auto simp: batched_core_def messages_of_def)
  then show ?thesis
    using we by (simp add: end_flush_def Let_def core_arm_timer split: prod.split)
qed

lemma core_promise:
  assumes I: "batched_core c s" and p: "parts p = parts (policy s) @ xs"
  shows "batched_core c (s\<lparr>next_promise := next_promise s + 1,
    given := (given s)(next_promise s := xs), waiting := waiting s @ [next_promise s], policy := p\<rparr>)"
proof -
  let ?i = "next_promise s"
  have "set (promised s) = set [0..<?i]"
    using I by (metis batched_core_def mset_eq_setD)
  then have lt: "j \<noteq> ?i" if "j \<in> set (promised s)" for j using that by auto
  have same: "concat (map ((given s)(?i := xs)) ps) = concat (map (given s) ps)"
    if "set ps \<subseteq> set (promised s)" for ps
    using that lt by (intro arg_cong [of _ _ concat] map_cong) auto
  have 1: "concat (map ((given s)(?i := xs)) (waiting s)) = concat (map (given s) (waiting s))"
    by (rule same) (simp add: promised_def)
  have 2: "concat (map ((given s)(?i := xs)) (promises f)) = concat (map (given s) (promises f))"
    if "f \<in> set (flushes s)" for f
    by (rule same) (use that in \<open>auto simp: promised_def\<close>)
  have 3: "concat (map ((given s)(?i := xs)) (promises (fst x))) = concat (map (given s) (promises (fst x)))"
    if "x \<in> set (finished s)" for x
    by (rule same) (use that in \<open>auto simp: promised_def\<close>)
  have "mset [0..<Suc ?i] = mset [0..<?i] + {#?i#}" by simp
  then show ?thesis
    using I 1 2 3 p fun_upd_same [of "given s" ?i xs]
    by (simp add: batched_core_def messages_of_def promised_def del: fun_upd_apply mset_upt)
qed

lemma promise_kept:
  assumes I: "batched_core c s"
  shows "batched_core c (batched_write c ms now s)"
proof (cases "ms = []")
  case False
  obtain t q where q: "add_all (bytes_of c) ms (policy s) = (t, q)"
    by (cases "add_all (bytes_of c) ms (policy s)")
  have "parts q = parts (policy s) @ map fst ms"
    using parts_add_all [of "bytes_of c" ms "policy s"] q by simp
  from core_promise [OF I this] show ?thesis
    using False
    by (simp add: batched_write_def q Let_def core_arm_timer core_begin_flush)
qed (use I in \<open>simp add: batched_write_def\<close>)

lemma capacity_write:
  assumes "waiting s \<noteq> [] \<longrightarrow> length (waiting s) < batched_in_flight c"
  shows "waiting (batched_write c ms now s) \<noteq> [] \<longrightarrow> length (waiting (batched_write c ms now s)) < batched_in_flight c"
  using assms by (simp add: batched_write_def Let_def split: prod.split)

lemma batched_inv_flush_rest:
  assumes "batched_inv c s"
  shows "batched_inv c ((flush_rest now s)\<lparr>phase := h\<rparr>)"
proof -
  have "batched_core c (flush_rest now s)"
    using assms by (simp add: batched_inv_def flush_rest_def core_begin_flush)
  then have "batched_core c ((flush_rest now s)\<lparr>phase := h\<rparr>)" by (simp add: core_defs)
  then show ?thesis using assms by (simp add: batched_inv_def flush_rest_def)
qed

lemma batched_inv_end_flush:
  assumes "batched_inv c s" and "k < length (flushes s)"
  shows "batched_inv c (end_flush c k answer now s)"
proof -
  have "waiting (end_flush c k answer now s) = waiting s"
    by (simp add: end_flush_def Let_def split: prod.split)
  then show ?thesis using assms by (simp add: batched_inv_def core_end_flush)
qed

lemma batched_inv_step:
  assumes "batched_step c s s'" and I: "batched_inv c s"
  shows "batched_inv c s'"
  using assms(1)
proof cases
  case (call ms now)
  then show ?thesis using I by (simp add: batched_inv_def promise_kept capacity_write)
next
  case (flushed k answer now)
  then show ?thesis using I by (simp add: batched_inv_end_flush)
next
  case (tick at_time now)
  have "batched_core c (s\<lparr>timer := None\<rparr>)" using I by (simp add: batched_inv_def core_defs)
  then show ?thesis using tick I by (simp add: batched_inv_def timer_fires_def Let_def core_begin_flush)
next
  case drain
  then show ?thesis using I by (simp add: batched_inv_def core_defs start_drain_def)
next
  case close
  then show ?thesis using I by (simp add: batched_inv_def core_defs start_close_def)
qed (use batched_inv_flush_rest [OF I] in simp_all)

lemma batched_inv_new: "parts p = [] \<Longrightarrow> batched_inv c (new_batched p)"
  by (simp add: batched_inv_def core_defs new_batched_def)

lemma batched_inv_reachable: "batched_reachable c s \<Longrightarrow> batched_inv c s"
  by (induction rule: batched_reachable.induct) (simp_all add: batched_inv_step batched_inv_new)

section \<open>What a batching output promises\<close>

text \<open>C25:
  Every write is resolved at most once, with the outcome of the flush that carried exactly its
  messages.  In every reachable state the promises given out are each in one place: parked, in one
  flush under way, or resolved by one finished flush; the batch of a flush is the messages of its
  promises, in order, and what the policy holds is the messages of the parked ones; and a flush
  resolves its promises without a failure only if everything its processors made of the batch has
  been written.
\<close>

theorem every_write_resolved_by_its_flush:
  assumes "batched_reachable c s"
  shows "mset (promised s) = mset [0..<next_promise s] \<and>
    messages_of s (waiting s) = parts (policy s) \<and>
    (\<forall>f\<in>set (flushes s). messages_of s (promises f) = carried f) \<and>
    (\<forall>(f, w, err)\<in>set (finished s). messages_of s (promises f) = carried f \<and>
       (err = None \<longrightarrow> to_write (strict c) (procs c) (carried f) = Inr w))"
  using batched_inv_reachable [OF assms]
  by (auto simp: batched_inv_def batched_core_def outcome_ok_def simp del: mset_upt)

text \<open>
  The writes parked are always fewer than the writes in flight the output asks the stream for, so
  that a policy that holds messages back never leaves the stream without a write to issue: with
  as many writes unresolved as the limit permits, at least one is in a flush.
\<close>

lemma parked_below_the_limit:
  assumes "batched_reachable c s" and "waiting s \<noteq> []"
  shows "length (waiting s) < batched_in_flight c"
  using batched_inv_reachable [OF assms(1)] assms(2) by (simp add: batched_inv_def)

text \<open>
  A batch of two over a policy of count two is flushed at once, and a third message waits.
\<close>

definition demo_config :: "(nat, bytes) batched_config" where
  "demo_config = \<lparr>procs = [], strict = True, count_hint = 2, inner_in_flight = 1, bytes_of = (\<lambda>_. 0)\<rparr>"

definition demo_policy :: "(nat, bytes) msg batch_policy" where
  "demo_policy = make_policy 2 0 0 None 0"

definition demo_one :: "(nat, bytes) batched" where
  "demo_one = batched_write demo_config [(plain 1, 0)] 0 (new_batched demo_policy)"

definition demo_two :: "(nat, bytes) batched" where
  "demo_two = batched_write demo_config [(plain 2, 0)] 0 demo_one"

definition demo_done :: "(nat, bytes) batched" where
  "demo_done = end_flush demo_config 0 (\<lambda>_. None) 0 demo_two"

lemmas demo_batched = demo_config_def demo_policy_def demo_one_def demo_two_def demo_done_def
  new_batched_def batched_write_def make_policy_def add_def arm_timer_def until_next_def begin_flush_def
  take_batch_def batched_in_flight_def gate_closed_def end_flush_def to_write_def policy_empty_def Let_def

lemma demo_one_reachable: "batched_reachable demo_config demo_one"
  unfolding demo_one_def
  by (rule step [OF start call]) (simp add: demo_policy_def make_policy_def)

lemma demo_two_reachable: "batched_reachable demo_config demo_two"
  unfolding demo_two_def by (rule step [OF demo_one_reachable call])

lemma demo_done_reachable: "batched_reachable demo_config demo_done"
  unfolding demo_done_def
  by (rule step [OF demo_two_reachable flushed]) (simp add: demo_batched)

lemma demo_finished:
  "finished demo_done = [(\<lparr>promises = [0, 1], carried = [plain 1, plain 2], gated = True\<rparr>, [[plain 1, plain 2]], None)]"
  by (simp add: demo_batched plain_def strict_rejection_def has_error_def)

lemma every_write_resolved_by_its_flush_witness:
  "messages_of demo_done [0, 1] = [plain 1, plain 2] \<and> waiting demo_done = []"
  using every_write_resolved_by_its_flush [OF demo_done_reachable]
  by (simp add: demo_finished) (simp add: demo_batched)

section \<open>Gaps\<close>

text \<open>
  A write that comes after \<open>drain\<close> and does not trigger is parked, and nothing but \<open>close\<close>, which
  the stream calls once every write is resolved, will flush it: the timer no longer does.
\<close>

lemma late_write_is_stranded:
  assumes "phase s = Drained" and "ms \<noteq> []" and "\<not> fst (add_all (bytes_of c) ms (policy s))"
    and "length (waiting s) + 1 < batched_in_flight c"
  shows "waiting (batched_write c ms now s) = waiting s @ [next_promise s] \<and>
    waiting (timer_fires now' (batched_write c ms now s)) = waiting s @ [next_promise s]"
  using assms
  by (cases "add_all (bytes_of c) ms (policy s)")
    (simp add: batched_write_def timer_fires_def gate_closed_def Let_def)

text \<open>
  The timer is not armed when the period ends between the two readings of the clock: \<open>add\<close> still
  sees it running, and \<open>until_next\<close> answers 0.  The message then waits for another one.
\<close>

lemma timer_missed_at_the_period:
  "(let s = batched_write \<lparr>procs = [], strict = False, count_hint = 0, inner_in_flight = 1, bytes_of = (\<lambda>_. 0)\<rparr>
        [(plain 1, 5000000)] 5000000 (new_batched (make_policy 0 0 5 None 0))
    in waiting s = [0] \<and> flushes s = [] \<and> timer s = None)"
  by (simp add: new_batched_def batched_write_def make_policy_def add_def arm_timer_def until_next_def
      batched_in_flight_def ns_per_ms_def Let_def)

end
