(* ===== verification/Batched_Input.thy ===== *)
theory Batched_Input
  imports Batched_Output Acks
begin

text \<open>
  \<open>batched_input\<close> of \<open>src/components/io.cc\<close>: batching on the side of the input.  Messages are drawn
  from the source batch parked by the filler until the policy triggers; one acknowledgement group
  (theory \<open>Acks\<close>) per source batch gets a child for every assembled batch it fed and is sealed when
  its last message has been drawn.  The reader, the filler, the acknowledgements and the shutdown
  interleave; the clock is read once in a pass of the reader.  Source batches are numbered in the
  order they are read, and messages are tagged with that number in the histories \<open>drawn\<close>,
  \<open>tagged\<close>, \<open>forsaken\<close> and \<open>taken_in\<close>, which the code does not keep.
\<close>

section \<open>State\<close>

record ('b, 'v) parked =
  source :: nat
  items :: "('b, 'v) msgs"
  charged_for :: nat
  taken :: nat

record ('b, 'v) assembled =
  members :: "nat list"
  tagged :: "(nat \<times> ('b, 'v) msg) list"

datatype ('b, 'v) answer = Batch "('b, 'v) msgs" | End_of_input

datatype ('b, 'v) reader = Resting "('b, 'v) answer option" | Turning | Waiting "int option"

record ('b, 'v) batched_in =
  in_policy :: "('b, 'v) msg batch_policy"
  parked_batches :: "('b, 'v) parked list"
  children :: "nat list"
  assembly :: nat
  source_done :: bool
  in_aborted :: bool
  in_closed :: bool
  reader :: "('b, 'v) reader"
  groups_of :: "nat \<Rightarrow> failure ack_group"
  next_source :: nat
  drawn :: "(nat \<times> ('b, 'v) msg) list"
  outstanding :: "('b, 'v) assembled list"
  settled :: "(('b, 'v) assembled \<times> failure option) list"
  forsaken :: "(nat \<times> ('b, 'v) msg) list"
  taken_in :: "(nat \<times> ('b, 'v) msg) list"

record ('b, 'v) in_config =
  in_procs :: "('b, 'v) out_processor list"
  in_bytes :: "('b, 'v) msg \<Rightarrow> nat"

definition new_batched_in :: "('b, 'v) msg batch_policy \<Rightarrow> ('b, 'v) batched_in" where
  "new_batched_in p = \<lparr>in_policy = p, parked_batches = [], children = [], assembly = 1, source_done = False,
     in_aborted = False, in_closed = False, reader = Resting None, groups_of = (\<lambda>_. make_group),
     next_source = 0, drawn = [], outstanding = [], settled = [], forsaken = [], taken_in = []\<rparr>"

section \<open>Drawing\<close>

text \<open>How many of the messages are drawn, up to the first that triggers.\<close>

fun draw_until :: "('m \<Rightarrow> nat) \<Rightarrow> int \<Rightarrow> 'm list \<Rightarrow> 'm batch_policy \<Rightarrow> nat \<times> bool \<times> 'm batch_policy" where
  "draw_until size_of now [] p = (0, False, p)"
| "draw_until size_of now (m # ms) p = (case add size_of now m p of
     (True, p) \<Rightarrow> (1, True, p)
   | (False, p) \<Rightarrow> (case draw_until size_of now ms p of (n, t, p) \<Rightarrow> (Suc n, t, p)))"

definition charge :: "('b, 'v) parked \<Rightarrow> ('b, 'v) batched_in \<Rightarrow> ('b, 'v) batched_in" where
  "charge p s = (if charged_for p \<noteq> assembly s
     then s\<lparr>children := children s @ [source p],
            groups_of := (groups_of s)(source p := add_child (groups_of s (source p)))\<rparr>
     else s)"

definition draw_front :: "('b, 'v) in_config \<Rightarrow> int \<Rightarrow> ('b, 'v) parked \<Rightarrow> ('b, 'v) parked list \<Rightarrow>
    ('b, 'v) batched_in \<Rightarrow> bool \<times> ('b, 'v) batched_in" where
  "draw_front c now p rest s =
     (let s = charge p s;
          undrawn = drop (taken p) (items p);
          (n, trigger, q) = draw_until (in_bytes c) now undrawn (in_policy s);
          s = s\<lparr>in_policy := q, drawn := drawn s @ map (Pair (source p)) (take n undrawn)\<rparr>
      in (trigger,
          if taken p + n = length (items p)
          then s\<lparr>parked_batches := rest, groups_of := (groups_of s)(source p := seal (groups_of s (source p)))\<rparr>
          else s\<lparr>parked_batches := p\<lparr>charged_for := assembly s, taken := taken p + n\<rparr> # rest\<rparr>))"

text \<open>
  The loop over the parked batches.  A turn that does not trigger takes the front away, so that as
  many turns as there are batches are enough.
\<close>

fun draw_all :: "('b, 'v) in_config \<Rightarrow> int \<Rightarrow> nat \<Rightarrow> ('b, 'v) batched_in \<Rightarrow> bool \<times> ('b, 'v) batched_in" where
  "draw_all c now 0 s = (False, s)"
| "draw_all c now (Suc k) s = (case parked_batches s of
     [] \<Rightarrow> (False, s)
   | p # rest \<Rightarrow> (case draw_front c now p rest s of
       (trigger, s) \<Rightarrow> if trigger then (True, s) else draw_all c now k s))"

section \<open>Assembling\<close>

fun in_processors :: "('b, 'v) out_processor list \<Rightarrow> ('b, 'v) msgs list \<Rightarrow> failure + ('b, 'v) msgs list" where
  "in_processors [] bs = Inr bs"
| "in_processors (p # ps) bs = (case flush_stage p bs of
     (Some e, _) \<Rightarrow> Inl e
   | (None, nxt) \<Rightarrow> in_processors ps nxt)"

definition resolve_child :: "failure option \<Rightarrow> nat \<Rightarrow> (nat \<Rightarrow> failure ack_group) \<Rightarrow> nat \<Rightarrow> failure ack_group" where
  "resolve_child e i g = g(i := child_done e (g i))"

text \<open>The acknowledgement of an assembled batch: every child it charged, with the same outcome.\<close>

definition settle :: "failure option \<Rightarrow> ('b, 'v) assembled \<Rightarrow> ('b, 'v) batched_in \<Rightarrow> ('b, 'v) batched_in" where
  "settle e a s = s\<lparr>groups_of := fold (resolve_child e) (members a) (groups_of s), settled := settled s @ [(a, e)]\<rparr>"

text \<open>
  \<open>flush\<close>: the batch to hand over, or none when the processors failed (the sources are nacked) or
  left nothing (they are acknowledged); batches that a processor split are put together again.
\<close>

definition flush_in :: "('b, 'v) in_config \<Rightarrow> int \<Rightarrow> ('b, 'v) batched_in \<Rightarrow> ('b, 'v) msgs option \<times> ('b, 'v) batched_in" where
  "flush_in c now s = (case take_batch now (in_policy s) of (b, q) \<Rightarrow>
     let a = \<lparr>members = children s, tagged = drawn s\<rparr>;
         s = s\<lparr>children := [], assembly := assembly s + 1, in_policy := q, drawn := []\<rparr>
     in case in_processors (in_procs c) (if b = [] then [] else [b]) of
       Inl e \<Rightarrow> (None, settle (Some e) a s)
     | Inr [] \<Rightarrow> (None, settle None a s)
     | Inr bs \<Rightarrow> (Some (concat bs), s\<lparr>outstanding := outstanding s @ [a]\<rparr>))"

section \<open>The reader\<close>

definition give :: "('b, 'v) msgs option \<times> ('b, 'v) batched_in \<Rightarrow> ('b, 'v) reader \<Rightarrow> ('b, 'v) batched_in" where
  "give r otherwise = (case r of
     (Some b, s) \<Rightarrow> s\<lparr>reader := Resting (Some (Batch b))\<rparr>
   | (None, s) \<Rightarrow> s\<lparr>reader := otherwise\<rparr>)"

text \<open>One pass of the loop of \<open>read_batch\<close>, up to where it returns, waits or goes round.\<close>

definition read_pass :: "('b, 'v) in_config \<Rightarrow> int \<Rightarrow> ('b, 'v) batched_in \<Rightarrow> ('b, 'v) batched_in" where
  "read_pass c now s = (case draw_all c now (length (parked_batches s)) s of (trigger, s) \<Rightarrow>
     if trigger then give (flush_in c now s) Turning
     else if source_done s \<and> parked_batches s = [] then
       (if policy_empty (in_policy s) then s\<lparr>reader := Resting (Some End_of_input)\<rparr>
        else give (flush_in c now s) (Resting (Some End_of_input)))
     else if in_aborted s then s\<lparr>reader := Resting (Some End_of_input)\<rparr>
     else let until = until_next now (in_policy s) in
       s\<lparr>reader := Waiting (if \<not> policy_empty (in_policy s) \<and> until > 0 then Some (now + until * ns_per_ms) else None)\<rparr>)"

definition read_timed_out :: "('b, 'v) in_config \<Rightarrow> int \<Rightarrow> ('b, 'v) batched_in \<Rightarrow> ('b, 'v) batched_in" where
  "read_timed_out c now s =
     (if policy_empty (in_policy s) then s\<lparr>reader := Turning\<rparr> else give (flush_in c now s) Turning)"

definition signal_filled :: "('b, 'v) batched_in \<Rightarrow> ('b, 'v) batched_in" where
  "signal_filled s = (case reader s of Waiting _ \<Rightarrow> s\<lparr>reader := Turning\<rparr> | _ \<Rightarrow> s)"

section \<open>The filler and the shutdown\<close>

text \<open>An empty batch is acknowledged at once and leaves no trace.\<close>

definition park :: "('b, 'v) msgs \<Rightarrow> ('b, 'v) batched_in \<Rightarrow> ('b, 'v) batched_in" where
  "park b s = (if b = [] then s else (let i = next_source s in
     signal_filled (s\<lparr>parked_batches := parked_batches s @ [\<lparr>source = i, items = b, charged_for = 0, taken = 0\<rparr>],
       groups_of := (groups_of s)(i := make_group), next_source := i + 1,
       taken_in := taken_in s @ map (Pair i) b\<rparr>)))"

definition fill_ends :: "('b, 'v) batched_in \<Rightarrow> ('b, 'v) batched_in" where
  "fill_ends s = signal_filled (s\<lparr>source_done := True\<rparr>)"

definition in_abort :: "('b, 'v) batched_in \<Rightarrow> ('b, 'v) batched_in" where
  "in_abort s = (let s = s\<lparr>in_aborted := True\<rparr> in
     case reader s of Waiting _ \<Rightarrow> s\<lparr>reader := Resting (Some End_of_input)\<rparr> | _ \<Rightarrow> s)"

definition shut_down :: failure where
  "shut_down = str ''input batching: shut down with a partial batch''"

definition abandon_parked :: "('b, 'v) parked \<Rightarrow> ('b, 'v) batched_in \<Rightarrow> ('b, 'v) batched_in" where
  "abandon_parked p s = (let i = source p; g = add_child (groups_of s i); g = seal g in
     settle (Some shut_down) \<lparr>members = [i], tagged = []\<rparr>
       (s\<lparr>groups_of := (groups_of s)(i := g), forsaken := forsaken s @ map (Pair i) (drop (taken p) (items p))\<rparr>))"

definition abandon :: "('b, 'v) batched_in \<Rightarrow> ('b, 'v) batched_in" where
  "abandon s = (let a = \<lparr>members = children s, tagged = drawn s\<rparr>;
       s = settle (Some shut_down) a (s\<lparr>children := [], drawn := []\<rparr>)
     in fold abandon_parked (parked_batches s) (s\<lparr>parked_batches := []\<rparr>))"

definition close_in :: "('b, 'v) batched_in \<Rightarrow> ('b, 'v) batched_in" where
  "close_in s = abandon (s\<lparr>in_closed := True\<rparr>)"

text \<open>
  The acknowledgement of the \<open>k\<close>-th outstanding batch.  Batches outstanding are bounded by memory,
  far below the range of the counter of a group.
\<close>

definition acknowledge_in :: "nat \<Rightarrow> failure option \<Rightarrow> ('b, 'v) batched_in \<Rightarrow> ('b, 'v) batched_in" where
  "acknowledge_in k e s = settle e (outstanding s ! k)
     (s\<lparr>outstanding := take k (outstanding s) @ drop (Suc k) (outstanding s)\<rparr>)"

inductive in_step :: "('b, 'v) in_config \<Rightarrow> ('b, 'v) batched_in \<Rightarrow> ('b, 'v) batched_in \<Rightarrow> bool"
  for c :: "('b, 'v) in_config"
where
  read_call: "reader s = Resting a \<Longrightarrow> \<not> in_closed s \<Longrightarrow> in_step c s (s\<lparr>reader := Turning\<rparr>)"
| read_turn: "reader s = Turning \<Longrightarrow> length (outstanding s) < 2 ^ 62 \<Longrightarrow> in_step c s (read_pass c now s)"
| timed_out: "reader s = Waiting (Some t) \<Longrightarrow> t \<le> now \<Longrightarrow> length (outstanding s) < 2 ^ 62 \<Longrightarrow>
    in_step c s (read_timed_out c now s)"
| filled: "parked_batches s = [] \<Longrightarrow> \<not> source_done s \<Longrightarrow> \<not> in_closed s \<Longrightarrow> in_step c s (park b s)"
| fill_end: "\<not> source_done s \<Longrightarrow> in_step c s (fill_ends s)"
| acknowledged: "k < length (outstanding s) \<Longrightarrow> in_step c s (acknowledge_in k e s)"
| abort: "in_step c s (in_abort s)"
| close: "reader s = Resting a \<Longrightarrow> \<not> in_closed s \<Longrightarrow> in_step c s (close_in s)"

inductive in_reachable :: "('b, 'v) in_config \<Rightarrow> ('b, 'v) batched_in \<Rightarrow> bool"
  for c :: "('b, 'v) in_config"
where
  start: "parts p = [] \<Longrightarrow> in_reachable c (new_batched_in p)"
| step: "in_reachable c s \<Longrightarrow> in_step c s s' \<Longrightarrow> in_reachable c s'"

section \<open>The invariant\<close>

definition owed_to :: "nat list \<Rightarrow> ('b, 'v) assembled list \<Rightarrow> nat \<Rightarrow> nat" where
  "owed_to ch os i = count_list ch i + sum_list (map (\<lambda>a. count_list (members a) i) os)"

definition verdicts :: "(('b, 'v) assembled \<times> failure option) list \<Rightarrow> nat \<Rightarrow> failure option list" where
  "verdicts st i = map snd (filter (\<lambda>x. i \<in> set (members (fst x))) st)"

definition parked_sources :: "('b, 'v) parked list \<Rightarrow> nat set" where
  "parked_sources pk = source ` set pk"

text \<open>
  The group of a source batch is sealed when nothing of it is parked, has a child outstanding for
  every assembly that is not settled, and holds the first failure among the settled ones.
\<close>

definition groups_ok :: "(nat \<Rightarrow> nat) \<Rightarrow> ('b, 'v) batched_in \<Rightarrow> bool" where
  "groups_ok extra s \<longleftrightarrow> (\<forall>i<next_source s.
     ack_inv (i \<notin> parked_sources (parked_batches s)) (owed_to (children s) (outstanding s) i + extra i)
       (first_nack (verdicts (settled s) i)) (groups_of s i))"

definition shape_ok :: "('b, 'v) batched_in \<Rightarrow> bool" where
  "shape_ok s \<longleftrightarrow>
     distinct (children s) \<and> set (children s) \<subseteq> {..<next_source s} \<and>
     (\<forall>a\<in>set (outstanding s). distinct (members a) \<and> set (members a) \<subseteq> {..<next_source s}) \<and>
     (\<forall>x\<in>set (settled s). set (members (fst x)) \<subseteq> {..<next_source s}) \<and>
     length (outstanding s) \<le> 2 ^ 62 \<and> length (parked_batches s) \<le> 1 \<and>
     (\<forall>p\<in>set (parked_batches s). source p < next_source s \<and> taken p < length (items p) \<and>
        charged_for p \<le> assembly s \<and> (charged_for p = assembly s \<longleftrightarrow> source p \<in> set (children s)))
     \<and> 0 < assembly s \<and> (in_closed s \<longrightarrow> parked_batches s = [] \<and> (\<exists>a. reader s = Resting a))"

definition undrawn :: "('b, 'v) parked \<Rightarrow> (nat \<times> ('b, 'v) msg) list" where
  "undrawn p = map (Pair (source p)) (drop (taken p) (items p))"

text \<open>
  Every message read is in one place, and its source batch is charged for the assembly it is in.
\<close>

definition messages_ok :: "('b, 'v) batched_in \<Rightarrow> bool" where
  "messages_ok s \<longleftrightarrow>
     (in_closed s \<or> map snd (drawn s) = parts (in_policy s)) \<and>
     fst ` set (drawn s) \<subseteq> set (children s) \<and>
     (\<forall>a\<in>set (outstanding s). fst ` set (tagged a) \<subseteq> set (members a)) \<and>
     (\<forall>x\<in>set (settled s). fst ` set (tagged (fst x)) \<subseteq> set (members (fst x))) \<and>
     (\<forall>t\<in>set (forsaken s). fst t < next_source s \<and> first_nack (verdicts (settled s) (fst t)) \<noteq> None) \<and>
     mset (taken_in s) = mset (drawn s) + mset (concat (map tagged (outstanding s))) +
       mset (concat (map (tagged \<circ> fst) (settled s))) + mset (forsaken s) +
       mset (concat (map undrawn (parked_batches s)))"

definition in_inv :: "('b, 'v) batched_in \<Rightarrow> bool" where
  "in_inv s \<longleftrightarrow> groups_ok (\<lambda>_. 0) s \<and> shape_ok s \<and> messages_ok s"

lemma first_nack_snoc: "first_nack (vs @ [e]) = (if first_nack vs = None then e else first_nack vs)"
  by (induction vs) (auto simp: first_nack_def split: option.splits)

lemma fold_resolve:
  "distinct xs \<Longrightarrow> fold (resolve_child e) xs g i = (if i \<in> set xs then child_done e (g i) else g i)"
  by (induction xs arbitrary: g) (auto simp: resolve_child_def)

lemma count_list_distinct: "distinct xs \<Longrightarrow> count_list xs i = (if i \<in> set xs then 1 else 0)"
  by (induction xs) auto

lemma owed_bound:
  assumes "distinct ch" and "\<forall>a\<in>set os. distinct (members a)"
  shows "owed_to ch os i \<le> 1 + length os"
proof -
  have "sum_list (map (\<lambda>a. count_list (members a) i) os) \<le> length os"
    using assms(2) by (induction os) (auto simp: count_list_distinct)
  then show ?thesis using assms(1) by (simp add: owed_to_def count_list_distinct)
qed

lemma verdicts_snoc:
  "verdicts (st @ [(a, e)]) i = verdicts st i @ (if i \<in> set (members a) then [e] else [])"
  by (simp add: verdicts_def)

lemma verdicts_grow: "first_nack (verdicts st i) \<noteq> None \<Longrightarrow> first_nack (verdicts (st @ [x]) i) \<noteq> None"
  by (cases x) (auto simp: verdicts_snoc first_nack_snoc)

text \<open>Settling an assembly whose children are not counted any more.\<close>

lemma groups_ok_settle:
  assumes G: "groups_ok (count_list (members a)) s" and D: "distinct (members a)"
    and B: "\<And>i. owed_to (children s) (outstanding s) i + 1 < 2 ^ 64"
  shows "groups_ok (\<lambda>_. 0) (settle e a s)"
proof -
  have "ack_inv (i \<notin> parked_sources (parked_batches s)) (owed_to (children s) (outstanding s) i)
      (first_nack (verdicts (settled s @ [(a, e)]) i)) (fold (resolve_child e) (members a) (groups_of s) i)"
    if "i < next_source s" for i
  proof -
    have I: "ack_inv (i \<notin> parked_sources (parked_batches s))
        (owed_to (children s) (outstanding s) i + count_list (members a) i)
        (first_nack (verdicts (settled s) i)) (groups_of s i)"
      using G that by (simp add: groups_ok_def)
    show ?thesis
    proof (cases "i \<in> set (members a)")
      case True
      then have c: "count_list (members a) i = 1" using D by (simp add: count_list_distinct)
      have "ack_inv (i \<notin> parked_sources (parked_batches s)) (owed_to (children s) (outstanding s) i)
          (if first_nack (verdicts (settled s) i) = None then e else first_nack (verdicts (settled s) i))
          (child_done e (groups_of s i))"
        using ack_inv_done [OF I, of e] B [of i] by (simp add: c)
      then show ?thesis using True D by (simp add: fold_resolve verdicts_snoc first_nack_snoc)
    next
      case False
      then show ?thesis using I D by (simp add: fold_resolve verdicts_snoc count_list_distinct)
    qed
  qed
  then show ?thesis by (simp add: groups_ok_def settle_def)
qed

lemma shape_bound:
  assumes "shape_ok s" shows "owed_to (children s) (outstanding s) i \<le> 1 + length (outstanding s)"
  by (rule owed_bound) (use assms in \<open>simp_all add: shape_ok_def\<close>)

text \<open>The assembly of a state, as \<open>flush\<close> and \<open>abandon\<close> take it out.\<close>

definition taken_out :: "('b, 'v) batched_in \<Rightarrow> ('b, 'v) msg batch_policy \<Rightarrow> ('b, 'v) batched_in" where
  "taken_out s q = s\<lparr>children := [], assembly := assembly s + 1, in_policy := q, drawn := []\<rparr>"

definition current :: "('b, 'v) batched_in \<Rightarrow> ('b, 'v) assembled" where
  "current s = \<lparr>members = children s, tagged = drawn s\<rparr>"

lemma groups_ok_taken_out:
  "groups_ok (\<lambda>_. 0) s \<Longrightarrow> groups_ok (count_list (members (current s))) (taken_out s q)"
  by (simp add: groups_ok_def taken_out_def current_def owed_to_def add.commute)

lemma shape_settle:
  "shape_ok s \<Longrightarrow> set (members a) \<subseteq> {..<next_source s} \<Longrightarrow> shape_ok (settle e a s)"
  by (auto simp: shape_ok_def settle_def)

lemma shape_taken_out: "shape_ok s \<Longrightarrow> shape_ok (taken_out s q)"
  by (auto simp: shape_ok_def taken_out_def)

lemma messages_settle:
  assumes "mset (taken_in s) = mset (drawn s) + mset (concat (map tagged (outstanding s))) +
       mset (concat (map (tagged \<circ> fst) (settled s))) + mset (forsaken s) +
       mset (concat (map undrawn (parked_batches s))) + mset (tagged a)"
    and "in_closed s \<or> map snd (drawn s) = parts (in_policy s)" and "fst ` set (drawn s) \<subseteq> set (children s)"
    and "\<forall>a\<in>set (outstanding s). fst ` set (tagged a) \<subseteq> set (members a)"
    and "\<forall>x\<in>set (settled s). fst ` set (tagged (fst x)) \<subseteq> set (members (fst x))"
    and "fst ` set (tagged a) \<subseteq> set (members a)"
    and "\<forall>t\<in>set (forsaken s). fst t < next_source s \<and>
       first_nack (verdicts (settled s @ [(a, e)]) (fst t)) \<noteq> None"
  shows "messages_ok (settle e a s)"
  using assms by (simp add: messages_ok_def settle_def)

lemma in_inv_settle_current:
  assumes I: "in_inv s" and q: "parts q = []"
  shows "in_inv (settle e (current s) (taken_out s q))"
proof -
  have S: "shape_ok s" using I by (simp add: in_inv_def)
  have "owed_to (children (taken_out s q)) (outstanding (taken_out s q)) i + 1 < 2 ^ 64" for i
    using shape_bound [OF shape_taken_out [OF S], of q i] S
    by (simp add: shape_ok_def taken_out_def)
  then have "groups_ok (\<lambda>_. 0) (settle e (current s) (taken_out s q))"
    using I by (intro groups_ok_settle groups_ok_taken_out) (simp_all add: in_inv_def shape_ok_def current_def)
  moreover have "shape_ok (settle e (current s) (taken_out s q))"
    using S by (intro shape_settle shape_taken_out) (simp_all add: shape_ok_def current_def taken_out_def)
  moreover have "messages_ok (settle e (current s) (taken_out s q))"
    using I q
    by (intro messages_settle)
      (auto simp: in_inv_def messages_ok_def taken_out_def current_def verdicts_snoc first_nack_snoc ac_simps)
  ultimately show ?thesis by (simp add: in_inv_def)
qed

lemma in_inv_hand_over:
  assumes I: "in_inv s" and q: "parts q = []" and L: "length (outstanding s) < 2 ^ 62"
  shows "in_inv ((taken_out s q)\<lparr>outstanding := outstanding s @ [current s]\<rparr>)"
proof -
  have "groups_ok (\<lambda>_. 0) ((taken_out s q)\<lparr>outstanding := outstanding s @ [current s]\<rparr>)"
    using I by (simp add: in_inv_def groups_ok_def taken_out_def current_def owed_to_def ac_simps)
  moreover have "shape_ok ((taken_out s q)\<lparr>outstanding := outstanding s @ [current s]\<rparr>)"
    using I L by (auto simp: in_inv_def shape_ok_def taken_out_def current_def)
  moreover have "messages_ok ((taken_out s q)\<lparr>outstanding := outstanding s @ [current s]\<rparr>)"
    using I q by (auto simp: in_inv_def messages_ok_def taken_out_def current_def ac_simps)
  ultimately show ?thesis by (simp add: in_inv_def)
qed

lemma flush_in_eq:
  "flush_in c now s = (case take_batch now (in_policy s) of (b, q) \<Rightarrow>
     case in_processors (in_procs c) (if b = [] then [] else [b]) of
       Inl e \<Rightarrow> (None, settle (Some e) (current s) (taken_out s q))
     | Inr [] \<Rightarrow> (None, settle None (current s) (taken_out s q))
     | Inr bs \<Rightarrow> (Some (concat bs), (taken_out s q)\<lparr>outstanding := outstanding s @ [current s]\<rparr>))"
  by (simp add: flush_in_def Let_def current_def taken_out_def split: prod.split sum.split list.split)

lemma in_inv_flush:
  assumes I: "in_inv s" and L: "length (outstanding s) < 2 ^ 62"
  shows "in_inv (snd (flush_in c now s))"
proof -
  obtain b q where q: "take_batch now (in_policy s) = (b, q)" by (cases "take_batch now (in_policy s)")
  then have "parts q = []" by (auto simp: take_batch_def)
  then show ?thesis
    using in_inv_settle_current [OF I] in_inv_hand_over [OF I _ L]
    by (simp add: flush_in_eq q split: sum.split list.split)
qed

text \<open>The reader's place is free in the invariant while the input is open.\<close>

lemma in_inv_reader: "in_inv s \<Longrightarrow> \<not> in_closed s \<Longrightarrow> in_inv (s\<lparr>reader := r\<rparr>)"
  by (simp add: in_inv_def groups_ok_def shape_ok_def messages_ok_def)

lemma in_closed_flush [simp]: "in_closed (snd (flush_in c now s)) = in_closed s"
  by (auto simp: flush_in_eq settle_def taken_out_def split: prod.split sum.split list.split)

lemma in_inv_give:
  assumes "in_inv s" and "length (outstanding s) < 2 ^ 62" and "\<not> in_closed s"
  shows "in_inv (give (flush_in c now s) r)"
  using in_inv_reader [OF in_inv_flush [OF assms(1,2), of c now]] in_closed_flush [of c now s] assms(3)
  by (cases "flush_in c now s") (auto simp: give_def simp del: in_closed_flush split: option.split)

lemma draw_until_ok:
  "draw_until size_of now ms p = (n, t, q) \<Longrightarrow>
     n \<le> length ms \<and> parts q = parts p @ take n ms \<and> (\<not> t \<longrightarrow> n = length ms)"
proof (induction ms arbitrary: p n t q)
  case (Cons m ms)
  obtain t' p' where a: "add size_of now m p = (t', p')" by (cases "add size_of now m p")
  obtain k t'' q' where d: "draw_until size_of now ms p' = (k, t'', q')"
    by (cases "draw_until size_of now ms p'") auto
  have "parts p' = parts p @ [m]" using parts_add [of size_of now m p] a by simp
  then show ?case using Cons.prems Cons.IH [OF d] by (cases t') (auto simp: a d)
qed simp

lemma charge_same [simp]:
  "in_policy (charge p s) = in_policy s" "parked_batches (charge p s) = parked_batches s"
  "assembly (charge p s) = assembly s" "source_done (charge p s) = source_done s"
  "in_aborted (charge p s) = in_aborted s" "in_closed (charge p s) = in_closed s"
  "reader (charge p s) = reader s" "next_source (charge p s) = next_source s"
  "drawn (charge p s) = drawn s" "outstanding (charge p s) = outstanding s"
  "settled (charge p s) = settled s" "forsaken (charge p s) = forsaken s"
  "taken_in (charge p s) = taken_in s"
  by (simp_all add: charge_def)

lemma charge_children:
  assumes "shape_ok s" and "p \<in> set (parked_batches s)"
  shows "distinct (children (charge p s)) \<and> set (children (charge p s)) = insert (source p) (set (children s))"
  using assms by (auto simp: charge_def shape_ok_def)

lemma charge_groups:
  assumes G: "groups_ok (\<lambda>_. 0) s" and S: "p \<in> set (parked_batches s)"
  shows "groups_ok (\<lambda>_. 0) (charge p s)"
proof -
  have "source p \<in> parked_sources (parked_batches s)" using S by (simp add: parked_sources_def)
  then have "ack_inv False (Suc (owed_to (children s) (outstanding s) (source p)))
      (first_nack (verdicts (settled s) (source p))) (add_child (groups_of s (source p)))"
    if "source p < next_source s"
    using G that by (intro ack_inv_add) (auto simp: groups_ok_def)
  then show ?thesis
    using G \<open>source p \<in> parked_sources (parked_batches s)\<close>
    by (auto simp: groups_ok_def charge_def owed_to_def)
qed

lemma in_inv_draw_front:
  assumes I: "in_inv s" and P: "parked_batches s = [p]" and C: "\<not> in_closed s"
  shows "in_inv (snd (draw_front c now p [] s)) \<and>
    (fst (draw_front c now p [] s) \<or> parked_batches (snd (draw_front c now p [] s)) = [])"
proof -
  let ?u = "drop (taken p) (items p)" and ?s = "charge p s"
  obtain n t q where d: "draw_until (in_bytes c) now ?u (in_policy s) = (n, t, q)"
    by (cases "draw_until (in_bytes c) now ?u (in_policy s)") auto
  note D = draw_until_ok [OF d]
  have S: "shape_ok s" and M: "messages_ok s" using I by (simp_all add: in_inv_def)
  have lt: "taken p < length (items p)" "source p < next_source s"
    using S P by (simp_all add: shape_ok_def)
  have ch: "distinct (children ?s)" "set (children ?s) = insert (source p) (set (children s))"
    using charge_children [OF S, of p] P by simp_all
  have G: "groups_ok (\<lambda>_. 0) ?s"
    by (rule charge_groups) (use I P in \<open>simp_all add: in_inv_def\<close>)
  let ?t = "?s\<lparr>in_policy := q, drawn := drawn s @ map (Pair (source p)) (take n ?u)\<rparr>"
  have msgs: "map snd (drawn ?t) = parts q" "fst ` set (drawn ?t) \<subseteq> set (children ?s)"
    using M C D ch(2) by (auto simp: messages_ok_def comp_def)
  have parts_of: "undrawn p = map (Pair (source p)) (take n ?u) @ map (Pair (source p)) (drop n ?u)"
    unfolding undrawn_def by (metis append_take_drop_id map_append)
  show ?thesis
  proof (cases "taken p + n = length (items p)")
    case True
    have "drop n ?u = []" using True by simp
    let ?z = "?t\<lparr>parked_batches := [],
      groups_of := (groups_of ?s)(source p := seal (groups_of ?s (source p)))\<rparr>"
    have "owed_to (children ?s) (outstanding s) (source p) < 2 ^ 64"
      using owed_bound [OF ch(1), of "outstanding s" "source p"] S by (simp add: shape_ok_def)
    then have "ack_inv True (owed_to (children ?s) (outstanding s) (source p))
        (first_nack (verdicts (settled s) (source p))) (seal (groups_of ?s (source p)))"
      using G P lt by (intro ack_inv_seal) (auto simp: groups_ok_def parked_sources_def)
    then have "groups_ok (\<lambda>_. 0) ?z"
      using G P by (auto simp: groups_ok_def parked_sources_def)
    moreover have "shape_ok ?z" using S P ch lt by (auto simp: shape_ok_def)
    moreover have "messages_ok ?z"
      using M msgs parts_of \<open>drop n ?u = []\<close> P by (simp add: messages_ok_def ac_simps)
    moreover have "draw_front c now p [] s = (t, ?z)"
      using True by (simp add: draw_front_def d Let_def)
    ultimately show ?thesis by (simp add: in_inv_def)
  next
    case False
    let ?p = "p\<lparr>charged_for := assembly s, taken := taken p + n\<rparr>"
    let ?z = "?t\<lparr>parked_batches := [?p]\<rparr>"
    have "groups_ok (\<lambda>_. 0) ?z"
      using G P by (simp add: groups_ok_def parked_sources_def)
    moreover have "shape_ok ?z" using S P ch lt False D by (auto simp: shape_ok_def)
    moreover have "undrawn ?p = map (Pair (source p)) (drop n ?u)"
      by (simp add: undrawn_def add.commute)
    then have "mset (undrawn p) = mset (map (Pair (source p)) (take n ?u)) + mset (undrawn ?p)"
      by (simp add: parts_of del: mset_map)
    then have "messages_ok ?z"
      using M msgs P by (simp add: messages_ok_def ac_simps del: mset_map)
    moreover have "draw_front c now p [] s = (t, ?z)"
      using False by (simp add: draw_front_def d Let_def)
    moreover have "t" using D False lt by auto
    ultimately show ?thesis by (simp add: in_inv_def)
  qed
qed

lemma draw_front_same:
  "outstanding (snd (draw_front c now p rest s)) = outstanding s \<and>
   in_closed (snd (draw_front c now p rest s)) = in_closed s"
  by (simp add: draw_front_def Let_def split: prod.split)

lemma in_inv_draw_all:
  assumes I: "in_inv s" and C: "\<not> in_closed s"
    and D: "draw_all c now (length (parked_batches s)) s = (t, s')"
  shows "in_inv s' \<and> \<not> in_closed s' \<and> outstanding s' = outstanding s \<and> (\<not> t \<longrightarrow> parked_batches s' = [])"
proof (cases "parked_batches s")
  case Nil
  then show ?thesis using I C D by simp
next
  case (Cons p rest)
  then have P: "parked_batches s = [p]" using I by (simp add: in_inv_def shape_ok_def)
  obtain t1 s1 where f: "draw_front c now p [] s = (t1, s1)" by (cases "draw_front c now p [] s")
  then have "s' = s1 \<and> t = t1" using D by (simp add: P split: if_splits)
  then show ?thesis
    using in_inv_draw_front [OF I P C, of c now] draw_front_same [of c now p "[]" s] f C by auto
qed

lemma in_inv_read_pass:
  assumes I: "in_inv s" and C: "\<not> in_closed s" and L: "length (outstanding s) < 2 ^ 62"
  shows "in_inv (read_pass c now s)"
proof -
  obtain t s' where d: "draw_all c now (length (parked_batches s)) s = (t, s')"
    by (cases "draw_all c now (length (parked_batches s)) s")
  note D = in_inv_draw_all [OF I C d]
  then have g: "in_inv (give (flush_in c now s') r)" and r: "in_inv (s'\<lparr>reader := x\<rparr>)" for r x
    using L by (simp_all add: in_inv_give in_inv_reader)
  show ?thesis using g r by (simp add: read_pass_def d Let_def)
qed

lemma in_inv_signal: "in_inv s \<Longrightarrow> in_inv (signal_filled s)"
proof -
  assume I: "in_inv s"
  have "in_closed s \<Longrightarrow> \<exists>a. reader s = Resting a" using I by (simp add: in_inv_def shape_ok_def)
  then show "in_inv (signal_filled s)"
    using I in_inv_reader by (cases "reader s") (auto simp: signal_filled_def)
qed

lemma parked_open:
  assumes I: "in_inv s" and P: "parked_batches s = []" and C: "\<not> in_closed s" and b: "b \<noteq> []"
  shows "in_inv (s\<lparr>parked_batches := [\<lparr>source = next_source s, items = b, charged_for = 0, taken = 0\<rparr>],
       groups_of := (groups_of s)(next_source s := make_group), next_source := next_source s + 1,
       taken_in := taken_in s @ map (Pair (next_source s)) b\<rparr>)"
    (is "in_inv ?z")
proof -
  let ?i = "next_source s"
  have S: "shape_ok s" and M: "messages_ok s" using I by (simp_all add: in_inv_def)
  have o: "owed_to (children s) (outstanding s) ?i = 0"
  proof -
    have "count_list (members a) ?i = 0" if "a \<in> set (outstanding s)" for a
      using S that by (auto simp: shape_ok_def intro!: count_notin)
    then have "sum_list (map (\<lambda>a. count_list (members a) ?i) (outstanding s)) = 0"
      by (intro sum_list_nonneg_eq_0_iff [THEN iffD2]) auto
    moreover have "count_list (children s) ?i = 0"
      using S by (auto simp: shape_ok_def intro!: count_notin)
    ultimately show ?thesis by (simp add: owed_to_def)
  qed
  have v: "verdicts (settled s) ?i = []"
    using S by (auto simp: shape_ok_def verdicts_def filter_empty_conv)
  have "groups_ok (\<lambda>_. 0) ?z"
    using I P o v ack_inv_make
    by (auto simp: in_inv_def groups_ok_def parked_sources_def less_Suc_eq)
  moreover have "shape_ok ?z"
    using S P C b unfolding shape_ok_def by (simp add: lessThan_Suc subset_insertI2) blast
  moreover have "messages_ok ?z" using M P by (auto simp: messages_ok_def undrawn_def)
  ultimately show ?thesis by (simp add: in_inv_def)
qed

lemma in_inv_park:
  assumes "in_inv s" and "parked_batches s = []" and "\<not> in_closed s"
  shows "in_inv (park b s)"
  using assms in_inv_signal [OF parked_open [OF assms]] by (simp add: park_def Let_def)

lemma in_inv_done: "in_inv s \<Longrightarrow> in_inv (s\<lparr>source_done := x\<rparr>)" and
  in_inv_aborted: "in_inv s \<Longrightarrow> in_inv (s\<lparr>in_aborted := x\<rparr>)"
  by (simp_all add: in_inv_def groups_ok_def shape_ok_def messages_ok_def)

lemma in_inv_abort: "in_inv s \<Longrightarrow> in_inv (in_abort s)"
proof -
  assume I: "in_inv s"
  then have "in_closed s \<Longrightarrow> \<exists>a. reader s = Resting a" by (simp add: in_inv_def shape_ok_def)
  then show "in_inv (in_abort s)"
    using in_inv_aborted [OF I] in_inv_reader [OF in_inv_aborted [OF I]]
    by (cases "reader s") (auto simp: in_abort_def Let_def)
qed

lemma in_inv_acknowledge:
  assumes I: "in_inv s" and k: "k < length (outstanding s)"
  shows "in_inv (acknowledge_in k e s)"
proof -
  let ?a = "outstanding s ! k" and ?os = "take k (outstanding s) @ drop (Suc k) (outstanding s)"
  let ?s = "s\<lparr>outstanding := ?os\<rparr>"
  have S: "shape_ok s" and M: "messages_ok s" using I by (simp_all add: in_inv_def)
  have a: "?a \<in> set (outstanding s)" using k by simp
  have sub: "set ?os \<subseteq> set (outstanding s)" using set_take_subset set_drop_subset by fastforce
  have sp: "outstanding s = take k (outstanding s) @ ?a # drop (Suc k) (outstanding s)"
    by (rule id_take_nth_drop [OF k])
  have ow: "owed_to (children s) (outstanding s) i = owed_to (children s) ?os i + count_list (members ?a) i" for i
    by (subst (1) sp) (simp add: owed_to_def)
  have ms: "mset (concat (map tagged (outstanding s))) = mset (concat (map tagged ?os)) + mset (tagged ?a)"
    by (rule mset_concat_at [OF k])
  have S': "shape_ok ?s" using S sub k by (auto simp: shape_ok_def)
  have "groups_ok (\<lambda>_. 0) (settle e ?a ?s)"
  proof (rule groups_ok_settle)
    show "groups_ok (count_list (members ?a)) ?s" using I ow by (simp add: in_inv_def groups_ok_def)
    show "distinct (members ?a)" using S a by (simp add: shape_ok_def)
    show "owed_to (children ?s) (outstanding ?s) i + 1 < 2 ^ 64" for i
      using shape_bound [OF S', of i] S' by (simp add: shape_ok_def)
  qed
  moreover have "shape_ok (settle e ?a ?s)"
    using S S' a by (intro shape_settle) (auto simp: shape_ok_def)
  moreover have "messages_ok (settle e ?a ?s)"
  proof (rule messages_settle)
    show "mset (taken_in ?s) = mset (drawn ?s) + mset (concat (map tagged (outstanding ?s))) +
       mset (concat (map (tagged \<circ> fst) (settled ?s))) + mset (forsaken ?s) +
       mset (concat (map undrawn (parked_batches ?s))) + mset (tagged ?a)"
      using M ms by (simp add: messages_ok_def)
    show "\<forall>t\<in>set (forsaken ?s). fst t < next_source ?s \<and>
       first_nack (verdicts (settled ?s @ [(?a, e)]) (fst t)) \<noteq> None"
      using M by (auto simp: messages_ok_def verdicts_snoc first_nack_snoc)
    show "\<forall>a\<in>set (outstanding ?s). fst ` set (tagged a) \<subseteq> set (members a)"
      using M sub unfolding messages_ok_def by (simp del: set_append) blast
  qed (use M a in \<open>simp_all add: messages_ok_def\<close>)
  ultimately show ?thesis by (simp add: in_inv_def acknowledge_in_def)
qed

text \<open>
  \<open>abandon\<close> settles the assembly in progress and then what is still parked, which is one batch at
  most.  It does not look at the policy, whose contents are forgotten with the assembly.
\<close>

lemma in_inv_abandon_parked:
  assumes I: "in_inv s" and P: "parked_batches s = [p]" and C: "children s = []"
  shows "in_inv (abandon_parked p (s\<lparr>parked_batches := []\<rparr>))"
proof -
  have S: "shape_ok s" and M: "messages_ok s" using I by (simp_all add: in_inv_def)
  let ?i = "source p" and ?os = "outstanding s"
  let ?g = "seal (add_child (groups_of s ?i))"
  let ?a = "\<lparr>members = [?i], tagged = []\<rparr>"
  let ?z = "s\<lparr>parked_batches := [], groups_of := (groups_of s)(?i := ?g), forsaken := forsaken s @ undrawn p\<rparr>"
  have i: "?i < next_source s" using S P by (simp add: shape_ok_def)
  have b: "owed_to (children s) ?os j + 1 < 2 ^ 64" for j
    using shape_bound [OF S, of j] S by (simp add: shape_ok_def)
  have "ack_inv False (owed_to (children s) ?os ?i) (first_nack (verdicts (settled s) ?i)) (groups_of s ?i)"
    using I P i by (auto simp: in_inv_def groups_ok_def parked_sources_def)
  from ack_inv_seal [OF ack_inv_add [OF this]] b [of ?i]
  have "ack_inv True (Suc (owed_to (children s) ?os ?i)) (first_nack (verdicts (settled s) ?i)) ?g" by simp
  then have "groups_ok (count_list (members ?a)) ?z"
    using I P by (auto simp: in_inv_def groups_ok_def parked_sources_def)
  then have "groups_ok (\<lambda>_. 0) (settle (Some shut_down) ?a ?z)"
    using b by (intro groups_ok_settle) simp_all
  moreover have "shape_ok (settle (Some shut_down) ?a ?z)"
    using S i by (intro shape_settle) (auto simp: shape_ok_def)
  moreover have "messages_ok (settle (Some shut_down) ?a ?z)"
  proof (rule messages_settle)
    show "\<forall>t\<in>set (forsaken ?z). fst t < next_source ?z \<and>
       first_nack (verdicts (settled ?z @ [(?a, Some shut_down)]) (fst t)) \<noteq> None"
      using M i by (auto simp: messages_ok_def undrawn_def verdicts_snoc first_nack_snoc)
  qed (use M P C in \<open>auto simp: messages_ok_def ac_simps\<close>)
  moreover have "abandon_parked p (s\<lparr>parked_batches := []\<rparr>) = settle (Some shut_down) ?a ?z"
    by (simp add: abandon_parked_def undrawn_def Let_def)
  ultimately show ?thesis by (simp add: in_inv_def)
qed

lemma in_inv_closed:
  assumes "in_inv s" and "parked_batches s = []" and "reader s = Resting a" and "0 < n"
  shows "in_inv (s\<lparr>in_closed := True, in_policy := q, assembly := n\<rparr>)"
  using assms by (simp add: in_inv_def groups_ok_def shape_ok_def messages_ok_def)

lemma in_inv_close:
  assumes I: "in_inv s" and R: "reader s = Resting a"
  shows "in_inv (close_in s)"
proof -
  let ?q = "snd (take_batch 0 (in_policy s))"
  let ?t = "settle (Some shut_down) (current s) (taken_out s ?q)"
  have T: "in_inv ?t" by (rule in_inv_settle_current [OF I]) simp
  have A: "0 < assembly s" using I by (simp add: in_inv_def shape_ok_def)
  show ?thesis
  proof (cases "parked_batches s")
    case Nil
    have "close_in s = ?t\<lparr>in_closed := True, in_policy := in_policy s, assembly := assembly s\<rparr>"
      by (simp add: close_in_def abandon_def settle_def current_def taken_out_def Let_def Nil)
    moreover have "in_inv (?t\<lparr>in_closed := True, in_policy := in_policy s, assembly := assembly s\<rparr>)"
      by (rule in_inv_closed [OF T]) (use A R Nil in \<open>simp_all add: settle_def taken_out_def\<close>)
    ultimately show ?thesis by (simp only:)
  next
    case (Cons p rest)
    then have P: "parked_batches s = [p]" using I by (simp add: in_inv_def shape_ok_def)
    have "in_inv (abandon_parked p (?t\<lparr>parked_batches := []\<rparr>))"
      by (rule in_inv_abandon_parked [OF T]) (simp_all add: settle_def taken_out_def P)
    then have "in_inv ((abandon_parked p (?t\<lparr>parked_batches := []\<rparr>))
        \<lparr>in_closed := True, in_policy := in_policy s, assembly := assembly s\<rparr>)"
      by (rule in_inv_closed) (use A R in \<open>simp_all add: abandon_parked_def settle_def taken_out_def Let_def\<close>)
    moreover have "close_in s = (abandon_parked p (?t\<lparr>parked_batches := []\<rparr>))
        \<lparr>in_closed := True, in_policy := in_policy s, assembly := assembly s\<rparr>"
      by (simp add: close_in_def abandon_def abandon_parked_def settle_def current_def taken_out_def Let_def P)
    ultimately show ?thesis by (simp only:)
  qed
qed

lemma in_inv_step:
  assumes "in_step c s s'" and I: "in_inv s"
  shows "in_inv s'"
  using assms(1)
proof cases
  case (read_call a)
  then show ?thesis using in_inv_reader [OF I] by simp
next
  case (read_turn now)
  then have "\<not> in_closed s" using I by (auto simp: in_inv_def shape_ok_def)
  then show ?thesis using in_inv_read_pass [OF I] read_turn by simp
next
  case (timed_out t now)
  then have "\<not> in_closed s" using I by (auto simp: in_inv_def shape_ok_def)
  then show ?thesis
    using in_inv_give [OF I] in_inv_reader [OF I] timed_out by (simp add: read_timed_out_def)
next
  case (filled b)
  then show ?thesis using in_inv_park [OF I] by simp
next
  case fill_end
  then show ?thesis using in_inv_signal [OF in_inv_done [OF I]] by (simp add: fill_ends_def)
next
  case (acknowledged k e)
  then show ?thesis using in_inv_acknowledge [OF I] by simp
next
  case abort
  then show ?thesis using in_inv_abort [OF I] by simp
next
  case (close a)
  then show ?thesis using in_inv_close [OF I] by simp
qed

lemma in_inv_new: "parts p = [] \<Longrightarrow> in_inv (new_batched_in p)"
  by (simp add: in_inv_def groups_ok_def shape_ok_def messages_ok_def new_batched_in_def)

lemma in_inv_reachable: "in_reachable c s \<Longrightarrow> in_inv s"
  by (induction rule: in_reachable.induct) (simp_all add: in_inv_new in_inv_step)

section \<open>What the acknowledgements promise\<close>

lemma first_nack_None: "first_nack vs = None \<longleftrightarrow> (\<forall>v\<in>set vs. v = None)"
  by (induction vs) (auto simp: first_nack_def split: option.splits list.splits)

definition of_source :: "nat \<Rightarrow> (nat \<times> ('b, 'v) msg) list \<Rightarrow> (nat \<times> ('b, 'v) msg) multiset" where
  "of_source i ts = filter_mset (\<lambda>t. fst t = i) (mset ts)"

lemma of_source_empty: "i \<notin> fst ` set ts \<Longrightarrow> of_source i ts = {#}"
  by (induction ts) (auto simp: of_source_def)

lemma of_source_append: "of_source i (xs @ ys) = of_source i xs + of_source i ys"
  by (simp add: of_source_def)

lemma owed_zero:
  assumes "owed_to ch os i = 0"
  shows "i \<notin> set ch \<and> (\<forall>a\<in>set os. i \<notin> set (members a))"
proof -
  have "count_list ch i = 0" "\<forall>n\<in>set (map (\<lambda>a. count_list (members a) i) os). n = 0"
    using assms by (auto simp: owed_to_def sum_list_eq_0_iff)
  then show ?thesis by (auto simp: count_list_0_iff)
qed

lemma called_once:
  assumes "ack_inv s n fe g" and "parent_calls g = [r]"
  shows "s \<and> n = 0 \<and> fe = r"
  using assms by (auto simp: ack_inv_def split: if_splits)

lemma acked_is_settled:
  assumes I: "in_inv s" and i: "i < next_source s" and A: "parent_calls (groups_of s i) = [None]"
  shows "of_source i (taken_in s) = of_source i (concat (map (tagged \<circ> fst) (settled s))) \<and>
    (\<forall>(a, e)\<in>set (settled s). i \<in> set (members a) \<longrightarrow> e = None)"
proof -
  have M: "messages_ok s" using I by (simp add: in_inv_def)
  have G: "ack_inv (i \<notin> parked_sources (parked_batches s)) (owed_to (children s) (outstanding s) i + 0)
      (first_nack (verdicts (settled s) i)) (groups_of s i)"
    using I i by (simp add: in_inv_def groups_ok_def)
  note C = called_once [OF G A]
  have ch: "i \<notin> set (children s)" and os: "\<forall>a\<in>set (outstanding s). i \<notin> set (members a)"
    using owed_zero [of "children s" "outstanding s" i] C by simp_all
  have d: "of_source i (drawn s) = {#}"
    by (rule of_source_empty) (use M ch in \<open>auto simp: messages_ok_def\<close>)
  have o: "of_source i (concat (map tagged (outstanding s))) = {#}"
    by (rule of_source_empty) (use M os in \<open>fastforce simp: messages_ok_def\<close>)
  have f: "of_source i (forsaken s) = {#}"
    by (rule of_source_empty) (use M C in \<open>auto simp: messages_ok_def\<close>)
  have p: "of_source i (concat (map undrawn (parked_batches s))) = {#}"
    by (rule of_source_empty) (use C in \<open>auto simp: parked_sources_def undrawn_def\<close>)
  have "mset (taken_in s) = mset (drawn s @ concat (map tagged (outstanding s)) @
      concat (map (tagged \<circ> fst) (settled s)) @ forsaken s @ concat (map undrawn (parked_batches s)))"
    using M by (simp add: messages_ok_def ac_simps)
  then have "of_source i (taken_in s) = of_source i (drawn s @ concat (map tagged (outstanding s)) @
      concat (map (tagged \<circ> fst) (settled s)) @ forsaken s @ concat (map undrawn (parked_batches s)))"
    by (simp only: of_source_def)
  then have "of_source i (taken_in s) = of_source i (concat (map (tagged \<circ> fst) (settled s)))"
    by (simp add: of_source_append d o f p)
  moreover have "\<forall>(a, e)\<in>set (settled s). i \<in> set (members a) \<longrightarrow> e = None"
    using C by (force simp: first_nack_None verdicts_def)
  ultimately show ?thesis by simp
qed

text \<open>C22:
  A source batch is acknowledged only when all of it has been delivered.  In every reachable state,
  a source batch whose own acknowledgement has been called with success has every one of its
  messages, as often as it was read, in assembled batches that were settled, all with success;
  no source batch is acknowledged twice; and one that is not acknowledged yet still has messages
  parked or an assembly that is charged to it and not settled, so that it will be.
\<close>

theorem source_acknowledged_when_delivered:
  assumes "in_reachable c s" and "i < next_source s"
  shows "(parent_calls (groups_of s i) = [None] \<longrightarrow>
      of_source i (taken_in s) = of_source i (concat (map (tagged \<circ> fst) (settled s))) \<and>
      (\<forall>(a, e)\<in>set (settled s). i \<in> set (members a) \<longrightarrow> e = None)) \<and>
    length (parent_calls (groups_of s i)) \<le> 1 \<and>
    (parent_calls (groups_of s i) = [] \<longrightarrow> i \<in> parked_sources (parked_batches s) \<or>
      i \<in> set (children s) \<or> (\<exists>a\<in>set (outstanding s). i \<in> set (members a)))"
proof -
  have I: "in_inv s" by (rule in_inv_reachable [OF assms(1)])
  have G: "ack_inv (i \<notin> parked_sources (parked_batches s)) (owed_to (children s) (outstanding s) i)
      (first_nack (verdicts (settled s) i)) (groups_of s i)"
    using I assms(2) by (simp add: in_inv_def groups_ok_def)
  have n: "owed_to (children s) (outstanding s) i = 0"
    if "i \<notin> set (children s)" "\<forall>a\<in>set (outstanding s). i \<notin> set (members a)"
    using that by (simp add: owed_to_def count_notin sum_list_eq_0_iff)
  show ?thesis
    using acked_is_settled [OF I assms(2)] G n by (auto simp: ack_inv_def split: if_splits)
qed

text \<open>
  A source batch of two messages over a policy of count one: two assembled batches, the first of
  them acknowledged before the second.
\<close>

definition one_each :: "(nat, bytes) in_config" where
  "one_each = \<lparr>in_procs = [], in_bytes = (\<lambda>_. 0)\<rparr>"

definition in_filled :: "(nat, bytes) batched_in" where
  "in_filled = park [plain 1, plain 2] (new_batched_in (make_policy 1 0 0 None 0))"

definition in_first :: "(nat, bytes) batched_in" where
  "in_first = read_pass one_each 0 (in_filled\<lparr>reader := Turning\<rparr>)"

definition in_second :: "(nat, bytes) batched_in" where
  "in_second = read_pass one_each 0 (in_first\<lparr>reader := Turning\<rparr>)"

definition in_acked :: "(nat, bytes) batched_in" where
  "in_acked = acknowledge_in 0 None (acknowledge_in 0 None in_second)"

lemmas in_demo = one_each_def park_def signal_filled_def new_batched_in_def make_policy_def read_pass_def
  draw_front_def charge_def add_def flush_in_def take_batch_def give_def Let_def settle_def
  in_filled_def in_first_def in_second_def in_acked_def acknowledge_in_def resolve_child_def

lemma in_filled_reachable: "in_reachable one_each in_filled"
  unfolding in_filled_def
  by (rule step [OF start filled]) (simp_all add: make_policy_def new_batched_in_def)

lemma in_first_reachable: "in_reachable one_each in_first"
proof -
  have "in_reachable one_each (in_filled\<lparr>reader := Turning\<rparr>)"
    by (rule step [OF in_filled_reachable read_call]) (simp_all add: in_demo)
  then show ?thesis unfolding in_first_def by (rule step) (rule read_turn; simp add: in_demo)
qed

lemma in_second_reachable: "in_reachable one_each in_second"
proof -
  have "in_reachable one_each (in_first\<lparr>reader := Turning\<rparr>)"
    by (rule step [OF in_first_reachable read_call]) (simp_all add: in_demo)
  then show ?thesis unfolding in_second_def by (rule step) (rule read_turn; simp add: in_demo)
qed

lemma in_acked_reachable: "in_reachable one_each in_acked"
proof -
  have "in_reachable one_each (acknowledge_in 0 None in_second)"
    by (rule step [OF in_second_reachable acknowledged]) (simp add: in_demo)
  then show ?thesis unfolding in_acked_def by (rule step) (rule acknowledged, simp add: in_demo)
qed

lemma in_acked_calls:
  "parent_calls (groups_of in_acked 0) = [None] \<and> next_source in_acked = 1 \<and>
   parent_calls (groups_of in_second 0) = []"
  by (simp add: in_demo make_group_def add_child_def child_done_def seal_def fire_def)

lemma source_acknowledged_when_delivered_witness:
  "of_source 0 (concat (map (tagged \<circ> fst) (settled in_acked))) = {#(0, plain 1), (0, plain 2)#}"
proof -
  have "of_source 0 (taken_in in_acked) = {#(0, plain 1), (0, plain 2)#}"
    by (simp add: in_demo of_source_def)
  then show ?thesis
    using source_acknowledged_when_delivered [OF in_acked_reachable, of 0] in_acked_calls by simp
qed

end
