(* ===== verification/Buffered_Input.thy ===== *)
theory Buffered_Input
  imports Batched_Input
begin

text \<open>
  \<open>buffered_input\<close> of \<open>src/components/io.cc\<close>: the source is acknowledged on arrival and its batches
  are parked up to a limit in bytes; the reader hands them over one by one, or, with a batching
  policy, draws messages from them into assembled batches that go through the processors.  The filler
  and the reader interleave; the byte count is an unbounded integer here, an \<open>int64_t\<close> in the code.
  \<open>accepted\<close>, \<open>assembled\<close>, \<open>handed\<close>, \<open>oversize\<close> and \<open>abandoned\<close> are histories.
\<close>

section \<open>State\<close>

datatype ('b, 'v) filler = Fill_read | Fill_hold "('b, 'v) msgs" | Fill_stopped

record ('b, 'v) buffered =
  bf_parked :: "('b, 'v) msgs list"
  front_taken :: nat
  bf_ready :: "('b, 'v) msgs list"
  bf_bytes :: int
  bf_done :: bool
  bf_policy :: "('b, 'v) msg batch_policy"
  bf_aborted :: bool
  bf_filler :: "('b, 'v) filler"
  bf_reader :: "('b, 'v) reader"
  accepted :: "('b, 'v) msgs list"
  assembled :: "('b, 'v) msgs list"
  handed :: "('b, 'v) msgs list"
  oversize :: "('b, 'v) msgs list"
  abandoned :: "('b, 'v) msgs list"

record ('b, 'v) buffer_config =
  bf_limit :: int
  bf_batching :: bool
  bf_procs :: "('b, 'v) out_processor list"
  bf_size :: "('b, 'v) msg \<Rightarrow> nat"

definition new_buffered :: "('b, 'v) msg batch_policy \<Rightarrow> ('b, 'v) buffered" where
  "new_buffered p = \<lparr>bf_parked = [], front_taken = 0, bf_ready = [], bf_bytes = 0, bf_done = False,
     bf_policy = p, bf_aborted = False, bf_filler = Fill_read, bf_reader = Resting None,
     accepted = [], assembled = [], handed = [], oversize = [], abandoned = []\<rparr>"

definition bytes_of_batch :: "('m \<Rightarrow> nat) \<Rightarrow> 'm list \<Rightarrow> int" where
  "bytes_of_batch size_of b = (\<Sum>m\<leftarrow>b. int (size_of m))"

section \<open>The filler\<close>

definition signal_reader :: "('b, 'v) buffered \<Rightarrow> ('b, 'v) buffered" where
  "signal_reader s = (case bf_reader s of Waiting _ \<Rightarrow> s\<lparr>bf_reader := Turning\<rparr> | _ \<Rightarrow> s)"

definition stop_filling :: "('b, 'v) buffered \<Rightarrow> ('b, 'v) buffered" where
  "stop_filling s = signal_reader (s\<lparr>bf_filler := Fill_stopped, bf_done := True\<rparr>)"

text \<open>The wait for room, re-checked each time the filler is woken.\<close>

definition fill_room :: "('b, 'v) buffer_config \<Rightarrow> ('b, 'v) msgs \<Rightarrow> ('b, 'v) buffered \<Rightarrow> ('b, 'v) buffered" where
  "fill_room c b s = (let extra = bytes_of_batch (bf_size c) b in
     if bf_bytes s + extra > bf_limit c \<and> \<not> bf_aborted s then s\<lparr>bf_filler := Fill_hold b\<rparr>
     else if bf_aborted s then stop_filling (s\<lparr>abandoned := abandoned s @ [b]\<rparr>)
     else signal_reader (s\<lparr>bf_bytes := bf_bytes s + extra, bf_parked := bf_parked s @ [b],
            accepted := accepted s @ [b], bf_filler := Fill_read\<rparr>))"

text \<open>A batch read: the source is acknowledged in both cases, before anything is parked.\<close>

definition fill_one :: "('b, 'v) buffer_config \<Rightarrow> ('b, 'v) msgs \<Rightarrow> ('b, 'v) buffered \<Rightarrow> ('b, 'v) buffered" where
  "fill_one c b s = (if bytes_of_batch (bf_size c) b > bf_limit c then s\<lparr>oversize := oversize s @ [b]\<rparr>
     else fill_room c b s)"

section \<open>The reader\<close>

text \<open>
  What is drawn from the parked batches, with the cursor into the first of them: the messages, the
  batches left, the cursor, and whether the policy triggered.
\<close>

fun draw_parked :: "('m \<Rightarrow> nat) \<Rightarrow> int \<Rightarrow> 'm list list \<Rightarrow> nat \<Rightarrow> 'm batch_policy \<Rightarrow>
    'm list \<times> 'm list list \<times> nat \<times> bool \<times> 'm batch_policy" where
  "draw_parked size_of now [] cursor p = ([], [], 0, False, p)"
| "draw_parked size_of now (f # fs) cursor p =
     (case draw_until size_of now (drop cursor f) p of (n, trigger, p) \<Rightarrow>
        let got = take n (drop cursor f) in
        if cursor + n \<noteq> length f then (got, f # fs, cursor + n, trigger, p)
        else if trigger then (got, fs, 0, True, p)
        else (case draw_parked size_of now fs 0 p of (more_got, rest, k, t, p) \<Rightarrow>
          (got @ more_got, rest, k, t, p)))"

text \<open>The batches the processors made of one assembled batch; none when they failed.\<close>

definition outcome_of :: "('b, 'v) buffer_config \<Rightarrow> ('b, 'v) msgs \<Rightarrow> ('b, 'v) msgs list" where
  "outcome_of c b = (case in_processors (bf_procs c) [b] of Inl e \<Rightarrow> [] | Inr bs \<Rightarrow> bs)"

definition hand :: "('b, 'v) msgs \<Rightarrow> ('b, 'v) buffered \<Rightarrow> ('b, 'v) buffered" where
  "hand b s = s\<lparr>bf_reader := Resting (Some (Batch b)), handed := handed s @ [b]\<rparr>"

definition flush_buffer :: "('b, 'v) buffer_config \<Rightarrow> int \<Rightarrow> ('b, 'v) reader \<Rightarrow> ('b, 'v) buffered \<Rightarrow> ('b, 'v) buffered" where
  "flush_buffer c now otherwise s = (case take_batch now (bf_policy s) of (b, p) \<Rightarrow>
     let s = s\<lparr>bf_policy := p\<rparr> in
     if b = [] then s\<lparr>bf_reader := otherwise\<rparr>
     else let s = s\<lparr>assembled := assembled s @ [b]\<rparr> in
       case outcome_of c b of
         [] \<Rightarrow> s\<lparr>bf_reader := otherwise\<rparr>
       | first # rest \<Rightarrow> hand first (s\<lparr>bf_ready := bf_ready s @ rest\<rparr>))"

text \<open>The part of a pass behind the two queues: the end of the input, or a wait.\<close>

definition buffer_idle :: "('b, 'v) buffer_config \<Rightarrow> int \<Rightarrow> ('b, 'v) buffered \<Rightarrow> ('b, 'v) buffered" where
  "buffer_idle c now s =
     (if bf_done s \<and> bf_parked s = [] \<and> bf_ready s = [] then
        (if bf_batching c \<and> \<not> policy_empty (bf_policy s)
         then flush_buffer c now (Resting (Some End_of_input)) s
         else s\<lparr>bf_reader := Resting (Some End_of_input)\<rparr>)
      else if bf_aborted s then s\<lparr>bf_reader := Resting (Some End_of_input)\<rparr>
      else let until = (if bf_batching c then until_next now (bf_policy s) else 0) in
        s\<lparr>bf_reader := Waiting (if bf_batching c \<and> \<not> policy_empty (bf_policy s) \<and> until > 0
             then Some (now + until * ns_per_ms) else None)\<rparr>)"

definition buffer_pass :: "('b, 'v) buffer_config \<Rightarrow> int \<Rightarrow> ('b, 'v) buffered \<Rightarrow> ('b, 'v) buffered" where
  "buffer_pass c now s = (case bf_ready s of
     b # rest \<Rightarrow> hand b (s\<lparr>bf_ready := rest\<rparr>)
   | [] \<Rightarrow> (case bf_parked s of
       [] \<Rightarrow> buffer_idle c now s
     | f # fs \<Rightarrow>
         if \<not> bf_batching c
         then hand f (s\<lparr>bf_parked := fs, bf_bytes := bf_bytes s - bytes_of_batch (bf_size c) f\<rparr>)
         else (case draw_parked (bf_size c) now (f # fs) (front_taken s) (bf_policy s) of
             (got, rest, k, trigger, p) \<Rightarrow>
           let s = s\<lparr>bf_parked := rest, front_taken := k, bf_policy := p,
                     bf_bytes := bf_bytes s - bytes_of_batch (bf_size c) got\<rparr>
           in if trigger then flush_buffer c now Turning s else buffer_idle c now s)))"

definition buffer_timed_out :: "('b, 'v) buffer_config \<Rightarrow> int \<Rightarrow> ('b, 'v) buffered \<Rightarrow> ('b, 'v) buffered" where
  "buffer_timed_out c now s =
     (if bf_batching c \<and> \<not> policy_empty (bf_policy s) then flush_buffer c now Turning s
      else s\<lparr>bf_reader := Turning\<rparr>)"

text \<open>The abort breaks the condition variable: a filler or a reader that waits on it stops.\<close>

definition buffer_abort :: "('b, 'v) buffered \<Rightarrow> ('b, 'v) buffered" where
  "buffer_abort s =
     (let s = s\<lparr>bf_aborted := True\<rparr>;
          s = (case bf_filler s of Fill_hold b \<Rightarrow> s\<lparr>bf_filler := Fill_stopped, abandoned := abandoned s @ [b]\<rparr> | _ \<Rightarrow> s)
      in case bf_reader s of Waiting _ \<Rightarrow> s\<lparr>bf_reader := Resting (Some End_of_input)\<rparr> | _ \<Rightarrow> s)"

inductive buffer_step :: "('b, 'v) buffer_config \<Rightarrow> ('b, 'v) buffered \<Rightarrow> ('b, 'v) buffered \<Rightarrow> bool"
  for c :: "('b, 'v) buffer_config"
where
  bf_call: "bf_reader s = Resting a \<Longrightarrow> buffer_step c s (s\<lparr>bf_reader := Turning\<rparr>)"
| bf_turn: "bf_reader s = Turning \<Longrightarrow> buffer_step c s (buffer_pass c now s)"
| bf_timeout: "bf_reader s = Waiting (Some t) \<Longrightarrow> t \<le> now \<Longrightarrow> buffer_step c s (buffer_timed_out c now s)"
| bf_fill: "bf_filler s = Fill_read \<Longrightarrow> buffer_step c s (fill_one c b s)"
| bf_room: "bf_filler s = Fill_hold b \<Longrightarrow> buffer_step c s (fill_room c b s)"
| bf_end: "bf_filler s = Fill_read \<Longrightarrow> buffer_step c s (stop_filling s)"
| bf_abort: "buffer_step c s (buffer_abort s)"

inductive buffer_reachable :: "('b, 'v) buffer_config \<Rightarrow> ('b, 'v) buffered \<Rightarrow> bool"
  for c :: "('b, 'v) buffer_config"
where
  bf_start: "parts p = [] \<Longrightarrow> buffer_reachable c (new_buffered p)"
| bf_next: "buffer_reachable c s \<Longrightarrow> buffer_step c s s' \<Longrightarrow> buffer_reachable c s'"

section \<open>The invariant\<close>

definition not_drawn :: "('b, 'v) buffered \<Rightarrow> ('b, 'v) msgs" where
  "not_drawn s = drop (front_taken s) (concat (bf_parked s))"

fun cursor_in :: "'m list list \<Rightarrow> nat \<Rightarrow> bool" where
  "cursor_in [] k \<longleftrightarrow> k = 0"
| "cursor_in (f # fs) k \<longleftrightarrow> k \<le> length f"

definition cursor_ok :: "('b, 'v) buffered \<Rightarrow> bool" where
  "cursor_ok s \<longleftrightarrow> cursor_in (bf_parked s) (front_taken s)"

definition bytes_ok :: "('b, 'v) buffer_config \<Rightarrow> ('b, 'v) buffered \<Rightarrow> bool" where
  "bytes_ok c s \<longleftrightarrow> bf_bytes s = bytes_of_batch (bf_size c) (not_drawn s) \<and> bf_bytes s \<le> max 0 (bf_limit c)"

definition order_ok :: "('b, 'v) buffer_config \<Rightarrow> ('b, 'v) buffered \<Rightarrow> bool" where
  "order_ok c s \<longleftrightarrow>
     (if bf_batching c
      then concat (accepted s) = concat (assembled s) @ parts (bf_policy s) @ not_drawn s \<and>
           handed s @ bf_ready s = concat (map (outcome_of c) (assembled s))
      else accepted s = handed s @ bf_parked s \<and> bf_ready s = [] \<and> front_taken s = 0 \<and>
           parts (bf_policy s) = [] \<and> assembled s = [])"

definition buffer_inv :: "('b, 'v) buffer_config \<Rightarrow> ('b, 'v) buffered \<Rightarrow> bool" where
  "buffer_inv c s \<longleftrightarrow> cursor_ok s \<and> bytes_ok c s \<and> order_ok c s \<and>
     (\<forall>w. bf_reader s = Waiting w \<longrightarrow> bf_parked s = [] \<and> bf_ready s = [])"

lemma cursor_in_0 [simp]: "cursor_in ps 0"
  by (cases ps) simp_all

lemma draw_parked_ok:
  assumes "draw_parked size_of now ps k p = (got, rest, k', t, q)"
    and "cursor_in ps k"
  shows "drop k (concat ps) = got @ drop k' (concat rest) \<and> parts q = parts p @ got \<and>
    cursor_in rest k' \<and> (\<not> t \<longrightarrow> rest = [])"
  using assms
proof (induction ps arbitrary: k p got rest k' t q)
  case (Cons f fs)
  obtain n tr p' where d: "draw_until size_of now (drop k f) p = (n, tr, p')"
    by (cases "draw_until size_of now (drop k f) p") auto
  note D = draw_until_ok [OF d]
  have k: "k \<le> length f" using Cons.prems(2) by simp
  show ?case
  proof (cases "k + n = length f")
    case False
    then have "got = take n (drop k f)" "rest = f # fs" "k' = k + n" "t = tr" "q = p'"
      using Cons.prems(1) by (simp_all add: d Let_def)
    moreover have "tr" using False D k by auto
    moreover have "drop k f = take n (drop k f) @ drop (k + n) f"
      by (metis append_take_drop_id drop_drop add.commute)
    moreover have "k + n \<le> length f" using D k by auto
    ultimately show ?thesis using D k by simp
  next
    case True
    then have all: "take n (drop k f) = drop k f" by simp
    show ?thesis
    proof (cases tr)
      case True
      then show ?thesis using Cons.prems(1) \<open>k + n = length f\<close> D k all
        by (auto simp: d Let_def)
    next
      case False
      obtain got' rest' k2 t2 q2 where r: "draw_parked size_of now fs 0 p' = (got', rest', k2, t2, q2)"
        by (cases "draw_parked size_of now fs 0 p'") auto
      have "cursor_in fs 0" by (cases fs) simp_all
      from Cons.IH [OF r this] show ?thesis
        using Cons.prems(1) \<open>k + n = length f\<close> D k all False by (auto simp: d r Let_def)
    qed
  qed
qed simp

lemma bytes_of_batch_simps [simp]:
  "bytes_of_batch f [] = 0" "bytes_of_batch f (xs @ ys) = bytes_of_batch f xs + bytes_of_batch f ys"
  "0 \<le> bytes_of_batch f xs"
  by (auto simp: bytes_of_batch_def intro!: sum_list_nonneg)

lemmas buffer_parts = cursor_ok_def bytes_ok_def order_ok_def not_drawn_def

lemma bf_reader_free [simp]:
  "not_drawn (s\<lparr>bf_reader := r\<rparr>) = not_drawn s" "cursor_ok (s\<lparr>bf_reader := r\<rparr>) = cursor_ok s"
  "bytes_ok c (s\<lparr>bf_reader := r\<rparr>) = bytes_ok c s" "order_ok c (s\<lparr>bf_reader := r\<rparr>) = order_ok c s"
  by (simp_all add: buffer_parts)

lemma bf_filler_free [simp]:
  "not_drawn (s\<lparr>bf_filler := r\<rparr>) = not_drawn s" "cursor_ok (s\<lparr>bf_filler := r\<rparr>) = cursor_ok s"
  "bytes_ok c (s\<lparr>bf_filler := r\<rparr>) = bytes_ok c s" "order_ok c (s\<lparr>bf_filler := r\<rparr>) = order_ok c s"
  by (simp_all add: buffer_parts)

lemma bf_aborted_free [simp]:
  "not_drawn (s\<lparr>bf_aborted := r\<rparr>) = not_drawn s" "cursor_ok (s\<lparr>bf_aborted := r\<rparr>) = cursor_ok s"
  "bytes_ok c (s\<lparr>bf_aborted := r\<rparr>) = bytes_ok c s" "order_ok c (s\<lparr>bf_aborted := r\<rparr>) = order_ok c s"
  by (simp_all add: buffer_parts)

lemma abandoned_free [simp]:
  "not_drawn (s\<lparr>abandoned := r\<rparr>) = not_drawn s" "cursor_ok (s\<lparr>abandoned := r\<rparr>) = cursor_ok s"
  "bytes_ok c (s\<lparr>abandoned := r\<rparr>) = bytes_ok c s" "order_ok c (s\<lparr>abandoned := r\<rparr>) = order_ok c s"
  by (simp_all add: buffer_parts)

lemma buffer_inv_reader:
  "buffer_inv c s \<Longrightarrow> (\<forall>w. r = Waiting w \<longrightarrow> bf_parked s = [] \<and> bf_ready s = []) \<Longrightarrow>
     buffer_inv c (s\<lparr>bf_reader := r\<rparr>)"
  by (simp add: buffer_inv_def buffer_parts)

lemma buffer_inv_flush:
  assumes I: "buffer_inv c s" and R: "bf_ready s = []" and B: "bf_batching c"
    and r: "\<forall>w. otherwise \<noteq> Waiting w"
  shows "buffer_inv c (flush_buffer c now otherwise s)"
  using I R B r
  by (simp add: flush_buffer_def take_batch_def hand_def buffer_inv_def buffer_parts Let_def
      split: list.split)

lemma buffer_inv_idle:
  assumes I: "buffer_inv c s" and R: "bf_ready s = []" and P: "bf_parked s = []"
  shows "buffer_inv c (buffer_idle c now s)"
  using buffer_inv_flush [OF I R] buffer_inv_reader [OF I] R P
  by (simp add: buffer_idle_def Let_def)

lemma buffer_inv_pass:
  assumes I: "buffer_inv c s"
  shows "buffer_inv c (buffer_pass c now s)"
proof (cases "bf_ready s")
  case (Cons b rest)
  then show ?thesis
    using I by (simp add: buffer_pass_def hand_def buffer_inv_def buffer_parts split: if_splits)
next
  case R: Nil
  show ?thesis
  proof (cases "bf_parked s")
    case Nil
    then show ?thesis using R buffer_inv_idle [OF I R] by (simp add: buffer_pass_def)
  next
    case (Cons f fs)
    show ?thesis
    proof (cases "bf_batching c")
      case False
      have "bf_bytes s \<le> max 0 (bf_limit c)" using I by (simp add: buffer_inv_def bytes_ok_def)
      moreover have "bytes_of_batch (bf_size c) f \<ge> 0" by simp
      ultimately have "bf_bytes s - bytes_of_batch (bf_size c) f \<le> max 0 (bf_limit c)" by linarith
      then show ?thesis
        using I R Cons False
        by (simp add: buffer_pass_def hand_def buffer_inv_def buffer_parts split: list.split)
    next
      case True
      obtain got rest k t p where
        d: "draw_parked (bf_size c) now (f # fs) (front_taken s) (bf_policy s) = (got, rest, k, t, p)"
        by (cases "draw_parked (bf_size c) now (f # fs) (front_taken s) (bf_policy s)") auto
      let ?s = "s\<lparr>bf_parked := rest, front_taken := k, bf_policy := p,
        bf_bytes := bf_bytes s - bytes_of_batch (bf_size c) got, bf_reader := Turning\<rparr>"
      have D: "drop (front_taken s) (concat (f # fs)) = got @ drop k (concat rest) \<and>
          parts p = parts (bf_policy s) @ got \<and>
          cursor_in rest k \<and> (\<not> t \<longrightarrow> rest = [])"
        by (rule draw_parked_ok [OF d]) (use I Cons in \<open>simp add: buffer_inv_def cursor_ok_def\<close>)
      have "bf_bytes s \<le> max 0 (bf_limit c)" using I by (simp add: buffer_inv_def bytes_ok_def)
      moreover have "bytes_of_batch (bf_size c) got \<ge> 0" by simp
      ultimately have g: "bf_bytes s - bytes_of_batch (bf_size c) got \<le> max 0 (bf_limit c)" by linarith
      have "not_drawn s = got @ not_drawn ?s" using D Cons by (simp add: not_drawn_def)
      then have S: "buffer_inv c ?s"
        using I D True R g by (simp add: buffer_inv_def cursor_ok_def bytes_ok_def order_ok_def)
      have "buffer_inv c (flush_buffer c now Turning ?s)"
        by (rule buffer_inv_flush [OF S]) (use R True in simp_all)
      moreover have "\<not> t \<Longrightarrow> buffer_inv c (buffer_idle c now ?s)"
        by (rule buffer_inv_idle [OF S]) (use R D in simp_all)
      moreover have "buffer_pass c now s =
          (if t then flush_buffer c now Turning ?s else buffer_idle c now ?s)"
        using R Cons True d
        by (simp add: buffer_pass_def flush_buffer_def buffer_idle_def hand_def Let_def split: prod.split list.split)
      ultimately show ?thesis by simp
    qed
  qed
qed

lemma buffer_inv_signal: "buffer_inv c s \<Longrightarrow> buffer_inv c (signal_reader s)"
  using buffer_inv_reader [of c s Turning] by (cases "bf_reader s") (simp_all add: signal_reader_def)

lemma buffer_inv_ghosts:
  "buffer_inv c s \<Longrightarrow> buffer_inv c (s\<lparr>bf_filler := f, bf_done := d, bf_aborted := a, oversize := x, abandoned := y\<rparr>)"
  by (simp add: buffer_inv_def buffer_parts)

lemma buffer_inv_stop: "buffer_inv c s \<Longrightarrow> buffer_inv c (stop_filling s)"
  using buffer_inv_signal [OF buffer_inv_ghosts [of c s "abandoned s" "oversize s" "bf_aborted s" True Fill_stopped]]
  by (simp add: stop_filling_def)

lemma cursor_in_append: "cursor_in ps k \<Longrightarrow> cursor_in (ps @ qs) k"
  by (cases ps) simp_all

lemma cursor_in_drop: "cursor_in ps k \<Longrightarrow> drop k (concat (ps @ [b])) = drop k (concat ps) @ b"
  by (cases ps) auto

lemma buffer_inv_park:
  assumes I: "buffer_inv c s" and L: "bf_bytes s + bytes_of_batch (bf_size c) b \<le> bf_limit c"
  shows "buffer_inv c (signal_reader (s\<lparr>bf_bytes := bf_bytes s + bytes_of_batch (bf_size c) b,
    bf_parked := bf_parked s @ [b], accepted := accepted s @ [b], bf_filler := f\<rparr>))"
proof -
  let ?z = "s\<lparr>bf_bytes := bf_bytes s + bytes_of_batch (bf_size c) b,
    bf_parked := bf_parked s @ [b], accepted := accepted s @ [b], bf_filler := f\<rparr>"
  have "cursor_in (bf_parked s) (front_taken s)" using I by (simp add: buffer_inv_def cursor_ok_def)
  then have n: "not_drawn ?z = not_drawn s @ b" "cursor_ok ?z"
    using cursor_in_drop [of "bf_parked s" "front_taken s" b]
    by (simp_all add: not_drawn_def cursor_ok_def cursor_in_append)
  then have "bytes_ok c ?z" "order_ok c ?z" using I L by (simp_all add: buffer_inv_def bytes_ok_def order_ok_def)
  then show ?thesis
    using n(2) by (cases "bf_reader s") (simp_all add: signal_reader_def buffer_inv_def)
qed

lemma buffer_inv_room: "buffer_inv c s \<Longrightarrow> buffer_inv c (fill_room c b s)"
  using buffer_inv_park [of c s b Fill_read] buffer_inv_stop [OF buffer_inv_ghosts [of c s "abandoned s @ [b]" "oversize s" "bf_aborted s" "bf_done s" "bf_filler s"]]
    buffer_inv_ghosts [of c s "abandoned s" "oversize s" "bf_aborted s" "bf_done s" "Fill_hold b"]
  by (simp add: fill_room_def Let_def)

lemma buffer_inv_fill: "buffer_inv c s \<Longrightarrow> buffer_inv c (fill_one c b s)"
  using buffer_inv_room [of c s b] buffer_inv_ghosts [of c s "abandoned s" "oversize s @ [b]" "bf_aborted s" "bf_done s" "bf_filler s"]
  by (simp add: fill_one_def)

lemma buffer_inv_abort: "buffer_inv c s \<Longrightarrow> buffer_inv c (buffer_abort s)"
  by (cases "bf_filler s"; cases "bf_reader s") (simp_all add: buffer_abort_def buffer_inv_def)

lemma buffer_inv_step:
  assumes "buffer_step c s s'" and I: "buffer_inv c s"
  shows "buffer_inv c s'"
  using assms(1)
proof cases
  case (bf_timeout t now)
  then have "bf_ready s = []" using I by (simp add: buffer_inv_def)
  then show ?thesis
    using buffer_inv_flush [OF I] buffer_inv_reader [OF I, of Turning] bf_timeout by (simp add: buffer_timed_out_def)
qed (use I in \<open>simp_all add: buffer_inv_reader buffer_inv_pass buffer_inv_fill buffer_inv_room
       buffer_inv_stop buffer_inv_abort\<close>)

lemma buffer_inv_new: "parts p = [] \<Longrightarrow> buffer_inv c (new_buffered p)"
  by (simp add: buffer_inv_def buffer_parts new_buffered_def)

lemma buffer_inv_reachable: "buffer_reachable c s \<Longrightarrow> buffer_inv c s"
  by (induction rule: buffer_reachable.induct) (simp_all add: buffer_inv_new buffer_inv_step)

section \<open>What the buffer promises\<close>

text \<open>C23:
  The buffer keeps its bound and its order.  In every reachable state the byte count is the size of
  the messages parked and not yet drawn, and does not exceed the limit.  Without a policy the batches
  accepted are those handed over followed by those parked, in order.  With one, the messages accepted
  are those of the assembled batches, then those the policy holds, then those parked, in order,
  each once; and what has been handed over or is ready is what the processors made of the assembled
  batches, in order.
\<close>

theorem buffer_bounded_and_ordered:
  assumes "buffer_reachable c s"
  shows "bf_bytes s = bytes_of_batch (bf_size c) (drop (front_taken s) (concat (bf_parked s))) \<and>
    bf_bytes s \<le> max 0 (bf_limit c) \<and>
    (\<not> bf_batching c \<longrightarrow> accepted s = handed s @ bf_parked s) \<and>
    (bf_batching c \<longrightarrow>
       concat (accepted s) = concat (assembled s) @ parts (bf_policy s) @
         drop (front_taken s) (concat (bf_parked s)) \<and>
       handed s @ bf_ready s = concat (map (outcome_of c) (assembled s)))"
  using buffer_inv_reachable [OF assms] by (simp add: buffer_inv_def buffer_parts)

text \<open>
  The filler and the reader never wait for each other: while the reader waits nothing is parked, so
  that the batch the filler holds fits.
\<close>

lemma never_both_waiting:
  assumes "buffer_reachable c s" and "bf_reader s = Waiting w" and "bf_filler s = Fill_hold b"
    and "bytes_of_batch (bf_size c) b \<le> bf_limit c" and "\<not> bf_aborted s"
  shows "bf_parked (fill_room c b s) = [b] \<and> bf_reader (fill_room c b s) = Turning"
proof -
  have "bf_parked s = []" and "bf_bytes s = 0"
    using buffer_inv_reachable [OF assms(1)] assms(2) by (simp_all add: buffer_inv_def buffer_parts)
  then show ?thesis using assms by (simp add: fill_room_def signal_reader_def Let_def)
qed

text \<open>What a filler holds has passed the test for the limit.\<close>

lemma held_fits:
  "buffer_reachable c s \<Longrightarrow> bf_filler s = Fill_hold b \<Longrightarrow> bytes_of_batch (bf_size c) b \<le> bf_limit c"
proof (induction arbitrary: b rule: buffer_reachable.induct)
  case (bf_next s s')
  have H: "bf_filler (flush_buffer c now r s) = bf_filler s" for now r and s :: "('a, 'b) buffered"
    by (simp add: flush_buffer_def take_batch_def hand_def Let_def split: list.split)
  have K: "bf_filler (buffer_idle c now s) = bf_filler s" for now and s :: "('a, 'b) buffered"
    by (simp add: buffer_idle_def Let_def H)
  have L: "bf_filler (buffer_pass c now s) = bf_filler s" for now
    by (simp add: buffer_pass_def hand_def H K Let_def split: list.split prod.split)
  from bf_next.hyps(2) show ?case
  proof cases
    case (bf_fill b')
    then show ?thesis using bf_next.prems
      by (auto simp: fill_one_def fill_room_def stop_filling_def signal_reader_def Let_def split: if_splits reader.splits)
  next
    case (bf_room b')
    then show ?thesis using bf_next
      by (auto simp: fill_room_def stop_filling_def signal_reader_def Let_def split: if_splits reader.splits)
  next
    case bf_end
    then show ?thesis using bf_next.prems by (auto simp: stop_filling_def signal_reader_def split: reader.splits)
  next
    case bf_abort
    then show ?thesis using bf_next
      by (auto simp: buffer_abort_def Let_def split: filler.splits reader.splits)
  qed (use bf_next in \<open>auto simp: L H buffer_timed_out_def split: if_splits\<close>)
qed (simp add: new_buffered_def)

text \<open>Two messages of three bytes in a buffer of five: the second waits until the first is read.\<close>

definition five :: "(nat, bytes) buffer_config" where
  "five = \<lparr>bf_limit = 5, bf_batching = False, bf_procs = [], bf_size = (\<lambda>_. 3)\<rparr>"

definition one_parked :: "(nat, bytes) buffered" where
  "one_parked = fill_one five [plain 1] (new_buffered (make_policy 0 0 0 None 0))"

definition one_held :: "(nat, bytes) buffered" where
  "one_held = fill_one five [plain 2] one_parked"

lemmas buffer_demo = one_held_def one_parked_def five_def fill_one_def fill_room_def new_buffered_def
  make_policy_def signal_reader_def bytes_of_batch_def Let_def

lemma one_held_reachable: "buffer_reachable five one_held"
proof -
  have "buffer_reachable five one_parked"
    unfolding one_parked_def
    by (rule bf_next [OF bf_start bf_fill]) (simp_all add: make_policy_def new_buffered_def)
  then show ?thesis unfolding one_held_def by (rule bf_next) (rule bf_fill, simp add: buffer_demo)
qed

lemma buffer_bounded_and_ordered_witness:
  "bf_filler one_held = Fill_hold [plain 2] \<and> accepted one_held = [[plain 1]] \<and> bf_bytes one_held = 3"
  using buffer_bounded_and_ordered [OF one_held_reachable] by (simp add: buffer_demo)

end
