(* ===== verification/Fan_In.thy ===== *)
theory Fan_In
  imports Batched_Input
begin

text \<open>
  \<open>broker_input\<close>, \<open>sequence_input\<close> and \<open>processed_input\<close> of \<open>src/components/io.cc\<close>.  A batch with its
  acknowledgement is abstract in the first two.  What the children answer, and which of the reads in
  flight of a broker are complete when \<open>when_any\<close> returns, is chosen by the environment.
\<close>

section \<open>Several inputs at once\<close>

text \<open>What a completed read of a child holds.\<close>

datatype 'b child_read = Got 'b | Exhausted | Broke failure

datatype 'b broker_answer = Handing 'b | Ending | Throwing failure

text \<open>
  \<open>reading\<close> is the children with a read in flight, \<open>over\<close> those that have ended, \<open>stash\<close> the
  completed batches not handed over yet.  The histories: the completed reads in the order in which
  they are looked at, and what the calls returned.
\<close>

record 'b broker =
  children_count :: nat
  reading :: "nat list"
  over :: "nat list"
  stash :: "'b list"
  completed :: "(nat \<times> 'b child_read) list"
  answers :: "'b broker_answer list"

definition new_broker :: "nat \<Rightarrow> 'b broker" where
  "new_broker n = \<lparr>children_count = n, reading = [], over = [], stash = [], completed = [], answers = []\<rparr>"

definition live :: "'b broker \<Rightarrow> nat list" where
  "live s = filter (\<lambda>i. i \<notin> set (over s)) [0..<children_count s]"

definition answer_broker :: "'b broker_answer \<Rightarrow> 'b broker \<Rightarrow> 'b broker" where
  "answer_broker a s = s\<lparr>answers := answers s @ [a]\<rparr>"

text \<open>
  The loop over the completed reads: the first batch is handed over, further ones are stashed, the
  first failure is kept, and a child that has ended is marked.
\<close>

definition batches_in :: "(nat \<times> 'b child_read) list \<Rightarrow> 'b list" where
  "batches_in rs = concat (map (\<lambda>(i, r). case r of Got b \<Rightarrow> [b] | _ \<Rightarrow> []) rs)"

definition ended_in :: "(nat \<times> 'b child_read) list \<Rightarrow> nat list" where
  "ended_in rs = map fst (filter (\<lambda>(i, r). r = Exhausted) rs)"

definition failure_in :: "(nat \<times> 'b child_read) list \<Rightarrow> failure option" where
  "failure_in rs = (case concat (map (\<lambda>(i, r). case r of Broke e \<Rightarrow> [e] | _ \<Rightarrow> []) rs) of
     [] \<Rightarrow> None | e # _ \<Rightarrow> Some e)"

text \<open>
  One pass of \<open>read_batch\<close>, with the reads that are complete when it looks; none of them answers
  the call when they are all ends of input, and the loop goes round.
\<close>

definition broker_pass :: "(nat \<times> 'b child_read) list \<Rightarrow> 'b broker \<Rightarrow> 'b broker" where
  "broker_pass rs s = (case stash s of
     b # rest \<Rightarrow> answer_broker (Handing b) (s\<lparr>stash := rest\<rparr>)
   | [] \<Rightarrow> if live s = [] then answer_broker Ending s
     else let s = s\<lparr>reading := filter (\<lambda>i. i \<notin> fst ` set rs) (live s), over := over s @ ended_in rs,
                    completed := completed s @ rs\<rparr>
       in case batches_in rs of
         b # further \<Rightarrow> answer_broker (Handing b) (s\<lparr>stash := further\<rparr>)
       | [] \<Rightarrow> (case failure_in rs of Some e \<Rightarrow> answer_broker (Throwing e) s | None \<Rightarrow> s))"

text \<open>The complete reads are of live children, at least one, in the order of the children.\<close>

definition answers_of :: "'b broker \<Rightarrow> (nat \<times> 'b child_read) list \<Rightarrow> bool" where
  "answers_of s rs \<longleftrightarrow> rs \<noteq> [] \<and> sorted_wrt (<) (map fst rs) \<and> fst ` set rs \<subseteq> set (live s)"

inductive broker_run :: "nat \<Rightarrow> 'b broker \<Rightarrow> bool" for n where
  broker_new: "broker_run n (new_broker n)"
| broker_next: "broker_run n s \<Longrightarrow> (stash s = [] \<and> live s \<noteq> [] \<longrightarrow> answers_of s rs) \<Longrightarrow>
    broker_run n (broker_pass rs s)"

definition handed_over :: "'b broker \<Rightarrow> 'b list" where
  "handed_over s = concat (map (\<lambda>a. case a of Handing b \<Rightarrow> [b] | _ \<Rightarrow> []) (answers s))"

lemma handed_over_answer [simp]:
  "handed_over (answer_broker a s) = handed_over s @ (case a of Handing b \<Rightarrow> [b] | _ \<Rightarrow> [])"
  by (simp add: handed_over_def answer_broker_def)

lemma batches_in_append [simp]: "batches_in (xs @ ys) = batches_in xs @ batches_in ys"
  by (simp add: batches_in_def)

definition broker_inv :: "nat \<Rightarrow> 'b broker \<Rightarrow> bool" where
  "broker_inv n s \<longleftrightarrow> children_count s = n \<and> handed_over s @ stash s = batches_in (completed s) \<and>
     set (over s) = set (ended_in (completed s)) \<and>
     (Ending \<in> set (answers s) \<longrightarrow> live s = [] \<and> stash s = [])"

lemma broker_inv_pass:
  assumes I: "broker_inv n s" and A: "stash s = [] \<and> live s \<noteq> [] \<longrightarrow> answers_of s rs"
  shows "broker_inv n (broker_pass rs s)"
proof (cases "stash s")
  case (Cons b rest)
  then show ?thesis
    using I by (auto simp: broker_pass_def broker_inv_def answer_broker_def handed_over_def live_def)
next
  case Nil
  show ?thesis
  proof (cases "live s = []")
    case True
    then show ?thesis
      using I Nil by (auto simp: broker_pass_def broker_inv_def answer_broker_def handed_over_def live_def)
  next
    case False
    then have E: "Ending \<notin> set (answers s)" using I by (auto simp: broker_inv_def)
    have e: "ended_in (xs @ ys) = ended_in xs @ ended_in ys" for xs ys :: "(nat \<times> 'a child_read) list"
      by (simp add: ended_in_def)
    show ?thesis
      using I Nil False E e
      by (cases "batches_in rs"; cases "failure_in rs")
        (auto simp: broker_pass_def broker_inv_def answer_broker_def handed_over_def Let_def)
  qed
qed

lemma broker_inv_run: "broker_run n s \<Longrightarrow> broker_inv n s"
proof (induction rule: broker_run.induct)
  case broker_new
  then show ?case by (simp add: broker_inv_def new_broker_def handed_over_def batches_in_def ended_in_def)
next
  case (broker_next s rs)
  then show ?case by (intro broker_inv_pass)
qed

text \<open>
  No batch a child has answered is lost or handed over twice, and the end is reported only when
  every child has ended and nothing is stashed.
\<close>

lemma broker_hands_over_everything:
  assumes "broker_run n s"
  shows "handed_over s @ stash s = batches_in (completed s) \<and>
    (Ending \<in> set (answers s) \<longrightarrow> handed_over s = batches_in (completed s) \<and>
       set [0..<n] \<subseteq> set (ended_in (completed s)))"
  using broker_inv_run [OF assms] by (auto simp: broker_inv_def live_def filter_empty_conv)

text \<open>
  The failure of a child is not reported when another child has answered a batch in the same pass.
\<close>

lemma broker_swallows_the_failure:
  "answers (broker_pass [(0, Broke e), (1, Got b)] (new_broker 2)) = [Handing b] \<and>
   stash (broker_pass [(0, Broke e), (1, Got b)] (new_broker 2)) = []"
  by (simp add: broker_pass_def new_broker_def live_def batches_in_def ended_in_def answer_broker_def Let_def)

section \<open>One input after another\<close>

text \<open>\<open>opened\<close> and \<open>shut\<close> are the histories of \<open>connect\<close> and \<open>close\<close> of the children.\<close>

record sequence =
  seq_count :: nat
  at_child :: nat
  opened :: "nat list"
  shut :: "nat list"

definition connect_sequence :: "nat \<Rightarrow> sequence" where
  "connect_sequence n = \<lparr>seq_count = n, at_child = 0, opened = (if n = 0 then [] else [0]), shut = []\<rparr>"

text \<open>
  \<open>read_batch\<close>, with the answers of the children in turn: the loop closes a child that has ended and
  connects the next one.  A failure leaves the sequence where it is.
\<close>

fun sequence_read :: "'b child_read list \<Rightarrow> sequence \<Rightarrow> 'b broker_answer option \<times> sequence" where
  "sequence_read [] s = (if at_child s < seq_count s then None else Some Ending, s)"
| "sequence_read (r # rs) s =
     (if \<not> at_child s < seq_count s then (Some Ending, s)
      else case r of
        Got b \<Rightarrow> (Some (Handing b), s)
      | Broke e \<Rightarrow> (Some (Throwing e), s)
      | Exhausted \<Rightarrow> sequence_read rs (s\<lparr>shut := shut s @ [at_child s], at_child := at_child s + 1,
          opened := (if at_child s + 1 < seq_count s then opened s @ [at_child s + 1] else opened s)\<rparr>))"

definition close_sequence :: "sequence \<Rightarrow> sequence" where
  "close_sequence s = s\<lparr>shut := shut s @ [at_child s..<seq_count s]\<rparr>"

definition sequence_ok :: "sequence \<Rightarrow> bool" where
  "sequence_ok s \<longleftrightarrow> at_child s \<le> seq_count s \<and> shut s = [0..<at_child s] \<and>
     opened s = [0..<min (Suc (at_child s)) (seq_count s)]"

lemma sequence_ok_connect: "sequence_ok (connect_sequence n)"
  by (simp add: sequence_ok_def connect_sequence_def)

text \<open>At most one child is open at a time: the current one.\<close>

lemma sequence_one_open: "sequence_ok s \<Longrightarrow> sequence_ok (snd (sequence_read rs s))"
proof (induction rs s rule: sequence_read.induct)
  case (2 r rs s)
  show ?case
  proof (cases "at_child s < seq_count s \<and> r = Exhausted")
    case True
    let ?s = "s\<lparr>shut := shut s @ [at_child s], at_child := at_child s + 1,
          opened := (if at_child s + 1 < seq_count s then opened s @ [at_child s + 1] else opened s)\<rparr>"
    have "sequence_ok ?s"
      using 2(2) True le_less_linear [of "seq_count s" "Suc (at_child s)"]
      by (cases "seq_count s = Suc (at_child s)") (auto simp: sequence_ok_def min_def)
    then show ?thesis using 2 True by simp
  next
    case False
    then show ?thesis using 2(2) by (cases r) auto
  qed
qed simp

section \<open>Processors beside an input\<close>

text \<open>
  A source batch goes through the processors before the pipeline sees it.  The source is nacked
  when they fail and acknowledged when they leave nothing; otherwise each of the batches they made
  carries a child of its group, which is sealed at once.
\<close>

datatype ('b, 'v) process_result =
    Refused failure
  | Filtered
  | Split "('b, 'v) msgs list"

definition process_read :: "('b, 'v) out_processor list \<Rightarrow> ('b, 'v) msgs \<Rightarrow> ('b, 'v) process_result" where
  "process_read ps b = (if b = [] then Filtered else
     case flush_processors ps [b] of
       Inl e \<Rightarrow> Refused e
     | Inr [] \<Rightarrow> Filtered
     | Inr bs \<Rightarrow> Split bs)"

definition group_for :: "('b, 'v) msgs list \<Rightarrow> failure ack_group" where
  "group_for bs = seal (fold (\<lambda>_. add_child) bs make_group)"

record ('b, 'v) processed_input =
  pi_ready :: "(('b, 'v) msgs \<times> nat) list"
  pi_groups :: "nat \<Rightarrow> failure ack_group option"
  pi_direct :: "(nat \<times> failure option) list"
  pi_next :: nat

text \<open>One call of \<open>read_batch\<close> with what the source answers in turn; it goes on past batches that leave nothing.\<close>

fun processed_read :: "('b, 'v) out_processor list \<Rightarrow> ('b, 'v) msgs list \<Rightarrow> ('b, 'v) processed_input \<Rightarrow>
    (('b, 'v) msgs \<times> nat) option \<times> ('b, 'v) processed_input" where
  "processed_read ps reads s = (case pi_ready s of
     r # rest \<Rightarrow> (Some r, s\<lparr>pi_ready := rest\<rparr>)
   | [] \<Rightarrow> (case reads of
       [] \<Rightarrow> (None, s)
     | b # further \<Rightarrow> (let i = pi_next s; s = s\<lparr>pi_next := i + 1\<rparr> in case process_read ps b of
         Refused e \<Rightarrow> processed_read ps further (s\<lparr>pi_direct := pi_direct s @ [(i, Some e)]\<rparr>)
       | Filtered \<Rightarrow> processed_read ps further (s\<lparr>pi_direct := pi_direct s @ [(i, None)]\<rparr>)
       | Split bs \<Rightarrow> (Some (hd bs, i), s\<lparr>pi_ready := map (\<lambda>b. (b, i)) (List.tl bs),
             pi_groups := (pi_groups s)(i \<mapsto> group_for bs)\<rparr>))))"

text \<open>A group has one child for every batch it was split into, and waits for all of them.\<close>

lemma group_for_waits:
  assumes "length bs < 2 ^ 64"
  shows "ack_inv True (length bs) None (group_for bs)"
proof -
  have "ack_inv False (n + length bs) fe (fold (\<lambda>_. add_child) bs g)"
    if "ack_inv False n fe g" for n fe and g :: "failure ack_group"
    using that
  proof (induction bs arbitrary: n g)
    case (Cons b bs)
    show ?case using Cons.IH [OF ack_inv_add [OF Cons.prems]] by simp
  qed simp
  from this [OF ack_inv_make] assms show ?thesis
    unfolding group_for_def by (intro ack_inv_seal) simp_all
qed

end
