(* ===== verification/Producer.thy ===== *)
theory Producer
  imports Cluster Retry
begin

text \<open>
  \<open>src/kafka/producer.cc\<close>: the partitioner, the grouping of records by partition and by leader, the
  batches of a produce request and the retry loop.  The exchange with a broker is a parameter.
\<close>

section \<open>The partitioner\<close>

definition mm_seed :: i32 where "mm_seed = 0x9747b28c"
definition mm_m :: i32 where "mm_m = 0x5bd1e995"

definition mm_word :: "bytes \<Rightarrow> i32" where
  "mm_word d = ucast (d ! 0) OR push_bit 8 (ucast (d ! 1)) OR push_bit 16 (ucast (d ! 2)) OR
     push_bit 24 (ucast (d ! 3))"

definition mm_mix :: "i32 \<Rightarrow> i32 \<Rightarrow> i32" where
  "mm_mix h k = (let k = k * mm_m; k = k XOR drop_bit 24 k; k = k * mm_m; h = h * mm_m in h XOR k)"

text \<open>The fall-through switch over the one to three bytes left.\<close>

definition mm_tail :: "i32 \<Rightarrow> bytes \<Rightarrow> i32" where
  "mm_tail h d =
     (let n = length d;
          h = (if n = 3 then h XOR push_bit 16 (ucast (d ! 2)) else h);
          h = (if n = 3 \<or> n = 2 then h XOR push_bit 8 (ucast (d ! 1)) else h)
      in if n = 3 \<or> n = 2 \<or> n = 1 then (h XOR ucast (d ! 0)) * mm_m else h)"

function mm_loop :: "i32 \<Rightarrow> bytes \<Rightarrow> i32" where
  "mm_loop h d = (if 4 \<le> length d then mm_loop (mm_mix h (mm_word d)) (drop 4 d) else mm_tail h d)"
  by pat_completeness auto
termination by (relation "measure (\<lambda>(h, d). length d)") auto

declare mm_loop.simps [simp del]

definition murmur2 :: "bytes \<Rightarrow> i32" where
  "murmur2 d =
     (let h = mm_loop (mm_seed XOR of_nat (length d)) d;
          h = h XOR drop_bit 13 h;
          h = h * mm_m
      in h XOR drop_bit 15 h)"

definition partition_for_key :: "bytes \<Rightarrow> int \<Rightarrow> int" where
  "partition_for_key key cnt =
     (if cnt \<le> 0 then 0 else sint (murmur2 key AND 0x7fffffff) mod cnt)"

section \<open>Grouping\<close>

record produce_record =
  pr_key :: "bytes option"
  pr_value :: bytes
  pr_headers :: "record_header list"
  pr_timestamp :: i64
  pr_partition :: "int option"

type_synonym groups = "(int, produce_record list) omap"

definition push_record :: "int \<Rightarrow> produce_record \<Rightarrow> groups \<Rightarrow> groups" where
  "push_record p r g = om_set p ((case om_find g p of None \<Rightarrow> [] | Some rs \<Rightarrow> rs) @ [r]) g"

text \<open>One record: its partition, and how far the keyless spread has got.\<close>

definition choose_partition :: "int \<Rightarrow> i32 \<Rightarrow> produce_record \<Rightarrow> i32 \<Rightarrow> int \<times> i32" where
  "choose_partition cnt base r spread =
     (case pr_partition r of
        Some p \<Rightarrow> (p, spread)
      | None \<Rightarrow> (case pr_key r of
          Some k \<Rightarrow> (partition_for_key k cnt, spread)
        | None \<Rightarrow> (uint (base + spread) mod cnt, spread + 1)))"

fun group_records :: "int \<Rightarrow> i32 \<Rightarrow> produce_record list \<Rightarrow> i32 \<Rightarrow> groups \<Rightarrow> groups \<times> i32" where
  "group_records cnt base [] spread g = (g, spread)"
| "group_records cnt base (r # rs) spread g =
     (case choose_partition cnt base r spread of (p, spread) \<Rightarrow>
        group_records cnt base rs spread (push_record p r g))"

fun group_leaders :: "topic_info \<Rightarrow> int list \<Rightarrow> (int, int list) omap \<Rightarrow> kafka_error + (int, int list) omap" where
  "group_leaders ti [] g = Inr g"
| "group_leaders ti (p # ps) g =
     (case find_partition (partitions ti) p of
        None \<Rightarrow> Inl (Broker_Error leader_not_available)
      | Some pi \<Rightarrow>
          if leader pi < 0 then Inl (Broker_Error leader_not_available)
          else group_leaders ti ps
            (om_set (leader pi) ((case om_find g (leader pi) of None \<Rightarrow> [] | Some qs \<Rightarrow> qs) @ [p]) g))"

section \<open>Batches\<close>

definition empty_batch :: record_batch where
  "empty_batch = \<lparr>base_offset = 0, partition_leader_epoch = - 1, codec = C_none, transactional = False,
     control = False, timestamp_type = 0, base_timestamp = 0, max_timestamp = 0, producer_id = - 1,
     producer_epoch = - 1, base_sequence = - 1, records = []\<rparr>"

definition record_time :: "i64 \<Rightarrow> produce_record \<Rightarrow> i64" where
  "record_time now r = (if pr_timestamp r \<noteq> 0 then pr_timestamp r else now)"

definition make_batch :: "compression \<Rightarrow> i64 \<Rightarrow> produce_record list \<Rightarrow> record_batch" where
  "make_batch c now rs = empty_batch\<lparr>codec := c, base_timestamp := now,
     max_timestamp := fold (\<lambda>r mx. if sint mx < sint (record_time now r) then record_time now r else mx) rs now,
     records := map (\<lambda>(i, r). \<lparr>timestamp_delta = record_time now r - now, offset_delta = of_nat i,
       rec_key = pr_key r, rec_value = Some (pr_value r), rec_headers = pr_headers r\<rparr>) (enumerate 0 rs)\<rparr>"

section \<open>Sending\<close>

record producer_config =
  pc_topic :: bytes
  pc_codec :: compression
  pc_acks :: int
  pc_max_retries :: int

text \<open>The state: the metadata and the round-robin cursors, and the requests that went out.\<close>

record produce_request =
  rq_node :: int
  rq_topic :: bytes
  rq_acks :: int
  rq_batches :: "(int \<times> record_batch) list"

record producer =
  p_cluster :: cluster
  p_cursor :: "(bytes, i32) omap"
  p_sent :: "produce_request list"

text \<open>
  What the cluster does: the metadata of a topic, and the answer to a produce request (an error, or
  the error code of each partition).
\<close>

record kafka_env =
  env_metadata :: "nat \<Rightarrow> bytes \<Rightarrow> kafka_error + metadata_response"
  env_produce :: "produce_request \<Rightarrow> kafka_error + i16 list"

definition refresh_topic :: "kafka_env \<Rightarrow> nat \<Rightarrow> bytes \<Rightarrow> producer \<Rightarrow> (kafka_error + unit) \<times> producer" where
  "refresh_topic env n name s = (case env_metadata env n name of
     Inl e \<Rightarrow> (Inl e, s)
   | Inr r \<Rightarrow> (Inr (), s\<lparr>p_cluster := do_refresh r (p_cluster s)\<rparr>))"

fun await_topic :: "kafka_env \<Rightarrow> bytes \<Rightarrow> nat \<Rightarrow> producer \<Rightarrow> (kafka_error + topic_info) \<times> producer" where
  "await_topic env name n s =
     (case topic (p_cluster s) name of
        Some ti \<Rightarrow> (Inr ti, s)
      | None \<Rightarrow> (case n of
          0 \<Rightarrow> (Inl (Other_Error ''unknown topic''), s)
        | Suc n \<Rightarrow> (case refresh_topic env n name s of
            (Inl e, s) \<Rightarrow> (Inl e, s) | (Inr _, s) \<Rightarrow> await_topic env name n s)))"

fun send_requests :: "kafka_env \<Rightarrow> produce_request list \<Rightarrow> producer \<Rightarrow> (kafka_error + unit) \<times> producer" where
  "send_requests env [] s = (Inr (), s)"
| "send_requests env (q # qs) s =
     (let s = s\<lparr>p_sent := p_sent s @ [q]\<rparr>
      in case env_produce env q of
        Inl e \<Rightarrow> (Inl e, s)
      | Inr codes \<Rightarrow>
          if rq_acks q = 0 then send_requests env qs s
          else (case filter (\<lambda>c. c \<noteq> err_none) codes of
              [] \<Rightarrow> send_requests env qs s | c # _ \<Rightarrow> (Inl (Broker_Error c), s)))"

definition send_once :: "kafka_env \<Rightarrow> producer_config \<Rightarrow> i64 \<Rightarrow> bytes \<Rightarrow> produce_record list \<Rightarrow> producer \<Rightarrow>
    (kafka_error + unit) \<times> producer" where
  "send_once env cfg now name rs s =
     (case await_topic env name 5 s of
        (Inl e, s) \<Rightarrow> (Inl e, s)
      | (Inr ti, s) \<Rightarrow>
          (let cnt = int (length (partitions ti)) in
           if cnt = 0 then (Inl (Other_Error ''topic has no partitions''), s)
           else
             let base = (case om_find (p_cursor s) name of None \<Rightarrow> 0 | Some c \<Rightarrow> c);
                 s = s\<lparr>p_cursor := om_set name base (p_cursor s)\<rparr>;
                 (by_partition, spread) = group_records cnt base rs 0 []
             in case group_leaders ti (map fst by_partition) [] of
               Inl e \<Rightarrow> (Inl e, s)
             | Inr by_leader \<Rightarrow>
                 (let s = s\<lparr>p_cursor := om_set name (base + spread) (p_cursor s)\<rparr>;
                      qs = map (\<lambda>(node, ps). \<lparr>rq_node = node, rq_topic = name, rq_acks = pc_acks cfg,
                             rq_batches = map (\<lambda>p. (p, make_batch (pc_codec cfg) now
                               (case om_find by_partition p of None \<Rightarrow> [] | Some rs \<Rightarrow> rs))) ps\<rparr>) by_leader
                  in send_requests env qs s)))"

definition send_to :: "kafka_env \<Rightarrow> producer_config \<Rightarrow> (nat \<Rightarrow> i64) \<Rightarrow> bytes \<Rightarrow> produce_record list \<Rightarrow> producer \<Rightarrow>
    (kafka_error + unit) \<times> producer \<times> int list" where
  "send_to env cfg now name rs s =
     (if rs = [] then (Inr (), s, [])
      else retry_loop (\<lambda>n. send_once env cfg (now n) name rs) (\<lambda>n. refresh_topic env n name)
             (pc_max_retries cfg) 0 100 [] s)"

section \<open>Where the records go\<close>

lemma land_low31: "0 \<le> sint (x AND 0x7fffffff :: i32)"
proof -
  have "bit (x AND 0x7fffffff :: i32) 31 = False"
  proof -
    have "(0x7fffffff :: i32) = mask 31" by (simp add: mask_eq_exp_minus_1)
    then show ?thesis by (simp only: bit_and_iff bit_mask_iff) simp
  qed
  then have "\<not> bit (x AND 0x7fffffff) (LENGTH(32) - 1)" by simp
  moreover have "sint (x AND 0x7fffffff) < 0 \<longleftrightarrow> bit (x AND 0x7fffffff) 31"
    using bit_last_iff [of "x AND 0x7fffffff"] by simp
  ultimately show ?thesis by (simp add: not_less)
qed

text \<open>The partition each record is given, in order.\<close>

fun choices :: "int \<Rightarrow> i32 \<Rightarrow> produce_record list \<Rightarrow> i32 \<Rightarrow> int list" where
  "choices cnt base [] spread = []"
| "choices cnt base (r # rs) spread =
     (case choose_partition cnt base r spread of (p, spread) \<Rightarrow> p # choices cnt base rs spread)"

definition records_of :: "groups \<Rightarrow> int \<Rightarrow> produce_record list" where
  "records_of g p = (case om_find g p of None \<Rightarrow> [] | Some rs \<Rightarrow> rs)"

lemma records_of_push: "om_sorted g \<Longrightarrow> records_of (push_record p r g) q =
    (if q = p then records_of g p @ [r] else records_of g q)"
  by (simp add: records_of_def push_record_def om_find_set)

lemma om_sorted_push_record: "om_sorted g \<Longrightarrow> om_sorted (push_record p r g)"
  by (simp add: push_record_def om_sorted_set)

lemma group_records_spec:
  "om_sorted g \<Longrightarrow>
   records_of (fst (group_records cnt base rs spread g)) p =
     records_of g p @ map snd (filter (\<lambda>(q, r). q = p) (zip (choices cnt base rs spread) rs)) \<and>
   om_sorted (fst (group_records cnt base rs spread g)) \<and>
   fst ` set (fst (group_records cnt base rs spread g)) = fst ` set g \<union> set (choices cnt base rs spread)"
proof (induction rs arbitrary: spread g)
  case (Cons r rs)
  obtain q sp where c: "choose_partition cnt base r spread = (q, sp)" by fastforce
  have "fst ` set (push_record q r g) = insert q (fst ` set g)"
    by (simp add: push_record_def keys_om_set)
  with Cons.IH [OF om_sorted_push_record [OF Cons.prems], of sp q r] Cons.prems show ?case
    by (simp add: c records_of_push)
qed simp

section \<open>Properties\<close>

text \<open> a key is always sent to an existing partition, the same one for the same key, and a keyless
  record to an existing partition as well.\<close>

theorem chosen_partition_exists:
  assumes "0 < cnt" and "pr_partition r = None"
  shows "0 \<le> fst (choose_partition cnt base r spread) \<and> fst (choose_partition cnt base r spread) < cnt \<and>
    (pr_key r \<noteq> None \<longrightarrow> fst (choose_partition cnt base r spread) = fst (choose_partition cnt base' r spread'))"
  using assms land_low31 by (auto simp: choose_partition_def partition_for_key_def split: option.split)

theorem chosen_partition_exists_witness:
  "fst (choose_partition 3 0 \<lparr>pr_key = None, pr_value = [1], pr_headers = [], pr_timestamp = 0, pr_partition = None\<rparr> 5) = 2 \<and>
   (2 :: int) < 3"
  using chosen_partition_exists [of 3 "\<lparr>pr_key = None, pr_value = [1], pr_headers = [], pr_timestamp = 0, pr_partition = None\<rparr>" 0 5]
  by (simp add: choose_partition_def)

text \<open> grouping by partition neither loses nor duplicates a record and keeps the order of the records
  of each partition: a group holds exactly the records for which its partition was chosen.\<close>

theorem grouping_keeps_records:
  "records_of (fst (group_records cnt base rs 0 [])) p =
     map snd (filter (\<lambda>(q, r). q = p) (zip (choices cnt base rs 0) rs)) \<and>
   map fst (fst (group_records cnt base rs 0 [])) = sorted_list_of_set (set (choices cnt base rs 0))"
proof -
  have srt: "om_sorted (fst (group_records cnt base rs 0 []))"
    and keys: "fst ` set (fst (group_records cnt base rs 0 [])) = set (choices cnt base rs 0)"
    using group_records_spec [of "[]" cnt base rs 0 p] by simp_all
  have "map fst (fst (group_records cnt base rs 0 [])) =
      sorted_list_of_set (set (map fst (fst (group_records cnt base rs 0 []))))"
    using srt sorted_list_of_set.idem_if_sorted_distinct [of "map fst (fst (group_records cnt base rs 0 []))"]
    by (simp add: om_sorted_def strict_sorted_iff)
  with keys group_records_spec [of "[]" cnt base rs 0 p] show ?thesis
    by (simp add: records_of_def)
qed

section \<open>A retry does not reproduce the layout\<close>

text \<open>
  The cursor is advanced before the requests are sent, so when a request fails with a retriable
  error the next attempt starts where this one ended: a keyless record goes to another partition
  than before, which the comment in \<open>send_once\<close> means to exclude.
\<close>

definition two_partitions :: cluster where
  "two_partitions = \<lparr>brokers = [], topics = [([116], \<lparr>ti_name = [116], ti_id = zero_uuid, partitions =
     [\<lparr>partition = 0, leader = 1, leader_epoch = 0, replicas = []\<rparr>,
      \<lparr>partition = 1, leader = 1, leader_epoch = 0, replicas = []\<rparr>]\<rparr>)]\<rparr>"

definition flaky_env :: kafka_env where
  "flaky_env = \<lparr>env_metadata = (\<lambda>n name. Inr \<lparr>mr_brokers = [], mr_topics = []\<rparr>),
     env_produce = (\<lambda>q. Inr [if map fst (rq_batches q) = [0] then not_leader_or_follower else err_none])\<rparr>"

definition keyless :: produce_record where
  "keyless = \<lparr>pr_key = None, pr_value = [1], pr_headers = [], pr_timestamp = 0, pr_partition = None\<rparr>"

lemmas send_defs = send_once_def choose_partition_def push_record_def two_partitions_def flaky_env_def
  keyless_def topic_def refresh_topic_def do_refresh_def retriable_error_def is_retriable_def err_defs

lemma retry_scatters_keyless_records:
  "map (\<lambda>q. map fst (rq_batches q))
     (p_sent (fst (snd (send_to flaky_env \<lparr>pc_topic = [116], pc_codec = C_none, pc_acks = - 1, pc_max_retries = 4\<rparr>
       (\<lambda>_. 0) [116] [keyless] \<lparr>p_cluster = two_partitions, p_cursor = [], p_sent = []\<rparr>)))) = [[0], [1]]"
  by (simp add: send_to_def retry_loop.simps send_defs Let_def)

end
