(* ===== verification/Encodings.thy ===== *)
theory Encodings
  imports Prelude
begin

text \<open>
  The byte-level encodings of \<open>encoding_util.hh\<close> and the codecs of \<open>methods.cc\<close> built on
  them: hexadecimal, base64 over two alphabets, ascii85, z85, UTF-8, the comparison without an
  early exit and the text form of a UUID.  A \<open>std::string\<close> is a byte list, an unsigned 32-bit
  accumulator a \<open>32 word\<close> that wraps, and a thrown \<open>eval_error\<close> the left of a sum.  The lemmas
  show that every decoder inverts its encoder, and how far the UTF-8 reader advances.
\<close>

subsection \<open>Errors\<close>

datatype eval_error = Eval_error bytes | Type_error bytes bytes

subsection \<open>Hexadecimal\<close>

definition hex_nibble :: "byte \<Rightarrow> int" where
  "hex_nibble c =
     (if 0x30 \<le> c \<and> c \<le> 0x39 then uint c - 0x30
      else if 0x61 \<le> c \<and> c \<le> 0x66 then uint c - 0x61 + 10
      else if 0x41 \<le> c \<and> c \<le> 0x46 then uint c - 0x41 + 10
      else - 1)"

definition hex_digits :: bytes where
  "hex_digits = str ''0123456789abcdef''"

definition hex_encode :: "bytes \<Rightarrow> bytes" where
  "hex_encode xs = concat (map (\<lambda>c. [hex_digits ! unat (drop_bit 4 c), hex_digits ! unat (c AND 15)]) xs)"

fun hex_pairs :: "bytes \<Rightarrow> eval_error + bytes" where
  "hex_pairs (a # b # xs) =
     (let hi = hex_nibble a; lo = hex_nibble b
      in if hi < 0 \<or> lo < 0 then Inl (Eval_error (str ''invalid hex digit''))
         else rbind (hex_pairs xs) (\<lambda>ys. Inr (word_of_int (hi * 16 + lo) # ys)))"
| "hex_pairs _ = Inr []"

definition hex_decode :: "bytes \<Rightarrow> eval_error + bytes" where
  "hex_decode xs = (if odd (length xs) then Inl (Eval_error (str ''hex string has an odd length'')) else hex_pairs xs)"

lemma and_15 [simp]: "(c :: 'a::len word) AND 15 = take_bit 4 c"
  by (simp add: take_bit_eq_mask mask_eq_exp_minus_1)

lemma and_63 [simp]: "(c :: 'a::len word) AND 63 = take_bit 6 c"
  by (simp add: take_bit_eq_mask mask_eq_exp_minus_1)

lemma and_FF [simp]: "(c :: 'a::len word) AND 255 = take_bit 8 c"
  by (simp add: take_bit_eq_mask mask_eq_exp_minus_1)

lemma unat_high: "unat (drop_bit 4 (c :: byte)) = unat c div 16"
  by (simp only: unat_drop_bit_eq) (simp add: drop_bit_eq_div)

lemma unat_low: "unat (take_bit n (c :: 'a::len word)) = unat c mod 2 ^ n"
  by (simp only: unsigned_take_bit_eq) (simp add: take_bit_eq_mod)

lemma nibbles: "word_of_int (uint (drop_bit 4 c) * 16 + uint (take_bit 4 c)) = (c :: byte)"
proof -
  have "int (unat (drop_bit 4 c)) * 16 + int (unat (take_bit 4 c)) = uint c"
    unfolding unat_high unat_low by (simp add: zdiv_int zmod_int)
  then show ?thesis by (simp del: of_int_add)
qed

lemma nibble_less [simp]: "unat (drop_bit 4 (c :: byte)) < 16" "unat (take_bit 4 (c :: byte)) < 16"
  using unsigned_less [of c, where ?'a = nat] unfolding unat_high unat_low by simp_all

lemma hex_digit_back:
  assumes "n < 16"
  shows "hex_nibble (hex_digits ! n) = int n"
proof -
  have "\<forall>n \<in> set [0..<16]. hex_nibble (hex_digits ! n) = int n"
    by code_simp
  then show ?thesis using assms by simp
qed

lemma hex_pairs_encode: "hex_pairs (hex_encode xs) = Inr xs"
  by (induction xs) (simp_all add: hex_encode_def hex_digit_back nibbles del: of_int_add)

lemma length_hex_encode [simp]: "length (hex_encode xs) = 2 * length xs"
  by (induction xs) (simp_all add: hex_encode_def)

lemma hex_round_trip [simp]: "hex_decode (hex_encode xs) = Inr xs"
  by (simp add: hex_decode_def hex_pairs_encode)

subsection \<open>Base64\<close>

definition B64_STD :: bytes where
  "B64_STD = str ''ABCDEFGHIJKLMNOPQRSTUVWXYZabcdefghijklmnopqrstuvwxyz0123456789+/''"

definition B64_URL :: bytes where
  "B64_URL = str ''ABCDEFGHIJKLMNOPQRSTUVWXYZabcdefghijklmnopqrstuvwxyz0123456789-_''"

definition b64_digit :: "bytes \<Rightarrow> nat \<Rightarrow> i32 \<Rightarrow> byte" where
  "b64_digit alpha k n = alpha ! unat (drop_bit k n AND 63)"

definition b64_word :: "byte \<Rightarrow> byte \<Rightarrow> byte \<Rightarrow> i32" where
  "b64_word a b c = push_bit 16 (ucast a) OR push_bit 8 (ucast b) OR ucast c"

fun b64_encode :: "bytes \<Rightarrow> bool \<Rightarrow> bytes \<Rightarrow> bytes" where
  "b64_encode alpha pad (a # b # c # xs) =
     (let n = b64_word a b c
      in [b64_digit alpha 18 n, b64_digit alpha 12 n, b64_digit alpha 6 n, b64_digit alpha 0 n]
         @ b64_encode alpha pad xs)"
| "b64_encode alpha pad [a, b] =
     (let n = push_bit 16 (ucast a) OR push_bit 8 (ucast b)
      in [b64_digit alpha 18 n, b64_digit alpha 12 n, b64_digit alpha 6 n] @ (if pad then [0x3D] else []))"
| "b64_encode alpha pad [a] =
     (let n = push_bit 16 (ucast a)
      in [b64_digit alpha 18 n, b64_digit alpha 12 n] @ (if pad then [0x3D, 0x3D] else []))"
| "b64_encode alpha pad [] = []"

fun strchr :: "bytes \<Rightarrow> byte \<Rightarrow> nat option" where
  "strchr [] c = None"
| "strchr (a # alpha) c = (if a = c then Some 0 else map_option Suc (strchr alpha c))"

definition b64_push :: "i32 \<Rightarrow> i32 \<Rightarrow> i32" where
  "b64_push buf p = push_bit 6 buf OR p"

definition b64_byte :: "i32 \<Rightarrow> nat \<Rightarrow> byte" where
  "b64_byte buf bits = ucast (drop_bit bits buf AND 0xFF)"

text \<open>
  The loop of \<open>b64_decode\<close>: the accumulator is never cleared, so its upper bits are left over
  from earlier characters and wrap away.  The result says whether the input was accepted and
  what was appended.
\<close>

fun b64_loop :: "bytes \<Rightarrow> bool \<Rightarrow> i32 \<Rightarrow> nat \<Rightarrow> bytes \<Rightarrow> bool \<times> bytes" where
  "b64_loop alpha strict buf bits [] = (True, [])"
| "b64_loop alpha strict buf bits (c # cs) =
     (if c = 0x3D then (True, [])
      else case (if c = 0 then None else strchr alpha c) of
        None \<Rightarrow> if strict then (False, []) else b64_loop alpha strict buf bits cs
      | Some p \<Rightarrow>
          let buf' = b64_push buf (of_nat p); bits' = bits + 6
          in if bits' \<ge> 8
             then let (ok, ys) = b64_loop alpha strict buf' (bits' - 8) cs
                  in (ok, b64_byte buf' (bits' - 8) # ys)
             else b64_loop alpha strict buf' bits' cs)"

definition b64_decode :: "bytes \<Rightarrow> bool \<Rightarrow> bytes \<Rightarrow> bool \<times> bytes" where
  "b64_decode alpha strict xs = b64_loop alpha strict 0 0 xs"

text \<open>What an alphabet needs: every digit is found where it stands, and is neither NUL nor the padding.\<close>

definition alphabet :: "bytes \<Rightarrow> bool" where
  "alphabet alpha \<longleftrightarrow> length alpha = 64 \<and> (\<forall>k < 64. strchr alpha (alpha ! k) = Some k \<and> alpha ! k \<noteq> 0 \<and> alpha ! k \<noteq> 0x3D)"

lemma strchr_nth: "distinct alpha \<Longrightarrow> k < length alpha \<Longrightarrow> strchr alpha (alpha ! k) = Some k"
  by (induction alpha arbitrary: k) (auto simp: nth_Cons split: nat.split)

lemma of_char_byte_inject [simp]: "(of_char a :: byte) = of_char b \<longleftrightarrow> a = b"
proof
  assume "(of_char a :: byte) = of_char b"
  then have "(of_nat (of_char a) :: byte) = of_nat (of_char b)"
    by (simp add: of_nat_of_char)
  then have "(of_char a :: nat) mod 256 = of_char b mod 256"
    by (simp add: word_of_nat_eq_iff take_bit_eq_mod)
  then show "a = b" by simp
qed simp

lemma alphabets: "alphabet B64_STD" "alphabet B64_URL"
proof -
  have "distinct (str s) \<longleftrightarrow> distinct s" for s
    by (simp add: str_def distinct_map inj_on_def)
  then have d: "distinct B64_STD" "distinct B64_URL"
    by (simp_all add: B64_STD_def B64_URL_def)
  have "\<forall>c \<in> set B64_STD. c \<noteq> 0 \<and> c \<noteq> 0x3D" "\<forall>c \<in> set B64_URL. c \<noteq> 0 \<and> c \<noteq> 0x3D"
    by (simp_all add: B64_STD_def B64_URL_def str_def)
  moreover have "length B64_STD = 64" "length B64_URL = 64"
    by (simp_all add: B64_STD_def B64_URL_def)
  ultimately show "alphabet B64_STD" "alphabet B64_URL"
    using d by (auto simp: alphabet_def strchr_nth)
qed

lemma unat_take_6 [simp]: "unat (take_bit 6 (x :: i32)) < 64"
  by (simp add: unat_low del: unsigned_take_bit_eq)

lemma b64_loop_digit:
  assumes "alphabet alpha"
  shows "b64_loop alpha strict buf bits (b64_digit alpha k n # cs) =
    (let buf' = b64_push buf (drop_bit k n AND 63); bits' = bits + 6
     in if bits' \<ge> 8
        then let (ok, ys) = b64_loop alpha strict buf' (bits' - 8) cs
             in (ok, b64_byte buf' (bits' - 8) # ys)
        else b64_loop alpha strict buf' bits' cs)"
  using assms by (simp add: alphabet_def b64_digit_def Let_def b64_loop.simps(2))

lemma byte_eqI:
  assumes "bit (v :: byte) 0 = bit w 0" "bit v 1 = bit w 1" "bit v 2 = bit w 2" "bit v 3 = bit w 3"
    "bit v 4 = bit w 4" "bit v 5 = bit w 5" "bit v 6 = bit w 6" "bit v 7 = bit w 7"
  shows "v = w"
proof (rule bit_word_eqI)
  fix n assume "n < LENGTH(8)"
  then have "n \<in> {0, 1, 2, 3, 4, 5, 6, 7}" by auto
  then show "bit v n = bit w n" using assms by (elim insertE emptyE) simp_all
qed

text \<open>The three bytes of a group, read back from any accumulator.\<close>

lemma no_bit [simp]: "8 \<le> n \<Longrightarrow> \<not> bit (c :: byte) n"
  using bit_imp_le_length [of c n] by fastforce

lemma b64_first:
  "b64_byte (b64_push (b64_push buf (drop_bit 18 (b64_word a b c) AND 63)) (drop_bit 12 (b64_word a b c) AND 63)) 4 = a"
  by (rule byte_eqI) (simp_all add: b64_word_def b64_push_def b64_byte_def bit_simps)

lemma b64_second:
  "b64_byte (b64_push (b64_push buf (drop_bit 12 (b64_word a b c) AND 63)) (drop_bit 6 (b64_word a b c) AND 63)) 2 = b"
  by (rule byte_eqI) (simp_all add: b64_word_def b64_push_def b64_byte_def bit_simps)

lemma b64_third:
  "b64_byte (b64_push (b64_push buf (drop_bit 6 (b64_word a b c) AND 63)) (drop_bit 0 (b64_word a b c) AND 63)) 0 = c"
  by (rule byte_eqI) (simp_all add: b64_word_def b64_push_def b64_byte_def bit_simps)

lemmas b64_bytes = b64_first b64_second b64_third

lemma word_two: "push_bit 16 (ucast a) OR push_bit 8 (ucast b) = b64_word a b 0"
  by (simp add: b64_word_def)

lemma word_one: "push_bit 16 (ucast a) = b64_word a 0 0"
  by (simp add: b64_word_def)

lemma b64_loop_padding [simp]: "b64_loop alpha strict buf bits (0x3D # cs) = (True, [])"
  by simp

declare b64_loop.simps(2) [simp del]

text \<open>One group of four, from any accumulator.\<close>

lemma b64_loop_group:
  assumes "alphabet alpha"
  shows "\<exists>buf'. b64_loop alpha strict buf 0
      (b64_digit alpha 18 (b64_word a b c) # b64_digit alpha 12 (b64_word a b c)
       # b64_digit alpha 6 (b64_word a b c) # b64_digit alpha 0 (b64_word a b c) # cs)
    = (let (ok, ys) = b64_loop alpha strict buf' 0 cs in (ok, a # b # c # ys))"
    (is "\<exists>buf'. ?l = ?r buf'")
proof -
  let ?n = "b64_word a b c"
  have "?l = ?r (b64_push (b64_push (b64_push (b64_push buf (drop_bit 18 ?n AND 63)) (drop_bit 12 ?n AND 63))
      (drop_bit 6 ?n AND 63)) (drop_bit 0 ?n AND 63))"
    by (simp add: b64_loop_digit [OF assms] b64_bytes Let_def split: prod.split del: and_63 drop_bit_0)
  then show ?thesis by (rule exI)
qed

lemma b64_loop_tail_two:
  assumes "alphabet alpha"
  shows "b64_loop alpha strict buf 0
      ([b64_digit alpha 18 (b64_word a b 0), b64_digit alpha 12 (b64_word a b 0), b64_digit alpha 6 (b64_word a b 0)]
       @ (if pad then [0x3D] else [])) = (True, [a, b])"
  by (simp add: b64_loop_digit [OF assms] b64_bytes Let_def del: and_63 drop_bit_0)

lemma b64_loop_tail_one:
  assumes "alphabet alpha"
  shows "b64_loop alpha strict buf 0
      ([b64_digit alpha 18 (b64_word a 0 0), b64_digit alpha 12 (b64_word a 0 0)]
       @ (if pad then [0x3D, 0x3D] else [])) = (True, [a])"
  by (simp add: b64_loop_digit [OF assms] b64_bytes Let_def del: and_63 drop_bit_0)

lemma b64_round_trip:
  assumes "alphabet alpha"
  shows "b64_decode alpha strict (b64_encode alpha pad xs) = (True, xs)"
proof -
  have "b64_loop alpha strict buf 0 (b64_encode alpha pad xs) = (True, xs)" for buf
    using assms
  proof (induction alpha pad xs arbitrary: buf rule: b64_encode.induct)
    case (1 alpha pad a b c xs)
    obtain buf' where "b64_loop alpha strict buf 0 (b64_encode alpha pad (a # b # c # xs)) =
        (let (ok, ys) = b64_loop alpha strict buf' 0 (b64_encode alpha pad xs) in (ok, a # b # c # ys))"
      using b64_loop_group [OF 1(2)] by (fastforce simp: Let_def)
    then show ?case by (simp only: 1(1) [OF refl 1(2)]) simp
  next
    case (2 alpha pad a b)
    then show ?case using b64_loop_tail_two [OF 2] by (simp add: word_two Let_def)
  next
    case (3 alpha pad a)
    then show ?case using b64_loop_tail_one [OF 3] by (simp add: word_one Let_def)
  qed simp
  then show ?thesis by (simp add: b64_decode_def)
qed

text \<open>
  The decoder that methods call checks the text first: only line breaks are passed over, and a
  final group of one character is an error.
\<close>

fun b64_check :: "bytes \<Rightarrow> nat \<Rightarrow> nat \<Rightarrow> bytes \<Rightarrow> eval_error + nat" where
  "b64_check alpha i chars [] = Inr chars"
| "b64_check alpha i chars (c # cs) =
     (if c = 0x0D \<or> c = 0x0A then b64_check alpha (Suc i) chars cs
      else if c = 0x3D then Inr chars
      else if c = 0 \<or> strchr alpha c = None then
        Inl (Eval_error (str ''illegal base64 data at input byte '' @ decimal i))
      else b64_check alpha (Suc i) (Suc chars) cs)"

definition b64_decode_or_throw :: "bytes \<Rightarrow> bytes \<Rightarrow> eval_error + bytes" where
  "b64_decode_or_throw alpha xs =
     rbind (b64_check alpha 0 0 xs)
       (\<lambda>chars. if chars mod 4 = 1 then Inl (Eval_error (str ''unexpected EOF''))
                else Inr (snd (b64_decode alpha False xs)))"

lemma b64_check_padding [simp]: "b64_check alpha i chars (0x3D # cs) = Inr chars"
  by simp

definition no_break :: "bytes \<Rightarrow> bool" where
  "no_break alpha \<longleftrightarrow> (\<forall>k < 64. alpha ! k \<noteq> 0x0D \<and> alpha ! k \<noteq> 0x0A)"

lemma b64_check_digit:
  "alphabet alpha \<Longrightarrow> no_break alpha \<Longrightarrow>
   b64_check alpha i chars (b64_digit alpha k n # cs) = b64_check alpha (Suc i) (Suc chars) cs"
  by (simp add: alphabet_def b64_digit_def no_break_def)

declare b64_check.simps(2) [simp del]

lemma b64_check_encode:
  assumes "alphabet alpha" "no_break alpha" "chars mod 4 = 0"
  shows "\<exists>n. b64_check alpha i chars (b64_encode alpha pad xs) = Inr n \<and> n mod 4 \<noteq> 1"
  using assms
proof (induction alpha pad xs arbitrary: i chars rule: b64_encode.induct)
  case (1 alpha pad a b c xs)
  have "(chars + 4) mod 4 = 0" using 1(4) by simp
  then show ?case
    using 1(1) [OF refl 1(2,3), of "Suc (Suc (Suc (Suc chars)))" "Suc (Suc (Suc (Suc i)))"] 1(2,3)
    by (simp add: b64_check_digit Let_def)
next
  case (2 alpha pad a b)
  then have "Suc (Suc (Suc chars)) mod 4 = 3" by presburger
  with 2 show ?case
    by (cases pad) (simp_all add: b64_check_digit Let_def)
next
  case (3 alpha pad a)
  then have "Suc (Suc chars) mod 4 = 2" by presburger
  with 3 show ?case
    by (cases pad) (simp_all add: b64_check_digit Let_def)
next
  case (4 alpha pad)
  then show ?case by simp
qed

lemma b64_no_breaks: "no_break B64_STD" "no_break B64_URL"
proof -
  have "\<forall>c \<in> set B64_STD. c \<noteq> 0x0D \<and> c \<noteq> 0x0A" "\<forall>c \<in> set B64_URL. c \<noteq> 0x0D \<and> c \<noteq> 0x0A"
    by (simp_all add: B64_STD_def B64_URL_def str_def)
  then show "no_break B64_STD" "no_break B64_URL"
    using alphabets by (auto simp: no_break_def alphabet_def)
qed

lemma b64_throwing_round_trip:
  "alphabet alpha \<Longrightarrow> no_break alpha \<Longrightarrow> b64_decode_or_throw alpha (b64_encode alpha pad xs) = Inr xs"
  using b64_check_encode [of alpha 0 0 pad xs] by (auto simp: b64_decode_or_throw_def b64_round_trip)

subsection \<open>Base 85\<close>

text \<open>Four bytes as one accumulator, a byte of it, and its five digits, the last computed first.\<close>

definition be_word :: "bytes \<Rightarrow> i32" where
  "be_word xs = foldl (\<lambda>v b. push_bit 8 v OR ucast b) 0 xs"

definition be_byte :: "i32 \<Rightarrow> nat \<Rightarrow> byte" where
  "be_byte v j = ucast (drop_bit (8 * j) v AND 0xFF)"

fun base85 :: "nat \<Rightarrow> i32 \<Rightarrow> nat list \<Rightarrow> nat list" where
  "base85 0 v g = g"
| "base85 (Suc k) v g = base85 k (v div 85) (unat (v mod 85) # g)"

function a85_encode :: "bytes \<Rightarrow> bytes" where
  "a85_encode xs =
     (if xs = [] then []
      else let n = min 4 (length xs);
               v = be_word (take 4 xs @ replicate (4 - n) 0)
           in (if v = 0 \<and> n = 4 then [0x7A] else take (n + 1) (map (\<lambda>d. of_nat (0x21 + d)) (base85 5 v [])))
              @ a85_encode (drop 4 xs))"
  by pat_completeness auto
termination by (relation "measure length") auto

declare a85_encode.simps [simp del]

definition isspace :: "byte \<Rightarrow> bool" where
  "isspace c \<longleftrightarrow> c = 0x20 \<or> (0x09 \<le> c \<and> c \<le> 0x0D)"

definition a85_flush :: "i32 \<Rightarrow> nat \<Rightarrow> bytes" where
  "a85_flush v count =
     (let v' = ((\<lambda>v. v * 85 + 84) ^^ (5 - count)) v
      in map (be_byte v') (rev [4 - (count - 1)..<4]))"

fun a85_loop :: "i32 \<Rightarrow> nat \<Rightarrow> bytes \<Rightarrow> eval_error + bytes" where
  "a85_loop v n [] =
     (if n = 1 then Inl (Eval_error (str ''invalid ascii85 data''))
      else Inr (if n > 1 then a85_flush v n else []))"
| "a85_loop v n (c # cs) =
     (if isspace c then a85_loop v n cs
      else if c = 0x7A \<and> n = 0 then rbind (a85_loop v n cs) (\<lambda>ys. Inr (replicate 4 0 @ ys))
      else if c < 0x21 \<or> c > 0x75 then Inl (Eval_error (str ''invalid ascii85 data''))
      else let v' = v * 85 + ucast (c - 0x21)
           in if n + 1 = 5 then rbind (a85_loop 0 0 cs) (\<lambda>ys. Inr (map (be_byte v') (rev [0..<4]) @ ys))
              else a85_loop v' (n + 1) cs)"

definition a85_decode :: "bytes \<Rightarrow> eval_error + bytes" where
  "a85_decode xs = a85_loop 0 0 xs"

definition Z85 :: bytes where
  "Z85 = str ''0123456789abcdefghijklmnopqrstuvwxyzABCDEFGHIJKLMNOPQRSTUVWXYZ.-:+=^!/*?&<>()[]{}@%$#''"

fun z85_groups :: "bytes \<Rightarrow> bytes" where
  "z85_groups (a # b # c # d # xs) = map (\<lambda>k. Z85 ! k) (base85 5 (be_word [a, b, c, d]) []) @ z85_groups xs"
| "z85_groups _ = []"

definition z85_encode :: "bytes \<Rightarrow> eval_error + bytes" where
  "z85_encode xs =
     (if length xs mod 4 \<noteq> 0 then Inl (Eval_error (str ''z85 input length must be a multiple of 4''))
      else Inr (z85_groups xs))"

fun z85_word :: "i32 \<Rightarrow> bytes \<Rightarrow> i32 option" where
  "z85_word v [] = Some v"
| "z85_word v (c # cs) =
     (case strchr Z85 c of None \<Rightarrow> None
      | Some p \<Rightarrow> if c = 0 then None else z85_word (v * 85 + of_nat p) cs)"

fun z85_bytes :: "bytes \<Rightarrow> eval_error + bytes" where
  "z85_bytes (a # b # c # d # e # xs) =
     (case z85_word 0 [a, b, c, d, e] of None \<Rightarrow> Inl (Eval_error (str ''invalid z85 data''))
      | Some v \<Rightarrow> rbind (z85_bytes xs) (\<lambda>ys. Inr (map (be_byte v) (rev [0..<4]) @ ys)))"
| "z85_bytes _ = Inr []"

definition z85_decode :: "bytes \<Rightarrow> eval_error + bytes" where
  "z85_decode xs =
     (if length xs mod 5 \<noteq> 0 then Inl (Eval_error (str ''z85 input length must be a multiple of 5''))
      else z85_bytes xs)"

lemma rev_upt_4: "rev [0..<4] = [3, 2, 1, 0 :: nat]"
  by (simp add: upt_conv_Cons)

lemma be_word_4: "be_word [a, b, c, d] = push_bit 24 (ucast a) OR push_bit 16 (ucast b) OR push_bit 8 (ucast c) OR ucast d"
  by (simp add: be_word_def push_bit_or or.assoc)

lemma be_bytes_back: "map (be_byte (be_word [a, b, c, d])) (rev [0..<4]) = [a, b, c, d]"
  unfolding rev_upt_4 list.map be_word_4 be_byte_def list.inject
  by (intro conjI refl; rule byte_eqI) (simp_all add: bit_simps)

text \<open>The digits of a word, most significant first.\<close>

lemma base85_5:
  fixes v :: i32
  shows "base85 5 v [] = [unat v div 52200625, unat v div 614125 mod 85, unat v div 7225 mod 85, unat v div 85 mod 85, unat v mod 85]"
proof -
  have five: "(5 :: nat) = Suc (Suc (Suc (Suc (Suc 0))))" by simp
  have chain: "unat v div 85 div 85 = unat v div 7225" "unat v div 7225 div 85 = unat v div 614125"
    "unat v div 614125 div 85 = unat v div 52200625"
    by (simp_all flip: div_mult2_eq)
  have "unat v < 4294967296"
    using unsigned_less [of v, where ?'a = nat] by simp
  then have "unat v div 52200625 mod 85 = unat v div 52200625" by simp
  then show ?thesis
    unfolding five base85.simps by (simp add: unat_div unat_mod chain)
qed

text \<open>Read back with Horner's rule they give the word, whatever the digits past the last one were.\<close>

lemma horner_step: "u div (k * 85) * 85 + u div k mod 85 = u div (k :: nat)"
  by (simp add: div_mult2_eq)

lemma horner_85:
  fixes u :: nat
  shows "u div 52200625 * 85 + u div 614125 mod 85 = u div 614125"
    "u div 614125 * 85 + u div 7225 mod 85 = u div 7225"
    "u div 7225 * 85 + u div 85 mod 85 = u div 85"
    "u div 85 * 85 + u mod 85 = u"
  using horner_step [of u 614125] horner_step [of u 7225] horner_step [of u 85] horner_step [of u 1]
  by simp_all

lemma horner_word:
  fixes u :: nat
  shows "(of_nat (u div 52200625) * 85 + of_nat (u div 614125 mod 85) :: i32) = of_nat (u div 614125)"
    "(of_nat (u div 614125) * 85 + of_nat (u div 7225 mod 85) :: i32) = of_nat (u div 7225)"
    "(of_nat (u div 7225) * 85 + of_nat (u div 85 mod 85) :: i32) = of_nat (u div 85)"
    "(of_nat (u div 85) * 85 + of_nat (u mod 85) :: i32) = of_nat u"
proof -
  have h: "of_nat a * 85 + of_nat b = (of_nat (a * 85 + b) :: i32)" for a b by simp
  show "(of_nat (u div 52200625) * 85 + of_nat (u div 614125 mod 85) :: i32) = of_nat (u div 614125)"
    "(of_nat (u div 614125) * 85 + of_nat (u div 7225 mod 85) :: i32) = of_nat (u div 7225)"
    "(of_nat (u div 7225) * 85 + of_nat (u div 85 mod 85) :: i32) = of_nat (u div 85)"
    "(of_nat (u div 85) * 85 + of_nat (u mod 85) :: i32) = of_nat u"
    by (simp_all only: h horner_85)
qed

lemma top_digit: "unat (v :: i32) div 52200625 < 85"
  using unsigned_less [of v, where ?'a = nat] by simp

text \<open>z85.\<close>

lemma z85_alphabet: "k < 85 \<Longrightarrow> strchr Z85 (Z85 ! k) = Some k \<and> Z85 ! k \<noteq> 0"
proof -
  have "distinct (str s) \<longleftrightarrow> distinct s" for s
    by (simp add: str_def distinct_map inj_on_def)
  then have "distinct Z85" by (simp add: Z85_def)
  moreover have "\<forall>c \<in> set Z85. c \<noteq> 0" by (simp add: Z85_def str_def)
  moreover have "length Z85 = 85" by (simp add: Z85_def)
  ultimately show "k < 85 \<Longrightarrow> ?thesis" by (auto simp: strchr_nth)
qed

lemma z85_word_back: "z85_word 0 (map (\<lambda>k. Z85 ! k) (base85 5 v [])) = Some v"
  by (simp add: base85_5 z85_alphabet top_digit horner_word)

lemma z85_round_trip: "length xs mod 4 = 0 \<Longrightarrow> z85_encode xs = Inr ys \<Longrightarrow> z85_decode ys = Inr xs"
proof -
  have "length xs mod 4 = 0 \<Longrightarrow> length (z85_groups xs) mod 5 = 0 \<and> z85_bytes (z85_groups xs) = Inr xs"
  proof (induction xs rule: z85_groups.induct)
    case (1 a b c d xs)
    have "length xs mod 4 = 0" using 1(2) by simp
    moreover have "z85_bytes (map (\<lambda>k. Z85 ! k) (base85 5 (be_word [a, b, c, d]) []) @ z85_groups xs)
      = rbind (z85_bytes (z85_groups xs)) (\<lambda>ys. Inr ([a, b, c, d] @ ys))"
      using z85_word_back [of "be_word [a, b, c, d]"] be_bytes_back [of a b c d]
      by (simp add: base85_5 del: z85_word.simps)
    ultimately show ?case using 1(1) by (simp add: base85_5)
  qed auto
  then show "length xs mod 4 = 0 \<Longrightarrow> z85_encode xs = Inr ys \<Longrightarrow> z85_decode ys = Inr xs"
    by (auto simp: z85_encode_def z85_decode_def)
qed

text \<open>ascii85.\<close>

definition a85_char :: "nat \<Rightarrow> byte" where
  "a85_char d = of_nat (0x21 + d)"

lemma a85_char:
  assumes "d < 85"
  shows "\<not> isspace (a85_char d)" "a85_char d \<noteq> 0x7A" "\<not> a85_char d < 0x21" "\<not> 0x75 < a85_char d"
    "ucast (a85_char d - 0x21) = (of_nat d :: i32)"
proof -
  have u: "unat (a85_char d) = 33 + d"
    unfolding a85_char_def unat_of_nat using assms by simp
  show "\<not> isspace (a85_char d)" "a85_char d \<noteq> 0x7A" "\<not> a85_char d < 0x21" "\<not> 0x75 < a85_char d"
    using assms u by (auto simp: isspace_def word_le_nat_alt word_less_nat_alt)
  have "a85_char d - 0x21 = of_nat d"
    by (simp add: a85_char_def)
  then show "ucast (a85_char d - 0x21) = (of_nat d :: i32)"
    using assms by (simp add: unsigned_of_nat take_bit_eq_mod)
qed

lemma a85_loop_digit:
  "d < 85 \<Longrightarrow> n < 4 \<Longrightarrow> a85_loop v n (a85_char d # cs) = a85_loop (v * 85 + of_nat d) (Suc n) cs"
  "d < 85 \<Longrightarrow> a85_loop v (Suc (Suc (Suc (Suc 0)))) (a85_char d # cs) =
     rbind (a85_loop 0 0 cs) (\<lambda>ys. Inr (map (be_byte (v * 85 + of_nat d)) (rev [0..<4]) @ ys))"
  using a85_char [of d] by (simp_all add: Let_def)

lemma a85_loop_z: "a85_loop v 0 (0x7A # cs) = rbind (a85_loop v 0 cs) (\<lambda>ys. Inr (replicate 4 0 @ ys))"
  by (simp add: isspace_def)

declare a85_loop.simps(2) [simp del]

lemma a85_group_back:
  "a85_loop 0 0 (map a85_char (base85 5 v []) @ cs)
     = rbind (a85_loop 0 0 cs) (\<lambda>ys. Inr (map (be_byte v) (rev [0..<4]) @ ys))"
  by (simp add: base85_5 a85_loop_digit top_digit horner_word)

text \<open>
  A last group of \<open>n\<close> bytes is written as \<open>n + 1\<close> digits.  Reading pads them with the
  highest digit: what comes out lies between the word and the next multiple of the bytes kept.
\<close>

lemma be_byte_nat: "j < 4 \<Longrightarrow> be_byte (of_nat u) j = of_nat (u div 256 ^ j)"
proof -
  assume j: "j < 4"
  have "(256 :: nat) ^ j = 2 ^ (8 * j)" by (simp add: power_mult)
  then have d: "u div 256 ^ j = drop_bit (8 * j) u" by (simp add: drop_bit_eq_div)
  show ?thesis unfolding d
    by (rule bit_word_eqI) (use j in \<open>auto simp: be_byte_def bit_simps\<close>)
qed

lemma padded_digits:
  fixes u :: nat
  assumes "u mod 256 ^ k = 0" "j \<ge> k" "k \<in> {1, 2, 3}"
  shows "(u div 85 ^ k * 85 ^ k + 85 ^ k - 1) div 256 ^ j = u div 256 ^ j"
proof -
  let ?U = "u div 85 ^ k * 85 ^ k + 85 ^ k - 1"
  have p: "(0 :: nat) < 85 ^ k" by simp
  have b: "(85 :: nat) ^ k < 256 ^ k" using assms(3) by auto
  obtain q where q: "u = 256 ^ k * q" using assms(1) by (metis mult_div_mod_eq add.right_neutral)
  have U: "?U = u - u mod 85 ^ k + 85 ^ k - 1" by (simp add: minus_mod_eq_div_mult)
  have m: "u mod 85 ^ k < 85 ^ k" "u mod 85 ^ k \<le> u" by simp_all
  have lo: "u \<le> ?U" using m p unfolding U by linarith
  have hi: "?U < u + 256 ^ k" using m b p unfolding U by linarith
  have "?U div 256 ^ k = q"
    by (rule div_nat_eqI) (use lo hi q in \<open>simp_all add: algebra_simps\<close>)
  moreover have "u div 256 ^ k = q" using q by simp
  moreover have "x div 256 ^ j = x div 256 ^ k div 256 ^ (j - k)" for x :: nat
    using assms(2) by (simp add: flip: div_mult2_eq power_add)
  ultimately show ?thesis by simp
qed

lemma a85_flush_back:
  assumes "k \<in> {1, 2, 3}" "unat v mod 256 ^ k = 0"
  shows "a85_flush (of_nat (unat v div 85 ^ k)) (5 - k) = map (be_byte v) (rev [k..<4])"
proof -
  let ?u = "unat v"
  have pow: "((\<lambda>v. v * 85 + 84) ^^ k) (of_nat (?u div 85 ^ k)) = (of_nat (?u div 85 ^ k * 85 ^ k + 85 ^ k - 1) :: i32)"
  proof -
    have "((\<lambda>v. v * 85 + 84) ^^ n) (of_nat x) = (of_nat ((x + 1) * 85 ^ n - 1) :: i32)" for x n
    proof (induction n)
      case (Suc n)
      have "(x + 1) * 85 ^ n \<noteq> 0" by simp
      then have "((x + 1) * 85 ^ n - 1) * 85 + 84 = (x + 1) * 85 ^ n * 85 - 1"
        by linarith
      then have "((x + 1) * 85 ^ n - 1) * 85 + 84 = (x + 1) * 85 ^ Suc n - 1"
        by (simp only: power_Suc2 mult.assoc)
      then have "(of_nat (((x + 1) * 85 ^ n - 1) * 85 + 84) :: i32) = of_nat ((x + 1) * 85 ^ Suc n - 1)"
        by (rule arg_cong)
      then show ?case using Suc by simp
    qed simp
    from this [of k "?u div 85 ^ k"] show ?thesis by (simp add: algebra_simps)
  qed
  have byte: "be_byte (of_nat (?u div 85 ^ k * 85 ^ k + 85 ^ k - 1)) j = be_byte v j" if "j \<in> set (rev [k..<4])" for j
    using padded_digits [OF assms(2), of j] assms(1) that be_byte_nat [of j ?u]
    by (simp add: be_byte_nat)
  have "5 - (5 - k) = k" "4 - (5 - k - 1) = k" using assms(1) by auto
  then show ?thesis unfolding a85_flush_def Let_def pow [symmetric] using byte pow
    by (simp only: map_eq_conv) simp
qed

lemma a85_partial_back:
  assumes "xs \<noteq> []" "length xs < 4"
  shows "a85_loop 0 0 (take (length xs + 1) (map a85_char (base85 5 (be_word (xs @ replicate (4 - length xs) 0)) []))) = Inr xs"
proof -
  have z: "unat (be_word [a, b, c, 0]) mod 256 = 0" "unat (be_word [a, b, 0, 0]) mod 65536 = 0"
    "unat (be_word [a, 0, 0, 0]) mod 16777216 = 0" for a b c
  proof -
    have "take_bit 8 (be_word [a, b, c, 0]) = 0" "take_bit 16 (be_word [a, b, 0, 0]) = 0" "take_bit 24 (be_word [a, 0, 0, 0]) = 0"
      by (simp_all add: be_word_4 bit_eq_iff bit_simps)
    from this [THEN arg_cong [where f = unat]]
    show "unat (be_word [a, b, c, 0]) mod 256 = 0" "unat (be_word [a, b, 0, 0]) mod 65536 = 0"
      "unat (be_word [a, 0, 0, 0]) mod 16777216 = 0"
      by (simp_all add: unat_low)
  qed
  from assms consider (1) a where "xs = [a]" | (2) a b where "xs = [a, b]" | (3) a b c where "xs = [a, b, c]"
    by (auto simp: length_Suc_conv less_Suc_eq numeral_eq_Suc neq_Nil_conv)
  then show ?thesis
  proof cases
    case 1
    have "[3..<4] = [3 :: nat]" by (simp add: upt_rec)
    then show ?thesis
      using 1 a85_flush_back [of 3 "be_word [a, 0, 0, 0]"] be_bytes_back [of a 0 0 0] z(3)
      by (simp add: base85_5 a85_loop_digit top_digit horner_word rev_upt_4 numeral_2_eq_2 numeral_3_eq_3)
  next
    case 2
    have "rev [2..<4] = [3, 2 :: nat]" by (simp add: upt_rec)
    then show ?thesis
      using 2 a85_flush_back [of 2 "be_word [a, b, 0, 0]"] be_bytes_back [of a b 0 0] z(2)
      by (simp add: base85_5 a85_loop_digit top_digit horner_word rev_upt_4 numeral_2_eq_2 numeral_3_eq_3)
  next
    case 3
    have "rev [1..<4] = [3, 2, 1 :: nat]" by (simp add: upt_rec)
    moreover have four: "(5 :: nat) - 1 = Suc (Suc (Suc (Suc 0)))" by simp
    ultimately have "a85_flush (of_nat (unat (be_word [a, b, c, 0]) div 85)) (Suc (Suc (Suc (Suc 0)))) = [a, b, c]"
      using a85_flush_back [of 1 "be_word [a, b, c, 0]"] be_bytes_back [of a b c 0] z(1)
      unfolding four by (simp add: rev_upt_4)
    then show ?thesis
      using 3 by (simp add: base85_5 a85_loop_digit top_digit horner_word)
  qed
qed

lemma a85_round_trip: "a85_decode (a85_encode xs) = Inr xs"
proof -
  have "a85_loop 0 0 (a85_encode xs) = Inr xs"
  proof (induction xs rule: a85_encode.induct)
    case (1 xs)
    consider "xs = []" | "xs \<noteq> []" "length xs < 4" | "length xs \<ge> 4" by linarith
    then show ?case
    proof cases
      case 2
      then have "a85_encode xs = take (length xs + 1) (map a85_char (base85 5 (be_word (xs @ replicate (4 - length xs) 0)) []))"
        by (subst a85_encode.simps) (simp add: min_def a85_encode.simps [of "[]"] a85_char_def [abs_def] Let_def)
      then show ?thesis using a85_partial_back [OF 2] by simp
    next
      case 3
      then obtain a b c d ys where xs: "xs = a # b # c # d # ys"
        by (auto simp: numeral_eq_Suc Suc_le_length_iff)
      have IH: "a85_loop 0 0 (a85_encode ys) = Inr ys"
        using 1 [OF _ refl refl] xs by simp
      have e: "a85_encode xs = (if be_word [a, b, c, d] = 0 then [0x7A] else map a85_char (base85 5 (be_word [a, b, c, d]) []))
          @ a85_encode ys"
        using xs by (subst a85_encode.simps) (simp add: base85_5 a85_char_def Let_def)
      show ?thesis
      proof (cases "be_word [a, b, c, d] = 0")
        case True
        have "[a, b, c, d] = replicate 4 0"
          using be_bytes_back [of a b c d] True by (simp add: rev_upt_4 be_byte_def numeral_eq_Suc)
        then show ?thesis using e xs IH True by (simp add: a85_loop_z)
      next
        case False
        then show ?thesis using e xs IH by (simp add: a85_group_back be_bytes_back)
      qed
    qed (simp add: a85_encode.simps)
  qed
  then show ?thesis by (simp add: a85_decode_def)
qed

subsection \<open>UTF-8\<close>

definition append_utf8 :: "i32 \<Rightarrow> bytes" where
  "append_utf8 cp0 =
     (let cp = if cp0 > 0x10FFFF \<or> (cp0 \<ge> 0xD800 \<and> cp0 \<le> 0xDFFF) then 0xFFFD else cp0
      in if cp < 0x80 then [ucast cp]
         else if cp < 0x800 then [ucast (0xC0 OR drop_bit 6 cp), ucast (0x80 OR (cp AND 0x3F))]
         else if cp < 0x10000 then
           [ucast (0xE0 OR drop_bit 12 cp), ucast (0x80 OR (drop_bit 6 cp AND 0x3F)), ucast (0x80 OR (cp AND 0x3F))]
         else
           [ucast (0xF0 OR drop_bit 18 cp), ucast (0x80 OR (drop_bit 12 cp AND 0x3F)),
            ucast (0x80 OR (drop_bit 6 cp AND 0x3F)), ucast (0x80 OR (cp AND 0x3F))])"

text \<open>\<open>next_rune\<close> at the offset \<open>i\<close>, which is below the length: the code point and the new offset.\<close>

definition is_cont :: "bytes \<Rightarrow> nat \<Rightarrow> bool" where
  "is_cont s k \<longleftrightarrow> k < length s \<and> s ! k AND 0xC0 = 0x80"

definition cont_bits :: "bytes \<Rightarrow> nat \<Rightarrow> i32" where
  "cont_bits s k = ucast (s ! k) AND 0x3F"

definition next_rune :: "bytes \<Rightarrow> nat \<Rightarrow> i32 \<times> nat" where
  "next_rune s i =
     (let b0 = s ! i
      in if b0 < 0x80 then (ucast b0, i + 1)
         else if b0 AND 0xE0 = 0xC0 \<and> is_cont s (i + 1) then
           (let cp = push_bit 6 (ucast b0 AND 0x1F) OR cont_bits s (i + 1)
            in (if cp < 0x80 then 0xFFFD else cp, i + 2))
         else if b0 AND 0xF0 = 0xE0 \<and> is_cont s (i + 1) \<and> is_cont s (i + 2) then
           (let cp = push_bit 12 (ucast b0 AND 0x0F) OR push_bit 6 (cont_bits s (i + 1)) OR cont_bits s (i + 2)
            in (if cp < 0x800 then 0xFFFD else cp, i + 3))
         else if b0 AND 0xF8 = 0xF0 \<and> is_cont s (i + 1) \<and> is_cont s (i + 2) \<and> is_cont s (i + 3) then
           (let cp = push_bit 18 (ucast b0 AND 0x07) OR push_bit 12 (cont_bits s (i + 1))
                     OR push_bit 6 (cont_bits s (i + 2)) OR cont_bits s (i + 3)
            in (if cp < 0x10000 then 0xFFFD else cp, i + 4))
         else (0xFFFD, i + 1))"

definition utf8_rune_len :: "bytes \<Rightarrow> nat \<Rightarrow> nat" where
  "utf8_rune_len s i =
     (let b = s ! i;
          n = if b < 0x80 then 1 else if b AND 0xE0 = 0xC0 then 2
              else if b AND 0xF0 = 0xE0 then 3 else if b AND 0xF8 = 0xF0 then 4 else 1
      in if i + n > length s then 1
         else if \<exists>k \<in> set [1..<n]. s ! (i + k) AND 0xC0 \<noteq> 0x80 then 1 else n)"

text \<open>The two readers advance by the same number of bytes.\<close>

lemma upt_small: "[Suc 0..<2] = [1]" "[Suc 0..<3] = [1, 2]" "[Suc 0..<4] = [1, 2, 3]"
  by (simp_all add: upt_rec)

lemma lead_classes:
  "(b :: byte) AND 0xE0 = 0xC0 \<Longrightarrow> b AND 0xF0 \<noteq> 0xE0 \<and> b AND 0xF8 \<noteq> 0xF0"
  "(b :: byte) AND 0xF0 = 0xE0 \<Longrightarrow> b AND 0xF8 \<noteq> 0xF0"
proof -
  have bits: "bit ((0xE0 :: byte)) 5" "bit ((0xE0 :: byte)) 6" "\<not> bit ((0xC0 :: byte)) 5"
    "bit (0xF0 :: byte) 5" "bit (0xF8 :: byte) 5" "bit (0xF0 :: byte) 4" "\<not> bit (0xE0 :: byte) 4" "bit (0xF8 :: byte) 4"
    by simp_all
  show "b AND 0xE0 = 0xC0 \<Longrightarrow> b AND 0xF0 \<noteq> 0xE0 \<and> b AND 0xF8 \<noteq> 0xF0"
    using bits by (metis bit_and_iff)
  show "b AND 0xF0 = 0xE0 \<Longrightarrow> b AND 0xF8 \<noteq> 0xF0"
    using bits by (metis bit_and_iff)
qed

lemma next_rune_advances:
  assumes "i < length s"
  shows "snd (next_rune s i) = i + utf8_rune_len s i"
proof -
  have s2: "\<not> i + 2 \<le> length s \<longleftrightarrow> \<not> i + 1 < length s"
    "i + 3 \<le> length s \<longleftrightarrow> i + 1 < length s \<and> i + 2 < length s"
    "i + 4 \<le> length s \<longleftrightarrow> i + 1 < length s \<and> i + 2 < length s \<and> i + 3 < length s"
    by auto
  consider (1) "s ! i < 0x80" | (2) "\<not> s ! i < 0x80" "s ! i AND 0xE0 = 0xC0"
    | (3) "\<not> s ! i < 0x80" "s ! i AND 0xE0 \<noteq> 0xC0" "s ! i AND 0xF0 = 0xE0"
    | (4) "\<not> s ! i < 0x80" "s ! i AND 0xE0 \<noteq> 0xC0" "s ! i AND 0xF0 \<noteq> 0xE0" "s ! i AND 0xF8 = 0xF0"
    | (5) "\<not> s ! i < 0x80" "s ! i AND 0xE0 \<noteq> 0xC0" "s ! i AND 0xF0 \<noteq> 0xE0" "s ! i AND 0xF8 \<noteq> 0xF0"
    by argo
  then show ?thesis
  proof cases
    case 1 then show ?thesis using assms by (simp add: next_rune_def utf8_rune_len_def)
  next
    case 2 then show ?thesis using lead_classes(1) [OF 2(2)]
      by (simp add: next_rune_def utf8_rune_len_def is_cont_def Let_def upt_small not_le Suc_le_eq) linarith?
  next
    case 3 then show ?thesis using lead_classes(2) [OF 3(3)]
      by (simp add: next_rune_def utf8_rune_len_def is_cont_def Let_def upt_small not_le) linarith?
  next
    case 4 then show ?thesis
      by (simp add: next_rune_def utf8_rune_len_def is_cont_def Let_def upt_small not_le) linarith?
  next
    case 5 then show ?thesis by (simp add: next_rune_def utf8_rune_len_def Let_def)
  qed
qed

text \<open>What a code point becomes when written, and that the reader gives it back.\<close>

definition scalar :: "i32 \<Rightarrow> bool" where
  "scalar cp \<longleftrightarrow> cp \<le> 0x10FFFF \<and> \<not> (0xD800 \<le> cp \<and> cp \<le> 0xDFFF)"

lemma high_bit:
  assumes "unat (cp :: 'a::len word) < 2 ^ k" "k \<le> n"
  shows "\<not> bit cp n"
proof -
  have "take_bit k cp = cp" using assms(1) by (simp add: word_unat_eq_iff unat_low)
  then show ?thesis using assms(2) by (metis bit_take_bit_iff not_le)
qed

lemma masks [simp]: "(x :: 'a::len word) AND 31 = take_bit 5 x" "(x :: 'a::len word) AND 7 = take_bit 3 x"
  by (simp_all add: take_bit_eq_mask mask_eq_exp_minus_1)

lemma marker_bits:
  "n < 6 \<Longrightarrow> \<not> bit (0x80 :: int) n" "n < 5 \<Longrightarrow> \<not> bit (0xC0 :: int) n"
  "n < 4 \<Longrightarrow> \<not> bit (0xE0 :: int) n" "n < 3 \<Longrightarrow> \<not> bit (0xF0 :: int) n"
proof -
  have r: "n < 6 \<Longrightarrow> n \<in> {0, 1, 2, 3, 4, 5}" "n < 5 \<Longrightarrow> n \<in> {0, 1, 2, 3, 4}"
    "n < 4 \<Longrightarrow> n \<in> {0, 1, 2, 3}" "n < 3 \<Longrightarrow> n \<in> {0, 1, 2}" by auto
  show "n < 6 \<Longrightarrow> \<not> bit (0x80 :: int) n" "n < 5 \<Longrightarrow> \<not> bit (0xC0 :: int) n"
    "n < 4 \<Longrightarrow> \<not> bit (0xE0 :: int) n" "n < 3 \<Longrightarrow> \<not> bit (0xF0 :: int) n"
    by (drule r, elim insertE emptyE; simp)+
qed

lemma cont_payload: "take_bit 6 (ucast (ucast (0x80 OR take_bit 6 x :: i32) :: byte)) = take_bit 6 (x :: i32)"
  by (rule bit_word_eqI) (auto simp: bit_simps marker_bits)

lemma lead_payload:
  "take_bit 5 (ucast (ucast (0xC0 OR x :: i32) :: byte)) = take_bit 5 (x :: i32)"
  "take_bit 4 (ucast (ucast (0xE0 OR x :: i32) :: byte)) = take_bit 4 x"
  "take_bit 3 (ucast (ucast (0xF0 OR x :: i32) :: byte)) = take_bit 3 x"
  by (rule bit_word_eqI; auto simp: bit_simps marker_bits)+

lemma cont_mark: "ucast (0x80 OR take_bit 6 x :: i32) AND 0xC0 = (0x80 :: byte)"
  by (rule byte_eqI) (simp_all add: bit_simps)

lemma top_bit: "bit (b :: byte) 7 \<Longrightarrow> \<not> b < 0x80"
proof
  assume "bit b 7" "b < 0x80"
  then have "unat b < 2 ^ 7" by (simp add: word_less_nat_alt)
  then have "\<not> bit b 7" by (rule high_bit) simp
  then show False using \<open>bit b 7\<close> by simp
qed

lemma lead_marks:
  "\<not> ucast (0xC0 OR x :: i32) < (0x80 :: byte)" "\<not> ucast (0xE0 OR x :: i32) < (0x80 :: byte)" "\<not> ucast (0xF0 OR x :: i32) < (0x80 :: byte)"
  by (rule top_bit, simp add: bit_simps)+

lemma lead_2: "\<not> bit x 5 \<Longrightarrow> ucast (0xC0 OR x :: i32) AND 0xE0 = (0xC0 :: byte)"
  by (rule byte_eqI) (simp_all add: bit_simps)

lemma lead_3:
  "\<not> bit x 4 \<Longrightarrow> ucast (0xE0 OR x :: i32) AND 0xF0 = (0xE0 :: byte)"
  "ucast (0xE0 OR x :: i32) AND 0xE0 \<noteq> (0xC0 :: byte)"
proof -
  show "\<not> bit x 4 \<Longrightarrow> ucast (0xE0 OR x :: i32) AND 0xF0 = (0xE0 :: byte)"
    by (rule byte_eqI) (simp_all add: bit_simps)
  have "bit (ucast (0xE0 OR x :: i32) AND 0xE0 :: byte) 5" "\<not> bit (0xC0 :: byte) 5" by (simp_all add: bit_simps)
  then show "ucast (0xE0 OR x :: i32) AND 0xE0 \<noteq> (0xC0 :: byte)" by metis
qed

lemma lead_4:
  "\<not> bit x 3 \<Longrightarrow> ucast (0xF0 OR x :: i32) AND 0xF8 = (0xF0 :: byte)"
  "ucast (0xF0 OR x :: i32) AND 0xE0 \<noteq> (0xC0 :: byte)" "ucast (0xF0 OR x :: i32) AND 0xF0 \<noteq> (0xE0 :: byte)"
proof -
  show "\<not> bit x 3 \<Longrightarrow> ucast (0xF0 OR x :: i32) AND 0xF8 = (0xF0 :: byte)"
    by (rule byte_eqI) (simp_all add: bit_simps)
  have "bit (ucast (0xF0 OR x :: i32) AND 0xE0 :: byte) 5" "\<not> bit (0xC0 :: byte) 5"
    "bit (ucast (0xF0 OR x :: i32) AND 0xF0 :: byte) 4" "\<not> bit (0xE0 :: byte) 4" by (simp_all add: bit_simps)
  then show "ucast (0xF0 OR x :: i32) AND 0xE0 \<noteq> (0xC0 :: byte)" "ucast (0xF0 OR x :: i32) AND 0xF0 \<noteq> (0xE0 :: byte)"
    by metis+
qed

text \<open>The bits put back together.\<close>

lemma rejoin:
  fixes cp :: i32
  shows "cp < 0x800 \<Longrightarrow> push_bit 6 (take_bit 5 (drop_bit 6 cp)) OR take_bit 6 cp = cp"
    "cp < 0x10000 \<Longrightarrow> push_bit 12 (take_bit 4 (drop_bit 12 cp)) OR push_bit 6 (take_bit 6 (drop_bit 6 cp)) OR take_bit 6 cp = cp"
    "cp < 0x200000 \<Longrightarrow> push_bit 18 (take_bit 3 (drop_bit 18 cp)) OR push_bit 12 (take_bit 6 (drop_bit 12 cp))
       OR push_bit 6 (take_bit 6 (drop_bit 6 cp)) OR take_bit 6 cp = cp"
proof -
  have small: "cp < 0x800 \<Longrightarrow> bit cp n \<Longrightarrow> n < 11" "cp < 0x10000 \<Longrightarrow> bit cp n \<Longrightarrow> n < 16"
    "cp < 0x200000 \<Longrightarrow> bit cp n \<Longrightarrow> n < 21" for n
    using high_bit [of cp 11 n] high_bit [of cp 16 n] high_bit [of cp 21 n] not_le
    by (fastforce simp: word_less_nat_alt)+
  show "cp < 0x800 \<Longrightarrow> push_bit 6 (take_bit 5 (drop_bit 6 cp)) OR take_bit 6 cp = cp"
    by (intro bit_word_eqI) (auto simp: bit_simps dest: small)
  show "cp < 0x10000 \<Longrightarrow> push_bit 12 (take_bit 4 (drop_bit 12 cp)) OR push_bit 6 (take_bit 6 (drop_bit 6 cp)) OR take_bit 6 cp = cp"
    by (intro bit_word_eqI) (auto simp: bit_simps dest: small)
  show "cp < 0x200000 \<Longrightarrow> push_bit 18 (take_bit 3 (drop_bit 18 cp)) OR push_bit 12 (take_bit 6 (drop_bit 12 cp))
       OR push_bit 6 (take_bit 6 (drop_bit 6 cp)) OR take_bit 6 cp = cp"
    by (intro bit_word_eqI) (auto simp: bit_simps dest: small)
qed

lemma append_utf8_cases:
  fixes cp :: i32
  obtains (one) "scalar cp" "cp < 0x80" "append_utf8 cp = [ucast cp]"
  | (two) "scalar cp" "\<not> cp < 0x80" "cp < 0x800"
      "append_utf8 cp = [ucast (0xC0 OR drop_bit 6 cp), ucast (0x80 OR take_bit 6 cp)]"
  | (three) c where "c = (if scalar cp then cp else 0xFFFD)" "\<not> c < 0x800" "c < 0x10000"
      "append_utf8 cp = [ucast (0xE0 OR drop_bit 12 c), ucast (0x80 OR take_bit 6 (drop_bit 6 c)), ucast (0x80 OR take_bit 6 c)]"
  | (four) "scalar cp" "\<not> cp < 0x10000" "cp < 0x200000"
      "append_utf8 cp = [ucast (0xF0 OR drop_bit 18 cp), ucast (0x80 OR take_bit 6 (drop_bit 12 cp)),
         ucast (0x80 OR take_bit 6 (drop_bit 6 cp)), ucast (0x80 OR take_bit 6 cp)]"
proof (cases "scalar cp")
  case False
  then have c: "cp > 0x10FFFF \<or> (cp \<ge> 0xD800 \<and> cp \<le> 0xDFFF)" by (auto simp: scalar_def not_le)
  show ?thesis
    by (rule three [of "0xFFFD"]) (use False c in \<open>simp_all add: append_utf8_def\<close>)
next
  case True
  then have n: "\<not> (cp > 0x10FFFF \<or> (cp \<ge> 0xD800 \<and> cp \<le> 0xDFFF))" by (auto simp: scalar_def not_le)
  consider "cp < 0x80" | "\<not> cp < 0x80" "cp < 0x800" | "\<not> cp < 0x80" "\<not> cp < 0x800" "cp < 0x10000" | "\<not> cp < 0x80" "\<not> cp < 0x800" "\<not> cp < 0x10000"
    by blast
  then show ?thesis
  proof cases
    case 1 then show ?thesis using True n one by (simp add: append_utf8_def)
  next
    case 2 then show ?thesis using True n two by (simp add: append_utf8_def)
  next
    case 3 then show ?thesis using True n by (intro three [of cp]) (auto simp add: append_utf8_def)
  next
    case 4
    have "cp < 0x200000" using True by (auto simp: scalar_def word_le_nat_alt word_less_nat_alt)
    then show ?thesis using 4 True n four by (simp add: append_utf8_def)
  qed
qed

lemma rune_length [simp]: "append_utf8 cp \<noteq> []" "length (append_utf8 cp) \<le> 4"
  by (cases cp rule: append_utf8_cases; simp)+

lemma no_high:
  "(cp :: i32) < 0x800 \<Longrightarrow> \<not> bit (drop_bit 6 cp) 5"
  "cp < 0x10000 \<Longrightarrow> \<not> bit (drop_bit 12 cp) 4"
  "cp < 0x200000 \<Longrightarrow> \<not> bit (drop_bit 18 cp) 3"
  using high_bit [of cp 11 11] high_bit [of cp 16 16] high_bit [of cp 21 21]
  by (simp_all add: bit_simps word_less_nat_alt)

lemma nth_after: "(pre @ x # xs) ! length pre = x" "(pre @ x # y # xs) ! Suc (length pre) = y"
  "(pre @ x # y # z # xs) ! Suc (Suc (length pre)) = z" "(pre @ x # y # z # w # xs) ! Suc (Suc (Suc (length pre))) = w"
  "(pre @ x # y # z # xs) ! (length pre + 2) = z" "(pre @ x # y # z # w # xs) ! (length pre + 3) = w"
  by (simp_all add: nth_append)

lemma utf8_back:
  "next_rune (pre @ append_utf8 cp @ post) (length pre)
     = (if scalar cp then cp else 0xFFFD, length pre + length (append_utf8 cp))"
proof (cases cp rule: append_utf8_cases)
  case one
  have u: "unat cp < 128" using one(2) by (simp add: word_less_nat_alt)
  then have "(ucast cp :: byte) < 0x80" by (simp add: word_less_nat_alt unat_ucast_down)
  moreover have "ucast (ucast cp :: byte) = cp"
    using high_bit [of cp 7] u by (intro bit_word_eqI) (auto simp: bit_simps not_le [symmetric])
  ultimately show ?thesis using one by (simp add: next_rune_def nth_after)
next
  case two
  then show ?thesis using no_high(1) [OF two(3)] rejoin(1) [OF two(3)]
    by (simp add: next_rune_def Let_def nth_after is_cont_def cont_bits_def lead_marks lead_2 cont_mark lead_payload cont_payload
        del: unsigned_or_eq)
next
  case (three c)
  have "next_rune (pre @ append_utf8 cp @ post) (length pre) = (c, length pre + length (append_utf8 cp))"
    using three(2-4) no_high(2) [OF three(3)] rejoin(2) [OF three(3)]
    by (simp add: next_rune_def Let_def nth_after is_cont_def cont_bits_def lead_marks lead_3 cont_mark lead_payload cont_payload
        del: unsigned_or_eq)
  then show ?thesis using three(1) by simp
next
  case four
  then show ?thesis using no_high(3) [OF four(3)] rejoin(3) [OF four(3)]
    by (simp add: next_rune_def Let_def nth_after is_cont_def cont_bits_def lead_marks lead_4 cont_mark lead_payload cont_payload
        del: unsigned_or_eq)
qed

text \<open>A whole text read rune by rune, as the loops over \<open>next_rune\<close> do.\<close>

function runes :: "bytes \<Rightarrow> nat \<Rightarrow> i32 list" where
  "runes s i = (if i < length s then let (cp, i') = next_rune s i in cp # runes s i' else [])"
  by pat_completeness auto
termination
proof (relation "measure (\<lambda>(s, i). length s - i)", goal_cases)
  case (2 s i x cp i')
  then have "i' = i + utf8_rune_len s i" using next_rune_advances [of i s] by (metis snd_conv)
  moreover have "utf8_rune_len s i \<ge> 1" by (auto simp: utf8_rune_len_def Let_def)
  ultimately show ?case using 2 by simp
qed simp

declare runes.simps [simp del]

lemma runes_append: "runes (pre @ concat (map append_utf8 cps)) (length pre) = map (\<lambda>cp. if scalar cp then cp else 0xFFFD) cps"
proof (induction cps arbitrary: pre)
  case Nil
  show ?case by (simp add: runes.simps)
next
  case (Cons cp cps)
  have "length pre < length (pre @ concat (map append_utf8 (cp # cps)))"
    by simp
  moreover have "next_rune (pre @ concat (map append_utf8 (cp # cps))) (length pre)
      = (if scalar cp then cp else 0xFFFD, length (pre @ append_utf8 cp))"
    using utf8_back [of pre cp "concat (map append_utf8 cps)"] by simp
  ultimately show ?case using Cons [of "pre @ append_utf8 cp"] by (subst runes.simps) simp
qed

lemma utf8_round_trip:
  assumes "\<forall>cp \<in> set cps. scalar cp"
  shows "runes (concat (map append_utf8 cps)) 0 = cps"
  using runes_append [of "[]" cps] assms by (simp add: map_idI)

text \<open>
  A sequence of four bytes that spells a value above the last code point, and one of three that
  spells a surrogate, are returned as they are; an overlong spelling is replaced but its bytes
  are consumed together.
\<close>

lemma next_rune_lenient:
  "next_rune [0xF7, 0xBF, 0xBF, 0xBF] 0 = (0x1FFFFF, 4)"
  "next_rune [0xED, 0xA0, 0x80] 0 = (0xD800, 3)"
  "next_rune [0xC0, 0x80] 0 = (0xFFFD, 2)"
  by (simp_all add: next_rune_def Let_def is_cont_def cont_bits_def)

subsection \<open>Comparison and identifiers\<close>

definition constant_time_eq :: "bytes \<Rightarrow> bytes \<Rightarrow> bool" where
  "constant_time_eq a b \<longleftrightarrow>
     length a = length b \<and> fold (\<lambda>(x, y) diff. diff OR (x XOR y)) (zip a b) (0 :: byte) = 0"

lemma fold_diff: "fold (\<lambda>(x, y) diff. diff OR (x XOR y)) ps (d :: byte) = 0 \<longleftrightarrow> d = 0 \<and> (\<forall>(x, y) \<in> set ps. x = y)"
proof (induction ps arbitrary: d)
  case (Cons p ps)
  have "d OR (x XOR y) = 0 \<longleftrightarrow> d = 0 \<and> x = y" for x y :: byte
    by (auto simp: bit_eq_iff bit_simps)
  then show ?case using Cons by (cases p) auto
qed simp

lemma constant_time_eq_iff: "constant_time_eq a b \<longleftrightarrow> a = b"
  by (auto simp: constant_time_eq_def fold_diff list_eq_iff_zip_eq in_set_zip)

definition format_uuid :: "bytes \<Rightarrow> bytes" where
  "format_uuid raw16 =
     (let h = hex_encode raw16
      in take 8 h @ [0x2D] @ take 4 (drop 8 h) @ [0x2D] @ take 4 (drop 12 h) @ [0x2D] @ take 4 (drop 16 h)
         @ [0x2D] @ drop 20 h)"

lemma format_uuid_inject:
  assumes "length a = 16" "length b = 16" "format_uuid a = format_uuid b"
  shows "a = b" and "length (format_uuid a) = 36"
proof -
  have h: "take 8 h @ take 4 (drop 8 h) @ take 4 (drop 12 h) @ take 4 (drop 16 h) @ drop 20 h = h" for h :: bytes
    using append_take_drop_id [of 4 "drop 16 h"] append_take_drop_id [of 4 "drop 12 h"]
      append_take_drop_id [of 4 "drop 8 h"] append_take_drop_id [of 8 h] by simp
  show "length (format_uuid a) = 36"
    using assms(1) by (simp add: format_uuid_def Let_def)
  let ?x = "hex_encode a" and ?y = "hex_encode b"
  have parts: "take 8 ?x = take 8 ?y" "take 4 (drop 8 ?x) = take 4 (drop 8 ?y)" "take 4 (drop 12 ?x) = take 4 (drop 12 ?y)"
    "take 4 (drop 16 ?x) = take 4 (drop 16 ?y)" "drop 20 ?x = drop 20 ?y"
    using assms by (simp_all add: format_uuid_def Let_def)
  have "?x = take 8 ?x @ take 4 (drop 8 ?x) @ take 4 (drop 12 ?x) @ take 4 (drop 16 ?x) @ drop 20 ?x"
    by (rule h [symmetric])
  also have "\<dots> = ?y" unfolding parts by (rule h)
  finally have "hex_encode a = hex_encode b" .
  then have "hex_decode (hex_encode a) = hex_decode (hex_encode b)" by (rule arg_cong)
  then show "a = b" by simp
qed

end
