(* ===== verification/Calendar.thy ===== *)
theory Calendar
  imports Encodings "HOL-Library.Signed_Division"
begin

text \<open>
  The civil calendar of \<open>methods_time.cc\<close>: an instant is a 64-bit count of nanoseconds and the
  offset of its zone in seconds.  \<open>sys_days\<close> and its inverse stand for the proleptic Gregorian
  calendar of \<open>std::chrono\<close>, written out; \<open>to_civil\<close> and \<open>from_civil_secs\<close> are the functions of
  the code.  Narrowing conversions and the addition that can overflow are written out on words,
  everything else stays far inside its type and is an integer.  The lemmas show that the two
  directions are inverse and that every field is in its range.
\<close>

subsection \<open>Days and dates\<close>

definition leap :: "int \<Rightarrow> bool" where
  "leap y \<longleftrightarrow> y mod 4 = 0 \<and> (y mod 100 \<noteq> 0 \<or> y mod 400 = 0)"

definition month_lengths :: "bool \<Rightarrow> int list" where
  "month_lengths lp = [31, if lp then 29 else 28, 31, 30, 31, 30, 31, 31, 30, 31, 30, 31]"

definition days_before_year :: "int \<Rightarrow> int" where
  "days_before_year y = 365 * (y - 1) + (y - 1) div 4 - (y - 1) div 100 + (y - 1) div 400"

definition epoch_day :: int where
  "epoch_day = 719162"

text \<open>\<open>sys_days{year/month/day}\<close>, for a month from 1 to 12.\<close>

definition sys_days :: "int \<Rightarrow> nat \<Rightarrow> int \<Rightarrow> int" where
  "sys_days y m d = days_before_year y + sum_list (take (m - 1) (month_lengths (leap y))) + (d - 1) - epoch_day"

fun split_month :: "nat \<Rightarrow> int \<Rightarrow> int list \<Rightarrow> nat \<times> int" where
  "split_month m k [] = (m, k + 1)"
| "split_month m k (len # lens) = (if k < len then (m, k + 1) else split_month (m + 1) (k - len) lens)"

text \<open>\<open>year_month_day{sys_days}\<close>: the year, the day of the year from 0, the month and the day.\<close>

definition split_year :: "int \<Rightarrow> int \<times> int" where
  "split_year z =
     (let n = z + epoch_day;
          r = n mod 146097;
          b = min 3 (r div 36524);
          r1 = r - b * 36524;
          r2 = r1 mod 1461;
          d = min 3 (r2 div 365)
      in (400 * (n div 146097) + 100 * b + 4 * (r1 div 1461) + d + 1, r2 - 365 * d))"

definition year_month_day :: "int \<Rightarrow> int \<times> nat \<times> int" where
  "year_month_day z =
     (let (y, k) = split_year z; (m, d) = split_month 1 k (month_lengths (leap y)) in (y, m, d))"

text \<open>A quotient cut off at three, for a dividend of at most four times the divisor.\<close>

lemma capped:
  fixes r n :: int
  assumes "0 \<le> r" "r \<le> 4 * n" "0 < n"
  shows "0 \<le> min 3 (r div n)" "min 3 (r div n) \<le> 3" "0 \<le> r - min 3 (r div n) * n"
    "r - min 3 (r div n) * n \<le> n" "min 3 (r div n) < 3 \<Longrightarrow> r - min 3 (r div n) * n < n"
proof -
  have q: "r = n * (r div n) + r mod n" "0 \<le> r mod n" "r mod n < n" "0 \<le> r div n"
    using assms by (simp_all add: pos_imp_zdiv_nonneg_iff)
  show "0 \<le> min 3 (r div n)" "min 3 (r div n) \<le> 3" using q(4) by simp_all
  show "0 \<le> r - min 3 (r div n) * n" "r - min 3 (r div n) * n \<le> n"
    "min 3 (r div n) < 3 \<Longrightarrow> r - min 3 (r div n) * n < n"
  proof (atomize (full), cases "r div n \<le> 3")
    case True
    then have "min 3 (r div n) = r div n" by simp
    then have e: "r - min 3 (r div n) * n = r mod n" by (simp only: minus_div_mult_eq_mod)
    show "0 \<le> r - min 3 (r div n) * n \<and> r - min 3 (r div n) * n \<le> n \<and> (min 3 (r div n) < 3 \<longrightarrow> r - min 3 (r div n) * n < n)"
      unfolding e using q by simp
  next
    case False
    then have "n * 3 \<le> n * (r div n)" using assms(3) by (intro mult_left_mono) auto
    then have "n * 3 \<le> r" using q by linarith
    then show "0 \<le> r - min 3 (r div n) * n \<and> r - min 3 (r div n) * n \<le> n \<and> (min 3 (r div n) < 3 \<longrightarrow> r - min 3 (r div n) * n < n)"
      using False q assms(2) by (simp add: mult.commute)
  qed
qed

lemma split_year_back:
  assumes "split_year z = (y, k)"
  shows "days_before_year y + k = z + epoch_day" and "0 \<le> k" and "k < (if leap y then 366 else 365)"
proof -
  let ?n = "z + epoch_day"
  define a where "a = ?n div 146097"
  define r where "r = ?n mod 146097"
  define b where "b = min 3 (r div 36524)"
  define r1 where "r1 = r - b * 36524"
  define c where "c = r1 div 1461"
  define r2 where "r2 = r1 mod 1461"
  define d where "d = min 3 (r2 div 365)"
  note defs = a_def r_def b_def r1_def c_def r2_def d_def
  have y: "y = 400 * a + 100 * b + 4 * c + d + 1" and k: "k = r2 - 365 * d"
  proof -
    have "split_year z = (400 * a + 100 * b + 4 * c + d + 1, r2 - 365 * d)"
      unfolding split_year_def Let_def defs by (rule refl)
    then show "y = 400 * a + 100 * b + 4 * c + d + 1" "k = r2 - 365 * d" using assms by simp_all
  qed
  have n: "?n = 146097 * a + r" and r: "0 \<le> r" "r < 146097"
    unfolding a_def r_def by simp_all
  have b: "0 \<le> b" "b \<le> 3" and rb: "0 \<le> r1" "r1 \<le> 36524" and br: "b < 3 \<Longrightarrow> r1 < 36524"
    using capped [of r 36524] r unfolding r1_def b_def by simp_all
  have r1: "r1 = 1461 * c + r2" and r2: "0 \<le> r2" "r2 < 1461"
    unfolding c_def r2_def by simp_all
  have c: "0 \<le> c" "c \<le> 24" using rb r1 r2 by linarith+
  have d: "0 \<le> d" "d \<le> 3" and k0: "0 \<le> k" and dk: "d < 3 \<Longrightarrow> k < 365" and kd: "k \<le> 365"
    using capped [of r2 365] r2 unfolding k d_def by (simp_all add: mult.commute)
  have quot: "x div n = q" if "x = n * q + e" "0 \<le> e" "e < n" for x n q e :: int
    using that by (simp add: int_div_pos_eq)
  have div: "(y - 1) div 4 = 100 * a + 25 * b + c" "(y - 1) div 100 = 4 * a + b" "(y - 1) div 400 = a"
  proof -
    show "(y - 1) div 4 = 100 * a + 25 * b + c"
      by (rule quot [where e = d]) (use y d in simp_all)
    show "(y - 1) div 100 = 4 * a + b"
      by (rule quot [where e = "4 * c + d"]) (use y c d in simp_all)
    show "(y - 1) div 400 = a"
      by (rule quot [where e = "100 * b + 4 * c + d"]) (use y b c d in simp_all)
  qed
  show "days_before_year y + k = ?n"
    unfolding days_before_year_def div using y k n r1_def r1 by simp
  show "0 \<le> k" by (rule k0)
  have rest: "x mod n = e mod n" if "x = e + n * q" for x n q e :: int
    using that by simp
  have m: "y mod 4 = (d + 1) mod 4" "y mod 100 = (4 * c + d + 1) mod 100" "y mod 400 = (100 * b + 4 * c + d + 1) mod 400"
    by (rule rest [where q = "100 * a + 25 * b + c"], simp add: y,
        rule rest [where q = "4 * a + b"], simp add: y, rule rest [where q = a], simp add: y)
  show "k < (if leap y then 366 else 365)"
  proof (cases "k = 365")
    case True
    then have d3: "d = 3" using dk d by linarith
    then have r2': "r2 = 1460" using k True by simp
    have "c = 24 \<Longrightarrow> b = 3" using br r1 r2' b by linarith
    then have "leap y" using d3 c b unfolding leap_def m
      by (cases "c = 24") (simp_all, linarith?)
    then show ?thesis using True by simp
  qed (use kd in auto)
qed

text \<open>A month and a day from the day of the year, and back.\<close>

lemma split_month_back:
  assumes "0 \<le> k" "k < sum_list lens" "split_month m k lens = (m', d)"
  shows "m \<le> m'" "m' < m + length lens" "1 \<le> d" "d \<le> lens ! (m' - m)"
    "sum_list (take (m' - m) lens) + (d - 1) = k"
  using assms
proof (induction m k lens arbitrary: m' d rule: split_month.induct)
  case (2 m k len lens)
  {
    case 1 then show ?case using 2(1) [of m' d] by (auto split: if_splits)
  next
    case 2 then show ?case using "2.IH" [of m' d] by (auto split: if_splits)
  next
    case 3 then show ?case using "2.IH" [of m' d] by (auto split: if_splits)
  next
    case 4 then show ?case using "2.IH" [of m' d] by (auto simp: nth_Cons' split: if_splits)
  next
    case 5 then show ?case using "2.IH" [of m' d] by (auto simp: take_Cons' split: if_splits)
  }
qed auto

lemma sum_month_lengths: "sum_list (month_lengths lp) = (if lp then 366 else 365)"
  by (simp add: month_lengths_def)

lemma year_month_day_back:
  assumes "year_month_day z = (y, m, d)"
  shows "sys_days y m d = z" "1 \<le> m" "m \<le> 12" "1 \<le> d" "d \<le> month_lengths (leap y) ! (m - 1)"
proof -
  obtain k where k: "split_year z = (y, k)" "split_month 1 k (month_lengths (leap y)) = (m, d)"
    using assms by (auto simp: year_month_day_def Let_def split: prod.splits)
  note s = split_year_back [OF k(1)]
  have "k < sum_list (month_lengths (leap y))"
    using s(3) by (simp add: sum_month_lengths)
  note t = split_month_back [OF s(2) this k(2)]
  have "length (month_lengths (leap y)) = 12" by (simp add: month_lengths_def)
  then show "1 \<le> m" "m \<le> 12" "1 \<le> d" "d \<le> month_lengths (leap y) ! (m - 1)" using t by simp_all
  show "sys_days y m d = z"
    using t(5) s(1) by (simp add: sys_days_def)
qed

text \<open>The fields of an instant are within these bounds in the range of a 64-bit count.\<close>

lemma year_bounds:
  assumes "year_month_day z = (y, m, d)" "- 106752 \<le> z" "z \<le> 106752"
  shows "1677 \<le> y" "y \<le> 2262"
proof -
  obtain k where k: "split_year z = (y, k)"
    using assms(1) by (auto simp: year_month_day_def Let_def split: prod.splits)
  note s = split_year_back [OF k]
  have s2: "365 * y - 365 + (y - 1) div 4 - (y - 1) div 100 + (y - 1) div 400 + k = z + 719162" "0 \<le> k" "k < 366"
    using s by (auto simp: days_before_year_def epoch_day_def split: if_splits)
  have bounds: "n * (x div n) \<le> x \<and> x - n < n * (x div n)" if "0 < n" for x n :: int
    using that mult_div_mod_eq [of n x] pos_mod_sign [of n x] pos_mod_bound [of n x] by linarith
  define p q r where "p = (y - 1) div 4" and "q = (y - 1) div 100" and "r = (y - 1) div 400"
  have d: "4 * ((y - 1) div 4) \<le> y - 1 \<and> y - 1 - 4 < 4 * ((y - 1) div 4)"
    "100 * ((y - 1) div 100) \<le> y - 1 \<and> y - 1 - 100 < 100 * ((y - 1) div 100)"
    "400 * ((y - 1) div 400) \<le> y - 1 \<and> y - 1 - 400 < 400 * ((y - 1) div 400)"
    by (rule bounds, simp)+
  note u = s2 [folded p_def q_def r_def] d [folded p_def q_def r_def, THEN conjunct1] d [folded p_def q_def r_def, THEN conjunct2]
  show "1677 \<le> y" using u assms(2,3) by linarith
  show "y \<le> 2262" using u assms(2,3) by linarith
qed

subsection \<open>Instants\<close>

definition NS_PER_SEC :: int where
  "NS_PER_SEC = 1000000000"

text \<open>Division of the machine truncates; \<open>floor_div\<close> corrects it.\<close>

definition floor_div :: "int \<Rightarrow> int \<Rightarrow> int" where
  "floor_div a b = (let q = a sdiv b in if a smod b \<noteq> 0 \<and> (a < 0) \<noteq> (b < 0) then q - 1 else q)"

definition floor_mod :: "int \<Rightarrow> int \<Rightarrow> int" where
  "floor_mod a b = a - floor_div a b * b"

lemma floor_div_eq: "0 < b \<Longrightarrow> floor_div a b = a div b"
proof (cases "0 \<le> a")
  case True
  assume "0 < b"
  with True show ?thesis
    by (simp add: floor_div_def signed_divide_int_def signed_modulo_int_def sgn_if)
next
  case False
  assume b: "0 < b"
  have "a smod b = - ((- a) mod b)" "a sdiv b = - ((- a) div b)"
    using False b by (simp_all add: signed_modulo_int_def signed_divide_int_def sgn_if)
  moreover have "- ((- a) div b) = (if (- a) mod b = 0 then a div b else a div b + 1)"
    using zdiv_zminus1_eq_if [of b a] b by (auto simp: mod_eq_0_iff_dvd)
  ultimately show ?thesis
    using False b by (simp add: floor_div_def Let_def)
qed

lemma floor_mod_eq: "0 < b \<Longrightarrow> floor_mod a b = a mod b"
  by (simp add: floor_mod_def floor_div_eq minus_div_mult_eq_mod)

record civil =
  year :: int
  month :: nat
  day :: int
  hour :: int
  minute :: int
  second :: int
  nano :: int
  yday :: int
  wday :: int

definition local_nanos :: "i64 \<Rightarrow> i32 \<Rightarrow> int" where
  "local_nanos ns off = sint (ns + word_of_int (sint off * NS_PER_SEC))"

definition to_civil :: "i64 \<Rightarrow> i32 \<Rightarrow> civil" where
  "to_civil ns off =
     (let local_ns = local_nanos ns off;
          secs = floor_div local_ns NS_PER_SEC;
          nsec = floor_mod local_ns NS_PER_SEC;
          days = floor_div secs 86400;
          sod = floor_mod secs 86400;
          (y, m, d) = year_month_day days
      in \<lparr>year = y, month = m, day = d, hour = sod div 3600, minute = (sod div 60) mod 60,
          second = sod mod 60, nano = nsec, yday = days - sys_days y 1 1 + 1, wday = (days + 4) mod 7\<rparr>)"

definition TS_MAX_SEC :: int where
  "TS_MAX_SEC = 9223372036"

definition TS_MIN_SEC :: int where
  "TS_MIN_SEC = - 9223372036"

definition ts_out_of_range :: "bytes \<Rightarrow> eval_error" where
  "ts_out_of_range what = Eval_error
     (str ''timestamp out of range: '' @ what @ str '' is outside 1677-09-21T00:12:44Z .. ''
      @ str ''2262-04-11T23:47:16Z, the range swordfish can represent (it carries an ''
      @ str ''instant as a 64-bit nanosecond count). Use a `cpp:` block if you need ''
      @ str ''instants beyond it'')"

definition fits64 :: "int \<Rightarrow> bool" where
  "fits64 x \<longleftrightarrow> - (2 ^ 63) \<le> x \<and> x < 2 ^ 63"

definition make_ts :: "int \<Rightarrow> int \<Rightarrow> i32 \<Rightarrow> bytes \<Rightarrow> eval_error + i64 \<times> i32" where
  "make_ts secs nsec off what =
     (if secs > TS_MAX_SEC \<or> secs < TS_MIN_SEC \<or> \<not> fits64 (secs * NS_PER_SEC)
         \<or> \<not> fits64 (secs * NS_PER_SEC + nsec)
      then Inl (ts_out_of_range what)
      else Inr (word_of_int (secs * NS_PER_SEC + nsec), off))"

text \<open>
  \<open>std::chrono::year\<close> keeps sixteen bits, and the \<open>int\<close> year of the code 32; what a conversion
  out of range yields is written out as the wrap.
\<close>

definition chrono_year :: "int \<Rightarrow> int" where
  "chrono_year y = sint (word_of_int y :: 16 word)"

definition from_civil_secs :: "int \<Rightarrow> int \<Rightarrow> int \<Rightarrow> int \<Rightarrow> int \<Rightarrow> int \<Rightarrow> i32 \<Rightarrow> int" where
  "from_civil_secs y mo d h mi s off =
     (let m0 = mo - 1;
          y' = y + floor_div m0 12;
          mo' = floor_mod m0 12 + 1;
          sd = sys_days (chrono_year y') (nat mo') 1 + (d - 1)
      in sd * 86400 + h * 3600 + mi * 60 + s - sint off)"

definition from_civil :: "int \<Rightarrow> int \<Rightarrow> int \<Rightarrow> int \<Rightarrow> int \<Rightarrow> int \<Rightarrow> int \<Rightarrow> i32 \<Rightarrow> int" where
  "from_civil y mo d h mi s ns off = from_civil_secs y mo d h mi s off * NS_PER_SEC + ns"

definition no_wrap :: "i64 \<Rightarrow> i32 \<Rightarrow> bool" where
  "no_wrap ns off \<longleftrightarrow> fits64 (sint ns + sint off * NS_PER_SEC)"

lemma sint_64: "fits64 x \<Longrightarrow> sint (word_of_int x :: i64) = x"
  by (simp add: fits64_def sint_sbintrunc' signed_take_bit_int_eq_self_iff)

lemma fits64_sint [simp]: "fits64 (sint (x :: i64))"
  using sint_ge [of x] sint_lt [of x] by (simp add: fits64_def)

lemma local_nanos_eq: "no_wrap ns off \<Longrightarrow> local_nanos ns off = sint ns + sint off * NS_PER_SEC"
proof -
  assume w: "no_wrap ns off"
  have "ns + word_of_int (sint off * NS_PER_SEC) = word_of_int (sint ns + sint off * NS_PER_SEC)"
    by (simp only: of_int_add of_int_sint scast_id id_apply)
  then show ?thesis
    using w by (simp add: local_nanos_def no_wrap_def sint_64 del: of_int_add)
qed

lemma chrono_year_eq: "- 32768 \<le> y \<Longrightarrow> y < 32768 \<Longrightarrow> chrono_year y = y"
  by (simp add: chrono_year_def sint_sbintrunc' signed_take_bit_int_eq_self_iff)

lemma local_nanos_fits: "fits64 (local_nanos ns off)"
  by (simp add: local_nanos_def)

lemma to_civil_fields:
  assumes "c = to_civil ns off"
  shows "1677 \<le> year c" "year c \<le> 2262" "1 \<le> month c" "month c \<le> 12" "1 \<le> day c"
    "day c \<le> month_lengths (leap (year c)) ! (month c - 1)"
    "0 \<le> hour c" "hour c < 24" "0 \<le> minute c" "minute c < 60" "0 \<le> second c" "second c < 60"
    "0 \<le> nano c" "nano c < NS_PER_SEC"
    "local_nanos ns off
       = ((sys_days (year c) (month c) (day c) * 24 + hour c) * 60 + minute c) * 60 * NS_PER_SEC
         + second c * NS_PER_SEC + nano c"
proof -
  define l where "l = local_nanos ns off"
  define secs where "secs = l div NS_PER_SEC"
  define days where "days = secs div 86400"
  define sod where "sod = secs mod 86400"
  obtain y m d where ymd: "year_month_day days = (y, m, d)" by (metis prod_cases3)
  have c: "year c = y" "month c = m" "day c = d" "hour c = sod div 3600" "minute c = sod div 60 mod 60"
    "second c = sod mod 60" "nano c = l mod NS_PER_SEC"
    using ymd unfolding assms to_civil_def l_def [symmetric]
    by (simp_all add: Let_def floor_div_eq floor_mod_eq NS_PER_SEC_def l_def secs_def days_def sod_def)
  have l: "- (2 ^ 63) \<le> l" "l < 2 ^ 63"
    using local_nanos_fits unfolding l_def fits64_def by blast+
  have secs: "- 9223372037 \<le> secs" "secs \<le> 9223372036"
    using l zdiv_mono1 [of "- (2 ^ 63)" l NS_PER_SEC] zdiv_mono1 [of l "2 ^ 63 - 1" NS_PER_SEC]
    unfolding secs_def by (simp_all add: NS_PER_SEC_def)
  have days: "- 106752 \<le> days" "days \<le> 106752"
    using secs zdiv_mono1 [of "- 9223372037" secs 86400] zdiv_mono1 [of secs "9223372036" 86400]
    unfolding days_def by simp_all
  note b = year_month_day_back [OF ymd] year_bounds [OF ymd days]
  have sod: "0 \<le> sod" "sod < 86400" unfolding sod_def by simp_all
  show "1677 \<le> year c" "year c \<le> 2262" "1 \<le> month c" "month c \<le> 12" "1 \<le> day c"
    "day c \<le> month_lengths (leap (year c)) ! (month c - 1)"
    using b by (simp_all add: c)
  show "0 \<le> hour c" "0 \<le> minute c" "minute c < 60" "0 \<le> second c" "second c < 60"
    "0 \<le> nano c" "nano c < NS_PER_SEC" using sod by (simp_all add: c NS_PER_SEC_def)
  show "hour c < 24" using sod by (simp add: c)
  have t: "l = secs * NS_PER_SEC + l mod NS_PER_SEC" "secs = days * 86400 + sod"
    unfolding secs_def days_def sod_def by simp_all
  have "sod div 3600 = sod div 60 div 60" using zdiv_zmult2_eq [of 60 sod 60] by simp
  then have "sod = (sod div 3600) * 3600 + (sod div 60 mod 60) * 60 + sod mod 60"
    using div_mult_mod_eq [of sod 60] div_mult_mod_eq [of "sod div 60" 60] by linarith
  then have "secs = ((days * 24 + sod div 3600) * 60 + sod div 60 mod 60) * 60 + sod mod 60"
    using t(2) by (simp add: algebra_simps)
  then show "local_nanos ns off
       = ((sys_days (year c) (month c) (day c) * 24 + hour c) * 60 + minute c) * 60 * NS_PER_SEC
         + second c * NS_PER_SEC + nano c"
    using t(1) b(1) unfolding c l_def [symmetric] by (simp add: distrib_right)
qed

lemma from_civil_of_fields:
  assumes "c = to_civil ns off" "no_wrap ns off"
  shows "from_civil_secs (year c) (int (month c)) (day c) (hour c) (minute c) (second c) off * NS_PER_SEC + nano c = sint ns"
proof -
  note f = to_civil_fields [OF assms(1)]
  have m: "int (month c) - 1 = 12 * 0 + (int (month c) - 1)" "0 \<le> int (month c) - 1" "int (month c) - 1 < 12"
    using f(3,4) by auto
  then have div: "floor_div (int (month c) - 1) 12 = 0" "floor_mod (int (month c) - 1) 12 = int (month c) - 1"
    by (simp_all add: floor_div_eq floor_mod_eq)
  have y: "chrono_year (year c) = year c" using f(1,2) by (intro chrono_year_eq) auto
  have one: "sys_days (year c) (month c) 1 = sys_days (year c) (month c) (day c) - (day c - 1)"
    by (simp add: sys_days_def)
  have "from_civil_secs (year c) (int (month c)) (day c) (hour c) (minute c) (second c) off * NS_PER_SEC + nano c
      = local_nanos ns off - sint off * NS_PER_SEC"
    unfolding f(15) from_civil_secs_def Let_def div y add_0_right add_uminus_conv_diff
    by (simp only: diff_add_cancel nat_int one) (simp add: algebra_simps)
  then show ?thesis using assms(2) by (simp add: local_nanos_eq)
qed

lemma civil_secs_div:
  assumes "c = to_civil ns off" "no_wrap ns off"
  shows "from_civil_secs (year c) (int (month c)) (day c) (hour c) (minute c) (second c) off = sint ns div NS_PER_SEC"
    and "nano c = sint ns mod NS_PER_SEC"
proof -
  note f = to_civil_fields [OF assms(1)]
  let ?s = "from_civil_secs (year c) (int (month c)) (day c) (hour c) (minute c) (second c) off"
  have e: "sint ns = nano c + ?s * NS_PER_SEC" using from_civil_of_fields [OF assms] by simp
  have n: "0 \<le> nano c" "nano c < NS_PER_SEC" "NS_PER_SEC > 0" using f(13,14) by (simp_all add: NS_PER_SEC_def)
  show "?s = sint ns div NS_PER_SEC" unfolding e using n by simp
  show "nano c = sint ns mod NS_PER_SEC" unfolding e using n by simp
qed

text \<open>The day of the year counts the days of the months before, and the weekday the days since the epoch, a Thursday.\<close>

lemma to_civil_days:
  assumes "c = to_civil ns off"
  shows "yday c = sum_list (take (month c - 1) (month_lengths (leap (year c)))) + day c"
    "1 \<le> yday c" "yday c \<le> (if leap (year c) then 366 else 365)"
    "wday c = (sys_days (year c) (month c) (day c) + 4) mod 7"
proof -
  define days where "days = floor_div (floor_div (local_nanos ns off) NS_PER_SEC) 86400"
  obtain y m d where ymd: "year_month_day days = (y, m, d)" by (metis prod_cases3)
  obtain k where k: "split_year days = (y, k)"
    using ymd by (auto simp: year_month_day_def Let_def split: prod.splits)
  note whole = year_month_day_back(1) [OF ymd]
  note split = split_year_back [OF k]
  have c: "year c = y" "month c = m" "day c = d" "yday c = days - sys_days y 1 1 + 1" "wday c = (days + 4) mod 7"
    unfolding assms to_civil_def Let_def days_def [symmetric] ymd prod.case by simp_all
  have jan: "sys_days y 1 1 = days_before_year y - epoch_day" by (simp add: sys_days_def)
  show "yday c = sum_list (take (month c - 1) (month_lengths (leap (year c)))) + day c"
    unfolding c jan using whole by (simp add: sys_days_def)
  have "yday c = k + 1" unfolding c jan using split(1) by simp
  then show "1 \<le> yday c" "yday c \<le> (if leap (year c) then 366 else 365)"
    using split(2,3) by (auto simp: c split: if_splits)
  show "wday c = (sys_days (year c) (month c) (day c) + 4) mod 7"
    unfolding c whole by (rule refl)
qed

text \<open>C35: Taking an instant apart into civil fields and building it again gives the instant whole,
  in every zone and for every instant whose local time fits the 64-bit count of nanoseconds
  (\<open>no_wrap\<close>; beyond it the fields are those of another century, \<open>local_time_wraps\<close>), but for the
  last fraction of a second at the lower end, which the constructor refuses; and the fields are a
  real date and time of day: the day is one of its month, leap years included, the day of the year
  counts the days of the months before it and is at most 365, or 366 in a leap year, and the
  weekday counts from the epoch, a Thursday.\<close>

lemma civil_round_trip:
  assumes "no_wrap ns off" "TS_MIN_SEC * NS_PER_SEC \<le> sint ns" "c = to_civil ns off"
  shows "make_ts (from_civil_secs (year c) (int (month c)) (day c) (hour c) (minute c) (second c) off) (nano c) off what
           = Inr (ns, off) \<and>
    1 \<le> month c \<and> month c \<le> 12 \<and> 1 \<le> day c \<and> day c \<le> month_lengths (leap (year c)) ! (month c - 1) \<and>
    0 \<le> hour c \<and> hour c < 24 \<and> 0 \<le> minute c \<and> minute c < 60 \<and> 0 \<le> second c \<and> second c < 60 \<and>
    0 \<le> nano c \<and> nano c < NS_PER_SEC \<and>
    yday c = sum_list (take (month c - 1) (month_lengths (leap (year c)))) + day c \<and>
    1 \<le> yday c \<and> yday c \<le> (if leap (year c) then 366 else 365) \<and>
    wday c = (sys_days (year c) (month c) (day c) + 4) mod 7"
proof -
  let ?s = "sint ns div NS_PER_SEC"
  have e: "?s * NS_PER_SEC + sint ns mod NS_PER_SEC = sint ns" by simp
  have r: "- (2 ^ 63) \<le> sint ns" "sint ns < 2 ^ 63" using fits64_sint [of ns] by (simp_all add: fits64_def)
  have lo: "TS_MIN_SEC \<le> ?s"
    using zdiv_mono1 [OF assms(2), of NS_PER_SEC] by (simp add: NS_PER_SEC_def)
  have hi: "?s \<le> TS_MAX_SEC"
    using zdiv_mono1 [of "sint ns" "2 ^ 63 - 1" NS_PER_SEC] r(2) by (simp add: NS_PER_SEC_def TS_MAX_SEC_def)
  have "fits64 (?s * NS_PER_SEC)"
    using lo hi by (auto simp: fits64_def NS_PER_SEC_def TS_MIN_SEC_def TS_MAX_SEC_def)
  then have "make_ts (from_civil_secs (year c) (int (month c)) (day c) (hour c) (minute c) (second c) off) (nano c) off what
      = Inr (ns, off)"
    using lo hi e unfolding civil_secs_div [OF assms(3,1)] make_ts_def by simp
  then show ?thesis using to_civil_fields [OF assms(3)] to_civil_days [OF assms(3)] by (intro conjI)
qed

lemma civil_round_trip_witness:
  "let c = to_civil 951868799000000001 3600
   in (year c, month c, day c, hour c, second c) = (2000, 3, 1, 0, 59) \<and> yday c = 61 \<and>
      make_ts (from_civil_secs (year c) (int (month c)) (day c) (hour c) (minute c) (second c) 3600) (nano c) 3600 []
        = Inr (951868799000000001, 3600)"
proof -
  have "no_wrap 951868799000000001 3600" by code_simp
  moreover have "TS_MIN_SEC * NS_PER_SEC \<le> sint (951868799000000001 :: i64)" by code_simp
  moreover have "let c = to_civil 951868799000000001 3600 in (year c, month c, day c, hour c, second c) = (2000, 3, 1, 0, 59)"
    by code_simp
  ultimately show ?thesis
    using civil_round_trip [of 951868799000000001 3600 "to_civil 951868799000000001 3600" "[]"]
    by (simp add: Let_def month_lengths_def leap_def numeral_2_eq_2)
qed

text \<open>
  An instant near the end of the range in a zone east of UTC: adding the offset wraps, and the
  fields are those of 1677.
\<close>

lemma local_time_wraps: "year (to_civil 9223372036854775807 3600) = 1677"
  by code_simp

subsection \<open>Rendering\<close>

definition pad2 :: "int \<Rightarrow> bytes" where
  "pad2 v = (if v < 10 then [0x30] else []) @ decimal_int v"

definition padn :: "int \<Rightarrow> nat \<Rightarrow> bytes" where
  "padn v width = (let s = decimal_int v in replicate (width - length s) 0x30 @ s)"

definition write_offset :: "i32 \<Rightarrow> bool \<Rightarrow> bool \<Rightarrow> bytes" where
  "write_offset offset colon z_for_utc =
     (if offset = 0 \<and> z_for_utc then [0x5A]
      else let v = abs (sint offset)
           in [if sint offset < 0 then 0x2D else 0x2B] @ pad2 (v div 3600) @ (if colon then [0x3A] else [])
              @ pad2 ((v div 60) mod 60))"

definition trim_zeros :: "bytes \<Rightarrow> bytes" where
  "trim_zeros frac = rev (dropWhile (\<lambda>c. c = 0x30) (rev frac))"

definition resize :: "nat \<Rightarrow> byte \<Rightarrow> bytes \<Rightarrow> bytes" where
  "resize n c xs = take n xs @ replicate (n - length xs) c"

definition write_fraction :: "int \<Rightarrow> int \<Rightarrow> bool \<Rightarrow> bytes" where
  "write_fraction ns digits trim =
     (let frac = resize (nat (max 0 (min digits 9))) 0 (padn ns 9);
          frac' = if trim then trim_zeros frac else frac
      in if trim \<and> frac' = [] then [] else 0x2E # frac')"

definition ts_rfc3339_nano :: "i64 \<Rightarrow> i32 \<Rightarrow> bytes" where
  "ts_rfc3339_nano ns off =
     (let c = to_civil ns off
      in padn (year c) 4 @ [0x2D] @ pad2 (int (month c)) @ [0x2D] @ pad2 (day c) @ [0x54] @ pad2 (hour c)
         @ [0x3A] @ pad2 (minute c) @ [0x3A] @ pad2 (second c) @ write_fraction (nano c) 9 True
         @ write_offset off True True)"

end
