(* ===== verification/Values.thy ===== *)
theory Values
  imports Calendar Ordered_Map
begin

text \<open>
  The value of the mapping language, \<open>value.hh\<close> and \<open>value.cc\<close>: a tagged union whose objects are
  vectors of entries sorted by key (the ordered maps of \<open>Ordered_Map\<close>).  A reference-counted
  payload is the data it holds here: the writers of \<open>value.cc\<close> copy a payload that is shared.  IEEE arithmetic
  and the conversions of the C library are the operations of a record \<open>'f floats\<close>, which every
  definition that touches a double takes.  So is what the machine's \<open>%\<close> does where C++ leaves it
  undefined: nothing is known of \<open>fl_undef_rem\<close>, and code that reaches it has no provable result.
  An exception is the left of a sum.
\<close>

subsection \<open>Floating point\<close>

record 'f floats =
  fl_of_int :: "i64 \<Rightarrow> 'f"
  fl_to_int :: "'f \<Rightarrow> i64"
  fl_narrow :: "'f \<Rightarrow> 'f"
  fl_add :: "'f \<Rightarrow> 'f \<Rightarrow> 'f"
  fl_sub :: "'f \<Rightarrow> 'f \<Rightarrow> 'f"
  fl_mul :: "'f \<Rightarrow> 'f \<Rightarrow> 'f"
  fl_div :: "'f \<Rightarrow> 'f \<Rightarrow> 'f"
  fl_abs :: "'f \<Rightarrow> 'f"
  fl_floor :: "'f \<Rightarrow> 'f"
  fl_less :: "'f \<Rightarrow> 'f \<Rightarrow> bool"
  fl_eq :: "'f \<Rightarrow> 'f \<Rightarrow> bool"
  fl_finite :: "'f \<Rightarrow> bool"
  fl_signbit :: "'f \<Rightarrow> bool"
  fl_strtod :: "bytes \<Rightarrow> 'f \<times> nat"
  fl_strtof :: "bytes \<Rightarrow> 'f"
  fl_sci :: "nat \<Rightarrow> 'f \<Rightarrow> bytes"
  fl_fixed :: "'f \<Rightarrow> bytes"
  fl_undef_rem :: "i64 \<Rightarrow> i64 \<Rightarrow> i64"

definition fl_zero :: "'f floats \<Rightarrow> 'f" where
  "fl_zero F = fl_of_int F 0"

text \<open>\<open>strtoll\<close> in base ten: blanks, a sign, digits; the result saturates.\<close>

definition is_digit :: "byte \<Rightarrow> bool" where
  "is_digit c \<longleftrightarrow> 0x30 \<le> c \<and> c \<le> 0x39"

definition digits_value :: "bytes \<Rightarrow> int" where
  "digits_value ds = foldl (\<lambda>v c. v * 10 + (uint c - 0x30)) 0 ds"

definition signed_digits :: "bytes \<Rightarrow> int" where
  "signed_digits s =
     (let t = dropWhile isspace s;
          neg = (t \<noteq> [] \<and> hd t = 0x2D);
          u = (if t \<noteq> [] \<and> (hd t = 0x2D \<or> hd t = 0x2B) then List.tl t else t);
          v = digits_value (takeWhile is_digit u)
      in if neg then - v else v)"

definition strtoll :: "bytes \<Rightarrow> i64" where
  "strtoll s = word_of_int (max (- (2 ^ 63)) (min (2 ^ 63 - 1) (signed_digits s)))"

subsection \<open>The value\<close>

datatype 'f val =
    Null
  | Boolean bool
  | I64 i64
  | F64 'f
  | F32 'f
  | Timestamp i64 i32
  | Raw_number bytes
  | Str bytes
  | Bytes bytes
  | Array "'f val list"
  | Object "(bytes \<times> 'f val) list"
  | Deleted
  | Nothing

fun is_number :: "'f val \<Rightarrow> bool" where
  "is_number (I64 _) = True"
| "is_number (F64 _) = True"
| "is_number (F32 _) = True"
| "is_number (Raw_number _) = True"
| "is_number _ = False"

fun is_float :: "'f val \<Rightarrow> bool" where
  "is_float (F64 _) = True"
| "is_float (F32 _) = True"
| "is_float _ = False"

fun is_stringy :: "'f val \<Rightarrow> bool" where
  "is_stringy (Str _) = True"
| "is_stringy (Bytes _) = True"
| "is_stringy _ = False"

fun is_i64 :: "'f val \<Rightarrow> bool" where
  "is_i64 (I64 _) = True"
| "is_i64 _ = False"

definition literal_omits :: "'f val \<Rightarrow> bool" where
  "literal_omits v = (case v of Nothing \<Rightarrow> True | Deleted \<Rightarrow> True | _ \<Rightarrow> False)"

fun type_name :: "'f val \<Rightarrow> bytes" where
  "type_name Null = str ''null''"
| "type_name (Boolean _) = str ''bool''"
| "type_name (I64 _) = str ''number''"
| "type_name (F64 _) = str ''number''"
| "type_name (F32 _) = str ''number''"
| "type_name (Timestamp _ _) = str ''timestamp''"
| "type_name (Raw_number _) = str ''number''"
| "type_name (Str _) = str ''string''"
| "type_name (Bytes _) = str ''bytes''"
| "type_name (Array _) = str ''array''"
| "type_name (Object _) = str ''object''"
| "type_name Deleted = str ''delete''"
| "type_name Nothing = str ''nothing''"

definition wrong_type :: "bytes \<Rightarrow> 'f val \<Rightarrow> eval_error" where
  "wrong_type want got = Type_error want (type_name got)"

fun as_bool :: "'f val \<Rightarrow> eval_error + bool" where
  "as_bool (Boolean b) = Inr b"
| "as_bool v = Inl (wrong_type (str ''bool'') v)"

fun as_i64 :: "'f floats \<Rightarrow> 'f val \<Rightarrow> eval_error + i64" where
  "as_i64 F (I64 i) = Inr i"
| "as_i64 F (F64 d) = Inr (fl_to_int F d)"
| "as_i64 F (F32 d) = Inr (fl_to_int F d)"
| "as_i64 F (Raw_number s) = Inr (strtoll s)"
| "as_i64 F v = Inl (wrong_type (str ''number'') v)"

fun as_f64 :: "'f floats \<Rightarrow> 'f val \<Rightarrow> eval_error + 'f" where
  "as_f64 F (F64 d) = Inr d"
| "as_f64 F (F32 d) = Inr d"
| "as_f64 F (I64 i) = Inr (fl_of_int F i)"
| "as_f64 F (Raw_number s) = Inr (fst (fl_strtod F s))"
| "as_f64 F v = Inl (wrong_type (str ''number'') v)"

fun as_string :: "'f val \<Rightarrow> eval_error + bytes" where
  "as_string (Str s) = Inr s"
| "as_string (Bytes s) = Inr s"
| "as_string v = Inl (wrong_type (str ''string'') v)"

fun as_array :: "'f val \<Rightarrow> eval_error + 'f val list" where
  "as_array (Array vs) = Inr vs"
| "as_array v = Inl (wrong_type (str ''array'') v)"

fun as_object :: "'f val \<Rightarrow> eval_error + (bytes, 'f val) omap" where
  "as_object (Object e) = Inr e"
| "as_object v = Inl (wrong_type (str ''object'') v)"

text \<open>The fields of an object.\<close>

fun find_field :: "bytes \<Rightarrow> 'f val \<Rightarrow> 'f val option" where
  "find_field key (Object e) = om_find e key"
| "find_field key _ = None"

definition get_field :: "bytes \<Rightarrow> 'f val \<Rightarrow> eval_error + 'f val" where
  "get_field key v =
     (case v of
        Object e \<Rightarrow> (case find_field key v of None \<Rightarrow> Inl (Eval_error (str ''field not found: '' @ key)) | Some x \<Rightarrow> Inr x)
      | _ \<Rightarrow> Inl (wrong_type (str ''object'') v))"

fun entries_of :: "'f val \<Rightarrow> (bytes, 'f val) omap" where
  "entries_of (Object e) = e"
| "entries_of _ = []"

definition set_field :: "bytes \<Rightarrow> 'f val \<Rightarrow> 'f val \<Rightarrow> 'f val" where
  "set_field key x v =
     (let e = entries_of v
      in Object (case x of Deleted \<Rightarrow> om_remove key e | _ \<Rightarrow> om_set key x e))"

fun remove_field :: "bytes \<Rightarrow> 'f val \<Rightarrow> 'f val" where
  "remove_field key (Object e) = Object (om_remove key e)"
| "remove_field key v = v"

subsection \<open>Equality\<close>

fun num_of :: "'f floats \<Rightarrow> 'f val \<Rightarrow> 'f" where
  "num_of F (I64 i) = fl_of_int F i"
| "num_of F (Raw_number s) = fst (fl_strtod F s)"
| "num_of F (F64 d) = d"
| "num_of F (F32 d) = d"
| "num_of F _ = fl_zero F"

fun text_of :: "'f val \<Rightarrow> bytes" where
  "text_of (Str s) = s"
| "text_of (Bytes s) = s"
| "text_of _ = []"

fun value_eq :: "'f floats \<Rightarrow> 'f val \<Rightarrow> 'f val \<Rightarrow> bool"
and values_eq :: "'f floats \<Rightarrow> 'f val list \<Rightarrow> 'f val list \<Rightarrow> bool"
and entries_eq :: "'f floats \<Rightarrow> (bytes \<times> 'f val) list \<Rightarrow> (bytes \<times> 'f val) list \<Rightarrow> bool" where
  "value_eq F Null w = (w = Null)"
| "value_eq F Deleted w = (w = Deleted)"
| "value_eq F Nothing w = (w = Nothing)"
| "value_eq F (Boolean a) w = (case w of Boolean b \<Rightarrow> a = b | _ \<Rightarrow> False)"
| "value_eq F (I64 a) w = (case w of I64 b \<Rightarrow> a = b | _ \<Rightarrow> is_number w \<and> fl_eq F (fl_of_int F a) (num_of F w))"
| "value_eq F (F64 a) w = (is_number w \<and> fl_eq F a (num_of F w))"
| "value_eq F (F32 a) w = (is_number w \<and> fl_eq F a (num_of F w))"
| "value_eq F (Raw_number a) w = (is_number w \<and> fl_eq F (fst (fl_strtod F a)) (num_of F w))"
| "value_eq F (Str a) w = (is_stringy w \<and> a = text_of w)"
| "value_eq F (Bytes a) w = (is_stringy w \<and> a = text_of w)"
| "value_eq F (Timestamp a z) w = (case w of Timestamp b y \<Rightarrow> a = b | _ \<Rightarrow> False)"
| "value_eq F (Array a) w = (case w of Array b \<Rightarrow> length a = length b \<and> values_eq F a b | _ \<Rightarrow> False)"
| "value_eq F (Object a) w = (case w of Object b \<Rightarrow> length a = length b \<and> entries_eq F a b | _ \<Rightarrow> False)"
| "values_eq F (x # xs) (y # ys) = (value_eq F x y \<and> values_eq F xs ys)"
| "values_eq F [] ys = True"
| "values_eq F (x # xs) [] = True"
| "entries_eq F ((k, x) # xs) ((j, y) # ys) = (k = j \<and> value_eq F x y \<and> entries_eq F xs ys)"
| "entries_eq F [] ys = True"
| "entries_eq F ((k, x) # xs) [] = True"

subsection \<open>Numbers as text\<close>

text \<open>
  The shortest digits that read back as the same number: one more significant digit is tried
  until the text \<open>snprintf\<close> makes reads back, and the last try stands.
\<close>

record shortest_decimal =
  sd_digits :: bytes
  sd_exp10 :: int
  sd_negative :: bool

fun try_digits :: "(nat \<Rightarrow> bytes) \<Rightarrow> (bytes \<Rightarrow> bool) \<Rightarrow> nat \<Rightarrow> nat \<Rightarrow> bytes" where
  "try_digits sci ok p 0 = []"
| "try_digits sci ok p (Suc n) =
     (let buf = sci (p - 1) in if ok buf \<or> n = 0 then buf else try_digits sci ok (p + 1) n)"

definition exp_mark :: "byte \<Rightarrow> bool" where
  "exp_mark c \<longleftrightarrow> c = 0x65 \<or> c = 0x45"

definition read_decimal :: "bool \<Rightarrow> bytes \<Rightarrow> shortest_decimal" where
  "read_decimal neg buf =
     (let c = (if buf \<noteq> [] \<and> (hd buf = 0x2D \<or> hd buf = 0x2B) then List.tl buf else buf);
          mantissa = takeWhile (\<lambda>x. \<not> exp_mark x) c;
          rest = dropWhile (\<lambda>x. \<not> exp_mark x) c
      in \<lparr>sd_digits = take 31 (filter (\<lambda>x. x \<noteq> 0x2E) mantissa),
          sd_exp10 = (if rest = [] then 0 else signed_digits (List.tl rest)), sd_negative = neg\<rparr>)"

definition shortest_of :: "'f floats \<Rightarrow> (bytes \<Rightarrow> 'f) \<Rightarrow> 'f \<Rightarrow> nat \<Rightarrow> shortest_decimal" where
  "shortest_of F rd v max_digits =
     read_decimal (fl_signbit F v) (try_digits (\<lambda>p. fl_sci F p v) (\<lambda>buf. fl_eq F (rd buf) v) 1 max_digits)"

definition append_positional :: "shortest_decimal \<Rightarrow> bytes" where
  "append_positional d =
     (let ds = sd_digits d; n = length ds
      in (if sd_negative d then [0x2D] else []) @
         (if sd_exp10 d \<ge> 0 then
            let int_digits = nat (sd_exp10 d + 1)
            in if n \<le> int_digits then ds @ replicate (int_digits - n) 0x30
               else take int_digits ds @ [0x2E] @ drop int_digits ds
          else str ''0.'' @ replicate (nat (- sd_exp10 d - 1)) 0x30 @ ds))"

definition append_exponential :: "shortest_decimal \<Rightarrow> bool \<Rightarrow> bytes" where
  "append_exponential d strip_exp_zero =
     (let ds = sd_digits d; e = abs (sd_exp10 d)
      in (if sd_negative d then [0x2D] else []) @ take 1 ds @
         (if length ds > 1 then 0x2E # drop 1 ds else []) @
         [0x65, if sd_exp10 d < 0 then 0x2D else 0x2B] @
         (if strip_exp_zero \<and> sd_exp10 d < 0 \<and> e < 10 then decimal_int e else pad2 e))"

definition write_float :: "'f floats \<Rightarrow> (bytes \<Rightarrow> 'f) \<Rightarrow> 'f \<Rightarrow> nat \<Rightarrow> 'f \<Rightarrow> 'f \<Rightarrow> bytes" where
  "write_float F rd v max_digits lo hi =
     (if \<not> fl_finite F v then str ''null''
      else let d = shortest_of F rd v max_digits; a = fl_abs F v
           in if \<not> fl_eq F a (fl_zero F) \<and> (fl_less F a lo \<or> \<not> fl_less F a hi)
              then append_exponential d True else append_positional d)"

definition rd64 :: "'f floats \<Rightarrow> bytes \<Rightarrow> 'f" where
  "rd64 F s = fst (fl_strtod F s)"

definition write_f64 :: "'f floats \<Rightarrow> 'f \<Rightarrow> bytes" where
  "write_f64 F d = write_float F (rd64 F) d 17 (rd64 F (str ''1e-6'')) (rd64 F (str ''1e21''))"

definition write_f32 :: "'f floats \<Rightarrow> 'f \<Rightarrow> bytes" where
  "write_f32 F f = write_float F (fl_strtof F) f 9 (fl_strtof F (str ''1e-6'')) (fl_strtof F (str ''1e21''))"

definition append_float_g :: "'f floats \<Rightarrow> 'f \<Rightarrow> nat \<Rightarrow> bytes" where
  "append_float_g F v bits =
     (if \<not> fl_finite F v then str ''null''
      else let d = (if bits = 32 then shortest_of F (fl_strtof F) (fl_narrow F v) 9 else shortest_of F (rd64 F) v 17)
           in if \<not> fl_eq F v (fl_zero F) \<and> (sd_exp10 d < - 4 \<or> sd_exp10 d \<ge> 6)
              then append_exponential d False else append_positional d)"

subsection \<open>JSON\<close>

definition json_char :: "byte \<Rightarrow> bytes" where
  "json_char c =
     (if c = 0x22 then [0x5C, 0x22] else if c = 0x5C then [0x5C, 0x5C] else if c = 0x0A then [0x5C, 0x6E]
      else if c = 0x0D then [0x5C, 0x72] else if c = 0x09 then [0x5C, 0x74]
      else if c < 0x20 then [0x5C] @ str ''u00'' @ hex_encode [c] else [c])"

definition write_json_string :: "bytes \<Rightarrow> bytes" where
  "write_json_string s = [0x22] @ concat (map json_char s) @ [0x22]"

definition joined :: "bytes \<Rightarrow> bytes list \<Rightarrow> bytes" where
  "joined sep ts = (case ts of [] \<Rightarrow> [] | t # ts \<Rightarrow> t @ concat (map (\<lambda>t. sep @ t) ts))"

definition b64_encode_std :: "bytes \<Rightarrow> bytes" where
  "b64_encode_std s = b64_encode B64_STD True s"

fun to_json :: "'f floats \<Rightarrow> 'f val \<Rightarrow> bytes" where
  "to_json F Null = str ''null''"
| "to_json F Deleted = str ''null''"
| "to_json F Nothing = str ''null''"
| "to_json F (Boolean b) = (if b then str ''true'' else str ''false'')"
| "to_json F (I64 i) = decimal_int (sint i)"
| "to_json F (F64 d) = write_f64 F d"
| "to_json F (F32 d) = write_f32 F (fl_narrow F d)"
| "to_json F (Timestamp ns off) = write_json_string (ts_rfc3339_nano ns off)"
| "to_json F (Raw_number s) = s"
| "to_json F (Str s) = write_json_string s"
| "to_json F (Bytes s) = write_json_string (b64_encode_std s)"
| "to_json F (Array vs) = [0x5B] @ joined [0x2C] (map (to_json F) vs) @ [0x5D]"
| "to_json F (Object e) = [0x7B] @ joined [0x2C] (map (\<lambda>(k, v). write_json_string k @ [0x3A] @ to_json F v) e) @ [0x7D]"

text \<open>The indented form: \<open>nl\<close> breaks the line when there is an indent.\<close>

definition html_escape :: "bytes \<Rightarrow> bytes" where
  "html_escape raw = concat (map (\<lambda>c. if c = 0x3C then 0x5C # str ''u003c'' else if c = 0x3E then 0x5C # str ''u003e''
     else if c = 0x26 then 0x5C # str ''u0026'' else [c]) raw)"

definition json_nl :: "bytes \<Rightarrow> nat \<Rightarrow> bytes" where
  "json_nl indent d = (if indent = [] then [] else 0x0A # concat (replicate d indent))"

definition scalar_or_escape :: "'f floats \<Rightarrow> bool \<Rightarrow> 'f val \<Rightarrow> bytes" where
  "scalar_or_escape F escape_html v =
     (case v of Str s \<Rightarrow> if escape_html then html_escape (to_json F v) else to_json F v | _ \<Rightarrow> to_json F v)"

fun write_pretty :: "'f floats \<Rightarrow> bytes \<Rightarrow> bool \<Rightarrow> nat \<Rightarrow> 'f val \<Rightarrow> bytes" where
  "write_pretty F indent esc depth (Array vs) =
     (if vs = [] then str ''[]''
      else [0x5B] @ joined [0x2C] (map (\<lambda>v. json_nl indent (depth + 1) @ write_pretty F indent esc (depth + 1) v) vs)
           @ json_nl indent depth @ [0x5D])"
| "write_pretty F indent esc depth (Object e) =
     (if e = [] then str ''{}''
      else [0x7B] @ joined [0x2C] (map (\<lambda>(k, v). json_nl indent (depth + 1) @ scalar_or_escape F esc (Str k)
             @ [0x3A] @ (if indent = [] then [] else [0x20]) @ write_pretty F indent esc (depth + 1) v) e)
           @ json_nl indent depth @ [0x7D])"
| "write_pretty F indent esc depth v = scalar_or_escape F esc v"

definition to_json_pretty :: "'f floats \<Rightarrow> bytes \<Rightarrow> bool \<Rightarrow> 'f val \<Rightarrow> bytes" where
  "to_json_pretty F indent escape_html v = write_pretty F indent escape_html 0 v"

definition to_display_string :: "'f floats \<Rightarrow> 'f val \<Rightarrow> bytes" where
  "to_display_string F v =
     (case v of Str s \<Rightarrow> s | Bytes s \<Rightarrow> s | Timestamp ns off \<Rightarrow> ts_rfc3339_nano ns off | Raw_number s \<Rightarrow> s
      | _ \<Rightarrow> to_json F v)"

subsection \<open>Arithmetic\<close>

definition degrade ::
  "'f floats \<Rightarrow> bytes \<Rightarrow> (i64 \<Rightarrow> i64 \<Rightarrow> i64) \<Rightarrow> ('f \<Rightarrow> 'f \<Rightarrow> 'f) \<Rightarrow> 'f val \<Rightarrow> 'f val \<Rightarrow> eval_error + 'f val" where
  "degrade F name iop fop l r =
     (case (l, r) of
        (I64 a, I64 b) \<Rightarrow> Inr (I64 (iop a b))
      | _ \<Rightarrow>
          if \<not> is_number l \<or> \<not> is_number r
          then Inl (Eval_error (str ''cannot '' @ name @ str '' '' @ type_name l @ str '' and '' @ type_name r))
          else rbind (as_f64 F l) (\<lambda>a. rbind (as_f64 F r) (\<lambda>b. Inr (F64 (fop a b)))))"

definition numeric_add :: "'f floats \<Rightarrow> 'f val \<Rightarrow> 'f val \<Rightarrow> eval_error + 'f val" where
  "numeric_add F = degrade F (str ''numeric_add'') (+) (fl_add F)"

definition num_sub :: "'f floats \<Rightarrow> 'f val \<Rightarrow> 'f val \<Rightarrow> eval_error + 'f val" where
  "num_sub F = degrade F (str ''sub'') (-) (fl_sub F)"

definition num_mul :: "'f floats \<Rightarrow> 'f val \<Rightarrow> 'f val \<Rightarrow> eval_error + 'f val" where
  "num_mul F = degrade F (str ''mul'') (*) (fl_mul F)"

definition num_add :: "'f floats \<Rightarrow> 'f val \<Rightarrow> 'f val \<Rightarrow> eval_error + 'f val" where
  "num_add F l r =
     (if is_number l then numeric_add F l r
      else if is_stringy l then
        if \<not> is_stringy r then Inl (Eval_error (str ''cannot add string and '' @ type_name r))
        else rbind (as_string l) (\<lambda>a. rbind (as_string r) (\<lambda>b. Inr (Str (a @ b))))
      else Inl (Eval_error (str ''cannot add '' @ type_name l @ str '' and '' @ type_name r)))"

definition num_div :: "'f floats \<Rightarrow> 'f val \<Rightarrow> 'f val \<Rightarrow> eval_error + 'f val" where
  "num_div F l r =
     (if \<not> is_number l \<or> \<not> is_number r
      then Inl (Eval_error (str ''cannot divide '' @ type_name l @ str '' and '' @ type_name r))
      else rbind (as_f64 F r) (\<lambda>d.
        if fl_eq F d (fl_zero F) then Inl (Eval_error (str ''attempted to divide by zero''))
        else rbind (as_f64 F l) (\<lambda>a. Inr (F64 (fl_div F a d)))))"

definition fast_div :: "'f floats \<Rightarrow> 'f \<Rightarrow> 'f \<Rightarrow> eval_error + 'f" where
  "fast_div F a b = (if fl_eq F b (fl_zero F) then Inl (Eval_error (str ''attempted to divide by zero'')) else Inr (fl_div F a b))"

text \<open>
  \<open>a % b\<close> of two \<open>int64_t\<close>: the remainder of the truncated quotient, defined when the divisor is not
  zero and the quotient is representable; the instruction traps otherwise.
\<close>

definition INT64_MIN :: i64 where "INT64_MIN = push_bit 63 1"

definition machine_rem :: "'f floats \<Rightarrow> i64 \<Rightarrow> i64 \<Rightarrow> i64" where
  "machine_rem F a b =
     (if b = 0 \<or> a = INT64_MIN \<and> b = - 1 then fl_undef_rem F a b
      else word_of_int (sint a smod sint b))"

definition fast_mod :: "'f floats \<Rightarrow> i64 \<Rightarrow> i64 \<Rightarrow> eval_error + i64" where
  "fast_mod F a b =
     (if b = 0 then Inl (Eval_error (str ''attempted to modulo by zero''))
      else if b = - 1 then Inr 0
      else Inr (machine_rem F a b))"

definition num_mod :: "'f floats \<Rightarrow> 'f val \<Rightarrow> 'f val \<Rightarrow> eval_error + 'f val" where
  "num_mod F l r =
     (if \<not> is_number l \<or> \<not> is_number r
      then Inl (Eval_error (str ''cannot modulo '' @ type_name l @ str '' and '' @ type_name r))
      else rbind (as_i64 F l) (\<lambda>a. rbind (as_i64 F r) (\<lambda>b. rbind (fast_mod F a b) (\<lambda>c. Inr (I64 c)))))"

subsection \<open>Comparison and logic\<close>

fun truthy :: "'f val \<Rightarrow> eval_error + bool" where
  "truthy (Boolean b) = Inr b"
| "truthy v = Inl (Type_error (str ''bool'') (type_name v))"

definition value_compare :: "'f floats \<Rightarrow> 'f val \<Rightarrow> 'f val \<Rightarrow> eval_error + int" where
  "value_compare F l r =
     (if is_number l \<and> is_number r then
        rbind (as_f64 F l) (\<lambda>a. rbind (as_f64 F r) (\<lambda>b.
          Inr (if fl_less F a b then - 1 else if fl_less F b a then 1 else 0)))
      else if is_stringy l \<and> is_stringy r then
        rbind (as_string l) (\<lambda>a. rbind (as_string r) (\<lambda>b.
          Inr (if a < b then - 1 else if b < a then 1 else 0)))
      else Inl (Eval_error (str ''cannot compare '' @ type_name l @ str '' and '' @ type_name r)))"

definition cmp_eq :: "'f floats \<Rightarrow> 'f val \<Rightarrow> 'f val \<Rightarrow> 'f val" where
  "cmp_eq F l r = Boolean (value_eq F l r)"

definition cmp_neq :: "'f floats \<Rightarrow> 'f val \<Rightarrow> 'f val \<Rightarrow> 'f val" where
  "cmp_neq F l r = Boolean (\<not> value_eq F l r)"

definition cmp_with :: "(int \<Rightarrow> bool) \<Rightarrow> 'f floats \<Rightarrow> 'f val \<Rightarrow> 'f val \<Rightarrow> eval_error + 'f val" where
  "cmp_with p F l r = rbind (value_compare F l r) (\<lambda>c. Inr (Boolean (p c)))"

definition cmp_lt :: "'f floats \<Rightarrow> 'f val \<Rightarrow> 'f val \<Rightarrow> eval_error + 'f val" where
  "cmp_lt = cmp_with (\<lambda>c. c < 0)"

definition cmp_lte :: "'f floats \<Rightarrow> 'f val \<Rightarrow> 'f val \<Rightarrow> eval_error + 'f val" where
  "cmp_lte = cmp_with (\<lambda>c. c \<le> 0)"

definition cmp_gt :: "'f floats \<Rightarrow> 'f val \<Rightarrow> 'f val \<Rightarrow> eval_error + 'f val" where
  "cmp_gt = cmp_with (\<lambda>c. c > 0)"

definition cmp_gte :: "'f floats \<Rightarrow> 'f val \<Rightarrow> 'f val \<Rightarrow> eval_error + 'f val" where
  "cmp_gte = cmp_with (\<lambda>c. c \<ge> 0)"

definition coalesce :: "'f val \<Rightarrow> 'f val \<Rightarrow> 'f val" where
  "coalesce l r = (case l of Null \<Rightarrow> r | Nothing \<Rightarrow> r | _ \<Rightarrow> l)"

end
