(* ===== verification/Values_Laws.thy ===== *)
theory Values_Laws
  imports Values
begin

text \<open>
  What the operations of \<open>value.cc\<close> guarantee: objects stay sorted and without deleted members,
  so that they are finite maps with one text; which operand types each operator accepts and the
  type it yields; and how equality and order relate.
\<close>

subsection \<open>Well-formed values\<close>

fun wf_value :: "'f val \<Rightarrow> bool" where
  "wf_value (Array vs) \<longleftrightarrow> list_all wf_value vs"
| "wf_value (Object e) \<longleftrightarrow> om_sorted e \<and> list_all (\<lambda>(k, v). v \<noteq> Deleted \<and> wf_value v) e"
| "wf_value _ \<longleftrightarrow> True"

lemma wf_entries: "wf_value v \<Longrightarrow> om_sorted (entries_of v) \<and> list_all (\<lambda>(k, v). v \<noteq> Deleted \<and> wf_value v) (entries_of v)"
  by (cases v) auto

lemma set_om_set: "set (om_set k v e) \<subseteq> insert (k, v) (set e)"
  by (induction e) (auto split: if_splits)

lemma set_om_remove: "set (om_remove k e) \<subseteq> set e"
  by (induction e) (auto split: if_splits)

lemma set_field_eq:
  "set_field k x v = Object (if x = Deleted then om_remove k (entries_of v) else om_set k x (entries_of v))"
  by (cases x) (simp_all add: set_field_def Let_def)

lemma wf_set_field: "wf_value v \<Longrightarrow> wf_value x \<Longrightarrow> wf_value (set_field k x v)"
proof -
  assume v: "wf_value v" and x: "wf_value x"
  note e = wf_entries [OF v]
  have s: "list_all P (om_set k x (entries_of v))" if "list_all P (entries_of v)" "P (k, x)" for P
    using that set_om_set [of k x "entries_of v"] by (auto simp: list_all_iff)
  have r: "list_all P (om_remove k (entries_of v))" if "list_all P (entries_of v)" for P
    using that set_om_remove [of k "entries_of v"] by (auto simp: list_all_iff)
  show ?thesis
    using e x by (simp add: set_field_eq om_sorted_set om_sorted_remove s r)
qed

lemma wf_remove_field: "wf_value v \<Longrightarrow> wf_value (remove_field k v)"
proof (cases v)
  case (Object e)
  assume "wf_value v"
  moreover have "list_all P (om_remove k e)" if "list_all P e" for P
    using that set_om_remove [of k e] by (auto simp: list_all_iff)
  ultimately show ?thesis using Object by (auto simp: om_sorted_remove)
qed simp_all

lemma find_field_entries: "find_field k v = om_find (entries_of v) k"
  by (cases v) simp_all

lemma entries_set_field: "entries_of (set_field k x v) = (if x = Deleted then om_remove k (entries_of v) else om_set k x (entries_of v))"
  by (cases x) (simp_all add: set_field_def Let_def)

lemma find_set_field:
  "wf_value v \<Longrightarrow> find_field j (set_field k x v) = (if j = k then if x = Deleted then None else Some x else find_field j v)"
  using wf_entries [of v] by (simp add: find_field_entries entries_set_field om_find_set om_find_remove)

lemma find_remove_field: "wf_value v \<Longrightarrow> find_field j (remove_field k v) = (if j = k then None else find_field j v)"
  by (cases v) (simp_all add: om_find_remove)

text \<open>An object is determined by its fields, so assignments that leave the same fields leave the same value.\<close>

definition is_object :: "'f val \<Rightarrow> bool" where
  "is_object v \<longleftrightarrow> (\<exists>e. v = Object e)"

lemma object_ext:
  "wf_value v \<Longrightarrow> wf_value w \<Longrightarrow> is_object v \<Longrightarrow> is_object w \<Longrightarrow> (\<And>k. find_field k v = find_field k w) \<Longrightarrow> v = w"
  by (auto simp: is_object_def intro!: om_ext)

definition assign :: "(bytes \<times> 'f val) list \<Rightarrow> 'f val \<Rightarrow> 'f val" where
  "assign ps v = fold (\<lambda>(k, x). set_field k x) ps v"

lemma assign_Cons [simp]: "assign ((k, x) # ps) v = assign ps (set_field k x v)"
  by (simp add: assign_def)

lemma assign_Nil [simp]: "assign [] v = v"
  by (simp add: assign_def)

lemma is_object_set_field [simp]: "is_object (set_field k x v)"
  by (cases x) (auto simp: set_field_def Let_def is_object_def)

lemma assign_object: "is_object v \<Longrightarrow> is_object (assign ps v)"
  by (induction ps arbitrary: v) auto

lemma assign_wf: "wf_value v \<Longrightarrow> \<forall>(k, x) \<in> set ps. wf_value x \<Longrightarrow> wf_value (assign ps v)"
  by (induction ps arbitrary: v) (auto simp: wf_set_field)

text \<open>What a sequence of assignments leaves in a field.\<close>

fun last_write :: "(bytes \<times> 'f val) list \<Rightarrow> bytes \<Rightarrow> 'f val option \<Rightarrow> 'f val option" where
  "last_write [] j r = r"
| "last_write ((k, x) # ps) j r = last_write ps j (if j = k then if x = Deleted then None else Some x else r)"

lemma find_assign:
  "wf_value v \<Longrightarrow> \<forall>(k, x) \<in> set ps. wf_value x \<Longrightarrow> find_field j (assign ps v) = last_write ps j (find_field j v)"
  by (induction ps arbitrary: v) (auto simp: wf_set_field find_set_field)

text \<open>C26: Assigning to fields is updating a finite map: whatever the order and the repetitions of
  a sequence of assignments, \<open>deleted()\<close> among them, the object holds under every key the last
  value assigned to it and nothing under a key last deleted; it stays sorted at every depth; and
  two sequences that agree on every key produce the same object, so the same JSON text.\<close>

theorem assignments_refine_a_map:
  assumes "wf_value v" "is_object v" "\<forall>(k, x) \<in> set ps. wf_value x" "\<forall>(k, x) \<in> set qs. wf_value x"
  shows "wf_value (assign ps v) \<and> (\<forall>j. find_field j (assign ps v) = last_write ps j (find_field j v)) \<and>
    ((\<forall>j. last_write ps j (find_field j v) = last_write qs j (find_field j v)) \<longrightarrow>
       to_json F (assign ps v) = to_json F (assign qs v))"
proof (intro conjI impI allI)
  show "wf_value (assign ps v)" using assms by (simp add: assign_wf)
  show "find_field j (assign ps v) = last_write ps j (find_field j v)" for j
    using assms by (simp add: find_assign)
  assume "\<forall>j. last_write ps j (find_field j v) = last_write qs j (find_field j v)"
  then have "assign ps v = assign qs v"
    using assms by (intro object_ext) (simp_all add: assign_wf assign_object find_assign)
  then show "to_json F (assign ps v) = to_json F (assign qs v)" by simp
qed

definition some_floats :: "int floats" where
  "some_floats = \<lparr>fl_of_int = sint, fl_to_int = word_of_int, fl_narrow = id, fl_add = (+), fl_sub = (-),
     fl_mul = (*), fl_div = (div), fl_abs = abs, fl_floor = id, fl_less = (<), fl_eq = (=), fl_finite = (\<lambda>_. True),
     fl_signbit = (\<lambda>x. x < 0), fl_strtod = (\<lambda>s. (signed_digits s, length s)), fl_strtof = signed_digits,
     fl_sci = (\<lambda>p x. decimal_int x @ str ''e+00''), fl_fixed = decimal_int,
     fl_undef_rem = (\<lambda>_ _. 42)\<rparr>"

lemma assignments_refine_a_map_witness:
  "to_json some_floats (assign [(str ''b'', I64 2), (str ''a'', I64 9), (str ''c'', Null), (str ''c'', Deleted), (str ''a'', I64 1)] (Object []))
     = str ''{\"a\":1,\"b\":2}''"
proof -
  let ?ps = "[(str ''b'', I64 2), (str ''a'', I64 9), (str ''c'', Null), (str ''c'', Deleted), (str ''a'', I64 1)] :: (bytes \<times> int val) list"
  let ?qs = "[(str ''a'', I64 1), (str ''b'', I64 2)] :: (bytes \<times> int val) list"
  have "\<forall>j. last_write ?ps j (find_field j (Object [])) = last_write ?qs j (find_field j (Object []))"
    by (simp add: str_def)
  moreover have "to_json some_floats (assign ?qs (Object [])) = str ''{\"a\":1,\"b\":2}''"
    by code_simp
  ultimately show ?thesis
    using assignments_refine_a_map [of "Object []" ?ps ?qs some_floats] by (simp add: is_object_def)
qed

subsection \<open>Operand and result types\<close>

definition numeric_result :: "'f val \<Rightarrow> 'f val \<Rightarrow> 'f val \<Rightarrow> bool" where
  "numeric_result l r v \<longleftrightarrow> (if is_i64 l \<and> is_i64 r then is_i64 v else \<exists>d. v = F64 d)"

lemma as_f64_number: "is_number v \<Longrightarrow> \<exists>d. as_f64 F v = Inr d"
  by (cases v) auto

lemma as_i64_number: "is_number v \<Longrightarrow> \<exists>i. as_i64 F v = Inr i"
  by (cases v) auto

lemma degrade_types:
  "case degrade F name iop fop l r of
     Inl e \<Rightarrow> \<not> (is_number l \<and> is_number r) \<and> e = Eval_error (str ''cannot '' @ name @ str '' '' @ type_name l @ str '' and '' @ type_name r)
   | Inr v \<Rightarrow> is_number l \<and> is_number r \<and> numeric_result l r v"
  by (cases l; cases r) (simp_all add: degrade_def numeric_result_def)

lemma add_types:
  "case num_add F l r of
     Inl e \<Rightarrow> \<not> (is_number l \<and> is_number r) \<and> \<not> (is_stringy l \<and> is_stringy r)
   | Inr v \<Rightarrow> (if is_number l then is_number r \<and> numeric_result l r v
              else is_stringy l \<and> is_stringy r \<and> v = Str (text_of l @ text_of r))"
  by (cases l; cases r) (simp_all add: num_add_def numeric_add_def degrade_def numeric_result_def)

lemma div_types:
  "case num_div F l r of
     Inl e \<Rightarrow> \<not> (is_number l \<and> is_number r) \<or> fl_eq F (num_of F r) (fl_zero F)
   | Inr v \<Rightarrow> is_number l \<and> is_number r \<and> \<not> fl_eq F (num_of F r) (fl_zero F)
              \<and> v = F64 (fl_div F (num_of F l) (num_of F r))"
  by (cases l; cases r) (simp_all add: num_div_def)

definition int_of :: "'f floats \<Rightarrow> 'f val \<Rightarrow> i64" where
  "int_of F v = (case as_i64 F v of Inr i \<Rightarrow> i | Inl e \<Rightarrow> 0)"

lemma smod_small: "b \<noteq> 0 \<Longrightarrow> b \<noteq> - 1 \<Longrightarrow> fits64 (a smod b)" if "fits64 b" for a b :: int
proof -
  assume b: "b \<noteq> 0" "b \<noteq> - 1"
  have "\<bar>a smod b\<bar> < \<bar>b\<bar>"
    using b(1) by (simp add: signed_modulo_int_def abs_mult sgn_mult abs_mod_less sgn_if)
  then show ?thesis using that by (auto simp: fits64_def)
qed

text \<open>The remainder is the one of the truncated quotient for every divisor but zero, \<open>- 1\<close> included.\<close>

lemma fast_mod_exact: "b \<noteq> 0 \<Longrightarrow> \<exists>r. fast_mod F a b = Inr r \<and> sint r = sint a smod sint b"
proof -
  assume b: "b \<noteq> 0"
  then have b0: "sint b \<noteq> 0" by (simp add: signed_eq_0_iff)
  show ?thesis
  proof (cases "b = - 1")
    case True
    then have "sint b = - 1" by simp
    then show ?thesis using True by (simp add: fast_mod_def signed_modulo_int_def)
  next
    case False
    then have "sint b \<noteq> - 1" by (metis of_int_sint scast_id id_apply of_int_minus of_int_1)
    then have "fits64 (sint a smod sint b)" using smod_small [OF _ b0] by simp
    then show ?thesis using b False by (simp add: fast_mod_def machine_rem_def sint_64)
  qed
qed

lemma mod_types:
  "case num_mod F l r of
     Inl e \<Rightarrow> \<not> (is_number l \<and> is_number r) \<or> int_of F r = 0
   | Inr v \<Rightarrow> is_number l \<and> is_number r \<and> int_of F r \<noteq> 0
              \<and> (\<exists>i. v = I64 i \<and> sint i = sint (int_of F l) smod sint (int_of F r))"
proof (cases "is_number l \<and> is_number r")
  case False
  then show ?thesis by (auto simp: num_mod_def)
next
  case True
  then obtain a b where ab: "as_i64 F l = Inr a" "as_i64 F r = Inr b"
    using as_i64_number by metis
  show ?thesis
  proof (cases "b = 0")
    case False
    then show ?thesis using True ab fast_mod_exact [OF False, of F a]
      by (auto simp: num_mod_def int_of_def)
  qed (use True ab in \<open>simp add: num_mod_def int_of_def fast_mod_def\<close>)
qed

definition comparable :: "'f val \<Rightarrow> 'f val \<Rightarrow> bool" where
  "comparable l r \<longleftrightarrow> is_number l \<and> is_number r \<or> is_stringy l \<and> is_stringy r"

lemma compare_types: "(\<exists>c. value_compare F l r = Inr c) \<longleftrightarrow> comparable l r"
  by (cases l; cases r) (simp_all add: value_compare_def comparable_def)

lemma cmp_types:
  "(case cmp_with p F l r of Inl e \<Rightarrow> \<not> comparable l r | Inr v \<Rightarrow> comparable l r \<and> (\<exists>b. v = Boolean b))"
  using compare_types [of F l r] by (cases "value_compare F l r") (auto simp: cmp_with_def)

text \<open>C27: The operators of the mapping language are typed.  Addition accepts two numbers or two
  strings (or bytes) and nothing else: a string and a timestamp are refused, although the comment
  above \<open>add\<close> in \<open>value.cc\<close> has a timestamp accepted as its text
  (\<open>add_refuses_a_timestamp\<close>).  Subtraction and multiplication accept two numbers; two integers give an
  integer and any other pair of numbers a double; division gives a double unless the divisor
  is zero; the remainder is the truncated one for every dividend and every divisor but zero,
  whatever the machine does where its own remainder is undefined, so the overflowing quotient of
  the least integer and \<open>- 1\<close> is never computed; an ordering compares two numbers or two strings and
  gives a boolean; and every other combination is an error.\<close>

theorem operators_are_typed:
  "(case num_add F l r of
      Inl e \<Rightarrow> \<not> (is_number l \<and> is_number r) \<and> \<not> (is_stringy l \<and> is_stringy r)
    | Inr v \<Rightarrow> (if is_number l then is_number r \<and> numeric_result l r v
               else is_stringy l \<and> is_stringy r \<and> v = Str (text_of l @ text_of r))) \<and>
   (case num_sub F l r of
      Inl e \<Rightarrow> \<not> (is_number l \<and> is_number r) | Inr v \<Rightarrow> is_number l \<and> is_number r \<and> numeric_result l r v) \<and>
   (case num_mul F l r of
      Inl e \<Rightarrow> \<not> (is_number l \<and> is_number r) | Inr v \<Rightarrow> is_number l \<and> is_number r \<and> numeric_result l r v) \<and>
   (case num_div F l r of
      Inl e \<Rightarrow> \<not> (is_number l \<and> is_number r) \<or> fl_eq F (num_of F r) (fl_zero F)
    | Inr v \<Rightarrow> is_number l \<and> is_number r \<and> \<not> fl_eq F (num_of F r) (fl_zero F)
               \<and> v = F64 (fl_div F (num_of F l) (num_of F r))) \<and>
   (case num_mod F l r of
      Inl e \<Rightarrow> \<not> (is_number l \<and> is_number r) \<or> int_of F r = 0
    | Inr v \<Rightarrow> is_number l \<and> is_number r \<and> int_of F r \<noteq> 0
               \<and> (\<exists>i. v = I64 i \<and> sint i = sint (int_of F l) smod sint (int_of F r))) \<and>
   (\<forall>cmp \<in> {cmp_lt, cmp_lte, cmp_gt, cmp_gte}.
      case cmp F l r of Inl e \<Rightarrow> \<not> comparable l r | Inr v \<Rightarrow> comparable l r \<and> (\<exists>b. v = Boolean b))"
  using degrade_types [where F = F and name = "str ''sub''" and iop = "(-)" and fop = "fl_sub F" and l = l and r = r]
    degrade_types [where F = F and name = "str ''mul''" and iop = "(*)" and fop = "fl_mul F" and l = l and r = r]
    cmp_types [where F = F and l = l and r = r]
  by (intro conjI add_types div_types mod_types)
     (auto simp: num_sub_def num_mul_def cmp_lt_def cmp_lte_def cmp_gt_def cmp_gte_def split: sum.splits)

lemma operators_are_typed_witness:
  "num_mod some_floats (I64 (- 9223372036854775808)) (I64 (- 1)) = Inr (I64 0) \<and>
   (\<exists>e. num_add some_floats (Str []) (I64 1) = Inl e)"
proof -
  have "\<forall>v. num_add some_floats (Str []) (I64 1) \<noteq> Inr v"
    using operators_are_typed [where F = some_floats and l = "Str []" and r = "I64 1"] by auto
  then show ?thesis by (cases "num_add some_floats (Str []) (I64 1)") (simp_all add: num_mod_def fast_mod_def)
qed

subsection \<open>Order and equality\<close>

text \<open>
  Numbers are ordered as doubles but two integers are equal only if they are the same: two that
  round to one double are each at most the other and not equal.  A number that is neither less
  nor greater than another, such as not-a-number, is reported at most and at least equal to it.
\<close>

lemma unordered_is_both:
  assumes "is_number l" "is_number r" "\<not> fl_less F (num_of F l) (num_of F r)" "\<not> fl_less F (num_of F r) (num_of F l)"
  shows "cmp_lte F l r = Inr (Boolean True)" "cmp_gte F l r = Inr (Boolean True)"
  using assms by (cases l; cases r; simp add: cmp_lte_def cmp_gte_def cmp_with_def value_compare_def)+

lemma nan_is_at_most_everything:
  assumes "\<And>x. \<not> fl_less F nan x" "\<And>x. \<not> fl_less F x nan" "\<And>x. \<not> fl_eq F nan x"
  shows "cmp_lte F (F64 nan) (F64 x) = Inr (Boolean True)" "cmp_gte F (F64 nan) (F64 x) = Inr (Boolean True)"
    "cmp_eq F (F64 nan) (F64 x) = Boolean False"
  using assms by (simp_all add: unordered_is_both cmp_eq_def)

lemma add_refuses_a_timestamp: "num_add F (Str s) (Timestamp ns off) = Inl (Eval_error (str ''cannot add string and timestamp''))"
  by (simp add: num_add_def str_def)

text \<open>Objects with the same keys and equal members are equal, whatever order they were built in.\<close>

lemma entries_eq_iff:
  "length xs = length ys \<Longrightarrow> entries_eq F xs ys \<longleftrightarrow> list_all2 (\<lambda>(k, x) (j, y). k = j \<and> value_eq F x y) xs ys"
  by (induction xs ys rule: list_induct2) auto

lemma values_eq_iff: "length xs = length ys \<Longrightarrow> values_eq F xs ys \<longleftrightarrow> list_all2 (value_eq F) xs ys"
  by (induction xs ys rule: list_induct2) auto

lemma object_eq_fields:
  assumes "om_sorted a" "om_sorted b" "value_eq F (Object a) (Object b)"
  shows "rel_option (value_eq F) (om_find a k) (om_find b k)"
proof -
  have "list_all2 (\<lambda>(k, x) (j, y). k = j \<and> value_eq F x y) a b"
    using assms(3) entries_eq_iff [of a b F] by auto
  then show ?thesis by (induction rule: list_all2_induct) auto
qed

end
