(* ===== verification/Value_Json.thy ===== *)
theory Value_Json
  imports Values_Laws Scan_Json
begin

text \<open>
  The JSON text of a value (\<open>value::to_json\<close>) meets the scanner that frames JSON documents
  (\<open>json_documents\<close> in \<open>scanners.cc\<close>): the text holds no control byte, so a line break never cuts
  it, and the scan finds the end of it exactly.  What the C library prints for a finite number
  is a parameter; it is assumed to consist of digits, signs, a point and an exponent mark.
\<close>

subsection \<open>Texts of numbers\<close>

definition number_byte :: "byte \<Rightarrow> bool" where
  "number_byte c \<longleftrightarrow> is_digit c \<or> c = 0x2B \<or> c = 0x2D \<or> c = 0x2E \<or> exp_mark c"

definition prints_numbers :: "'f floats \<Rightarrow> bool" where
  "prints_numbers F \<longleftrightarrow> (\<forall>p d. fl_finite F d \<longrightarrow> list_all number_byte (fl_sci F p d))"

fun numbers_ok :: "'f val \<Rightarrow> bool" where
  "numbers_ok (Raw_number s) \<longleftrightarrow> s \<noteq> [] \<and> list_all number_byte s"
| "numbers_ok (Array vs) \<longleftrightarrow> list_all numbers_ok vs"
| "numbers_ok (Object e) \<longleftrightarrow> list_all (\<lambda>(k, v). numbers_ok v) e"
| "numbers_ok _ \<longleftrightarrow> True"

lemma digit_byte: "n < 10 \<Longrightarrow> number_byte (word_of_nat (48 + n))"
proof -
  assume "n < 10"
  then have "unat (word_of_nat (48 + n) :: byte) = 48 + n" unfolding unat_of_nat by simp
  then show ?thesis using \<open>n < 10\<close> by (simp add: number_byte_def is_digit_def word_le_nat_alt)
qed

lemma decimal_bytes: "decimal n \<noteq> [] \<and> list_all number_byte (decimal n)"
proof (induction n rule: decimal.induct)
  case (1 n)
  then show ?case by (subst (1 2) decimal.simps) (simp add: digit_byte del: of_nat_add)
qed

lemma decimal_int_bytes: "decimal_int k \<noteq> [] \<and> list_all number_byte (decimal_int k)"
  using decimal_bytes by (simp add: decimal_int_def number_byte_def)

lemma pad2_bytes: "list_all number_byte (pad2 v)"
  using decimal_int_bytes [of v] by (simp add: pad2_def number_byte_def is_digit_def)

lemma list_all_filter: "list_all P xs \<Longrightarrow> list_all P (filter Q xs)"
  by (auto simp: list_all_iff)

lemma list_all_take: "list_all P xs \<Longrightarrow> list_all P (take n xs)"
  by (auto simp: list_all_iff dest: in_set_takeD)

lemma list_all_drop: "list_all P xs \<Longrightarrow> list_all P (drop n xs)"
  by (auto simp: list_all_iff dest: in_set_dropD)

lemma list_all_takeWhile: "list_all P xs \<Longrightarrow> list_all P (takeWhile Q xs)"
  by (auto simp: list_all_iff dest: set_takeWhileD)

lemma list_all_tl: "list_all P xs \<Longrightarrow> list_all P (List.tl xs)"
  by (cases xs) auto

lemmas list_all_parts = list_all_filter list_all_take list_all_drop list_all_takeWhile list_all_tl

lemma try_digits_mem: "0 < n \<Longrightarrow> \<exists>q. try_digits sci ok p n = sci q"
  by (induction sci ok p n rule: try_digits.induct) (auto simp: Let_def)

lemma read_decimal_bytes: "list_all number_byte buf \<Longrightarrow> list_all number_byte (sd_digits (read_decimal neg buf))"
  by (simp add: read_decimal_def Let_def list_all_parts)

lemma shortest_bytes:
  assumes "prints_numbers F" "fl_finite F v" "0 < n"
  shows "list_all number_byte (sd_digits (shortest_of F rd v n))"
proof -
  obtain q where q: "try_digits (\<lambda>p. fl_sci F p v) (\<lambda>buf. fl_eq F (rd buf) v) 1 n = fl_sci F q v"
    using try_digits_mem [OF assms(3)] by blast
  have "list_all number_byte (fl_sci F q v)"
    using assms by (simp add: prints_numbers_def)
  then show ?thesis unfolding shortest_of_def q by (rule read_decimal_bytes)
qed

lemma replicate_zero_bytes: "list_all number_byte (replicate n 0x30)"
  by (induction n) (simp_all add: number_byte_def is_digit_def)

lemma positional_bytes:
  "list_all number_byte (sd_digits d) \<Longrightarrow> append_positional d \<noteq> [] \<and> list_all number_byte (append_positional d)"
  by (auto simp: append_positional_def Let_def list_all_parts replicate_zero_bytes str_def)
     (simp_all add: number_byte_def is_digit_def)

lemma exponential_bytes:
  "list_all number_byte (sd_digits d) \<Longrightarrow> append_exponential d b \<noteq> [] \<and> list_all number_byte (append_exponential d b)"
  using decimal_int_bytes
  by (auto simp: append_exponential_def Let_def list_all_parts pad2_bytes)
     (simp_all add: number_byte_def is_digit_def exp_mark_def list_all_tl flip: drop_Suc)

lemma float_bytes:
  assumes "prints_numbers F" "0 < n"
  shows "write_float F rd v n lo hi = str ''null'' \<or>
    (write_float F rd v n lo hi \<noteq> [] \<and> list_all number_byte (write_float F rd v n lo hi))"
  using assms positional_bytes exponential_bytes shortest_bytes [OF assms(1) _ assms(2)]
  by (auto simp: write_float_def Let_def)

subsection \<open>No control byte\<close>

definition printable :: "byte \<Rightarrow> bool" where
  "printable c \<longleftrightarrow> 0x20 \<le> c"

lemma printable_marks [simp]: "printable 0x22" "printable 0x2C" "printable 0x3A" "printable 0x5B" "printable 0x5D"
  "printable 0x7B" "printable 0x7D"
  by (simp_all add: printable_def)

lemma number_byte_printable: "number_byte c \<Longrightarrow> printable c"
  by (auto simp: number_byte_def is_digit_def printable_def exp_mark_def elim: order_trans [rotated])

lemma hex_digit_range: "n < 16 \<Longrightarrow> printable (hex_digits ! n) \<and> hex_digits ! n \<noteq> 0x22 \<and> hex_digits ! n \<noteq> 0x5C"
proof -
  assume "n < 16"
  moreover have "\<forall>n \<in> set [0..<16]. printable (hex_digits ! n) \<and> hex_digits ! n \<noteq> 0x22 \<and> hex_digits ! n \<noteq> 0x5C"
    by code_simp
  ultimately show ?thesis by simp
qed

lemma printable_json_char: "list_all printable (json_char c)"
  using hex_digit_range [OF nibble_less(1), of c] hex_digit_range [OF nibble_less(2), of c]
  by (simp add: json_char_def hex_encode_def str_def printable_def not_less)

lemma printable_json_string: "list_all printable (write_json_string s)"
  using printable_json_char by (auto simp: write_json_string_def list_all_iff printable_def)

lemma printable_joined: "\<forall>t \<in> set ts. list_all printable t \<Longrightarrow> list_all printable (joined [0x2C] ts)"
  by (auto simp: joined_def list_all_iff printable_def split: list.split)

lemma printable_number: "list_all number_byte s \<Longrightarrow> list_all printable s"
  by (auto simp: list_all_iff number_byte_printable)

lemma printable_float: "prints_numbers F \<Longrightarrow> 0 < n \<Longrightarrow> list_all printable (write_float F rd v n lo hi)"
  using float_bytes [of F n rd v lo hi] printable_number by (fastforce simp: str_def printable_def)

lemma printable_to_json: "prints_numbers F \<Longrightarrow> numbers_ok v \<Longrightarrow> list_all printable (to_json F v)"
proof (induction F v rule: to_json.induct)
  case (12 F vs)
  then have "list_all printable (joined [0x2C] (map (to_json F) vs))"
    by (intro printable_joined) (auto simp: list_all_iff)
  then show ?case by simp
next
  case (13 F e)
  have "list_all printable (write_json_string k @ [0x3A] @ to_json F v)" if "(k, v) \<in> set e" for k v
    using 13 that printable_json_string [of k] by (auto simp: list_all_iff printable_def)
  then have "list_all printable (joined [0x2C] (map (\<lambda>(k, v). write_json_string k @ [0x3A] @ to_json F v) e))"
    by (intro printable_joined) auto
  then show ?case by simp
qed (simp_all add: printable_json_string printable_number decimal_int_bytes write_f64_def write_f32_def
      printable_float, simp_all add: str_def printable_def)

subsection \<open>The scan passes over it\<close>

lemma scan_json_char: "json_scan d True False f (json_char c @ t) =
    map_option ((+) (length (json_char c))) (json_scan d True False False t)"
  using hex_digit_range [OF nibble_less(1), of c] hex_digit_range [OF nibble_less(2), of c]
  by (auto simp: json_char_def hex_encode_def str_def json_step_def option.map_comp comp_def intro!: option.map_cong)

lemma scan_json_chars: "json_scan d True False f (concat (map json_char s) @ [34] @ t) =
    map_option ((+) (length (concat (map json_char s)) + 1)) (json_scan d False False False t)"
proof (induction s arbitrary: f)
  case Nil
  then show ?case by (simp add: json_step_def)
next
  case (Cons c s)
  have "json_scan d True False f (concat (map json_char (c # s)) @ [34] @ t) =
      map_option ((+) (length (json_char c))) (json_scan d True False False (concat (map json_char s) @ [34] @ t))"
    using scan_json_char [of d f c "concat (map json_char s) @ [34] @ t"] by simp
  then show ?case unfolding Cons by (simp add: option.map_comp comp_def add.assoc)
qed

lemma scan_json_string: "json_scan d False False f (write_json_string s @ t) =
    map_option ((+) (length (write_json_string s))) (json_scan d False False False t)"
  using scan_json_chars [of d False s t]
  by (cases "json_scan d False False False t") (simp_all add: write_json_string_def json_step_def)

lemma passes_json_string: "passes (write_json_string s)"
  using scan_json_string by (simp add: passes_def write_json_string_def)

lemma joined_commas: "joined [0x2C] ts = commas ts"
proof -
  have "(@) [0x2C :: byte] = (#) 44" by (rule ext) simp
  then show ?thesis by (cases ts) (simp_all add: joined_def commas_def)
qed

lemma atom_number_byte: "number_byte c \<Longrightarrow> atom_byte c"
proof -
  assume "number_byte c"
  then have "unat c \<in> {43, 45, 46, 69, 101} \<union> {48..57}"
    by (auto simp: number_byte_def is_digit_def exp_mark_def word_le_nat_alt)
  moreover have "\<not> number_byte c" if "c = 34 \<or> c = 44 \<or> c = 91 \<or> c = 93 \<or> c = 123 \<or> c = 125"
    using that by (auto simp: number_byte_def is_digit_def exp_mark_def)
  moreover have "\<not> number_byte c" if "ws c"
    using that by (auto simp: number_byte_def is_digit_def exp_mark_def ws_def)
  ultimately show ?thesis using \<open>number_byte c\<close> by (auto simp: atom_byte_def)
qed

lemma atom_number: "list_all number_byte s \<Longrightarrow> list_all atom_byte s"
  by (auto simp: list_all_iff atom_number_byte)

text \<open>A scalar is a string or an atom.\<close>

definition is_atom :: "bytes \<Rightarrow> bool" where
  "is_atom a \<longleftrightarrow> a \<noteq> [] \<and> list_all atom_byte a"

lemma atom_words: "is_atom (str ''null'')" "is_atom (str ''true'')" "is_atom (str ''false'')"
  by (simp_all add: str_def atom_byte_def ws_def is_atom_def)

lemma atom_numbers: "s \<noteq> [] \<Longrightarrow> list_all number_byte s \<Longrightarrow> is_atom s" "is_atom (decimal_int k)"
  using decimal_int_bytes by (simp_all add: is_atom_def atom_number)

lemma atom_float: "prints_numbers F \<Longrightarrow> 0 < n \<Longrightarrow> is_atom (write_float F rd v n lo hi)"
  using float_bytes [of F n rd v lo hi] atom_numbers(1) atom_words(1) by fastforce

lemma passes_is_atom: "is_atom a \<Longrightarrow> passes a"
  by (simp add: is_atom_def passes_atom)

lemma passes_to_json: "prints_numbers F \<Longrightarrow> numbers_ok v \<Longrightarrow> passes (to_json F v)"
proof (induction F v rule: to_json.induct)
  case (12 F vs)
  then have "passes (commas (map (to_json F) vs))"
    by (intro passes_commas) (auto simp: list_all_iff)
  then show ?case unfolding to_json.simps joined_commas by (rule passes_brackets) simp_all
next
  case (13 F e)
  have "passes (write_json_string k @ [0x3A] @ to_json F v)" if "(k, v) \<in> set e" for k v
    using 13 that by (intro passes_append passes_json_string passes_byte) (auto simp: list_all_iff)
  then have "passes (commas (map (\<lambda>(k, v). write_json_string k @ [0x3A] @ to_json F v) e))"
    by (intro passes_commas) auto
  then show ?case unfolding to_json.simps joined_commas by (rule passes_brackets) simp_all
qed (simp_all add: passes_json_string passes_is_atom atom_words atom_numbers write_f64_def write_f32_def atom_float)

lemma document_atom: "is_atom a \<Longrightarrow> document a"
  using scan_atom [of a True] by (cases a) (auto simp: is_atom_def document_def atom_byte_def)

lemma document_string: "document (write_json_string s)"
  using scan_json_string [of 0 True s "[10]"]
  by (simp add: document_def write_json_string_def ws_def json_step_def)

lemma document_to_json:
  assumes "prints_numbers F" "numbers_ok v"
  shows "document (to_json F v)"
proof (cases v)
  case (Array vs)
  have "passes (commas (map (to_json F) vs))"
    using assms Array by (intro passes_commas) (auto simp: list_all_iff passes_to_json)
  then show ?thesis
    using scan_brackets [of "commas (map (to_json F) vs)" 91 93 0 True "[10]"] Array
    by (simp add: document_def ws_def joined_commas)
next
  case (Object e)
  have "passes (write_json_string k @ [0x3A] @ to_json F v)" if "(k, v) \<in> set e" for k v
    using assms Object that by (intro passes_append passes_json_string passes_byte passes_to_json) (auto simp: list_all_iff)
  then have "passes (commas (map (\<lambda>(k, v). write_json_string k @ [0x3A] @ to_json F v) e))"
    by (intro passes_commas) auto
  then show ?thesis
    using scan_brackets [of "commas (map (\<lambda>(k, v). write_json_string k @ [0x3A] @ to_json F v) e)" 123 125 0 True "[10]"] Object
    by (simp add: document_def ws_def joined_commas)
qed (use assms in \<open>simp_all add: document_string document_atom atom_words atom_numbers write_f64_def write_f32_def atom_float\<close>)

subsection \<open>Written and framed\<close>

text \<open>C28: What \<open>to_json\<close> writes for any values holds no byte below the blank, so a text never
  spans lines; and the scanner of JSON documents, fed these texts one per line and cut into
  chunks anywhere, hands over exactly these texts in order, whatever quotes, brackets, control
  bytes or backslashes the strings and keys in them contain.\<close>

theorem json_text_is_framed:
  assumes "prints_numbers F" "\<forall>v \<in> set vs. numbers_ok v" "concat cs = document_stream (map (to_json F) vs)"
  shows "(\<forall>v \<in> set vs. list_all printable (to_json F v)) \<and>
    run (docs_feed env) (docs_finish env) cs new_docs = documents_result env (map (to_json F) vs)"
proof
  show "\<forall>v \<in> set vs. list_all printable (to_json F v)"
    using assms by (simp add: printable_to_json)
  have "docs_ok env new_docs"
    by (simp add: docs_ok_def new_docs_def docs_loop_stop next_value_def end_of_json_value_def)
  moreover have "\<forall>d \<in> set (map (to_json F) vs). document d"
    using assms(1,2) by (simp add: document_to_json)
  ultimately show "run (docs_feed env) (docs_finish env) cs new_docs = documents_result env (map (to_json F) vs)"
    using docs.run_concat [of env new_docs cs] run_documents_one [of "map (to_json F) vs" env] assms(3) by simp
qed

definition accepting_env :: env where
  "accepting_env = \<lparr>canonical_json = Inr, re_error = (\<lambda>_. None), re_search = (\<lambda>_ _ _. None), re_partial = (\<lambda>_ _. False),
     codec_decompress = (\<lambda>_ b. Inr b)\<rparr>"

definition awkward :: "int val list" where
  "awkward = [Object [(str ''k'', Array [Str [0x7D, 0x0A, 0x22], I64 (- 5)])], Str [0x5D, 0x5C]]"

lemma json_text_is_framed_witness:
  "run (docs_feed accepting_env) (docs_finish accepting_env)
     [str ''{'', [0x22], str ''k'', [0x22], str '':['', [0x22], str ''}'', [0x5C], str ''n'', [0x5C, 0x22, 0x22], str '',-5]}'' @ [10, 0x22],
      str '']'' @ [0x5C], [0x5C, 0x22, 10]] new_docs =
   ([message (str ''{'' @ [0x22] @ str ''k'' @ [0x22] @ str '':['' @ [0x22] @ str ''}'' @ [0x5C] @ str ''n'' @ [0x5C, 0x22, 0x22] @ str '',-5]}''),
     message ([0x22] @ str '']'' @ [0x5C, 0x5C, 0x22])], None)"
proof -
  have texts: "map (to_json some_floats) awkward =
      [str ''{'' @ [0x22] @ str ''k'' @ [0x22] @ str '':['' @ [0x22] @ str ''}'' @ [0x5C] @ str ''n'' @ [0x5C, 0x22, 0x22] @ str '',-5]}'',
       [0x22] @ str '']'' @ [0x5C, 0x5C, 0x22]]"
    by code_simp
  have "list_all number_byte (fl_sci some_floats p d)" for p d
    using decimal_int_bytes [of d] by (simp add: some_floats_def str_def number_byte_def is_digit_def exp_mark_def)
  then have "prints_numbers some_floats" by (simp add: prints_numbers_def)
  moreover have "\<forall>v \<in> set awkward. numbers_ok v" by code_simp
  ultimately show ?thesis
    using json_text_is_framed [of some_floats awkward
      "[str ''{'', [0x22], str ''k'', [0x22], str '':['', [0x22], str ''}'', [0x5C], str ''n'', [0x5C, 0x22, 0x22], str '',-5]}'' @ [10, 0x22],
        str '']'' @ [0x5C], [0x5C, 0x22, 10]]" accepting_env]
    unfolding texts by (simp add: document_stream_def accepting_env_def canonical_json_message_def del: run.simps)
qed

end
