(* ===== verification/Methods.thy ===== *)
theory Methods
  imports Values_Laws
begin

text \<open>
  The methods of \<open>value.cc\<close> and \<open>methods.cc\<close>: pure functions over values, one definition each,
  with the error text of every throw.  A callback is a function from a value to a result, and the
  table of case mappings, which is generated, is an argument.  The lemmas relate the string
  methods to each other and to what they compute.
\<close>

type_synonym 'f result = "eval_error + 'f val"

subsection \<open>Helpers\<close>

fun want_string :: "'f val \<Rightarrow> eval_error + bytes" where
  "want_string (Str s) = Inr s"
| "want_string (Bytes s) = Inr s"
| "want_string v = Inl (wrong_type (str ''string'') v)"

fun want_array :: "'f val \<Rightarrow> eval_error + 'f val list" where
  "want_array (Array vs) = Inr vs"
| "want_array v = Inl (wrong_type (str ''array'') v)"

fun want_object :: "'f val \<Rightarrow> eval_error + (bytes, 'f val) omap" where
  "want_object (Object e) = Inr e"
| "want_object v = Inl (wrong_type (str ''object'') v)"

definition norm_index :: "i64 \<Rightarrow> nat \<Rightarrow> i64" where
  "norm_index i len = (if sint i < 0 then i + of_nat len else i)"

fun same_stringy :: "'f val \<Rightarrow> bytes \<Rightarrow> 'f val" where
  "same_stringy (Bytes _) s = Bytes s"
| "same_stringy _ s = Str s"

text \<open>\<open>std::string::find\<close> from an offset.\<close>

fun prefix_at :: "bytes \<Rightarrow> bytes \<Rightarrow> bool" where
  "prefix_at [] s = True"
| "prefix_at (a # p) [] = False"
| "prefix_at (a # p) (b # s) = (a = b \<and> prefix_at p s)"

fun find_sub :: "bytes \<Rightarrow> bytes \<Rightarrow> nat option" where
  "find_sub d [] = (if d = [] then Some 0 else None)"
| "find_sub d (c # s) = (if prefix_at d (c # s) then Some 0 else map_option Suc (find_sub d s))"

subsection \<open>Conversions\<close>

definition to_string :: "'f floats \<Rightarrow> 'f val \<Rightarrow> 'f val" where
  "to_string F v = Str (to_display_string F v)"

fun to_bytes :: "'f floats \<Rightarrow> 'f val \<Rightarrow> 'f val" where
  "to_bytes F (Bytes s) = Bytes s"
| "to_bytes F v = Bytes (to_display_string F v)"

fun to_bool :: "'f floats \<Rightarrow> 'f val \<Rightarrow> 'f result" where
  "to_bool F (Boolean b) = Inr (Boolean b)"
| "to_bool F (I64 i) = Inr (Boolean (i \<noteq> 0))"
| "to_bool F (F32 d) = Inr (Boolean (\<not> fl_eq F d (fl_zero F)))"
| "to_bool F (F64 d) = Inr (Boolean (\<not> fl_eq F d (fl_zero F)))"
| "to_bool F (Raw_number s) = Inr (Boolean (\<not> fl_eq F (fst (fl_strtod F s)) (fl_zero F)))"
| "to_bool F (Str s) =
     (if s = str ''true'' \<or> s = str ''1'' then Inr (Boolean True)
      else if s = str ''false'' \<or> s = str ''0'' then Inr (Boolean False)
      else Inl (Eval_error (str ''failed to parse string as bool: '' @ s)))"
| "to_bool F v = Inl (wrong_type (str ''bool'') v)"

definition type_of :: "'f val \<Rightarrow> 'f val" where
  "type_of v = Str (type_name v)"

fun value_length :: "'f val \<Rightarrow> 'f result" where
  "value_length (Str s) = Inr (I64 (of_nat (length s)))"
| "value_length (Bytes s) = Inr (I64 (of_nat (length s)))"
| "value_length (Array vs) = Inr (I64 (of_nat (length vs)))"
| "value_length (Object e) = Inr (I64 (of_nat (length e)))"
| "value_length v = Inl (Eval_error (str ''cannot take length of '' @ type_name v))"

definition not_null :: "'f val \<Rightarrow> 'f result" where
  "not_null v = (case v of Null \<Rightarrow> Inl (Eval_error (str ''value is null'')) | _ \<Rightarrow> Inr v)"

definition not_empty :: "'f val \<Rightarrow> 'f result" where
  "not_empty v =
     (case v of
        Str s \<Rightarrow> if s = [] then Inl (Eval_error (str ''string is empty'')) else Inr v
      | Bytes s \<Rightarrow> if s = [] then Inl (Eval_error (str ''string is empty'')) else Inr v
      | Array vs \<Rightarrow> if vs = [] then Inl (Eval_error (str ''array is empty'')) else Inr v
      | Object e \<Rightarrow> if e = [] then Inl (Eval_error (str ''object is empty'')) else Inr v
      | Null \<Rightarrow> Inl (Eval_error (str ''value is null''))
      | _ \<Rightarrow> Inr v)"

text \<open>\<open>strtod\<close> returns the number and how many bytes it used; a NUL byte ends the C string.\<close>

definition to_number :: "'f floats \<Rightarrow> 'f val \<Rightarrow> 'f result" where
  "to_number F v =
     (case v of
        I64 i \<Rightarrow> Inr (F64 (fl_of_int F i))
      | F64 _ \<Rightarrow> Inr v
      | F32 _ \<Rightarrow> Inr v
      | Raw_number s \<Rightarrow> Inr (F64 (fst (fl_strtod F s)))
      | _ \<Rightarrow>
          if is_stringy v then
            let s = text_of v; (d, n) = fl_strtod F s
            in if n = 0 \<or> (n < length s \<and> s ! n \<noteq> 0)
               then Inl (Eval_error (str ''failed to parse string as number: '' @ s)) else Inr (F64 d)
          else Inl (Eval_error (str ''cannot convert '' @ type_name v @ str '' to number'')))"

subsection \<open>Case\<close>

text \<open>Binary search in the table; the code point is unchanged when it has no entry.\<close>

type_synonym case_table = "(i32 \<times> i32) list"

function case_search :: "case_table \<Rightarrow> i32 \<Rightarrow> nat \<Rightarrow> nat \<Rightarrow> nat" where
  "case_search t cp lo hi =
     (if lo < hi
      then let mid = lo + (hi - lo) div 2
           in if fst (t ! mid) < cp then case_search t cp (mid + 1) hi else case_search t cp lo mid
      else lo)"
  by pat_completeness auto
termination by (relation "measure (\<lambda>(t, cp, lo, hi). hi - lo)") auto

declare case_search.simps [simp del]

definition map_case :: "case_table \<Rightarrow> i32 \<Rightarrow> i32" where
  "map_case t cp =
     (let lo = case_search t cp 0 (length t)
      in if lo < length t \<and> fst (t ! lo) = cp then cp + snd (t ! lo) else cp)"

function map_case_bytes :: "case_table \<Rightarrow> bytes \<Rightarrow> nat \<Rightarrow> bytes" where
  "map_case_bytes t s i =
     (if i < length s then
        let b = s ! i
        in if b < 0x80 then ucast (map_case t (ucast b)) # map_case_bytes t s (i + 1)
           else if utf8_rune_len s i = 1 then b # map_case_bytes t s (i + 1)
           else append_utf8 (map_case t (fst (next_rune s i))) @ map_case_bytes t s (snd (next_rune s i))
      else [])"
  by pat_completeness auto
termination
proof (relation "measure (\<lambda>(t, s, i). length s - i)", goal_cases)
  case (4 t s i x)
  then have "snd (next_rune s i) = i + utf8_rune_len s i" by (simp add: next_rune_advances)
  moreover have "utf8_rune_len s i \<ge> 1" by (auto simp: utf8_rune_len_def Let_def)
  ultimately show ?case using 4 by simp
qed auto

declare map_case_bytes.simps [simp del]

definition map_case_string :: "case_table \<Rightarrow> 'f val \<Rightarrow> 'f result" where
  "map_case_string t v =
     (if \<not> is_stringy v then Inl (Type_error (str ''string'') (type_name v))
      else Inr (same_stringy v (map_case_bytes t (text_of v) 0)))"

definition toupper :: "byte \<Rightarrow> byte" where
  "toupper c = (if 0x61 \<le> c \<and> c \<le> 0x7A then c - 0x20 else c)"

definition tolower :: "byte \<Rightarrow> byte" where
  "tolower c = (if 0x41 \<le> c \<and> c \<le> 0x5A then c + 0x20 else c)"

fun capital_bytes :: "bool \<Rightarrow> bytes \<Rightarrow> bytes" where
  "capital_bytes start [] = []"
| "capital_bytes start (c # s) = (if start then toupper c else tolower c) # capital_bytes (isspace c) s"

definition capitalize :: "'f val \<Rightarrow> 'f result" where
  "capitalize v = rbind (want_string v) (\<lambda>s. Inr (same_stringy v (capital_bytes True s)))"

subsection \<open>Strings\<close>

definition trim_set :: "'f val \<Rightarrow> bytes" where
  "trim_set cutset = (case cutset of Str s \<Rightarrow> s | _ \<Rightarrow> [0x20, 0x09, 0x0A, 0x0D, 0x0C, 0x0B])"

definition trim_both :: "bytes \<Rightarrow> bytes \<Rightarrow> bytes" where
  "trim_both cs s = rev (dropWhile (\<lambda>c. c \<in> set cs) (rev (dropWhile (\<lambda>c. c \<in> set cs) s)))"

definition trim :: "'f val \<Rightarrow> 'f val \<Rightarrow> 'f result" where
  "trim v cutset = rbind (want_string v) (\<lambda>s. Inr (same_stringy v (trim_both (trim_set cutset) s)))"

definition has_suffix_bytes :: "bytes \<Rightarrow> bytes \<Rightarrow> bool" where
  "has_suffix_bytes s p \<longleftrightarrow> length s \<ge> length p \<and> drop (length s - length p) s = p"

definition trim_prefix :: "'f val \<Rightarrow> 'f val \<Rightarrow> 'f result" where
  "trim_prefix v p = rbind (want_string v) (\<lambda>s. rbind (want_string p) (\<lambda>q.
     Inr (same_stringy v (if prefix_at q s then drop (length q) s else s))))"

definition trim_suffix :: "'f val \<Rightarrow> 'f val \<Rightarrow> 'f result" where
  "trim_suffix v p = rbind (want_string v) (\<lambda>s. rbind (want_string p) (\<lambda>q.
     Inr (same_stringy v (if has_suffix_bytes s q then take (length s - length q) s else s))))"

definition has_prefix :: "'f val \<Rightarrow> 'f val \<Rightarrow> 'f result" where
  "has_prefix v p = rbind (want_string v) (\<lambda>s. rbind (want_string p) (\<lambda>q. Inr (Boolean (prefix_at q s))))"

definition has_suffix :: "'f val \<Rightarrow> 'f val \<Rightarrow> 'f result" where
  "has_suffix v p = rbind (want_string v) (\<lambda>s. rbind (want_string p) (\<lambda>q. Inr (Boolean (has_suffix_bytes s q))))"

lemma prefix_at_iff: "prefix_at d s \<longleftrightarrow> (\<exists>t. s = d @ t)"
  by (induction d s rule: prefix_at.induct) auto

lemma find_sub_hit: "find_sub d s = Some k \<Longrightarrow> \<exists>t. s = take k s @ d @ t \<and> k + length d \<le> length s"
proof (induction d s arbitrary: k rule: find_sub.induct)
  case (2 d c s)
  show ?case
  proof (cases "prefix_at d (c # s)")
    case True
    then show ?thesis using 2(2) prefix_at_iff [of d "c # s"] by (metis find_sub.simps(2) option.inject
        append_Nil take0 length_append le_add1 add_0)
  next
    case False
    then obtain j where j: "find_sub d s = Some j" "k = Suc j" using 2(2) by auto
    then show ?thesis using 2(1) [OF False j(1)] by auto
  qed
qed (auto split: if_splits)

text \<open>The pieces between the occurrences of a delimiter that is not empty.\<close>

function pieces :: "bytes \<Rightarrow> bytes \<Rightarrow> bytes list" where
  "pieces d s =
     (if d = [] then [s]
      else case find_sub d s of None \<Rightarrow> [s] | Some k \<Rightarrow> take k s # pieces d (drop (k + length d) s))"
  by pat_completeness auto

termination
proof (relation "measure (length o snd)", goal_cases)
  case (2 d s k)
  then have "k + length d \<le> length s" using find_sub_hit [of d s k] by auto
  then show ?case using 2(1) by (cases d) auto
qed simp

declare pieces.simps [simp del]

definition split_piece :: "bool \<Rightarrow> 'f val \<Rightarrow> bytes \<Rightarrow> 'f val" where
  "split_piece nullify v part = (if nullify \<and> part = [] then Null else same_stringy v part)"

definition is_true :: "'f val \<Rightarrow> bool" where
  "is_true v = (case v of Boolean b \<Rightarrow> b | _ \<Rightarrow> False)"

definition split_value :: "'f val \<Rightarrow> 'f val \<Rightarrow> 'f val \<Rightarrow> 'f result" where
  "split_value v delim empty_as_null = rbind (want_string v) (\<lambda>s. rbind (want_string delim) (\<lambda>d.
     let piece = split_piece (is_true empty_as_null) v
     in Inr (Array (if d = [] then map (\<lambda>c. piece [c]) s else map piece (pieces d s)))))"

fun join_elements :: "'f val list \<Rightarrow> eval_error + bytes list" where
  "join_elements [] = Inr []"
| "join_elements (el # els) =
     (case el of Str s \<Rightarrow> rbind (join_elements els) (\<lambda>ts. Inr (s # ts))
      | _ \<Rightarrow> Inl (Eval_error (str ''cannot join a '' @ type_name el @ str '' element'')))"

definition join :: "'f val \<Rightarrow> 'f val \<Rightarrow> 'f result" where
  "join v delim = rbind (want_array v) (\<lambda>els.
     let d = (case delim of Str s \<Rightarrow> s | _ \<Rightarrow> [])
     in rbind (join_elements els) (\<lambda>ts. Inr (Str (joined d ts))))"

text \<open>\<open>replace_all\<close>: an empty needle matches before every rune and at the end.\<close>

function between_runes :: "bytes \<Rightarrow> bytes \<Rightarrow> nat \<Rightarrow> bytes" where
  "between_runes b s i =
     (if i < length s
      then let n = utf8_rune_len s i in take n (drop i s) @ b @ between_runes b s (i + n) else [])"
  by pat_completeness auto
termination
proof (relation "measure (\<lambda>(b, s, i). length s - i)", goal_cases)
  case (2 b s i n)
  moreover have "utf8_rune_len s i \<ge> 1" by (auto simp: utf8_rune_len_def Let_def)
  ultimately show ?case by simp
qed simp

declare between_runes.simps [simp del]

function replaced :: "bytes \<Rightarrow> bytes \<Rightarrow> bytes \<Rightarrow> bytes" where
  "replaced a b s =
     (if a = [] then s
      else case find_sub a s of None \<Rightarrow> s | Some k \<Rightarrow> take k s @ b @ replaced a b (drop (k + length a) s))"
  by pat_completeness auto
termination
proof (relation "measure (\<lambda>(a, b, s). length s)", goal_cases)
  case (2 a b s k)
  then have "k + length a \<le> length s" using find_sub_hit [of a s k] by auto
  then show ?case using 2(1) by (cases a) auto
qed simp

declare replaced.simps [simp del]

definition replace_all :: "'f val \<Rightarrow> 'f val \<Rightarrow> 'f val \<Rightarrow> 'f result" where
  "replace_all v from to = rbind (want_string v) (\<lambda>s. rbind (want_string from) (\<lambda>a. rbind (want_string to) (\<lambda>b.
     Inr (same_stringy v (if a = [] then b @ between_runes b s 0 else replaced a b s)))))"

text \<open>\<open>reverse\<close> steps back over continuation bytes and copies the rune found there.\<close>

fun rune_start :: "bytes \<Rightarrow> nat \<Rightarrow> nat" where
  "rune_start s 0 = 0"
| "rune_start s (Suc k) = (if s ! Suc k AND 0xC0 = 0x80 then rune_start s k else Suc k)"

lemma rune_start_le: "rune_start s k \<le> k"
  by (induction s k rule: rune_start.induct) auto

function reversed :: "bytes \<Rightarrow> nat \<Rightarrow> bytes" where
  "reversed s i =
     (if i = 0 then []
      else let start = rune_start s (i - 1); n = utf8_rune_len s start
           in take (min n (i - start)) (drop start s) @ reversed s start)"
  by pat_completeness auto
termination
proof (relation "measure snd", goal_cases)
  case (2 s i start n)
  then show ?case using rune_start_le [of s "i - 1"] by simp
qed simp

declare reversed.simps [simp del]

definition reverse_value :: "'f val \<Rightarrow> 'f result" where
  "reverse_value v = rbind (want_string v) (\<lambda>s. Inr (same_stringy v (reversed s (length s))))"

definition quote :: "'f floats \<Rightarrow> 'f val \<Rightarrow> 'f result" where
  "quote F v = rbind (want_string v) (\<lambda>s. Inr (Str (to_json F (Str s :: 'f val))))"

definition index_of :: "'f val \<Rightarrow> 'f val \<Rightarrow> 'f result" where
  "index_of v needle = rbind (want_string v) (\<lambda>s. rbind (want_string needle) (\<lambda>d.
     Inr (I64 (case find_sub d s of None \<Rightarrow> - 1 | Some k \<Rightarrow> of_nat k))))"

definition number_or_zero :: "'f floats \<Rightarrow> 'f val \<Rightarrow> i64" where
  "number_or_zero F v = (if is_number v then int_of F v else 0)"

definition repeat_value :: "'f floats \<Rightarrow> 'f val \<Rightarrow> 'f val \<Rightarrow> 'f result" where
  "repeat_value F v count = rbind (want_string v) (\<lambda>s.
     let n = sint (number_or_zero F count)
     in Inr (same_stringy v (if n \<le> 0 then [] else concat (replicate (nat n) s))))"

definition clamp :: "int \<Rightarrow> int \<Rightarrow> int \<Rightarrow> int" where
  "clamp x lo hi = (if x < lo then lo else if hi < x then hi else x)"

definition slice_bounds :: "'f floats \<Rightarrow> nat \<Rightarrow> 'f val \<Rightarrow> 'f val \<Rightarrow> nat \<times> nat" where
  "slice_bounds F n low high =
     (let len = int n;
          lo0 = sint (norm_index (number_or_zero F low) n);
          hi0 = (if is_number high then sint (norm_index (int_of F high) n) else len);
          lo = clamp lo0 0 len;
          hi = clamp hi0 lo len
      in (nat lo, nat hi))"

definition slice :: "'f floats \<Rightarrow> 'f val \<Rightarrow> 'f val \<Rightarrow> 'f val \<Rightarrow> 'f result" where
  "slice F v low high =
     (if is_stringy v then
        let s = text_of v; (lo, hi) = slice_bounds F (length s) low high
        in Inr (same_stringy v (take (hi - lo) (drop lo s)))
      else case v of
        Array a \<Rightarrow> (let (lo, hi) = slice_bounds F (length a) low high in Inr (Array (take (hi - lo) (drop lo a))))
      | _ \<Rightarrow> Inl (wrong_type (str ''string or array'') v))"

definition contains :: "'f floats \<Rightarrow> 'f val \<Rightarrow> 'f val \<Rightarrow> 'f result" where
  "contains F v needle =
     (if is_stringy v then rbind (want_string needle) (\<lambda>d. Inr (Boolean (find_sub d (text_of v) \<noteq> None)))
      else case v of
        Array vs \<Rightarrow> Inr (Boolean (\<exists>el \<in> set vs. value_eq F el needle))
      | Object e \<Rightarrow> Inr (Boolean (\<exists>kv \<in> set e. value_eq F (snd kv) needle))
      | _ \<Rightarrow> Inl (wrong_type (str ''string, array or object'') v))"

subsection \<open>Encodings\<close>

definition encode :: "'f val \<Rightarrow> 'f val \<Rightarrow> 'f result" where
  "encode v scheme = rbind (want_string v) (\<lambda>s. rbind (want_string scheme) (\<lambda>k.
     if k = str ''base64'' then Inr (Str (b64_encode B64_STD True s))
     else if k = str ''base64url'' then Inr (Str (b64_encode B64_URL True s))
     else if k = str ''base64rawurl'' then Inr (Str (b64_encode B64_URL False s))
     else if k = str ''hex'' then Inr (Str (hex_encode s))
     else if k = str ''ascii85'' then Inr (Str (a85_encode s))
     else if k = str ''z85'' then rbind (z85_encode s) (\<lambda>t. Inr (Str t))
     else Inl (Eval_error (str ''unrecognized encoding type: '' @ k))))"

definition decode :: "'f val \<Rightarrow> 'f val \<Rightarrow> 'f result" where
  "decode v scheme = rbind (want_string v) (\<lambda>s. rbind (want_string scheme) (\<lambda>k.
     rbind
       (if k = str ''base64'' then b64_decode_or_throw B64_STD s
        else if k = str ''base64url'' \<or> k = str ''base64rawurl'' then b64_decode_or_throw B64_URL s
        else if k = str ''hex'' then hex_decode s
        else if k = str ''ascii85'' then a85_decode s
        else if k = str ''z85'' then z85_decode s
        else Inl (Eval_error (str ''unrecognized decoding type: '' @ k)))
       (\<lambda>t. Inr (Bytes t))))"

subsection \<open>Numbers\<close>

definition value_abs :: "'f floats \<Rightarrow> 'f val \<Rightarrow> 'f result" where
  "value_abs F v =
     (case v of
        I64 x \<Rightarrow> if sint x = - (2 ^ 63) then Inr (I64 (word_of_int (2 ^ 63 - 1)))
                 else Inr (I64 (if sint x < 0 then - x else x))
      | F64 d \<Rightarrow> Inr (F64 (fl_abs F d))
      | F32 d \<Rightarrow> Inr (F64 (fl_abs F d))
      | _ \<Rightarrow> Inl (wrong_type (str ''number'') v))"

definition value_floor :: "'f floats \<Rightarrow> 'f val \<Rightarrow> 'f result" where
  "value_floor F v = (case v of I64 _ \<Rightarrow> Inr v | _ \<Rightarrow> rbind (as_f64 F v) (\<lambda>d. Inr (F64 (fl_floor F d))))"

text \<open>The first element is compared with itself as well.\<close>

fun best_of :: "'f floats \<Rightarrow> bool \<Rightarrow> 'f \<Rightarrow> 'f val list \<Rightarrow> eval_error + 'f" where
  "best_of F want_max best [] = Inr best"
| "best_of F want_max best (el # els) = rbind (as_f64 F el) (\<lambda>d.
     best_of F want_max (if (if want_max then fl_less F best d else fl_less F d best) then d else best) els)"

definition extremum :: "'f floats \<Rightarrow> bool \<Rightarrow> 'f val \<Rightarrow> 'f result" where
  "extremum F want_max v = rbind (want_array v) (\<lambda>a.
     case a of [] \<Rightarrow> Inl (Eval_error (str ''cannot take min/max of an empty array''))
     | x # _ \<Rightarrow> rbind (as_f64 F x) (\<lambda>d. rbind (best_of F want_max d a) (\<lambda>b. Inr (F64 b))))"

fun sum_floats :: "'f floats \<Rightarrow> 'f \<Rightarrow> 'f val list \<Rightarrow> eval_error + 'f" where
  "sum_floats F acc [] = Inr acc"
| "sum_floats F acc (el # els) = rbind (as_f64 F el) (\<lambda>d. sum_floats F (fl_add F acc d) els)"

definition value_sum :: "'f floats \<Rightarrow> 'f val \<Rightarrow> 'f result" where
  "value_sum F v = rbind (want_array v) (\<lambda>a.
     if \<forall>el \<in> set a. is_i64 el then Inr (I64 (foldl (\<lambda>acc el. acc + int_of F el) 0 a))
     else rbind (sum_floats F (fl_zero F) a) (\<lambda>t. Inr (F64 t)))"

subsection \<open>Structured values\<close>

definition value_keys :: "'f val \<Rightarrow> 'f result" where
  "value_keys v = rbind (want_object v) (\<lambda>e. Inr (Array (map (Str \<circ> fst) e)))"

definition value_values :: "'f val \<Rightarrow> 'f result" where
  "value_values v = rbind (want_object v) (\<lambda>e. Inr (Array (map snd e)))"

definition value_index :: "'f floats \<Rightarrow> 'f val \<Rightarrow> 'f val \<Rightarrow> 'f result" where
  "value_index F v i =
     (case v of
        Bytes b \<Rightarrow>
          (let k = sint (norm_index (number_or_zero F i) (length b))
           in if k < 0 \<or> nat k \<ge> length b then Inl (Eval_error (str ''array index out of bounds''))
              else Inr (I64 (ucast (b ! nat k))))
      | _ \<Rightarrow> rbind (want_array v) (\<lambda>a.
          let k = sint (norm_index (number_or_zero F i) (length a))
          in if k < 0 \<or> nat k \<ge> length a then Inl (Eval_error (str ''array index out of bounds''))
             else Inr (a ! nat k)))"

text \<open>A path is cut at its dots.\<close>

definition path_keys :: "bytes \<Rightarrow> bytes list" where
  "path_keys p = pieces [0x2E] p"

fun walk_path :: "'f val \<Rightarrow> bytes list \<Rightarrow> 'f val option" where
  "walk_path cur [] = Some cur"
| "walk_path cur (key # keys) =
     (case cur of Object e \<Rightarrow> (case find_field key cur of None \<Rightarrow> None | Some next \<Rightarrow> walk_path next keys) | _ \<Rightarrow> None)"

definition exists_path :: "'f val \<Rightarrow> 'f val \<Rightarrow> 'f result" where
  "exists_path v path = rbind (as_string path) (\<lambda>p. Inr (Boolean (walk_path v (path_keys p) \<noteq> None)))"

definition get_path :: "'f val \<Rightarrow> 'f val \<Rightarrow> 'f result" where
  "get_path v path = rbind (want_string path) (\<lambda>p.
     Inr (case walk_path v (path_keys p) of None \<Rightarrow> Null | Some x \<Rightarrow> x))"

definition append_items :: "'f val \<Rightarrow> 'f val list \<Rightarrow> 'f result" where
  "append_items v items = rbind (want_array v) (\<lambda>a. Inr (Array (a @ items)))"

fun as_list :: "'f val \<Rightarrow> 'f val list" where
  "as_list (Array vs) = vs"
| "as_list v = [v]"

definition merge_entry :: "bytes \<times> 'f val \<Rightarrow> 'f val \<Rightarrow> 'f val" where
  "merge_entry kv out =
     (case find_field (fst kv) out of
        None \<Rightarrow> set_field (fst kv) (snd kv) out
      | Some ex \<Rightarrow> set_field (fst kv) (Array (as_list ex @ as_list (snd kv))) out)"

definition merge :: "'f val \<Rightarrow> 'f val \<Rightarrow> 'f result" where
  "merge v w =
     (case (v, w) of
        (Object a, Object b) \<Rightarrow> Inr (fold merge_entry b v)
      | (Array a, Array b) \<Rightarrow> Inr (Array (a @ b))
      | _ \<Rightarrow> Inl (Eval_error (str ''cannot merge '' @ type_name v @ str '' with '' @ type_name w)))"

fun unique_from :: "'f floats \<Rightarrow> 'f val list \<Rightarrow> 'f val list \<Rightarrow> 'f val list" where
  "unique_from F out [] = out"
| "unique_from F out (el # els) =
     unique_from F (if \<exists>x \<in> set out. value_eq F x el then out else out @ [el]) els"

definition unique :: "'f floats \<Rightarrow> 'f val \<Rightarrow> 'f result" where
  "unique F v = rbind (want_array v) (\<lambda>a. Inr (Array (unique_from F [] a)))"

text \<open>
  \<open>std::stable_sort\<close> with a comparison that throws on two values of different or other types:
  any pair of an array of two or more values is reached, so it throws unless all are numbers or
  all are strings.  The order it makes is the stable insertion one.
\<close>

fun insert_after :: "('a \<Rightarrow> 'a \<Rightarrow> bool) \<Rightarrow> 'a \<Rightarrow> 'a list \<Rightarrow> 'a list" where
  "insert_after lt x [] = [x]"
| "insert_after lt x (y # ys) = (if lt x y then x # y # ys else y # insert_after lt x ys)"

definition stable_sort :: "('a \<Rightarrow> 'a \<Rightarrow> bool) \<Rightarrow> 'a list \<Rightarrow> 'a list" where
  "stable_sort lt xs = fold (insert_after lt) xs []"

definition is_str :: "'f val \<Rightarrow> bool" where
  "is_str v = (case v of Str _ \<Rightarrow> True | _ \<Rightarrow> False)"

definition sort_less :: "'f floats \<Rightarrow> 'f val \<Rightarrow> 'f val \<Rightarrow> bool" where
  "sort_less F a b = (if is_number a \<and> is_number b then fl_less F (num_of F a) (num_of F b) else text_of a < text_of b)"

definition sort_value :: "'f floats \<Rightarrow> 'f val \<Rightarrow> 'f result" where
  "sort_value F v = rbind (want_array v) (\<lambda>a.
     if length a \<le> 1 then Inr (Array a)
     else if list_all is_number a \<or> list_all is_str a then Inr (Array (stable_sort (sort_less F) a))
     else Inl (Eval_error (str ''cannot sort a mixed-type array'')))"

definition flatten :: "'f val \<Rightarrow> 'f result" where
  "flatten v = rbind (want_array v) (\<lambda>a. Inr (Array (concat (map as_list a))))"

subsection \<open>Formatting\<close>

definition format_verb :: "'f floats \<Rightarrow> byte \<Rightarrow> 'f val \<Rightarrow> eval_error + bytes" where
  "format_verb F verb a =
     (if verb = 0x76 \<or> verb = 0x73 then Inr (to_display_string F a)
      else if verb = 0x64 then rbind (as_i64 F a) (\<lambda>i. Inr (decimal_int (sint i)))
      else if verb = 0x66 then rbind (as_f64 F a) (\<lambda>d. Inr (fl_fixed F d))
      else if verb = 0x74 then Inr (if is_true a then str ''true'' else str ''false'')
      else Inl (Eval_error (str ''unsupported format verb %'' @ [verb])))"

fun format_bytes :: "'f floats \<Rightarrow> bytes \<Rightarrow> 'f val list \<Rightarrow> eval_error + bytes" where
  "format_bytes F [] args = Inr []"
| "format_bytes F [c] args = Inr [c]"
| "format_bytes F (c # v # f) args =
     (if c \<noteq> 0x25 then rbind (format_bytes F (v # f) args) (\<lambda>out. Inr (c # out))
      else if v = 0x25 then rbind (format_bytes F f args) (\<lambda>out. Inr (0x25 # out))
      else case args of
        [] \<Rightarrow> Inl (Eval_error (str ''not enough arguments for format string''))
      | a # args' \<Rightarrow> rbind (format_verb F v a) (\<lambda>t. rbind (format_bytes F f args') (\<lambda>out. Inr (t @ out))))"

definition format :: "'f floats \<Rightarrow> 'f val \<Rightarrow> 'f val list \<Rightarrow> 'f result" where
  "format F fmt args = rbind (as_string fmt) (\<lambda>f. rbind (format_bytes F f args) (\<lambda>out. Inr (Str out)))"

definition format_json :: "'f floats \<Rightarrow> 'f val \<Rightarrow> 'f val \<Rightarrow> 'f val \<Rightarrow> 'f val \<Rightarrow> 'f val" where
  "format_json F v indent no_indent escape_html =
     (let ind = (case indent of Str s \<Rightarrow> s | _ \<Rightarrow> replicate 4 0x20);
          compact = is_true no_indent;
          escape = (case escape_html of Boolean b \<Rightarrow> b | _ \<Rightarrow> True)
      in Bytes (to_json_pretty F (if compact then [] else ind) escape v))"

subsection \<open>Laws\<close>

text \<open>C29: For every encoding that \<open>encode\<close> and \<open>decode\<close> both know, decoding what was encoded gives
  the bytes back: the three base64 forms with and without padding, hexadecimal, ascii85 with its
  shorthand for four zero bytes and its shorter last group, and z85, which accepts only a
  length that is a multiple of four and refuses every other.\<close>

theorem decode_inverts_encode:
  assumes "k \<in> {str ''base64'', str ''base64url'', str ''base64rawurl'', str ''hex'', str ''ascii85'', str ''z85''}"
    "is_stringy v"
  shows "if k = str ''z85'' \<and> length (text_of v) mod 4 \<noteq> 0 then \<exists>e. encode v (Str k) = Inl e
    else \<exists>t. encode v (Str k) = Inr t \<and> decode t (Str k) = Inr (Bytes (text_of v))"
proof -
  have w: "want_string v = Inr (text_of v)" using assms(2) by (cases v) auto
  have d: "str a = str b \<longleftrightarrow> a = b" for a b by (simp add: str_def inj_map_eq_map inj_on_def)
  note b = b64_throwing_round_trip [OF alphabets(1) b64_no_breaks(1)] b64_throwing_round_trip [OF alphabets(2) b64_no_breaks(2)]
  show ?thesis
  proof (cases "k = str ''z85''")
    case True
    then show ?thesis using w z85_round_trip [of "text_of v"]
      by (auto simp: encode_def decode_def d z85_encode_def)
  next
    case False
    then show ?thesis using assms(1) w b
      by (auto simp: encode_def decode_def d a85_round_trip)
  qed
qed

lemma decode_inverts_encode_witness:
  "\<exists>t. encode (Bytes [0, 0, 0, 0, 255]) (Str (str ''ascii85'')) = Inr t \<and>
       decode t (Str (str ''ascii85'')) = Inr (Bytes [0, 0, 0, 0, 255] :: int val)"
proof -
  have "str ''ascii85'' \<noteq> str ''z85''" by (simp add: str_def)
  then show ?thesis
    using decode_inverts_encode [of "str ''ascii85''" "Bytes [0, 0, 0, 0, 255] :: int val"] by simp
qed

text \<open>Splitting at a delimiter and joining with it gives the text back, and replacing is splitting and joining.\<close>

lemma pieces_not_Nil [simp]: "pieces d s \<noteq> []"
  by (subst pieces.simps) (simp split: option.split)

lemma joined_pieces: "d \<noteq> [] \<Longrightarrow> joined d (pieces d s) = s"
proof (induction d s rule: pieces.induct)
  case (1 d s)
  show ?case
  proof (cases "find_sub d s")
    case None
    then show ?thesis using 1(2) by (simp add: pieces.simps [of d s] joined_def)
  next
    case (Some k)
    obtain t where t: "s = take k s @ d @ t" "k + length d \<le> length s" using find_sub_hit [OF Some] by blast
    then have "drop (k + length d) s = t" by (metis append_assoc append_eq_conv_conj length_append length_take min.absorb2 le_add1 order_trans)
    then have rest: "joined d (pieces d t) = t" using 1 Some by simp
    obtain p ps where p: "pieces d t = p # ps" using pieces_not_Nil [of d t] by (cases "pieces d t") auto
    have "pieces d s = take k s # pieces d t"
      using 1(2) Some \<open>drop (k + length d) s = t\<close> by (subst pieces.simps) simp
    then show ?thesis using rest p t(1) by (simp add: joined_def)
  qed
qed

lemma replaced_pieces: "a \<noteq> [] \<Longrightarrow> replaced a b s = joined b (pieces a s)"
proof (induction a b s rule: replaced.induct)
  case (1 a b s)
  show ?case
  proof (cases "find_sub a s")
    case None
    then show ?thesis using 1(2) by (simp add: pieces.simps [of a s] replaced.simps [of a b s] joined_def)
  next
    case (Some k)
    then have rest: "replaced a b (drop (k + length a) s) = joined b (pieces a (drop (k + length a) s))"
      using 1 by simp
    obtain p ps where p: "pieces a (drop (k + length a) s) = p # ps"
      using pieces_not_Nil [of a "drop (k + length a) s"] by (cases "pieces a (drop (k + length a) s)") auto
    have "pieces a s = take k s # pieces a (drop (k + length a) s)"
      using 1(2) Some by (subst pieces.simps) simp
    moreover have "replaced a b s = take k s @ b @ replaced a b (drop (k + length a) s)"
      using 1(2) Some by (subst replaced.simps) simp
    ultimately show ?thesis using rest p by (simp add: joined_def)
  qed
qed

lemma join_elements_Str: "join_elements (map Str ts) = Inr ts"
  by (induction ts) simp_all

lemma join_split: "d \<noteq> [] \<Longrightarrow> rbind (split_value (Str s :: 'f val) (Str d) Null) (\<lambda>ps. join ps (Str d)) = Inr (Str s)"
  proof -
  have "same_stringy (Str s :: 'f val) = Str" by (rule ext) simp
  then show "d \<noteq> [] \<Longrightarrow> ?thesis"
    by (simp add: split_value_def join_def split_piece_def [abs_def] is_true_def join_elements_Str joined_pieces)
qed

text \<open>\<open>reverse\<close>: the runes of well-formed text in the opposite order.\<close>

lemma lead_not_cont: "\<not> append_utf8 cp ! 0 AND 0xC0 = 0x80"
proof (cases cp rule: append_utf8_cases)
  case one
  have "unat cp < 128" using one(2) by (simp add: word_less_nat_alt)
  then have "\<not> bit (ucast cp :: byte) 7" using high_bit [of cp 7 7] by (simp add: bit_simps)
  then have "\<not> bit (ucast cp AND 0xC0 :: byte) 7" by (simp add: bit_simps)
  moreover have "bit (0x80 :: byte) 7" by simp
  ultimately show ?thesis using one(3) by (metis nth_Cons_0)
next
  case two
  have "bit (ucast (0xC0 OR drop_bit 6 cp) AND 0xC0 :: byte) 6" "\<not> bit (0x80 :: byte) 6" by (simp_all add: bit_simps)
  then show ?thesis using two(4) by (metis nth_Cons_0)
next
  case (three c)
  have "bit (ucast (0xE0 OR drop_bit 12 c) AND 0xC0 :: byte) 6" "\<not> bit (0x80 :: byte) 6" by (simp_all add: bit_simps)
  then show ?thesis using three(4) by (metis nth_Cons_0)
next
  case four
  have "bit (ucast (0xF0 OR drop_bit 18 cp) AND 0xC0 :: byte) 6" "\<not> bit (0x80 :: byte) 6" by (simp_all add: bit_simps)
  then show ?thesis using four(4) by (metis nth_Cons_0)
qed

lemma tail_cont: "0 < k \<Longrightarrow> k < length (append_utf8 cp) \<Longrightarrow> append_utf8 cp ! k AND 0xC0 = 0x80"
  by (cases cp rule: append_utf8_cases) (auto simp: less_Suc_eq cont_mark nth_Cons')

lemma rune_start_encoded:
  "k < length (append_utf8 cp) \<Longrightarrow> rune_start (pre @ append_utf8 cp @ post) (length pre + k) = length pre"
proof (induction k)
  case 0
  show ?case
  proof (cases "length pre")
    case (Suc j)
    have "(pre @ append_utf8 cp @ post) ! Suc j AND 0xC0 \<noteq> 0x80"
      using lead_not_cont [of cp] 0 Suc by (simp add: nth_append flip: Suc)
    then show ?thesis using Suc by simp
  qed simp
next
  case (Suc k)
  have "(pre @ append_utf8 cp @ post) ! Suc (length pre + k) AND 0xC0 = 0x80"
    using tail_cont [of "Suc k" cp] Suc(2) by (simp add: nth_append)
  then show ?case using Suc by simp
qed

lemma rune_len_encoded: "utf8_rune_len (pre @ append_utf8 cp @ post) (length pre) = length (append_utf8 cp)"
  using next_rune_advances [of "length pre" "pre @ append_utf8 cp @ post"] utf8_back [of pre cp post] by simp

lemma reversed_encoded:
  "reversed (concat (map append_utf8 cps) @ post) (length (concat (map append_utf8 cps))) = concat (map append_utf8 (rev cps))"
proof (induction cps arbitrary: post rule: rev_induct)
  case Nil
  show ?case by (simp add: reversed.simps)
next
  case (snoc cp cps)
  let ?pre = "concat (map append_utf8 cps)"
  have pos: "0 < length (append_utf8 cp)" by simp
  have start: "rune_start (?pre @ append_utf8 cp @ post) (length ?pre + length (append_utf8 cp) - 1) = length ?pre"
    using rune_start_encoded [of "length (append_utf8 cp) - 1" cp ?pre post] pos by simp
  have "reversed (?pre @ append_utf8 cp @ post) (length ?pre + length (append_utf8 cp))
      = append_utf8 cp @ reversed (?pre @ append_utf8 cp @ post) (length ?pre)"
    using pos start rune_len_encoded [of ?pre cp post] by (subst reversed.simps) (simp add: Let_def)
  then show ?case using snoc [of "append_utf8 cp @ post"] by simp
qed

lemma reverse_runes:
  "reverse_value (Str (concat (map append_utf8 cps))) = Inr (Str (concat (map append_utf8 (rev cps))))"
  using reversed_encoded [of cps "[]"] by (simp add: reverse_value_def)

text \<open>On other bytes it loses some: the continuation bytes it stepped over are not copied.\<close>

lemma reverse_loses_bytes:
  "reverse_value (Str [0xE2, 0x82]) = Inr (Str [0xE2])"
  "reverse_value (Str [0x61, 0x80, 0x80]) = Inr (Str [0x61])"
  by (simp_all add: reverse_value_def reversed.simps utf8_rune_len_def Let_def)

text \<open>The binary search finds the entry of a sorted table.\<close>

definition below :: "case_table \<Rightarrow> i32 \<Rightarrow> nat \<Rightarrow> bool" where
  "below t cp k \<longleftrightarrow> (\<forall>j < k. fst (t ! j) < cp)"

definition above :: "case_table \<Rightarrow> i32 \<Rightarrow> nat \<Rightarrow> bool" where
  "above t cp k \<longleftrightarrow> (\<forall>j. k \<le> j \<and> j < length t \<longrightarrow> \<not> fst (t ! j) < cp)"

lemma case_search_bounds:
  assumes "sorted_wrt (<) (map fst t)" "lo \<le> hi" "hi \<le> length t" "below t cp lo" "above t cp hi"
  shows "case_search t cp lo hi \<le> length t \<and> below t cp (case_search t cp lo hi) \<and> above t cp (case_search t cp lo hi)"
  using assms
proof (induction t cp lo hi rule: case_search.induct)
  case (1 t cp lo hi)
  let ?m = "lo + (hi - lo) div 2"
  have lt: "fst (t ! i) < fst (t ! j)" if "i < j" "j < length t" for i j
    using 1(3) that by (simp add: sorted_wrt_iff_nth_less)
  show ?case
  proof (cases "lo < hi")
    case True
    then have m: "lo \<le> ?m" "?m < hi" by auto
    then have ml: "?m < length t" using 1(5) by linarith
    show ?thesis
    proof (cases "fst (t ! ?m) < cp")
      case less: True
      have "fst (t ! j) < cp" if "j < ?m + 1" for j
        using less lt [of j ?m] ml that by (cases "j = ?m") (auto intro: order.strict_trans)
      then have "below t cp (?m + 1)" by (simp add: below_def)
      moreover have "case_search t cp lo hi = case_search t cp (?m + 1) hi"
        using True less by (subst case_search.simps) (simp add: Let_def)
      moreover have "?m + 1 \<le> hi" using m by simp
      ultimately show ?thesis using 1(1) [OF True refl less 1(3) _ 1(5) _ 1(7)] by metis
    next
      case False
      have "\<not> fst (t ! j) < cp" if "?m \<le> j" "j < length t" for j
        using False lt [of ?m j] that by (cases "?m = j") (auto intro: order.strict_trans)
      then have "above t cp ?m" by (simp add: above_def)
      moreover have "case_search t cp lo hi = case_search t cp lo ?m"
        using True False by (subst case_search.simps) (simp add: Let_def)
      ultimately show ?thesis using 1(2) [OF True refl False 1(3) m(1) less_imp_le [OF ml] 1(6)] by metis
    qed
  next
    case False
    then have "lo = hi" using 1(4) by simp
    then show ?thesis using 1(5-7) False by (subst (1 2 3) case_search.simps) simp
  qed
qed

lemma map_case_lookup:
  assumes "sorted_wrt (<) (map fst t)"
  shows "map_case t cp = (case map_of t cp of None \<Rightarrow> cp | Some d \<Rightarrow> cp + d)"
proof -
  let ?k = "case_search t cp 0 (length t)"
  have ends: "below t cp 0" "above t cp (length t)" by (simp add: below_def) (auto simp: above_def)
  have b: "below t cp ?k" "above t cp ?k"
    using case_search_bounds [OF assms le0 order.refl ends] by blast+
  have dist: "distinct (map fst t)" using assms by (simp add: strict_sorted_iff)
  show ?thesis
  proof (cases "?k < length t \<and> fst (t ! ?k) = cp")
    case True
    then have "t ! ?k \<in> set t" by simp
    moreover have "t ! ?k = (cp, snd (t ! ?k))" using True by (simp add: prod_eq_iff)
    ultimately have "(cp, snd (t ! ?k)) \<in> set t" by simp
    then have "map_of t cp = Some (snd (t ! ?k))" using dist by (rule map_of_is_SomeI [rotated])
    then show ?thesis using True by (simp add: map_case_def Let_def)
  next
    case False
    have "fst (t ! j) \<noteq> cp" if j: "j < length t" for j
    proof (cases "j < ?k")
      case True
      then have "fst (t ! j) < cp" using b(1) by (simp add: below_def)
      then show ?thesis by simp
    next
      case ge: False
      show ?thesis
      proof
        assume e: "fst (t ! j) = cp"
        then have "?k < j" using False ge j by (cases "j = ?k") auto
        then have "fst (t ! ?k) < cp" using assms j e by (auto simp: sorted_wrt_iff_nth_less)
        moreover have "?k < length t" using \<open>?k < j\<close> j by simp
        ultimately show False using b(2) by (simp add: above_def)
      qed
    qed
    then have "\<forall>p \<in> set t. fst p \<noteq> cp" by (simp add: all_set_conv_all_nth)
    then have "cp \<notin> fst ` set t" by blast
    then have "map_of t cp = None" by (simp add: map_of_eq_None_iff)
    then show ?thesis using False by (auto simp: map_case_def Let_def)
  qed
qed

end
