(* ===== verification/Messages.thy ===== *)
theory Messages
  imports Values_Laws Stream
begin

text \<open>
  The message of \<open>message.hh\<close> and \<open>message.cc\<close>: a payload held as bytes, as a value, or as both, each
  made from the other when it is first asked for.  The payload is the content of the messages of
  \<open>Stream\<close>.  \<open>parse_json\<close> (simdjson) is a parameter, the printer is \<open>to_json\<close> of \<open>Values\<close>.  The
  lemmas show that the lazy conversions cannot be observed: a message behaves as the pair of its
  bytes and its value, which only the writers change.
\<close>

section \<open>The representation\<close>

text \<open>A synchronous response store is shared by every copy of a message, so a message holds its name.\<close>

record 'f payload =
  raw :: "bytes option"
  structured :: "'f val option"
  meta :: "(bytes, 'f val) omap"
  response :: "nat option"

type_synonym 'f msg = "'f payload message"
type_synonym 'f parser = "bytes \<Rightarrow> eval_error + 'f val"

definition new_message :: "'f msg" where
  "new_message = \<lparr>content = \<lparr>raw = None, structured = None, meta = [], response = None\<rparr>,
     msg_error = [], msg_source = None\<rparr>"

definition upd :: "('f payload \<Rightarrow> 'f payload) \<Rightarrow> 'f msg \<Rightarrow> 'f msg" where
  "upd f m = m\<lparr>content := f (content m)\<rparr>"

definition of_bytes :: "bytes \<Rightarrow> 'f msg" where
  "of_bytes s = upd (raw_update (\<lambda>_. Some s)) new_message"

definition from_value :: "'f val \<Rightarrow> 'f msg" where
  "from_value v = upd (structured_update (\<lambda>_. Some v)) new_message"

definition as_bytes :: "'f floats \<Rightarrow> 'f msg \<Rightarrow> bytes \<times> 'f msg" where
  "as_bytes F m =
     (case raw (content m) of
        Some s \<Rightarrow> (s, m)
      | None \<Rightarrow> (case structured (content m) of
          None \<Rightarrow> ([], m)
        | Some v \<Rightarrow> (let s = to_json F v in (s, upd (raw_update (\<lambda>_. Some s)) m))))"

definition as_structured :: "'f floats \<Rightarrow> 'f parser \<Rightarrow> 'f msg \<Rightarrow> (eval_error + 'f val) \<times> 'f msg" where
  "as_structured F parse m =
     (case structured (content m) of
        Some v \<Rightarrow> (Inr v, m)
      | None \<Rightarrow> (case as_bytes F m of (s, m) \<Rightarrow>
          (case parse s of
             Inl e \<Rightarrow> (Inl e, m)
           | Inr v \<Rightarrow> (Inr v, upd (structured_update (\<lambda>_. Some v)) m))))"

text \<open>The reference \<open>as_structured_mut\<close> hands out, used for one change.\<close>

definition as_structured_mut :: "'f floats \<Rightarrow> 'f parser \<Rightarrow> ('f val \<Rightarrow> 'f val) \<Rightarrow> 'f msg \<Rightarrow> (eval_error + unit) \<times> 'f msg" where
  "as_structured_mut F parse change m =
     (case as_structured F parse m of
        (Inl e, m) \<Rightarrow> (Inl e, m)
      | (Inr v, m) \<Rightarrow> (Inr (), upd (\<lambda>p. p\<lparr>raw := None, structured := Some (change v)\<rparr>) m))"

definition set_bytes :: "bytes \<Rightarrow> 'f msg \<Rightarrow> 'f msg" where
  "set_bytes s = upd (\<lambda>p. p\<lparr>raw := Some s, structured := None\<rparr>)"

definition set_structured :: "'f val \<Rightarrow> 'f msg \<Rightarrow> 'f msg" where
  "set_structured v = upd (\<lambda>p. p\<lparr>structured := Some v, raw := None\<rparr>)"

definition set_mapped :: "'f val \<Rightarrow> 'f msg \<Rightarrow> bool \<times> 'f msg" where
  "set_mapped v m =
     (if v = Nothing then (False, m)
      else if is_stringy v then (True, set_bytes (text_of v) m)
      else (True, set_structured v m))"

definition set_meta :: "bytes \<Rightarrow> 'f val \<Rightarrow> 'f msg \<Rightarrow> 'f msg" where
  "set_meta k v = upd (meta_update (om_set k v))"

definition remove_meta :: "bytes \<Rightarrow> 'f msg \<Rightarrow> 'f msg" where
  "remove_meta k = upd (meta_update (om_remove k))"

text \<open>The overload without a source leaves the source of an earlier error in place.\<close>

definition set_error_text :: "failure \<Rightarrow> 'f msg \<Rightarrow> 'f msg" where
  "set_error_text e m = m\<lparr>msg_error := e\<rparr>"

definition clear_error :: "'f msg \<Rightarrow> 'f msg" where
  "clear_error m = m\<lparr>msg_error := [], msg_source := None\<rparr>"

definition error_source_of :: "'f msg \<Rightarrow> error_source" where
  "error_source_of m = (case msg_source m of None \<Rightarrow> \<lparr>es_name = [], es_label = [], es_path = []\<rparr> | Some s \<Rightarrow> s)"

definition append_line :: "bytes \<Rightarrow> bytes \<Rightarrow> bytes" where
  "append_line out payload = out @ payload @ (if payload = [] \<or> last payload \<noteq> 0x0A then [0x0A] else [])"

section \<open>What is observed\<close>

definition bytes_of :: "'f floats \<Rightarrow> 'f msg \<Rightarrow> bytes" where
  "bytes_of F m = fst (as_bytes F m)"

definition value_of :: "'f floats \<Rightarrow> 'f parser \<Rightarrow> 'f msg \<Rightarrow> eval_error + 'f val" where
  "value_of F parse m = fst (as_structured F parse m)"

lemmas message_defs = upd_def as_bytes_def as_structured_def as_structured_mut_def set_bytes_def set_structured_def
  set_mapped_def bytes_of_def value_of_def

lemma content_upd [simp]:
  "content (upd f m) = f (content m)" "msg_error (upd f m) = msg_error m" "msg_source (upd f m) = msg_source m"
  by (simp_all add: upd_def)

lemma as_bytes_transparent [simp]:
  "bytes_of F (snd (as_bytes F m)) = bytes_of F m"
  "value_of F parse (snd (as_bytes F m)) = value_of F parse m"
  "meta (content (snd (as_bytes F m))) = meta (content m)"
  "msg_error (snd (as_bytes F m)) = msg_error m"
  by (simp_all add: message_defs Let_def split: option.split)

text \<open>simdjson refuses the empty text.  Otherwise a message that holds nothing would gain bytes by being read.\<close>

definition refuses_empty :: "'f parser \<Rightarrow> bool" where
  "refuses_empty parse \<longleftrightarrow> (\<exists>e. parse [] = Inl e)"

lemma as_structured_bytes: "refuses_empty parse \<Longrightarrow> bytes_of F (snd (as_structured F parse m)) = bytes_of F m"
  by (auto simp: message_defs refuses_empty_def Let_def split: option.split sum.split)

lemma as_structured_transparent [simp]:
  "value_of F parse (snd (as_structured F parse m)) = value_of F parse m"
  "meta (content (snd (as_structured F parse m))) = meta (content m)"
  "msg_error (snd (as_structured F parse m)) = msg_error m"
  by (simp_all add: message_defs Let_def split: option.split sum.split)

lemma as_bytes_eq: "as_bytes F m = (bytes_of F m, snd (as_bytes F m))"
  by (simp add: bytes_of_def)

lemma as_structured_eq: "as_structured F parse m = (value_of F parse m, snd (as_structured F parse m))"
  by (simp add: value_of_def)

lemma observe_set_bytes [simp]:
  "bytes_of F (set_bytes s m) = s" "value_of F parse (set_bytes s m) = parse s"
  by (simp_all add: message_defs split: sum.split)

lemma observe_set_structured [simp]:
  "bytes_of F (set_structured v m) = to_json F v" "value_of F parse (set_structured v m) = Inr v"
  by (simp_all add: message_defs Let_def)

lemma observe_upd_raw [simp]:
  "bytes_of F (set_meta k x m) = bytes_of F m" "value_of F parse (set_meta k x m) = value_of F parse m"
  "bytes_of F (remove_meta k m) = bytes_of F m" "value_of F parse (remove_meta k m) = value_of F parse m"
  "bytes_of F (set_error_text e m) = bytes_of F m" "value_of F parse (set_error_text e m) = value_of F parse m"
  "bytes_of F (clear_error m) = bytes_of F m" "value_of F parse (clear_error m) = value_of F parse m"
  by (simp_all add: message_defs set_meta_def remove_meta_def set_error_text_def clear_error_def Let_def
      split: option.split sum.split)

lemma observe_new:
  "bytes_of F (of_bytes s) = s" "value_of F parse (of_bytes s) = parse s"
  "bytes_of F (from_value v) = to_json F v" "value_of F parse (from_value v) = Inr v"
  by (simp_all add: message_defs of_bytes_def from_value_def new_message_def Let_def split: sum.split)

section \<open>The abstract message\<close>

text \<open>What a client may do to a payload, and the two observations as the abstract state.\<close>

datatype 'f msg_use =
    Read_bytes
  | Read_value
  | Set_bytes bytes
  | Set_structured "'f val"
  | Set_mapped "'f val"
  | Change "'f val \<Rightarrow> 'f val"

primrec use_msg :: "'f floats \<Rightarrow> 'f parser \<Rightarrow> 'f msg \<Rightarrow> 'f msg_use \<Rightarrow> 'f msg" where
  "use_msg F parse m Read_bytes = snd (as_bytes F m)"
| "use_msg F parse m Read_value = snd (as_structured F parse m)"
| "use_msg F parse m (Set_bytes s) = set_bytes s m"
| "use_msg F parse m (Set_structured v) = set_structured v m"
| "use_msg F parse m (Set_mapped v) = snd (set_mapped v m)"
| "use_msg F parse m (Change f) = snd (as_structured_mut F parse f m)"

definition observed :: "'f floats \<Rightarrow> 'f parser \<Rightarrow> 'f msg \<Rightarrow> bytes \<times> (eval_error + 'f val)" where
  "observed F parse m = (bytes_of F m, value_of F parse m)"

definition written_bytes :: "'f parser \<Rightarrow> bytes \<Rightarrow> bytes \<times> (eval_error + 'f val)" where
  "written_bytes parse s = (s, parse s)"

definition written_value :: "'f floats \<Rightarrow> 'f val \<Rightarrow> bytes \<times> (eval_error + 'f val)" where
  "written_value F v = (to_json F v, Inr v)"

primrec abstract_use :: "'f floats \<Rightarrow> 'f parser \<Rightarrow> bytes \<times> (eval_error + 'f val) \<Rightarrow> 'f msg_use \<Rightarrow> bytes \<times> (eval_error + 'f val)" where
  "abstract_use F parse c Read_bytes = c"
| "abstract_use F parse c Read_value = c"
| "abstract_use F parse c (Set_bytes s) = written_bytes parse s"
| "abstract_use F parse c (Set_structured v) = written_value F v"
| "abstract_use F parse c (Set_mapped v) =
     (case v of Nothing \<Rightarrow> c | Str s \<Rightarrow> written_bytes parse s | Bytes s \<Rightarrow> written_bytes parse s | _ \<Rightarrow> written_value F v)"
| "abstract_use F parse c (Change f) = (case snd c of Inl e \<Rightarrow> c | Inr v \<Rightarrow> written_value F (f v))"

lemma observed_mut: "refuses_empty parse \<Longrightarrow> observed F parse (snd (as_structured_mut F parse f m)) = abstract_use F parse (observed F parse m) (Change f)"
proof -
  assume parse: "refuses_empty parse"
  obtain r n where a: "as_structured F parse m = (r, n)" by fastforce
  have n: "value_of F parse m = r" "bytes_of F n = bytes_of F m" "value_of F parse n = r"
    using as_structured_bytes [OF parse, of F m] as_structured_transparent(1) [of F parse m] a
    by (simp_all add: value_of_def)
  show ?thesis
  proof (cases r)
    case (Inl e)
    then show ?thesis using n a by (simp add: observed_def as_structured_mut_def)
  next
    case (Inr v)
    have "observed F parse (upd (\<lambda>p. p\<lparr>raw := None, structured := Some (f v)\<rparr>) n) = written_value F (f v)"
      by (simp add: observed_def written_value_def message_defs Let_def)
    then show ?thesis using n a Inr by (simp add: observed_def as_structured_mut_def)
  qed
qed

lemma observed_step: "refuses_empty parse \<Longrightarrow> observed F parse (use_msg F parse m u) = abstract_use F parse (observed F parse m) u"
proof (cases u)
  case (Change f)
  assume "refuses_empty parse"
  from observed_mut [OF this] show ?thesis by (simp only: Change use_msg.simps)
next
  case (Set_mapped v)
  then show ?thesis
    by (cases v) (simp_all add: observed_def set_mapped_def written_bytes_def written_value_def)
qed (simp_all add: as_structured_bytes observed_def written_bytes_def written_value_def)

text \<open>C32: A message is the pair of its bytes and its value.  Whatever is done to it in whatever order, what it answers
  next is the content last written to it: bytes that are set are answered verbatim and parsed, a value that is set is
  answered as it is and printed, a mapping result of \<open>nothing\<close> changes neither, a string becomes the bytes, and the
  conversions that the reads store never show.\<close>

theorem message_refines_its_content:
  assumes "refuses_empty parse"
  shows "observed F parse (foldl (use_msg F parse) m us) = foldl (abstract_use F parse) (observed F parse m) us"
  using assms by (induction us arbitrary: m) (simp_all add: observed_step)

definition some_parser :: "int parser" where
  "some_parser s = (if s = str ''[1]'' then Inr (Array [I64 1]) else Inl (Eval_error (str ''invalid JSON'')))"

lemma message_refines_its_content_witness:
  "observed some_floats some_parser (foldl (use_msg some_floats some_parser) (of_bytes (str ''[1]''))
     [Read_value, Set_mapped Nothing, Read_bytes, Change (\<lambda>v. Null), Read_bytes, Set_mapped (Str (str ''x''))])
   = (str ''x'', Inl (Eval_error (str ''invalid JSON'')))"
proof -
  have "refuses_empty some_parser" by (simp add: refuses_empty_def some_parser_def str_def)
  from message_refines_its_content [OF this, where F = some_floats and m = "of_bytes (str ''[1]'')"
      and us = "[Read_value, Set_mapped Nothing, Read_bytes, Change (\<lambda>v. Null), Read_bytes, Set_mapped (Str (str ''x''))]"]
  show ?thesis by (simp add: observed_def observe_new written_bytes_def some_parser_def str_def)
qed

text \<open>The bytes of a message whose value was only read are the bytes it came with, not their canonical form.\<close>

lemma reading_keeps_the_bytes: "bytes_of F (snd (as_structured F parse (of_bytes s))) = s"
  by (simp add: of_bytes_def new_message_def as_structured_def as_bytes_def bytes_of_def split: sum.split)

text \<open>An empty message is not JSON unless the parser takes the empty text.\<close>

lemma empty_message: "bytes_of F new_message = []" "value_of F parse new_message = parse []"
  by (simp_all add: message_defs new_message_def split: sum.split)

subsection \<open>Gaps\<close>

text \<open>An error set without its source keeps the source of the error before it.\<close>

lemma stale_error_source:
  "error_source_of (set_error_text (str ''second'') (set_error (str ''first'') src m)) = src"
  by (simp add: error_source_of_def set_error_text_def set_error_def)

lemma append_line_ends: "last (append_line out payload) = 0x0A"
  by (simp add: append_line_def)

lemma append_line_idempotent: "payload \<noteq> [] \<Longrightarrow> append_line out (append_line [] payload) = append_line out payload"
  by (auto simp: append_line_def)

end
