(* ===== verification/Effects.thy ===== *)
theory Effects
  imports Encodings
begin

text \<open>
  Code that may throw an \<open>eval_error\<close> and changes a state it holds by reference.  A throw keeps what was
  written before it, so the state comes back on both paths.
  The locale \<open>tracking\<close> lifts relations over the combinators: that two computations do the same on a
  set of states, and how the state after is related to the state before.
\<close>

type_synonym ('s, 'a) eff = "'s \<Rightarrow> (eval_error + 'a) \<times> 's"

definition ret :: "'a \<Rightarrow> ('s, 'a) eff" where
  "ret x s = (Inr x, s)"

definition raise :: "eval_error \<Rightarrow> ('s, 'a) eff" where
  "raise e s = (Inl e, s)"

definition lift :: "eval_error + 'a \<Rightarrow> ('s, 'a) eff" where
  "lift r s = (r, s)"

definition andthen :: "('s, 'a) eff \<Rightarrow> ('a \<Rightarrow> ('s, 'b) eff) \<Rightarrow> ('s, 'b) eff" where
  "andthen m k s = (case m s of (Inl e, s) \<Rightarrow> (Inl e, s) | (Inr x, s) \<Rightarrow> k x s)"

text \<open>\<open>catch (const eval_error&)\<close>\<close>

definition rescue :: "('s, 'a) eff \<Rightarrow> (eval_error \<Rightarrow> ('s, 'a) eff) \<Rightarrow> ('s, 'a) eff" where
  "rescue m h s = (case m s of (Inl e, s) \<Rightarrow> h e s | (Inr x, s) \<Rightarrow> (Inr x, s))"

text \<open>A binding made before \<open>m\<close> and undone after it, also when it throws.\<close>

definition bracket :: "('s \<Rightarrow> 's) \<Rightarrow> ('s \<Rightarrow> 's \<Rightarrow> 's) \<Rightarrow> ('s, 'a) eff \<Rightarrow> ('s, 'a) eff" where
  "bracket enter leave m s = (case m (enter s) of (r, t) \<Rightarrow> (r, leave s t))"

definition reads :: "('s \<Rightarrow> eval_error + 'a) \<Rightarrow> ('s, 'a) eff" where
  "reads f s = (f s, s)"

primrec each_do :: "('a \<Rightarrow> ('s, 'b) eff) \<Rightarrow> 'a list \<Rightarrow> ('s, 'b list) eff" where
  "each_do f [] = ret []"
| "each_do f (x # xs) = andthen (f x) (\<lambda>y. andthen (each_do f xs) (\<lambda>ys. ret (y # ys)))"

definition throw :: "bytes \<Rightarrow> ('s, 'a) eff" where
  "throw e = raise (Eval_error e)"

text \<open>\<open>eval_error::what()\<close>\<close>

primrec what :: "eval_error \<Rightarrow> bytes" where
  "what (Eval_error s) = s"
| "what (Type_error want got) = str ''expected '' @ want @ str '' value, got '' @ got"

lemma andthen_simps [simp]:
  "andthen (ret x) k = k x" "andthen (raise e) k = raise e" "andthen (throw t) k = throw t"
  "andthen (lift (Inr x)) k = k x" "andthen (lift (Inl e)) k = raise e"
  by (auto simp: andthen_def ret_def raise_def lift_def throw_def)

lemma rescue_simps [simp]:
  "rescue (ret x) h = ret x" "rescue (raise e) h = h e"
  by (auto simp: rescue_def ret_def raise_def)

lemma andthen_ret [simp]: "andthen m ret = m"
  by (auto simp: andthen_def ret_def split: prod.splits sum.splits)

lemma andthen_assoc: "andthen (andthen m k) h = andthen m (\<lambda>x. andthen (k x) h)"
  by (auto simp: andthen_def split: prod.splits sum.splits)

section \<open>Two computations on the same states\<close>

text \<open>
  \<open>m\<close> and \<open>n\<close> do the same in the states of \<open>S\<close> and relate the state before to the state after by \<open>R\<close>.  On the
  diagonal this says what a computation keeps.
\<close>

definition tracks :: "('s \<Rightarrow> bool) \<Rightarrow> ('s \<Rightarrow> 's \<Rightarrow> bool) \<Rightarrow> ('s, 'a) eff \<Rightarrow> ('s, 'a) eff \<Rightarrow> bool" where
  "tracks S R m n \<longleftrightarrow> (\<forall>s. S s \<longrightarrow> m s = n s \<and> R s (snd (m s)))"

lemma tracksI: "(\<And>s. S s \<Longrightarrow> m s = n s) \<Longrightarrow> (\<And>s. S s \<Longrightarrow> R s (snd (m s))) \<Longrightarrow> tracks S R m n"
  unfolding tracks_def by blast

lemma tracksD: "tracks S R m n \<Longrightarrow> S s \<Longrightarrow> m s = n s" "tracks S R m n \<Longrightarrow> S s \<Longrightarrow> R s (snd (m s))"
  unfolding tracks_def by blast+

locale tracking =
  fixes S :: "'s \<Rightarrow> bool" and R :: "'s \<Rightarrow> 's \<Rightarrow> bool"
  assumes related: "R s s"
    and chained: "R s t \<Longrightarrow> R t u \<Longrightarrow> R s u"
    and closed: "S s \<Longrightarrow> R s t \<Longrightarrow> S t"
begin

lemma track_pure:
  "tracks S R (ret x) (ret x)" "tracks S R (raise e) (raise e)" "tracks S R (lift r) (lift r)"
  "tracks S R (reads f) (reads f)" "tracks S R (throw t) (throw t)"
  by (simp_all add: tracks_def ret_def raise_def lift_def reads_def throw_def related)

lemma track_andthen:
  assumes m: "tracks S R m m'" and k: "\<And>x. tracks S R (k x) (k' x)"
  shows "tracks S R (andthen m k) (andthen m' k')"
proof (rule tracksI)
  fix s assume s: "S s"
  obtain r t where mt: "m s = (r, t)" by fastforce
  have st: "m' s = (r, t)" "R s t" "S t" using m s mt closed [of s t] tracksD [OF m s] by auto
  show "andthen m k s = andthen m' k' s"
    using mt st tracksD(1) [OF k st(3)] by (simp add: andthen_def split: sum.split)
  show "R s (snd (andthen m k s))"
    using mt st tracksD(2) [OF k st(3)] by (auto simp: andthen_def split: sum.split intro: chained)
qed

lemma track_rescue:
  assumes m: "tracks S R m m'" and h: "\<And>e. tracks S R (h e) (h' e)"
  shows "tracks S R (rescue m h) (rescue m' h')"
proof (rule tracksI)
  fix s assume s: "S s"
  obtain r t where mt: "m s = (r, t)" by fastforce
  have st: "m' s = (r, t)" "R s t" "S t" using m s mt closed [of s t] tracksD [OF m s] by auto
  show "rescue m h s = rescue m' h' s"
    using mt st tracksD(1) [OF h st(3)] by (simp add: rescue_def split: sum.split)
  show "R s (snd (rescue m h s))"
    using mt st tracksD(2) [OF h st(3)] by (auto simp: rescue_def split: sum.split intro: chained)
qed

lemma track_each: "(\<And>x. x \<in> set xs \<Longrightarrow> tracks S R (f x) (f' x)) \<Longrightarrow> tracks S R (each_do f xs) (each_do f' xs)"
  by (induction xs) (auto intro!: track_andthen track_pure)

lemmas track_intros = track_pure track_andthen track_rescue

end

lemma tracks_bracket:
  assumes "tracks T Q m m'" "\<And>s. S s \<Longrightarrow> T (enter s)" "\<And>s t. S s \<Longrightarrow> Q (enter s) t \<Longrightarrow> R s (leave s t)"
  shows "tracks S R (bracket enter leave m) (bracket enter leave m')"
proof (rule tracksI)
  fix s assume s: "S s"
  show "bracket enter leave m s = bracket enter leave m' s"
    using tracksD(1) [OF assms(1) assms(2) [OF s]] by (simp add: bracket_def)
  show "R s (snd (bracket enter leave m s))"
    using assms(3) [OF s tracksD(2) [OF assms(1) assms(2) [OF s]]] by (cases "m (enter s)") (simp add: bracket_def)
qed

section \<open>What a computation yields\<close>

definition yields :: "('a \<Rightarrow> bool) \<Rightarrow> ('s, 'a) eff \<Rightarrow> bool" where
  "yields P m \<longleftrightarrow> (\<forall>s x t. m s = (Inr x, t) \<longrightarrow> P x)"

lemma yieldsD: "yields P m \<Longrightarrow> m s = (Inr x, t) \<Longrightarrow> P x"
  by (auto simp: yields_def)

lemma yields_pure [simp]: "yields P (ret x) \<longleftrightarrow> P x" "yields P (raise e)" "yields P (throw t)"
  by (auto simp: yields_def ret_def raise_def throw_def)

lemma yields_andthen: "yields P m \<Longrightarrow> (\<And>x. P x \<Longrightarrow> yields Q (k x)) \<Longrightarrow> yields Q (andthen m k)"
  by (fastforce simp: yields_def andthen_def split: prod.splits sum.splits)

lemma yields_any: "yields (\<lambda>_. True) m"
  by (simp add: yields_def)

end
