(* ===== verification/Queries.thy ===== *)
theory Queries
  imports Structured "HOL-Library.Multiset"
begin

text \<open>
  The methods that apply a query to each element: \<open>map_each\<close> and \<open>filter\<close> of \<open>value.cc\<close> and the second
  half of \<open>methods_structured.cc\<close>.  The query is an effect over the context it runs in; it may throw,
  which ends the loop.  The lemmas show that \<open>sort\<close> with a query returns a permutation whatever the
  query answers, and a sorted one when it compares.
\<close>

type_synonym ('s, 'f) query = "'f val \<Rightarrow> ('s, 'f val) eff"

subsection \<open>map_each and filter\<close>

fun each_array :: "('s, 'f) query \<Rightarrow> bool \<Rightarrow> 'f val list \<Rightarrow> ('s, 'f val list) eff" where
  "each_array fn filtering [] = ret []"
| "each_array fn filtering (el # els) = andthen (fn el) (\<lambda>r.
     andthen (if filtering then andthen (lift (truthy r)) (\<lambda>b. ret (if b then [el] else []))
              else ret (case r of Deleted \<Rightarrow> [] | _ \<Rightarrow> [r]))
       (\<lambda>now. andthen (each_array fn filtering els) (\<lambda>rest. ret (now @ rest))))"

fun each_object :: "('s, 'f) query \<Rightarrow> bool \<Rightarrow> (bytes \<times> 'f val) list \<Rightarrow> 'f val \<Rightarrow> ('s, 'f val) eff" where
  "each_object fn filtering [] out = ret out"
| "each_object fn filtering ((key, val) # e) out = andthen (fn (pair_of key val)) (\<lambda>r.
     andthen (if filtering then andthen (lift (truthy r)) (\<lambda>b. ret (if b then set_field key val out else out))
              else ret (case r of Deleted \<Rightarrow> out | _ \<Rightarrow> set_field key r out))
       (\<lambda>out'. each_object fn filtering e out'))"

definition each :: "bytes \<Rightarrow> ('s, 'f) query \<Rightarrow> bool \<Rightarrow> 'f val \<Rightarrow> ('s, 'f val) eff" where
  "each name fn filtering v =
     (case v of
        Array vs \<Rightarrow> andthen (each_array fn filtering vs) (\<lambda>out. ret (Array out))
      | Object e \<Rightarrow> each_object fn filtering e (Object [])
      | _ \<Rightarrow> throw (str ''cannot '' @ name @ str '' over '' @ type_name v))"

definition map_each :: "('s, 'f) query \<Rightarrow> 'f val \<Rightarrow> ('s, 'f val) eff" where
  "map_each fn v = each (str ''map_each'') fn False v"

definition filter_value :: "('s, 'f) query \<Rightarrow> 'f val \<Rightarrow> ('s, 'f val) eff" where
  "filter_value fn v = each (str ''filter'') fn True v"

subsection \<open>Predicates over an array\<close>

fun all_from :: "('s, 'f) query \<Rightarrow> 'f val list \<Rightarrow> ('s, bool) eff" where
  "all_from fn [] = ret True"
| "all_from fn (el # els) = andthen (fn el) (\<lambda>r. case r of
     Boolean b \<Rightarrow> if b then all_from fn els else ret False
   | _ \<Rightarrow> throw (str ''all: expected a boolean result, got '' @ type_name r))"

definition all_value :: "('s, 'f) query \<Rightarrow> 'f val \<Rightarrow> ('s, 'f val) eff" where
  "all_value fn v = andthen (lift (want_array v)) (\<lambda>a. andthen (all_from fn a) (\<lambda>b. ret (Boolean (b \<and> a \<noteq> []))))"

fun any_from :: "('s, 'f) query \<Rightarrow> 'f val list \<Rightarrow> ('s, bool) eff" where
  "any_from fn [] = ret False"
| "any_from fn (el # els) = andthen (fn el) (\<lambda>r. case r of
     Boolean b \<Rightarrow> if b then ret True else any_from fn els
   | _ \<Rightarrow> throw (str ''any: expected a boolean result, got '' @ type_name r))"

definition any_value :: "('s, 'f) query \<Rightarrow> 'f val \<Rightarrow> ('s, 'f val) eff" where
  "any_value fn v = andthen (lift (want_array v)) (\<lambda>a. andthen (any_from fn a) (\<lambda>b. ret (Boolean b)))"

fun find_by_from :: "('s, 'f) query \<Rightarrow> nat \<Rightarrow> 'f val list \<Rightarrow> ('s, i64) eff" where
  "find_by_from fn i [] = ret (- 1)"
| "find_by_from fn i (el # els) = andthen (fn el) (\<lambda>r.
     if is_true r then ret (of_nat i) else find_by_from fn (i + 1) els)"

definition find_by :: "('s, 'f) query \<Rightarrow> 'f val \<Rightarrow> ('s, 'f val) eff" where
  "find_by fn v = andthen (lift (want_array v)) (\<lambda>a. andthen (find_by_from fn 0 a) (\<lambda>i. ret (I64 i)))"

definition find_all_by :: "('s, 'f) query \<Rightarrow> 'f val \<Rightarrow> ('s, 'f val) eff" where
  "find_all_by fn v = andthen (lift (want_array v)) (\<lambda>a.
     andthen (each_do (\<lambda>(i, el). andthen (fn el) (\<lambda>r. ret (if is_true r then [I64 (of_nat i)] else []))) (zip [0..<length a] a))
       (\<lambda>hits. ret (Array (concat hits))))"

subsection \<open>Sorting\<close>

text \<open>
  \<open>sort_by\<close> is \<open>std::stable_sort\<close> on keys made once for each element.  Its comparison throws on two
  keys that are not both numbers or both strings; with two or more elements every order needs such
  a comparison unless all keys are of one kind.
\<close>

definition key_less :: "'f floats \<Rightarrow> 'f val \<times> 'f val \<Rightarrow> 'f val \<times> 'f val \<Rightarrow> bool" where
  "key_less F x y = (if is_number (fst x) \<and> is_number (fst y) then fl_less F (num_of F (fst x)) (num_of F (fst y))
     else text_of (fst x) < text_of (fst y))"

definition sort_by :: "'f floats \<Rightarrow> ('s, 'f) query \<Rightarrow> 'f val \<Rightarrow> ('s, 'f val) eff" where
  "sort_by F fn v = andthen (lift (want_array v)) (\<lambda>a. andthen (each_do fn a) (\<lambda>ks.
     if length a \<le> 1 \<or> list_all is_number ks \<or> list_all is_stringy ks
     then ret (Array (map snd (stable_sort (key_less F) (zip ks a))))
     else throw (str ''sort_by requires every key to be a string or a number'')))"

text \<open>The merge sort of \<open>sort\<close>: runs of \<open>width\<close> are merged into runs of twice the width.\<close>

function merge_runs :: "('a \<Rightarrow> 'a \<Rightarrow> ('s, bool) eff) \<Rightarrow> 'a list \<Rightarrow> 'a list \<Rightarrow> ('s, 'a list) eff" where
  "merge_runs lt [] ys = ret ys"
| "merge_runs lt (x # xs) [] = ret (x # xs)"
| "merge_runs lt (x # xs) (y # ys) = andthen (lt y x) (\<lambda>b.
     if b then andthen (merge_runs lt (x # xs) ys) (\<lambda>zs. ret (y # zs))
     else andthen (merge_runs lt xs (y # ys)) (\<lambda>zs. ret (x # zs)))"
  by pat_completeness auto
termination by (relation "measure (\<lambda>(_, xs, ys). length xs + length ys)") auto

function merge_pass :: "('a \<Rightarrow> 'a \<Rightarrow> ('s, bool) eff) \<Rightarrow> nat \<Rightarrow> 'a list \<Rightarrow> ('s, 'a list) eff" where
  "merge_pass lt width a =
     (if a = [] \<or> width = 0 then ret []
      else andthen (merge_runs lt (take width a) (take width (drop width a)))
        (\<lambda>run. andthen (merge_pass lt width (drop (2 * width) a)) (\<lambda>rest. ret (run @ rest))))"
  by pat_completeness auto
termination by (relation "measure (\<lambda>(_, _, a). length a)") auto

declare merge_pass.simps [simp del]

function merge_widths :: "('a \<Rightarrow> 'a \<Rightarrow> ('s, bool) eff) \<Rightarrow> nat \<Rightarrow> 'a list \<Rightarrow> nat \<Rightarrow> ('s, 'a list) eff" where
  "merge_widths lt n a width =
     (if n \<le> width \<or> width = 0 then ret a
      else andthen (merge_pass lt width a) (\<lambda>b. merge_widths lt n b (2 * width)))"
  by pat_completeness auto
termination by (relation "measure (\<lambda>(_, n, _, width). n - width)") auto

declare merge_widths.simps [simp del]

definition merge_sort :: "('a \<Rightarrow> 'a \<Rightarrow> ('s, bool) eff) \<Rightarrow> 'a list \<Rightarrow> ('s, 'a list) eff" where
  "merge_sort lt a = (if length a < 2 then ret a else merge_widths lt (length a) a 1)"

definition query_less :: "('s, 'f) query \<Rightarrow> 'f val \<Rightarrow> 'f val \<Rightarrow> ('s, bool) eff" where
  "query_less fn l r =
     andthen (fn (set_field (str ''right'') r (set_field (str ''left'') l (Object [])))) (\<lambda>res.
       case res of Boolean b \<Rightarrow> ret b | _ \<Rightarrow> throw (str ''sort: the comparison must yield a boolean''))"

definition sort_with :: "('s, 'f) query \<Rightarrow> 'f val \<Rightarrow> ('s, 'f val) eff" where
  "sort_with fn v = andthen (lift (want_array v)) (\<lambda>a. andthen (merge_sort (query_less fn) a) (\<lambda>b. ret (Array b)))"

subsection \<open>Keys and folds\<close>

fun unique_keys :: "'f floats \<Rightarrow> ('s, 'f) query \<Rightarrow> 'f val list \<Rightarrow> 'f val list \<Rightarrow> ('s, 'f val list) eff" where
  "unique_keys F fn keys [] = ret []"
| "unique_keys F fn keys (el # els) = andthen (fn el) (\<lambda>k.
     if \<exists>prev \<in> set keys. value_eq F prev k then unique_keys F fn keys els
     else andthen (unique_keys F fn (keys @ [k]) els) (\<lambda>out. ret (el # out)))"

definition unique_by :: "'f floats \<Rightarrow> ('s, 'f) query \<Rightarrow> 'f val \<Rightarrow> ('s, 'f val) eff" where
  "unique_by F fn v = andthen (lift (want_array v)) (\<lambda>a. andthen (unique_keys F fn [] a) (\<lambda>out. ret (Array out)))"

fun rekey :: "('s, 'f) query \<Rightarrow> (bytes \<times> 'f val) list \<Rightarrow> 'f val \<Rightarrow> ('s, 'f val) eff" where
  "rekey fn [] out = ret out"
| "rekey fn ((k, el) # e) out = andthen (fn (Str k)) (\<lambda>nk. case nk of
     Nothing \<Rightarrow> rekey fn e (set_field k el out)
   | Str s \<Rightarrow> rekey fn e (set_field s el out)
   | _ \<Rightarrow> throw (str ''unexpected result from key mapping: expected string, got '' @ type_name nk))"

definition map_each_key :: "('s, 'f) query \<Rightarrow> 'f val \<Rightarrow> ('s, 'f val) eff" where
  "map_each_key fn v = andthen (lift (want_object v)) (\<lambda>e. rekey fn e (Object []))"

fun fold_from :: "('s, 'f) query \<Rightarrow> 'f val \<Rightarrow> 'f val list \<Rightarrow> ('s, 'f val) eff" where
  "fold_from fn tally [] = ret tally"
| "fold_from fn tally (el # els) =
     andthen (fn (set_field (str ''value'') el (set_field (str ''tally'') tally (Object [])))) (\<lambda>t. fold_from fn t els)"

definition fold_value :: "('s, 'f) query \<Rightarrow> 'f val \<Rightarrow> 'f val \<Rightarrow> ('s, 'f val) eff" where
  "fold_value fn initial v = andthen (lift (want_array v)) (fold_from fn initial)"

text \<open>The dispatch of \<open>call_lambda_method\<close>, and which methods take a query, where, and whether they must.\<close>

definition find_lambda_method :: "bytes \<Rightarrow> (nat \<times> bool) option" where
  "find_lambda_method name =
     (if name \<in> set (map str [''map_each'', ''filter'', ''all'', ''any'', ''find_by'', ''find_all_by'', ''sort_by'', ''map_each_key''])
      then Some (0, False)
      else if name = str ''fold'' then Some (1, False)
      else if name = str ''sort'' \<or> name = str ''unique'' then Some (0, True)
      else None)"

definition call_lambda_method :: "'f floats \<Rightarrow> bytes \<Rightarrow> 'f val \<Rightarrow> 'f val \<Rightarrow> ('s, 'f) query \<Rightarrow> ('s, 'f val) eff" where
  "call_lambda_method F name target initial fn =
     (if name = str ''map_each'' then map_each fn target
      else if name = str ''filter'' then filter_value fn target
      else if name = str ''all'' then all_value fn target
      else if name = str ''any'' then any_value fn target
      else if name = str ''find_by'' then find_by fn target
      else if name = str ''find_all_by'' then find_all_by fn target
      else if name = str ''sort_by'' then sort_by F fn target
      else if name = str ''map_each_key'' then map_each_key fn target
      else if name = str ''fold'' then fold_value fn initial target
      else if name = str ''sort'' then sort_with fn target
      else if name = str ''unique'' then unique_by F fn target
      else throw (str ''unknown lambda method: '' @ name))"

section \<open>Sorting with an arbitrary query\<close>

lemma merge_runs_mset: "yields (\<lambda>zs. mset zs = mset xs + mset ys) (merge_runs lt xs ys)"
proof (induction lt xs ys rule: merge_runs.induct)
  case (3 lt x xs y ys)
  have "yields (\<lambda>zs. mset zs = mset (x # xs) + mset (y # ys))
      (if b then andthen (merge_runs lt (x # xs) ys) (\<lambda>zs. ret (y # zs))
       else andthen (merge_runs lt xs (y # ys)) (\<lambda>zs. ret (x # zs)))" for b
  proof (cases b)
    case True
    have "yields (\<lambda>zs. mset zs = mset (x # xs) + mset (y # ys)) (andthen (merge_runs lt (x # xs) ys) (\<lambda>zs. ret (y # zs)))"
      by (rule yields_andthen [OF 3(1) [OF True]]) simp
    then show ?thesis using True by simp
  next
    case False
    have "yields (\<lambda>zs. mset zs = mset (x # xs) + mset (y # ys)) (andthen (merge_runs lt xs (y # ys)) (\<lambda>zs. ret (x # zs)))"
      by (rule yields_andthen [OF 3(2) [OF False]]) simp
    then show ?thesis using False by simp
  qed
  then show ?case unfolding merge_runs.simps by (rule yields_andthen [OF yields_any])
qed simp_all

lemma runs_split: "a = take n a @ take n (drop n a) @ drop (2 * n) a"
  by (metis append_take_drop_id drop_drop mult_2)

lemma merge_pass_mset: "0 < width \<Longrightarrow> yields (\<lambda>b. mset b = mset a) (merge_pass lt width a)"
proof (induction lt width a rule: merge_pass.induct)
  case (1 lt width a)
  show ?case
  proof (cases "a = []")
    case False
    then have c: "\<not> (a = [] \<or> width = 0)" using 1 by simp
    have "mset (take width a) + mset (take width (drop width a)) + mset (drop (2 * width) a) = mset a"
      by (metis runs_split mset_append add.assoc)
    then have last: "yields (\<lambda>b. mset b = mset a) (andthen (merge_pass lt width (drop (2 * width) a)) (\<lambda>rest. ret (run @ rest)))"
      if "mset run = mset (take width a) + mset (take width (drop width a))" for run
      by (intro yields_andthen [OF 1(1) [OF c 1(2)]]) (use that in simp)
    show ?thesis
      by (subst merge_pass.simps) (simp only: c if_False, rule yields_andthen [OF merge_runs_mset last])
  qed (simp add: merge_pass.simps)
qed

lemma merge_widths_mset: "yields (\<lambda>b. mset b = mset a) (merge_widths lt n a width)"
proof (induction lt n a width rule: merge_widths.induct)
  case (1 lt n a width)
  show ?case
  proof (cases "n \<le> width \<or> width = 0")
    case False
    have "yields (\<lambda>c. mset c = mset a) (merge_widths lt n b (2 * width))" if "mset b = mset a" for b
      using 1 [OF False, of b] that by simp
    then show ?thesis
      using False by (subst merge_widths.simps) (simp, rule yields_andthen [OF merge_pass_mset], simp_all)
  qed (subst merge_widths.simps, simp)
qed

text \<open>A comparison that answers: what it makes of two runs, of the runs of one width, of the whole.\<close>

definition compares :: "('a \<Rightarrow> 'a \<Rightarrow> ('s, bool) eff) \<Rightarrow> ('a \<Rightarrow> 'a \<Rightarrow> bool) \<Rightarrow> bool" where
  "compares lt p \<longleftrightarrow> (\<forall>x y. lt x y = ret (p x y)) \<and> (\<forall>x y. p x y \<longrightarrow> \<not> p y x) \<and> (\<forall>x y z. p x z \<longrightarrow> p x y \<or> p y z)"

abbreviation ordered :: "('a \<Rightarrow> 'a \<Rightarrow> bool) \<Rightarrow> 'a list \<Rightarrow> bool" where
  "ordered p \<equiv> sorted_wrt (\<lambda>x y. \<not> p y x)"

lemma merge_runs_sorts:
  assumes "compares lt p"
  shows "ordered p xs \<Longrightarrow> ordered p ys \<Longrightarrow> \<exists>zs. merge_runs lt xs ys = ret zs \<and> ordered p zs \<and> set zs = set xs \<union> set ys"
  using assms
proof (induction lt xs ys rule: merge_runs.induct)
  case (3 lt x xs y ys)
  have c: "lt y x = ret (p y x)" "\<And>x y. p x y \<Longrightarrow> \<not> p y x" "\<And>x y z. p x z \<Longrightarrow> p x y \<or> p y z"
    using 3(5) by (auto simp: compares_def)
  show ?case
  proof (cases "p y x")
    case True
    obtain zs where z: "merge_runs lt (x # xs) ys = ret zs" "ordered p zs" "set zs = set (x # xs) \<union> set ys"
      using 3(1) [OF TrueI 3(3) _ 3(5)] 3(4) by auto
    have "\<not> p z y" if m: "z \<in> set zs" for z
    proof -
      consider "z = x" | "z \<in> set xs" | "z \<in> set ys" using m z(3) by auto
      then show ?thesis
      proof cases
        case 1
        then show ?thesis using c(2) [OF True] by simp
      next
        case 2
        then have "\<not> p z x" using 3(3) by simp
        then show ?thesis using c(2) [OF True] c(3) [of z y x] by blast
      next
        case 3
        then show ?thesis using \<open>ordered p (y # ys)\<close> by simp
      qed
    qed
    then show ?thesis using True z by (intro exI [of _ "y # zs"]) (auto simp: c(1))
  next
    case False
    obtain zs where z: "merge_runs lt xs (y # ys) = ret zs" "ordered p zs" "set zs = set xs \<union> set (y # ys)"
      using 3(2) [of False] 3(3,4,5) by auto
    have "\<not> p z x" if m: "z \<in> set zs" for z
    proof -
      consider "z \<in> set xs" | "z = y" | "z \<in> set ys" using m z(3) by auto
      then show ?thesis
      proof cases
        case 1
        then show ?thesis using \<open>ordered p (x # xs)\<close> by simp
      next
        case 2
        then show ?thesis using False by simp
      next
        case 3
        then have "\<not> p z y" using \<open>ordered p (y # ys)\<close> by simp
        then show ?thesis using False c(3) [of z x y] by blast
      qed
    qed
    then show ?thesis using False z by (intro exI [of _ "x # zs"]) (auto simp: c(1))
  qed
qed (auto simp: exI [of _ "[]"])

text \<open>After a pass of one width the runs of twice the width are ordered.\<close>

function runs_ordered :: "('a \<Rightarrow> 'a \<Rightarrow> bool) \<Rightarrow> nat \<Rightarrow> 'a list \<Rightarrow> bool" where
  "runs_ordered p w a \<longleftrightarrow> (if a = [] \<or> w = 0 then True else ordered p (take w a) \<and> runs_ordered p w (drop w a))"
  by pat_completeness auto
termination by (relation "measure (\<lambda>(_, _, a). length a)") auto

declare runs_ordered.simps [simp del]

lemma runs_ordered_Nil [simp]: "runs_ordered p w []"
  by (simp add: runs_ordered.simps)

lemma runs_ordered_step: "0 < w \<Longrightarrow> runs_ordered p w a \<longleftrightarrow> ordered p (take w a) \<and> runs_ordered p w (drop w a)"
  by (cases "a = []") (simp_all add: runs_ordered.simps [of p w a])

lemma runs_ordered_one: "runs_ordered p 1 a"
proof (induction a)
  case (Cons x a)
  then show ?case using runs_ordered_step [of 1 p "x # a"] by simp
qed simp

lemma runs_ordered_whole: "length a \<le> w \<Longrightarrow> 0 < w \<Longrightarrow> runs_ordered p w a \<Longrightarrow> ordered p a"
  using runs_ordered_step [of w p a] by simp

lemma merge_pass_sorts:
  assumes "compares lt p"
  shows "0 < w \<Longrightarrow> runs_ordered p w a \<Longrightarrow>
    \<exists>b. merge_pass lt w a = ret b \<and> length b = length a \<and> runs_ordered p (2 * w) b"
  using assms
proof (induction lt w a rule: merge_pass.induct)
  case (1 lt w a)
  show ?case
  proof (cases "a = []")
    case False
    then have c: "\<not> (a = [] \<or> w = 0)" using 1 by simp
    have o: "ordered p (take w a)" "ordered p (take w (drop w a))" "runs_ordered p w (drop (2 * w) a)"
      using 1(2,3) runs_ordered_step [of w p a] runs_ordered_step [of w p "drop w a"]
      by (simp_all add: mult_2 add.commute)
    obtain run where run: "merge_runs lt (take w a) (take w (drop w a)) = ret run" "ordered p run"
      using merge_runs_sorts [OF 1(4) o(1,2)] by blast
    have "mset run = mset (take w a) + mset (take w (drop w a))"
      using yieldsD [OF merge_runs_mset, of lt "take w a" "take w (drop w a)"] run(1) by (simp add: ret_def)
    then have len: "length run = min (2 * w) (length a)"
      by (metis length_append mset_append mset_eq_length take_add length_take mult_2 min.commute)
    obtain rest where rest: "merge_pass lt w (drop (2 * w) a) = ret rest" "length rest = length a - 2 * w"
        "runs_ordered p (2 * w) rest"
      using 1(1) [OF c 1(2) o(3) 1(4)] by auto
    have "runs_ordered p (2 * w) (run @ rest)"
    proof (cases "2 * w \<le> length a")
      case True
      then show ?thesis using len run(2) rest(3) 1(2) by (subst runs_ordered_step) simp_all
    next
      case False
      then show ?thesis using len run(2) rest(2) 1(2) by (subst runs_ordered_step) simp_all
    qed
    moreover have "merge_pass lt w a = ret (run @ rest)"
      using c run(1) rest(1) by (subst merge_pass.simps) simp
    ultimately show ?thesis using len rest(2) by (intro exI [of _ "run @ rest"]) simp
  qed (simp add: merge_pass.simps)
qed

lemma merge_widths_sorts:
  assumes "compares lt p"
  shows "0 < w \<Longrightarrow> n = length a \<Longrightarrow> runs_ordered p w a \<Longrightarrow> \<exists>b. merge_widths lt n a w = ret b \<and> ordered p b"
  using assms
proof (induction lt n a w rule: merge_widths.induct)
  case (1 lt n a w)
  show ?case
  proof (cases "n \<le> w \<or> w = 0")
    case False
    obtain b where b: "merge_pass lt w a = ret b" "length b = length a" "runs_ordered p (2 * w) b"
      using merge_pass_sorts [OF 1(5) 1(2) 1(4)] by blast
    then obtain c where "merge_widths lt n b (2 * w) = ret c" "ordered p c"
      using 1(1) [OF False, of b] 1(2,3,5) by auto
    then have "merge_widths lt n a w = ret c" using False b(1) by (subst merge_widths.simps) simp
    then show ?thesis using \<open>ordered p c\<close> by blast
  next
    case True
    then have "merge_widths lt n a w = ret a" by (subst merge_widths.simps) simp
    moreover have "ordered p a" using 1(2,3,4) True runs_ordered_whole by auto
    ultimately show ?thesis by blast
  qed
qed

text \<open>C31: \<open>sort\<close> with a query is safe whatever the query answers: if every comparison answers with a boolean the result
  holds exactly the elements of the array, each as often, even when the answers contradict each other; and when the
  query compares by a strict weak order it returns, with no element before one that is less.\<close>

theorem sort_with_a_query:
  "(\<forall>b t. merge_sort lt a s = (Inr b, t) \<longrightarrow> mset b = mset a) \<and>
   (compares lt p \<longrightarrow> (\<exists>b. merge_sort lt a = ret b \<and> ordered p b))"
proof (intro conjI allI impI)
  have "yields (\<lambda>b. mset b = mset a) (merge_sort lt a)"
    using merge_widths_mset [of a lt "length a" 1] by (simp add: merge_sort_def)
  then show "mset b = mset a" if "merge_sort lt a s = (Inr b, t)" for b t
    using that by (rule yieldsD)
  have "ordered p a" if "length a < 2" using that by (cases a) auto
  then show "\<exists>b. merge_sort lt a = ret b \<and> ordered p b" if "compares lt p"
    using merge_widths_sorts [OF that _ refl runs_ordered_one, of a] by (cases "length a < 2") (auto simp: merge_sort_def)
qed

definition by_number :: "(nat, int) query" where
  "by_number pair n = (case (find_field (str ''left'') pair, find_field (str ''right'') pair) of
     (Some (I64 l), Some (I64 r)) \<Rightarrow> (Inr (Boolean (l < r)), n + 1) | _ \<Rightarrow> (Inr Null, n))"

lemma sort_with_a_query_witness:
  "fst (sort_with by_number (Array [I64 3, I64 1]) 0) = Inr (Array [I64 1, I64 3]) \<and>
   (\<exists>b. merge_sort (\<lambda>x y. ret (x < y)) [3, 1, 2 :: nat] = (ret b :: (unit, nat list) eff) \<and> ordered (<) b)"
proof
  show "fst (sort_with by_number (Array [I64 3, I64 1]) 0) = Inr (Array [I64 1, I64 3])"
    by code_simp
  have "compares (\<lambda>x y. (ret (x < y) :: (unit, bool) eff)) ((<) :: nat \<Rightarrow> nat \<Rightarrow> bool)"
    by (auto simp: compares_def)
  then show "\<exists>b. merge_sort (\<lambda>x y. ret (x < y)) [3, 1, 2 :: nat] = (ret b :: (unit, nat list) eff) \<and> ordered (<) b"
    using sort_with_a_query [of "\<lambda>x y. ret (x < y)" "[3, 1, 2]" "()" "(<)"] by blast
qed

end
