(* ===== verification/Runtime.thy ===== *)
theory Runtime
  imports Messages Queries
begin

text \<open>
  The context a mapping runs in and the operations both backends share: \<open>runtime.hh\<close>, \<open>runtime.cc\<close> and the
  context functions of \<open>functions.cc\<close>.  A pointer that may be null is an option, a \<open>std::map\<close> an
  ordered map.  A mapping is an effect over the context.  The generator behind \<open>random_int\<close> is a
  parameter, with its seeding and its draw.
\<close>

section \<open>The context\<close>

record ('f, 'r) ctx =
  this_v :: "'f val option"
  root_init :: "'f val option"
  out_meta :: "(bytes, 'f val) omap option"
  meta_in :: "(bytes, 'f val) omap option"
  vars :: "(bytes, 'f val) omap"
  tallies :: "(bytes, i64) omap"
  rngs :: "(bytes, 'r) omap"
  cur_msg :: "'f msg option"
  all_msgs :: "'f msg list option"
  batch_index :: i64
  batch_size :: i64
  apply_depth :: nat

type_synonym ('f, 'r, 'a) ev = "(('f, 'r) ctx, 'a) eff"
type_synonym ('f, 'r) mapping_fn = "('f, 'r, 'f val) ev"

definition max_apply_depth :: nat where
  "max_apply_depth = 64"

definition new_ctx :: "('f, 'r) ctx" where
  "new_ctx = \<lparr>this_v = None, root_init = None, out_meta = None, meta_in = None, vars = [], tallies = [], rngs = [],
     cur_msg = None, all_msgs = None, batch_index = 0, batch_size = 1, apply_depth = 0\<rparr>"

text \<open>\<open>ctx_scope\<close>: the pointers into a batch do not outlive the call that set them.\<close>

definition forget_pointers :: "('f, 'r) ctx \<Rightarrow> ('f, 'r) ctx" where
  "forget_pointers c = c\<lparr>all_msgs := None, cur_msg := None, this_v := None, out_meta := None, meta_in := None, root_init := None\<rparr>"

definition message_of :: "bytes \<Rightarrow> ('f, 'r, 'f msg) ev" where
  "message_of name = reads (\<lambda>c. case cur_msg c of
     None \<Rightarrow> Inl (Eval_error (name @ str ''() requires a message'')) | Some m \<Rightarrow> Inr m)"

definition self :: "('f, 'r, 'f val) ev" where
  "self = reads (\<lambda>c. case this_v c of
     None \<Rightarrow> Inl (Eval_error (str ''message could not be parsed as structured data'')) | Some v \<Rightarrow> Inr v)"

definition no_metadata :: eval_error where
  "no_metadata = Eval_error (str ''no metadata is available in this context'')"

definition meta_set :: "bytes \<Rightarrow> 'f val \<Rightarrow> ('f, 'r, unit) ev" where
  "meta_set key v c = (case out_meta c of
     None \<Rightarrow> (Inl no_metadata, c)
   | Some m \<Rightarrow> (Inr (), c\<lparr>out_meta := Some (case v of Deleted \<Rightarrow> om_remove key m | _ \<Rightarrow> om_set key v m)\<rparr>))"

definition entry_or_null :: "(bytes, 'f val) omap \<Rightarrow> bytes \<Rightarrow> 'f val" where
  "entry_or_null m key = (case om_find m key of Some v \<Rightarrow> v | None \<Rightarrow> Null)"

definition as_value :: "(bytes, 'f val) omap \<Rightarrow> 'f val" where
  "as_value m = fold (\<lambda>(k, v). set_field k v) m (Object [])"

definition meta_get :: "bytes \<Rightarrow> ('f, 'r, 'f val) ev" where
  "meta_get key = reads (\<lambda>c. case meta_in c of None \<Rightarrow> Inl no_metadata | Some m \<Rightarrow> Inr (entry_or_null m key))"

definition meta_all :: "('f, 'r, 'f val) ev" where
  "meta_all = reads (\<lambda>c. case meta_in c of None \<Rightarrow> Inl no_metadata | Some m \<Rightarrow> Inr (as_value m))"

definition get_var :: "bytes \<Rightarrow> ('f, 'r, 'f val) ev" where
  "get_var n = reads (\<lambda>c. case om_find (vars c) n of
     None \<Rightarrow> Inl (Eval_error (str ''variable not found: '' @ n)) | Some v \<Rightarrow> Inr v)"

section \<open>Fields and paths\<close>

text \<open>A segment of digits indexes an array; the index is given up as soon as it passes the end.\<close>

fun digits_below :: "nat \<Rightarrow> nat \<Rightarrow> bytes \<Rightarrow> nat option" where
  "digits_below n i [] = Some i"
| "digits_below n i (c # cs) =
     (let i' = i * 10 + (unat c - 48) in if i' \<ge> n then None else digits_below n i' cs)"

definition read_field :: "'f val \<Rightarrow> bytes \<Rightarrow> 'f val" where
  "read_field v key =
     (case v of
        Array a \<Rightarrow>
          if key = [] \<or> \<not> list_all is_digit key then Null
          else (case digits_below (length a) 0 key of None \<Rightarrow> Null | Some i \<Rightarrow> a ! i)
      | Object e \<Rightarrow> (case find_field key v of None \<Rightarrow> Null | Some f \<Rightarrow> f)
      | _ \<Rightarrow> Null)"

definition index_value :: "'f floats \<Rightarrow> 'f val \<Rightarrow> 'f val \<Rightarrow> 'f result" where
  "index_value F v idx = rbind (as_array v) (\<lambda>a. rbind (as_i64 F idx) (\<lambda>i.
     let j = norm_index i (length a)
     in if sint j < 0 \<or> sint j \<ge> int (length a) then Inl (Eval_error (str ''array index out of bounds''))
        else Inr (a ! nat (sint j))))"

primrec assign_path :: "bytes list \<Rightarrow> 'f val \<Rightarrow> 'f val \<Rightarrow> 'f val" where
  "assign_path [] v root = v"
| "assign_path (k # ks) v root =
     set_field k (assign_path ks v (case find_field k root of Some child \<Rightarrow> child | None \<Rightarrow> Object [])) root"

section \<open>Functions that read the message\<close>

definition fn_content :: "'f floats \<Rightarrow> ('f, 'r, 'f val) ev" where
  "fn_content F = andthen (message_of (str ''content'')) (\<lambda>m. ret (Bytes (bytes_of F m)))"

definition fn_json :: "'f floats \<Rightarrow> 'f parser \<Rightarrow> 'f val \<Rightarrow> ('f, 'r, 'f val) ev" where
  "fn_json F parse path = andthen (message_of (str ''json'')) (\<lambda>m. andthen (lift (value_of F parse m)) (\<lambda>root.
     let p = (case path of Str s \<Rightarrow> s | _ \<Rightarrow> [])
     in ret (if p = [] then root else case walk_path root (path_keys p) of None \<Rightarrow> Null | Some v \<Rightarrow> v)))"

definition fn_error :: "('f, 'r, 'f val) ev" where
  "fn_error = andthen (message_of (str ''error'')) (\<lambda>m. ret (if has_error m then Str (msg_error m) else Null))"

definition fn_errored :: "('f, 'r, 'f val) ev" where
  "fn_errored = andthen (message_of (str ''errored'')) (\<lambda>m. ret (Boolean (has_error m)))"

definition fn_error_source :: "bytes \<Rightarrow> (error_source \<Rightarrow> bytes) \<Rightarrow> ('f, 'r, 'f val) ev" where
  "fn_error_source name part = andthen (message_of name) (\<lambda>m.
     ret (if \<not> has_error m then Null else Str (part (error_source_of m))))"

definition fn_batch_index :: "('f, 'r, 'f val) ev" where
  "fn_batch_index = reads (\<lambda>c. Inr (I64 (batch_index c)))"

definition fn_batch_size :: "('f, 'r, 'f val) ev" where
  "fn_batch_size = reads (\<lambda>c. Inr (I64 (batch_size c)))"

definition fn_root_meta :: "'f val \<Rightarrow> ('f, 'r, 'f val) ev" where
  "fn_root_meta key = reads (\<lambda>c. case out_meta c of
     None \<Rightarrow> Inl no_metadata
   | Some m \<Rightarrow> Inr (if is_stringy key \<and> text_of key \<noteq> [] then entry_or_null m (text_of key) else as_value m))"

section \<open>Counters and random numbers\<close>

text \<open>
  A counter of a call site: absent (\<open>nothing\<close>) counts on, a deletion starts over, null reads, a number
  sets.  The first call finds the counter at its minimum.  \<open>++\<close> on the largest integer is undefined in
  the code; it wraps here.
\<close>

definition fn_counter :: "'f floats \<Rightarrow> bytes \<Rightarrow> i64 \<Rightarrow> i64 \<Rightarrow> 'f val \<Rightarrow> ('f, 'r, 'f val) ev" where
  "fn_counter F site lo hi set' c =
     (let first = (om_find (tallies c) site = None);
          now = (case om_find (tallies c) site of None \<Rightarrow> lo | Some i \<Rightarrow> i);
          i = (if set' = Deleted then lo
               else if set' = Null then now
               else case as_i64 F set' of
                 Inr j \<Rightarrow> j
               | Inl _ \<Rightarrow> if first then now else if sint (now + 1) > sint hi then lo else now + 1)
      in (Inr (I64 i), c\<lparr>tallies := om_set site i (tallies c)\<rparr>))"

definition fn_count :: "'f floats \<Rightarrow> 'f val \<Rightarrow> ('f, 'r, 'f val) ev" where
  "fn_count F name c =
     (let key = str ''count/'' @ (if is_stringy name then text_of name else to_json F name);
          i = (case om_find (tallies c) key of None \<Rightarrow> 0 | Some i \<Rightarrow> i) + 1
      in (Inr (I64 i), c\<lparr>tallies := om_set key i (tallies c)\<rparr>))"

record 'r generator =
  gen_seed :: "i64 \<Rightarrow> 'r"
  gen_draw :: "'r \<Rightarrow> i64 \<times> 'r"

definition fn_random_int :: "'f floats \<Rightarrow> 'r generator \<Rightarrow> bytes \<Rightarrow> 'f val \<Rightarrow> i64 \<Rightarrow> i64 \<Rightarrow> ('f, 'r, 'f val) ev" where
  "fn_random_int F G site seed lo hi c =
     (if sint lo > sint hi then (Inl (Eval_error (str ''random_int: min must not exceed max'')), c)
      else let g = (case om_find (rngs c) site of
                 Some g \<Rightarrow> g
               | None \<Rightarrow> gen_seed G (case as_i64 F seed of Inr s \<Rightarrow> s | Inl _ \<Rightarrow> 0));
               span = hi - lo;
               (x, g') = gen_draw G g
           in (Inr (I64 (if span = - 1 then x else lo + x mod (span + 1))), c\<lparr>rngs := om_set site g' (rngs c)\<rparr>))"

section \<open>Functions without a context\<close>

definition fn_throw :: "'f floats \<Rightarrow> 'f val \<Rightarrow> 'f result" where
  "fn_throw F why = Inl (Eval_error (case why of Str s \<Rightarrow> s | _ \<Rightarrow> to_json F why))"

definition opt_int :: "'f floats \<Rightarrow> 'f val \<Rightarrow> i64 \<Rightarrow> i64" where
  "opt_int F v dflt = (case as_i64 F v of Inr i \<Rightarrow> i | Inl _ \<Rightarrow> dflt)"

definition fn_range :: "'f floats \<Rightarrow> 'f val \<Rightarrow> 'f val \<Rightarrow> 'f val \<Rightarrow> 'f result" where
  "fn_range F start stop step =
     (let a = opt_int F start 0; b = opt_int F stop 0; s = opt_int F step 1;
          mag = (if sint s > 0 then s else 0 - s)
      in if mag = 0 then Inl (Eval_error (str ''range step must be greater than or less than 0''))
         else if sint s < 0 \<and> sint b > sint a
         then Inl (Eval_error (str ''with negative step arg stop must be <= start''))
         else if sint s > 0 \<and> sint a \<ge> sint b
         then Inl (Eval_error (str ''with positive step arg start must be < stop''))
         else let span = (if sint s > 0 then b - a else a - b)
              in Inr (Array (map (\<lambda>i. I64 (a + s * of_nat i)) [0..<unat (span div mag)])))"

definition fn_env :: "(bytes \<Rightarrow> bytes option) \<Rightarrow> 'f val \<Rightarrow> 'f result" where
  "fn_env environ name = rbind (as_string name) (\<lambda>n.
     Inr (case environ (takeWhile (\<lambda>b. b \<noteq> 0) n) of None \<Rightarrow> Null | Some s \<Rightarrow> Str s))"

section \<open>Control\<close>

text \<open>\<open>|\<close> and \<open>.or()\<close>: the right side runs when the left is absent or fails.\<close>

definition coalesce_lazy :: "('f, 'r, 'f val) ev \<Rightarrow> ('f, 'r, 'f val) ev \<Rightarrow> ('f, 'r, 'f val) ev" where
  "coalesce_lazy l r =
     andthen (rescue (andthen l (\<lambda>v. ret (case v of Null \<Rightarrow> None | Nothing \<Rightarrow> None | _ \<Rightarrow> Some v))) (\<lambda>_. ret None))
       (\<lambda>o'. case o' of Some v \<Rightarrow> ret v | None \<Rightarrow> r)"

definition catch_or :: "('f, 'r, 'f val) ev \<Rightarrow> ('f val \<Rightarrow> ('f, 'r, 'f val) ev) \<Rightarrow> ('f, 'r, 'f val) ev" where
  "catch_or t d = rescue t (\<lambda>e. d (Str (what e)))"

definition coerce_or :: "('f, 'r, 'f val) ev \<Rightarrow> ('f, 'r, 'f val) ev \<Rightarrow> ('f, 'r, 'f val) ev" where
  "coerce_or t d = rescue t (\<lambda>_. d)"

text \<open>\<open>scoped_var\<close>: the variable is put back exactly as it was, unbound included.\<close>

definition bind_var :: "bytes \<Rightarrow> 'f val \<Rightarrow> ('f, 'r) ctx \<Rightarrow> ('f, 'r) ctx" where
  "bind_var p v c = c\<lparr>vars := om_set p v (vars c)\<rparr>"

definition restore_var :: "bytes \<Rightarrow> ('f, 'r) ctx \<Rightarrow> ('f, 'r) ctx \<Rightarrow> ('f, 'r) ctx" where
  "restore_var p before c = c\<lparr>vars := (case om_find (vars before) p of
     Some v \<Rightarrow> om_set p v (vars c) | None \<Rightarrow> om_remove p (vars c))\<rparr>"

definition scoped_var :: "bytes \<Rightarrow> 'f val \<Rightarrow> ('f, 'r, 'a) ev \<Rightarrow> ('f, 'r, 'a) ev" where
  "scoped_var p v = bracket (bind_var p v) (restore_var p)"

definition with_this :: "'f val \<Rightarrow> ('f, 'r, 'a) ev \<Rightarrow> ('f, 'r, 'a) ev" where
  "with_this v = bracket (\<lambda>c. c\<lparr>this_v := Some v\<rparr>) (\<lambda>b c. c\<lparr>this_v := this_v b\<rparr>)"

text \<open>The rebinding of \<open>from_all\<close> and \<open>from\<close> leaves \<open>this\<close> alone.\<close>

definition at_message :: "'f msg \<Rightarrow> nat \<Rightarrow> ('f, 'r) ctx \<Rightarrow> ('f, 'r) ctx" where
  "at_message m i c = c\<lparr>cur_msg := Some m, meta_in := Some (meta (content m)), batch_index := of_nat i\<rparr>"

definition back_to_message :: "('f, 'r) ctx \<Rightarrow> ('f, 'r) ctx \<Rightarrow> ('f, 'r) ctx" where
  "back_to_message b c = c\<lparr>cur_msg := cur_msg b, meta_in := meta_in b, batch_index := batch_index b\<rparr>"

definition eval_from_all :: "('f, 'r, 'f val) ev \<Rightarrow> ('f, 'r, 'f val) ev" where
  "eval_from_all f c = (case all_msgs c of
     None \<Rightarrow> throw (str ''from_all requires a batch context'') c
   | Some ms \<Rightarrow> bracket (\<lambda>c. c) back_to_message
       (andthen (each_do (\<lambda>(i, m) c. f (at_message m i c)) (zip [0..<length ms] ms)) (\<lambda>out. ret (Array out))) c)"

definition eval_from :: "i64 \<Rightarrow> ('f, 'r, 'f val) ev \<Rightarrow> ('f, 'r, 'f val) ev" where
  "eval_from idx f c = (case all_msgs c of
     None \<Rightarrow> throw (str ''from requires a batch context'') c
   | Some ms \<Rightarrow>
       if sint idx < 0 \<or> sint idx \<ge> int (length ms)
       then throw (str ''from('' @ decimal_int (sint idx) @ str '') is outside a batch of '' @ decimal (length ms)) c
       else bracket (at_message (ms ! nat (sint idx)) (nat (sint idx))) back_to_message f c)"

definition apply_map :: "'f val \<Rightarrow> ('f, 'r, 'f val) ev \<Rightarrow> ('f, 'r, 'f val) ev" where
  "apply_map target f c =
     (if apply_depth c \<ge> max_apply_depth
      then throw (str ''apply: maps are nested too deeply (a map applying itself?)'') c
      else bracket (\<lambda>c. c\<lparr>vars := [], this_v := Some target, apply_depth := apply_depth c + 1\<rparr>)
        (\<lambda>b c. c\<lparr>apply_depth := apply_depth c - 1, this_v := this_v b, vars := vars b\<rparr>) f c)"

definition object_key :: "'f val \<Rightarrow> eval_error + bytes" where
  "object_key v = (if is_stringy v then Inr (text_of v)
     else Inl (Eval_error (str ''an object key must be a string, got '' @ type_name v)))"

text \<open>\<open>attach_source\<close>: a type error learns where the offending value came from, once.\<close>

definition shown_value :: "'f floats \<Rightarrow> 'f val \<Rightarrow> bytes" where
  "shown_value F v =
     (case v of
        Boolean b \<Rightarrow> if b then str '' (true)'' else str '' (false)''
      | I64 _ \<Rightarrow> str '' ('' @ to_json F v @ str '')''
      | F64 _ \<Rightarrow> str '' ('' @ to_json F v @ str '')''
      | F32 _ \<Rightarrow> str '' ('' @ to_json F v @ str '')''
      | Raw_number _ \<Rightarrow> str '' ('' @ to_json F v @ str '')''
      | Str _ \<Rightarrow> str '' ('' @ to_json F v @ str '')''
      | _ \<Rightarrow> [])"

definition attach_source :: "'f floats \<Rightarrow> eval_error \<Rightarrow> bytes \<Rightarrow> bool \<Rightarrow> 'f val \<Rightarrow> eval_error" where
  "attach_source F e source has_value v =
     (case e of
        Eval_error s \<Rightarrow> Eval_error s
      | Type_error _ _ \<Rightarrow>
          if source = [] then Eval_error (what e)
          else Eval_error (what e @ str '' from '' @ source @ (if has_value then [] else shown_value F v)))"

end
