(* ===== verification/Interp.thy ===== *)
theory Interp
  imports Runtime
begin

text \<open>
  The tree of \<open>blobl/ast.hh\<close> and the interpreter of \<open>blobl/interp.cc\<close>, the semantic oracle of the mapping
  language.  The meaning of a node is an effect over the context; a lambda has no meaning as a
  value, but as an argument it names the parameter its body is applied to.  Maps may apply each
  other and themselves; the code counts the depth in the context and refuses the sixty-fifth level,
  and the levels of \<open>env_at\<close> follow that count.
\<close>

section \<open>The tree\<close>

type_synonym span = "nat \<times> nat"

datatype binop = B_mul | B_div | B_mod | B_coalesce | B_add | B_sub
  | B_eq | B_neq | B_lt | B_lte | B_gt | B_gte | B_and | B_or

datatype 'f node =
    Lit span "'f val"
  | This span
  | Var span bytes
  | Field span "'f node" bytes
  | Index span "'f node" "'f node"
  | Call span bytes "'f node list" "bytes list"
  | Method span "'f node" bytes "'f node list" "bytes list"
  | Lambda span bytes "'f node"
  | Binary span binop "'f node" "'f node"
  | Neg span "'f node"
  | Not span "'f node"
  | If span "'f node" "'f node" "'f node option"
  | Array_lit span "'f node list"
  | Object_lit span "('f node \<times> 'f node) list"
  | Match span "'f node option" "('f node option \<times> 'f node) list"

primrec span_of :: "'f node \<Rightarrow> span" where
  "span_of (Lit s _) = s"
| "span_of (This s) = s"
| "span_of (Var s _) = s"
| "span_of (Field s _ _) = s"
| "span_of (Index s _ _) = s"
| "span_of (Call s _ _ _) = s"
| "span_of (Method s _ _ _ _) = s"
| "span_of (Lambda s _ _) = s"
| "span_of (Binary s _ _ _) = s"
| "span_of (Neg s _) = s"
| "span_of (Not s _) = s"
| "span_of (If s _ _ _) = s"
| "span_of (Array_lit s _) = s"
| "span_of (Object_lit s _) = s"
| "span_of (Match s _ _) = s"

datatype target = Root | Root_path "bytes list" | To_var bytes | To_meta bytes

record 'f statement =
  st_target :: target
  st_expr :: "'f node"

record 'f mapping =
  statements :: "'f statement list"
  maps :: "(bytes \<times> 'f statement list) list"

definition find_map :: "bytes \<Rightarrow> 'f mapping \<Rightarrow> 'f statement list option" where
  "find_map name m = map_of (maps m) name"

text \<open>How an expression is named in a type error.\<close>

fun describe_path :: "'f node \<Rightarrow> bytes" where
  "describe_path (This _) = str ''this''"
| "describe_path (Field _ target key) =
     (let base = describe_path target in if base = [] then [] else base @ [0x2E] @ key)"
| "describe_path (Var _ name) = [0x24] @ name"
| "describe_path _ = []"

fun describe_source :: "'f floats \<Rightarrow> 'f node \<Rightarrow> bytes \<times> bool" where
  "describe_source F (Field _ target key) =
     (let base = describe_path target
      in if base = [] then ([], False) else (str ''field `'' @ base @ [0x2E] @ key @ str ''`'', False))"
| "describe_source F (This _) = (str ''field `this`'', False)"
| "describe_source F (Method _ _ name _ _) = (str ''method '' @ name, False)"
| "describe_source F (Call _ name _ _) = (str ''function '' @ name, False)"
| "describe_source F (Lit _ v) =
     (case v of Str _ \<Rightarrow> (str ''string literal ('' @ to_json F v @ str '')'', True) | _ \<Rightarrow> ([], False))"
| "describe_source F _ = ([], False)"

section \<open>What the interpreter calls\<close>

text \<open>
  The table-driven methods and functions and the regular-expression methods, whose results depend
  on their arguments only; the parser and the generator; and the map a name applies, at the level
  below.
\<close>

record ('f, 'r) library =
  lib_floats :: "'f floats"
  lib_parse :: "'f parser"
  lib_generator :: "'r generator"
  lib_functions :: "bytes \<Rightarrow> ('f val list \<Rightarrow> 'f result) option"
  lib_methods :: "bytes \<Rightarrow> ('f val \<Rightarrow> 'f val list \<Rightarrow> 'f result) option"
  lib_pattern :: "bytes \<Rightarrow> eval_error + unit"
  lib_regex :: "bytes \<Rightarrow> bytes \<Rightarrow> 'f val \<Rightarrow> 'f val option \<Rightarrow> 'f result"
  lib_number :: "'f val \<Rightarrow> 'f result"
  lib_bool :: "'f val \<Rightarrow> 'f result"

type_synonym ('f, 'r) apply_env = "bytes \<Rightarrow> ('f, 'r, 'f val) ev option"

text \<open>What a node means: its value, and for a lambda its parameter and the meaning of its body.\<close>

type_synonym ('f, 'r) meaning = "('f, 'r, 'f val) ev \<times> (bytes \<times> ('f, 'r, 'f val) ev) option"

definition is_regex_method :: "bytes \<Rightarrow> bool" where
  "is_regex_method name \<longleftrightarrow> name \<in> set (map str [''re_match'', ''re_replace_all'', ''re_replace'', ''re_find_all'',
     ''re_find_all_submatch'', ''re_find_object'', ''re_find_all_object''])"

section \<open>Operators and literals\<close>

definition apply_binop :: "'f floats \<Rightarrow> binop \<Rightarrow> 'f val \<Rightarrow> 'f val \<Rightarrow> 'f result" where
  "apply_binop F op' l r =
     (case op' of
        B_mul \<Rightarrow> num_mul F l r
      | B_div \<Rightarrow> num_div F l r
      | B_mod \<Rightarrow> num_mod F l r
      | B_add \<Rightarrow> num_add F l r
      | B_sub \<Rightarrow> num_sub F l r
      | B_eq \<Rightarrow> Inr (cmp_eq F l r)
      | B_neq \<Rightarrow> Inr (cmp_neq F l r)
      | B_lt \<Rightarrow> cmp_lt F l r
      | B_lte \<Rightarrow> cmp_lte F l r
      | B_gt \<Rightarrow> cmp_gt F l r
      | B_gte \<Rightarrow> cmp_gte F l r
      | _ \<Rightarrow> Inl (Eval_error (str ''unreachable binary op'')))"

definition eval_binary :: "'f floats \<Rightarrow> binop \<Rightarrow> ('f, 'r, 'f val) ev \<Rightarrow> ('f, 'r, 'f val) ev \<Rightarrow> ('f, 'r, 'f val) ev" where
  "eval_binary F op' l r =
     (if op' = B_and then andthen l (\<lambda>v. andthen (lift (truthy v)) (\<lambda>b.
        if \<not> b then ret (Boolean False) else andthen r (\<lambda>w. andthen (lift (truthy w)) (\<lambda>b. ret (Boolean b)))))
      else if op' = B_or then andthen l (\<lambda>v. andthen (lift (truthy v)) (\<lambda>b.
        if b then ret (Boolean True) else andthen r (\<lambda>w. andthen (lift (truthy w)) (\<lambda>b. ret (Boolean b)))))
      else if op' = B_coalesce then coalesce_lazy l r
      else andthen l (\<lambda>v. andthen r (\<lambda>w. lift (apply_binop F op' v w))))"

definition eval_index :: "'f floats \<Rightarrow> ('f, 'r, 'f val) ev \<Rightarrow> ('f, 'r, 'f val) ev \<Rightarrow> ('f, 'r, 'f val) ev" where
  "eval_index F target index = andthen target (\<lambda>t. andthen index (\<lambda>v. andthen (lift (as_i64 F v)) (\<lambda>i.
     lift (index_value F t (I64 i)))))"

definition eval_if :: "('f, 'r, 'f val) ev \<Rightarrow> ('f, 'r, 'f val) ev \<Rightarrow> ('f, 'r, 'f val) ev option \<Rightarrow> ('f, 'r, 'f val) ev" where
  "eval_if cond yes no = andthen cond (\<lambda>v. andthen (lift (truthy v)) (\<lambda>b.
     if b then yes else case no of None \<Rightarrow> ret Nothing | Some e \<Rightarrow> e))"

fun eval_cases :: "(('f, 'r, 'f val) ev option \<times> ('f, 'r, 'f val) ev) list \<Rightarrow> ('f, 'r, 'f val) ev" where
  "eval_cases [] = ret Nothing"
| "eval_cases ((cond, val) # cs) =
     (case cond of
        None \<Rightarrow> val
      | Some e \<Rightarrow> andthen e (\<lambda>c. if is_true c then val else eval_cases cs))"

definition eval_match :: "('f, 'r, 'f val) ev option \<Rightarrow> (('f, 'r, 'f val) ev option \<times> ('f, 'r, 'f val) ev) list \<Rightarrow> ('f, 'r, 'f val) ev" where
  "eval_match context cs =
     (case context of None \<Rightarrow> eval_cases cs | Some e \<Rightarrow> andthen e (\<lambda>v. with_this v (eval_cases cs)))"

fun eval_items :: "('f, 'r, 'f val) ev list \<Rightarrow> ('f, 'r, 'f val list) ev" where
  "eval_items [] = ret []"
| "eval_items (e # es) = andthen e (\<lambda>v. andthen (eval_items es) (\<lambda>vs. ret (if literal_omits v then vs else v # vs)))"

fun eval_entries :: "(('f, 'r, 'f val) ev \<times> ('f, 'r, 'f val) ev) list \<Rightarrow> 'f val \<Rightarrow> ('f, 'r, 'f val) ev" where
  "eval_entries [] out = ret out"
| "eval_entries ((key, val) # es) out = andthen key (\<lambda>k. andthen (lift (object_key k)) (\<lambda>s. andthen val (\<lambda>v.
     eval_entries es (if literal_omits v then out else set_field s v out))))"

section \<open>Calls\<close>

definition call_site :: "span \<Rightarrow> bytes" where
  "call_site s = decimal (fst s) @ [0x3A] @ decimal (snd s)"

text \<open>An optional argument: what stands at its position, or the value for an absent one.\<close>

definition arg_or :: "('f, 'r, 'f val) ev list \<Rightarrow> nat \<Rightarrow> 'f val \<Rightarrow> ('f, 'r, 'f val) ev" where
  "arg_or args i dflt = (if i < length args then args ! i else ret dflt)"

definition int_arg :: "'f floats \<Rightarrow> ('f, 'r, 'f val) ev list \<Rightarrow> nat \<Rightarrow> i64 \<Rightarrow> ('f, 'r, i64) ev" where
  "int_arg F args i dflt = (if i < length args then andthen (args ! i) (\<lambda>v. ret (opt_int F v dflt)) else ret dflt)"

definition max_i64 :: i64 where
  "max_i64 = 2 ^ 63 - 1"

definition eval_call :: "('f, 'r) library \<Rightarrow> span \<Rightarrow> bytes \<Rightarrow> ('f, 'r, 'f val) ev list \<Rightarrow> ('f, 'r, 'f val) ev" where
  "eval_call L s name args =
     (let F = lib_floats L in
      if name = str ''metadata'' \<or> name = str ''meta'' then
        if args = [] then meta_all
        else andthen (hd args) (\<lambda>key. if is_stringy key \<and> text_of key = [] then meta_all
          else andthen (lift (as_string key)) meta_get)
      else if name = str ''counter'' then
        andthen (int_arg F args 0 1) (\<lambda>lo. andthen (int_arg F args 1 max_i64) (\<lambda>hi.
          andthen (arg_or args 2 Nothing) (fn_counter F (call_site s) lo hi)))
      else if name = str ''content'' then fn_content F
      else if name = str ''json'' then andthen (arg_or args 0 Null) (fn_json F (lib_parse L))
      else if name = str ''error'' then fn_error
      else if name = str ''errored'' then fn_errored
      else if name = str ''batch_index'' then fn_batch_index
      else if name = str ''batch_size'' then fn_batch_size
      else if name = str ''count'' then andthen (arg_or args 0 Null) (fn_count F)
      else if name = str ''root_meta'' then andthen (arg_or args 0 Null) fn_root_meta
      else if name = str ''error_source_name'' then fn_error_source name es_name
      else if name = str ''error_source_label'' then fn_error_source name es_label
      else if name = str ''error_source_path'' then fn_error_source name es_path
      else if name = str ''random_int'' then
        andthen (arg_or args 0 Null) (\<lambda>seed. andthen (int_arg F args 1 0) (\<lambda>lo.
          andthen (int_arg F args 2 (max_i64 - 1)) (fn_random_int F (lib_generator L) (call_site s) seed lo)))
      else case lib_functions L name of
        Some f \<Rightarrow> andthen (each_do (\<lambda>a. a) args) (\<lambda>vs. lift (f vs))
      | None \<Rightarrow> throw (str ''unknown function: '' @ name))"

section \<open>Methods\<close>

text \<open>The two forms of a query: a lambda binds its parameter, anything else sees the element as \<open>this\<close>.\<close>

definition assign_var :: "bytes \<Rightarrow> 'f val \<Rightarrow> ('f, 'r, 'a) ev \<Rightarrow> ('f, 'r, 'a) ev" where
  "assign_var p v m c = m (bind_var p v c)"

definition assign_this :: "'f val \<Rightarrow> ('f, 'r, 'a) ev \<Rightarrow> ('f, 'r, 'a) ev" where
  "assign_this v m c = m (c\<lparr>this_v := Some v\<rparr>)"

definition run_query :: "'f floats \<Rightarrow> bytes \<Rightarrow> 'f val \<Rightarrow> 'f val \<Rightarrow> ('f, 'r) meaning \<Rightarrow> ('f, 'r, 'f val) ev" where
  "run_query F name t initial q =
     (case snd q of
        Some (p, body) \<Rightarrow> bracket (\<lambda>c. c) (restore_var p) (call_lambda_method F name t initial (\<lambda>el. assign_var p el body))
      | None \<Rightarrow> bracket (\<lambda>c. c) (\<lambda>b c. c\<lparr>this_v := this_v b\<rparr>)
          (call_lambda_method F name t initial (\<lambda>el. assign_this el (fst q))))"

definition eval_catch :: "('f, 'r, 'f val) ev \<Rightarrow> ('f, 'r) meaning list \<Rightarrow> ('f, 'r, 'f val) ev" where
  "eval_catch target args =
     (case args of
        [] \<Rightarrow> throw (str ''catch requires a fallback argument'')
      | q # _ \<Rightarrow> catch_or target (\<lambda>err. case snd q of
          Some (p, body) \<Rightarrow> scoped_var p err body
        | None \<Rightarrow> with_this err (fst q)))"

definition eval_coerce :: "('f val \<Rightarrow> 'f result) \<Rightarrow> ('f, 'r, 'f val) ev \<Rightarrow> ('f, 'r) meaning list \<Rightarrow> ('f, 'r, 'f val) ev" where
  "eval_coerce coerce target args =
     (let run = (\<lambda>m. andthen m (\<lambda>v. lift (coerce v)))
      in case args of [] \<Rightarrow> run target | q # _ \<Rightarrow> coerce_or (run target) (run (fst q)))"

definition eval_or :: "('f, 'r, 'f val) ev \<Rightarrow> ('f, 'r) meaning list \<Rightarrow> ('f, 'r, 'f val) ev" where
  "eval_or target args = coalesce_lazy target (case args of [] \<Rightarrow> ret Null | q # _ \<Rightarrow> fst q)"

definition eval_from_method :: "'f floats \<Rightarrow> ('f, 'r, 'f val) ev \<Rightarrow> ('f, 'r) meaning list \<Rightarrow> ('f, 'r, 'f val) ev" where
  "eval_from_method F target args =
     (case args of
        [] \<Rightarrow> throw (str ''from requires a message index'')
      | q # _ \<Rightarrow> andthen (fst q) (\<lambda>v. andthen (lift (as_i64 F v)) (\<lambda>i. eval_from i target)))"

definition eval_apply :: "('f, 'r) apply_env \<Rightarrow> 'f val \<Rightarrow> ('f, 'r) meaning list \<Rightarrow> ('f, 'r, 'f val) ev" where
  "eval_apply env t args =
     (case args of
        [] \<Rightarrow> throw (str ''apply requires a map name'')
      | q # _ \<Rightarrow> andthen (fst q) (\<lambda>name.
          if \<not> is_stringy name then throw (str ''apply requires a map name'')
          else case env (text_of name) of
            None \<Rightarrow> throw (str ''map '' @ text_of name @ str '' was not found'')
          | Some f \<Rightarrow> apply_map t f))"

text \<open>A query that is optional and absent leaves the method to the table.\<close>

definition takes_query :: "bytes \<Rightarrow> nat \<Rightarrow> nat option" where
  "takes_query name n =
     (case find_lambda_method name of
        None \<Rightarrow> None
      | Some (leading, optional) \<Rightarrow> if optional \<and> n \<le> leading then None else Some leading)"

definition eval_plain_method :: "('f, 'r) library \<Rightarrow> bytes \<Rightarrow> 'f val \<Rightarrow> ('f, 'r) meaning list \<Rightarrow> ('f, 'r, 'f val) ev" where
  "eval_plain_method L name t args =
     andthen (each_do fst args) (\<lambda>vs.
       case lib_methods L name of
         Some f \<Rightarrow> lift (f t vs)
       | None \<Rightarrow>
           if \<not> is_regex_method name then throw (str ''unknown method: '' @ name)
           else if vs = [] then throw (name @ str '' requires a pattern argument'')
           else andthen (lift (as_string (hd vs))) (\<lambda>pat. andthen (lift (lib_pattern L pat)) (\<lambda>_.
             if name = str ''re_replace'' \<or> name = str ''re_replace_all'' then
               if length vs < 2 then throw (name @ str '' requires a replacement'')
               else lift (lib_regex L name pat t (Some (vs ! 1)))
             else lift (lib_regex L name pat t None))))"

definition eval_on_target :: "('f, 'r) library \<Rightarrow> ('f, 'r) apply_env \<Rightarrow> bytes \<Rightarrow> 'f val \<Rightarrow> ('f, 'r) meaning list \<Rightarrow> ('f, 'r, 'f val) ev" where
  "eval_on_target L env name t args =
     (if name = str ''apply'' then eval_apply env t args
      else case takes_query name (length args) of
        Some qi \<Rightarrow>
          if length args \<le> qi then throw (name @ str '' requires a query argument'')
          else andthen (if qi > 0 then fst (hd args) else ret Null) (\<lambda>initial.
            run_query (lib_floats L) name t initial (args ! qi))
      | None \<Rightarrow> eval_plain_method L name t args)"

definition eval_method :: "('f, 'r) library \<Rightarrow> ('f, 'r) apply_env \<Rightarrow> ('f, 'r, 'f val) ev \<Rightarrow> bytes \<times> bool \<Rightarrow> bytes \<Rightarrow>
    ('f, 'r) meaning list \<Rightarrow> ('f, 'r, 'f val) ev" where
  "eval_method L env target source name args =
     (if name = str ''number'' then eval_coerce (lib_number L) target args
      else if name = str ''bool'' then eval_coerce (lib_bool L) target args
      else if name = str ''from_all'' then eval_from_all target
      else if name = str ''from'' then eval_from_method (lib_floats L) target args
      else if name = str ''or'' then eval_or target args
      else if name = str ''catch'' then eval_catch target args
      else andthen target (\<lambda>t. rescue (eval_on_target L env name t args)
        (\<lambda>e. raise (attach_source (lib_floats L) e (fst source) (snd source) t))))"

section \<open>Evaluation\<close>

primrec meaning :: "('f, 'r) library \<Rightarrow> ('f, 'r) apply_env \<Rightarrow> 'f node \<Rightarrow> ('f, 'r) meaning" where
  "meaning L env (Lit s v) = (ret v, None)"
| "meaning L env (This s) = (self, None)"
| "meaning L env (Var s name) = (get_var name, None)"
| "meaning L env (Field s target key) = (andthen (fst (meaning L env target)) (\<lambda>v. ret (read_field v key)), None)"
| "meaning L env (Index s target index) =
     (eval_index (lib_floats L) (fst (meaning L env target)) (fst (meaning L env index)), None)"
| "meaning L env (Call s name args names) = (eval_call L s name (map fst (map (meaning L env) args)), None)"
| "meaning L env (Method s target name args names) =
     (eval_method L env (fst (meaning L env target)) (describe_source (lib_floats L) target) name (map (meaning L env) args), None)"
| "meaning L env (Lambda s p body) =
     (throw (str ''a lambda can only be used as a method argument''), Some (p, fst (meaning L env body)))"
| "meaning L env (Binary s op' l r) =
     (eval_binary (lib_floats L) op' (fst (meaning L env l)) (fst (meaning L env r)), None)"
| "meaning L env (Neg s e) = (andthen (fst (meaning L env e)) (\<lambda>v. lift (num_sub (lib_floats L) (I64 0) v)), None)"
| "meaning L env (Not s e) = (andthen (fst (meaning L env e)) (\<lambda>v. andthen (lift (truthy v)) (\<lambda>b. ret (Boolean (\<not> b)))), None)"
| "meaning L env (If s cond yes no) =
     (eval_if (fst (meaning L env cond)) (fst (meaning L env yes)) (map_option fst (map_option (meaning L env) no)), None)"
| "meaning L env (Array_lit s items) =
     (andthen (eval_items (map fst (map (meaning L env) items))) (\<lambda>vs. ret (Array vs)), None)"
| "meaning L env (Object_lit s entries) =
     (eval_entries (map (map_prod fst fst) (map (map_prod (meaning L env) (meaning L env)) entries)) (Object []), None)"
| "meaning L env (Match s context cs) =
     (eval_match (map_option fst (map_option (meaning L env) context))
        (map (map_prod (map_option fst) fst) (map (map_prod (map_option (meaning L env)) (meaning L env)) cs)), None)"

definition eval :: "('f, 'r) library \<Rightarrow> ('f, 'r) apply_env \<Rightarrow> 'f node \<Rightarrow> ('f, 'r, 'f val) ev" where
  "eval L env n = fst (meaning L env n)"

text \<open>The statements, with the document built so far and whether it was assigned.\<close>

definition failed_assignment :: "nat \<Rightarrow> eval_error \<Rightarrow> eval_error" where
  "failed_assignment line e = Eval_error (str ''failed assignment (line '' @ decimal line @ str ''): '' @ what e)"

definition assign_result :: "target \<Rightarrow> 'f val \<Rightarrow> 'f val \<times> bool \<Rightarrow> ('f, 'r, 'f val \<times> bool) ev" where
  "assign_result target v root =
     (case target of
        To_var name \<Rightarrow> (\<lambda>c. (Inr root, c\<lparr>vars := (case v of Deleted \<Rightarrow> om_remove name (vars c) | _ \<Rightarrow> om_set name v (vars c))\<rparr>))
      | To_meta name \<Rightarrow> andthen (meta_set name v) (\<lambda>_. ret root)
      | Root \<Rightarrow> ret (v, True)
      | Root_path path \<Rightarrow>
          ret (assign_path path v (if \<not> snd root \<and> fst root = Nothing then Object [] else fst root), True))"

fun run_statements :: "('f, 'r) library \<Rightarrow> ('f, 'r) apply_env \<Rightarrow> 'f statement list \<Rightarrow> 'f val \<times> bool \<Rightarrow> ('f, 'r, 'f val) ev" where
  "run_statements L env [] root = ret (fst root)"
| "run_statements L env (st # sts) root =
     andthen (rescue (eval L env (st_expr st)) (\<lambda>e. raise (failed_assignment (fst (span_of (st_expr st))) e))) (\<lambda>v.
       if v = Nothing then run_statements L env sts root
       else andthen (assign_result (st_target st) v root) (run_statements L env sts))"

definition run_ctx :: "('f, 'r) library \<Rightarrow> ('f, 'r) apply_env \<Rightarrow> 'f statement list \<Rightarrow> ('f, 'r, 'f val) ev" where
  "run_ctx L env sts c = run_statements L env sts (case root_init c of Some v \<Rightarrow> v | None \<Rightarrow> Nothing, False) c"

text \<open>The maps in scope, applied with so many levels left; below the last one no map is reached.\<close>

primrec env_at :: "('f, 'r) library \<Rightarrow> 'f mapping \<Rightarrow> nat \<Rightarrow> ('f, 'r) apply_env" where
  "env_at L m 0 = (\<lambda>name. map_option (\<lambda>_. throw (str ''unreachable'')) (find_map name m))"
| "env_at L m (Suc n) = (\<lambda>name. map_option (run_ctx L (env_at L m n)) (find_map name m))"

definition run_mapping :: "('f, 'r) library \<Rightarrow> 'f mapping \<Rightarrow> ('f, 'r) mapping_fn" where
  "run_mapping L m c = run_ctx L (env_at L m (max_apply_depth - apply_depth c)) (statements m) c"

definition run_on :: "('f, 'r) library \<Rightarrow> 'f mapping \<Rightarrow> 'f val \<Rightarrow> ('f, 'r) mapping_fn" where
  "run_on L m input c = run_mapping L m (c\<lparr>this_v := Some input\<rparr>)"

end
