(* ===== verification/Interp_Laws.thy ===== *)
theory Interp_Laws
  imports Interp
begin

text \<open>
  The laws of the interpreter: evaluating an expression leaves the scope it ran in as it was, on every
  path, and the nesting of maps the code allows is enough for every evaluation to end in the way the
  code ends it.  Both follow from one relation, lifted over every construct by the lemmas of
  \<open>tracking\<close>.
\<close>

section \<open>Queries\<close>

context tracking
begin

lemma track_if: "(b \<Longrightarrow> tracks S R m m') \<Longrightarrow> (\<not> b \<Longrightarrow> tracks S R n n') \<Longrightarrow> tracks S R (if b then m else n) (if b then m' else n')"
  by simp

lemma track_query:
  assumes q: "\<And>el. tracks S R (fn el) (fn' el)"
  shows "tracks S R (call_lambda_method F name t initial fn) (call_lambda_method F name t initial fn')"
proof -
  note intros = track_intros q
  have a: "tracks S R (each_array fn b els) (each_array fn' b els)" for b els
    by (induction els) (auto intro!: intros)
  have o': "tracks S R (each_object fn b e out) (each_object fn' b e out)" for b e out
    by (induction e arbitrary: out) (auto intro!: intros)
  have each: "tracks S R (each n fn b v) (each n fn' b v)" for n b v
    by (cases v) (auto simp: each_def intro!: intros a o')
  have all: "tracks S R (all_from fn els) (all_from fn' els)" for els
    by (induction els) (auto intro!: intros split: val.split)
  have any: "tracks S R (any_from fn els) (any_from fn' els)" for els
    by (induction els) (auto intro!: intros split: val.split)
  have by1: "tracks S R (find_by_from fn i els) (find_by_from fn' i els)" for i els
    by (induction els arbitrary: i) (auto intro!: intros)
  have lt: "tracks S R (query_less fn x y) (query_less fn' x y)" for x y
    by (auto simp: query_less_def intro!: intros split: val.split)
  have runs: "tracks S R (merge_runs (query_less fn) xs ys) (merge_runs (query_less fn') xs ys)" for xs ys
    by (induction "query_less fn" xs ys rule: merge_runs.induct) (auto intro!: track_intros lt)
  have pass: "tracks S R (merge_pass (query_less fn) w xs) (merge_pass (query_less fn') w xs)" for w xs
  proof (induction "query_less fn" w xs rule: merge_pass.induct)
    case (1 w xs)
    then show ?case
      by (subst (1 2) merge_pass.simps) (auto intro!: track_intros runs)
  qed
  have widths: "tracks S R (merge_widths (query_less fn) n xs w) (merge_widths (query_less fn') n xs w)" for n xs w
  proof (induction "query_less fn" n xs w rule: merge_widths.induct)
    case (1 n xs w)
    then show ?case
      by (subst (1 2) merge_widths.simps) (auto intro!: track_intros pass)
  qed
  have sort: "tracks S R (merge_sort (query_less fn) xs) (merge_sort (query_less fn') xs)" for xs
    by (auto simp: merge_sort_def intro!: track_intros widths)
  have uniq: "tracks S R (unique_keys F fn ks els) (unique_keys F fn' ks els)" for ks els
    by (induction els arbitrary: ks) (auto intro!: intros)
  have keys: "tracks S R (rekey fn e out) (rekey fn' e out)" for e out
    by (induction e arbitrary: out) (auto intro!: intros split: val.split)
  have tally: "tracks S R (fold_from fn x els) (fold_from fn' x els)" for x els
    by (induction els arbitrary: x) (auto intro!: intros)
  show ?thesis
    unfolding call_lambda_method_def map_each_def filter_value_def all_value_def any_value_def find_by_def
      find_all_by_def sort_by_def sort_with_def unique_by_def map_each_key_def fold_value_def
    by (auto intro!: intros track_each each all any by1 sort uniq keys tally split: prod.split)
qed

end

section \<open>The scope\<close>

definition at_depth :: "nat \<Rightarrow> ('f, 'r) ctx \<Rightarrow> bool" where
  "at_depth d c \<longleftrightarrow> apply_depth c = d"

text \<open>What no expression changes, what is the scope of its names, and the message it reads.\<close>

definition fixed :: "('f, 'r) ctx \<Rightarrow> ('f, 'r) ctx \<Rightarrow> bool" where
  "fixed c d \<longleftrightarrow> root_init d = root_init c \<and> all_msgs d = all_msgs c \<and> batch_size d = batch_size c \<and> apply_depth d = apply_depth c"

definition same_vars :: "('f, 'r) ctx \<Rightarrow> ('f, 'r) ctx \<Rightarrow> bool" where
  "same_vars c d \<longleftrightarrow> (om_sorted (vars c) \<longrightarrow> vars d = vars c)"

definition same_msg :: "('f, 'r) ctx \<Rightarrow> ('f, 'r) ctx \<Rightarrow> bool" where
  "same_msg c d \<longleftrightarrow> cur_msg d = cur_msg c \<and> meta_in d = meta_in c \<and> batch_index d = batch_index c"

definition scope :: "('f, 'r) ctx \<Rightarrow> ('f, 'r) ctx \<Rightarrow> bool" where
  "scope c d \<longleftrightarrow> fixed c d \<and> same_msg c d \<and> same_vars c d \<and> this_v d = this_v c"

text \<open>What holds between the elements of a query, between the messages of \<open>from_all\<close>, between statements.\<close>

definition scope_but_this :: "('f, 'r) ctx \<Rightarrow> ('f, 'r) ctx \<Rightarrow> bool" where
  "scope_but_this c d \<longleftrightarrow> fixed c d \<and> same_msg c d \<and> same_vars c d"

definition scope_but_var :: "bytes \<Rightarrow> ('f, 'r) ctx \<Rightarrow> ('f, 'r) ctx \<Rightarrow> bool" where
  "scope_but_var p c d \<longleftrightarrow> fixed c d \<and> same_msg c d \<and> this_v d = this_v c \<and>
     (om_sorted (vars c) \<longrightarrow> om_sorted (vars d) \<and> (\<forall>k. k \<noteq> p \<longrightarrow> om_find (vars d) k = om_find (vars c) k))"

definition scope_but_msg :: "('f, 'r) ctx \<Rightarrow> ('f, 'r) ctx \<Rightarrow> bool" where
  "scope_but_msg c d \<longleftrightarrow> fixed c d \<and> same_vars c d \<and> this_v d = this_v c"

definition statement_scope :: "('f, 'r) ctx \<Rightarrow> ('f, 'r) ctx \<Rightarrow> bool" where
  "statement_scope c d \<longleftrightarrow> fixed c d \<and> same_msg c d \<and> this_v d = this_v c"

lemmas scope_defs = at_depth_def fixed_def same_vars_def same_msg_def scope_def scope_but_this_def scope_but_var_def
  scope_but_msg_def statement_scope_def

interpretation scope: tracking "at_depth d" scope for d
  by unfold_locales (auto simp: scope_defs)

interpretation but_this: tracking "at_depth d" scope_but_this for d
  by unfold_locales (auto simp: scope_defs)

interpretation but_var: tracking "at_depth d" "scope_but_var p" for d p
  by unfold_locales (auto simp: scope_defs)

interpretation but_msg: tracking "at_depth d" scope_but_msg for d
  by unfold_locales (auto simp: scope_defs)

interpretation stmts: tracking "at_depth d" statement_scope for d
  by unfold_locales (auto simp: scope_defs)

abbreviation same :: "nat \<Rightarrow> ('f, 'r, 'a) ev \<Rightarrow> ('f, 'r, 'a) ev \<Rightarrow> bool" where
  "same d \<equiv> tracks (at_depth d) scope"

lemma restored_var:
  assumes "om_sorted (vars c)" "om_sorted (vars d)" "\<forall>k. k \<noteq> p \<longrightarrow> om_find (vars d) k = om_find (vars c) k"
  shows "vars (restore_var p c d) = vars c"
  using assms by (intro om_ext)
    (auto simp: restore_var_def om_sorted_set om_sorted_remove om_find_set om_find_remove split: option.split)

lemma scope_restore_var: "scope_but_var p c d \<Longrightarrow> scope c (restore_var p c d)"
  using restored_var [of c d p] by (auto simp: scope_defs) (simp_all add: restore_var_def)

lemma same_assign_var: "same d m m' \<Longrightarrow> tracks (at_depth d) (scope_but_var p) (assign_var p v m) (assign_var p v m')"
proof (rule tracksI)
  fix c :: "('a, 'b) ctx"
  assume m: "same d m m'" and c: "at_depth d c"
  then have b: "at_depth d (bind_var p v c)" by (simp add: scope_defs bind_var_def)
  show "assign_var p v m c = assign_var p v m' c"
    using tracksD(1) [OF m b] by (simp add: assign_var_def)
  show "scope_but_var p c (snd (assign_var p v m c))"
    using tracksD(2) [OF m b] by (auto simp: assign_var_def scope_defs bind_var_def om_sorted_set om_find_set)
qed

lemma same_scoped_var: "same d m m' \<Longrightarrow> same d (scoped_var p v m) (scoped_var p v m')"
  unfolding scoped_var_def
proof (rule tracks_bracket)
  fix c t :: "('a, 'b) ctx"
  show "at_depth d (bind_var p v c)" if "at_depth d c" using that by (simp add: scope_defs bind_var_def)
  show "scope c (restore_var p c t)" if "scope (bind_var p v c) t"
    using that by (intro scope_restore_var) (auto simp: scope_defs bind_var_def om_sorted_set om_find_set)
qed

lemma same_with_this: "same d m m' \<Longrightarrow> same d (with_this v m) (with_this v m')"
  unfolding with_this_def by (erule tracks_bracket) (auto simp: scope_defs)

lemma same_coalesce: "same d l l' \<Longrightarrow> same d r r' \<Longrightarrow> same d (coalesce_lazy l r) (coalesce_lazy l' r')"
  unfolding coalesce_lazy_def by (auto intro!: scope.track_intros split: option.split)

lemma same_catch: "same d t t' \<Longrightarrow> (\<And>v. same d (h v) (h' v)) \<Longrightarrow> same d (catch_or t h) (catch_or t' h')"
  unfolding catch_or_def by (auto intro!: scope.track_intros)

lemma same_from_all: "same d f f' \<Longrightarrow> same d (eval_from_all f) (eval_from_all f')"
proof (rule tracksI)
  fix c :: "('a, 'b) ctx"
  assume f: "same d f f'" and c: "at_depth d c"
  have one: "tracks (at_depth d) scope_but_msg (\<lambda>c. f (at_message m i c)) (\<lambda>c. f' (at_message m i c))" for m i
  proof (rule tracksI)
    fix c :: "('a, 'b) ctx" assume "at_depth d c"
    then have a: "at_depth d (at_message m i c)" by (simp add: scope_defs at_message_def)
    show "f (at_message m i c) = f' (at_message m i c)" by (rule tracksD(1) [OF f a])
    show "scope_but_msg c (snd (f (at_message m i c)))"
      using tracksD(2) [OF f a] by (auto simp: scope_defs at_message_def)
  qed
  have b: "same d (bracket (\<lambda>c. c) back_to_message (andthen (each_do (\<lambda>(i, m) c. f (at_message m i c)) ps) (\<lambda>out. ret (Array out))))
     (bracket (\<lambda>c. c) back_to_message (andthen (each_do (\<lambda>(i, m) c. f' (at_message m i c)) ps) (\<lambda>out. ret (Array out))))" for ps
    by (rule tracks_bracket [where T = "at_depth d" and Q = scope_but_msg])
      (auto intro!: but_msg.track_intros but_msg.track_each one simp: scope_defs back_to_message_def split: prod.split)
  show "eval_from_all f c = eval_from_all f' c"
    using tracksD(1) [OF b c] by (simp add: eval_from_all_def split: option.split)
  show "scope c (snd (eval_from_all f c))"
    using tracksD(2) [OF b c] by (auto simp: eval_from_all_def throw_def raise_def scope_defs split: option.split)
qed

lemma same_from: "same d f f' \<Longrightarrow> same d (eval_from i f) (eval_from i f')"
proof (rule tracksI)
  fix c :: "('a, 'b) ctx"
  assume f: "same d f f'" and c: "at_depth d c"
  have b: "same d (bracket (at_message m j) back_to_message f) (bracket (at_message m j) back_to_message f')" for m j
    using f by (rule tracks_bracket) (auto simp: scope_defs back_to_message_def at_message_def)
  show "eval_from i f c = eval_from i f' c"
    using tracksD(1) [OF b c] by (simp add: eval_from_def split: option.split)
  show "scope c (snd (eval_from i f c))"
    using tracksD(2) [OF b c] by (auto simp: eval_from_def throw_def raise_def scope.related split: option.split)
qed

section \<open>Maps\<close>

text \<open>Two environments that cannot be told apart at depth \<open>d\<close>: past the limit no map runs.\<close>

definition same_env :: "nat \<Rightarrow> ('f, 'r) apply_env \<Rightarrow> ('f, 'r) apply_env \<Rightarrow> bool" where
  "same_env d env env' \<longleftrightarrow> (\<forall>name. rel_option (\<lambda>f f'. \<forall>t. same d (apply_map t f) (apply_map t f')) (env name) (env' name))"

lemma same_apply_map_past: "max_apply_depth \<le> d \<Longrightarrow> same d (apply_map t f) (apply_map t f')"
  by (rule tracksI) (auto simp: apply_map_def throw_def raise_def scope_defs)

lemma same_apply_map:
  assumes "tracks (at_depth (Suc d)) statement_scope f f'"
  shows "same d (apply_map t f) (apply_map t f')"
proof (rule tracksI)
  fix c :: "('a, 'b) ctx" assume c: "at_depth d c"
  have b: "same d (bracket (\<lambda>c. c\<lparr>vars := [], this_v := Some t, apply_depth := apply_depth c + 1\<rparr>)
        (\<lambda>b c. c\<lparr>apply_depth := apply_depth c - 1, this_v := this_v b, vars := vars b\<rparr>) f)
      (bracket (\<lambda>c. c\<lparr>vars := [], this_v := Some t, apply_depth := apply_depth c + 1\<rparr>)
        (\<lambda>b c. c\<lparr>apply_depth := apply_depth c - 1, this_v := this_v b, vars := vars b\<rparr>) f')"
    using assms by (rule tracks_bracket) (auto simp: scope_defs)
  show "apply_map t f c = apply_map t f' c"
    using tracksD(1) [OF b c] by (simp add: apply_map_def)
  show "scope c (snd (apply_map t f c))"
    using tracksD(2) [OF b c] by (auto simp: apply_map_def throw_def raise_def scope.related)
qed

section \<open>Every construct\<close>

definition same_meaning :: "nat \<Rightarrow> ('f, 'r) meaning \<Rightarrow> ('f, 'r) meaning \<Rightarrow> bool" where
  "same_meaning d x y \<longleftrightarrow> same d (fst x) (fst y) \<and> rel_option (rel_prod (=) (same d)) (snd x) (snd y)"

lemma same_meaning_fst: "same_meaning d x y \<Longrightarrow> same d (fst x) (fst y)"
  by (simp add: same_meaning_def)

lemma same_plain: "same d m m' \<Longrightarrow> same_meaning d (m, None) (m', None)"
  by (simp add: same_meaning_def)

lemma same_run_query:
  assumes q: "same_meaning d q q'"
  shows "same d (run_query F name t i q) (run_query F name t i q')"
proof (cases "snd q")
  case None
  then have n: "snd q' = None" using q by (auto simp: same_meaning_def)
  have "tracks (at_depth d) scope_but_this (assign_this el (fst q)) (assign_this el (fst q'))" for el
  proof (rule tracksI)
    fix c :: "('a, 'b) ctx" assume "at_depth d c"
    then have a: "at_depth d (c\<lparr>this_v := Some el\<rparr>)" by (simp add: scope_defs)
    show "assign_this el (fst q) c = assign_this el (fst q') c"
      using tracksD(1) [OF same_meaning_fst [OF q] a] by (simp add: assign_this_def)
    show "scope_but_this c (snd (assign_this el (fst q) c))"
      using tracksD(2) [OF same_meaning_fst [OF q] a] by (auto simp: assign_this_def scope_defs)
  qed
  from but_this.track_query [OF this] show ?thesis
    unfolding run_query_def None n option.case by (rule tracks_bracket) (auto simp: scope_defs)
next
  case (Some pb)
  obtain p b where pb: "pb = (p, b)" by fastforce
  then obtain b' where q': "snd q' = Some (p, b')" "same d b b'"
    using q Some by (cases "snd q'") (auto simp: same_meaning_def)
  have "tracks (at_depth d) (scope_but_var p) (call_lambda_method F name t i (\<lambda>el. assign_var p el b))
     (call_lambda_method F name t i (\<lambda>el. assign_var p el b'))"
    by (intro but_var.track_query same_assign_var q')
  then show ?thesis
    unfolding run_query_def Some pb q' option.case prod.case by (rule tracks_bracket) (auto intro: scope_restore_var)
qed

lemma same_binary: "same d l l' \<Longrightarrow> same d r r' \<Longrightarrow> same d (eval_binary F op' l r) (eval_binary F op' l' r')"
  unfolding eval_binary_def by (auto intro!: scope.track_intros same_coalesce)

lemma same_index: "same d l l' \<Longrightarrow> same d r r' \<Longrightarrow> same d (eval_index F l r) (eval_index F l' r')"
  unfolding eval_index_def by (intro scope.track_intros)

lemma same_if: "same d c c' \<Longrightarrow> same d y y' \<Longrightarrow> rel_option (same d) n n' \<Longrightarrow> same d (eval_if c y n) (eval_if c' y' n')"
  unfolding eval_if_def by (cases n; cases n') (auto intro!: scope.track_intros)

lemma same_cases: "list_all2 (rel_prod (rel_option (same d)) (same d)) cs cs' \<Longrightarrow> same d (eval_cases cs) (eval_cases cs')"
proof (induction cs cs' rule: list_all2_induct)
  case (Cons x xs y ys)
  then show ?case
    by (cases x; cases y; cases "fst x"; cases "fst y") (auto intro!: scope.track_intros)
qed (simp add: scope.track_pure)

lemma same_match:
  "rel_option (same d) e e' \<Longrightarrow> list_all2 (rel_prod (rel_option (same d)) (same d)) cs cs' \<Longrightarrow>
   same d (eval_match e cs) (eval_match e' cs')"
  unfolding eval_match_def
  by (cases e; cases e') (auto intro!: scope.track_intros same_with_this same_cases)

lemma same_items: "list_all2 (same d) es es' \<Longrightarrow> same d (eval_items es) (eval_items es')"
  by (induction es es' rule: list_all2_induct) (auto intro!: scope.track_intros)

lemma same_each: "list_all2 (same d) es es' \<Longrightarrow> same d (each_do (\<lambda>a. a) es) (each_do (\<lambda>a. a) es')"
  by (induction es es' rule: list_all2_induct) (auto intro!: scope.track_intros)

lemma same_entries: "list_all2 (rel_prod (same d) (same d)) es es' \<Longrightarrow> same d (eval_entries es out) (eval_entries es' out)"
  by (induction es es' arbitrary: out rule: list_all2_induct) (auto intro!: scope.track_intros)

lemma same_arg_or: "list_all2 (same d) es es' \<Longrightarrow> same d (arg_or es i v) (arg_or es' i v)"
  by (auto simp: arg_or_def list_all2_conv_all_nth scope.track_pure)

lemma same_int_arg: "list_all2 (same d) es es' \<Longrightarrow> same d (int_arg F es i v) (int_arg F es' i v)"
  by (auto simp: int_arg_def list_all2_conv_all_nth intro!: scope.track_intros)

lemma same_functions:
  "same d (fn_counter F s lo hi v) (fn_counter F s lo hi v)"
  "same d (fn_count F v) (fn_count F v)"
  "same d (fn_random_int F G s seed lo hi) (fn_random_int F G s seed lo hi)"
  by (rule tracksI; auto simp: fn_counter_def fn_count_def fn_random_int_def scope_defs Let_def split: prod.split)+

lemma same_readers:
  "same d (fn_content F) (fn_content F)" "same d (fn_json F parse v) (fn_json F parse v)"
  "same d fn_error fn_error" "same d fn_errored fn_errored" "same d (fn_error_source name f) (fn_error_source name f)"
  "same d fn_batch_index fn_batch_index" "same d fn_batch_size fn_batch_size" "same d (fn_root_meta v) (fn_root_meta v)"
  "same d meta_all meta_all" "same d (meta_get s) (meta_get s)" "same d self self" "same d (get_var s) (get_var s)"
  unfolding fn_content_def fn_json_def fn_error_def fn_errored_def fn_error_source_def fn_batch_index_def
    fn_batch_size_def fn_root_meta_def meta_all_def meta_get_def self_def get_var_def message_of_def
  by (auto intro!: scope.track_intros simp: Let_def)

lemma same_call: "list_all2 (same d) es es' \<Longrightarrow> same d (eval_call L s name es) (eval_call L s name es')"
proof -
  assume es: "list_all2 (same d) es es'"
  then have nil: "es = [] \<longleftrightarrow> es' = []" by auto
  have hd: "es \<noteq> [] \<Longrightarrow> same d (hd es) (hd es')" using es by (cases es; cases es') auto
  note parts = scope.track_intros same_functions same_readers same_arg_or [OF es] same_int_arg [OF es] same_each [OF es] hd
  show ?thesis
    unfolding eval_call_def Let_def nil [symmetric]
    by (cases "lib_functions L name"; simp only: option.case) (intro scope.track_if parts; assumption)+
qed

lemma same_firsts: "list_all2 (same_meaning d) qs qs' \<Longrightarrow> list_all2 (same d) (map fst qs) (map fst qs')"
  by (auto simp: list_all2_conv_all_nth same_meaning_def)

lemma same_each_fst: "list_all2 (same_meaning d) qs qs' \<Longrightarrow> same d (each_do fst qs) (each_do fst qs')"
  by (induction qs qs' rule: list_all2_induct) (auto intro!: scope.track_intros simp: same_meaning_def)

lemma same_catch_method: "same d t t' \<Longrightarrow> list_all2 (same_meaning d) qs qs' \<Longrightarrow> same d (eval_catch t qs) (eval_catch t' qs')"
proof (cases qs; cases qs')
  fix q r q' r'
  assume t: "same d t t'" and qs: "list_all2 (same_meaning d) qs qs'" "qs = q # r" "qs' = q' # r'"
  then have q: "same_meaning d q q'" by simp
  show ?thesis
    unfolding eval_catch_def qs(2,3) list.case
    by (cases "snd q"; cases "snd q'")
      (use q t in \<open>auto intro!: same_catch same_scoped_var same_with_this simp: same_meaning_def\<close>)
qed (auto simp: eval_catch_def intro!: scope.track_intros)

lemma same_coerce_method:
  "same d t t' \<Longrightarrow> list_all2 (same_meaning d) qs qs' \<Longrightarrow> same d (eval_coerce f t qs) (eval_coerce f t' qs')"
  unfolding eval_coerce_def coerce_or_def Let_def
  by (cases qs; cases qs') (auto intro!: scope.track_intros simp: same_meaning_def)

lemma same_or_method: "same d t t' \<Longrightarrow> list_all2 (same_meaning d) qs qs' \<Longrightarrow> same d (eval_or t qs) (eval_or t' qs')"
  unfolding eval_or_def by (cases qs; cases qs') (auto intro!: same_coalesce scope.track_intros simp: same_meaning_def)

lemma same_from_method:
  "same d t t' \<Longrightarrow> list_all2 (same_meaning d) qs qs' \<Longrightarrow> same d (eval_from_method F t qs) (eval_from_method F t' qs')"
  unfolding eval_from_method_def
  by (cases qs; cases qs') (auto intro!: same_from scope.track_intros simp: same_meaning_def)

lemma same_apply:
  assumes env: "same_env d env env'" and qs: "list_all2 (same_meaning d) qs qs'"
  shows "same d (eval_apply env t qs) (eval_apply env' t qs')"
proof (cases qs)
  case Nil
  then show ?thesis using qs by (simp add: eval_apply_def scope.track_pure)
next
  case (Cons q r)
  then obtain q' r' where q': "qs' = q' # r'" "same_meaning d q q'" using qs by (cases qs') auto
  have "same d (case env name of None \<Rightarrow> throw e | Some f \<Rightarrow> apply_map t f)
     (case env' name of None \<Rightarrow> throw e | Some f \<Rightarrow> apply_map t f)" for name e
    using env unfolding same_env_def
    by (cases "env name"; cases "env' name") (auto simp: scope.track_pure dest: spec [of _ name])
  then show ?thesis
    unfolding eval_apply_def Cons q'(1) list.case
    by (intro scope.track_andthen scope.track_if scope.track_pure same_meaning_fst [OF q'(2)])
qed

lemma same_plain_method:
  "list_all2 (same_meaning d) qs qs' \<Longrightarrow> same d (eval_plain_method L name t qs) (eval_plain_method L name t qs')"
  unfolding eval_plain_method_def
  by (cases "lib_methods L name"; simp only: option.case)
    (intro scope.track_andthen scope.track_if scope.track_pure same_each_fst; assumption)+

lemma same_on_target:
  assumes env: "same_env d env env'" and qs: "list_all2 (same_meaning d) qs qs'"
  shows "same d (eval_on_target L env name t qs) (eval_on_target L env' name t qs')"
proof -
  have len: "length qs' = length qs" using qs by (simp add: list_all2_lengthD)
  have hd: "same d (fst (hd qs)) (fst (hd qs'))" if "qs \<noteq> []"
    using qs that by (cases qs; cases qs') (auto simp: same_meaning_def)
  show ?thesis
  proof (cases "takes_query name (length qs)")
    case None
    then show ?thesis
      unfolding eval_on_target_def len None option.case
      by (intro scope.track_if same_apply [OF env qs] same_plain_method [OF qs])
  next
    case (Some qi)
    have q: "same d (if length qs \<le> qi then throw e else andthen (if qi > 0 then fst (hd qs) else ret Null)
          (\<lambda>initial. run_query F name t initial (qs ! qi)))
        (if length qs \<le> qi then throw e else andthen (if qi > 0 then fst (hd qs') else ret Null)
          (\<lambda>initial. run_query F name t initial (qs' ! qi)))" for F e
    proof (intro scope.track_if scope.track_andthen scope.track_pure same_run_query)
      assume n: "\<not> length qs \<le> qi"
      then show "same d (fst (hd qs)) (fst (hd qs'))" by (intro hd) auto
      show "same_meaning d (qs ! qi) (qs' ! qi)" using n qs by (simp add: list_all2_nthD)
    qed
    show ?thesis
      unfolding eval_on_target_def len Some option.case
      by (intro scope.track_if same_apply [OF env qs] q)
  qed
qed

lemma same_method:
  assumes "same_env d env env'" "list_all2 (same_meaning d) qs qs'" "same d t t'"
  shows "same d (eval_method L env t src name qs) (eval_method L env' t' src name qs')"
  unfolding eval_method_def
  using assms
  by (intro scope.track_if scope.track_rescue scope.track_andthen scope.track_pure same_coerce_method same_from_all same_from_method
      same_or_method same_catch_method same_on_target)

lemma list_all2_map_same: "(\<And>x. x \<in> set xs \<Longrightarrow> P (f x) (g x)) \<Longrightarrow> list_all2 P (map f xs) (map g xs)"
  by (induction xs) auto

lemma meaning_same: "same_env d env env' \<Longrightarrow> same_meaning d (meaning L env n) (meaning L env' n)"
proof (induction n)
  case (Call s name args names)
  then have "list_all2 (same d) (map fst (map (meaning L env) args)) (map fst (map (meaning L env') args))"
    by (intro same_firsts list_all2_map_same) blast
  then show ?case unfolding meaning.simps by (intro same_plain same_call)
next
  case (Method s target name args names)
  then have "list_all2 (same_meaning d) (map (meaning L env) args) (map (meaning L env') args)"
    by (intro list_all2_map_same) blast
  then show ?case
    using Method unfolding meaning.simps by (intro same_plain same_method same_meaning_fst) auto
next
  case (Lambda s p body)
  then show ?case by (simp add: same_meaning_def scope.track_pure)
next
  case (If s cond yes no)
  then show ?case
    unfolding meaning.simps
    by (intro same_plain same_if same_meaning_fst) (cases no; auto simp: same_meaning_def)+
next
  case (Array_lit s items)
  then have "list_all2 (same d) (map fst (map (meaning L env) items)) (map fst (map (meaning L env') items))"
    by (intro same_firsts list_all2_map_same) blast
  then show ?case
    unfolding meaning.simps by (intro same_plain scope.track_andthen same_items scope.track_pure)
next
  case (Object_lit s entries)
  have "list_all2 (rel_prod (same d) (same d))
     (map (map_prod fst fst) (map (map_prod (meaning L env) (meaning L env)) entries))
     (map (map_prod fst fst) (map (map_prod (meaning L env') (meaning L env')) entries))"
    unfolding map_map
  proof (rule list_all2_map_same)
    fix x assume x: "x \<in> set entries"
    obtain k v where kv: "x = (k, v)" by fastforce
    have "same_meaning d (meaning L env k) (meaning L env' k)" "same_meaning d (meaning L env v) (meaning L env' v)"
      using Object_lit(1) [OF x, of k] Object_lit(2) [OF x, of v] Object_lit(3) by (simp_all add: kv prod_set_simps)
    then show "rel_prod (same d) (same d) ((map_prod fst fst \<circ> map_prod (meaning L env) (meaning L env)) x)
       ((map_prod fst fst \<circ> map_prod (meaning L env') (meaning L env')) x)"
      by (simp add: kv same_meaning_def)
  qed
  then show ?case unfolding meaning.simps by (intro same_plain same_entries)
next
  case (Match s e cs)
  have "list_all2 (rel_prod (rel_option (same d)) (same d))
     (map (map_prod (map_option fst) fst) (map (map_prod (map_option (meaning L env)) (meaning L env)) cs))
     (map (map_prod (map_option fst) fst) (map (map_prod (map_option (meaning L env')) (meaning L env')) cs))"
    unfolding map_map
  proof (rule list_all2_map_same)
    fix x assume x: "x \<in> set cs"
    obtain c v where cv: "x = (c, v)" by fastforce
    have "same_meaning d (meaning L env v) (meaning L env' v)"
      using Match(3) [OF x, of v] Match(4) by (simp add: cv prod_set_simps)
    moreover have "rel_option (same_meaning d) (map_option (meaning L env) c) (map_option (meaning L env') c)"
      using Match(2) [OF x, of c] Match(4) by (cases c) (simp_all add: cv prod_set_simps)
    ultimately show "rel_prod (rel_option (same d)) (same d)
        ((map_prod (map_option fst) fst \<circ> map_prod (map_option (meaning L env)) (meaning L env)) x)
        ((map_prod (map_option fst) fst \<circ> map_prod (map_option (meaning L env')) (meaning L env')) x)"
      unfolding cv by (cases c) (auto simp: same_meaning_def)
  qed
  moreover have "rel_option (same d) (map_option fst (map_option (meaning L env) e)) (map_option fst (map_option (meaning L env') e))"
    using Match by (cases e) (auto simp: same_meaning_def)
  ultimately show ?case unfolding meaning.simps by (intro same_plain same_match)
qed (auto intro!: same_plain scope.track_intros same_readers same_index same_binary simp: same_meaning_def)

section \<open>Statements and maps\<close>

lemma tracks_weaken: "tracks S R m m' \<Longrightarrow> (\<And>c d. R c d \<Longrightarrow> Q c d) \<Longrightarrow> tracks S Q m m'"
  by (auto simp: tracks_def)

lemma same_eval: "same_env d env env' \<Longrightarrow> same d (eval L env e) (eval L env' e)"
  unfolding eval_def by (intro same_meaning_fst meaning_same)

lemma same_assign: "tracks (at_depth d) statement_scope (assign_result target v root) (assign_result target v root)"
proof (cases target)
  case (To_var name)
  then show ?thesis by (intro tracksI) (auto simp: assign_result_def scope_defs)
next
  case (To_meta name)
  have "tracks (at_depth d) statement_scope (meta_set name v) (meta_set name v)"
    by (intro tracksI) (auto simp: meta_set_def scope_defs split: option.split)
  then show ?thesis unfolding To_meta assign_result_def by (auto intro!: stmts.track_intros)
qed (auto simp: assign_result_def stmts.track_pure)

lemma same_statements:
  assumes env: "same_env d env env'"
  shows "tracks (at_depth d) statement_scope (run_statements L env sts root) (run_statements L env' sts root)"
proof (induction sts arbitrary: root)
  case (Cons st sts)
  have "same d (rescue (eval L env (st_expr st)) (\<lambda>e. raise (f e))) (rescue (eval L env' (st_expr st)) (\<lambda>e. raise (f e)))" for f
    by (intro scope.track_rescue same_eval [OF env] scope.track_pure)
  then have "tracks (at_depth d) statement_scope (rescue (eval L env (st_expr st)) (\<lambda>e. raise (f e)))
      (rescue (eval L env' (st_expr st)) (\<lambda>e. raise (f e)))" for f
    by (rule tracks_weaken) (auto simp: scope_defs)
  then show ?case
    unfolding run_statements.simps by (intro stmts.track_andthen stmts.track_if same_assign Cons)
qed (simp add: stmts.track_pure)

lemma same_run_ctx:
  "same_env d env env' \<Longrightarrow> tracks (at_depth d) statement_scope (run_ctx L env sts) (run_ctx L env' sts)"
proof (rule tracksI)
  fix c :: "('a, 'b) ctx"
  assume env: "same_env d env env'" and c: "at_depth d c"
  show "run_ctx L env sts c = run_ctx L env' sts c"
    using tracksD(1) [OF same_statements [OF env] c] by (simp add: run_ctx_def)
  show "statement_scope c (snd (run_ctx L env sts c))"
    using tracksD(2) [OF same_statements [OF env] c] by (simp add: run_ctx_def)
qed

lemma same_env_itself: "same_env d (env_at L m n) (env_at L m n)"
proof (induction n arbitrary: d)
  case 0
  have "same d (apply_map t (throw e)) (apply_map t (throw e))" for t :: "'a val" and e
    by (intro same_apply_map) (simp add: stmts.track_pure)
  then show ?case by (auto simp: same_env_def option.rel_map intro: option.rel_refl)
next
  case (Suc n)
  have "same d (apply_map t (run_ctx L (env_at L m n) sts)) (apply_map t (run_ctx L (env_at L m n) sts))" for t sts
    by (intro same_apply_map same_run_ctx Suc)
  then show ?case by (simp add: same_env_def option.rel_map option.rel_refl)
qed

lemma same_env_enough:
  "max_apply_depth \<le> d + n \<Longrightarrow> max_apply_depth \<le> d + n' \<Longrightarrow> same_env d (env_at L m n) (env_at L m n')"
proof (induction "max_apply_depth - d" arbitrary: d n n')
  case 0
  then have "same d (apply_map t f) (apply_map t f')" for t :: "'a val" and f f' :: "('a, 'b, 'a val) ev"
    by (intro same_apply_map_past) simp
  then show ?case
    by (cases n; cases n') (auto simp: same_env_def option.rel_map option.rel_refl intro: option.rel_refl)
next
  case (Suc k)
  then obtain j j' where j: "n = Suc j" "n' = Suc j'" by (cases n; cases n') auto
  have "same_env (Suc d) (env_at L m j) (env_at L m j')"
    using Suc(2-4) j by (intro Suc(1)) auto
  then have "same d (apply_map t (run_ctx L (env_at L m j) sts)) (apply_map t (run_ctx L (env_at L m j') sts))" for t sts
    by (intro same_apply_map same_run_ctx)
  then show ?case by (simp add: same_env_def option.rel_map option.rel_refl j)
qed

text \<open>C33: Evaluating an expression leaves the scope it ran in as it was, whether it yields a value or fails: the
  variables, unbound names included, \<open>this\<close>, the message and its metadata, the position in the batch and the depth
  of maps, whatever lambdas, queries, matches, maps and fallbacks the expression nests.\<close>

theorem evaluation_restores_the_scope:
  assumes "om_sorted (vars c)" "eval L (env_at L m n) e c = (r, c')"
  shows "vars c' = vars c \<and> this_v c' = this_v c \<and> cur_msg c' = cur_msg c \<and> meta_in c' = meta_in c \<and>
    all_msgs c' = all_msgs c \<and> batch_index c' = batch_index c \<and> batch_size c' = batch_size c \<and>
    root_init c' = root_init c \<and> apply_depth c' = apply_depth c"
proof -
  have c: "at_depth (apply_depth c) c" by (simp add: at_depth_def)
  have "scope c (snd (eval L (env_at L m n) e c))"
    by (rule tracksD(2) [OF same_eval [OF same_env_itself] c])
  then show ?thesis using assms by (simp add: scope_defs)
qed

text \<open>C34: Every evaluation ends: the depth of maps the code allows bounds the nesting, so the levels of the model are
  enough.  With as many levels as are left up to the limit, or any number more, an expression and a whole mapping give
  the same result and the same context; a map that applies itself ends in the error of the limit.\<close>

theorem nesting_is_bounded:
  assumes "max_apply_depth \<le> apply_depth c + n"
  shows "eval L (env_at L m n) e c = eval L (env_at L m (n + k)) e c \<and>
    run_ctx L (env_at L m n) (statements m) c = run_mapping L m c"
proof -
  have c: "at_depth (apply_depth c) c" by (simp add: at_depth_def)
  have "same_env (apply_depth c) (env_at L m n) (env_at L m (n + k))"
    "same_env (apply_depth c) (env_at L m n) (env_at L m (max_apply_depth - apply_depth c))"
    using assms by (intro same_env_enough; simp)+
  from tracksD(1) [OF same_eval [OF this(1)] c] tracksD(1) [OF same_run_ctx [OF this(2)] c]
  show ?thesis unfolding run_mapping_def by blast
qed

text \<open>A library in which nothing but the interpreter itself is present, and the map that applies itself.\<close>

definition bare_library :: "(int, unit) library" where
  "bare_library = \<lparr>lib_floats = some_floats, lib_parse = some_parser, lib_generator = \<lparr>gen_seed = \<lambda>_. (), gen_draw = \<lambda>g. (0, g)\<rparr>,
     lib_functions = (\<lambda>_. None), lib_methods = (\<lambda>_. None), lib_pattern = (\<lambda>_. Inr ()),
     lib_regex = (\<lambda>_ _ _ _. Inl (Eval_error [])), lib_number = Inr, lib_bool = Inr\<rparr>"

definition loop_node :: "int node" where
  "loop_node = Method (1, 10) (This (1, 8)) (str ''apply'') [Lit (1, 20) (Str (str ''loop''))] [[]]"

definition loop_mapping :: "int mapping" where
  "loop_mapping = \<lparr>statements = [\<lparr>st_target = Root, st_expr = loop_node\<rparr>],
     maps = [(str ''loop'', [\<lparr>st_target = Root, st_expr = loop_node\<rparr>])]\<rparr>"

definition deep_ctx :: "nat \<Rightarrow> (int, unit) ctx" where
  "deep_ctx d = new_ctx\<lparr>this_v := Some Null, vars := [(str ''x'', I64 7)], apply_depth := d\<rparr>"

lemma evaluation_restores_the_scope_witness:
  "vars (snd (eval bare_library (env_at bare_library loop_mapping 2) loop_node (deep_ctx 62))) = [(str ''x'', I64 7)] \<and>
   (\<exists>e. fst (eval bare_library (env_at bare_library loop_mapping 2) loop_node (deep_ctx 62)) = Inl e)"
proof
  have "om_sorted (vars (deep_ctx 62))" by (simp add: deep_ctx_def new_ctx_def)
  from evaluation_restores_the_scope [OF this surjective_pairing]
  show "vars (snd (eval bare_library (env_at bare_library loop_mapping 2) loop_node (deep_ctx 62))) = [(str ''x'', I64 7)]"
    by (simp add: deep_ctx_def new_ctx_def)
  show "\<exists>e. fst (eval bare_library (env_at bare_library loop_mapping 2) loop_node (deep_ctx 62)) = Inl e"
    by (rule exI) code_simp
qed

lemma nesting_is_bounded_witness:
  "eval bare_library (env_at bare_library loop_mapping 2) loop_node (deep_ctx 62)
   = eval bare_library (env_at bare_library loop_mapping (2 + 98)) loop_node (deep_ctx 62)"
proof -
  have "max_apply_depth \<le> apply_depth (deep_ctx 62) + 2" by (simp add: max_apply_depth_def deep_ctx_def new_ctx_def)
  from nesting_is_bounded [OF this, of bare_library loop_mapping loop_node 98] show ?thesis by simp
qed

subsection \<open>Gaps\<close>

text \<open>A type error raised in an argument is blamed on the target of the call.\<close>

lemma error_in_an_argument_is_blamed_on_the_target:
  "fst (eval (bare_library\<lparr>lib_methods := (\<lambda>_. Some (\<lambda>_ _. Inr Null))\<rparr>) (\<lambda>_. None)
      (Method (1, 1) (Lit (1, 1) (Str (str ''s''))) (str ''contains'') [Not (1, 14) (Lit (1, 15) (I64 5))] [[]]) (deep_ctx 0))
   = Inl (Eval_error (str ''expected bool value, got number from string literal ('' @ [0x22] @ str ''s'' @ [0x22] @ str '')''))"
  by code_simp

end
