(* ===== verification/Structured_Laws.thy ===== *)
theory Structured_Laws
  imports Structured
begin

text \<open>
  The laws of \<open>Structured\<close>: reading and writing along a path, and that a changelog reproduces the
  document it was made for.
\<close>

section \<open>Paths\<close>

lemma is_object_code [code]: "is_object v = (case v of Object e \<Rightarrow> True | _ \<Rightarrow> False)"
  by (cases v) (simp_all add: is_object_def)

lemma find_field_object: "find_field k v = Some x \<Longrightarrow> is_object v"
  by (cases v) (auto simp: is_object_def)

lemma walk_path_Cons:
  "walk_path v (k # ks) = (case find_field k v of None \<Rightarrow> None | Some x \<Rightarrow> walk_path x ks)"
  by (cases v) simp_all

declare walk_path.simps(2) [simp del] walk_path_Cons [simp]

lemma set_field_wf_found: "wf_value v \<Longrightarrow> find_field k v = Some x \<Longrightarrow> wf_value x \<and> x \<noteq> Deleted"
proof (cases v)
  case (Object e)
  assume "wf_value v" "find_field k v = Some x"
  then have "(k, x) \<in> set e"
    using Object by (auto simp: om_find_eq_map_of dest: map_of_SomeD)
  then show ?thesis using \<open>wf_value v\<close> Object by (auto simp: list_all_iff)
qed simp_all

lemma set_field_twice: "wf_value v \<Longrightarrow> wf_value x \<Longrightarrow> wf_value y \<Longrightarrow> set_field k y (set_field k x v) = set_field k y v"
  by (rule object_ext) (auto simp: wf_set_field find_set_field)

lemma set_field_same: "wf_value v \<Longrightarrow> find_field k v = Some x \<Longrightarrow> set_field k x v = v"
  using set_field_wf_found [of v k x] find_field_object [of k v x]
  by (intro object_ext) (auto simp: wf_set_field find_set_field)

lemma set_field_not_deleted [simp]: "set_field k x v \<noteq> Deleted"
  by (simp add: set_field_eq)

lemma set_path_not_deleted: "x \<noteq> Deleted \<Longrightarrow> set_path root P x \<noteq> Deleted"
  by (cases P) (simp_all add: Let_def)

lemma wf_set_path: "wf_value root \<Longrightarrow> wf_value x \<Longrightarrow> wf_value (set_path root P x)"
  by (induction root P x rule: set_path.induct)
    (auto simp: Let_def intro!: wf_set_field split: option.split dest: set_field_wf_found)

lemma walk_set_path: "wf_value root \<Longrightarrow> wf_value x \<Longrightarrow> x \<noteq> Deleted \<Longrightarrow> walk_path (set_path root P x) P = Some x"
  by (induction root P x rule: set_path.induct)
    (auto simp: Let_def find_set_field wf_set_path set_path_not_deleted split: option.split dest: set_field_wf_found)

lemma set_path_twice:
  "wf_value root \<Longrightarrow> wf_value x \<Longrightarrow> x \<noteq> Deleted \<Longrightarrow> wf_value y \<Longrightarrow> set_path (set_path root P x) P y = set_path root P y"
proof (induction root P x rule: set_path.induct)
  case (2 root k ks v)
  let ?c = "case find_field k root of Some x \<Rightarrow> x | None \<Rightarrow> Object []"
  have c: "wf_value ?c" using 2 by (auto split: option.split dest: set_field_wf_found)
  have "find_field k (set_field k (set_path ?c ks v) root) = Some (set_path ?c ks v)"
    using 2 c by (simp add: find_set_field set_path_not_deleted)
  then show ?case
    using 2 c by (simp add: Let_def wf_set_path set_field_twice)
qed simp

lemma set_path_same: "wf_value root \<Longrightarrow> walk_path root P = Some a \<Longrightarrow> set_path root P a = root"
proof (induction root P a rule: set_path.induct)
  case (2 root k ks v)
  then obtain c where c: "find_field k root = Some c" "walk_path c ks = Some v" by (auto split: option.splits)
  then have "wf_value c" using 2 set_field_wf_found by blast
  then show ?case using 2 c by (simp add: Let_def set_field_same)
qed simp

lemma set_path_append: "walk_path root P = Some a \<Longrightarrow> set_path root (P @ Q) y = set_path root P (set_path a Q y)"
  by (induction P arbitrary: root) (auto simp: Let_def split: option.splits)

lemma remove_path_Cons:
  "ks \<noteq> [] \<Longrightarrow> remove_path v (k # ks) = (case find_field k v of None \<Rightarrow> v | Some c \<Rightarrow> set_field k (remove_path c ks) v)"
  by (cases ks) (auto split: option.split)

lemma remove_path_append:
  "walk_path root P = Some a \<Longrightarrow> Q \<noteq> [] \<Longrightarrow> remove_path root (P @ Q) = set_path root P (remove_path a Q)"
  by (induction P arbitrary: root) (auto simp: Let_def remove_path_Cons split: option.splits)

lemma walk_wf: "wf_value root \<Longrightarrow> walk_path root P = Some a \<Longrightarrow> wf_value a"
  by (induction P arbitrary: root) (auto split: option.splits dest: set_field_wf_found)

section \<open>Changelogs\<close>

lemma want_strings_Str [simp]: "want_strings (map Str p) = Inr p"
  by (induction p) simp_all

lemma patch_change:
  assumes "wf_value f" "wf_value t" "t \<noteq> Deleted" "P \<noteq> []"
  shows "patch_one out (change P (str ''delete'') f t) = Inr (remove_path out P)"
    "patch_one out (change P (str ''create'') f t) = Inr (set_path out P t)"
    "patch_one out (change P (str ''update'') f t) = Inr (set_path out P t)"
proof -
  have p: "wf_value (Array (map Str P))" by (simp add: list_all_iff)
  have k: "str ''Type'' \<noteq> str ''Path''" "str ''Type'' \<noteq> str ''To''" "str ''Path'' \<noteq> str ''To''"
    "str ''Path'' \<noteq> str ''From''" by (simp_all add: str_def)
  have d: "str ''create'' \<noteq> str ''delete''" "str ''update'' \<noteq> str ''delete''" "str ''update'' \<noteq> str ''create''"
    by (simp_all add: str_def)
  define c where "c = set_field (str ''To'') t
       (set_field (str ''Path'') (Array (map Str P)) (set_field (str ''From'') f (Object [])))"
  have c: "wf_value c" "find_field (str ''Path'') c = Some (Array (map Str P))" "find_field (str ''To'') c = Some t"
    unfolding c_def using assms k by (simp_all add: find_set_field wf_set_field p del: wf_value.simps(1))
  have "change P type f t = set_field (str ''Type'') (Str type) c" for type
    by (simp add: change_def c_def)
  moreover have "find_field j (set_field (str ''Type'') (Str type) c)
      = (if j = str ''Type'' then Some (Str type) else find_field j c)" for j type
    using c(1) by (simp add: find_set_field)
  ultimately show "patch_one out (change P (str ''delete'') f t) = Inr (remove_path out P)"
    "patch_one out (change P (str ''create'') f t) = Inr (set_path out P t)"
    "patch_one out (change P (str ''update'') f t) = Inr (set_path out P t)"
    using assms(4) c k d by (simp_all add: patch_one_def)
qed

fun array_free :: "'f val \<Rightarrow> bool" where
  "array_free (Array _) \<longleftrightarrow> False"
| "array_free (Object e) \<longleftrightarrow> list_all (\<lambda>(k, v). array_free v) e"
| "array_free _ \<longleftrightarrow> True"

text \<open>Equal up to the spelling of the scalars: under the same keys equal values.\<close>

fun agree :: "'f floats \<Rightarrow> 'f val \<Rightarrow> 'f val \<Rightarrow> bool" where
  "agree F (Object e) w \<longleftrightarrow> w = Object e \<or> (\<exists>e'. w = Object e' \<and> list_all2 (\<lambda>(k, x) (j, y). k = j \<and> agree F x y) e e')"
| "agree F v w \<longleftrightarrow> v = w \<or> value_eq F v w"

lemma patch_all_append: "patch_all out (xs @ ys) = rbind (patch_all out xs) (\<lambda>o'. patch_all o' ys)"
  by (induction xs arbitrary: out) (simp_all add: rbind_def split: sum.split)

lemma agree_refl [simp]: "agree F v v"
  by (cases v) auto

lemma agree_fields:
  assumes "wf_value v" "wf_value w" "is_object v" "is_object w"
    and rel: "\<And>k. rel_option (agree F) (find_field k v) (find_field k w)"
  shows "agree F v w"
proof -
  obtain e d where v: "v = Object e" and w: "w = Object d" using assms by (auto simp: is_object_def)
  have s: "om_sorted e" "om_sorted d" using assms v w by auto
  have m: "find_field k v = map_of e k" "find_field k w = map_of d k" for k
    using s v w by (simp_all add: om_find_eq_map_of)
  have "fst ` set e = fst ` set d"
  proof (rule set_eqI)
    show "k \<in> fst ` set e \<longleftrightarrow> k \<in> fst ` set d" for k
      using rel [of k] unfolding m by (cases "map_of e k"; cases "map_of d k") (auto simp: map_of_eq_None_iff dest: map_of_SomeD intro: rev_image_eqI)
  qed
  then have keys: "map fst e = map fst d"
    using s unfolding om_sorted_def by (intro sorted_distinct_set_unique) (auto simp: strict_sorted_iff)
  have "list_all2 (\<lambda>(k, x) (j, y). k = j \<and> agree F x y) e d"
    unfolding list_all2_conv_all_nth
  proof (intro conjI allI impI)
    show l: "length e = length d" using keys by (metis length_map)
    fix i assume i: "i < length e"
    have k: "fst (e ! i) = fst (d ! i)" using keys i l by (metis nth_map)
    have "map_of e (fst (e ! i)) = Some (snd (e ! i))" "map_of d (fst (d ! i)) = Some (snd (d ! i))"
      using s i l by (auto simp: om_sorted_distinct intro!: map_of_is_SomeI)
    then have "agree F (snd (e ! i)) (snd (d ! i))" using rel [of "fst (e ! i)"] k unfolding m by auto
    then show "(case e ! i of (k, x) \<Rightarrow> \<lambda>(j, y). k = j \<and> agree F x y) (d ! i)" using k by (auto split: prod.split)
  qed
  then show ?thesis by (auto simp: v w)
qed

lemma patch_creates:
  assumes "wf_value root" "walk_path root P = Some cur" "is_object cur"
    and "\<forall>(k, x) \<in> set ns. wf_value x \<and> x \<noteq> Deleted"
  shows "patch_all root (map (\<lambda>(k, x). change (P @ [k]) (str ''create'') Null x) ns) = Inr (set_path root P (assign ns cur))"
  using assms
proof (induction ns arbitrary: root cur)
  case Nil
  then show ?case by (simp add: set_path_same)
next
  case (Cons n ns)
  obtain k x where n: "n = (k, x)" by fastforce
  let ?r = "set_path root P (set_field k x cur)"
  have c: "wf_value cur" using Cons.prems walk_wf by blast
  then have w: "wf_value (set_field k x cur)" using Cons.prems n by (simp add: wf_set_field)
  have one: "patch_one root (change (P @ [k]) (str ''create'') Null x) = Inr ?r"
    using Cons.prems n by (simp add: patch_change set_path_append Let_def)
  have "patch_all ?r (map (\<lambda>(k, x). change (P @ [k]) (str ''create'') Null x) ns) = Inr (set_path ?r P (assign ns (set_field k x cur)))"
    using Cons.prems w by (intro Cons.IH) (simp_all add: wf_set_path walk_set_path)
  moreover have "wf_value (assign ns (set_field k x cur))" using Cons.prems w by (intro assign_wf) auto
  ultimately show ?case using one Cons.prems w by (simp add: n set_path_twice)
qed

lemma concat_map_if: "concat (map (\<lambda>x. if p x then [] else [f x]) xs) = map f (filter (\<lambda>x. \<not> p x) xs)"
  by (induction xs) simp_all

definition patches_to :: "'f floats \<Rightarrow> bytes list \<Rightarrow> 'f val \<Rightarrow> 'f val \<Rightarrow> bool" where
  "patches_to F path v to \<longleftrightarrow> (\<forall>root. wf_value root \<longrightarrow> walk_path root path = Some v \<longrightarrow>
     (path \<noteq> [] \<or> is_object v \<and> is_object to) \<longrightarrow>
     (\<exists>c. patch_all root (diff_into F path v to) = Inr (set_path root path c) \<and> wf_value c \<and> c \<noteq> Deleted \<and> agree F c to))"

definition patches_entries :: "'f floats \<Rightarrow> bytes list \<Rightarrow> (bytes \<times> 'f val) list \<Rightarrow> 'f val \<Rightarrow> bool" where
  "patches_entries F path e to \<longleftrightarrow> (\<forall>root cur. wf_value root \<longrightarrow> walk_path root path = Some cur \<longrightarrow> is_object cur \<longrightarrow>
     (\<forall>(k, el) \<in> set e. find_field k cur = Some el) \<longrightarrow>
     (\<exists>c. patch_all root (diff_entries F path e to) = Inr (set_path root path c) \<and> wf_value c \<and> is_object c \<and>
       (\<forall>k. if k \<in> fst ` set e then rel_option (agree F) (find_field k c) (find_field k to)
            else find_field k c = find_field k cur)))"

lemma patches_update:
  assumes "wf_value to" "to \<noteq> Deleted" "path \<noteq> []" "diff_into F path v to = [change path (str ''update'') v to]"
    "wf_value v"
  shows "patches_to F path v to"
  using assms unfolding patches_to_def by (auto simp: patch_change)

lemma patches_scalar:
  assumes "wf_value to" "to \<noteq> Deleted" "wf_value v" "v \<noteq> Deleted" "\<not> is_object v" "\<not> (\<exists>a. v = Array a)"
  shows "patches_to F path v to"
proof -
  have d: "diff_into F path v to = (if value_eq F v to then [] else [change path (str ''update'') v to])"
    using assms(5,6) by (cases v) (auto simp: is_object_def)
  show ?thesis
  proof (cases "value_eq F v to")
    case True
    moreover have "agree F v to" using True assms(5) by (cases v) (auto simp: is_object_def)
    ultimately show ?thesis
      using d assms(3,4) unfolding patches_to_def by (intro allI impI exI [of _ v]) (simp add: set_path_same)
  next
    case False
    then show ?thesis using d assms unfolding patches_to_def by (auto simp: patch_change)
  qed
qed

lemma patches_entry:
  assumes rest: "patches_entries F path e to" and k: "k \<notin> fst ` set e"
    and child: "\<And>other. find_field k to = Some other \<Longrightarrow> patches_to F (path @ [k]) el other"
  shows "patches_entries F path ((k, el) # e) to"
  unfolding patches_entries_def
proof (intro allI impI)
  fix root cur
  assume root: "wf_value root" "walk_path root path = Some cur" "is_object cur"
    and found: "\<forall>(j, x) \<in> set ((k, el) # e). find_field j cur = Some x"
  have cur: "wf_value cur" using root walk_wf by blast
  have el: "find_field k cur = Some el" "wf_value el" "el \<noteq> Deleted"
    using found set_field_wf_found [OF cur] by auto
  have at: "walk_path root (path @ [k]) = Some el"
    using root(2) el by (induction path arbitrary: root) (auto split: option.splits)
  obtain cur' where step: "patch_all root (case find_field k to of Some other \<Rightarrow> diff_into F (path @ [k]) el other
        | None \<Rightarrow> [change (path @ [k]) (str ''delete'') el Null]) = Inr (set_path root path cur')"
      and c': "wf_value cur'" "is_object cur'" "rel_option (agree F) (find_field k cur') (find_field k to)"
        "\<forall>j. j \<noteq> k \<longrightarrow> find_field j cur' = find_field j cur"
  proof (cases "find_field k to")
    case None
    have "patch_one root (change (path @ [k]) (str ''delete'') el Null) = Inr (set_path root path (remove_field k cur))"
      using el root by (simp add: patch_change remove_path_append)
    moreover have "is_object (remove_field k cur)" using root(3) by (auto simp: is_object_def)
    ultimately show ?thesis
      using None cur by (intro that [of "remove_field k cur"]) (simp_all add: wf_remove_field find_remove_field)
  next
    case (Some other)
    then obtain c where c: "patch_all root (diff_into F (path @ [k]) el other) = Inr (set_path root (path @ [k]) c)"
        "wf_value c" "c \<noteq> Deleted" "agree F c other"
      using child root at unfolding patches_to_def by blast
    then show ?thesis
      using Some cur root(2) by (intro that [of "set_field k c cur"])
        (simp_all add: wf_set_field find_set_field set_path_append [OF root(2)] Let_def)
  qed
  let ?r = "set_path root path cur'"
  have d: "cur' \<noteq> Deleted" using c'(2) by (auto simp: is_object_def)
  have r: "wf_value ?r" "walk_path ?r path = Some cur'"
    using root c' d by (simp_all add: wf_set_path walk_set_path)
  have found': "\<forall>(j, x) \<in> set e. find_field j cur' = Some x"
  proof clarify
    fix j x assume j: "(j, x) \<in> set e"
    then have "j \<noteq> k" using k by (auto intro: rev_image_eqI)
    then show "find_field j cur' = Some x" using found j spec [OF c'(4), of j] by fastforce
  qed
  obtain c where c: "patch_all ?r (diff_entries F path e to) = Inr (set_path ?r path c)" "wf_value c" "is_object c"
      "\<forall>j. if j \<in> fst ` set e then rel_option (agree F) (find_field j c) (find_field j to)
           else find_field j c = find_field j cur'"
    using rest r c'(2) found' unfolding patches_entries_def by blast
  have "patch_all root (diff_entries F path ((k, el) # e) to) = Inr (set_path root path c)"
    using step c(1) set_path_twice [OF root(1) c'(1) d c(2)] by (simp only: diff_entries.simps patch_all_append rbind_simps)
  moreover have "\<forall>j. if j \<in> fst ` set ((k, el) # e) then rel_option (agree F) (find_field j c) (find_field j to)
           else find_field j c = find_field j cur"
  proof
    fix j
    show "if j \<in> fst ` set ((k, el) # e) then rel_option (agree F) (find_field j c) (find_field j to)
           else find_field j c = find_field j cur"
      using spec [OF c(4), of j] c'(3) spec [OF c'(4), of j] k by (cases "j = k") simp_all
  qed
  ultimately show "\<exists>c. patch_all root (diff_entries F path ((k, el) # e) to) = Inr (set_path root path c) \<and>
      wf_value c \<and> is_object c \<and> (\<forall>j. if j \<in> fst ` set ((k, el) # e) then rel_option (agree F) (find_field j c) (find_field j to)
           else find_field j c = find_field j cur)"
    using c(2,3) by blast
qed

lemma find_assign_distinct:
  "wf_value c \<Longrightarrow> \<forall>(k, x) \<in> set ns. wf_value x \<and> x \<noteq> Deleted \<Longrightarrow> distinct (map fst ns) \<Longrightarrow>
   find_field k (assign ns c) = (case map_of ns k of Some x \<Rightarrow> Some x | None \<Rightarrow> find_field k c)"
proof (induction ns arbitrary: c)
  case (Cons n ns)
  obtain j x where n: "n = (j, x)" by fastforce
  have "find_field k (assign ns (set_field j x c)) = (case map_of ns k of Some x \<Rightarrow> Some x | None \<Rightarrow> find_field k (set_field j x c))"
    using Cons n by (intro Cons.IH) (simp_all add: wf_set_field)
  moreover have "map_of ns j = None" using Cons.prems n by (simp add: map_of_eq_None_iff)
  ultimately show ?case using Cons.prems n by (auto simp: find_set_field split: option.split)
qed simp

lemma map_of_filter_keys: "map_of (filter (\<lambda>(k, x). p k) xs) k = (if p k then map_of xs k else None)"
  by (induction xs) auto

lemma diff_patches:
  "wf_value to \<Longrightarrow> to \<noteq> Deleted \<Longrightarrow> wf_value v \<Longrightarrow> v \<noteq> Deleted \<Longrightarrow> array_free v \<Longrightarrow> patches_to F path v to"
  "wf_value to \<Longrightarrow> list_all (\<lambda>(k, x). array_free x \<and> wf_value x \<and> x \<noteq> Deleted) e \<Longrightarrow> distinct (map fst e) \<Longrightarrow>
   patches_entries F path e to"
  "diff_items F path i as bs = diff_items F path i as bs"
proof (induction F path v to and F path e to and F path i as bs
    rule: diff_into_diff_entries_diff_items.induct)
  case (1 F path e to)
  show ?case
  proof (cases "is_object to")
    case False
    then have "diff_into F path (Object e) to = [change path (str ''update'') (Object e) to]"
      by (cases to) (auto simp: is_object_def)
    then show ?thesis
      using 1 False unfolding patches_to_def by (auto simp: patch_change)
  next
    case True
    then obtain e' where to: "to = Object e'" by (auto simp: is_object_def)
    let ?fresh = "filter (\<lambda>(k, el). find_field k (Object e) = None) e'"
    have ne: "list_all (\<lambda>(k, x). array_free x \<and> wf_value x \<and> x \<noteq> Deleted) e" "distinct (map fst e)"
      using 1 by (auto simp: list_all_iff om_sorted_distinct)
    have d: "diff_into F path (Object e) to = diff_entries F path e to @
        map (\<lambda>(k, x). change (path @ [k]) (str ''create'') Null x) ?fresh"
      unfolding to by (simp add: concat_map_if case_prod_unfold)
    have new: "\<forall>(k, x) \<in> set ?fresh. wf_value x \<and> x \<noteq> Deleted"
      using 1 to by (auto simp: list_all_iff)
    show ?thesis
      unfolding patches_to_def
    proof (intro allI impI)
      fix root assume root: "wf_value root" "walk_path root path = Some (Object e)"
      have found: "\<forall>(k, el) \<in> set e. find_field k (Object e) = Some el"
        using 1 by (auto simp: om_find_mem)
      obtain c where c: "patch_all root (diff_entries F path e to) = Inr (set_path root path c)" "wf_value c" "is_object c"
        "\<forall>k. if k \<in> fst ` set e then rel_option (agree F) (find_field k c) (find_field k to)
             else find_field k c = find_field k (Object e)"
      proof -
        have "patches_entries F path e to" by (rule 1(1) [OF to 1(2) ne])
        from this [unfolded patches_entries_def, THEN spec, THEN spec, THEN mp, OF root(1), THEN mp, OF root(2),
            THEN mp, OF is_object_def [THEN iffD2, OF exI, OF refl], THEN mp, OF found]
        show thesis using that by blast
      qed
      have cd: "c \<noteq> Deleted" using c(3) by (auto simp: is_object_def)
      let ?r = "set_path root path c"
      let ?c = "assign ?fresh c"
      have wf: "wf_value ?c" "is_object ?c" using new c(2,3) by (auto intro!: assign_wf assign_object)
      have "patch_all ?r (map (\<lambda>(k, x). change (path @ [k]) (str ''create'') Null x) ?fresh) = Inr (set_path ?r path ?c)"
        using root c cd new by (intro patch_creates) (simp_all add: wf_set_path walk_set_path)
      then have "patch_all root (diff_into F path (Object e) to) = Inr (set_path root path ?c)"
        unfolding d patch_all_append c(1) rbind_simps using set_path_twice [OF root(1) c(2) cd wf(1)] by simp
      moreover have "rel_option (agree F) (find_field k ?c) (find_field k to)" for k
      proof -
        have "distinct (map fst ?fresh)" using 1 to by (simp add: om_sorted_distinct distinct_map_filter)
        then have f: "find_field k ?c = (case map_of ?fresh k of Some x \<Rightarrow> Some x | None \<Rightarrow> find_field k c)"
          using c(2) new by (intro find_assign_distinct) auto
        have e: "find_field k (Object e) = None \<longleftrightarrow> k \<notin> fst ` set e" "find_field k to = map_of e' k"
          using 1 to by (simp_all add: om_find_eq_map_of map_of_eq_None_iff)
        show ?thesis
          using spec [OF c(4), of k] e f
          by (cases "k \<in> fst ` set e"; cases "map_of e' k") (simp_all add: map_of_filter_keys option.rel_refl)
      qed
      then have "agree F ?c to" using wf 1 True by (intro agree_fields) auto
      ultimately show "\<exists>c. patch_all root (diff_into F path (Object e) to) = Inr (set_path root path c) \<and>
          wf_value c \<and> c \<noteq> Deleted \<and> agree F c to"
        using wf by (auto simp: is_object_def)
    qed
  qed
next
  case (4 F path to)
  have "patch_all root (diff_entries F path [] to) = Inr (set_path root path cur) \<and> wf_value cur"
    if "wf_value root" "walk_path root path = Some cur" for root cur
    using that by (auto simp: set_path_same dest: walk_wf)
  then show ?case unfolding patches_entries_def by force
next
  case (5 F path k el e to)
  then show ?case by (intro patches_entry) (auto dest: set_field_wf_found)
qed (simp_all add: patches_scalar is_object_def)

text \<open>C30: A changelog reproduces the document it was made for: applying what \<open>diff\<close> recorded from one object to another
  with \<open>patch\<close> yields an object with exactly the keys of the other, at every depth, and equal values under them,
  provided the first one holds no arrays.\<close>

theorem patch_applies_diff:
  assumes "wf_value v" "wf_value w" "is_object v" "is_object w" "array_free v"
  shows "\<exists>c. rbind (diff F v w) (patch v) = Inr c \<and> wf_value c \<and> agree F c w"
proof -
  have "v \<noteq> Deleted" "w \<noteq> Deleted" using assms by (auto simp: is_object_def)
  then have "patches_to F [] v w" using assms by (intro diff_patches)
  then obtain c where "patch_all v (diff_into F [] v w) = Inr c" "wf_value c" "agree F c w"
    using assms unfolding patches_to_def by auto
  then show ?thesis by (auto simp: diff_def patch_def)
qed

definition before_doc :: "int val" where
  "before_doc = Object [(str ''a'', I64 1), (str ''b'', Object [(str ''c'', Null), (str ''d'', I64 2)])]"

definition after_doc :: "int val" where
  "after_doc = Object [(str ''b'', Object [(str ''d'', I64 3)]), (str ''e'', Array [Null])]"

lemma patch_applies_diff_witness:
  "\<exists>c. rbind (diff some_floats before_doc after_doc) (patch before_doc) = Inr c \<and> wf_value c \<and> agree some_floats c after_doc"
proof (rule patch_applies_diff)
  show "wf_value before_doc" "wf_value after_doc" by code_simp+
  show "array_free before_doc" by code_simp
qed (simp_all add: before_doc_def after_doc_def is_object_def)

text \<open>With an array the index becomes the key of an object: the patched document is another one.\<close>

lemma patch_destroys_arrays:
  "rbind (diff some_floats (Object [(str ''a'', Array [I64 1, I64 2])]) (Object [(str ''a'', Array [I64 1, I64 3])]))
     (patch (Object [(str ''a'', Array [I64 1, I64 2])]))
   = Inr (Object [(str ''a'', Object [(str ''1'', I64 3)])])"
  by code_simp

text \<open>A change at the root cannot be applied: its path is empty.\<close>

lemma root_update_is_refused:
  "rbind (diff some_floats (I64 1) (I64 2)) (patch (I64 1)) = Inl (Eval_error (str ''changelog entry has an empty Path''))"
  by code_simp

end
