(* ===== verification/Processors.thy ===== *)
theory Processors
  imports Interp
begin

text \<open>
  \<open>components/processors.cc\<close> and the mapping processor of \<open>components/basic.cc\<close>.  A processor is an effect over
  the state of the world (caches, limits, the contexts that outlive a call), which turns a batch into
  batches or throws.  A compiled mapping runs on the context it is given; the functions behind
  compression, logging, sleeping, rate limits and caches are parameters.  A store that a message
  caches on being read is not an observation (theory \<open>Messages\<close>), so the processors read messages
  through \<open>bytes_of\<close> and \<open>value_of\<close>.  A batch that a mapping sees through the context is the batch as it
  was when the mapping started.
\<close>

type_synonym 'f msgs = "'f msg list"
type_synonym ('s, 'f) proc = "'f msgs \<Rightarrow> ('s, 'f msgs list) eff"

section \<open>Chains\<close>

definition non_empty :: "'f msgs list \<Rightarrow> 'f msgs list" where
  "non_empty bs = filter (\<lambda>b. b \<noteq> []) bs"

fun chain_stage :: "('s, 'f) proc \<Rightarrow> 'f msgs list \<Rightarrow> ('s, 'f msgs list) eff" where
  "chain_stage p [] = ret []"
| "chain_stage p (cur # rest) =
     (if cur = [] then chain_stage p rest
      else andthen (p cur) (\<lambda>out. andthen (chain_stage p rest) (\<lambda>next. ret (non_empty out @ next))))"

fun chain_stages :: "('s, 'f) proc list \<Rightarrow> 'f msgs list \<Rightarrow> ('s, 'f msgs list) eff" where
  "chain_stages [] bs = ret bs"
| "chain_stages (p # ps) bs = andthen (chain_stage p bs) (\<lambda>next. if next = [] then ret [] else chain_stages ps next)"

definition run_chain :: "('s, 'f) proc list \<Rightarrow> ('s, 'f) proc" where
  "run_chain ps b = chain_stages ps [b]"

definition noop :: "('s, 'f) proc" where
  "noop b = ret [b]"

text \<open>What a filtering processor leaves: nothing instead of an empty batch.\<close>

definition unless_empty :: "'f msgs \<Rightarrow> 'f msgs list" where
  "unless_empty b = (if b = [] then [] else [b])"

section \<open>Unarchive and archive\<close>

text \<open>Each part is a copy of its message with another body; an error it carries is copied too.\<close>

definition derive :: "'f msg \<Rightarrow> bytes \<Rightarrow> 'f msg" where
  "derive from body = snd (set_mapped (Str body) from)"

text \<open>Where the document at the front of a text ends, in bytes.\<close>

fun json_document_end :: "int \<Rightarrow> bool \<Rightarrow> bool \<Rightarrow> bytes \<Rightarrow> nat" where
  "json_document_end depth in_str esc [] = 0"
| "json_document_end depth in_str esc (c # cs) =
     (if in_str then
        if esc then Suc (json_document_end depth True False cs)
        else if c = 0x5C then Suc (json_document_end depth True True cs)
        else Suc (json_document_end depth (c \<noteq> 0x22) False cs)
      else if c = 0x22 then Suc (json_document_end depth True esc cs)
      else if c = 0x7B \<or> c = 0x5B then Suc (json_document_end (depth + 1) False esc cs)
      else if c = 0x7D \<or> c = 0x5D then
        if depth - 1 = 0 then 1 else Suc (json_document_end (depth - 1) False esc cs)
      else if depth = 0 \<and> isspace c then 0
      else Suc (json_document_end depth False esc cs))"

lemma json_document_end_pos: "\<not> isspace c \<Longrightarrow> 0 < json_document_end 0 False False (c # cs)"
  by (simp add: Let_def)

text \<open>The parts of a stream of documents; those before a document that does not parse are kept.\<close>

function expand_documents :: "'f floats \<Rightarrow> 'f parser \<Rightarrow> 'f msg \<Rightarrow> bytes \<Rightarrow> 'f msgs \<times> eval_error option" where
  "expand_documents F parse m s =
     (case dropWhile isspace s of
        [] \<Rightarrow> ([], None)
      | c # cs \<Rightarrow>
          let n = json_document_end 0 False False (c # cs)
          in case parse (take n (c # cs)) of
               Inl e \<Rightarrow> ([], Some e)
             | Inr v \<Rightarrow> (case expand_documents F parse m (drop n (c # cs)) of
                 (ms, e) \<Rightarrow> (derive m (to_json F v) # ms, e)))"
  by pat_completeness auto
termination
proof (relation "measure (\<lambda>(_, _, _, s). length s)", goal_cases)
  case (2 F parse m s c cs n v)
  have "\<not> isspace c" using 2(1) by (simp add: dropWhile_eq_Cons_conv)
  then have "0 < n" using json_document_end_pos 2(2) by simp
  moreover have "length (dropWhile isspace s) \<le> length s" by (rule length_dropWhile_le)
  ultimately show ?case using 2(1) by simp
qed simp

declare expand_documents.simps [simp del]

definition expand :: "'f floats \<Rightarrow> 'f parser \<Rightarrow> bytes \<Rightarrow> 'f msg \<Rightarrow> 'f msgs \<times> eval_error option" where
  "expand F parse fmt m =
     (if fmt = str ''lines'' then (map (derive m) (pieces [0x0A] (bytes_of F m)), None)
      else if fmt = str ''json_array'' then
        (case value_of F parse m of
           Inl e \<Rightarrow> ([], Some e)
         | Inr (Array els) \<Rightarrow> (map (\<lambda>e. derive m (to_json F e)) els, None)
         | Inr v \<Rightarrow> ([], Some (Eval_error (str ''failed to parse message into JSON array: got '' @ type_name v))))
      else if fmt = str ''json_map'' then
        (case value_of F parse m of
           Inl e \<Rightarrow> ([], Some e)
         | Inr (Object es) \<Rightarrow> (map (\<lambda>(k, v). set_meta (str ''archive_key'') (Str k) (derive m (to_json F v))) es, None)
         | Inr v \<Rightarrow> ([], Some (Eval_error (str ''failed to parse message into JSON map: got '' @ type_name v))))
      else if fmt = str ''json_documents'' then expand_documents F parse m (bytes_of F m)
      else ([], Some (Eval_error (str ''unarchive format '' @ [0x27] @ fmt @ [0x27] @ str '' is not implemented by swordfish''))))"

fun unarchive_parts :: "'f floats \<Rightarrow> 'f parser \<Rightarrow> bytes \<Rightarrow> 'f msgs \<Rightarrow> 'f msgs" where
  "unarchive_parts F parse fmt [] = []"
| "unarchive_parts F parse fmt (m # ms) =
     (case expand F parse fmt m of (parts, e) \<Rightarrow>
        parts @ (case e of None \<Rightarrow> [] | Some e \<Rightarrow> [set_error_text (what e) m]) @ unarchive_parts F parse fmt ms)"

definition unarchive :: "'f floats \<Rightarrow> 'f parser \<Rightarrow> bytes \<Rightarrow> ('s, 'f) proc" where
  "unarchive F parse fmt b = ret (unless_empty (unarchive_parts F parse fmt b))"

definition archive_item :: "'f floats \<Rightarrow> 'f parser \<Rightarrow> 'f msg \<Rightarrow> 'f val" where
  "archive_item F parse m = (case value_of F parse m of Inr v \<Rightarrow> v | Inl _ \<Rightarrow> Str (bytes_of F m))"

definition archive :: "'f floats \<Rightarrow> 'f parser \<Rightarrow> bytes \<Rightarrow> ('s, 'f) proc" where
  "archive F parse fmt b =
     (if b = [] then ret []
      else if fmt = str ''json_array''
      then ret [[set_bytes (to_json F (Array (map (archive_item F parse) b))) (hd b)]]
      else if fmt = str ''lines'' \<or> fmt = str ''concatenate''
      then ret [[set_bytes (joined (if fmt = str ''lines'' then [0x0A] else []) (map (bytes_of F) b)) (hd b)]]
      else ret [[set_error_text (str ''archive format '' @ [0x27] @ fmt @ [0x27] @ str '' is not implemented by swordfish'') (hd b)]])"

section \<open>The shape of a batch\<close>

definition select_parts :: "int list \<Rightarrow> ('s, 'f) proc" where
  "select_parts parts b =
     (let n = int (length b);
          pick = (\<lambda>idx. let i = (if idx < 0 then n + idx else idx) in if i < 0 \<or> i \<ge> n then [] else [b ! nat i])
      in ret (unless_empty (concat (map pick parts))))"

definition insert_at :: "int \<Rightarrow> nat \<Rightarrow> nat" where
  "insert_at index n = nat (if index < 0 then max (int n + index + 1) 0 else if index > int n then int n else index)"

text \<open>The context of a mapping that is run for one message of a batch.\<close>

definition msg_ctx :: "'f floats \<Rightarrow> 'f parser \<Rightarrow> 'f msgs \<Rightarrow> nat \<Rightarrow> 'f msg \<Rightarrow> ('f, 'r) ctx \<Rightarrow> ('f, 'r) ctx" where
  "msg_ctx F parse b i m c = c\<lparr>all_msgs := Some b, batch_size := of_nat (length b), batch_index := of_nat i,
     this_v := (case value_of F parse m of Inr v \<Rightarrow> Some v | Inl _ \<Rightarrow> None),
     cur_msg := Some m, meta_in := Some (meta (content m))\<rparr>"

text \<open>The metadata a mapping wrote through its context.\<close>

definition write_meta :: "('f, 'r) ctx \<Rightarrow> 'f msg \<Rightarrow> 'f msg" where
  "write_meta c m = (case out_meta c of None \<Rightarrow> m | Some md \<Rightarrow> upd (meta_update (\<lambda>_. md)) m)"

definition insert_part :: "'f floats \<Rightarrow> 'f parser \<Rightarrow> int \<Rightarrow> ('f, 'r) mapping_fn \<Rightarrow> ('s, 'f) proc" where
  "insert_part F parse index content_fn b =
     (let i = insert_at index (length b);
          c = (case b of [] \<Rightarrow> new_ctx\<lparr>all_msgs := Some b, batch_size := 0, batch_index := 0\<rparr> | m # _ \<Rightarrow> msg_ctx F parse b 0 m new_ctx)
      in case fst (content_fn c) of
           Inl e \<Rightarrow> ret [b]
         | Inr v \<Rightarrow> ret [take i b @ [snd (set_mapped v new_message)] @ drop i b])"

definition bounds_check :: "'f floats \<Rightarrow> int \<Rightarrow> int \<Rightarrow> int \<Rightarrow> int \<Rightarrow> ('s, 'f) proc" where
  "bounds_check F max_part min_part max_parts min_parts b =
     (let n = int (length b)
      in if n < min_parts \<or> n > max_parts then ret []
         else if \<exists>m \<in> set b. int (length (bytes_of F m)) < min_part \<or> int (length (bytes_of F m)) > max_part then ret []
         else ret [b])"

fun split_from :: "'f floats \<Rightarrow> int \<Rightarrow> int \<Rightarrow> 'f msgs \<Rightarrow> int \<Rightarrow> 'f msgs \<Rightarrow> 'f msgs list" where
  "split_from F limit byte_limit cur bytes [] = unless_empty cur"
| "split_from F limit byte_limit cur bytes (m # ms) =
     (let sz = int (length (bytes_of F m));
          full = (if byte_limit > 0 then cur \<noteq> [] \<and> bytes + sz > byte_limit else int (length cur) \<ge> limit)
      in if full then cur # split_from F limit byte_limit [m] sz ms
         else split_from F limit byte_limit (cur @ [m]) (bytes + sz) ms)"

definition split_batch :: "'f floats \<Rightarrow> int \<Rightarrow> int \<Rightarrow> ('s, 'f) proc" where
  "split_batch F limit byte_limit b = ret (split_from F limit byte_limit [] 0 b)"

definition codec_one :: "'f floats \<Rightarrow> bytes \<Rightarrow> (bytes \<Rightarrow> eval_error + bytes) \<Rightarrow> 'f msg \<Rightarrow> 'f msg" where
  "codec_one F name run m =
     (case run (bytes_of F m) of
        Inr s \<Rightarrow> set_bytes s m
      | Inl e \<Rightarrow> set_error_text (name @ str '': '' @ what e) m)"

definition codec_batch :: "'f floats \<Rightarrow> bool \<Rightarrow> (bytes \<Rightarrow> eval_error + bytes) \<Rightarrow> ('s, 'f) proc" where
  "codec_batch F compressing run b =
     ret (unless_empty (map (codec_one F (if compressing then str ''compress'' else str ''decompress'') run) b))"

text \<open>Which routine an algorithm names: compression and decompression by each library, with the level where it has one.\<close>

record codec_routines =
  rt_gzip :: "bytes \<Rightarrow> eval_error + bytes"
  rt_zlib :: "bytes \<Rightarrow> eval_error + bytes"
  rt_flate :: "bytes \<Rightarrow> eval_error + bytes"
  rt_snappy :: "bytes \<Rightarrow> eval_error + bytes"
  rt_lz4 :: "bytes \<Rightarrow> eval_error + bytes"
  rt_zstd :: "bytes \<Rightarrow> eval_error + bytes"
  rt_bzip2 :: "bytes \<Rightarrow> eval_error + bytes"

definition codec_apply :: "bool \<Rightarrow> codec_routines \<Rightarrow> bytes \<Rightarrow> bytes \<Rightarrow> eval_error + bytes" where
  "codec_apply compressing R alg s =
     (if alg = str ''gzip'' \<or> alg = str ''pgzip'' then rt_gzip R s
      else if alg = str ''zlib'' then rt_zlib R s
      else if alg = str ''flate'' then rt_flate R s
      else if alg = str ''snappy'' then rt_snappy R s
      else if alg = str ''lz4'' then rt_lz4 R s
      else if alg = str ''zstd'' then rt_zstd R s
      else if alg = str ''bzip2'' \<and> \<not> compressing then rt_bzip2 R s
      else Inl (Eval_error (str ''algorithm '' @ [0x27] @ alg @ [0x27] @ str '' is not implemented by swordfish'')))"


section \<open>Branches and workflows\<close>

text \<open>What the request mapping makes of one message: a request, a declined message or a failure.\<close>

datatype 'f asked = Request "'f msg" | Declined | Unasked failure

definition ask :: "'f floats \<Rightarrow> 'f parser \<Rightarrow> ('f, 'r) mapping_fn option \<Rightarrow> 'f msgs \<Rightarrow> nat \<Rightarrow> 'f msg \<Rightarrow> 'f asked" where
  "ask F parse request b i m =
     (case request of
        None \<Rightarrow> Request m
      | Some f \<Rightarrow>
          (case f (msg_ctx F parse b i m new_ctx\<lparr>out_meta := Some (meta (content m))\<rparr>) of
             (Inl e, c) \<Rightarrow> Unasked (str ''request mapping failed: '' @ what e)
           | (Inr v, c) \<Rightarrow>
               if v = Deleted then Declined
               else Request (snd (set_mapped v (write_meta c m)))))"

text \<open>The loop over the batch: a failure is written on the message of the batch at once, where later requests see it.\<close>

fun ask_all :: "'f floats \<Rightarrow> 'f parser \<Rightarrow> ('f, 'r) mapping_fn option \<Rightarrow> nat \<Rightarrow> 'f msgs \<Rightarrow> nat \<Rightarrow>
    'f msgs \<times> (nat \<times> 'f msg) list \<times> nat list" where
  "ask_all F parse request 0 b i = (b, [], [])"
| "ask_all F parse request (Suc n) b i =
     (case ask F parse request b i (b ! i) of
        Request r \<Rightarrow> (case ask_all F parse request n b (Suc i) of (b, rs, sk) \<Rightarrow> (b, (i, r) # rs, sk))
      | Declined \<Rightarrow> (case ask_all F parse request n b (Suc i) of (b, rs, sk) \<Rightarrow> (b, rs, i # sk))
      | Unasked e \<Rightarrow> ask_all F parse request n (b[i := set_error_text e (b ! i)]) (Suc i))"

text \<open>One result laid over its original: \<open>this\<close> is the result, \<open>root\<close> starts at the original, and the metadata is
  written through, also by a mapping that then throws.\<close>

definition overlay :: "'f floats \<Rightarrow> 'f parser \<Rightarrow> ('f, 'r) mapping_fn option \<Rightarrow> 'f val option list \<Rightarrow> 'f msgs \<Rightarrow> nat \<times> 'f msg \<Rightarrow> 'f msgs" where
  "overlay F parse result originals b = (\<lambda>(i, r).
     case result of
       None \<Rightarrow> b[i := r]
     | Some f \<Rightarrow>
         (case f (msg_ctx F parse b i r new_ctx\<lparr>out_meta := Some (meta (content (b ! i))), root_init := originals ! i\<rparr>) of
            (Inl e, c) \<Rightarrow> b[i := set_error_text (str ''result mapping failed: '' @ what e) (write_meta c (b ! i))]
          | (Inr v, c) \<Rightarrow> b[i := snd (set_mapped v (write_meta c (b ! i)))]))"

definition count_mismatch :: "nat \<Rightarrow> nat \<Rightarrow> failure" where
  "count_mismatch got want = str ''branch resulted in '' @ decimal got @ str '' messages from '' @ decimal want @
     str ''; processors in a branch must not change the batch size''"

text \<open>The flags are what \<open>skipped()\<close> answers until the next call.\<close>

definition branch_process :: "'f floats \<Rightarrow> 'f parser \<Rightarrow> ('f, 'r) mapping_fn option \<Rightarrow> ('s, 'f) proc list \<Rightarrow>
    ('f, 'r) mapping_fn option \<Rightarrow> 'f msgs \<Rightarrow> ('s, bool list \<times> 'f msgs list) eff" where
  "branch_process F parse request kids result b =
     (let originals = map (\<lambda>m. case value_of F parse m of Inr v \<Rightarrow> Some v | Inl _ \<Rightarrow> None) b
      in case ask_all F parse request (length b) b 0 of (b, asked, declined) \<Rightarrow>
        let flags = map (\<lambda>i. i \<in> set declined) [0..<length b]
        in if asked = [] then ret (flags, [b])
           else andthen
             (rescue (andthen (run_chain kids (map snd asked)) (\<lambda>produced. ret (Inr (concat produced))))
                (\<lambda>e. ret (Inl (str ''branch failed: '' @ what e))))
             (\<lambda>outcome. ret (flags, [case outcome of
                Inl e \<Rightarrow> map (set_error_text e) b
              | Inr answers \<Rightarrow>
                  if length answers \<noteq> length asked
                  then map (set_error_text (count_mismatch (length answers) (length asked))) b
                  else foldl (overlay F parse result originals) b (zip (map fst asked) answers)])))"

definition branch :: "'f floats \<Rightarrow> 'f parser \<Rightarrow> ('f, 'r) mapping_fn option \<Rightarrow> ('s, 'f) proc list \<Rightarrow>
    ('f, 'r) mapping_fn option \<Rightarrow> ('s, 'f) proc" where
  "branch F parse request kids result b =
     andthen (branch_process F parse request kids result b) (\<lambda>(_, out). ret out)"

text \<open>What a workflow remembers of each message; the names are in the order the branches ran.\<close>

record progress =
  succeeded :: "bytes list"
  skipped :: "bytes list"
  failed :: "(bytes \<times> failure) list"

definition note_step :: "bytes \<Rightarrow> 'f msgs \<Rightarrow> bool list \<Rightarrow> 'f msgs \<Rightarrow> progress list \<Rightarrow> progress list" where
  "note_step name before flags after ps =
     map (\<lambda>(i, p).
        if i \<ge> length after \<or> i \<ge> length before then p
        else if i < length flags \<and> flags ! i then p\<lparr>skipped := skipped p @ [name]\<rparr>
        else if has_error (after ! i) \<and> \<not> has_error (before ! i) then p\<lparr>failed := failed p @ [(name, msg_error (after ! i))]\<rparr>
        else p\<lparr>succeeded := succeeded p @ [name]\<rparr>) (enumerate 0 ps)"

type_synonym ('s, 'f) step = "bytes \<times> ('f msgs \<Rightarrow> ('s, bool list \<times> 'f msgs list) eff)"

fun workflow_steps :: "('s, 'f) step list \<Rightarrow> 'f msgs \<times> progress list \<Rightarrow> ('s, 'f msgs \<times> progress list) eff" where
  "workflow_steps [] bp = ret bp"
| "workflow_steps ((name, p) # steps) (b, ps) = andthen (p b) (\<lambda>(flags, produced).
     let after = concat produced in workflow_steps steps (after, note_step name b flags after ps))"

definition names_array :: "bytes list \<Rightarrow> 'f val" where
  "names_array ns = Array (map Str (sort ns))"

definition progress_record :: "progress \<Rightarrow> 'f val" where
  "progress_record p =
     (let put = (\<lambda>k present v r. if present then set_field k v r else r)
      in put (str ''failed'') (failed p \<noteq> []) (foldl (\<lambda>f (n, e). set_field n (Str e) f) (Object []) (failed p))
          (put (str ''skipped'') (skipped p \<noteq> []) (names_array (skipped p))
            (put (str ''succeeded'') (succeeded p \<noteq> []) (names_array (succeeded p)) (Object []))))"

definition record_progress :: "'f floats \<Rightarrow> 'f parser \<Rightarrow> bytes list \<Rightarrow> progress list \<Rightarrow> nat \<times> 'f msg \<Rightarrow> 'f msg" where
  "record_progress F parse meta_path ps = (\<lambda>(i, m).
     case value_of F parse m of
       Inl _ \<Rightarrow> m
     | Inr doc \<Rightarrow> if i < length ps then set_structured (assign_path meta_path (progress_record (ps ! i)) doc) m else m)"

definition workflow :: "'f floats \<Rightarrow> 'f parser \<Rightarrow> ('s, 'f) step list list \<Rightarrow> bytes list \<Rightarrow> ('s, 'f) proc" where
  "workflow F parse order meta_path b =
     andthen (workflow_steps (concat order) (b, replicate (length b) \<lparr>succeeded = [], skipped = [], failed = []\<rparr>)) (\<lambda>(b, ps).
       ret (unless_empty (if meta_path = [] then b else map (record_progress F parse meta_path ps) (enumerate 0 b))))"

section \<open>Processors with a context of their own\<close>

text \<open>A context that is a member of a processor lives in the state; an access reads it and writes it back.\<close>

record ('s, 'f, 'r) member =
  get_ctx :: "'s \<Rightarrow> ('f, 'r) ctx"
  put_ctx :: "('f, 'r) ctx \<Rightarrow> 's \<Rightarrow> 's"

definition in_member :: "('s, 'f, 'r) member \<Rightarrow> ('f, 'r, 'a) ev \<Rightarrow> ('s, 'a) eff" where
  "in_member M f s = (case f (get_ctx M s) of (r, c) \<Rightarrow> (r, put_ctx M c s))"

definition change :: "(('f, 'r) ctx \<Rightarrow> ('f, 'r) ctx) \<Rightarrow> ('f, 'r, unit) ev" where
  "change f c = (Inr (), f c)"

text \<open>\<open>to_display_string\<close> of the key; the batch stays whole, because \<open>from\<close> may read any of it.\<close>

definition dedupe_one :: "('s, 'f, 'r) member \<Rightarrow> 'f floats \<Rightarrow> 'f parser \<Rightarrow> (bytes \<Rightarrow> ('s, bool) eff) \<Rightarrow>
    ('f, 'r) mapping_fn \<Rightarrow> bool \<Rightarrow> 'f msgs \<Rightarrow> nat \<times> 'f msg \<Rightarrow> ('s, 'f msgs) eff" where
  "dedupe_one M F parse add key drop_on_err b = (\<lambda>(i, m).
     let fail = (\<lambda>before e. ret (if drop_on_err then [] else [set_error_text (before @ what e) m]))
     in andthen
       (rescue
         (andthen (in_member M (\<lambda>c. key ((msg_ctx F parse b i m c)\<lparr>vars := []\<rparr>))) (\<lambda>v. ret (Inr (to_display_string F v))))
         (\<lambda>e. ret (Inl e)))
       (\<lambda>k. case k of
          Inl e \<Rightarrow> fail (str ''key interpolation error: '') e
        | Inr k \<Rightarrow> rescue (andthen (add k) (\<lambda>novel. ret (if novel then [m] else []))) (fail (str ''cache error: ''))))"

definition dedupe :: "('s, 'f, 'r) member \<Rightarrow> 'f floats \<Rightarrow> 'f parser \<Rightarrow> (bytes \<Rightarrow> ('s, bool) eff) \<Rightarrow>
    ('f, 'r) mapping_fn \<Rightarrow> bool \<Rightarrow> ('s, 'f) proc" where
  "dedupe M F parse add key drop_on_err b =
     andthen (each_do (dedupe_one M F parse add key drop_on_err b) (enumerate 0 b)) (\<lambda>kept.
     andthen (in_member M (change (\<lambda>c. (forget_pointers c)\<lparr>batch_size := of_nat (length b), batch_index := of_nat (length b)\<rparr>))) (\<lambda>_.
       ret (unless_empty (concat kept))))"

definition make_dedupe :: "nat \<Rightarrow> ('s, 'f) proc \<Rightarrow> failure + ('s, 'f) proc" where
  "make_dedupe shard_count p =
     (if shard_count > 1
      then Inl (str ''dedupe needs a cache shared across shards, which swordfish does not have yet; run with --smp 1, or shard the input by the dedupe key'')
      else Inr p)"

text \<open>The mapping processor.  A mapping that fails marks its message, with the metadata it wrote before.\<close>

definition map_one :: "('s, 'f, 'r) member \<Rightarrow> 'f floats \<Rightarrow> 'f parser \<Rightarrow> ('f, 'r) mapping_fn \<Rightarrow> bool \<Rightarrow> error_source \<Rightarrow>
    'f msgs \<Rightarrow> nat \<times> 'f msg \<Rightarrow> ('s, 'f msgs) eff" where
  "map_one M F parse t mutate source b = (\<lambda>(i, m) s.
     let c = (msg_ctx F parse b i m (get_ctx M s))\<lparr>vars := [], out_meta := Some (meta (content m))\<rparr>
     in case t (c\<lparr>root_init := (if mutate then this_v c else None)\<rparr>) of
          (r, c) \<Rightarrow>
            let m2 = write_meta c m;
                s = put_ctx M (c\<lparr>out_meta := None, meta_in := None, root_init := None\<rparr>) s
            in case r of
                 Inl e \<Rightarrow> (Inr [set_error (what e) source m2], s)
               | Inr v \<Rightarrow> (Inr (if v = Deleted then [] else [snd (set_mapped v m2)]), s))"

definition mapping_processor :: "('s, 'f, 'r) member \<Rightarrow> 'f floats \<Rightarrow> 'f parser \<Rightarrow> ('f, 'r) mapping_fn \<Rightarrow> bool \<Rightarrow>
    bytes \<Rightarrow> bytes \<Rightarrow> ('s, 'f) proc" where
  "mapping_processor M F parse t mutate label path b =
     andthen (each_do (map_one M F parse t mutate \<lparr>es_name = str ''mapping'', es_label = label, es_path = path\<rparr> b) (enumerate 0 b)) (\<lambda>out.
     andthen (in_member M (change (\<lambda>c. (forget_pointers c)\<lparr>batch_size := of_nat (length b), batch_index := of_nat (length b)\<rparr>))) (\<lambda>_.
       ret (unless_empty (concat out))))"

section \<open>Processors that wait\<close>

definition log_line :: "'f floats \<Rightarrow> 'f parser \<Rightarrow> ('f, 'r) mapping_fn \<Rightarrow> 'f msg \<Rightarrow> bytes" where
  "log_line F parse t m =
     (case fst (t ((msg_ctx F parse [] 0 m new_ctx)\<lparr>all_msgs := None, batch_size := 1\<rparr>)) of
        Inr v \<Rightarrow> to_display_string F v
      | Inl e \<Rightarrow> str ''<log mapping failed: '' @ what e @ str ''>'')"

definition log_level :: "bytes \<Rightarrow> bytes" where
  "log_level l = (if l = str ''ERROR'' then str ''error'' else if l = str ''WARN'' then str ''warn''
     else if l = str ''DEBUG'' then str ''debug'' else str ''info'')"

definition log_processor :: "'f floats \<Rightarrow> 'f parser \<Rightarrow> (bytes \<Rightarrow> bytes \<Rightarrow> ('s, unit) eff) \<Rightarrow> bytes \<Rightarrow> ('f, 'r) mapping_fn \<Rightarrow> ('s, 'f) proc" where
  "log_processor F parse emit level t b =
     andthen (each_do (\<lambda>m. emit (log_level level) (log_line F parse t m)) b) (\<lambda>_. ret [b])"

definition rate_limited :: "('s, bool) eff \<Rightarrow> ('s, 'f) proc" where
  "rate_limited wait b = andthen wait (\<lambda>_. ret [b])"

definition sleep :: "('s, unit) eff \<Rightarrow> ('s, 'f) proc" where
  "sleep pause b = andthen (rescue pause (\<lambda>_. ret ())) (\<lambda>_. ret [b])"

section \<open>Processors that own processors\<close>

definition try_processor :: "('s, 'f) proc list \<Rightarrow> bytes \<Rightarrow> bytes \<Rightarrow> ('s, 'f) proc" where
  "try_processor kids label path b =
     rescue (run_chain kids b)
       (\<lambda>e. ret [map (set_error (what e) \<lparr>es_name = str ''try'', es_label = label, es_path = path\<rparr>) b])"

definition catch_processor :: "('s, 'f) proc list \<Rightarrow> ('s, 'f) proc" where
  "catch_processor kids b =
     (let bad = filter has_error b; ok = filter (\<lambda>m. \<not> has_error m) b
      in if bad = [] then ret (unless_empty ok)
         else andthen (run_chain kids (map clear_error bad)) (\<lambda>recovered.
           ret (unless_empty ok @ non_empty recovered)))"

text \<open>The first case whose check holds; a check that throws does not match.  The checks of a message share one
  context without a message or a batch, in which both metadata are those of the message.\<close>

fun first_match :: "nat \<Rightarrow> ('f, 'r) mapping_fn list \<Rightarrow> ('f, 'r) ctx \<Rightarrow> nat option \<times> ('f, 'r) ctx" where
  "first_match i [] c = (None, c)"
| "first_match i (check # checks) c =
     (case check c of (r, c) \<Rightarrow>
        let next = first_match (Suc i) checks (c\<lparr>meta_in := out_meta c\<rparr>)
        in case r of Inl e \<Rightarrow> next | Inr v \<Rightarrow> if truthy v = Inr True then (Some i, c) else next)"

definition route :: "'f floats \<Rightarrow> 'f parser \<Rightarrow> ('f, 'r) mapping_fn list \<Rightarrow> 'f msg \<Rightarrow> nat option \<times> 'f msg" where
  "route F parse checks m =
     (case first_match 0 checks (new_ctx\<lparr>this_v := (case value_of F parse m of Inr v \<Rightarrow> Some v | Inl _ \<Rightarrow> None),
         out_meta := Some (meta (content m)), meta_in := Some (meta (content m))\<rparr>) of
        (at, c) \<Rightarrow> (at, write_meta c m))"

type_synonym ('s, 'f, 'r) cases = "(('f, 'r) mapping_fn \<times> ('s, 'f) proc list) list"

text \<open>Every message with its place in the batch and the case it goes to, and the messages of one case.\<close>

definition routed :: "'f floats \<Rightarrow> 'f parser \<Rightarrow> ('s, 'f, 'r) cases \<Rightarrow> 'f msgs \<Rightarrow> (nat \<times> nat option \<times> 'f msg) list" where
  "routed F parse cs b = map (\<lambda>(i, m). (i, route F parse (map fst cs) m)) (enumerate 0 b)"

definition bucket :: "nat option \<Rightarrow> (nat \<times> nat option \<times> 'f msg) list \<Rightarrow> (nat \<times> 'f msg) list" where
  "bucket at rs = map (\<lambda>(i, _, m). (i, m)) (filter (\<lambda>(_, a, _). a = at) rs)"

fun run_cases :: "(nat \<times> 'f msg) list list \<Rightarrow> ('s, 'f) proc list list \<Rightarrow> ('s, (nat list \<times> 'f msgs list) list) eff" where
  "run_cases (bk # bks) (ch # chs) =
     (if bk = [] then run_cases bks chs
      else andthen (run_chain ch (map snd bk)) (\<lambda>res. andthen (run_cases bks chs) (\<lambda>rest. ret ((map fst bk, res) # rest))))"
| "run_cases bks chs = ret []"

text \<open>Where the results of a case belong: at the places of its inputs, or all at the last one when the count changed.\<close>

definition positions :: "nat list \<times> 'f msgs list \<Rightarrow> (nat \<times> 'f msg) list" where
  "positions = (\<lambda>(origins, res).
     let ms = concat res
     in zip (if length ms = length origins then origins
             else replicate (length ms) (if origins = [] then 0 else last origins)) ms)"

definition switch :: "bool \<Rightarrow> 'f floats \<Rightarrow> 'f parser \<Rightarrow> ('s, 'f, 'r) cases \<Rightarrow> ('s, 'f) proc" where
  "switch one_batch F parse cs b =
     (let rs = routed F parse cs b; unmatched = bucket None rs
      in andthen (run_cases (map (\<lambda>i. bucket (Some i) rs) [0..<length cs]) (map snd cs)) (\<lambda>runs.
        ret (if one_batch
             then unless_empty (map snd (sort_key fst (concat (map positions runs) @ unmatched)))
             else non_empty (concat (map snd runs)) @ unless_empty (map snd unmatched))))"

definition for_each :: "('s, 'f) proc list \<Rightarrow> ('s, 'f) proc" where
  "for_each kids b =
     andthen (each_do (\<lambda>m. run_chain kids [m]) b) (\<lambda>res. ret (unless_empty (concat (concat res))))"

end
