(* ===== verification/Processors_Laws.thy ===== *)
theory Processors_Laws
  imports Processors Caches "HOL-Library.Multiset"
begin

text \<open>
  What the processors promise: splitting cuts the batch within its bounds; a switch hands the batch on in the order
  it came in; a branch keeps the batch; a workflow books every branch once; dedupe passes each key once.
\<close>

section \<open>Splitting\<close>

lemma split_from_concat: "concat (split_from F limit byte_limit cur bytes ms) = cur @ ms"
  by (induction F limit byte_limit cur bytes ms rule: split_from.induct) (auto simp: unless_empty_def Let_def)

definition payload_size :: "'f floats \<Rightarrow> 'f msgs \<Rightarrow> int" where
  "payload_size F b = (\<Sum>m\<leftarrow>b. int (length (bytes_of F m)))"

lemma split_from_by_size:
  assumes "byte_limit \<le> 0" "0 < limit"
  shows "int (length cur) \<le> limit \<Longrightarrow>
    (\<forall>p \<in> set (split_from F limit byte_limit cur n ms). p \<noteq> [] \<and> int (length p) \<le> limit) \<and>
    (\<forall>p \<in> set (butlast (split_from F limit byte_limit cur n ms)). int (length p) = limit)"
proof (induction ms arbitrary: cur n)
  case (Cons m ms)
  show ?case
  proof (cases "limit \<le> int (length cur)")
    case True
    then have "int (length cur) = limit" "cur \<noteq> []" using Cons.prems assms(2) by auto
    then show ?thesis using Cons.IH [of "[m]"] assms by (simp add: Let_def)
  next
    case False
    then show ?thesis using Cons.IH [of "cur @ [m]"] assms by (simp add: Let_def)
  qed
qed (simp add: unless_empty_def)

declare split_from.simps(2) [simp del]

lemma split_from_by_bytes:
  assumes "0 < byte_limit"
  shows "length cur \<le> 1 \<or> payload_size F cur \<le> byte_limit \<Longrightarrow>
    \<forall>p \<in> set (split_from F limit byte_limit cur (payload_size F cur) ms). p \<noteq> [] \<and> (length p = 1 \<or> payload_size F p \<le> byte_limit)"
proof (induction ms arbitrary: cur)
  case Nil
  then show ?case by (cases cur) (auto simp: unless_empty_def)
next
  case (Cons m ms)
  have sz: "int (length (bytes_of F m)) = payload_size F [m]" and app: "payload_size F cur + payload_size F [m] = payload_size F (cur @ [m])"
    by (simp_all add: payload_size_def)
  show ?case
  proof (cases "cur \<noteq> [] \<and> byte_limit < payload_size F cur + payload_size F [m]")
    case True
    then have "cur \<noteq> [] \<and> (length cur = 1 \<or> payload_size F cur \<le> byte_limit)" using Cons.prems by (cases cur) auto
    moreover have "split_from F limit byte_limit cur (payload_size F cur) (m # ms)
        = cur # split_from F limit byte_limit [m] (payload_size F [m]) ms"
      using True assms unfolding split_from.simps Let_def sz by (simp del: split_from.simps)
    ultimately show ?thesis using Cons.IH [of "[m]"] by simp
  next
    case False
    then have "length (cur @ [m]) \<le> 1 \<or> payload_size F (cur @ [m]) \<le> byte_limit" by (auto simp: app)
    moreover have "split_from F limit byte_limit cur (payload_size F cur) (m # ms)
        = split_from F limit byte_limit (cur @ [m]) (payload_size F (cur @ [m])) ms"
      using False assms unfolding split_from.simps Let_def sz app by auto
    ultimately show ?thesis using Cons.IH [of "cur @ [m]"] by simp
  qed
qed

text \<open>Splitting a batch loses, repeats and moves nothing: the parts, in order, are the batch, and none is empty.  By
  count every part is full except the last, and none exceeds the size; by bytes a part exceeds the limit only when it
  is a single message.\<close>

lemma split_cuts_within_its_bounds:
  assumes "0 < byte_limit \<or> 0 < limit"
  shows "\<exists>parts. split_batch F limit byte_limit b s = (Inr parts, s) \<and> concat parts = b \<and> [] \<notin> set parts \<and>
    (if 0 < byte_limit then \<forall>p \<in> set parts. length p = 1 \<or> payload_size F p \<le> byte_limit
     else (\<forall>p \<in> set parts. int (length p) \<le> limit) \<and> (\<forall>p \<in> set (butlast parts). int (length p) = limit))"
proof (intro exI conjI)
  show "split_batch F limit byte_limit b s = (Inr (split_from F limit byte_limit [] 0 b), s)"
    by (simp add: split_batch_def ret_def)
  show "concat (split_from F limit byte_limit [] 0 b) = b" by (simp add: split_from_concat)
  have z: "payload_size F [] = 0" by (simp add: payload_size_def)
  note bytes = split_from_by_bytes [of byte_limit "[]" F limit b, unfolded z] and count = split_from_by_size [of byte_limit limit "[]" F 0 b]
  show "[] \<notin> set (split_from F limit byte_limit [] 0 b)" using assms bytes count by fastforce
  show "if 0 < byte_limit then \<forall>p \<in> set (split_from F limit byte_limit [] 0 b). length p = 1 \<or> payload_size F p \<le> byte_limit
     else (\<forall>p \<in> set (split_from F limit byte_limit [] 0 b). int (length p) \<le> limit) \<and>
       (\<forall>p \<in> set (butlast (split_from F limit byte_limit [] 0 b)). int (length p) = limit)"
    using assms bytes count by (cases "0 < byte_limit") auto
qed

lemma split_cuts_within_its_bounds_witness:
  "\<exists>parts. split_batch some_floats 2 0 [new_message, new_message, new_message :: int msg] () = (Inr parts, ()) \<and>
    concat parts = [new_message, new_message, new_message] \<and> [] \<notin> set parts \<and>
    (\<forall>p \<in> set parts. int (length p) \<le> 2) \<and> (\<forall>p \<in> set (butlast parts). int (length p) = 2)"
  using split_cuts_within_its_bounds [of 0 2 some_floats "[new_message, new_message, new_message]" "()"] by simp

text \<open>A size of zero or less is not refused: the first part is then empty.\<close>

lemma split_by_nothing_starts_empty: "split_batch F 0 0 [m] s = (Inr [[], [m]], s)"
  by (simp add: split_batch_def split_from.simps(2) unless_empty_def ret_def)

section \<open>Archive and unarchive\<close>

lemma bytes_of_derive [simp]: "bytes_of F (derive m x) = x"
  by (simp add: derive_def message_defs)

lemma meta_of_derive [simp]: "meta (content (derive m x)) = meta (content m)"
  by (simp add: derive_def message_defs)

text \<open>Archiving undoes unarchiving: a message cut into its lines and archived as lines again is one message with the
  bytes and the metadata of the first, for every content, blank and missing last lines included.\<close>

lemma archive_inverts_unarchive:
  "\<exists>m'. run_chain [unarchive F parse (str ''lines''), archive F parse (str ''lines'')] [m] s = (Inr [[m']], s) \<and>
    bytes_of F m' = bytes_of F m \<and> meta (content m') = meta (content m)"
proof -
  define ps where "ps = pieces [0x0A] (bytes_of F m)"
  have ps: "ps \<noteq> []" "joined [0x0A] ps = bytes_of F m" by (simp_all add: ps_def joined_pieces)
  have un: "unarchive F parse (str ''lines'') [m] = ret [map (derive m) ps]"
    using ps(1) by (simp add: unarchive_def expand_def ps_def [symmetric] unless_empty_def)
  have ar: "archive F parse (str ''lines'') (map (derive m) ps) = ret [[set_bytes (bytes_of F m) (hd (map (derive m) ps))]]"
    using ps by (simp add: archive_def comp_def str_def)
  have "run_chain [unarchive F parse (str ''lines''), archive F parse (str ''lines'')] [m] s
      = (Inr [[set_bytes (bytes_of F m) (hd (map (derive m) ps))]], s)"
    using ps(1) by (simp add: run_chain_def un ar non_empty_def) (simp add: ret_def)
  moreover have "meta (content (set_bytes (bytes_of F m) (hd (map (derive m) ps)))) = meta (content m)"
    using ps(1) by (cases ps) (simp_all add: set_bytes_def)
  ultimately show ?thesis by (metis observe_set_bytes(1))
qed

section \<open>One message in, one message out\<close>

text \<open>A processor that neither drops, adds nor moves messages, with what becomes of each.\<close>

definition one_to_one :: "('f msg \<Rightarrow> 'f msg \<Rightarrow> bool) \<Rightarrow> ('s, 'f) proc \<Rightarrow> bool" where
  "one_to_one Q p \<longleftrightarrow> (\<forall>b. yields (\<lambda>out. list_all2 Q b (concat out)) (p b))"

lemma concat_non_empty [simp]: "concat (non_empty bs) = concat bs"
  by (induction bs) (auto simp: non_empty_def)

lemma concat_unless_empty [simp]: "concat (unless_empty b) = b"
  by (simp add: unless_empty_def)

lemma one_to_one_stage:
  assumes "one_to_one Q p"
  shows "yields (\<lambda>out. list_all2 Q (concat bs) (concat out)) (chain_stage p bs)"
proof (induction bs)
  case (Cons b bs)
  have p: "yields (\<lambda>out. list_all2 Q b (concat out)) (p b)" using assms by (simp add: one_to_one_def)
  have rest: "yields (\<lambda>out. list_all2 Q (b @ concat bs) (concat out))
      (andthen (chain_stage p bs) (\<lambda>next. ret (non_empty out @ next)))"
    if "list_all2 Q b (concat out)" for out
    by (rule yields_andthen [OF Cons.IH]) (simp add: list_all2_appendI that)
  show ?case
    using yields_andthen [OF p rest] Cons.IH by simp
qed simp

text \<open>A chain of such processors is one, and what becomes of a message composes.\<close>

lemma one_to_one_chain:
  assumes "list_all2 one_to_one Qs ps"
  shows "one_to_one (\<lambda>m m'. foldr (\<lambda>Q R. Q OO R) Qs (=) m m') (run_chain ps)"
proof -
  have "yields (\<lambda>out. list_all2 (foldr (\<lambda>Q R. Q OO R) Qs (=)) (concat bs) (concat out)) (chain_stages ps bs)" for bs
    using assms
  proof (induction Qs ps arbitrary: bs rule: list_all2_induct)
    case (Cons Q Qs p ps)
    have next_stages: "yields (\<lambda>out. list_all2 (Q OO foldr (\<lambda>Q R. Q OO R) Qs (=)) (concat bs) (concat out))
        (if next = [] then ret [] else chain_stages ps next)"
      if n: "list_all2 Q (concat bs) (concat next)" for "next"
    proof (cases "next = []")
      case False
      have "list_all2 (Q OO foldr (\<lambda>Q R. Q OO R) Qs (=)) (concat bs) (concat out)"
        if "list_all2 (foldr (\<lambda>Q R. Q OO R) Qs (=)) (concat next) (concat out)" for out
        using list.rel_compp [of Q "foldr (\<lambda>Q R. Q OO R) Qs (=)"] n that by (auto simp: relcompp_apply)
      then show ?thesis using False Cons.IH [of "next"] by (auto simp: yields_def)
    qed (use n in auto)
    show ?case using yields_andthen [OF one_to_one_stage [OF Cons.hyps(1)] next_stages] by simp
  qed (simp add: list.rel_eq)
  then show ?thesis by (simp add: one_to_one_def run_chain_def) (metis concat.simps append_Nil2)
qed

lemma one_to_one_codec: "one_to_one (\<lambda>m m'. m' = codec_one F (if c then str ''compress'' else str ''decompress'') run m) (codec_batch F c run)"
  by (simp add: one_to_one_def codec_batch_def list_all2_conv_all_nth)


section \<open>Switch\<close>

lemma mset_buckets:
  "mset (concat (map (\<lambda>i. filter (\<lambda>x. f x = Some i) xs) [0..<n])) = filter_mset (\<lambda>x. \<exists>i<n. f x = Some i) (mset xs)"
proof (induction n)
  case (Suc n)
  have "filter_mset (\<lambda>x. \<exists>i<Suc n. f x = Some i) (mset xs) =
      filter_mset (\<lambda>x. \<exists>i<n. f x = Some i) (mset xs) + filter_mset (\<lambda>x. f x = Some n) (mset xs)"
    by (rule multiset_eqI) (auto simp: less_Suc_eq)
  then show ?case using Suc by simp
qed simp

lemma first_match_less: "first_match i checks c = (Some j, d) \<Longrightarrow> j < i + length checks"
  by (induction i checks c arbitrary: j d rule: first_match.induct)
    (fastforce simp: Let_def split: prod.splits sum.splits if_splits)+

lemma route_less: "fst (route F parse checks m) = Some j \<Longrightarrow> j < length checks"
  by (auto simp: route_def split: prod.splits dest: first_match_less)

lemma bucket_eq: "bucket at rs = map (\<lambda>(i, _, m). (i, m)) (filter (\<lambda>x. fst (snd x) = at) rs)"
  unfolding bucket_def by (simp add: case_prod_unfold)

lemma buckets_partition:
  assumes "\<forall>x \<in> set rs. \<forall>j. fst (snd x) = Some j \<longrightarrow> j < n"
  shows "mset (concat (map (\<lambda>i. bucket (Some i) rs) [0..<n]) @ bucket None rs) = mset (map (\<lambda>(i, _, m). (i, m)) rs)"
proof -
  have "filter_mset (\<lambda>x. \<exists>i<n. fst (snd x) = Some i) (mset rs) = filter_mset (\<lambda>x. \<not> fst (snd x) = None) (mset rs)"
    using assms by (intro filter_mset_cong) auto
  then have *: "mset (concat (map (\<lambda>i. filter (\<lambda>x. fst (snd x) = Some i) rs) [0..<n]) @ filter (\<lambda>x. fst (snd x) = None) rs) = mset rs"
    using multiset_partition [of "mset rs" "\<lambda>x. fst (snd x) = None"] unfolding mset_append mset_buckets mset_filter by simp
  have "concat (map (\<lambda>i. bucket (Some i) rs) [0..<n]) @ bucket None rs
      = map (\<lambda>(i, _, m). (i, m)) (concat (map (\<lambda>i. filter (\<lambda>x. fst (snd x) = Some i) rs) [0..<n]) @ filter (\<lambda>x. fst (snd x) = None) rs)"
    by (simp add: bucket_eq map_concat comp_def)
  then show ?thesis by (simp only: mset_map *)
qed

text \<open>The results of the cases, with their places.\<close>

definition placed :: "('f msg \<Rightarrow> 'f msg \<Rightarrow> bool) \<Rightarrow> (nat \<times> 'f msg) list \<Rightarrow> (nat \<times> 'f msg) list \<Rightarrow> bool" where
  "placed Q before after \<longleftrightarrow> list_all2 (\<lambda>(i, m) (j, m'). i = j \<and> Q m m') before after"

lemma run_cases_placed:
  assumes "\<forall>ch \<in> set chs. one_to_one Q (run_chain ch)" "length bks = length chs"
  shows "yields (\<lambda>runs. placed Q (concat bks) (concat (map positions runs))) (run_cases bks chs)"
  using assms
proof (induction bks chs rule: run_cases.induct)
  case (1 bk bks ch chs)
  have rest: "yields (\<lambda>runs. placed Q (concat bks) (concat (map positions runs))) (run_cases bks chs)"
    using 1 by (cases "bk = []") auto
  have chain: "yields (\<lambda>res. placed Q bk (positions (map fst bk, res))) (run_chain ch (map snd bk))"
  proof -
    have "placed Q bk (positions (map fst bk, res))" if "list_all2 Q (map snd bk) (concat res)" for res
      using that list_all2_lengthD [OF that]
      by (auto simp: placed_def positions_def list_all2_conv_all_nth case_prod_beta)
    then show ?thesis using 1(3) by (auto simp: one_to_one_def yields_def)
  qed
  have all: "yields (\<lambda>runs. placed Q (bk @ concat bks) (concat (map positions runs)))
      (andthen (run_cases bks chs) (\<lambda>rest. ret ((map fst bk, res) # rest)))"
    if "placed Q bk (positions (map fst bk, res))" for res
    by (rule yields_andthen [OF rest]) (use that in \<open>simp add: placed_def list_all2_appendI\<close>)
  show ?case
  proof (cases "bk = []")
    case False
    then show ?thesis using yields_andthen [OF chain all] by simp
  qed (use rest in simp)
qed (auto simp: placed_def)

lemma placed_keys: "placed Q xs ys \<Longrightarrow> map fst ys = map fst xs"
  by (auto simp: placed_def list_all2_conv_all_nth case_prod_beta intro: nth_equalityI)

lemma placed_source: "placed Q xs ys \<Longrightarrow> (i, m') \<in> set ys \<Longrightarrow> \<exists>m. (i, m) \<in> set xs \<and> Q m m'"
proof -
  assume p: "placed Q xs ys" and "(i, m') \<in> set ys"
  then obtain k where k: "k < length ys" "ys ! k = (i, m')" by (auto simp: in_set_conv_nth)
  then have "fst (xs ! k) = i \<and> Q (snd (xs ! k)) m'" "xs ! k \<in> set xs"
    using p by (auto simp: placed_def list_all2_conv_all_nth case_prod_beta)
  then show "\<exists>m. (i, m) \<in> set xs \<and> Q m m'" by (metis prod.collapse)
qed

text \<open>Sorting the results by their places is laying them out in the order of the batch.\<close>

lemma sorted_by_place:
  assumes "mset (map fst L) = mset [0..<n]"
  shows "length (sort_key fst L) = n" "k < n \<Longrightarrow> fst (sort_key fst L ! k) = k"
proof -
  have "map fst (sort_key fst L) = sort [0..<n]"
    using assms by (intro properties_for_sort [symmetric]) (simp_all add: mset_map)
  then have keys: "map fst (sort_key fst L) = [0..<n]" by (simp add: sorted_sort_id)
  show "length (sort_key fst L) = n" using arg_cong [OF keys, of length] by simp
  then show "k < n \<Longrightarrow> fst (sort_key fst L ! k) = k" using arg_cong [OF keys, of "\<lambda>l. l ! k"] by simp
qed

text \<open>C36: A switch hands the batch on as one batch in the order it came in.  When the processors of each case answer one
  message for each, what stands at a place of the output is what became of the message at that place: the result of its
  case, or, when no case took it, the message as it was.\<close>

theorem switch_keeps_the_order:
  assumes "\<forall>(check, chain) \<in> set cs. one_to_one Q (run_chain chain)"
    and "switch True F parse cs b s = (Inr out, t)"
  shows "out = unless_empty (concat out) \<and> list_all2 (\<lambda>m m'.
    case route F parse (map fst cs) m of (None, r) \<Rightarrow> m' = r | (Some _, r) \<Rightarrow> Q r m') b (concat out)"
proof -
  let ?rs = "routed F parse cs b" and ?n = "length b"
  let ?bks = "map (\<lambda>i. bucket (Some i) ?rs) [0..<length cs]"
  obtain runs where runs: "run_cases ?bks (map snd cs) s = (Inr runs, t)"
    and out: "out = unless_empty (map snd (sort_key fst (concat (map positions runs) @ bucket None ?rs)))"
    using assms(2) by (auto simp: switch_def Let_def andthen_def ret_def split: prod.splits sum.splits)
  let ?L = "concat (map positions runs) @ bucket None ?rs"
  have pl: "placed Q (concat ?bks) (concat (map positions runs))"
    using yieldsD [OF run_cases_placed runs] assms(1) by fastforce
  have part: "mset (concat ?bks @ bucket None ?rs) = mset (map (\<lambda>(i, _, m). (i, m)) ?rs)"
    by (rule buckets_partition) (auto simp: routed_def dest: route_less [of F parse "map fst cs", simplified])
  have "mset (map fst ?L) = mset (map fst (concat ?bks @ bucket None ?rs))"
    using placed_keys [OF pl] by simp
  also have "\<dots> = mset (map fst (map (\<lambda>(i, _, m). (i, m)) ?rs))" using arg_cong [OF part, of "image_mset fst"] by (simp only: mset_map)
  also have "map fst (map (\<lambda>(i, _, m). (i, m)) ?rs) = [0..<?n]"
    by (simp add: routed_def comp_def case_prod_beta enumerate_eq_zip)
  finally have sorted: "length (sort_key fst ?L) = ?n" "\<And>k. k < ?n \<Longrightarrow> fst (sort_key fst ?L ! k) = k"
    using sorted_by_place by blast+
  have "case route F parse (map fst cs) (b ! k) of (None, r) \<Rightarrow> m' = r | (Some _, r) \<Rightarrow> Q r m'"
    if k: "k < ?n" and m': "m' = snd (sort_key fst ?L ! k)" for k m'
  proof -
    have "sort_key fst ?L ! k \<in> set ?L" using nth_mem [of k "sort_key fst ?L"] sorted(1) k by simp
    then have "(k, m') \<in> set ?L" using sorted(2) [OF k] m' by (metis prod.collapse)
    then consider (none) "(k, m') \<in> set (bucket None ?rs)" | (some) m where "(k, m) \<in> set (concat ?bks)" "Q m m'"
      using placed_source [OF pl, of k m'] unfolding set_append by blast
    then show ?thesis
    proof cases
      case none
      then show ?thesis by (auto simp: bucket_eq routed_def in_set_enumerate_eq split: prod.split)
    next
      case some
      then show ?thesis by (auto simp: bucket_eq routed_def in_set_enumerate_eq split: prod.split)
    qed
  qed
  then have "list_all2 (\<lambda>m m'. case route F parse (map fst cs) m of (None, r) \<Rightarrow> m' = r | (Some _, r) \<Rightarrow> Q r m')
      b (map snd (sort_key fst ?L))"
    using sorted(1) by (simp add: list_all2_conv_all_nth del: sort_key_simps)
  then show ?thesis unfolding out concat_unless_empty by simp
qed


section \<open>Branch and workflow\<close>

text \<open>
  What the comments of \<open>branch_processor\<close> promise, written without the loop of the code: what the
  request mapping answers for a message in its context, the batch it sees, with the errors of the
  messages asked for before, and the requests that are made.
\<close>

definition request_ctx :: "'f floats \<Rightarrow> 'f parser \<Rightarrow> 'f msgs \<Rightarrow> nat \<Rightarrow> ('f, 'r) ctx" where
  "request_ctx F parse c i = new_ctx\<lparr>all_msgs := Some c, batch_size := of_nat (length c), batch_index := of_nat i,
     this_v := (case value_of F parse (c ! i) of Inr v \<Rightarrow> Some v | Inl _ \<Rightarrow> None), cur_msg := Some (c ! i),
     meta_in := Some (meta (content (c ! i))), out_meta := Some (meta (content (c ! i)))\<rparr>"

definition answered :: "'f floats \<Rightarrow> 'f parser \<Rightarrow> ('f, 'r) mapping_fn option \<Rightarrow> 'f msgs \<Rightarrow> nat \<Rightarrow>
    ((eval_error + 'f val) \<times> ('f, 'r) ctx) option" where
  "answered F parse request c i = map_option (\<lambda>f. f (request_ctx F parse c i)) request"

definition refused :: "failure \<Rightarrow> failure" where
  "refused e = str ''request mapping failed: '' @ e"

primrec seen_by :: "'f floats \<Rightarrow> 'f parser \<Rightarrow> ('f, 'r) mapping_fn option \<Rightarrow> 'f msgs \<Rightarrow> nat \<Rightarrow> 'f msgs" where
  "seen_by F parse request b 0 = b"
| "seen_by F parse request b (Suc n) = (let c = seen_by F parse request b n in
     case answered F parse request c n of
       Some (Inl e, _) \<Rightarrow> c[n := set_error_text (refused (what e)) (c ! n)]
     | _ \<Rightarrow> c)"

definition declines :: "'f floats \<Rightarrow> 'f parser \<Rightarrow> ('f, 'r) mapping_fn option \<Rightarrow> 'f msgs \<Rightarrow> nat \<Rightarrow> bool" where
  "declines F parse request b i \<longleftrightarrow>
     map_option fst (answered F parse request (seen_by F parse request b i) i) = Some (Inr Deleted)"

definition refusal :: "'f floats \<Rightarrow> 'f parser \<Rightarrow> ('f, 'r) mapping_fn option \<Rightarrow> 'f msgs \<Rightarrow> nat \<Rightarrow> failure option" where
  "refusal F parse request b i = (case answered F parse request (seen_by F parse request b i) i of
     Some (Inl e, _) \<Rightarrow> Some (refused (what e)) | _ \<Rightarrow> None)"

text \<open>A message that is not sent to the processors: as it was, or with the error of its request.\<close>

definition left_alone :: "'f floats \<Rightarrow> 'f parser \<Rightarrow> ('f, 'r) mapping_fn option \<Rightarrow> 'f msgs \<Rightarrow> nat \<Rightarrow> 'f msg" where
  "left_alone F parse request b i =
     (case refusal F parse request b i of None \<Rightarrow> b ! i | Some e \<Rightarrow> set_error_text e (b ! i))"

definition request_at :: "'f floats \<Rightarrow> 'f parser \<Rightarrow> ('f, 'r) mapping_fn option \<Rightarrow> 'f msgs \<Rightarrow> nat \<Rightarrow> (nat \<times> 'f msg) list" where
  "request_at F parse request b i = (let c = seen_by F parse request b i in
     case answered F parse request c i of
       None \<Rightarrow> [(i, b ! i)]
     | Some (Inl e, _) \<Rightarrow> []
     | Some (Inr v, x) \<Rightarrow> if v = Deleted then [] else [(i, snd (set_mapped v (write_meta x (b ! i))))])"

definition requests_of :: "'f floats \<Rightarrow> 'f parser \<Rightarrow> ('f, 'r) mapping_fn option \<Rightarrow> 'f msgs \<Rightarrow> (nat \<times> 'f msg) list" where
  "requests_of F parse request b = concat (map (request_at F parse request b) [0..<length b])"

text \<open>When the branch fails as a whole: its processors throw, or answer another number of messages.\<close>

definition branch_failure :: "'f floats \<Rightarrow> 'f parser \<Rightarrow> ('f, 'r) mapping_fn option \<Rightarrow> ('s, 'f) proc list \<Rightarrow>
    'f msgs \<Rightarrow> 's \<Rightarrow> failure option" where
  "branch_failure F parse request kids b s =
     (let rs = requests_of F parse request b
      in if rs = [] then None
         else case fst (run_chain kids (map snd rs) s) of
           Inl e \<Rightarrow> Some (str ''branch failed: '' @ what e)
         | Inr produced \<Rightarrow> if length (concat produced) = length rs then None
             else Some (count_mismatch (length (concat produced)) (length rs)))"

lemma seen_length [simp]: "length (seen_by F parse request b n) = length b"
  by (induction n) (auto simp: Let_def split: option.splits sum.splits)

lemma seen_later: "n \<le> i \<Longrightarrow> seen_by F parse request b n ! i = b ! i"
  by (induction n) (auto simp: Let_def split: option.splits sum.splits)

lemma seen_before: "i < n \<Longrightarrow> n \<le> length b \<Longrightarrow> seen_by F parse request b n ! i = left_alone F parse request b i"
proof (induction n)
  case (Suc n)
  show ?case
  proof (cases "i = n")
    case True
    then show ?thesis
      using Suc.prems seen_later [of n n F parse request b]
      by (auto simp: left_alone_def refusal_def Let_def split: option.splits sum.splits)
  next
    case False
    then show ?thesis using Suc by (auto simp: Let_def split: option.splits sum.splits)
  qed
qed simp

lemma ask_answered:
  "i < length b \<Longrightarrow> ask F parse request (seen_by F parse request b i) i (seen_by F parse request b i ! i) =
     (case answered F parse request (seen_by F parse request b i) i of
        None \<Rightarrow> Request (b ! i)
      | Some (Inl e, x) \<Rightarrow> Unasked (refused (what e))
      | Some (Inr v, x) \<Rightarrow> if v = Deleted then Declined else Request (snd (set_mapped v (write_meta x (b ! i)))))"
  by (auto simp: ask_def answered_def request_ctx_def msg_ctx_def refused_def seen_later split: option.splits sum.splits prod.splits)

lemma ask_all_requests:
  "i + n = length b \<Longrightarrow> ask_all F parse request n (seen_by F parse request b i) i =
     (seen_by F parse request b (length b), concat (map (request_at F parse request b) [i..<i + n]),
      filter (declines F parse request b) [i..<i + n])"
proof (induction n arbitrary: i)
  case (Suc n)
  let ?c = "seen_by F parse request b i"
  have i: "i < length b" using Suc.prems by simp
  have IH: "ask_all F parse request n (seen_by F parse request b (Suc i)) (Suc i) =
     (seen_by F parse request b (length b), concat (map (request_at F parse request b) [Suc i..<Suc i + n]),
      filter (declines F parse request b) [Suc i..<Suc i + n])"
    by (rule Suc.IH) (use Suc.prems in simp)
  have upt: "[i..<i + Suc n] = i # [Suc i..<Suc i + n]" by (simp add: upt_conv_Cons)
  note asked = ask_answered [OF i, of F parse request]
  show ?case
  proof (cases "answered F parse request ?c i")
    case None
    then have "seen_by F parse request b (Suc i) = ?c" "request_at F parse request b i = [(i, b ! i)]"
      "\<not> declines F parse request b i" by (simp_all add: Let_def request_at_def declines_def)
    with IH asked None show ?thesis unfolding upt by (simp del: upt_Suc seen_by.simps)
  next
    case (Some a)
    obtain r x where a: "a = (r, x)" by (cases a)
    show ?thesis
    proof (cases r)
      case (Inl e)
      then have "seen_by F parse request b (Suc i) = ?c[i := set_error_text (refused (what e)) (?c ! i)]"
        "request_at F parse request b i = []" "\<not> declines F parse request b i"
        using Some a by (simp_all add: Let_def request_at_def declines_def)
      with IH asked Some a Inl show ?thesis unfolding upt by (simp del: upt_Suc seen_by.simps)
    next
      case (Inr v)
      then have "seen_by F parse request b (Suc i) = ?c" "declines F parse request b i = (v = Deleted)"
        "request_at F parse request b i = (if v = Deleted then [] else [(i, snd (set_mapped v (write_meta x (b ! i))))])"
        using Some a by (simp_all add: Let_def request_at_def declines_def)
      with IH asked Some a Inr show ?thesis unfolding upt by (simp del: upt_Suc seen_by.simps)
    qed
  qed
qed simp

lemma overlay_shape: "length (overlay F parse result os b ir) = length b" "j \<noteq> fst ir \<Longrightarrow> overlay F parse result os b ir ! j = b ! j"
  by (auto simp: overlay_def split: prod.splits option.splits sum.splits)

lemma overlays_shape:
  "length (foldl (overlay F parse result os) b irs) = length b"
  "j \<notin> fst ` set irs \<Longrightarrow> foldl (overlay F parse result os) b irs ! j = b ! j"
  by (induction irs arbitrary: b) (auto simp: overlay_shape)

lemma not_requested:
  "declines F parse request b i \<or> refusal F parse request b i \<noteq> None \<Longrightarrow> i \<notin> fst ` set (requests_of F parse request b)"
  by (auto simp: declines_def refusal_def requests_of_def request_at_def Let_def split: option.splits sum.splits if_splits)

text \<open>The three ways a branch ends.\<close>

lemma branch_cases:
  fixes F :: "'f floats" and parse and request :: "('f, 'r) mapping_fn option" and result :: "('f, 'r) mapping_fn option"
    and kids :: "('s, 'f) proc list" and b :: "'f msgs"
  defines "rs \<equiv> requests_of F parse request b" and "c \<equiv> seen_by F parse request b (length b)"
    and "flags \<equiv> map (declines F parse request b) [0..<length b]"
    and "os \<equiv> map (\<lambda>m. case value_of F parse m of Inr v \<Rightarrow> Some v | Inl _ \<Rightarrow> None) b"
  shows "\<exists>after t. branch_process F parse request kids result b s = (Inr (flags, [after]), t) \<and>
    (case branch_failure F parse request kids b s of
       Some e \<Rightarrow> after = map (set_error_text e) c
     | None \<Rightarrow> \<exists>answers. after = foldl (overlay F parse result os) c (zip (map fst rs) answers))"
proof -
  have ask: "ask_all F parse request (length b) b 0 = (c, rs, filter (declines F parse request b) [0..<length b])"
    using ask_all_requests [of 0 "length b" b F parse request] by (simp add: rs_def c_def requests_of_def)
  have fl: "map (\<lambda>i. i \<in> set (filter (declines F parse request b) [0..<length b])) [0..<length c] = flags"
    by (simp add: flags_def c_def)
  show ?thesis
  proof (cases "rs = []")
    case True
    then have "branch_process F parse request kids result b s = (Inr (flags, [c]), s)"
      unfolding branch_process_def Let_def ask prod.case fl by (simp add: ret_def)
    moreover have "c = foldl (overlay F parse result os) c (zip (map fst rs) [])" by simp
    ultimately show ?thesis using True by (auto simp: branch_failure_def rs_def)
  next
    case False
    have "branch_process F parse request kids result b s =
        (case run_chain kids (map snd rs) s of
           (Inl e, t) \<Rightarrow> (Inr (flags, [map (set_error_text (str ''branch failed: '' @ what e)) c]), t)
         | (Inr produced, t) \<Rightarrow> (Inr (flags, [
             if length (concat produced) \<noteq> length rs
             then map (set_error_text (count_mismatch (length (concat produced)) (length rs))) c
             else foldl (overlay F parse result os) c (zip (map fst rs) (concat produced))]), t))"
      unfolding branch_process_def Let_def ask prod.case fl os_def [symmetric] using False
      by (simp add: ret_def andthen_def rescue_def split: prod.split sum.split)
    moreover have "branch_failure F parse request kids b s =
        (case fst (run_chain kids (map snd rs) s) of
           Inl e \<Rightarrow> Some (str ''branch failed: '' @ what e)
         | Inr produced \<Rightarrow> if length (concat produced) = length rs then None
             else Some (count_mismatch (length (concat produced)) (length rs)))"
      using False by (simp add: branch_failure_def rs_def [symmetric] Let_def)
    ultimately show ?thesis by (auto split: prod.split sum.split)
  qed
qed

text \<open>C37: A branch never throws and never loses a message: it answers one batch of the same length.  Its flags say of each
  message whether the request mapping, run on it in its context (with the batch as the requests before it left it),
  answered \<open>deleted()\<close>.  Unless the branch fails as a whole, such a message is exactly as it was, and one whose request
  mapping threw is as it was but for that error; neither is sent to the processors.  The branch fails as a whole when
  its processors throw or answer another number of messages than they were sent, and then every message carries that
  error and is otherwise as the request mapping left it.\<close>

theorem branch_keeps_the_batch:
  "\<exists>flags after t. branch_process F parse request kids result b s = (Inr (flags, [after]), t) \<and>
     branch F parse request kids result b s = (Inr [after], t) \<and>
     length flags = length b \<and> length after = length b \<and>
     (\<forall>i<length b. flags ! i \<longleftrightarrow> declines F parse request b i) \<and>
     (\<forall>i<length b. case branch_failure F parse request kids b s of
        Some e \<Rightarrow> after ! i = set_error_text e (left_alone F parse request b i)
      | None \<Rightarrow> (declines F parse request b i \<longrightarrow> after ! i = b ! i) \<and>
          (\<forall>e. refusal F parse request b i = Some e \<longrightarrow> after ! i = set_error_text e (b ! i)))"
proof -
  let ?os = "map (\<lambda>m. case value_of F parse m of Inr v \<Rightarrow> Some v | Inl _ \<Rightarrow> None) b"
  let ?c = "seen_by F parse request b (length b)"
  obtain after t where bp: "branch_process F parse request kids result b s =
      (Inr (map (declines F parse request b) [0..<length b], [after]), t)"
    and ends: "case branch_failure F parse request kids b s of
       Some e \<Rightarrow> after = map (set_error_text e) ?c
     | None \<Rightarrow> \<exists>answers. after = foldl (overlay F parse result ?os) ?c (zip (map fst (requests_of F parse request b)) answers)"
    using branch_cases [of F parse request kids result b s] by blast
  have c: "?c ! i = left_alone F parse request b i" if "i < length b" for i
    using that by (simp add: seen_before)
  have "branch F parse request kids result b s = (Inr [after], t)"
    by (simp add: branch_def andthen_def ret_def bp)
  moreover have "length after = length b" using ends by (auto simp: overlays_shape split: option.splits)
  moreover have "case branch_failure F parse request kids b s of
        Some e \<Rightarrow> after ! i = set_error_text e (left_alone F parse request b i)
      | None \<Rightarrow> (declines F parse request b i \<longrightarrow> after ! i = b ! i) \<and>
          (\<forall>e. refusal F parse request b i = Some e \<longrightarrow> after ! i = set_error_text e (b ! i))" if i: "i < length b" for i
  proof (cases "branch_failure F parse request kids b s")
    case None
    then obtain answers where
      a: "after = foldl (overlay F parse result ?os) ?c (zip (map fst (requests_of F parse request b)) answers)"
      using ends by auto
    have "after ! i = left_alone F parse request b i" if alone: "declines F parse request b i \<or> refusal F parse request b i \<noteq> None"
    proof -
      have "i \<notin> fst ` set (zip (map fst (requests_of F parse request b)) answers)"
        using not_requested [OF alone] by (fastforce dest: set_zip_leftD)
      then show ?thesis unfolding a by (simp add: overlays_shape c [OF i])
    qed
    moreover have "declines F parse request b i \<Longrightarrow> refusal F parse request b i = None"
      by (auto simp: declines_def refusal_def split: option.splits sum.splits)
    ultimately show ?thesis using None by (auto simp: left_alone_def)
  next
    case (Some e)
    then show ?thesis using ends i by (simp add: c)
  qed
  ultimately show ?thesis using bp by (intro exI [of _ "map (declines F parse request b) [0..<length b]"]) auto
qed








lemma note_step_length [simp]: "length (note_step name before flags after ps) = length ps"
  by (simp add: note_step_def)













subsection \<open>Gaps\<close>

text \<open>A branch that fails on a message that has failed before is booked as a success.\<close>

lemma second_failure_is_booked_as_success:
  "has_error m \<Longrightarrow> note_step name [m] [False] [set_error_text e m] [p] = [p\<lparr>succeeded := succeeded p @ [name]\<rparr>]"
  by (simp add: note_step_def)

text \<open>The check of a case cannot ask whether the message has failed.\<close>

lemma errored_check_never_matches: "fst (route F parse [fn_errored] m) = None"
  by (simp add: route_def fn_errored_def message_of_def reads_def andthen_def new_ctx_def Let_def)

section \<open>Dedupe\<close>

text \<open>The context in which a key is evaluated: the message, its metadata, the whole batch, and no variable of another.\<close>

definition sees_message :: "'f floats \<Rightarrow> 'f parser \<Rightarrow> 'f msgs \<Rightarrow> nat \<Rightarrow> ('f, 'r) ctx \<Rightarrow> bool" where
  "sees_message F parse b i c \<longleftrightarrow>
     this_v c = (case value_of F parse (b ! i) of Inr v \<Rightarrow> Some v | Inl _ \<Rightarrow> None) \<and>
     cur_msg c = Some (b ! i) \<and> meta_in c = Some (meta (content (b ! i))) \<and> all_msgs c = Some b \<and>
     batch_index c = of_nat i \<and> batch_size c = of_nat (length b) \<and> vars c = []"

definition key_answers :: "'f floats \<Rightarrow> 'f parser \<Rightarrow> ('f, 'r) mapping_fn \<Rightarrow> 'f msgs \<Rightarrow> (nat \<Rightarrow> eval_error + 'f val) \<Rightarrow> bool" where
  "key_answers F parse key b k \<longleftrightarrow> (\<forall>i<length b. \<forall>c. sees_message F parse b i c \<longrightarrow> fst (key c) = k i)"

definition key_text :: "'f floats \<Rightarrow> (nat \<Rightarrow> eval_error + 'f val) \<Rightarrow> nat \<Rightarrow> bytes option" where
  "key_text F k i = (case k i of Inl e \<Rightarrow> None | Inr v \<Rightarrow> Some (to_display_string F v))"

text \<open>What is left of message \<open>i\<close> when the messages at the places \<open>sel\<close> pass.\<close>

definition kept_of :: "bool \<Rightarrow> 'f msgs \<Rightarrow> (nat \<Rightarrow> eval_error + 'f val) \<Rightarrow> nat set \<Rightarrow> nat \<Rightarrow> 'f msgs" where
  "kept_of drop_on_err b k sel i = (case k i of
     Inl e \<Rightarrow> if drop_on_err then [] else [set_error_text (str ''key interpolation error: '' @ what e) (b ! i)]
   | Inr v \<Rightarrow> if i \<in> sel then [b ! i] else [])"

lemma each_do_step:
  "f x s = (Inr y, u) \<Longrightarrow> each_do f xs u = (Inr ys, t) \<Longrightarrow> each_do f (x # xs) s = (Inr (y # ys), t)"
  by (simp add: andthen_def ret_def)

text \<open>A cache as dedupe uses it: a held key is not new, an absent one is, and one that was new is held from then on.\<close>

locale key_cache =
  fixes M :: "('s, 'f, 'r) member" and add :: "bytes \<Rightarrow> ('s, bool) eff"
    and held :: "'s \<Rightarrow> bytes \<Rightarrow> bool" and absent :: "'s \<Rightarrow> bytes \<Rightarrow> bool" and ok :: "'s \<Rightarrow> bool"
  assumes adds: "ok s \<Longrightarrow> \<exists>new t. add k s = (Inr new, t) \<and> ok t \<and> (held s k \<longrightarrow> \<not> new) \<and> (absent s k \<longrightarrow> new) \<and>
      (new \<longrightarrow> held t k) \<and> (\<forall>x. held s x \<longrightarrow> held t x) \<and> (\<forall>x. x \<noteq> k \<and> absent s x \<longrightarrow> absent t x)"
    and other_state: "ok (put_ctx M c s) = ok s" "held (put_ctx M c s) = held s" "absent (put_ctx M c s) = absent s"
begin

lemma one:
  assumes key: "key_answers F parse key b k" and i: "i < length b" and ok: "ok s"
  shows "\<exists>new t. dedupe_one M F parse add key d b (i, b ! i) s = (Inr (kept_of d b k (if new then {i} else {}) i), t) \<and> ok t \<and>
    (\<forall>x. held s x \<longrightarrow> held t x) \<and> (\<forall>x. key_text F k i \<noteq> Some x \<and> absent s x \<longrightarrow> absent t x) \<and>
    (new \<longrightarrow> (\<exists>x. key_text F k i = Some x \<and> \<not> held s x \<and> held t x)) \<and>
    (\<forall>x. key_text F k i = Some x \<and> absent s x \<longrightarrow> new)"
proof -
  let ?c = "(msg_ctx F parse b i (b ! i) (get_ctx M s))\<lparr>vars := []\<rparr>"
  have "sees_message F parse b i ?c" by (simp add: sees_message_def msg_ctx_def)
  then have k: "fst (key ?c) = k i" using key i by (simp add: key_answers_def)
  obtain r c where rc: "key ?c = (r, c)" by fastforce
  show ?thesis
  proof (cases r)
    case (Inl e)
    then have ki: "k i = Inl e" using rc k by simp
    have "dedupe_one M F parse add key d b (i, b ! i) s = (Inr (kept_of d b k {} i), put_ctx M c s)"
      using rc ki Inl by (simp add: dedupe_one_def Let_def andthen_def rescue_def in_member_def ret_def kept_of_def)
    then show ?thesis
      using ok ki by (intro exI [of _ False] exI [of _ "put_ctx M c s"]) (simp add: key_text_def other_state)
  next
    case (Inr v)
    let ?x = "to_display_string F v"
    have ki: "k i = Inr v" using rc k Inr by simp
    obtain new t where t: "add ?x (put_ctx M c s) = (Inr new, t)" "ok t" "held s ?x \<longrightarrow> \<not> new" "absent s ?x \<longrightarrow> new"
      "new \<longrightarrow> held t ?x" "\<forall>x. held s x \<longrightarrow> held t x" "\<forall>x. x \<noteq> ?x \<and> absent s x \<longrightarrow> absent t x"
      using adds [of "put_ctx M c s" ?x] ok by (auto simp: other_state)
    have "dedupe_one M F parse add key d b (i, b ! i) s = (Inr (kept_of d b k (if new then {i} else {}) i), t)"
      using rc ki t(1) Inr by (simp add: dedupe_one_def Let_def andthen_def rescue_def in_member_def ret_def kept_of_def)
    moreover have "key_text F k i = Some ?x" using ki by (simp add: key_text_def)
    ultimately show ?thesis using t by (intro exI [of _ new] exI [of _ t]) auto
  qed
qed

text \<open>The messages from \<open>n\<close> on.\<close>

lemma each:
  assumes key: "key_answers F parse key b k"
  shows "n + m = length b \<Longrightarrow> ok s \<Longrightarrow>
    \<exists>sel t. each_do (dedupe_one M F parse add key d b) (map (\<lambda>i. (i, b ! i)) [n..<n + m]) s
        = (Inr (map (kept_of d b k sel) [n..<n + m]), t) \<and> ok t \<and> sel \<subseteq> {n..<n + m} \<and>
      (\<forall>x. held s x \<longrightarrow> held t x) \<and>
      (\<forall>i \<in> sel. \<exists>x. key_text F k i = Some x \<and> \<not> held s x \<and> held t x) \<and> inj_on (key_text F k) sel \<and>
      (\<forall>i x. n \<le> i \<and> i < n + m \<and> key_text F k i = Some x \<and> absent s x \<and> (\<forall>j. n \<le> j \<and> j < i \<longrightarrow> key_text F k j \<noteq> Some x) \<longrightarrow> i \<in> sel)"
proof (induction m arbitrary: n s)
  case 0
  then show ?case by (intro exI [of _ "{}"]) (simp add: ret_def)
next
  case (Suc m)
  have n: "n < length b" using Suc.prems by simp
  obtain new u where u: "dedupe_one M F parse add key d b (n, b ! n) s = (Inr (kept_of d b k (if new then {n} else {}) n), u)"
    "ok u" "\<forall>x. held s x \<longrightarrow> held u x" "\<forall>x. key_text F k n \<noteq> Some x \<and> absent s x \<longrightarrow> absent u x"
    "new \<longrightarrow> (\<exists>x. key_text F k n = Some x \<and> \<not> held s x \<and> held u x)" "\<forall>x. key_text F k n = Some x \<and> absent s x \<longrightarrow> new"
    using one [OF key n Suc.prems(2), of d] by blast
  obtain sel t where t: "each_do (dedupe_one M F parse add key d b) (map (\<lambda>i. (i, b ! i)) [Suc n..<Suc n + m]) u
        = (Inr (map (kept_of d b k sel) [Suc n..<Suc n + m]), t)" "ok t" "sel \<subseteq> {Suc n..<Suc n + m}"
      "\<forall>x. held u x \<longrightarrow> held t x"
      "\<forall>i \<in> sel. \<exists>x. key_text F k i = Some x \<and> \<not> held u x \<and> held t x" "inj_on (key_text F k) sel"
      "\<forall>i x. Suc n \<le> i \<and> i < Suc n + m \<and> key_text F k i = Some x \<and> absent u x \<and>
         (\<forall>j. Suc n \<le> j \<and> j < i \<longrightarrow> key_text F k j \<noteq> Some x) \<longrightarrow> i \<in> sel"
    using Suc.IH [of "Suc n" u] Suc.prems(1) u(2) by auto
  let ?sel = "(if new then {n} else {}) \<union> sel"
  have upt: "[n..<n + Suc m] = n # [Suc n..<Suc n + m]" by (simp add: upt_conv_Cons)
  have first: "kept_of d b k ?sel n = kept_of d b k (if new then {n} else {}) n"
    using t(3) by (auto simp: kept_of_def split: sum.split)
  have later: "map (kept_of d b k ?sel) [Suc n..<Suc n + m] = map (kept_of d b k sel) [Suc n..<Suc n + m]"
    by (rule map_cong) (auto simp: kept_of_def split: sum.split)
  have run: "each_do (dedupe_one M F parse add key d b) (map (\<lambda>i. (i, b ! i)) [n..<n + Suc m]) s
      = (Inr (map (kept_of d b k ?sel) [n..<n + Suc m]), t)"
    unfolding upt list.map first later by (rule each_do_step [OF u(1) t(1)])
  have fresh: "\<exists>x. key_text F k i = Some x \<and> \<not> held s x \<and> held t x" if "i \<in> ?sel" for i
    using that u(3,5) t(4,5) by (auto split: if_splits) blast+
  have inj: "inj_on (key_text F k) ?sel"
  proof -
    have "key_text F k n \<noteq> key_text F k i" if is_new: "new" and i: "i \<in> sel" for i
    proof -
      obtain x y where "key_text F k n = Some x" "held u x" "key_text F k i = Some y" "\<not> held u y"
        using u(5) t(5) is_new i by blast
      then show ?thesis by auto
    qed
    then have "key_text F k n \<notin> key_text F k ` sel" if "new" using that by blast
    then show ?thesis using t(6) by (simp add: inj_on_def image_iff) metis
  qed
  have chosen: "i \<in> ?sel" if i: "n \<le> i" "i < n + Suc m" "key_text F k i = Some x" "absent s x"
      "\<forall>j. n \<le> j \<and> j < i \<longrightarrow> key_text F k j \<noteq> Some x" for i x
  proof (cases "i = n")
    case True
    then show ?thesis using u(6) i by auto
  next
    case False
    then have "absent u x" using u(4) i by auto
    then show ?thesis using t(7) i False by auto
  qed
  show ?case
    using run t(2) t(3) u(3) t(4) fresh inj chosen by (intro exI [of _ ?sel] exI [of _ t] conjI) auto
qed

lemma dedupe_firsts:
  assumes "key_answers F parse key b k" "ok s"
  shows "\<exists>sel t. dedupe M F parse add key d b s = (Inr (unless_empty (concat (map (kept_of d b k sel) [0..<length b]))), t) \<and> ok t \<and>
      sel \<subseteq> {0..<length b} \<and> (\<forall>x. held s x \<longrightarrow> held t x) \<and>
      (\<forall>i \<in> sel. \<exists>x. key_text F k i = Some x \<and> \<not> held s x \<and> held t x) \<and> inj_on (key_text F k) sel \<and>
      (\<forall>i x. i < length b \<and> key_text F k i = Some x \<and> absent s x \<and> (\<forall>j<i. key_text F k j \<noteq> Some x) \<longrightarrow> i \<in> sel)"
proof -
  have enum: "enumerate 0 b = map (\<lambda>i. (i, b ! i)) [0..<length b]"
    by (rule nth_equalityI) (simp_all add: nth_enumerate_eq)
  obtain sel t where t: "each_do (dedupe_one M F parse add key d b) (enumerate 0 b) s
        = (Inr (map (kept_of d b k sel) [0..<length b]), t)" "ok t" "sel \<subseteq> {0..<length b}"
      "\<forall>x. held s x \<longrightarrow> held t x"
      "\<forall>i \<in> sel. \<exists>x. key_text F k i = Some x \<and> \<not> held s x \<and> held t x" "inj_on (key_text F k) sel"
      "\<forall>i x. i < length b \<and> key_text F k i = Some x \<and> absent s x \<and> (\<forall>j<i. key_text F k j \<noteq> Some x) \<longrightarrow> i \<in> sel"
    using each [OF assms(1), of 0 "length b" s d] assms(2) unfolding enum by auto
  let ?t = "snd (in_member M (change (\<lambda>c. (forget_pointers c)\<lparr>batch_size := of_nat (length b), batch_index := of_nat (length b)\<rparr>)) t)"
  have "dedupe M F parse add key d b s = (Inr (unless_empty (concat (map (kept_of d b k sel) [0..<length b]))), ?t)"
    by (simp add: dedupe_def andthen_def in_member_def change_def ret_def t(1))
  moreover have "ok ?t = ok t" "held ?t = held t" by (simp_all add: in_member_def change_def other_state)
  ultimately show ?thesis using t(2-7) by (intro exI [of _ sel] exI [of _ ?t]) auto
qed

end

text \<open>
  The memory cache, with sweeps: the state has the context, the number of keys added and the cache,
  and \<open>clock\<close> is what the clock reads at each addition.  While the readings stay below \<open>horizon\<close>, a key
  that expires at the horizon or later is held, and a key that is not there is absent; one in
  between may be swept or not.
\<close>

definition beside :: "(('f, 'r) ctx \<times> 'c, 'f, 'r) member" where
  "beside = \<lparr>get_ctx = fst, put_ctx = \<lambda>c s. (c, snd s)\<rparr>"

definition add_to_memory :: "(nat \<Rightarrow> int) \<Rightarrow> bytes \<Rightarrow> ('x \<times> nat \<times> memory_cache, bool) eff" where
  "add_to_memory clock k = (\<lambda>(x, n, cache). case memory_add (clock n) k cache of (new, cache) \<Rightarrow> (Inr new, (x, Suc n, cache)))"

definition held_until :: "int \<Rightarrow> memory_cache \<Rightarrow> bytes \<Rightarrow> bool" where
  "held_until horizon cache k \<longleftrightarrow> (\<exists>x. expiry cache k = Some x \<and> horizon \<le> x)"

lemma add_result: "fst (memory_add now k c) = (expiry c k = None)"
  by (simp add: memory_add_def expiry_def Let_def)

lemma add_keeps_absent:
  assumes "memory_inv c" "expiry c x = None" "x \<noteq> k"
  shows "expiry (snd (memory_add now k c)) x = None"
proof -
  let ?sh = "sweep (compaction c) now (shards c ! shard_for k c)"
  have "om_find (entries ?sh) x = None" if "shard_for x c = shard_for k c"
    using shard_sorted [OF assms(1), of k] assms(2) that by (simp add: expiry_def sweep_def om_find_filter)
  moreover have "om_sorted (entries ?sh)" by (rule om_sorted_sweep [OF shard_sorted [OF assms(1)]])
  ultimately show ?thesis
    using assms(2,3) by (auto simp: memory_add_def Let_def expiry_update [OF memory_nonempty [OF assms(1)]] om_find_emplace)
qed

definition within :: "(nat \<Rightarrow> int) \<Rightarrow> int \<Rightarrow> int \<Rightarrow> bool" where
  "within clock start len \<longleftrightarrow> (\<forall>n. start \<le> clock n \<and> clock n < start + len)"

lemma memory_adds:
  assumes inv: "memory_inv c" and ttl: "ttl c = len" and now: "within clock start len"
  shows "memory_inv (snd (memory_add (clock n) k c)) \<and> ttl (snd (memory_add (clock n) k c)) = len \<and>
    (held_until (start + len) c k \<longrightarrow> \<not> fst (memory_add (clock n) k c)) \<and>
    (expiry c k = None \<longrightarrow> fst (memory_add (clock n) k c)) \<and>
    (fst (memory_add (clock n) k c) \<longrightarrow> held_until (start + len) (snd (memory_add (clock n) k c)) k) \<and>
    (\<forall>x. held_until (start + len) c x \<longrightarrow> held_until (start + len) (snd (memory_add (clock n) k c)) x) \<and>
    (\<forall>x. x \<noteq> k \<and> expiry c x = None \<longrightarrow> expiry (snd (memory_add (clock n) k c)) x = None)"
proof -
  have now': "start \<le> clock n" "clock n < start + len" using now by (auto simp: within_def)
  have "held_until (start + len) (snd (memory_add (clock n) k c)) k" if "fst (memory_add (clock n) k c)"
    using add_sets_expiry [OF inv that] now'(1) ttl by (simp add: held_until_def)
  moreover have "held_until (start + len) (snd (memory_add (clock n) k c)) x" if "held_until (start + len) c x" for x
    using that expiry_kept [OF inv, of x _ "clock n" k] now'(2) unfolding held_until_def by fastforce
  moreover have "\<not> fst (memory_add (clock n) k c)" if "held_until (start + len) c k"
    using that by (auto simp: held_until_def add_result)
  ultimately show ?thesis
    using memory_inv_add [OF inv] ttl add_keeps_absent [OF inv] by (simp add: add_result)
qed

interpretation memory: key_cache beside "add_to_memory clock"
  "\<lambda>s k. held_until (start + len) (snd (snd s)) k" "\<lambda>s k. expiry (snd (snd s)) k = None"
  "\<lambda>s. memory_inv (snd (snd s)) \<and> ttl (snd (snd s)) = len \<and> within clock start len"
proof
  fix s :: "('a, 'b) ctx \<times> nat \<times> memory_cache" and k
  assume ok: "memory_inv (snd (snd s)) \<and> ttl (snd (snd s)) = len \<and> within clock start len"
  obtain x n c where s: "s = (x, n, c)" by (rule prod_cases3)
  have "within clock start len" "memory_inv c" "ttl c = len" using ok s by simp_all
  then show "\<exists>new t. add_to_memory clock k s = (Inr new, t) \<and>
      (memory_inv (snd (snd t)) \<and> ttl (snd (snd t)) = len \<and> within clock start len) \<and>
      (held_until (start + len) (snd (snd s)) k \<longrightarrow> \<not> new) \<and> (expiry (snd (snd s)) k = None \<longrightarrow> new) \<and>
      (new \<longrightarrow> held_until (start + len) (snd (snd t)) k) \<and>
      (\<forall>x. held_until (start + len) (snd (snd s)) x \<longrightarrow> held_until (start + len) (snd (snd t)) x) \<and>
      (\<forall>x. x \<noteq> k \<and> expiry (snd (snd s)) x = None \<longrightarrow> expiry (snd (snd t)) x = None)"
    using memory_adds [of c len clock start n k] s by (cases "memory_add (clock n) k c") (simp add: add_to_memory_def)
qed (simp_all add: beside_def fun_eq_iff)

text \<open>C39: Dedupe lets each key through once.  The key of a message may read anything of its context: \<open>this\<close>, the metadata,
  its place in the batch and the whole batch (\<open>key_answers\<close>); it may fail, and then its message is marked or
  dropped as \<open>drop_on_err\<close> says.  While the batch takes less than the time to live, whatever is swept: the messages
  that pass, at the places \<open>sel\<close>, have distinct keys, none of which the cache held to the end of that time; every key the
  cache did not have passes with its first message; and the keys that passed, like those held before, are held
  to the end of that time, so that no later batch before it lets them through.\<close>

theorem dedupe_passes_each_key_once:
  assumes "key_answers F parse key b k" and "memory_inv cache" and "within clock start (ttl cache)"
  shows "\<exists>sel c n cache'. dedupe beside F parse (add_to_memory clock) key drop_on_err b (ctx, 0, cache)
      = (Inr (unless_empty (concat (map (kept_of drop_on_err b k sel) [0..<length b]))), (c, n, cache')) \<and>
    memory_inv cache' \<and> ttl cache' = ttl cache \<and> inj_on (key_text F k) sel \<and>
    (\<forall>i \<in> sel. i < length b \<and> (\<exists>x. key_text F k i = Some x \<and> \<not> held_until (start + ttl cache) cache x \<and>
       held_until (start + ttl cache) cache' x)) \<and>
    (\<forall>i x. i < length b \<and> key_text F k i = Some x \<and> expiry cache x = None \<and> (\<forall>j<i. key_text F k j \<noteq> Some x) \<longrightarrow> i \<in> sel) \<and>
    (\<forall>x. held_until (start + ttl cache) cache x \<longrightarrow> held_until (start + ttl cache) cache' x)"
proof -
  obtain sel t where t: "dedupe beside F parse (add_to_memory clock) key drop_on_err b (ctx, 0, cache)
      = (Inr (unless_empty (concat (map (kept_of drop_on_err b k sel) [0..<length b]))), t)"
    "memory_inv (snd (snd t)) \<and> ttl (snd (snd t)) = ttl cache" "sel \<subseteq> {0..<length b}"
    "\<forall>x. held_until (start + ttl cache) cache x \<longrightarrow> held_until (start + ttl cache) (snd (snd t)) x"
    "\<forall>i \<in> sel. \<exists>x. key_text F k i = Some x \<and> \<not> held_until (start + ttl cache) cache x \<and>
       held_until (start + ttl cache) (snd (snd t)) x" "inj_on (key_text F k) sel"
    "\<forall>i x. i < length b \<and> key_text F k i = Some x \<and> expiry cache x = None \<and> (\<forall>j<i. key_text F k j \<noteq> Some x) \<longrightarrow> i \<in> sel"
    using memory.dedupe_firsts [OF assms(1), where s = "(ctx, 0, cache)" and len = "ttl cache" and clock = clock and start = start and d = drop_on_err] assms(2,3)
    by auto
  obtain c n cache' where c: "t = (c, n, cache')" by (rule prod_cases3)
  show ?thesis
    using t unfolding c by (intro exI [of _ sel] exI [of _ c] exI [of _ n] exI [of _ cache']) auto
qed

lemma dedupe_passes_each_key_once_witness:
  "\<exists>out c. dedupe beside some_floats some_parser (add_to_memory (\<lambda>n. 5 + int n mod 2))
      (\<lambda>c. (case meta_in c of None \<Rightarrow> Inl (Eval_error []) | Some _ \<Rightarrow> Inr (Str (case cur_msg c of None \<Rightarrow> [] | Some m \<Rightarrow> bytes_of some_floats m)), c)) True
      [of_bytes [1], of_bytes [2], of_bytes [1 :: byte]] (new_ctx :: (int, unit) ctx, 0, new_memory_cache 9 1 [[2]] 1 0)
    = (Inr out, c) \<and> concat out = [of_bytes [1]]"
proof -
  let ?cache = "new_memory_cache 9 1 [[2]] 1 0" and ?b = "[of_bytes [1], of_bytes [2], of_bytes [1 :: byte]] :: int msgs"
  let ?key = "\<lambda>c :: (int, unit) ctx. (case meta_in c of None \<Rightarrow> Inl (Eval_error [])
    | Some _ \<Rightarrow> Inr (Str (case cur_msg c of None \<Rightarrow> [] | Some m \<Rightarrow> bytes_of some_floats m)), c)"
  let ?k = "\<lambda>i. Inr (Str (bytes_of some_floats (?b ! i))) :: eval_error + int val"
  have texts: "key_text some_floats ?k 0 = Some [1]" "key_text some_floats ?k 1 = Some [2]" "key_text some_floats ?k 2 = Some [1]"
    by (simp_all add: key_text_def to_display_string_def message_defs of_bytes_def new_message_def)
  have one: "expiry ?cache [1] = None" and two: "expiry ?cache [2] = Some TIME_MAX" by code_simp+
  have ttl: "ttl ?cache = 9" by (rule ttl_new)
  have key: "key_answers some_floats some_parser ?key ?b ?k" by (auto simp: key_answers_def sees_message_def)
  have reads: "within (\<lambda>n. 5 + int n mod 2) 5 (ttl ?cache)"
  proof -
    have "0 \<le> int n mod 2 \<and> int n mod 2 < 2" for n by simp
    then show ?thesis unfolding ttl within_def by force
  qed
  obtain sel c n cache' where run: "dedupe beside some_floats some_parser (add_to_memory (\<lambda>n. 5 + int n mod 2)) ?key True ?b (new_ctx, 0, ?cache)
      = (Inr (unless_empty (concat (map (kept_of True ?b ?k sel) [0..<length ?b]))), (c, n, cache'))"
    and inj: "inj_on (key_text some_floats ?k) sel"
    and new: "\<forall>i \<in> sel. i < length ?b \<and> (\<exists>x. key_text some_floats ?k i = Some x \<and> \<not> held_until (5 + ttl ?cache) ?cache x)"
    and all: "\<forall>i x. i < length ?b \<and> key_text some_floats ?k i = Some x \<and> expiry ?cache x = None \<and>
       (\<forall>j<i. key_text some_floats ?k j \<noteq> Some x) \<longrightarrow> i \<in> sel"
    using dedupe_passes_each_key_once [OF key memory_inv_new reads, of True new_ctx] by blast
  have 0: "0 \<in> sel" using all one texts by simp
  then have 2: "2 \<notin> sel" using inj_onD [OF inj, of 0 2] texts by auto
  have "held_until (5 + ttl ?cache) ?cache [2]" unfolding ttl by (simp add: held_until_def two TIME_MAX_def)
  then have 1: "1 \<notin> sel" using new texts by auto
  have "concat (map (kept_of True ?b ?k sel) [0..<length ?b]) = [of_bytes [1]]"
    using 0 1 2 by (simp add: kept_of_def numeral_2_eq_2 upt_rec)
  then show ?thesis using run by (metis concat_unless_empty)
qed

lemma switch_keeps_the_order_witness:
  "\<exists>out t. switch True some_floats some_parser [(\<lambda>c :: (int, unit) ctx. (Inr (Boolean (this_v c = None)), c), [noop])]
      [of_bytes [1], of_bytes (str ''[1]''), of_bytes [2]] () = (Inr out, t) \<and>
    concat out = [of_bytes [1], of_bytes (str ''[1]''), of_bytes [2]]"
proof -
  let ?cs = "[(\<lambda>c :: (int, unit) ctx. (Inr (Boolean (this_v c = None)), c), [noop])]"
  let ?b = "[of_bytes [1], of_bytes (str ''[1]''), of_bytes [2]]"
  have one: "one_to_one (=) (run_chain [noop :: (unit, int) proc])"
    by (simp add: one_to_one_def yields_def run_chain_def noop_def ret_def andthen_def list.rel_eq non_empty_def)
  have chain: "x \<noteq> [] \<Longrightarrow> run_chain [noop] x = ret [x]" for x :: "int msgs"
    by (simp add: run_chain_def noop_def non_empty_def)
  have "\<exists>runs. switch True some_floats some_parser ?cs ?b = (ret runs :: (unit, int msgs list) eff)"
    by (simp add: switch_def Let_def chain) blast
  then obtain out where "switch True some_floats some_parser ?cs ?b = (ret out :: (unit, int msgs list) eff)" by blast
  then have run: "switch True some_floats some_parser ?cs ?b () = (Inr out, ())" by (simp only: ret_def)
  have same: "snd (route some_floats some_parser (map fst ?cs) m) = m" if "m \<in> set ?b" for m
    using that by (auto simp: route_def write_meta_def upd_def Let_def new_ctx_def)
  have "list_all2 (\<lambda>m m'. case route some_floats some_parser (map fst ?cs) m of (None, r) \<Rightarrow> m' = r | (Some _, r) \<Rightarrow> r = m') ?b (concat out)"
    using switch_keeps_the_order [OF _ run, of "(=)"] one by (simp add: case_prod_beta)
  then have "list_all2 (=) ?b (concat out)"
  proof (rule list.rel_mono_strong)
    fix m m' assume "m \<in> set ?b" "case route some_floats some_parser (map fst ?cs) m of (None, r) \<Rightarrow> m' = r | (Some _, r) \<Rightarrow> r = m'"
    then show "m = m'" using same [of m] by (cases "route some_floats some_parser (map fst ?cs) m") (simp split: option.splits)
  qed
  then have "concat out = ?b" by (simp only: list.rel_eq)
  then show ?thesis using run by blast
qed

lemma branch_keeps_the_batch_witness:
  "\<exists>flags after t. branch_process some_floats some_parser (Some (\<lambda>c :: (int, unit) ctx. (Inr Deleted, c))) [noop] None
      [of_bytes [1]] () = (Inr (flags, [after]), t) \<and> length after = 1"
  using branch_keeps_the_batch [of some_floats some_parser "Some (\<lambda>c :: (int, unit) ctx. (Inr Deleted, c))" "[noop]" None
    "[of_bytes [1]]" "()"] by fastforce


end
