(* ===== verification/Basic.thy ===== *)
theory Basic
  imports Interp
begin

text \<open>
  \<open>components/basic.cc\<close>: the generating input, and the standard output with the one thread that owns the
  descriptor.  The thread and the shards that hand it work are a step relation: every stretch under the lock
  is one step, and so is every call of \<open>::write\<close>, which may write any part of what is left, be interrupted
  or fail.  Posting a result to the shard of its request and resolving the promise there are one step.
\<close>

section \<open>The generating input\<close>

record ('f, 'r) generating =
  remaining :: "64 word"
  interval :: int
  started :: bool
  gen_ctx :: "('f, 'r) ctx"

definition generate_input :: "64 word \<Rightarrow> int \<Rightarrow> ('f, 'r) generating" where
  "generate_input n every = \<lparr>remaining = n, interval = every, started = False, gen_ctx = new_ctx\<rparr>"

text \<open>\<open>broken\<close> is the outcome of the pause before every message but the first.\<close>

definition generate_read :: "('f, 'r) mapping_fn \<Rightarrow> bool \<Rightarrow> (('f, 'r) generating, 'f msg list option) eff" where
  "generate_read t broken g =
     (if remaining g = 0 then (Inr None, g)
      else if started g \<and> interval g > 0 \<and> broken then (Inr None, g)
      else
        (case t ((gen_ctx g)\<lparr>vars := [], this_v := Some (Object []), all_msgs := Some [], batch_size := 0, batch_index := 0\<rparr>) of
           (r, c) \<Rightarrow>
             let g = g\<lparr>remaining := remaining g - 1, started := True, gen_ctx := c\<rparr>
             in case r of Inl e \<Rightarrow> (Inl e, g) | Inr v \<Rightarrow> (Inr (Some [snd (set_mapped v new_message)]), g)))"

fun generate_reads :: "('f, 'r) mapping_fn \<Rightarrow> nat \<Rightarrow> (('f, 'r) generating, 'f msg list option list) eff" where
  "generate_reads t 0 = ret []"
| "generate_reads t (Suc n) = andthen (generate_read t False) (\<lambda>b. andthen (generate_reads t n) (\<lambda>bs. ret (b # bs)))"

text \<open>An input of count \<open>n\<close> hands out \<open>n\<close> messages and then ends, as long as its mapping does not throw.\<close>

lemma generate_reads_ended: "remaining g = 0 \<Longrightarrow> generate_reads t k g = (Inr (replicate k None), g)"
  by (induction k) (simp_all add: ret_def andthen_def generate_read_def)

lemma generate_counts:
  assumes "\<And>c. \<exists>v d. t c = (Inr v, d)"
  shows "\<exists>bs h. generate_reads t (unat (remaining g) + k) g = (Inr (map Some bs @ replicate k None), h) \<and>
    length bs = unat (remaining g) \<and> (\<forall>b \<in> set bs. length b = 1)"
proof (induction "unat (remaining g)" arbitrary: g)
  case 0
  then have "remaining g = 0" by (simp add: unat_eq_0)
  then show ?case by (simp add: generate_reads_ended)
next
  case (Suc n)
  then have pos: "remaining g \<noteq> 0" by auto
  obtain v d where v: "t ((gen_ctx g)\<lparr>vars := [], this_v := Some (Object []), all_msgs := Some [], batch_size := 0, batch_index := 0\<rparr>) = (Inr v, d)"
    using assms by blast
  let ?h = "g\<lparr>remaining := remaining g - 1, started := True, gen_ctx := d\<rparr>"
  have n: "n = unat (remaining ?h)" using Suc.hyps(2) pos by (simp add: unat_minus_one)
  from Suc.hyps(1) [OF this] obtain bs h where bs: "generate_reads t (n + k) ?h = (Inr (map Some bs @ replicate k None), h)"
    "length bs = n" "\<forall>b \<in> set bs. length b = 1" unfolding n [symmetric] by blast
  have "generate_reads t (unat (remaining g) + k) g = (Inr (map Some ([snd (set_mapped v new_message)] # bs) @ replicate k None), h)"
    using bs(1) pos v by (simp add: Suc.hyps(2) [symmetric] andthen_def ret_def generate_read_def Let_def)
  then show ?case using bs(2,3) Suc.hyps(2) by (intro exI [of _ "[snd (set_mapped v new_message)] # bs"] exI [of _ h]) auto
qed

section \<open>The owner of the standard output\<close>

record request =
  buffer :: bytes
  shard :: nat

text \<open>The thread at the condition variable, inside \<open>write_all\<close> with so much written, or returned.\<close>

datatype thread = Idle | Busy request nat | Returned

record writer =
  waiting :: "request list"
  refs :: nat
  is_running :: bool
  threads :: "thread list"
  handle :: nat
  joining :: "nat list"
  fd :: bytes
  accepted :: "request list"
  settled :: "(request \<times> bytes \<times> nat) list"

definition new_writer :: writer where
  "new_writer = \<lparr>waiting = [], refs = 0, is_running = False, threads = [], handle = 0, joining = [], fd = [],
     accepted = [], settled = []\<rparr>"

text \<open>What a call of \<open>write\<close> answers at once; otherwise the request is in the queue.\<close>

definition hand_in :: "request \<Rightarrow> writer \<Rightarrow> (failure + unit) option \<times> writer" where
  "hand_in r w =
     (if buffer r = [] then (Some (Inr ()), w)
      else if \<not> is_running w then (Some (Inl (str ''stdout output was closed while a write was pending'')), w)
      else (None, w\<lparr>waiting := waiting w @ [r], accepted := accepted w @ [r]\<rparr>))"

definition ref :: "writer \<Rightarrow> writer" where
  "ref w = (if refs w = 0
     then w\<lparr>refs := 1, is_running := True, threads := threads w @ [Idle], handle := length (threads w)\<rparr>
     else w\<lparr>refs := refs w + 1\<rparr>)"

definition unref :: "writer \<Rightarrow> writer" where
  "unref w =
     (if refs w = 0 then w
      else if refs w > 1 then w\<lparr>refs := refs w - 1\<rparr>
      else w\<lparr>refs := 0, is_running := False, joining := handle w # joining w\<rparr>)"

definition set_thread :: "nat \<Rightarrow> thread \<Rightarrow> writer \<Rightarrow> writer" where
  "set_thread i t w = w\<lparr>threads := (threads w)[i := t]\<rparr>"

text \<open>One turn of \<open>write_all\<close>: how far the write came, or the number it returns.\<close>

datatype outcome = Wrote nat | Interrupted | Failed nat

definition EIO :: nat where "EIO = 5"

definition write_turn :: "bytes \<Rightarrow> nat \<Rightarrow> outcome \<Rightarrow> nat + nat" where
  "write_turn buf off res = (case res of
     Wrote n \<Rightarrow> if n > 0 then Inl (off + n) else Inr EIO
   | Interrupted \<Rightarrow> Inl off
   | Failed errno \<Rightarrow> Inr errno)"

inductive step :: "writer \<Rightarrow> writer \<Rightarrow> bool" where
  hands_in: "step w (snd (hand_in r w))"
| refs_up: "step w (ref w)"
| refs_down: "step w (unref w)"
| takes: "i < length (threads w) \<Longrightarrow> threads w ! i = Idle \<Longrightarrow> waiting w = r # rest \<Longrightarrow>
    step w (set_thread i (Busy r 0) (w\<lparr>waiting := rest\<rparr>))"
| returns: "i < length (threads w) \<Longrightarrow> threads w ! i = Idle \<Longrightarrow> waiting w = [] \<Longrightarrow> \<not> is_running w \<Longrightarrow>
    step w (set_thread i Returned w)"
| turns: "i < length (threads w) \<Longrightarrow> threads w ! i = Busy r off \<Longrightarrow> off < length (buffer r) \<Longrightarrow>
    (\<forall>n. res = Wrote n \<longrightarrow> n \<le> length (buffer r) - off) \<Longrightarrow> (\<forall>e. res = Failed e \<longrightarrow> e \<noteq> 0) \<Longrightarrow>
    write_turn (buffer r) off res = Inl off' \<Longrightarrow>
    step w (set_thread i (Busy r off') (w\<lparr>fd := fd w @ take (off' - off) (drop off (buffer r))\<rparr>))"
| fails: "i < length (threads w) \<Longrightarrow> threads w ! i = Busy r off \<Longrightarrow> off < length (buffer r) \<Longrightarrow>
    (\<forall>e. res = Failed e \<longrightarrow> e \<noteq> 0) \<Longrightarrow> write_turn (buffer r) off res = Inr errno \<Longrightarrow>
    step w (set_thread i Idle (w\<lparr>settled := settled w @ [(r, take off (buffer r), errno)]\<rparr>))"
| finishes: "i < length (threads w) \<Longrightarrow> threads w ! i = Busy r off \<Longrightarrow> length (buffer r) \<le> off \<Longrightarrow>
    step w (set_thread i Idle (w\<lparr>settled := settled w @ [(r, buffer r, 0)]\<rparr>))"
| joins: "i \<in> set (joining w) \<Longrightarrow> threads w ! i = Returned \<Longrightarrow> step w (w\<lparr>joining := remove1 i (joining w)\<rparr>)"

inductive reached :: "writer \<Rightarrow> bool" where
  start: "reached new_writer"
| further: "reached w \<Longrightarrow> step w w' \<Longrightarrow> reached w'"

text \<open>Under one thread: the requests settled, the one in hand and those waiting are what was accepted, in order.\<close>

definition in_hand :: "thread list \<Rightarrow> (request \<times> nat) list" where
  "in_hand ts = concat (map (\<lambda>t. case t of Busy r off \<Rightarrow> [(r, off)] | _ \<Rightarrow> []) ts)"

definition settled_well :: "request \<times> bytes \<times> nat \<Rightarrow> bool" where
  "settled_well = (\<lambda>(r, written, errno). if errno = 0 then written = buffer r
     else length written < length (buffer r) \<and> written = take (length written) (buffer r))"

definition in_order :: "writer \<Rightarrow> bool" where
  "in_order w \<longleftrightarrow>
     accepted w = map fst (settled w) @ map fst (in_hand (threads w)) @ waiting w \<and>
     fd w = concat (map (fst \<circ> snd) (settled w)) @ concat (map (\<lambda>(r, off). take off (buffer r)) (in_hand (threads w)))"

text \<open>What holds with any number of threads.\<close>

definition writer_inv :: "writer \<Rightarrow> bool" where
  "writer_inv w \<longleftrightarrow>
     (\<forall>r \<in> set (accepted w). buffer r \<noteq> []) \<and> (\<forall>x \<in> set (settled w). settled_well x) \<and>
     (\<forall>r off. Busy r off \<in> set (threads w) \<longrightarrow> off \<le> length (buffer r)) \<and>
     (is_running w \<or> waiting w \<noteq> [] \<longrightarrow> (\<exists>t \<in> set (threads w). t \<noteq> Returned)) \<and>
     mset (accepted w) = mset (map fst (settled w)) + mset (map fst (in_hand (threads w))) + mset (waiting w) \<and>
     (length (threads w) \<le> 1 \<longrightarrow> in_order w)"

lemma in_hand_update:
  assumes "i < length ts"
  shows "mset (in_hand (ts[i := t])) + mset (in_hand [ts ! i]) = mset (in_hand ts) + mset (in_hand [t])"
proof -
  have "mset (in_hand (xs @ x # ys)) = mset (in_hand xs) + mset (in_hand [x]) + mset (in_hand ys)" for xs x ys
    by (simp add: in_hand_def)
  from this [of "List.take i ts" t "drop (Suc i) ts"] this [of "List.take i ts" "ts ! i" "drop (Suc i) ts"]
  show ?thesis using assms by (simp add: upd_conv_take_nth_drop id_take_nth_drop [OF assms, symmetric])
qed

lemma in_hand_simps [simp]: "in_hand [] = []" "in_hand (Busy r n # ts) = (r, n) # in_hand ts" "in_hand (Idle # ts) = in_hand ts"
  "in_hand (Returned # ts) = in_hand ts" "in_hand (ts @ us) = in_hand ts @ in_hand us"
  by (simp_all add: in_hand_def)

lemma held_update:
  assumes "i < length ts"
  shows "mset (map fst (in_hand (ts[i := t]))) + mset (map fst (in_hand [ts ! i])) = mset (map fst (in_hand ts)) + mset (map fst (in_hand [t]))"
  using arg_cong [OF in_hand_update [OF assms, of t], of "image_mset fst"] by simp

lemma one_thread: "length ts \<le> 1 \<Longrightarrow> i < length ts \<Longrightarrow> ts ! i = x \<Longrightarrow> ts = [x] \<and> i = 0"
  by (cases ts) (auto simp: le_Suc_eq)

lemma books_balance:
  fixes A :: "'a multiset"
  assumes "A = S + H + W" "S' + T + W' = S + O' + W" "H' + O' = H + T"
  shows "A = S' + H' + W'"
proof (rule multiset_eqI)
  show "Multiset.count A x = Multiset.count (S' + H' + W') x" for x
    using assms [THEN arg_cong, of "\<lambda>M. Multiset.count M x"] by simp
qed

lemma place_bound: "writer_inv w \<Longrightarrow> i < length (threads w) \<Longrightarrow> threads w ! i = Busy r off \<Longrightarrow> off \<le> length (buffer r)"
  unfolding writer_inv_def by (metis nth_mem)

text \<open>A step of one thread keeps the invariant when it keeps the books and its own place.\<close>

lemma writer_inv_thread:
  assumes inv: "writer_inv w" and i: "i < length (threads w)"
    and same: "accepted w' = accepted w" "threads w' = (threads w)[i := t]" "is_running w' = is_running w"
    and set: "\<forall>x \<in> set (settled w'). settled_well x" and place: "\<And>r off. t = Busy r off \<Longrightarrow> off \<le> length (buffer r)"
    and live: "t = Returned \<Longrightarrow> \<not> is_running w \<and> waiting w' = []"
    and books: "mset (map fst (settled w')) + mset (map fst (in_hand [t])) + mset (waiting w') =
      mset (map fst (settled w)) + mset (map fst (in_hand [threads w ! i])) + mset (waiting w)"
    and order: "threads w = [threads w ! i] \<Longrightarrow> i = 0 \<Longrightarrow> in_order w \<Longrightarrow> in_order w'"
  shows "writer_inv w'"
proof -
  have "mset (accepted w') = mset (map fst (settled w')) + mset (map fst (in_hand (threads w'))) + mset (waiting w')"
    using books_balance [OF _ books held_update [OF i, of t]] inv unfolding writer_inv_def same by blast
  moreover have "is_running w' \<or> waiting w' \<noteq> [] \<longrightarrow> (\<exists>u \<in> set (threads w'). u \<noteq> Returned)"
    using live set_update_memI [OF i, of t] same by (metis (full_types))
  moreover have "Busy r off \<in> set (threads w') \<Longrightarrow> off \<le> length (buffer r)" for r off
    using inv place set_update_subset_insert [of "threads w" i t] by (auto simp: same writer_inv_def)
  moreover have "in_order w'" if "length (threads w') \<le> 1"
    using inv order one_thread [OF _ i refl] that by (auto simp: same writer_inv_def)
  ultimately show ?thesis using inv set unfolding writer_inv_def same by blast
qed

lemma take_drop_append: "off \<le> off' \<Longrightarrow> take off xs @ take (off' - off) (drop off xs) = take off' xs"
  by (metis le_add_diff_inverse take_add)

lemma writer_inv_new: "writer_inv new_writer"
  by (simp add: writer_inv_def new_writer_def in_order_def)

lemma writer_inv_step: "step w w' \<Longrightarrow> writer_inv w \<Longrightarrow> writer_inv w'"
proof (induction rule: step.induct)
  case (hands_in w r)
  then show ?case by (auto simp: writer_inv_def hand_in_def in_order_def)
next
  case (refs_up w)
  then show ?case by (auto simp: writer_inv_def ref_def in_order_def)
next
  case (refs_down w)
  then show ?case by (auto simp: writer_inv_def unref_def in_order_def)
next
  case (takes i w r rest)
  show ?case
    by (rule writer_inv_thread [OF takes(4,1), where t = "Busy r 0"])
      (use takes in \<open>auto simp: set_thread_def in_order_def writer_inv_def\<close>)
next
  case (returns i w)
  show ?case
    by (rule writer_inv_thread [OF returns(5,1), where t = Returned])
      (use returns in \<open>auto simp: set_thread_def in_order_def writer_inv_def\<close>)
next
  case (turns i w r off res off')
  have off: "off \<le> off'" "off' \<le> length (buffer r)" using turns by (auto simp: write_turn_def split: outcome.splits if_splits)
  show ?case
    by (rule writer_inv_thread [OF turns(7,1), where t = "Busy r off'"])
      (use turns off in \<open>auto simp: set_thread_def in_order_def writer_inv_def take_drop_append\<close>)
next
  case (fails i w r off res errno)
  have "errno \<noteq> 0" using fails by (auto simp: write_turn_def EIO_def split: outcome.splits if_splits)
  then have "settled_well (r, take off (buffer r), errno)" using fails(3) by (simp add: settled_well_def)
  then show ?case
    by (intro writer_inv_thread [OF fails(6,1), where t = Idle])
      (use fails in \<open>auto simp: set_thread_def in_order_def writer_inv_def\<close>)
next
  case (finishes i w r off)
  have "off = length (buffer r)" using place_bound [OF finishes(4,1,2)] finishes(3) by simp
  then show ?case
    by (intro writer_inv_thread [OF finishes(4,1), where t = Idle])
      (use finishes in \<open>auto simp: set_thread_def in_order_def writer_inv_def settled_well_def\<close>)
next
  case (joins i w)
  then show ?case by (simp add: writer_inv_def in_order_def)
qed

lemma reached_inv: "reached w \<Longrightarrow> writer_inv w"
  by (induction rule: reached.induct) (auto intro: writer_inv_new writer_inv_step)

text \<open>C40: The standard output settles every write it accepts exactly once.  A write that succeeds has put its whole batch
  on the descriptor, one that fails a proper prefix of it.  As long as one thread was started the writes are settled in the
  order they were accepted, and the output is those batches one after another, none interleaved with another.  When
  every thread has returned nothing is left waiting: what was accepted before the last close has been settled.\<close>

theorem stdout_settles_every_write:
  assumes "reached w"
  shows "(\<forall>x \<in> set (settled w). settled_well x) \<and>
    (length (threads w) \<le> 1 \<longrightarrow>
      accepted w = map fst (settled w) @ map fst (in_hand (threads w)) @ waiting w \<and>
      fd w = concat (map (fst \<circ> snd) (settled w)) @ concat (map (\<lambda>(r, off). take off (buffer r)) (in_hand (threads w)))) \<and>
    ((\<forall>t \<in> set (threads w). t = Returned) \<longrightarrow> waiting w = [] \<and> mset (map fst (settled w)) = mset (accepted w))"
proof -
  note inv = reached_inv [OF assms]
  have "in_hand (threads w) = []" if "\<forall>t \<in> set (threads w). t = Returned"
    using that by (auto simp: in_hand_def split: thread.split)
  then show ?thesis using inv unfolding writer_inv_def in_order_def by auto
qed

text \<open>One life of the writer: opened, one batch written in two turns, closed.\<close>

definition one_life :: writer where
  "one_life = \<lparr>waiting = [], refs = 0, is_running = False, threads = [Returned], handle = 0, joining = [0], fd = [97, 10],
     accepted = [\<lparr>buffer = [97, 10], shard = 0\<rparr>], settled = [(\<lparr>buffer = [97, 10], shard = 0\<rparr>, [97, 10], 0)]\<rparr>"

lemma one_life_reached: "reached one_life"
proof -
  let ?r = "\<lparr>buffer = [97, 10], shard = 0\<rparr>"
  have 1: "reached (ref new_writer)" by (rule reached.further [OF reached.start step.refs_up])
  have 2: "reached (snd (hand_in ?r (ref new_writer)))" by (rule reached.further [OF 1 step.hands_in])
  have 3: "reached (unref (snd (hand_in ?r (ref new_writer))))" by (rule reached.further [OF 2 step.refs_down])
  have 4: "reached (set_thread 0 (Busy ?r 0) ((unref (snd (hand_in ?r (ref new_writer))))\<lparr>waiting := []\<rparr>))" (is "reached ?w4")
    by (rule reached.further [OF 3 step.takes]) (simp_all add: ref_def unref_def hand_in_def new_writer_def)
  have w4: "?w4 = one_life\<lparr>threads := [Busy ?r 0], fd := [], settled := []\<rparr>"
    by (simp add: ref_def unref_def hand_in_def new_writer_def set_thread_def one_life_def)
  have 5: "reached (one_life\<lparr>threads := [Busy ?r 1], fd := [97], settled := []\<rparr>)"
    using step.turns [of 0 "one_life\<lparr>threads := [Busy ?r 0], fd := [], settled := []\<rparr>" ?r 0 "Wrote 1" 1] 4 w4 reached.further
    by (fastforce simp: write_turn_def set_thread_def one_life_def)
  have 6: "reached (one_life\<lparr>threads := [Busy ?r 2], settled := []\<rparr>)"
    using step.turns [of 0 "one_life\<lparr>threads := [Busy ?r 1], fd := [97], settled := []\<rparr>" ?r 1 "Wrote 1" 2] 5 reached.further
    by (fastforce simp: write_turn_def set_thread_def one_life_def)
  have 7: "reached (one_life\<lparr>threads := [Idle]\<rparr>)"
    using step.finishes [of 0 "one_life\<lparr>threads := [Busy ?r 2], settled := []\<rparr>" ?r 2] 6 reached.further
    by (fastforce simp: set_thread_def one_life_def)
  show ?thesis
    using step.returns [of 0 "one_life\<lparr>threads := [Idle]\<rparr>"] 7 reached.further by (fastforce simp: set_thread_def one_life_def)
qed

lemma stdout_settles_every_write_witness:
  "waiting one_life = [] \<and> mset (map fst (settled one_life)) = mset (accepted one_life) \<and> fd one_life = [97, 10]"
  using stdout_settles_every_write [OF one_life_reached] by (simp add: one_life_def)

subsection \<open>A gap\<close>

text \<open>A shard that opens the output again while the last close still waits for the thread keeps that thread alive: the
  closing shard is blocked in \<open>join\<close> for as long as the new user runs.\<close>

lemma close_waits_for_the_next_user:
  "\<exists>w. reached w \<and> joining w = [0] \<and> threads w = [Idle, Idle] \<and> is_running w \<and>
     (\<forall>w'. step w w' \<longrightarrow> is_running w' \<longrightarrow> threads w' ! 0 \<noteq> Returned)"
proof (intro exI conjI)
  show "reached (ref (unref (ref new_writer)))"
    using reached.further [OF reached.further [OF reached.further [OF reached.start step.refs_up] step.refs_down] step.refs_up] .
  show "\<forall>w'. step (ref (unref (ref new_writer))) w' \<longrightarrow> is_running w' \<longrightarrow> threads w' ! 0 \<noteq> Returned"
    by (auto elim!: step.cases simp: ref_def unref_def hand_in_def new_writer_def set_thread_def nth_Cons' split: if_splits)
qed (simp_all add: ref_def unref_def new_writer_def)

section \<open>The outputs\<close>

text \<open>The lines of a batch in one buffer, and closing, which gives back the one reference of the output.\<close>

definition stdout_buffer :: "'f floats \<Rightarrow> 'f msg list \<Rightarrow> bytes" where
  "stdout_buffer F b = foldl (\<lambda>buf m. append_line buf (bytes_of F m)) [] b"

definition stdout_write :: "'f floats \<Rightarrow> nat \<Rightarrow> 'f msg list \<Rightarrow> writer \<Rightarrow> (failure + unit) option \<times> writer" where
  "stdout_write F sh b w = hand_in \<lparr>buffer = stdout_buffer F b, shard = sh\<rparr> w"

definition stdout_close :: "bool \<Rightarrow> writer \<Rightarrow> bool \<times> writer" where
  "stdout_close opened w = (if opened then (False, unref w) else (opened, w))"

lemma stdout_buffer_lines: "stdout_buffer F b = concat (map (\<lambda>m. append_line [] (bytes_of F m)) b)"
proof -
  have "foldl (\<lambda>buf m. append_line buf (bytes_of F m)) buf b = buf @ concat (map (\<lambda>m. append_line [] (bytes_of F m)) b)" for buf
    by (induction b arbitrary: buf) (simp_all add: append_line_def)
  then show ?thesis by (simp add: stdout_buffer_def)
qed

lemma close_twice_is_close: "stdout_close (fst (stdout_close True w)) (snd (stdout_close True w)) = stdout_close True w"
  by (simp add: stdout_close_def)

end
