(* ===== verification/Spec2Isabelle.thy ===== *)
theory Spec2Isabelle
  imports Records_Laws Acks Batch_Policy Rendezvous Rate_Limit Caches Membership Stream Scanners Replay Buffered_Input Fan_In Producer Value_Json Methods Interp_Laws Structured_Laws Processors_Laws Basic
begin

text \<open>
  Verification library of the swordfish stream processor, a C++ program on the seastar runtime that
  runs Benthos-style configurations: an input hands batches of messages with an acknowledgement to a
  pipeline of processors, whose results an output writes, after which the acknowledgement of the
  batch is called.  The promise of the program is at-least-once delivery: a batch is acknowledged to
  its source only after all of it has been written.

  \<^bold>\<open>Parts and theories.\<close>

  \<^item> \<^verbatim>\<open>Prelude\<close>: words, bytes and byte strings, fallible results as sums, shared lemmas and collections.
  \<^item> \<^verbatim>\<open>Ordered_Map\<close>: the sorted vectors of \<open>src/message.cc\<close> and the contract \<open>finite_store\<close> that the
    clients of ordered maps use.
  \<^item> \<^verbatim>\<open>Acks\<close>: \<open>ack_group\<close> of \<open>src/runtime/transaction.cc\<close>, which joins the acknowledgements of the parts
    of a batch; the parent is called exactly once, with the first failure.
  \<^item> \<^verbatim>\<open>Stream\<close>: the three layers of \<open>src/runtime/stream.cc\<close> between two bounded queues, with graceful and
    forced shutdown, as a step relation; a ledger invariant gives that acknowledged means delivered,
    that an ended stream has resolved everything, and that the queues stay bounded.
  \<^item> \<^verbatim>\<open>Batch_Policy\<close>, \<^verbatim>\<open>Rendezvous\<close>, \<^verbatim>\<open>Rate_Limit\<close>, \<^verbatim>\<open>Caches\<close>: the other shared pieces of
    \<open>src/runtime\<close>: when a batch is full, handing a value to a waiter, the token bucket shared
    over the shards, and the memory, LRU, TTL and file caches of the dedupe and cache components.
  \<^item> \<^verbatim>\<open>Replay\<close>, \<^verbatim>\<open>Batched_Input\<close>, \<^verbatim>\<open>Buffered_Input\<close>, \<^verbatim>\<open>Fan_In\<close>: the inputs of \<open>src/components/io.cc\<close>
    that wrap other inputs: replay of nacked batches, batching with one acknowledgement group for each
    source batch, the memory buffer, processors, broker and sequence.
  \<^item> \<^verbatim>\<open>Outputs\<close>, \<^verbatim>\<open>Batched_Output\<close>: the outputs of \<open>src/components/outputs.cc\<close> that wrap other outputs:
    reject, retry, processors, fan-out, round robin, greedy, fallback and switch as a tree with a
    big-step relation over the trace of the writes; the batching output as a state machine.
  \<^item> \<^verbatim>\<open>Scan_Base\<close>, \<^verbatim>\<open>Scan_Text\<close>, \<^verbatim>\<open>Scan_Json\<close>, \<^verbatim>\<open>Scan_Csv\<close>, \<^verbatim>\<open>Scan_Tar\<close>, \<^verbatim>\<open>Scanners\<close>: the scanners of
    \<open>src/components/scanners.cc\<close>, which cut a byte stream into messages; the locale \<open>cut_law\<close> is
    the contract that the result does not depend on where the reads cut the stream.
  \<^item> \<^verbatim>\<open>Wire\<close>, \<^verbatim>\<open>Wire_Laws\<close>, \<^verbatim>\<open>Crc\<close>, \<^verbatim>\<open>Records\<close>, \<^verbatim>\<open>Records_Laws\<close>: the Kafka byte formats of
    \<open>include/swordfish/kafka/wire.hh\<close> and \<open>src/kafka/records.cc\<close>; \<open>wire_codec\<close> is the contract of a
    primitive and its reader.
  \<^item> \<^verbatim>\<open>Client\<close>, \<^verbatim>\<open>Retry\<close>, \<^verbatim>\<open>Cluster\<close>, \<^verbatim>\<open>Producer\<close>, \<^verbatim>\<open>Assignors\<close>, \<^verbatim>\<open>Group\<close>, \<^verbatim>\<open>Consumer\<close>, \<^verbatim>\<open>Membership\<close>:
    the Kafka client of \<open>src/kafka\<close>: pipelined requests on one connection, metadata, partitioning and
    produce retries, the group protocol, offsets and the sharing of one membership by the shards.

  \<^item> \<^verbatim>\<open>Encodings\<close>: \<open>src/encoding_util.cc\<close>: hexadecimal, base64, ascii85, z85 and UTF-8, decoders that
    throw and decoders that stop.
  \<^item> \<^verbatim>\<open>Values\<close>, \<^verbatim>\<open>Values_Laws\<close>, \<^verbatim>\<open>Value_Json\<close>: the dynamic value of \<open>src/value.cc\<close>: its fields, equality, JSON text,
    arithmetic and comparisons; an object refines a finite map, every operator has the types it
    promises, and the text of a value is one document for the JSON scanner.
  \<^item> \<^verbatim>\<open>Methods\<close>, \<^verbatim>\<open>Calendar\<close>: the methods of the mapping language on strings, arrays, objects and numbers
    (\<open>src/value.cc\<close>, \<open>src/methods.cc\<close>) and the calendar of \<open>src/methods_time.cc\<close>.
  \<^item> \<^verbatim>\<open>Messages\<close>: the payload of a message (\<open>src/message.cc\<close>): the raw bytes, the structured document, and
    the conversions between them that keep the two in step.
  \<^item> \<^verbatim>\<open>Effects\<close>: computations over a state that may throw, as the interpreter of \<open>src/interp.cc\<close> runs them; the
    locale \<open>tracking\<close> is what a relation between the states before and after must satisfy to hold of every
    computation, the throwing ones included.
  \<^item> \<^verbatim>\<open>Structured\<close>, \<^verbatim>\<open>Structured_Laws\<close>, \<^verbatim>\<open>Queries\<close>: \<open>src/methods_structured.cc\<close>: diff and patch, and the
    methods whose argument is a query (map_each, filter, fold, sort_by).
  \<^item> \<^verbatim>\<open>Runtime\<close>, \<^verbatim>\<open>Interp\<close>, \<^verbatim>\<open>Interp_Laws\<close>: the context, functions and control operators of a mapping, its
    syntax tree and evaluation, and the laws: the scope is restored on every way out, and the nesting of
    map calls is bounded.
  \<^item> \<^verbatim>\<open>Processors\<close>, \<^verbatim>\<open>Processors_Laws\<close>: the processors of \<open>src/components/processors.cc\<close> and the mapping
    processor of \<open>src/components/basic.cc\<close> as effects over a batch: a switch keeps the order, a branch
    keeps the batch and leaves declined messages alone, a workflow books every branch under the right
    key, and dedupe passes each key once (the locale \<open>key_cache\<close>, which the memory cache of \<^verbatim>\<open>Caches\<close>
    provides).
  \<^item> \<^verbatim>\<open>Basic\<close>: the generate, stdin and stdout components of \<open>src/components/basic.cc\<close>: the writes that share
    the descriptor of the process are each settled once.

  \<^bold>\<open>Conventions.\<close>  Structures are records with the fields of the code, tagged unions datatypes, and one
  definition models one function or handler.  Errors are values, on the left of a sum.  Integers of a
  fixed width are words wherever their range can be left; sizes, times and counters that memory or
  the configuration bounds are naturals or integers, and the text of the theory says so.  Coroutines
  are state machines whose steps are the stretches between two suspension points, interleaved by an
  inductive relation; a join (\<open>when_all\<close>, closing a gate) is one step, enabled when what it waits for is
  over.  \<open>seastar::queue\<close> is a bounded list; a condition variable is the place of the coroutine
  that waits on it.  A coroutine of the Kafka client that waits for a broker is one definition, which
  takes what other code does to its state at each suspension point as an argument: the
  acknowledgements during a poll of \<^verbatim>\<open>Consumer\<close>, the offers during a commit or a join of \<^verbatim>\<open>Membership\<close>.
  Histories (what was handed out, acknowledged, written) are fields of the state
  that no guard reads.

  \<^bold>\<open>Parameters.\<close>  The clock, the network, brokers, sinks and sources, compression codecs, regular
  expressions (RE2) and JSON parsing (simdjson) are arguments of the definitions that use them; the
  interpreter takes the methods and functions of the tables that are not modelled, the random generator
  and the environment as one record, and the components that hold a compiled mapping or a processor take
  it as an argument.  What C++ leaves undefined (the remainder of the least integer by \<open>- 1\<close>) is a
  parameter of which nothing is known.  The SSE4.2 instruction of \<^verbatim>\<open>Crc\<close> has its documented effect.  The model is of a build
  without Avro.

  \<^bold>\<open>Bounds.\<close>  The group protocol tries eleven times and at most fifteen seconds, the numbers of the
  code; the loops over buffers take the length of the buffer as fuel, since every turn consumes at
  least one byte; the evaluation of a mapping is structural, and a call of a named map spends one of the
  levels the code itself allows; the loop of a scanner that could spin answers with the error \<open>Spins\<close> when its
  fuel is used up, which the framing theorems show not to happen.  The draw of a batching input has as
  many turns as there are parked batches.

  \<^bold>\<open>What the lemmas show.\<close>  For each state machine an invariant, proved for every operation and lifted to the
  reachable states; from it the safety properties (nothing lost, nothing acknowledged early, bounds)
  and the absence of lost wakeups.  For codecs the round trips and the refusal of damaged input; for
  scanners the framing of the documents they deliver; for assignments disjoint coverage; for caches and
  rate limits a refinement of, or a bound in, abstract terms.  Lemmas under a heading such as ``Gaps''
  show inputs on which the code does less than its comments say.

  \<^bold>\<open>Not modelled.\<close>  Descriptors, sockets, TLS and HTTP transport (input and output of seastar); the generated
  Kafka message classes; the tables of the ciphers and of Unicode; the command line, the configuration
  parser and the code generator; metrics and logging; the parser of the mapping language and its emitter
  (what they hand on is the syntax tree of \<open>Interp\<close>); the parsing of time formats.
\<close>

end
